(* ===== verification/Prelude.thy ===== *)
theory Prelude
  imports Main "HOL-Library.Word" "HOL-Library.List_Lexorder"
begin

text \<open>
  The prelude of the StrikeDB development: the types every component shares (bytes, keys,
  ordered maps), the Rust standard-library operations the sources use (little- and
  big-endian integer conversion, slice \<open>get\<close>, \<open>checked_add\<close>, \<open>saturating_add\<close>,
  \<open>BTreeMap\<close>), the interface of an ordered map as a locale with its interpretation on
  sorted association lists, and the lemma collections the component theories use.

  Conventions.  A \<open>u8\<close> is an \<open>8 word\<close>; an \<open>i64\<close> is a \<open>64 word\<close> read by \<open>sint\<close>, so that
  wrapping and checked arithmetic are those of the machine; \<open>f32\<close> and \<open>f64\<close> are their bit
  patterns.  Commit timestamps, lengths and indices (\<open>u64\<close>, \<open>usize\<close>) are natural numbers;
  where the code narrows or wraps them the definitions write the \<open>mod\<close> out, and the encoders
  below truncate exactly as an \<open>as u32\<close> cast does.
\<close>

unbundle bit_operations_syntax

named_theorems codec \<open>round trips of the binary codecs\<close>
named_theorems wf_intros \<open>well-formedness is preserved\<close>
named_theorems map_reads \<open>what a lookup returns after an update\<close>

type_synonym byte = "8 word"
type_synonym bytes = "byte list"
type_synonym key = bytes
type_synonym i64 = "64 word"

section \<open>Lists and options\<close>

lemma take_append_len [simp]: "n = length xs \<Longrightarrow> take n (xs @ ys) = xs"
  by simp

lemma drop_append_len [simp]: "n = length xs \<Longrightarrow> drop n (xs @ ys) = ys"
  by simp

lemma list_last_exhaust: "xs \<noteq> [] \<Longrightarrow> \<exists>ys y. xs = ys @ [y]"
  by (metis append_butlast_last_id)

lemma takeWhile_dropWhile_snoc: "takeWhile P xs @ dropWhile P xs = xs"
  by simp

lemma fold_invariant_set:
  assumes "P s" and "\<And>x s. x \<in> set xs \<Longrightarrow> P s \<Longrightarrow> P (f x s)"
  shows "P (fold f xs s)"
  using assms by (induction xs arbitrary: s) auto

lemma sorted_wrt_append_single:
  "sorted_wrt R (xs @ [x]) \<longleftrightarrow> sorted_wrt R xs \<and> (\<forall>y\<in>set xs. R y x)"
  by (auto simp: sorted_wrt_append)

text \<open>\<open>buf.get(a..b)\<close>: a sub-slice, or \<open>None\<close> when the range is not inside the buffer.\<close>

definition slice_get :: "'a list \<Rightarrow> nat \<Rightarrow> nat \<Rightarrow> 'a list option" where
  "slice_get buf a b = (if a \<le> b \<and> b \<le> length buf then Some (take (b - a) (drop a buf)) else None)"

lemma slice_get_Some:
  "slice_get buf a b = Some s \<Longrightarrow> a \<le> b \<and> b \<le> length buf \<and> length s = b - a \<and> s = take (b - a) (drop a buf)"
  by (auto simp: slice_get_def split: if_splits)

lemma slice_get_mid [codec]:
  "a = length xs \<Longrightarrow> b = length xs + length ys \<Longrightarrow> slice_get (xs @ ys @ zs) a b = Some ys"
  by (simp add: slice_get_def)

section \<open>Machine integers\<close>

definition u32_max :: nat where "u32_max = 4294967295"
definition u64_max :: nat where "u64_max = 18446744073709551615"

lemma u32_max_pow: "u32_max = 2 ^ 32 - 1"
  by (simp add: u32_max_def)

lemma u64_max_pow: "u64_max = 2 ^ 64 - 1"
  by (simp add: u64_max_def)

text \<open>\<open>u64::saturating_add\<close> on naturals below \<open>2^64\<close>.\<close>

definition sat_add_u64 :: "nat \<Rightarrow> nat \<Rightarrow> nat" where
  "sat_add_u64 a b = min u64_max (a + b)"

text \<open>\<open>i64::checked_add\<close>, \<open>i64::checked_neg\<close>.\<close>

definition checked_add_i64 :: "i64 \<Rightarrow> i64 \<Rightarrow> i64 option" where
  "checked_add_i64 a b =
     (let s = sint a + sint b in if - (2 ^ 63) \<le> s \<and> s < 2 ^ 63 then Some (a + b) else None)"

definition checked_neg_i64 :: "i64 \<Rightarrow> i64 option" where
  "checked_neg_i64 a = (if sint a = - (2 ^ 63) then None else Some (- a))"

lemma sint_of_int_i64:
  "- (2 ^ 63) \<le> i \<Longrightarrow> i < 2 ^ 63 \<Longrightarrow> sint (word_of_int i :: i64) = i"
  by (simp add: signed_take_bit_int_eq_self sint_sbintrunc' )

lemma sint_range_i64: "- (2 ^ 63) \<le> sint (a :: i64) \<and> sint a < 2 ^ 63"
  using sint_range_size [of a] by (simp add: word_size)

lemma checked_add_i64_Some:
  assumes "checked_add_i64 a b = Some c"
  shows "sint c = sint a + sint b"
proof -
  have r: "- (2 ^ 63) \<le> sint a + sint b" "sint a + sint b < 2 ^ 63" and c: "c = a + b"
    using assms by (auto simp: checked_add_i64_def Let_def split: if_splits)
  have "a + b = word_of_int (sint a + sint b)" by simp
  then show ?thesis using c sint_of_int_i64 [OF r] by simp
qed

lemma word_xor_cancel: "(a :: 'a::len word) XOR c = b XOR c \<Longrightarrow> a = b"
  by (metis xor.assoc xor.right_neutral xor_self_eq)

section \<open>Little-endian and big-endian conversion\<close>

text \<open>
  \<open>le_bytes w n\<close> is \<open>(n as uN).to_le_bytes()\<close> for the \<open>w\<close>-byte type: a value that does not
  fit is truncated, as the cast does.  \<open>le_nat\<close> is \<open>from_le_bytes\<close>.
\<close>

fun le_bytes :: "nat \<Rightarrow> nat \<Rightarrow> bytes" where
  "le_bytes 0 n = []"
| "le_bytes (Suc w) n = of_nat n # le_bytes w (n div 256)"

fun le_nat :: "bytes \<Rightarrow> nat" where
  "le_nat [] = 0"
| "le_nat (b # bs) = unat b + 256 * le_nat bs"

definition be_bytes :: "nat \<Rightarrow> nat \<Rightarrow> bytes" where
  "be_bytes w n = rev (le_bytes w n)"

definition be_nat :: "bytes \<Rightarrow> nat" where
  "be_nat bs = le_nat (rev bs)"

lemma length_le_bytes [simp]: "length (le_bytes w n) = w"
  by (induction w arbitrary: n) auto

lemma length_be_bytes [simp]: "length (be_bytes w n) = w"
  by (simp add: be_bytes_def)

lemma le_nat_le_bytes: "le_nat (le_bytes w n) = n mod 256 ^ w"
proof (induction w arbitrary: n)
  case (Suc w)
  have "le_nat (le_bytes (Suc w) n) = n mod 256 + 256 * (n div 256 mod 256 ^ w)"
    using Suc by (simp add: unat_of_nat)
  also have "\<dots> = n mod (256 * 256 ^ w)"
    by (simp add: mod_mult2_eq)
  finally show ?case by simp
qed simp

lemma unat_byte_less: "unat (b :: byte) < 256"
  using unsigned_less [of b, where 'a = nat] by simp

lemma le_bytes_le_nat: "le_bytes (length bs) (le_nat bs) = bs"
proof (induction bs)
  case (Cons b bs)
  have "unat b < 256" by (rule unat_byte_less)
  then have "(unat b + 256 * le_nat bs) div 256 = le_nat bs" by simp
  moreover have z: "(256 :: byte) = 0"
    by code_simp
  have "(of_nat (unat b + 256 * le_nat bs) :: byte) = b"
    by (simp add: z)
  ultimately show ?case using Cons by simp
qed simp

lemma le_nat_bound: "le_nat bs < 256 ^ length bs"
proof (induction bs)
  case (Cons b bs)
  have "unat b < 256" by (rule unat_byte_less)
  with Cons show ?case by simp
qed simp

lemma le_nat_le_bytes_id [codec]: "n < 256 ^ w \<Longrightarrow> le_nat (le_bytes w n) = n"
  by (simp add: le_nat_le_bytes)

lemma be_nat_be_bytes_id [codec]: "n < 256 ^ w \<Longrightarrow> be_nat (be_bytes w n) = n"
  by (simp add: be_nat_def be_bytes_def le_nat_le_bytes)

lemma le_nat_u32 [codec]: "n \<le> u32_max \<Longrightarrow> le_nat (le_bytes 4 n) = n"
  by (rule le_nat_le_bytes_id) (simp add: u32_max_def)

lemma le_nat_u64 [codec]: "n \<le> u64_max \<Longrightarrow> le_nat (le_bytes 8 n) = n"
  by (rule le_nat_le_bytes_id) (simp add: u64_max_def)

lemma be_nat_u64 [codec]: "n \<le> u64_max \<Longrightarrow> be_nat (be_bytes 8 n) = n"
  by (rule be_nat_be_bytes_id) (simp add: u64_max_def)

lemma le_nat_word64 [simp]: "le_nat (le_bytes 8 (unat (w :: 64 word))) = unat w"
  using unsigned_less [of w, where 'a = nat] by (intro le_nat_le_bytes_id) simp

lemma le_nat_word32 [simp]: "le_nat (le_bytes 4 (unat (w :: 32 word))) = unat w"
  using unsigned_less [of w, where 'a = nat] by (intro le_nat_le_bytes_id) simp

section \<open>Ordered maps (\<open>BTreeMap\<close>)\<close>

text \<open>
  A \<open>BTreeMap\<close> is the list of its entries in ascending key order.  \<open>bt_wf\<close> is the order
  invariant, which every operation keeps.  Byte-string keys are compared lexicographically
  (\<open>List_Lexorder\<close>), as Rust compares \<open>Vec<u8>\<close>.
\<close>

type_synonym ('k, 'v) btree = "('k \<times> 'v) list"

abbreviation bt_get :: "('k, 'v) btree \<Rightarrow> 'k \<Rightarrow> 'v option" where
  "bt_get \<equiv> map_of"

fun bt_insert :: "'k::linorder \<Rightarrow> 'v \<Rightarrow> ('k, 'v) btree \<Rightarrow> ('k, 'v) btree" where
  "bt_insert k v [] = [(k, v)]"
| "bt_insert k v ((a, b) # m) =
     (if k < a then (k, v) # (a, b) # m
      else if k = a then (k, v) # m
      else (a, b) # bt_insert k v m)"

fun bt_remove :: "'k \<Rightarrow> ('k, 'v) btree \<Rightarrow> ('k, 'v) btree" where
  "bt_remove k [] = []"
| "bt_remove k ((a, b) # m) = (if k = a then m else (a, b) # bt_remove k m)"

definition bt_range :: "('k::linorder, 'v) btree \<Rightarrow> 'k \<Rightarrow> 'k \<Rightarrow> ('k, 'v) btree" where
  "bt_range m lo hi = filter (\<lambda>(k, _). lo \<le> k \<and> k < hi) m"

definition bt_keys :: "('k, 'v) btree \<Rightarrow> 'k list" where
  "bt_keys m = map fst m"

definition bt_wf :: "('k::linorder, 'v) btree \<Rightarrow> bool" where
  "bt_wf m \<longleftrightarrow> sorted_wrt (<) (map fst m)"

lemma bt_wf_Nil [simp]: "bt_wf []"
  by (simp add: bt_wf_def)

lemma bt_wf_Cons: "bt_wf ((k, v) # m) \<longleftrightarrow> (\<forall>x\<in>set m. k < fst x) \<and> bt_wf m"
  by (auto simp: bt_wf_def)

lemma bt_wf_distinct: "bt_wf m \<Longrightarrow> distinct (map fst m)"
  by (auto simp: bt_wf_def strict_sorted_iff)

lemma fst_set_bt_insert: "fst ` set (bt_insert k v m) = insert k (fst ` set m)"
  by (induction k v m rule: bt_insert.induct) auto

lemma set_bt_insert: "set (bt_insert k v m) \<subseteq> insert (k, v) (set m)"
  by (induction k v m rule: bt_insert.induct) auto

lemma set_bt_remove: "set (bt_remove k m) \<subseteq> set m"
  by (induction k m rule: bt_remove.induct) auto

lemma bt_wf_insert: "bt_wf m \<Longrightarrow> bt_wf (bt_insert k v m)"
proof (induction k v m rule: bt_insert.induct)
  case (2 k v a b m)
  then show ?case
    using set_bt_insert [of k v m] by (fastforce simp: bt_wf_Cons)
qed (simp add: bt_wf_Cons)

lemma bt_wf_remove: "bt_wf m \<Longrightarrow> bt_wf (bt_remove k m)"
proof (induction k m rule: bt_remove.induct)
  case (2 k a b m)
  then show ?case
    using set_bt_remove [of k m] by (auto simp: bt_wf_Cons)
qed simp

lemma bt_get_insert: "bt_get (bt_insert k v m) = (bt_get m)(k \<mapsto> v)"
  by (induction k v m rule: bt_insert.induct) (auto simp: fun_eq_iff)

lemma bt_wf_not_in: "bt_wf ((k, v) # m) \<Longrightarrow> bt_get m k = None"
  by (auto simp: bt_wf_Cons map_of_eq_None_iff)

lemma bt_get_remove: "bt_wf m \<Longrightarrow> bt_get (bt_remove k m) = (bt_get m)(k := None)"
proof (induction k m rule: bt_remove.induct)
  case (2 k a b m)
  then show ?case
    using bt_wf_not_in [of a b m] by (auto simp: fun_eq_iff bt_wf_Cons)
qed (simp add: fun_eq_iff)

text \<open>
  The interface the clients use: what a lookup returns after an update, and that the
  entries come out in key order.
\<close>

locale ordered_map =
  fixes empty :: "'m"
    and insrt :: "'k::linorder \<Rightarrow> 'v \<Rightarrow> 'm \<Rightarrow> 'm"
    and remv :: "'k \<Rightarrow> 'm \<Rightarrow> 'm"
    and get :: "'m \<Rightarrow> 'k \<Rightarrow> 'v option"
    and entries :: "'m \<Rightarrow> ('k \<times> 'v) list"
    and wf :: "'m \<Rightarrow> bool"
  assumes get_empty: "get empty = (\<lambda>_. None)"
    and wf_empty: "wf empty"
    and get_insrt: "wf m \<Longrightarrow> get (insrt k v m) = (get m)(k \<mapsto> v)"
    and wf_insrt: "wf m \<Longrightarrow> wf (insrt k v m)"
    and get_remv: "wf m \<Longrightarrow> get (remv k m) = (get m)(k := None)"
    and wf_remv: "wf m \<Longrightarrow> wf (remv k m)"
    and entries_sorted: "wf m \<Longrightarrow> sorted_wrt (<) (map fst (entries m))"
    and get_entries: "wf m \<Longrightarrow> get m = map_of (entries m)"
begin

lemma in_entries: "wf m \<Longrightarrow> (k, v) \<in> set (entries m) \<longleftrightarrow> get m k = Some v"
  using entries_sorted [of m] by (simp add: get_entries strict_sorted_iff)

lemma entries_ext:
  assumes "wf m" and "wf m'" and "get m = get m'"
  shows "entries m = entries m'"
proof (rule map_sorted_distinct_set_unique [where f = fst])
  have s: "set (entries m) = set (entries m')"
    using in_entries [OF assms(1)] in_entries [OF assms(2)] assms(3) by auto
  then show "set (entries m) = set (entries m')" .
  show "sorted (map fst (entries m))" "distinct (map fst (entries m))"
    and "sorted (map fst (entries m'))" "distinct (map fst (entries m'))"
    using entries_sorted [OF assms(1)] entries_sorted [OF assms(2)] by (auto simp: strict_sorted_iff)
  show "inj_on fst (set (entries m) \<union> set (entries m'))"
    using entries_sorted [OF assms(1)] s by (simp add: strict_sorted_iff distinct_map)
qed

lemma wf_insrt_fold: "wf m \<Longrightarrow> wf (fold (\<lambda>(k, v). insrt k v) kvs m)"
  by (induction kvs arbitrary: m) (auto simp: wf_insrt)

lemma get_insrt_fold:
  "wf m \<Longrightarrow> get (fold (\<lambda>(k, v). insrt k v) kvs m) = get m ++ map_of (rev kvs)"
proof (induction kvs arbitrary: m)
  case (Cons a kvs)
  then show ?case
    by (cases a) (simp add: wf_insrt get_insrt map_add_upd_left map_add_assoc fun_eq_iff map_add_def split: option.split)
qed simp

lemma insrt_commute_entries:
  "wf m \<Longrightarrow> k \<noteq> k' \<Longrightarrow> entries (insrt k v (insrt k' v' m)) = entries (insrt k' v' (insrt k v m))"
  by (rule entries_ext) (auto simp: wf_insrt get_insrt fun_upd_twist)

end

interpretation bt: ordered_map "[]" bt_insert bt_remove map_of "\<lambda>m. m" bt_wf
  by unfold_locales
    (simp_all add: bt_get_insert bt_get_remove bt_wf_insert bt_wf_remove flip: bt_wf_def)

lemmas bt_reads [map_reads] = bt.get_insrt bt.get_remv
lemmas bt_wfs [wf_intros] = bt.wf_insrt bt.wf_remv

lemma bt_range_wf [wf_intros]: "bt_wf m \<Longrightarrow> bt_wf (bt_range m lo hi)"
  by (auto simp: bt_wf_def bt_range_def sorted_wrt_map sorted_wrt_filter)

lemma bt_get_range:
  "bt_wf m \<Longrightarrow> bt_get (bt_range m lo hi) k = (if lo \<le> k \<and> k < hi then bt_get m k else None)"
  by (induction m) (auto simp: bt_range_def bt_wf_Cons map_of_eq_None_iff)

text \<open>How an update changes the number of entries with a property.\<close>

lemma count_bt_insert:
  "bt_wf m \<Longrightarrow> int (length (filter P (bt_insert k v m))) =
     int (length (filter P m)) + of_bool (P (k, v))
     - (case bt_get m k of None \<Rightarrow> 0 | Some u \<Rightarrow> of_bool (P (k, u)))"
proof (induction k v m rule: bt_insert.induct)
  case (2 k v a b m)
  consider "k < a" | "k = a" | "a < k" by fastforce
  then show ?case
  proof cases
    case 1
    then have "bt_get ((a, b) # m) k = None"
      using 2(2) by (auto simp: bt_wf_Cons map_of_eq_None_iff)
    then show ?thesis using 1 by simp
  next
    case 3
    then show ?thesis using 2 by (auto simp: bt_wf_Cons)
  qed simp
qed simp

lemma count_bt_remove:
  "bt_wf m \<Longrightarrow> int (length (filter P (bt_remove k m))) =
     int (length (filter P m)) - (case bt_get m k of None \<Rightarrow> 0 | Some u \<Rightarrow> of_bool (P (k, u)))"
  by (induction k m rule: bt_remove.induct) (auto simp: bt_wf_Cons)

lemma bt_in_set: "bt_wf m \<Longrightarrow> (k, v) \<in> set m \<longleftrightarrow> bt_get m k = Some v"
  by (rule bt.in_entries)

end
