(* ===== verification/Decimal.thy ===== *)
theory Decimal
  imports Prelude
begin

text \<open>
  Decimal text of machine integers: what \<open>i64::to_string\<close> prints, what \<open>str::parse::<i64>\<close>
  accepts, and the stricter parser of \<open>crates/storage/src/engine.rs\<close> (\<open>parse_strict_i64\<close>),
  which the counters, the keyspace commands and the RESP layer share.  The lemmas show that
  the strict parser accepts exactly the canonical rendering of an \<open>i64\<close>.
\<close>

definition digit_byte :: "nat \<Rightarrow> byte" where
  "digit_byte d = of_nat (48 + d)"

definition is_digit :: "byte \<Rightarrow> bool" where
  "is_digit b \<longleftrightarrow> 48 \<le> unat b \<and> unat b \<le> 57"

definition digit_val :: "byte \<Rightarrow> nat" where
  "digit_val b = unat b - 48"

fun show_nat :: "nat \<Rightarrow> bytes" where
  "show_nat n = (if n < 10 then [digit_byte n] else show_nat (n div 10) @ [digit_byte (n mod 10)])"

declare show_nat.simps [simp del]

definition digits_val :: "bytes \<Rightarrow> nat" where
  "digits_val ds = foldl (\<lambda>acc b. 10 * acc + digit_val b) 0 ds"

text \<open>\<open>i64::to_string\<close>.\<close>

definition show_i64 :: "i64 \<Rightarrow> bytes" where
  "show_i64 w = (if sint w < 0 then 45 # show_nat (nat (- sint w)) else show_nat (nat (sint w)))"

text \<open>\<open>str::parse::<i64>\<close>: an optional sign, at least one digit, no overflow.\<close>

definition i64_of_int :: "int \<Rightarrow> i64 option" where
  "i64_of_int i = (if - (2 ^ 63) \<le> i \<and> i < 2 ^ 63 then Some (word_of_int i) else None)"

definition rust_parse_i64 :: "bytes \<Rightarrow> i64 option" where
  "rust_parse_i64 b =
     (let neg = (b \<noteq> [] \<and> hd b = 45);
          ds = (if b \<noteq> [] \<and> (hd b = 45 \<or> hd b = 43) then tl b else b)
      in if ds = [] \<or> \<not> list_all is_digit ds then None
         else i64_of_int (if neg then - int (digits_val ds) else int (digits_val ds)))"

definition parse_strict_i64 :: "bytes \<Rightarrow> i64 option" where
  "parse_strict_i64 b =
     (let digits = (if b \<noteq> [] \<and> hd b = 45 then tl b else b)
      in if digits = [] \<or> length digits > 20 \<or> \<not> list_all is_digit digits then None
         else if hd digits = 48 \<and> (length digits > 1 \<or> length b \<noteq> length digits) then None
         else rust_parse_i64 b)"

section \<open>Digits\<close>

lemma unat_digit_byte: "d < 10 \<Longrightarrow> unat (digit_byte d) = 48 + d"
  by (simp only: digit_byte_def unat_of_nat) simp

lemma is_digit_byte: "d < 10 \<Longrightarrow> is_digit (digit_byte d)"
  by (simp add: is_digit_def unat_digit_byte)

lemma digit_val_byte: "d < 10 \<Longrightarrow> digit_val (digit_byte d) = d"
  by (simp add: digit_val_def unat_digit_byte)

lemma digit_byte_val: "is_digit b \<Longrightarrow> digit_byte (digit_val b) = b"
  by (simp add: is_digit_def digit_val_def digit_byte_def word_unat_eq_iff unat_of_nat unat_byte_less
      del: of_nat_add of_nat_diff)

lemma digit_val_less: "is_digit b \<Longrightarrow> digit_val b < 10"
  by (auto simp: is_digit_def digit_val_def)

lemma not_digit_sign: "is_digit b \<Longrightarrow> b \<noteq> 45 \<and> b \<noteq> 43"
  by (auto simp: is_digit_def)

lemma digits_val_snoc [simp]: "digits_val (ds @ [b]) = 10 * digits_val ds + digit_val b"
  by (simp add: digits_val_def)

lemma digits_val_Nil [simp]: "digits_val [] = 0"
  by (simp add: digits_val_def)

lemma show_nat_nonempty: "show_nat n \<noteq> []"
  by (subst show_nat.simps) simp

lemma show_nat_digits: "list_all is_digit (show_nat n)"
proof (induction n rule: show_nat.induct)
  case (1 n)
  then show ?case
    by (cases "n < 10") (simp_all add: show_nat.simps [of n] is_digit_byte)
qed

lemma digits_val_show_nat: "digits_val (show_nat n) = n"
proof (induction n rule: show_nat.induct)
  case (1 n)
  then show ?case
    using digits_val_snoc [of "[]"]
    by (cases "n < 10") (simp_all add: show_nat.simps [of n] digit_val_byte)
qed

lemma digit_byte_zero: "d < 10 \<Longrightarrow> digit_byte d = 48 \<longleftrightarrow> d = 0"
  using unat_digit_byte [of d] by (auto simp: word_unat_eq_iff)

lemma show_nat_leading: "hd (show_nat n) = 48 \<Longrightarrow> n = 0"
proof (induction n rule: show_nat.induct)
  case (1 n)
  show ?case
  proof (cases "n < 10")
    case True
    then show ?thesis using "1.prems" by (simp add: show_nat.simps [of n] digit_byte_zero)
  next
    case False
    have "hd (show_nat (n div 10)) = 48"
      using "1.prems" False by (simp add: show_nat.simps [of n] show_nat_nonempty)
    then have "n div 10 = 0" using "1.IH" False by blast
    then show ?thesis using False by simp
  qed
qed

lemma length_show_nat: "n < 10 ^ Suc k \<Longrightarrow> length (show_nat n) \<le> Suc k"
proof (induction k arbitrary: n)
  case 0
  then show ?case by (simp add: show_nat.simps [of n])
next
  case (Suc k)
  show ?case
  proof (cases "n < 10")
    case True
    then show ?thesis by (simp add: show_nat.simps [of n])
  next
    case False
    have "n div 10 < 10 ^ Suc k" using Suc.prems by (simp add: div_less_iff_less_mult mult.commute)
    then show ?thesis using Suc.IH [of "n div 10"] False by (simp add: show_nat.simps [of n])
  qed
qed

text \<open>A digit string without a superfluous leading zero is the rendering of its value.\<close>

lemma show_nat_digits_val:
  "ds \<noteq> [] \<Longrightarrow> list_all is_digit ds \<Longrightarrow> hd ds = 48 \<longrightarrow> length ds = 1 \<Longrightarrow> show_nat (digits_val ds) = ds"
proof (induction ds rule: rev_induct)
  case (snoc b ds)
  then have b: "is_digit b" by simp
  show ?case
  proof (cases "ds = []")
    case True
    then show ?thesis
      using digits_val_snoc [of "[]" b] digit_val_less [OF b] digit_byte_val [OF b]
      by (simp add: show_nat.simps [of "digit_val b"])
  next
    case False
    then have hd48: "hd ds \<noteq> 48" using snoc.prems by auto
    have IH: "show_nat (digits_val ds) = ds" using snoc False hd48 by simp
    have pos: "0 < digits_val ds"
    proof (rule ccontr)
      assume "\<not> 0 < digits_val ds"
      then have "ds = [digit_byte 0]" using IH by (simp add: show_nat.simps [of 0])
      then show False using hd48 by (simp add: digit_byte_def)
    qed
    have "show_nat (10 * digits_val ds + digit_val b) = show_nat (digits_val ds) @ [digit_byte (digit_val b)]"
      using pos digit_val_less [OF b] by (subst show_nat.simps) simp
    then show ?thesis using IH digit_byte_val [OF b] by simp
  qed
qed simp

lemma i64_of_int_sint: "i64_of_int i = Some w \<Longrightarrow> sint w = i"
  unfolding i64_of_int_def by (metis option.distinct(1) option.inject sint_of_int_i64)

section \<open>The strict parser accepts exactly the canonical rendering\<close>

lemma hd_show_nat_digit: "is_digit (hd (show_nat n))"
  using show_nat_digits [of n] show_nat_nonempty [of n] by (cases "show_nat n") auto

lemma rust_parse_show_i64: "rust_parse_i64 (show_i64 w) = Some w"
proof -
  have h: "hd (show_nat n) \<noteq> 45 \<and> hd (show_nat n) \<noteq> 43" for n
    using not_digit_sign [OF hd_show_nat_digit] .
  have s: "- (2 ^ 63) \<le> sint w" "sint w < 2 ^ 63" using sint_range_i64 by blast+
  show ?thesis
    using s h show_nat_digits show_nat_nonempty
    by (auto simp: rust_parse_i64_def show_i64_def digits_val_show_nat i64_of_int_def Let_def)
qed

lemma nat_abs_i64_length: "length (show_nat (nat \<bar>sint (w :: i64)\<bar>)) \<le> 19"
proof -
  have "\<bar>sint w\<bar> \<le> 2 ^ 63" using sint_range_i64 [of w] by auto
  then have "nat \<bar>sint w\<bar> < 10 ^ Suc 18" by simp
  then show ?thesis using length_show_nat by fastforce
qed

lemma show_nat_single: "hd (show_nat n) = 48 \<Longrightarrow> length (show_nat n) = 1 \<and> n = 0"
  using show_nat_leading [of n] by (auto simp: show_nat.simps [of 0])

lemma parse_strict_digits:
  assumes "length (show_nat n) \<le> 20"
  shows "parse_strict_i64 (show_nat n) = rust_parse_i64 (show_nat n)"
proof -
  have "hd (show_nat n) \<noteq> 45" using not_digit_sign [OF hd_show_nat_digit] by blast
  moreover have "hd (show_nat n) = 48 \<longrightarrow> length (show_nat n) = 1" using show_nat_single by blast
  ultimately show ?thesis
    using assms show_nat_nonempty [of n] show_nat_digits [of n] by (auto simp: parse_strict_i64_def Let_def)
qed

lemma parse_strict_neg_digits:
  assumes "length (show_nat n) \<le> 20" and "n \<noteq> 0"
  shows "parse_strict_i64 (45 # show_nat n) = rust_parse_i64 (45 # show_nat n)"
proof -
  have "hd (show_nat n) \<noteq> 48" using show_nat_single assms(2) by blast
  then show ?thesis
    using assms show_nat_nonempty [of n] show_nat_digits [of n] by (simp add: parse_strict_i64_def)
qed

lemma parse_strict_show_i64: "parse_strict_i64 (show_i64 w) = Some w"
proof -
  have l: "length (show_nat (nat \<bar>sint w\<bar>)) \<le> 20" using nat_abs_i64_length [of w] by simp
  show ?thesis
  proof (cases "sint w < 0")
    case True
    then have e: "show_i64 w = 45 # show_nat (nat \<bar>sint w\<bar>)" by (simp add: show_i64_def)
    show ?thesis
      using parse_strict_neg_digits [OF l] True rust_parse_show_i64 [of w] by (simp add: e)
  next
    case False
    then have e: "show_i64 w = show_nat (nat \<bar>sint w\<bar>)" by (simp add: show_i64_def)
    show ?thesis
      using parse_strict_digits [OF l] rust_parse_show_i64 [of w] by (simp add: e)
  qed
qed

lemma parse_strict_canonical:
  assumes "parse_strict_i64 b = Some w"
  shows "b = show_i64 w"
proof -
  define ds where "ds = (if b \<noteq> [] \<and> hd b = 45 then tl b else b)"
  have n: "\<not> (ds = [] \<or> length ds > 20 \<or> \<not> list_all is_digit ds)"
    and zz: "\<not> (hd ds = 48 \<and> (length ds > 1 \<or> length b \<noteq> length ds))" and p: "rust_parse_i64 b = Some w"
    using assms unfolding parse_strict_i64_def ds_def [symmetric] Let_def by (metis option.distinct(1))+
  have ds: "ds \<noteq> []" "list_all is_digit ds" using n by auto
  have z: "hd ds = 48 \<longrightarrow> length ds = 1 \<and> length b = length ds"
    using zz ds(1) by (cases ds) auto
  have sh: "show_nat (digits_val ds) = ds" using ds z by (intro show_nat_digits_val) auto
  have hd_ds: "hd ds \<noteq> 45" "hd ds \<noteq> 43" using ds not_digit_sign by (cases ds; simp)+
  show ?thesis
  proof (cases "b \<noteq> [] \<and> hd b = 45")
    case True
    then have b: "b = 45 # ds" by (cases b) (auto simp: ds_def)
    have "i64_of_int (- int (digits_val ds)) = Some w"
      using p True b ds by (simp add: rust_parse_i64_def)
    then have s: "sint w = - int (digits_val ds)"
      by (rule i64_of_int_sint)
    have "digits_val ds \<noteq> 0"
    proof
      assume "digits_val ds = 0"
      then have "ds = [digit_byte 0]" using sh by (simp add: show_nat.simps [of 0])
      then show False using z b by (simp add: digit_byte_def)
    qed
    then show ?thesis using s b sh by (simp add: show_i64_def)
  next
    case False
    then have b: "b = ds" by (auto simp: ds_def)
    have "i64_of_int (int (digits_val ds)) = Some w"
      using p False b ds hd_ds by (simp add: rust_parse_i64_def Let_def)
    then have s: "sint w = int (digits_val ds)"
      by (rule i64_of_int_sint)
    then show ?thesis using b sh by (simp add: show_i64_def)
  qed
qed

end
