(* ===== verification/Value_Codec.thy ===== *)
theory Value_Codec
  imports Prelude
begin

text \<open>
  The values of the storage substrate and their binary codec
  (\<open>crates/storage/src/value.rs\<close>): a tag byte, then the payload, lengths as
  little-endian \<open>u32\<close>.  Decoding walks the buffer with an explicit cursor, as the source does.
  The interface every codec of the engine satisfies, decoding an encoding followed by anything
  gives the value back, is the locale \<open>byte_codec\<close>; it makes codes prefix-free.
\<close>

section \<open>UTF-8 validity (\<open>String::from_utf8\<close>)\<close>

definition in_bytes :: "nat \<Rightarrow> nat \<Rightarrow> byte \<Rightarrow> bool" where
  "in_bytes lo hi b \<longleftrightarrow> lo \<le> unat b \<and> unat b \<le> hi"

fun utf8_valid :: "bytes \<Rightarrow> bool" where
  "utf8_valid [] = True"
| "utf8_valid (b # bs) =
     (if in_bytes 0 127 b then utf8_valid bs
      else if in_bytes 194 223 b then
        (case bs of c # r \<Rightarrow> in_bytes 128 191 c \<and> utf8_valid r | _ \<Rightarrow> False)
      else if in_bytes 224 239 b then
        (case bs of c # d # r \<Rightarrow>
            in_bytes (if b = 224 then 160 else 128) (if b = 237 then 159 else 191) c
            \<and> in_bytes 128 191 d \<and> utf8_valid r
         | _ \<Rightarrow> False)
      else if in_bytes 240 244 b then
        (case bs of c # d # e # r \<Rightarrow>
            in_bytes (if b = 240 then 144 else 128) (if b = 244 then 143 else 191) c
            \<and> in_bytes 128 191 d \<and> in_bytes 128 191 e \<and> utf8_valid r
         | _ \<Rightarrow> False)
      else False)"

lemma utf8_valid_ascii: "list_all (in_bytes 0 127) bs \<Longrightarrow> utf8_valid bs"
  by (induction bs) auto

section \<open>The codec interface\<close>

locale byte_codec =
  fixes enc :: "'a \<Rightarrow> bytes"
    and dec :: "bytes \<Rightarrow> 'a option"
    and ok :: "'a \<Rightarrow> bool"
  assumes dec_enc: "ok x \<Longrightarrow> dec (enc x @ rest) = Some x"
begin

lemma dec_enc_exact: "ok x \<Longrightarrow> dec (enc x) = Some x"
  using dec_enc [of x "[]"] by simp

lemma enc_inj: "ok x \<Longrightarrow> ok y \<Longrightarrow> enc x = enc y \<Longrightarrow> x = y"
  using dec_enc_exact by (metis option.inject)

lemma prefix_free: "ok x \<Longrightarrow> ok y \<Longrightarrow> enc x @ r = enc y @ s \<Longrightarrow> x = y \<and> r = s"
  using dec_enc by (metis option.inject same_append_eq)

end

section \<open>Values\<close>

datatype val =
    VBytes bytes
  | VInt i64
  | VFloat "64 word"
  | VVector "32 word list"
  | VRow "(bytes, bytes) btree"
  | VTombstone
  | VMeta bytes

definition put_u32 :: "nat \<Rightarrow> bytes" where
  "put_u32 v = le_bytes 4 v"

text \<open>\<open>get_u32\<close> returns the number read and the advanced cursor.\<close>

definition get_u32 :: "bytes \<Rightarrow> nat \<Rightarrow> (nat \<times> nat) option" where
  "get_u32 buf pos =
     (case slice_get buf pos (pos + 4) of None \<Rightarrow> None | Some b \<Rightarrow> Some (le_nat b, pos + 4))"

fun encode :: "val \<Rightarrow> bytes" where
  "encode (VBytes b) = 1 # put_u32 (length b) @ b"
| "encode (VInt i) = 2 # le_bytes 8 (unat i)"
| "encode (VFloat f) = 6 # le_bytes 8 (unat f)"
| "encode (VVector v) = 3 # put_u32 (length v) @ concat (map (\<lambda>f. le_bytes 4 (unat f)) v)"
| "encode (VRow m) =
     4 # put_u32 (length m)
     @ concat (map (\<lambda>(k, v). put_u32 (length k) @ k @ put_u32 (length v) @ v) m)"
| "encode VTombstone = [5]"
| "encode (VMeta b) = 7 # put_u32 (length b) @ b"

fun decode_vec :: "bytes \<Rightarrow> nat \<Rightarrow> nat \<Rightarrow> 32 word list option" where
  "decode_vec buf pos 0 = Some []"
| "decode_vec buf pos (Suc n) =
     (case slice_get buf pos (pos + 4) of
        None \<Rightarrow> None
      | Some b \<Rightarrow>
          (case decode_vec buf (pos + 4) n of
             None \<Rightarrow> None
           | Some v \<Rightarrow> Some (of_nat (le_nat b) # v)))"

fun decode_row :: "bytes \<Rightarrow> nat \<Rightarrow> nat \<Rightarrow> (bytes, bytes) btree \<Rightarrow> (bytes, bytes) btree option" where
  "decode_row buf pos 0 m = Some m"
| "decode_row buf pos (Suc n) m =
     (case get_u32 buf pos of None \<Rightarrow> None | Some (kl, pos) \<Rightarrow>
      case slice_get buf pos (pos + kl) of None \<Rightarrow> None | Some k \<Rightarrow>
      if \<not> utf8_valid k then None else
      case get_u32 buf (pos + kl) of None \<Rightarrow> None | Some (vl, pos) \<Rightarrow>
      case slice_get buf pos (pos + vl) of None \<Rightarrow> None | Some v \<Rightarrow>
      decode_row buf (pos + vl) n (bt_insert k v m))"

definition decode :: "bytes \<Rightarrow> val option" where
  "decode buf =
     (case buf of
        [] \<Rightarrow> None
      | tag # _ \<Rightarrow>
          if tag = 1 then
            (case get_u32 buf 1 of None \<Rightarrow> None | Some (n, pos) \<Rightarrow>
             map_option VBytes (slice_get buf pos (pos + n)))
          else if tag = 2 then map_option (\<lambda>b. VInt (of_nat (le_nat b))) (slice_get buf 1 9)
          else if tag = 6 then map_option (\<lambda>b. VFloat (of_nat (le_nat b))) (slice_get buf 1 9)
          else if tag = 3 then
            (case get_u32 buf 1 of None \<Rightarrow> None | Some (n, pos) \<Rightarrow>
             map_option VVector (decode_vec buf pos n))
          else if tag = 4 then
            (case get_u32 buf 1 of None \<Rightarrow> None | Some (n, pos) \<Rightarrow>
             map_option VRow (decode_row buf pos n []))
          else if tag = 5 then Some VTombstone
          else if tag = 7 then
            (case get_u32 buf 1 of None \<Rightarrow> None | Some (n, pos) \<Rightarrow>
             map_option VMeta (slice_get buf pos (pos + n)))
          else None)"

text \<open>
  The values an encoder can represent: lengths fit a \<open>u32\<close>, a row is a map (keys ascending)
  whose keys are strings.
\<close>

fun value_ok :: "val \<Rightarrow> bool" where
  "value_ok (VBytes b) = (length b \<le> u32_max)"
| "value_ok (VVector v) = (length v \<le> u32_max)"
| "value_ok (VRow m) =
     (bt_wf m \<and> length m \<le> u32_max \<and>
      list_all (\<lambda>(k, v). utf8_valid k \<and> length k \<le> u32_max \<and> length v \<le> u32_max) m)"
| "value_ok (VMeta b) = (length b \<le> u32_max)"
| "value_ok _ = True"

section \<open>Round trip\<close>

lemma length_put_u32 [simp]: "length (put_u32 n) = 4"
  by (simp add: put_u32_def)

lemma get_u32_put [codec]:
  "pos = length pre \<Longrightarrow> n \<le> u32_max \<Longrightarrow>
   get_u32 (pre @ put_u32 n @ post) pos = Some (n, pos + 4)"
  by (simp add: get_u32_def slice_get_mid put_u32_def le_nat_u32)

lemma decode_vec_encode:
  "pos = length pre \<Longrightarrow>
   decode_vec (pre @ concat (map (\<lambda>f. le_bytes 4 (unat f)) v) @ post) pos (length v) = Some v"
proof (induction v arbitrary: pre pos)
  case (Cons f v)
  have "decode_vec ((pre @ le_bytes 4 (unat f)) @ concat (map (\<lambda>f. le_bytes 4 (unat f)) v) @ post)
          (pos + 4) (length v) = Some v"
    by (rule Cons.IH) (simp add: Cons.prems)
  moreover have "slice_get (pre @ le_bytes 4 (unat f) @ concat (map (\<lambda>f. le_bytes 4 (unat f)) v) @ post)
      pos (pos + 4) = Some (le_bytes 4 (unat f))"
    by (rule slice_get_mid) (simp_all add: Cons.prems)
  ultimately show ?case by simp
qed simp

lemma decode_row_encode:
  "pos = length pre \<Longrightarrow>
   list_all (\<lambda>(k, v). utf8_valid k \<and> length k \<le> u32_max \<and> length v \<le> u32_max) m \<Longrightarrow>
   decode_row (pre @ concat (map (\<lambda>(k, v). put_u32 (length k) @ k @ put_u32 (length v) @ v) m) @ post)
     pos (length m) acc = Some (fold (\<lambda>(k, v). bt_insert k v) m acc)"
proof (induction m arbitrary: pre pos acc)
  case (Cons a m)
  obtain k v where a: "a = (k, v)" by (cases a)
  let ?rest = "concat (map (\<lambda>(k, v). put_u32 (length k) @ k @ put_u32 (length v) @ v) m) @ post"
  let ?buf = "pre @ put_u32 (length k) @ k @ put_u32 (length v) @ v @ ?rest"
  have 1: "get_u32 ?buf pos = Some (length k, pos + 4)"
    using Cons.prems a by (intro get_u32_put) auto
  have 2: "slice_get ?buf (pos + 4) (pos + 4 + length k) = Some k"
    using slice_get_mid [of "pos + 4" "pre @ put_u32 (length k)" "pos + 4 + length k" k] Cons.prems by simp
  have 3: "get_u32 ?buf (pos + 4 + length k) = Some (length v, pos + 4 + length k + 4)"
    using get_u32_put [of "pos + 4 + length k" "pre @ put_u32 (length k) @ k" "length v"] Cons.prems a by simp
  have 4: "slice_get ?buf (pos + 4 + length k + 4) (pos + 4 + length k + 4 + length v) = Some v"
    using slice_get_mid [of "pos + 4 + length k + 4" "pre @ put_u32 (length k) @ k @ put_u32 (length v)"
        "pos + 4 + length k + 4 + length v" v] Cons.prems by simp
  have 5: "decode_row ?buf (pos + 4 + length k + 4 + length v) (length m) (bt_insert k v acc)
      = Some (fold (\<lambda>(k, v). bt_insert k v) m (bt_insert k v acc))"
    using Cons.IH [of "pos + 4 + length k + 4 + length v" "pre @ put_u32 (length k) @ k @ put_u32 (length v) @ v"]
      Cons.prems a by simp
  show ?case using 1 2 3 4 5 Cons.prems a by simp
qed simp

lemma bt_insert_snoc: "\<forall>x\<in>set acc. fst x < k \<Longrightarrow> bt_insert k v acc = acc @ [(k, v)]"
  by (induction acc) (auto dest: order_less_asym)

lemma fold_bt_insert_sorted:
  "bt_wf (acc @ m) \<Longrightarrow> fold (\<lambda>(k, v). bt_insert k v) m acc = acc @ m"
proof (induction m arbitrary: acc)
  case (Cons a m)
  obtain k v where a: "a = (k, v)" by (cases a)
  have "\<forall>x\<in>set acc. fst x < k" using Cons.prems a by (auto simp: bt_wf_def sorted_wrt_append)
  then have "bt_insert k v acc = acc @ [a]" using a by (simp add: bt_insert_snoc)
  then show ?case using Cons.IH [of "acc @ [a]"] Cons.prems a by simp
qed simp

lemma decode_encode: "value_ok v \<Longrightarrow> decode (encode v @ rest) = Some v"
proof (cases v)
  case (VBytes b)
  assume ok: "value_ok v"
  have "get_u32 ([1] @ put_u32 (length b) @ b @ rest) 1 = Some (length b, 1 + 4)"
    using ok VBytes by (intro get_u32_put) auto
  moreover have "slice_get ([1] @ put_u32 (length b) @ b @ rest) 5 (5 + length b) = Some b"
    using slice_get_mid [of 5 "[1] @ put_u32 (length b)" "5 + length b" b rest] by simp
  ultimately show ?thesis by (simp add: VBytes decode_def)
next
  case (VMeta b)
  assume ok: "value_ok v"
  have "get_u32 ([7] @ put_u32 (length b) @ b @ rest) 1 = Some (length b, 1 + 4)"
    using ok VMeta by (intro get_u32_put) auto
  moreover have "slice_get ([7] @ put_u32 (length b) @ b @ rest) 5 (5 + length b) = Some b"
    using slice_get_mid [of 5 "[7] @ put_u32 (length b)" "5 + length b" b rest] by simp
  ultimately show ?thesis by (simp add: VMeta decode_def)
next
  case (VInt i)
  have "slice_get ([2] @ le_bytes 8 (unat i) @ rest) 1 9 = Some (le_bytes 8 (unat i))"
    by (rule slice_get_mid) simp_all
  then show ?thesis by (simp add: VInt decode_def)
next
  case (VFloat f)
  have "slice_get ([6] @ le_bytes 8 (unat f) @ rest) 1 9 = Some (le_bytes 8 (unat f))"
    by (rule slice_get_mid) simp_all
  then show ?thesis by (simp add: VFloat decode_def)
next
  case (VVector w)
  assume ok: "value_ok v"
  let ?es = "concat (map (\<lambda>f. le_bytes 4 (unat f)) w)"
  have "get_u32 ([3] @ put_u32 (length w) @ ?es @ rest) 1 = Some (length w, 1 + 4)"
    using ok VVector by (intro get_u32_put) auto
  moreover have "decode_vec ([3] @ put_u32 (length w) @ ?es @ rest) 5 (length w) = Some w"
    using decode_vec_encode [of 5 "[3] @ put_u32 (length w)" w rest] by simp
  ultimately show ?thesis by (simp add: VVector decode_def)
next
  case (VRow m)
  assume ok: "value_ok v"
  let ?es = "concat (map (\<lambda>(k, v). put_u32 (length k) @ k @ put_u32 (length v) @ v) m)"
  have "get_u32 ([4] @ put_u32 (length m) @ ?es @ rest) 1 = Some (length m, 1 + 4)"
    using ok VRow by (intro get_u32_put) auto
  moreover have "decode_row ([4] @ put_u32 (length m) @ ?es @ rest) 5 (length m) [] = Some m"
    using decode_row_encode [of 5 "[4] @ put_u32 (length m)" m rest "[]"] ok VRow
      fold_bt_insert_sorted [of "[]" m] by simp
  ultimately show ?thesis by (simp add: VRow decode_def)
qed (simp add: decode_def)

interpretation val: byte_codec encode decode value_ok
  by unfold_locales (rule decode_encode)

lemma encode_nonempty: "encode v \<noteq> []"
  by (cases v) simp_all

end
