(* ===== verification/Chain.thy ===== *)
theory Chain
  imports Value_Codec "HOL-Library.Sublist"
begin

text \<open>
  Version chains (\<open>Chain\<close> in \<open>crates/storage/src/engine.rs\<close>): the history of one key, sorted
  by commit timestamp, capped at \<open>MAX_VERSIONS_PER_KEY\<close> versions plus those an open snapshot
  still reads.  The pruning loop swaps kept versions to the front in place; \<open>prune_ref\<close> is
  its specification by recursion over the list, and \<open>prune_loop_ref\<close> the equivalence.
  \<open>chain_tracks c h\<close> says that the chain represents the full history \<open>h\<close>.
\<close>

section \<open>The chain and its operations\<close>

record version =
  v_ts :: nat
  v_value :: val

record chain =
  latest_ts :: nat
  versions :: "version list"
  pruned_ts :: nat
  first_ts :: nat

definition MAX_VERSIONS_PER_KEY :: nat where "MAX_VERSIONS_PER_KEY = 8"

definition chain_default :: chain where
  "chain_default = \<lparr>latest_ts = 0, versions = [], pruned_ts = 0, first_ts = 0\<rparr>"

definition live :: "val \<Rightarrow> val option" where
  "live v = (if v = VTombstone then None else Some v)"

definition chain_latest :: "chain \<Rightarrow> val option" where
  "chain_latest c = (case rev (versions c) of [] \<Rightarrow> None | v # _ \<Rightarrow> live (v_value v))"

text \<open>\<open>slice::partition_point\<close> on a partitioned list: the number of leading elements that satisfy
  the predicate.\<close>

definition partition_point :: "('a \<Rightarrow> bool) \<Rightarrow> 'a list \<Rightarrow> nat" where
  "partition_point P xs = length (takeWhile P xs)"

definition needed :: "nat list \<Rightarrow> nat \<Rightarrow> nat \<Rightarrow> bool" where
  "needed active lo hi =
     (let p = partition_point (\<lambda>s. s < lo) active in p < length active \<and> active ! p < hi)"

definition swap :: "nat \<Rightarrow> nat \<Rightarrow> 'a list \<Rightarrow> 'a list" where
  "swap i j xs = xs[i := xs ! j, j := xs ! i]"

text \<open>The loop \<open>for i in 0..n\<close> of \<open>push\<close>: \<open>k\<close> iterations are left, \<open>w\<close> versions are kept.\<close>

fun prune_loop :: "nat list \<Rightarrow> nat \<Rightarrow> nat \<Rightarrow> nat \<Rightarrow> version list \<Rightarrow> nat \<Rightarrow> version list \<times> nat" where
  "prune_loop active 0 i w vs p = (take w vs, p)"
| "prune_loop active (Suc k) i w vs p =
     (if i \<ge> length vs - MAX_VERSIONS_PER_KEY \<or> needed active (v_ts (vs ! i)) (v_ts (vs ! (i + 1)))
      then prune_loop active k (i + 1) (w + 1) (swap w i vs) p
      else prune_loop active k (i + 1) w vs (max p (v_ts (vs ! i))))"

definition chain_push :: "nat \<Rightarrow> val \<Rightarrow> nat list \<Rightarrow> chain \<Rightarrow> chain" where
  "chain_push ts v active c =
     (let first = (if first_ts c = 0 \<and> pruned_ts c = 0 \<and> versions c = [] then ts else first_ts c);
          pos = partition_point (\<lambda>x. v_ts x \<le> ts) (versions c);
          vs = take pos (versions c) @ \<lparr>v_ts = ts, v_value = v\<rparr> # drop pos (versions c);
          latest = max (latest_ts c) ts;
          n = length vs;
          (vs', p) = (if n > MAX_VERSIONS_PER_KEY then prune_loop active n 0 0 vs (pruned_ts c)
                      else (vs, pruned_ts c))
      in \<lparr>latest_ts = latest, versions = vs', pruned_ts = p, first_ts = first\<rparr>)"

text \<open>The newest version at or before a snapshot, searched from the end.\<close>

definition as_of :: "nat \<Rightarrow> version list \<Rightarrow> version option" where
  "as_of snapshot vs = List.find (\<lambda>v. v_ts v \<le> snapshot) (rev vs)"

definition visible :: "nat \<Rightarrow> chain \<Rightarrow> val option" where
  "visible snapshot c =
     (case as_of snapshot (versions c) of None \<Rightarrow> None | Some v \<Rightarrow> live (v_value v))"

section \<open>Searching a history\<close>

lemma find_append: "List.find P (xs @ ys) = (case List.find P xs of None \<Rightarrow> List.find P ys | Some x \<Rightarrow> Some x)"
  by (induction xs) auto

lemma as_of_Nil [simp]: "as_of s [] = None"
  by (simp add: as_of_def)

lemma as_of_Cons:
  "as_of s (v # vs) = (case as_of s vs of None \<Rightarrow> (if v_ts v \<le> s then Some v else None) | Some x \<Rightarrow> Some x)"
  by (simp add: as_of_def find_append split: option.splits)

lemma as_of_snoc: "as_of s (vs @ [v]) = (if v_ts v \<le> s then Some v else as_of s vs)"
  by (simp add: as_of_def)

lemma as_of_append: "as_of s (xs @ ys) = (case as_of s ys of None \<Rightarrow> as_of s xs | Some x \<Rightarrow> Some x)"
  by (simp add: as_of_def find_append split: option.split)

lemma as_of_None: "as_of s vs = None \<longleftrightarrow> (\<forall>v\<in>set vs. s < v_ts v)"
  by (auto simp: as_of_def find_None_iff not_le)

lemma as_of_in: "as_of s vs = Some v \<Longrightarrow> v \<in> set vs \<and> v_ts v \<le> s"
  by (auto simp: as_of_def find_Some_iff) (metis nth_mem set_rev length_rev)

lemma as_of_newest: "as_of s vs = Some v \<Longrightarrow> sorted (map v_ts vs) \<Longrightarrow> x \<in> set vs \<Longrightarrow> v_ts x \<le> s \<Longrightarrow> v_ts x \<le> v_ts v"
  by (induction vs) (auto simp: as_of_Cons as_of_None split: option.splits if_splits dest: as_of_in)

lemma subseq_set: "subseq ys xs \<Longrightarrow> set ys \<subseteq> set xs"
  by (metis set_nths_subset subseq_conv_nths)

lemma subseq_sorted_ts: "subseq ys xs \<Longrightarrow> sorted (map v_ts xs) \<Longrightarrow> sorted (map v_ts ys)"
  by (induction rule: list_emb.induct) (auto dest: subseq_set)

text \<open>Dropping versions that are not the answer does not change the answer.\<close>

lemma as_of_subseq:
  assumes "subseq ys xs" and "as_of s xs = Some v" and "v \<in> set ys" and "sorted (map v_ts xs)"
    and "\<forall>x\<in>set xs. v_ts x = v_ts v \<longrightarrow> x = v"
  shows "as_of s ys = Some v"
proof -
  have ys: "set ys \<subseteq> set xs" using assms(1) by (rule subseq_set)
  have v: "v_ts v \<le> s" using as_of_in assms(2) by blast
  then obtain u where u: "as_of s ys = Some u"
    using assms(3) as_of_None [of s ys] by (cases "as_of s ys") auto
  have sys: "sorted (map v_ts ys)"
    using assms(1,4) by (rule subseq_sorted_ts)
  have "v_ts v \<le> v_ts u" using as_of_newest [OF u sys] assms(3) v by blast
  moreover have "v_ts u \<le> v_ts v"
    using as_of_newest [OF assms(2,4)] as_of_in [OF u] ys by blast
  ultimately show ?thesis using u assms(5) as_of_in [OF u] ys by (metis antisym subsetD)
qed

section \<open>The pruning loop\<close>

text \<open>Its specification: recursion over the versions.\<close>

fun prune_ref :: "nat list \<Rightarrow> version list \<Rightarrow> nat \<Rightarrow> version list \<times> nat" where
  "prune_ref active [] p = ([], p)"
| "prune_ref active (v # rest) p =
     (if length rest < MAX_VERSIONS_PER_KEY then (v # rest, p)
      else if needed active (v_ts v) (v_ts (hd rest))
      then (case prune_ref active rest p of (ks, p') \<Rightarrow> (v # ks, p'))
      else prune_ref active rest (max p (v_ts v)))"

lemma length_swap [simp]: "length (swap i j xs) = length xs"
  by (simp add: swap_def)

lemma swap_split:
  assumes "w \<le> i" and "i < length xs"
  shows "take (Suc w) (swap w i xs) = take w xs @ [xs ! i]" and "drop (Suc i) (swap w i xs) = drop (Suc i) xs"
  using assms by (auto simp: swap_def take_Suc_conv_app_nth nth_list_update)

lemma prune_ref_short: "length vs \<le> MAX_VERSIONS_PER_KEY \<Longrightarrow> prune_ref a vs p = (vs, p)"
  by (cases vs) auto

lemma prune_loop_ref:
  "k = length vs - i \<Longrightarrow> w \<le> i \<Longrightarrow> i \<le> length vs \<Longrightarrow>
   prune_loop a k i w vs p = (case prune_ref a (drop i vs) p of (ks, p') \<Rightarrow> (take w vs @ ks, p'))"
proof (induction k arbitrary: i w vs p)
  case (Suc k)
  have i: "i < length vs" using Suc.prems by simp
  have d: "drop i vs = vs ! i # drop (Suc i) vs" using i by (simp add: Cons_nth_drop_Suc)
  have kept: "prune_loop a k (i + 1) (w + 1) (swap w i vs) p =
      (case prune_ref a (drop (Suc i) vs) p of (ks, p') \<Rightarrow> (take w vs @ vs ! i # ks, p'))"
  proof -
    have "k = length (swap w i vs) - Suc i" using Suc.prems by simp
    from Suc.IH [OF this] show ?thesis
      using Suc.prems i swap_split [of w i vs] by (simp split: prod.splits)
  qed
  have dropped: "prune_loop a k (i + 1) w vs p' =
      (case prune_ref a (drop (Suc i) vs) p' of (ks, p') \<Rightarrow> (take w vs @ ks, p'))" for p'
  proof -
    have "k = length vs - Suc i" using Suc.prems by simp
    from Suc.IH [OF this] show ?thesis using Suc.prems i by simp
  qed
  have hd: "vs ! Suc i = hd (drop (Suc i) vs)" if "length (drop (Suc i) vs) \<ge> MAX_VERSIONS_PER_KEY"
    using that by (simp add: hd_drop_conv_nth MAX_VERSIONS_PER_KEY_def)
  show ?case
  proof (cases "length (drop (Suc i) vs) < MAX_VERSIONS_PER_KEY")
    case True
    then have "i \<ge> length vs - MAX_VERSIONS_PER_KEY" by (simp add: MAX_VERSIONS_PER_KEY_def)
    then show ?thesis using True kept d by (simp add: prune_ref_short)
  next
    case False
    then have "\<not> i \<ge> length vs - MAX_VERSIONS_PER_KEY" by (simp add: MAX_VERSIONS_PER_KEY_def)
    then show ?thesis using False kept dropped d hd by (simp split: prod.split)
  qed
qed (simp split: prod.split)

lemma needed_iff:
  assumes "sorted active"
  shows "needed active lo hi \<longleftrightarrow> (\<exists>s\<in>set active. lo \<le> s \<and> s < hi)"
  using assms
proof (induction active)
  case (Cons s active)
  then show ?case
    by (cases "s < lo") (auto simp: needed_def partition_point_def Let_def)
qed (simp add: needed_def)

section \<open>What pruning keeps\<close>

lemma prune_ref_subseq: "subseq (fst (prune_ref a vs p)) vs"
  by (induction a vs p rule: prune_ref.induct) (auto split: prod.split)

lemma prune_ref_last: "vs \<noteq> [] \<Longrightarrow> fst (prune_ref a vs p) \<noteq> [] \<and> last (fst (prune_ref a vs p)) = last vs"
  by (induction a vs p rule: prune_ref.induct) (auto simp: MAX_VERSIONS_PER_KEY_def split: prod.splits)

lemma prune_ref_pruned:
  "p \<le> snd (prune_ref a vs p) \<and>
   (\<forall>x\<in>set vs. x \<in> set (fst (prune_ref a vs p)) \<or> v_ts x \<le> snd (prune_ref a vs p))"
  by (induction a vs p rule: prune_ref.induct) (auto split: prod.splits)

lemma prune_ref_unpruned:
  "\<forall>x\<in>set vs. 0 < v_ts x \<Longrightarrow> snd (prune_ref a vs p) = 0 \<Longrightarrow> fst (prune_ref a vs p) = vs"
proof (induction a vs p rule: prune_ref.induct)
  case (2 a v rest p)
  then show ?case
    using prune_ref_pruned [of "max p (v_ts v)" a rest] by (auto split: prod.splits if_splits)
qed simp

text \<open>An open snapshot reads the same version after pruning.\<close>

lemma prune_ref_as_of:
  assumes "sorted a" and "s \<in> set a"
  shows "sorted (map v_ts vs) \<Longrightarrow> as_of s (fst (prune_ref a vs p)) = as_of s vs"
  using assms
proof (induction a vs p rule: prune_ref.induct)
  case (2 a v rest p)
  show ?case
  proof (cases "length rest < MAX_VERSIONS_PER_KEY \<or> needed a (v_ts v) (v_ts (hd rest))")
    case True
    then show ?thesis using 2 by (auto simp: as_of_Cons split: prod.splits)
  next
    case False
    then obtain u rest' where r: "rest = u # rest'"
      by (cases rest) (auto simp: MAX_VERSIONS_PER_KEY_def)
    have "\<not> (v_ts v \<le> s \<and> s < v_ts u)"
      using False r 2 needed_iff [of a] by auto
    then have "as_of s (v # rest) = as_of s rest"
      using r by (auto simp: as_of_Cons as_of_None not_less split: option.split)
    then show ?thesis using False 2 by auto
  qed
qed simp

lemma length_filter_mono: "(\<And>x. P x \<Longrightarrow> Q x) \<Longrightarrow> length (filter P xs) \<le> length (filter Q xs)"
  by (induction xs) (auto simp: le_Suc_eq)

lemma length_filter_strict:
  assumes PQ: "\<And>x. P x \<Longrightarrow> Q x" and y: "y \<in> set xs" "Q y" "\<not> P y"
  shows "length (filter P xs) < length (filter Q xs)"
proof -
  obtain us vs where xs: "xs = us @ y # vs" using y(1) split_list by fast
  show ?thesis
    using length_filter_mono [of P Q us] length_filter_mono [of P Q vs] PQ y by (simp add: xs)
qed

text \<open>At most one version per open snapshot is kept beyond the newest eight.\<close>

lemma prune_ref_length:
  assumes "sorted a"
  shows "sorted (map v_ts vs) \<Longrightarrow>
    length (fst (prune_ref a vs p)) \<le> MAX_VERSIONS_PER_KEY + length (filter (\<lambda>s. vs \<noteq> [] \<and> v_ts (hd vs) \<le> s) a)"
  using assms
proof (induction a vs p rule: prune_ref.induct)
  case (2 a v rest p)
  let ?f = "\<lambda>lo. length (filter (\<lambda>s. lo \<le> s) a)"
  show ?case
  proof (cases "length rest < MAX_VERSIONS_PER_KEY")
    case True
    then show ?thesis by simp
  next
    case False
    then obtain u rest' where r: "rest = u # rest'"
      by (cases rest) (auto simp: MAX_VERSIONS_PER_KEY_def)
    have vu: "v_ts v \<le> v_ts u" using "2.prems"(1) r by simp
    then have mono: "?f (v_ts u) \<le> ?f (v_ts v)"
      by (intro length_filter_mono) auto
    have strict: "?f (v_ts u) < ?f (v_ts v)" if "needed a (v_ts v) (v_ts u)"
    proof -
      have "\<exists>s\<in>set a. v_ts v \<le> s \<and> s < v_ts u"
        using that by (simp only: needed_iff [OF "2.prems"(2)])
      then obtain s where "s \<in> set a" "v_ts v \<le> s" "s < v_ts u" by auto
      then show ?thesis using vu by (intro length_filter_strict [of _ _ s]) auto
    qed
    show ?thesis
    proof (cases "needed a (v_ts v) (v_ts u)")
      case True
      then have "length (fst (prune_ref a rest p)) \<le> MAX_VERSIONS_PER_KEY + ?f (v_ts (hd rest))"
        using "2.IH"(1) [OF False] "2.prems" r(1) by fastforce
      moreover have "fst (prune_ref a (v # rest) p) = v # fst (prune_ref a rest p)"
        using True False r(1) by (simp only: prune_ref.simps list.sel) (simp split: prod.split)
      ultimately show ?thesis using strict True r(1) by (simp del: prune_ref.simps)
    next
      case nn: False
      then have "length (fst (prune_ref a rest (max p (v_ts v)))) \<le> MAX_VERSIONS_PER_KEY + ?f (v_ts (hd rest))"
        using "2.IH"(2) [OF False] "2.prems" r(1) by fastforce
      moreover have "fst (prune_ref a (v # rest) p) = fst (prune_ref a rest (max p (v_ts v)))"
        using nn False r(1) by (simp only: prune_ref.simps list.sel) simp
      ultimately show ?thesis using mono r(1) by (simp del: prune_ref.simps)
    qed
  qed
qed simp

section \<open>The push\<close>

definition inserted :: "nat \<Rightarrow> val \<Rightarrow> version list \<Rightarrow> version list" where
  "inserted ts v vs =
     (let pos = partition_point (\<lambda>x. v_ts x \<le> ts) vs
      in take pos vs @ \<lparr>v_ts = ts, v_value = v\<rparr> # drop pos vs)"

lemma chain_push_versions:
  "versions (chain_push ts v a c) = fst (prune_ref a (inserted ts v (versions c)) (pruned_ts c))"
  "pruned_ts (chain_push ts v a c) = snd (prune_ref a (inserted ts v (versions c)) (pruned_ts c))"
  "latest_ts (chain_push ts v a c) = max (latest_ts c) ts"
  "first_ts (chain_push ts v a c) =
     (if first_ts c = 0 \<and> pruned_ts c = 0 \<and> versions c = [] then ts else first_ts c)"
proof -
  let ?vs = "inserted ts v (versions c)"
  have l: "prune_loop a (length ?vs) 0 0 ?vs p = prune_ref a ?vs p" for p
    using prune_loop_ref [of "length ?vs" ?vs 0 0 a p] by (simp split: prod.split)
  have "chain_push ts v a c =
      \<lparr>latest_ts = max (latest_ts c) ts, versions = fst (prune_ref a ?vs (pruned_ts c)),
       pruned_ts = snd (prune_ref a ?vs (pruned_ts c)),
       first_ts = if first_ts c = 0 \<and> pruned_ts c = 0 \<and> versions c = [] then ts else first_ts c\<rparr>"
    unfolding chain_push_def Let_def inserted_def [unfolded Let_def, symmetric] l
    by (simp add: prune_ref_short split: prod.split)
  then show
    "versions (chain_push ts v a c) = fst (prune_ref a ?vs (pruned_ts c))"
    "pruned_ts (chain_push ts v a c) = snd (prune_ref a ?vs (pruned_ts c))"
    "latest_ts (chain_push ts v a c) = max (latest_ts c) ts"
    "first_ts (chain_push ts v a c) =
       (if first_ts c = 0 \<and> pruned_ts c = 0 \<and> versions c = [] then ts else first_ts c)"
    by simp_all
qed

lemma partition_split:
  "take (partition_point P xs) xs = takeWhile P xs" "drop (partition_point P xs) xs = dropWhile P xs"
  by (simp_all add: partition_point_def takeWhile_eq_take [symmetric] dropWhile_eq_drop [symmetric])

lemma inserted_eq: "inserted ts v vs =
   takeWhile (\<lambda>x. v_ts x \<le> ts) vs @ \<lparr>v_ts = ts, v_value = v\<rparr> # dropWhile (\<lambda>x. v_ts x \<le> ts) vs"
  by (simp add: inserted_def Let_def partition_split)

lemma inserted_at_end: "\<forall>x\<in>set vs. v_ts x \<le> ts \<Longrightarrow> inserted ts v vs = vs @ [\<lparr>v_ts = ts, v_value = v\<rparr>]"
  by (simp add: inserted_eq)

lemma inserted_Cons:
  "inserted ts v (x # vs) =
     (if v_ts x \<le> ts then x # inserted ts v vs else \<lparr>v_ts = ts, v_value = v\<rparr> # x # vs)"
  by (simp add: inserted_eq)

lemma set_inserted: "set (inserted ts v vs) = insert \<lparr>v_ts = ts, v_value = v\<rparr> (set vs)"
proof (induction vs)
  case (Cons x vs)
  then show ?case by (auto simp: inserted_Cons)
qed (simp add: inserted_eq)

lemma inserted_sorted: "sorted (map v_ts vs) \<Longrightarrow> sorted (map v_ts (inserted ts v vs))"
proof (induction vs)
  case (Cons x vs)
  then show ?case
    by (auto simp: inserted_Cons set_inserted intro: order_trans less_imp_le)
qed (simp add: inserted_eq)

lemma inserted_as_of: "s < ts \<Longrightarrow> as_of s (inserted ts v vs) = as_of s vs"
  by (induction vs) (auto simp: inserted_Cons as_of_Cons split: option.splits, simp add: inserted_eq as_of_Cons)

lemma inserted_last:
  "sorted (map v_ts vs) \<Longrightarrow> vs \<noteq> [] \<Longrightarrow>
   last (inserted ts v vs) = (if v_ts (last vs) \<le> ts then \<lparr>v_ts = ts, v_value = v\<rparr> else last vs)"
proof (induction vs)
  case (Cons x vs)
  have ne: "inserted ts v vs \<noteq> []" by (simp add: inserted_eq)
  show ?case
  proof (cases vs)
    case Nil
    then show ?thesis by (simp add: inserted_eq)
  next
    case (Cons y ys)
    then have "v_ts x \<le> v_ts (last vs)" using Cons.prems by auto
    then show ?thesis using Cons.IH Cons.prems Cons ne by (auto simp: inserted_Cons [of _ _ x])
  qed
qed simp

text \<open>The well-formedness of a chain.\<close>

definition chain_wf :: "chain \<Rightarrow> bool" where
  "chain_wf c \<longleftrightarrow> sorted (map v_ts (versions c))
     \<and> latest_ts c = (if versions c = [] then 0 else v_ts (last (versions c)))"

lemma chain_default_wf [wf_intros]: "chain_wf chain_default"
  by (simp add: chain_wf_def chain_default_def)

lemma push_nonempty [simp]: "versions (chain_push ts v a c) \<noteq> []"
  using prune_ref_last [of "inserted ts v (versions c)"] by (simp add: chain_push_versions inserted_eq)

lemma push_last:
  assumes "chain_wf c"
  shows "last (versions (chain_push ts v a c)) =
     (if latest_ts c \<le> ts then \<lparr>v_ts = ts, v_value = v\<rparr> else last (versions c))"
proof -
  have "inserted ts v (versions c) \<noteq> []" by (simp add: inserted_eq)
  then have "last (versions (chain_push ts v a c)) = last (inserted ts v (versions c))"
    by (simp add: chain_push_versions prune_ref_last)
  then show ?thesis
    using assms inserted_last [of "versions c" ts v] by (auto simp: chain_wf_def inserted_eq split: if_splits)
qed

lemma push_wf [wf_intros]:
  assumes "chain_wf c"
  shows "chain_wf (chain_push ts v a c)"
proof -
  have "sorted (map v_ts (versions (chain_push ts v a c)))"
    unfolding chain_push_versions
    by (rule subseq_sorted_ts [OF prune_ref_subseq]) (use assms in \<open>simp add: inserted_sorted chain_wf_def\<close>)
  moreover have "v_ts (last (versions (chain_push ts v a c))) = max (latest_ts c) ts"
    using push_last [OF assms] assms by (auto simp: chain_wf_def split: if_splits)
  ultimately show ?thesis by (simp add: chain_wf_def chain_push_versions(3))
qed

lemma chain_latest_last:
  "chain_latest c = (if versions c = [] then None else live (v_value (last (versions c))))"
  by (cases "versions c" rule: rev_cases) (simp_all add: chain_latest_def)

lemma push_latest [map_reads]:
  "chain_wf c \<Longrightarrow> chain_latest (chain_push ts v a c) = (if latest_ts c \<le> ts then live v else chain_latest c)"
  by (auto simp: chain_latest_last push_last chain_wf_def)

lemma push_as_of:
  assumes "chain_wf c" and "sorted a" and "s \<in> set a" and "s < ts"
  shows "as_of s (versions (chain_push ts v a c)) = as_of s (versions c)"
  using assms prune_ref_as_of [of a s "inserted ts v (versions c)"]
  by (simp add: chain_push_versions inserted_as_of inserted_sorted chain_wf_def)

lemma push_visible [map_reads]:
  "chain_wf c \<Longrightarrow> sorted a \<Longrightarrow> s \<in> set a \<Longrightarrow> s < ts \<Longrightarrow> visible s (chain_push ts v a c) = visible s c"
  by (simp add: visible_def push_as_of)

lemma visible_latest:
  assumes "chain_wf c" and "latest_ts c \<le> s"
  shows "visible s c = chain_latest c"
  using assms
  by (cases "versions c" rule: rev_cases) (auto simp: visible_def chain_latest_def as_of_snoc chain_wf_def)

section \<open>A chain represents a history\<close>

definition chain_tracks :: "chain \<Rightarrow> version list \<Rightarrow> bool" where
  "chain_tracks c h \<longleftrightarrow>
     chain_wf c \<and> h \<noteq> [] \<and> sorted_wrt (<) (map v_ts h) \<and> (\<forall>x\<in>set h. 0 < v_ts x)
     \<and> subseq (versions c) h \<and> versions c \<noteq> [] \<and> last (versions c) = last h
     \<and> (\<forall>x\<in>set h. x \<in> set (versions c) \<or> v_ts x \<le> pruned_ts c)
     \<and> (pruned_ts c = 0 \<longrightarrow> versions c = h) \<and> first_ts c = v_ts (hd h)"

lemma push_tracks_new:
  assumes "0 < ts"
  shows "chain_tracks (chain_push ts v a chain_default) [\<lparr>v_ts = ts, v_value = v\<rparr>]"
  using assms push_wf [OF chain_default_wf, of ts v a]
  by (simp add: chain_tracks_def chain_push_versions inserted_eq chain_default_def MAX_VERSIONS_PER_KEY_def)

lemma push_tracks:
  assumes c: "chain_tracks c h" and ts: "latest_ts c < ts"
  shows "chain_tracks (chain_push ts v a c) (h @ [\<lparr>v_ts = ts, v_value = v\<rparr>])"
proof -
  let ?new = "\<lparr>v_ts = ts, v_value = v\<rparr>" and ?vs = "versions c"
  let ?c = "chain_push ts v a c"
  have wf: "chain_wf c" and sub: "subseq ?vs h" and sh: "sorted_wrt (<) (map v_ts h)" and ne: "h \<noteq> []"
    and last: "last ?vs = last h" "?vs \<noteq> []"
    using c by (auto simp: chain_tracks_def)
  have ltl: "v_ts (last h) < ts" using wf last ts by (auto simp: chain_wf_def)
  have hmax: "\<forall>x\<in>set h. v_ts x < ts"
  proof -
    have "h = butlast h @ [last h]" using ne by simp
    then have "sorted_wrt (<) (map v_ts (butlast h @ [last h]))" using sh by metis
    then have "\<forall>x\<in>set (butlast h). v_ts x < v_ts (last h)"
      by (simp only: map_append sorted_wrt_append) auto
    moreover have "set h = set (butlast h @ [last h])" using \<open>h = _\<close> by metis
    ultimately show ?thesis using ltl by auto
  qed
  have ins: "inserted ts v ?vs = ?vs @ [?new]"
    using hmax subseq_set [OF sub] by (intro inserted_at_end) (auto intro: less_imp_le)
  have sub': "subseq (versions ?c) (h @ [?new])"
    unfolding chain_push_versions ins
    by (rule subseq_order.trans [OF prune_ref_subseq]) (use sub in \<open>simp add: list_emb_append_mono\<close>)
  have keep: "\<forall>x\<in>set (h @ [?new]). x \<in> set (versions ?c) \<or> v_ts x \<le> pruned_ts ?c"
  proof
    fix x assume x: "x \<in> set (h @ [?new])"
    have "x \<in> set (?vs @ [?new]) \<or> v_ts x \<le> pruned_ts c"
      using c x by (auto simp: chain_tracks_def)
    then show "x \<in> set (versions ?c) \<or> v_ts x \<le> pruned_ts ?c"
      using prune_ref_pruned [of "pruned_ts c" a "?vs @ [?new]"]
      by (auto simp: chain_push_versions ins)
  qed
  have p0: "versions ?c = h @ [?new]" if "pruned_ts ?c = 0"
  proof -
    have "pruned_ts c = 0"
      using that prune_ref_pruned [of "pruned_ts c" a "?vs @ [?new]"] by (simp add: chain_push_versions ins)
    then have h: "?vs = h" using c by (simp add: chain_tracks_def)
    moreover have "\<forall>x\<in>set (h @ [?new]). 0 < v_ts x"
      using c ts by (auto simp: chain_tracks_def)
    ultimately show ?thesis
      using that prune_ref_unpruned [of "h @ [?new]" a "pruned_ts c"] ins by (simp add: chain_push_versions h)
  qed
  have "last (versions ?c) = ?new" using push_last [OF wf] ts by simp
  moreover have "first_ts ?c = v_ts (hd (h @ [?new]))"
    using c by (auto simp: chain_tracks_def chain_push_versions)
  moreover have "sorted_wrt (<) (map v_ts (h @ [?new]))"
    using sh hmax by (simp add: sorted_wrt_append)
  ultimately show ?thesis
    using push_wf [OF wf] sub' keep p0 c ts by (auto simp: chain_tracks_def)
qed

lemma tracks_latest: "chain_tracks c h \<Longrightarrow> chain_latest c = live (v_value (last h)) \<and> latest_ts c = v_ts (last h)"
  by (auto simp: chain_tracks_def chain_latest_last chain_wf_def)

text \<open>
  A read between the retained versions is exact when some retained version newer than
  everything pruned is old enough for the snapshot.
\<close>

lemma tracks_as_of:
  assumes c: "chain_tracks c h" and u: "u \<in> set (versions c)" "pruned_ts c < v_ts u" "v_ts u \<le> s"
  shows "as_of s (versions c) = as_of s h"
proof -
  have sub: "subseq (versions c) h" and sh: "sorted_wrt (<) (map v_ts h)" using c by (auto simp: chain_tracks_def)
  have srt: "sorted (map v_ts h)" and dist: "distinct (map v_ts h)" using sh by (auto simp: strict_sorted_iff)
  have uh: "u \<in> set h" using subseq_set [OF sub] u by blast
  then obtain x where x: "as_of s h = Some x"
    using u(3) as_of_None [of s h] by (cases "as_of s h") auto
  have "v_ts u \<le> v_ts x" using as_of_newest [OF x srt uh u(3)] .
  then have "x \<in> set (versions c)"
    using c u(2) as_of_in [OF x] by (auto simp: chain_tracks_def)
  moreover have "\<forall>y\<in>set h. v_ts y = v_ts x \<longrightarrow> y = x"
    using dist as_of_in [OF x] by (auto simp: distinct_map inj_on_def)
  ultimately show ?thesis using as_of_subseq [OF sub x _ srt] x by simp
qed

section \<open>Claims\<close>

text \<open>
  The in-place pruning loop of \<open>push\<close>, which swaps kept versions to the front and
  truncates, computes its recursive specification: the newest eight versions stay, an older
  one stays exactly when an open snapshot falls between it and its successor, and the newest
  pruned timestamp is recorded.
\<close>

lemma prune_loop_equiv: "prune_loop active (length vs) 0 0 vs p = prune_ref active vs p"
  using prune_loop_ref [of "length vs" vs 0 0 active p] by (simp split: prod.split)

text \<open>
  Claim C3. Committing a version keeps the chain sorted, makes the new value the current one
  when it is the newest, leaves what every open older snapshot reads unchanged in spite of the
  pruning, and bounds the chain by eight versions plus one per open snapshot.
\<close>

theorem chain_push_keeps_open_reads:
  assumes "chain_wf c" and "sorted active"
  shows "chain_wf (chain_push ts v active c)
    \<and> chain_latest (chain_push ts v active c) = (if latest_ts c \<le> ts then live v else chain_latest c)
    \<and> (\<forall>s\<in>set active. s < ts \<longrightarrow> visible s (chain_push ts v active c) = visible s c)
    \<and> length (versions (chain_push ts v active c)) \<le> MAX_VERSIONS_PER_KEY + length active"
proof -
  let ?vs = "inserted ts v (versions c)"
  have "sorted (map v_ts ?vs)" using assms(1) by (simp add: chain_wf_def inserted_sorted)
  then have "length (versions (chain_push ts v active c))
      \<le> MAX_VERSIONS_PER_KEY + length (filter (\<lambda>s. ?vs \<noteq> [] \<and> v_ts (hd ?vs) \<le> s) active)"
    using prune_ref_length [OF assms(2)] by (simp add: chain_push_versions)
  also have "\<dots> \<le> MAX_VERSIONS_PER_KEY + length active" by simp
  finally show ?thesis using assms by (simp add: push_wf push_latest push_visible)
qed

theorem chain_push_keeps_open_reads_witness:
  "visible 3 (chain_push 5 VTombstone [3] (chain_push 2 (VInt 7) [] chain_default)) = Some (VInt 7)
   \<and> chain_latest (chain_push 5 VTombstone [3] (chain_push 2 (VInt 7) [] chain_default)) = None"
proof -
  let ?c = "chain_push 2 (VInt 7) [] chain_default"
  have c: "?c = \<lparr>latest_ts = 2, versions = [\<lparr>v_ts = 2, v_value = VInt 7\<rparr>], pruned_ts = 0, first_ts = 2\<rparr>"
    by (simp add: chain_push_def chain_default_def partition_point_def MAX_VERSIONS_PER_KEY_def)
  have "chain_wf ?c" by (simp add: c chain_wf_def)
  then show ?thesis
    using chain_push_keeps_open_reads [of ?c "[3]" 5 VTombstone]
    by (simp add: c visible_def as_of_def live_def)
qed

end
