(* ===== verification/Crc32.thy ===== *)
theory Crc32
  imports Prelude
begin

text \<open>
  The table-driven CRC-32 of \<open>crates/storage/src/crc.rs\<close> that protects every WAL frame and
  the checkpoint snapshot.  The table is the one \<open>Crc32Table::new\<close> builds; the lemmas show that
  one table step is eight steps of the bit-serial reference, that the incremental hasher agrees
  with the one-shot function, and that the checksum detects every corruption confined to four
  consecutive bytes.
\<close>

definition POLY :: "32 word" where
  "POLY = 0xEDB88320"

text \<open>The inner loop of \<open>Crc32Table::new\<close>.\<close>

definition crc_bit :: "32 word \<Rightarrow> 32 word" where
  "crc_bit crc = (if crc AND 1 = 1 then drop_bit 1 crc XOR POLY else drop_bit 1 crc)"

definition crc_entry :: "nat \<Rightarrow> 32 word" where
  "crc_entry i = (crc_bit ^^ 8) (of_nat i)"

definition TABLE :: "32 word list" where
  "TABLE = map crc_entry [0..<256]"

definition crc_step :: "32 word \<Rightarrow> byte \<Rightarrow> 32 word" where
  "crc_step crc b =
     (let idx = unat ((crc XOR ucast b) AND 0xFF) in drop_bit 8 crc XOR TABLE ! idx)"

definition crc32 :: "bytes \<Rightarrow> 32 word" where
  "crc32 data = foldl crc_step 0xFFFFFFFF data XOR 0xFFFFFFFF"

text \<open>The incremental hasher; its state is the running register.\<close>

definition hasher_default :: "32 word" where
  "hasher_default = 0xFFFFFFFF"

definition hasher_update :: "32 word \<Rightarrow> bytes \<Rightarrow> 32 word" where
  "hasher_update h data = foldl crc_step h data"

definition hasher_finish :: "32 word \<Rightarrow> 32 word" where
  "hasher_finish h = h XOR 0xFFFFFFFF"

section \<open>The bit step is linear and injective\<close>

lemma crc_bit_alt: "crc_bit x = drop_bit 1 x XOR (if bit x 0 then POLY else 0)"
proof -
  have "(x AND 1 = 1) = bit x 0"
    by (metis and_one_eq bit_0 odd_iff_mod_2_eq_one zero_neq_one mod2_eq_if)
  then show ?thesis by (simp add: crc_bit_def)
qed

lemma crc_bit_xor: "crc_bit (x XOR y) = crc_bit x XOR crc_bit y"
  unfolding crc_bit_alt by (rule bit_word_eqI) (auto simp: bit_simps)

lemma crc_bits_xor: "(crc_bit ^^ n) (x XOR y) = (crc_bit ^^ n) x XOR (crc_bit ^^ n) y"
  by (induction n) (simp_all add: crc_bit_xor)

lemma bit_POLY_31: "bit POLY 31"
  by (simp add: POLY_def)

lemma bit31_crc_bit: "bit (crc_bit x) 31 = bit x 0"
  by (auto simp: crc_bit_alt bit_simps bit_POLY_31 dest: bit_imp_le_length)

lemma crc_bit_inj: "crc_bit x = crc_bit y \<Longrightarrow> x = y"
proof (rule bit_word_eqI)
  fix n assume e: "crc_bit x = crc_bit y" and n: "n < LENGTH(32)"
  have b0: "bit x 0 = bit y 0" using e bit31_crc_bit by metis
  have "drop_bit 1 x XOR (if bit x 0 then POLY else 0) = drop_bit 1 y XOR (if bit x 0 then POLY else 0)"
    using e b0 by (simp only: crc_bit_alt)
  then have "drop_bit 1 x = drop_bit 1 y" by (rule word_xor_cancel)
  then have "bit (drop_bit 1 x) m = bit (drop_bit 1 y) m" for m by simp
  then have "bit x (Suc m) = bit y (Suc m)" for m by (simp add: bit_simps)
  then show "bit x n = bit y n" using b0 by (cases n) auto
qed

lemma crc_bits_inj: "(crc_bit ^^ n) x = (crc_bit ^^ n) y \<Longrightarrow> x = y"
  by (induction n) (auto dest: crc_bit_inj)

text \<open>Where the low bits are clear, the steps are plain shifts.\<close>

lemma crc_bits_shift: "(\<And>i. i < n \<Longrightarrow> \<not> bit x i) \<Longrightarrow> (crc_bit ^^ n) x = drop_bit n x"
proof (induction n)
  case (Suc n)
  have "(crc_bit ^^ Suc n) x = crc_bit (drop_bit n x)" using Suc by simp
  moreover have "\<not> bit (drop_bit n x) 0" using Suc.prems [of n] by (simp add: bit_simps)
  ultimately have "(crc_bit ^^ Suc n) x = drop_bit 1 (drop_bit n x)"
    by (simp only: crc_bit_alt) simp
  then show ?case by (simp add: drop_bit_drop_bit add.commute)
qed simp

section \<open>One table step is eight bit steps\<close>

lemma bit_ucast_byte: "bit (ucast (b :: byte) :: 32 word) i \<longleftrightarrow> i < 8 \<and> bit b i"
  by (auto simp: bit_simps dest: bit_imp_le_length)

lemma mask8: "(0xFF :: 32 word) = mask 8"
  by (simp add: mask_eq_exp_minus_1)

lemma low_byte_index: "unat (x AND (mask 8 :: 32 word)) < 256"
  by (simp add: unsigned_take_bit_eq flip: take_bit_eq_mask) (simp add: take_bit_nat_less_exp [of 8, simplified])

lemma crc_step_bits: "crc_step crc b = (crc_bit ^^ 8) (crc XOR ucast b)"
proof -
  let ?x = "crc XOR ucast b"
  let ?lo = "?x AND mask 8" and ?hi = "?x AND NOT (mask 8)"
  have split: "?x = ?lo XOR ?hi"
    by (rule bit_word_eqI) (auto simp: bit_simps)
  have "(crc_bit ^^ 8) ?hi = drop_bit 8 ?hi"
    by (rule crc_bits_shift) (auto simp: bit_and_iff bit_not_iff bit_mask_iff)
  also have "\<dots> = drop_bit 8 crc"
    by (rule bit_word_eqI) (auto simp: bit_drop_bit_eq bit_and_iff bit_not_iff bit_xor_iff bit_mask_iff bit_ucast_byte dest: bit_imp_le_length)
  finally have hi: "(crc_bit ^^ 8) ?hi = drop_bit 8 crc" .
  have "TABLE ! unat ?lo = (crc_bit ^^ 8) ?lo"
    using low_byte_index [of ?x] by (simp add: TABLE_def crc_entry_def)
  then show ?thesis
    using crc_bits_xor [of 8 ?lo ?hi] split hi by (simp add: crc_step_def Let_def xor.commute mask8)
qed

section \<open>The incremental hasher\<close>

lemma hasher_update_append: "hasher_update (hasher_update h a) b = hasher_update h (a @ b)"
  by (simp add: hasher_update_def)

lemma hasher_concat:
  "hasher_finish (foldl hasher_update hasher_default parts) = crc32 (concat parts)"
proof -
  have "foldl hasher_update h parts = hasher_update h (concat parts)" for h
    by (induction parts arbitrary: h) (simp_all add: hasher_update_append, simp add: hasher_update_def)
  then show ?thesis
    by (simp add: hasher_finish_def hasher_default_def hasher_update_def crc32_def)
qed

section \<open>Burst errors\<close>

text \<open>Up to four bytes as one little-endian word.\<close>

fun word_of_bytes :: "bytes \<Rightarrow> 32 word" where
  "word_of_bytes [] = 0"
| "word_of_bytes (b # bs) = ucast b XOR push_bit 8 (word_of_bytes bs)"

lemma word_of_bytes_high: "bit (word_of_bytes bs) i \<Longrightarrow> i < 8 * length bs"
proof (induction bs arbitrary: i)
  case (Cons b bs)
  then show ?case
    using Cons.IH [of "i - 8"] bit_imp_le_length [of b i] by (force simp: bit_simps bit_ucast_byte)
qed simp

lemma crc_bits_push:
  "(\<And>i. bit w i \<Longrightarrow> i < 24) \<Longrightarrow> (crc_bit ^^ 8) (push_bit 8 w) = w"
  by (subst crc_bits_shift) (auto simp: bit_simps intro!: bit_word_eqI)

lemma crc_burst: "length bs \<le> 4 \<Longrightarrow> foldl crc_step c bs = (crc_bit ^^ (8 * length bs)) (c XOR word_of_bytes bs)"
proof (induction bs arbitrary: c)
  case (Cons b bs)
  let ?n = "8 * length bs" and ?w = "word_of_bytes bs"
  have w: "(crc_bit ^^ 8) (push_bit 8 ?w) = ?w"
    using Cons.prems word_of_bytes_high [of bs] by (intro crc_bits_push) fastforce
  have "foldl crc_step c (b # bs) = (crc_bit ^^ ?n) (crc_step c b XOR ?w)"
    using Cons by simp
  also have "crc_step c b XOR ?w = (crc_bit ^^ 8) (c XOR ucast b XOR push_bit 8 ?w)"
    using w by (simp add: crc_step_bits crc_bits_xor xor.assoc del: funpow.simps)
  also have "(crc_bit ^^ ?n) \<dots> = (crc_bit ^^ (8 * length (b # bs))) (c XOR word_of_bytes (b # bs))"
    by (simp add: xor.assoc add.commute [of 8] funpow_add del: funpow.simps)
  finally show ?case .
qed simp

lemma word_of_bytes_inj:
  "length bs = length bs' \<Longrightarrow> length bs \<le> 4 \<Longrightarrow> word_of_bytes bs = word_of_bytes bs' \<Longrightarrow> bs = bs'"
proof (induction bs bs' rule: list_induct2)
  case (Cons b bs c cs)
  have e: "bit (word_of_bytes (b # bs)) i = bit (word_of_bytes (c # cs)) i" for i
    using Cons.prems(2) by simp
  have "bit b i = bit c i" if "i < 8" for i
    using e [of i] that by (simp add: bit_simps bit_ucast_byte)
  then have "b = c" by (intro bit_word_eqI) simp
  moreover have "bit (word_of_bytes bs) i = bit (word_of_bytes cs) i" for i
  proof (cases "i < 24")
    case True
    then show ?thesis
      using e [of "i + 8"] bit_imp_le_length [of b "i + 8"] bit_imp_le_length [of c "i + 8"]
      by (auto simp: bit_simps bit_ucast_byte)
  next
    case False
    then show ?thesis
      using word_of_bytes_high [of bs i] word_of_bytes_high [of cs i] Cons.hyps Cons.prems(1) by auto
  qed
  then have "word_of_bytes bs = word_of_bytes cs" by (intro bit_word_eqI) simp
  ultimately show ?case using Cons by simp
qed simp

lemma foldl_crc_step_inj: "foldl crc_step c s = foldl crc_step d s \<Longrightarrow> c = d"
proof (induction s arbitrary: c d)
  case (Cons b s)
  then have "crc_step c b = crc_step d b" by simp
  then have "c XOR ucast b = d XOR ucast b"
    using crc_bits_inj by (simp add: crc_step_bits del: funpow.simps)
  then show ?case by (rule word_xor_cancel)
qed simp

lemma crc32_detects_burst:
  assumes "length bs = length bs'" and "length bs \<le> 4" and "bs \<noteq> bs'"
  shows "crc32 (p @ bs @ s) \<noteq> crc32 (p @ bs' @ s)"
proof
  assume "crc32 (p @ bs @ s) = crc32 (p @ bs' @ s)"
  then have "foldl crc_step (foldl crc_step 0xFFFFFFFF p) bs = foldl crc_step (foldl crc_step 0xFFFFFFFF p) bs'"
    using word_xor_cancel foldl_crc_step_inj by (fastforce simp: crc32_def)
  then have "foldl crc_step 0xFFFFFFFF p XOR word_of_bytes bs = foldl crc_step 0xFFFFFFFF p XOR word_of_bytes bs'"
    using assms crc_burst crc_bits_inj by metis
  then have "word_of_bytes bs = word_of_bytes bs'"
    by (metis word_xor_cancel xor.commute)
  then show False using word_of_bytes_inj assms by blast
qed

text \<open>The bit-serial form, which evaluates without building the table.\<close>

lemma crc32_bits: "crc32 data = foldl (\<lambda>c b. (crc_bit ^^ 8) (c XOR ucast b)) 0xFFFFFFFF data XOR 0xFFFFFFFF"
  by (simp add: crc32_def crc_step_bits [abs_def] del: funpow.simps)


lemma crc_bits_8: "(crc_bit ^^ 8) x = crc_bit (crc_bit (crc_bit (crc_bit (crc_bit (crc_bit (crc_bit (crc_bit x)))))))"
  by (simp add: numeral_eq_Suc)

text \<open>Two of the known vectors: the empty string and \<open>"a"\<close>.\<close>

lemma crc32_Nil: "crc32 [] = 0"
  by (simp add: crc32_def)

lemma crc32_a: "crc32 [0x61] = 0xE8B7BE43"
  by (simp add: crc32_bits crc_bits_8 crc_bit_def POLY_def)

end
