(* ===== verification/Wal.thy ===== *)
theory Wal
  imports Crc32
begin

text \<open>
  The write-ahead log (\<open>crates/storage/src/wal.rs\<close>): frames
  \<open>[u32 len][u32 crc][payload]\<close>, appended as one contiguous write, rolled back to the last
  intact byte when the write fails, replayed up to the first torn or corrupt frame, whose tail
  is moved to a quarantine file before the log is truncated.

  The file system is the environment.  The model keeps the bytes of the file, and the outcome
  of every fallible call is an argument: a write may stop after any number of bytes, and
  \<open>set_len\<close>, \<open>sync_data\<close> and the quarantine copy may fail.
\<close>

section \<open>State and operations\<close>

datatype wal_err = FrameTooLarge | WalDisabled | WriteFailed | SyncFailed | TruncateFailed | TailNotSaved

record wal =
  log_file :: bytes
  good_len :: nat
  poisoned :: bool

definition MAX_FRAME :: nat where
  "MAX_FRAME = u32_max"

text \<open>The outcome of \<open>write_all\<close>: everything, or the number of bytes that reached the file.\<close>

datatype write_outcome = WriteOk | WriteErr nat

definition set_len :: "nat \<Rightarrow> bytes \<Rightarrow> bytes" where
  "set_len n f = take n f @ replicate (n - length f) 0"

definition frame_header :: "bytes \<Rightarrow> wal_err + bytes" where
  "frame_header payload =
     (if length payload > MAX_FRAME then Inl FrameTooLarge
      else Inr (le_bytes 4 (length payload) @ le_bytes 4 (unat (crc32 payload))))"

definition wal_open :: "bytes option \<Rightarrow> wal" where
  "wal_open on_disk =
     (let f = (case on_disk of None \<Rightarrow> [] | Some b \<Rightarrow> b)
      in \<lparr>log_file = f, good_len = length f, poisoned = False\<rparr>)"

fun frames_buf :: "bytes list \<Rightarrow> wal_err + bytes" where
  "frames_buf [] = Inr []"
| "frames_buf (p # ps) =
     (case frame_header p of
        Inl e \<Rightarrow> Inl e
      | Inr h \<Rightarrow> (case frames_buf ps of Inl e \<Rightarrow> Inl e | Inr buf \<Rightarrow> Inr (h @ p @ buf)))"

definition rollback :: "bool \<Rightarrow> wal \<Rightarrow> wal" where
  "rollback set_len_ok w =
     (if set_len_ok then w\<lparr>log_file := set_len (good_len w) (log_file w)\<rparr> else w\<lparr>poisoned := True\<rparr>)"

definition append_frames :: "write_outcome \<Rightarrow> bool \<Rightarrow> bytes list \<Rightarrow> wal \<Rightarrow> wal \<times> (wal_err + unit)" where
  "append_frames io set_len_ok payloads w =
     (if poisoned w then (w, Inl WalDisabled)
      else case frames_buf payloads of
        Inl e \<Rightarrow> (w, Inl e)
      | Inr buf \<Rightarrow>
          (case io of
             WriteOk \<Rightarrow> (w\<lparr>log_file := log_file w @ buf, good_len := good_len w + length buf\<rparr>, Inr ())
           | WriteErr n \<Rightarrow> (rollback set_len_ok (w\<lparr>log_file := log_file w @ take n buf\<rparr>), Inl WriteFailed)))"

definition sync :: "bool \<Rightarrow> wal \<Rightarrow> wal \<times> (wal_err + unit)" where
  "sync sync_ok w =
     (if poisoned w then (w, Inl WalDisabled)
      else if sync_ok then (w, Inr ())
      else (w\<lparr>poisoned := True\<rparr>, Inl SyncFailed))"

definition append_one :: "write_outcome \<Rightarrow> bool \<Rightarrow> bool \<Rightarrow> bytes \<Rightarrow> wal \<Rightarrow> wal \<times> (wal_err + unit)" where
  "append_one io set_len_ok sync_ok payload w =
     (case append_frames io set_len_ok [payload] w of
        (w', Inl e) \<Rightarrow> (w', Inl e)
      | (w', Inr _) \<Rightarrow> sync sync_ok w')"

text \<open>
  The loop of \<open>replay_with\<close>: the payloads handed to the callback, the final \<open>good_offset\<close> and
  whether the loop broke off before the end of the file.
\<close>

datatype stop_reason = CleanEnd | TornHeader | PastEnd | CrcMismatch

function replay_loop :: "bytes \<Rightarrow> nat \<Rightarrow> bytes list \<times> nat \<times> stop_reason" where
  "replay_loop data off =
     (if off + 8 > length data then ([], off, if off < length data then TornHeader else CleanEnd)
      else
        let len = le_nat (take 4 (drop off data));
            want = le_nat (take 4 (drop (off + 4) data))
        in if off + 8 + len > length data then ([], off, PastEnd)
           else
             let payload = take len (drop (off + 8) data)
             in if unat (crc32 payload) \<noteq> want then ([], off, CrcMismatch)
                else (case replay_loop data (off + 8 + len) of
                        (ps, o', r) \<Rightarrow> (payload # ps, o', r)))"
  by pat_completeness auto
termination
  by (relation "measure (\<lambda>(data, off). length data - off)") auto

declare replay_loop.simps [simp del]

text \<open>
  \<open>replay_with\<close>: the log after the call, the payloads delivered, the bytes of the quarantine
  file if one was written, and the result.  When the tail cannot be saved the log is left
  alone.
\<close>

definition replay_with :: "bool \<Rightarrow> bool \<Rightarrow> wal \<Rightarrow> wal \<times> bytes list \<times> bytes option \<times> (wal_err + unit)" where
  "replay_with save_ok truncate_ok w =
     (case replay_loop (log_file w) 0 of (ps, off, _) \<Rightarrow>
        if off < length (log_file w) then
          if \<not> save_ok then (w, ps, None, Inl TailNotSaved)
          else if \<not> truncate_ok then (w, ps, Some (drop off (log_file w)), Inl TruncateFailed)
          else (w\<lparr>log_file := set_len off (log_file w), good_len := off\<rparr>, ps, Some (drop off (log_file w)), Inr ())
        else (w\<lparr>good_len := off\<rparr>, ps, None, Inr ()))"

definition wal_truncate :: "bool \<Rightarrow> bool \<Rightarrow> wal \<Rightarrow> wal \<times> (wal_err + unit)" where
  "wal_truncate set_len_ok sync_ok w =
     (if poisoned w then (w, Inl WalDisabled)
      else if \<not> set_len_ok then (w, Inl TruncateFailed)
      else sync sync_ok (w\<lparr>log_file := set_len 0 (log_file w), good_len := 0\<rparr>))"

section \<open>Logs\<close>

text \<open>A log is the concatenation of the frames of its payloads.\<close>

definition frame :: "bytes \<Rightarrow> bytes" where
  "frame p = le_bytes 4 (length p) @ le_bytes 4 (unat (crc32 p)) @ p"

definition log_of :: "bytes list \<Rightarrow> bytes" where
  "log_of ps = concat (map frame ps)"

definition payloads_ok :: "bytes list \<Rightarrow> bool" where
  "payloads_ok ps \<longleftrightarrow> list_all (\<lambda>p. length p \<le> MAX_FRAME) ps"

lemma length_frame [simp]: "length (frame p) = 8 + length p"
  by (simp add: frame_def)

lemma log_of_simps [simp]: "log_of [] = []" "log_of (p # ps) = frame p @ log_of ps"
  "log_of (ps @ qs) = log_of ps @ log_of qs"
  by (simp_all add: log_of_def)

lemma payloads_ok_simps [simp]: "payloads_ok []"
  "payloads_ok (p # ps) \<longleftrightarrow> length p \<le> MAX_FRAME \<and> payloads_ok ps"
  "payloads_ok (ps @ qs) \<longleftrightarrow> payloads_ok ps \<and> payloads_ok qs"
  by (simp_all add: payloads_ok_def)

lemma set_len_prefix [simp]: "n \<le> length f \<Longrightarrow> set_len n f = take n f"
  by (simp add: set_len_def)

lemma frames_buf_log: "frames_buf ps = (if payloads_ok ps then Inr (log_of ps) else Inl FrameTooLarge)"
  by (induction ps) (auto simp: frame_header_def frame_def)

lemma replay_frame:
  assumes off: "off = length pre" and p: "length p \<le> MAX_FRAME"
  shows "replay_loop (pre @ frame p @ post) off =
         (case replay_loop (pre @ frame p @ post) (off + 8 + length p) of (ps, n, r) \<Rightarrow> (p # ps, n, r))"
proof -
  have "le_nat (take 4 (drop off (pre @ frame p @ post))) = length p"
    using assms by (simp add: frame_def le_nat_u32 MAX_FRAME_def)
  moreover have "le_nat (take 4 (drop (off + 4) (pre @ frame p @ post))) = unat (crc32 p)"
    using off by (simp add: frame_def)
  moreover have "take (length p) (drop (off + 8) (pre @ frame p @ post)) = p"
    using off by (simp add: frame_def)
  ultimately show ?thesis
    using off by (subst replay_loop.simps) (simp add: Let_def)
qed

lemma replay_log:
  assumes "off = length pre" and "payloads_ok ps"
  shows "replay_loop (pre @ log_of ps @ post) off =
         (case replay_loop (pre @ log_of ps @ post) (off + length (log_of ps)) of
            (qs, n, r) \<Rightarrow> (ps @ qs, n, r))"
  using assms
proof (induction ps arbitrary: pre off)
  case (Cons p ps)
  have "replay_loop ((pre @ frame p) @ log_of ps @ post) (off + 8 + length p) =
         (case replay_loop ((pre @ frame p) @ log_of ps @ post) (off + 8 + length p + length (log_of ps)) of
            (qs, n, r) \<Rightarrow> (ps @ qs, n, r))"
    by (rule Cons.IH) (use Cons.prems in auto)
  then show ?case
    using replay_frame [of off pre p "log_of ps @ post"] Cons.prems
    by (simp add: add.assoc split: prod.splits)
qed (simp split: prod.splits)

lemma replay_end: "replay_loop data (length data) = ([], length data, CleanEnd)"
  by (subst replay_loop.simps) simp

lemma replay_torn:
  assumes "off = length pre" and "length q \<le> MAX_FRAME" and "n < length (frame q)" and "0 < n"
  shows "\<exists>r. r \<noteq> CleanEnd \<and> replay_loop (pre @ take n (frame q)) off = ([], off, r)"
proof (cases "n < 8")
  case True
  then show ?thesis using assms by (subst replay_loop.simps) simp
next
  case False
  then obtain m where m: "n = 8 + m" by (metis le_add_diff_inverse not_less)
  have "take n (frame q) = le_bytes 4 (length q) @ le_bytes 4 (unat (crc32 q)) @ take m q"
    using m by (simp add: frame_def)
  then have "le_nat (take 4 (drop off (pre @ take n (frame q)))) = length q"
    using assms by (simp add: le_nat_u32 MAX_FRAME_def)
  then show ?thesis
    using assms m by (subst replay_loop.simps) (simp add: Let_def)
qed

text \<open>Every prefix of a log is a log of a prefix of its payloads, then a torn frame.\<close>

lemma log_prefix:
  "\<exists>k m. k \<le> length ps \<and> take n (log_of ps) = log_of (take k ps) @ (if k < length ps then take m (frame (ps ! k)) else [])
     \<and> (k < length ps \<longrightarrow> m < length (frame (ps ! k)))"
proof (induction ps arbitrary: n)
  case Nil
  then show ?case by simp
next
  case (Cons p ps)
  show ?case
  proof (cases "n < length (frame p)")
    case True
    then show ?thesis by (intro exI [of _ 0] exI [of _ n]) simp
  next
    case False
    obtain k m where "k \<le> length ps"
      and "take (n - length (frame p)) (log_of ps) =
           log_of (take k ps) @ (if k < length ps then take m (frame (ps ! k)) else [])"
      and "k < length ps \<longrightarrow> m < length (frame (ps ! k))"
      using Cons.IH by blast
    then show ?thesis
      using False by (intro exI [of _ "Suc k"] exI [of _ m]) (auto simp del: length_frame)
  qed
qed

section \<open>What the operations guarantee\<close>

text \<open>
  \<open>wal_holds w ps\<close>: the intact prefix of the log is exactly the frames of \<open>ps\<close>, and unless the
  log is disabled there is nothing behind it.
\<close>

definition wal_holds :: "wal \<Rightarrow> bytes list \<Rightarrow> bool" where
  "wal_holds w ps \<longleftrightarrow>
     payloads_ok ps \<and> good_len w = length (log_of ps) \<and> take (good_len w) (log_file w) = log_of ps
     \<and> (\<not> poisoned w \<longrightarrow> log_file w = log_of ps)"

lemma wal_holds_clean: "wal_holds w ps \<Longrightarrow> \<not> poisoned w \<Longrightarrow> log_file w = log_of ps \<and> good_len w = length (log_of ps)"
  by (simp add: wal_holds_def)

lemma wal_open_holds: "payloads_ok ps \<Longrightarrow> wal_holds (wal_open (Some (log_of ps))) ps"
  by (simp add: wal_holds_def wal_open_def Let_def)

lemma wal_open_new: "wal_holds (wal_open None) []"
  by (simp add: wal_holds_def wal_open_def Let_def)

lemma append_frames_holds:
  assumes w: "wal_holds w ps" and a: "append_frames io sl qs w = (w', r)"
  shows "wal_holds w' (if r = Inr () then ps @ qs else ps)"
proof (cases "poisoned w")
  case True
  then show ?thesis using assms by (auto simp: append_frames_def)
next
  case False
  then have f: "log_file w = log_of ps" "good_len w = length (log_of ps)" "payloads_ok ps"
    using w by (auto simp: wal_holds_def)
  show ?thesis
    using a False f
    by (auto simp: append_frames_def frames_buf_log rollback_def wal_holds_def
        split: write_outcome.splits if_splits)
qed

lemma sync_holds: "wal_holds w ps \<Longrightarrow> wal_holds (fst (sync b w)) ps"
  by (auto simp: sync_def wal_holds_def)

lemma truncate_holds:
  "wal_holds w ps \<Longrightarrow> wal_truncate sl sy w = (w', Inr ()) \<Longrightarrow> wal_holds w' []"
  by (auto simp: wal_truncate_def sync_def wal_holds_def set_len_def split: if_splits)

lemma poisoned_stays:
  assumes "poisoned w"
  shows "append_frames io sl qs w = (w, Inl WalDisabled)" and "sync b w = (w, Inl WalDisabled)"
    and "wal_truncate sl sy w = (w, Inl WalDisabled)"
  using assms by (simp_all add: append_frames_def sync_def wal_truncate_def)

text \<open>Replay of a log followed by a torn frame.\<close>

lemma replay_log_torn:
  assumes "payloads_ok ps" and "length q \<le> MAX_FRAME" and "n < length (frame q)"
  shows "\<exists>r. replay_loop (log_of ps @ take n (frame q)) 0 = (ps, length (log_of ps), r)"
proof (cases "n = 0")
  case True
  then show ?thesis
    using replay_log [of 0 "[]" ps "[]"] assms(1) replay_end [of "log_of ps"] by simp
next
  case False
  then obtain r where "replay_loop (log_of ps @ take n (frame q)) (length (log_of ps)) = ([], length (log_of ps), r)"
    using replay_torn [OF refl assms(2,3), of "log_of ps"] by auto
  then show ?thesis
    using replay_log [of 0 "[]" ps "take n (frame q)"] assms(1) by simp
qed

lemma replay_log_exact: "payloads_ok ps \<Longrightarrow> replay_loop (log_of ps) 0 = (ps, length (log_of ps), CleanEnd)"
  using replay_log [of 0 "[]" ps "[]"] replay_end [of "log_of ps"] by simp

lemma payloads_ok_nth: "payloads_ok ps \<Longrightarrow> k < length ps \<Longrightarrow> length (ps ! k) \<le> MAX_FRAME"
  by (auto simp: payloads_ok_def list_all_length)

lemma payloads_ok_take: "payloads_ok ps \<Longrightarrow> payloads_ok (take k ps)"
  by (metis append_take_drop_id payloads_ok_simps(3))

lemma replay_truncated:
  assumes ps: "payloads_ok ps" and qs: "payloads_ok qs"
  shows "\<exists>k r. k \<le> length qs \<and>
    replay_loop (log_of ps @ take n (log_of qs)) 0 = (ps @ take k qs, length (log_of (ps @ take k qs)), r)
    \<and> (length (log_of qs) \<le> n \<longrightarrow> k = length qs)"
proof (cases "length (log_of qs) \<le> n")
  case True
  then show ?thesis
    using replay_log_exact [of "ps @ qs"] assms by (intro exI [of _ "length qs"]) simp
next
  case False
  obtain k m where k: "k \<le> length qs"
    and t: "take n (log_of qs) = log_of (take k qs) @ (if k < length qs then take m (frame (qs ! k)) else [])"
    and m: "k < length qs \<longrightarrow> m < length (frame (qs ! k))"
    using log_prefix by blast
  have kl: "k < length qs"
  proof (rule ccontr)
    assume "\<not> k < length qs"
    then have "take n (log_of qs) = log_of qs" using t k by simp
    then have "length (log_of qs) \<le> n" by (metis length_take min.cobounded2 )
    then show False using False by simp
  qed
  have "\<exists>r. replay_loop (log_of (ps @ take k qs) @ take m (frame (qs ! k))) 0
      = (ps @ take k qs, length (log_of (ps @ take k qs)), r)"
    using kl m assms by (intro replay_log_torn) (auto simp: payloads_ok_take payloads_ok_nth simp del: length_frame)
  then show ?thesis using t kl False by (intro exI [of _ k]) auto
qed

text \<open>Replay only ever delivers intact frames: what it consumed is the log of what it delivered.\<close>

lemma take_8_add: "take (8 + n) xs = take 4 xs @ take 4 (drop 4 xs) @ take n (drop 8 xs)"
  using take_add [of 4 "4 + n" xs] take_add [of 4 n "drop 4 xs"] by simp

lemma frame_bytes:
  assumes "off + 8 + len \<le> length data" and "len = le_nat (take 4 (drop off data))"
    and "unat (crc32 (take len (drop (off + 8) data))) = le_nat (take 4 (drop (off + 4) data))"
  shows "drop off (take (off + 8 + len) data) = frame (take len (drop (off + 8) data))"
proof -
  have "take 4 (drop off data) = le_bytes 4 len"
    using assms le_bytes_le_nat [of "take 4 (drop off data)"] by simp
  moreover have "take 4 (drop (off + 4) data) = le_bytes 4 (unat (crc32 (take len (drop (off + 8) data))))"
    using assms le_bytes_le_nat [of "take 4 (drop (off + 4) data)"] by simp
  moreover have "drop off (take (off + 8 + len) data)
      = take 4 (drop off data) @ take 4 (drop (off + 4) data) @ take len (drop (off + 8) data)"
    using take_8_add [of len "drop off data"] by (simp add: drop_take add.commute)
  ultimately show ?thesis using assms(1) by (simp add: frame_def)
qed

lemma replay_sound:
  "replay_loop data off = (ps, n, r) \<Longrightarrow> off \<le> length data \<Longrightarrow>
   off \<le> n \<and> n \<le> length data \<and> drop off (take n data) = log_of ps \<and> payloads_ok ps"
proof (induction data off arbitrary: ps n r rule: replay_loop.induct)
  case (1 data off)
  define len where "len = le_nat (take 4 (drop off data))"
  define p where "p = take len (drop (off + 8) data)"
  show ?case
  proof (cases "off + 8 > length data \<or> off + 8 + len > length data
      \<or> unat (crc32 p) \<noteq> le_nat (take 4 (drop (off + 4) data))")
    case True
    then have "ps = [] \<and> n = off"
      using "1.prems"(1) by (subst (asm) replay_loop.simps) (auto simp: Let_def len_def p_def split: if_splits)
    then show ?thesis using "1.prems"(2) by simp
  next
    case False
    then have l: "off + 8 + len \<le> length data" and c: "unat (crc32 p) = le_nat (take 4 (drop (off + 4) data))"
      by auto
    obtain qs where qs: "replay_loop data (off + 8 + len) = (qs, n, r)" "ps = p # qs"
      using "1.prems"(1) l c by (subst (asm) replay_loop.simps)
        (auto simp: Let_def len_def p_def split: prod.splits)
    have IH: "off + 8 + len \<le> n \<and> n \<le> length data \<and> drop (off + 8 + len) (take n data) = log_of qs \<and> payloads_ok qs"
      using "1.IH" [OF _ refl refl _ refl] qs l c unfolding len_def p_def by auto
    have "take n data = take (off + 8 + len) data @ drop (off + 8 + len) (take n data)"
      using IH by (metis append_take_drop_id min.absorb1 take_take)
    then have "drop off (take n data) = frame p @ log_of qs"
      using IH l frame_bytes [OF l len_def] c by (simp add: p_def)
    moreover have "length p \<le> MAX_FRAME"
      using le_nat_bound [of "take 4 (drop off data)"] l
      by (simp add: p_def len_def MAX_FRAME_def u32_max_def)
    ultimately show ?thesis using IH qs by simp
  qed
qed

text \<open>Whatever bytes are on disk, a successful replay leaves a clean log of what it delivered.\<close>

lemma replay_with_clean:
  assumes "replay_loop f 0 = (ps, n, r)"
  shows "\<exists>w q. replay_with True True (wal_open (Some f)) = (w, ps, q, Inr ()) \<and> wal_holds w ps
    \<and> q = (if n < length f then Some (drop n f) else None)"
proof -
  have s: "n \<le> length f" "take n f = log_of ps" "payloads_ok ps"
    using replay_sound [OF assms] by auto
  then have l: "length (log_of ps) = n" by (metis length_take min.absorb2)
  let ?w = "\<lparr>log_file = log_of ps, good_len = n, poisoned = False\<rparr>"
  have "replay_with True True (wal_open (Some f))
      = (?w, ps, if n < length f then Some (drop n f) else None, Inr ())"
    using assms s take_all [of f n] by (auto simp: replay_with_def wal_open_def Let_def)
  moreover have "wal_holds ?w ps" using l s by (simp add: wal_holds_def)
  ultimately show ?thesis by blast
qed

text \<open>
  Claim C1. Crash recovery of an append. Whatever a write of a batch of frames does (succeed,
  stop after any number of bytes, fail to roll back), and wherever a crash then cuts the file
  at or after the previously intact log, replay delivers every record written before, in
  order, followed by a prefix of the batch, and leaves a log of exactly those records. If the
  write was acknowledged and nothing is cut, the whole batch is delivered.
\<close>

theorem append_crash_recovery:
  assumes w: "wal_holds w ps" and live: "\<not> poisoned w" and qs: "payloads_ok qs"
    and a: "append_frames io sl qs w = (w', r)" and n: "length (log_of ps) \<le> n"
  shows "\<exists>k w'' q. k \<le> length qs \<and>
    replay_with True True (wal_open (Some (take n (log_file w')))) = (w'', ps @ take k qs, q, Inr ())
    \<and> wal_holds w'' (ps @ take k qs)
    \<and> (r = Inr () \<and> length (log_file w') \<le> n \<longrightarrow> k = length qs)"
proof -
  have f: "log_file w = log_of ps" "payloads_ok ps"
    using w live by (auto simp: wal_holds_def)
  have "\<exists>j. log_file w' = log_of ps @ take j (log_of qs) \<and> (r = Inr () \<longrightarrow> length (log_of qs) \<le> j)"
  proof (cases io)
    case WriteOk
    then show ?thesis
      using a live f qs by (intro exI [of _ "length (log_of qs)"]) (auto simp: append_frames_def frames_buf_log)
  next
    case (WriteErr m)
    then show ?thesis
      using a live f qs w
      by (intro exI [of _ "if sl then 0 else m"])
        (auto simp: append_frames_def frames_buf_log rollback_def wal_holds_def)
  qed
  then obtain j where j: "log_file w' = log_of ps @ take j (log_of qs)"
    and jr: "r = Inr () \<longrightarrow> length (log_of qs) \<le> j" by blast
  let ?m = "min (n - length (log_of ps)) j"
  have t: "take n (log_file w') = log_of ps @ take ?m (log_of qs)" using j n by simp
  obtain k rr where k: "k \<le> length qs"
    and rl: "replay_loop (log_of ps @ take ?m (log_of qs)) 0 = (ps @ take k qs, length (log_of (ps @ take k qs)), rr)"
    and full: "length (log_of qs) \<le> ?m \<longrightarrow> k = length qs"
    using replay_truncated [OF f(2) qs] by blast
  obtain w'' q where rw: "replay_with True True (wal_open (Some (take n (log_file w')))) = (w'', ps @ take k qs, q, Inr ())"
    and h: "wal_holds w'' (ps @ take k qs)"
    using replay_with_clean [OF rl] t by auto
  have "r = Inr () \<and> length (log_file w') \<le> n \<longrightarrow> k = length qs"
    using full jr j by auto
  then show ?thesis using k rw h by blast
qed

theorem append_crash_recovery_witness:
  "\<exists>w' r k w'' q. append_frames (WriteErr 12) False [[1], [2]] (wal_open None) = (w', r) \<and> k \<le> 2
    \<and> replay_with True True (wal_open (Some (take 20 (log_file w')))) = (w'', take k [[1], [2]], q, Inr ())
    \<and> wal_holds w'' (take k [[1], [2 :: byte]])"
proof -
  obtain w' r where a: "append_frames (WriteErr 12) False [[1], [2]] (wal_open None) = (w', r)"
    by fastforce
  have "\<not> poisoned (wal_open None)" "payloads_ok [[1], [2]]" "length (log_of []) \<le> 20"
    by (simp_all add: wal_open_def MAX_FRAME_def u32_max_def)
  then show ?thesis
    using append_crash_recovery [OF wal_open_new _ _ a] a by fastforce
qed

text \<open>
  Claim C6. Corruption is detected and nothing is lost silently. If a record in the middle of
  the log is damaged by an error burst of at most four bytes of its payload, replay delivers
  exactly the records before it, moves every byte from the damaged frame on (later intact
  records included) to the quarantine file, and leaves a clean log; if that copy fails, the
  log is not touched.
\<close>

theorem replay_detects_corruption:
  assumes ps: "payloads_ok ps" and q: "length (a @ bs @ c) \<le> MAX_FRAME"
    and burst: "length bs' = length bs" "length bs \<le> 4" "bs' \<noteq> bs"
    and tail: "tail = take 8 (frame (a @ bs @ c)) @ a @ bs' @ c @ rest"
  shows "(\<exists>w. replay_with True True (wal_open (Some (log_of ps @ tail))) = (w, ps, Some tail, Inr ())
             \<and> wal_holds w ps)
    \<and> replay_with False True (wal_open (Some (log_of ps @ tail)))
        = (wal_open (Some (log_of ps @ tail)), ps, None, Inl TailNotSaved)"
proof -
  let ?off = "length (log_of ps)" and ?p = "a @ bs' @ c" and ?q = "a @ bs @ c" and ?f = "log_of ps @ tail"
  have t: "tail = le_bytes 4 (length ?q) @ le_bytes 4 (unat (crc32 ?q)) @ ?p @ rest"
    by (simp add: tail frame_def)
  have "le_nat (take 4 (drop ?off ?f)) = length ?q" and "le_nat (take 4 (drop (?off + 4) ?f)) = unat (crc32 ?q)"
    and "take (length ?q) (drop (?off + 8) ?f) = ?p"
    using q burst(1) by (simp_all add: t le_nat_u32 MAX_FRAME_def)
  moreover have "unat (crc32 ?p) \<noteq> unat (crc32 ?q)"
    using crc32_detects_burst burst by (metis word_unat_eq_iff)
  ultimately have "replay_loop ?f ?off = ([], ?off, CrcMismatch)"
    using burst(1) by (subst replay_loop.simps) (simp add: Let_def t)
  then have rl: "replay_loop ?f 0 = (ps, ?off, CrcMismatch)"
    using replay_log [of 0 "[]" ps tail] ps by simp
  have len: "?off < length ?f" by (simp add: t)
  show ?thesis
    using replay_with_clean [OF rl] rl len by (simp add: replay_with_def wal_open_def)
qed

theorem replay_detects_corruption_witness:
  "(\<exists>w. replay_with True True (wal_open (Some (log_of [[9]] @ take 8 (frame [1, 2]) @ [1, 3]))) =
       (w, [[9]], Some (take 8 (frame [1, 2]) @ [1, 3]), Inr ()) \<and> wal_holds w [[9]])
   \<and> replay_with False True (wal_open (Some (log_of [[9]] @ take 8 (frame [1, 2]) @ [1, 3])))
       = (wal_open (Some (log_of [[9]] @ take 8 (frame [1, 2]) @ [1, 3])), [[9 :: byte]], None, Inl TailNotSaved)"
  using replay_detects_corruption [of "[[9]]" "[1]" "[2]" "[]" "[3]" "take 8 (frame [1, 2]) @ [1, 3]" "[]"]
  by (simp add: MAX_FRAME_def u32_max_def)

text \<open>
  Claim C7. Failed durability is final. Once an fsync has failed, the log is disabled: every
  later append, sync and truncation is refused and the file keeps exactly the bytes it had.
\<close>

theorem fsync_failure_disables:
  assumes "\<not> poisoned w" and "sync False w = (w', r)"
  shows "r = Inl SyncFailed \<and> log_file w' = log_file w
    \<and> append_frames io sl qs w' = (w', Inl WalDisabled)
    \<and> append_one io sl sy p w' = (w', Inl WalDisabled)
    \<and> sync sy w' = (w', Inl WalDisabled) \<and> wal_truncate sl sy w' = (w', Inl WalDisabled)"
  using assms by (auto simp: sync_def append_frames_def append_one_def wal_truncate_def)

theorem fsync_failure_disables_witness:
  "Inl SyncFailed = (Inl SyncFailed :: wal_err + unit)
    \<and> log_file ((wal_open None)\<lparr>poisoned := True\<rparr>) = log_file (wal_open None)
    \<and> append_frames WriteOk True [[1]] ((wal_open None)\<lparr>poisoned := True\<rparr>) = ((wal_open None)\<lparr>poisoned := True\<rparr>, Inl WalDisabled)
    \<and> append_one WriteOk True True [1] ((wal_open None)\<lparr>poisoned := True\<rparr>) = ((wal_open None)\<lparr>poisoned := True\<rparr>, Inl WalDisabled)
    \<and> sync True ((wal_open None)\<lparr>poisoned := True\<rparr>) = ((wal_open None)\<lparr>poisoned := True\<rparr>, Inl WalDisabled)
    \<and> wal_truncate True True ((wal_open None)\<lparr>poisoned := True\<rparr>) = ((wal_open None)\<lparr>poisoned := True\<rparr>, Inl WalDisabled)"
  by (rule fsync_failure_disables [of "wal_open None"]) (simp_all add: wal_open_def sync_def)

end
