(* ===== verification/Records.thy ===== *)
theory Records
  imports Value_Codec Wal
begin

text \<open>
  Mutations, WAL records and the snapshot file (\<open>crates/storage/src/engine.rs\<close>).  A commit is
  one WAL frame: a tagged single mutation or a tagged batch, so that replay gets a whole commit
  or none of it.  A snapshot is a count, length-prefixed mutations and a trailing CRC.
\<close>

section \<open>Mutations\<close>

record mutation =
  m_key :: key
  m_value :: val
  m_ts :: nat

definition mutation_encode :: "mutation \<Rightarrow> bytes" where
  "mutation_encode m = le_bytes 8 (m_ts m) @ le_bytes 4 (length (m_key m)) @ m_key m @ encode (m_value m)"

definition mutation_decode :: "bytes \<Rightarrow> mutation option" where
  "mutation_decode buf =
     (case slice_get buf 0 8 of None \<Rightarrow> None | Some t \<Rightarrow>
      case slice_get buf 8 12 of None \<Rightarrow> None | Some l \<Rightarrow>
      let kl = le_nat l in
      case slice_get buf 12 (12 + kl) of None \<Rightarrow> None | Some k \<Rightarrow>
      case slice_get buf (12 + kl) (length buf) of None \<Rightarrow> None | Some tail \<Rightarrow>
      case decode tail of None \<Rightarrow> None | Some v \<Rightarrow>
      Some \<lparr>m_key = k, m_value = v, m_ts = le_nat t\<rparr>)"

text \<open>What the encoder can represent.\<close>

definition mutation_ok :: "mutation \<Rightarrow> bool" where
  "mutation_ok m \<longleftrightarrow> m_ts m \<le> u64_max \<and> length (m_key m) \<le> u32_max \<and> value_ok (m_value m)"

section \<open>WAL records\<close>

definition WAL_TAG_SINGLE :: byte where "WAL_TAG_SINGLE = 1"
definition WAL_TAG_BATCH :: byte where "WAL_TAG_BATCH = 2"

definition encode_single_record :: "mutation \<Rightarrow> bytes" where
  "encode_single_record m = WAL_TAG_SINGLE # mutation_encode m"

text \<open>The length-prefixed mutations of a batch record, which a snapshot body also consists of.\<close>

definition prefixed :: "mutation \<Rightarrow> bytes" where
  "prefixed m = le_bytes 4 (length (mutation_encode m)) @ mutation_encode m"

definition encode_batch_record :: "mutation list \<Rightarrow> bytes" where
  "encode_batch_record muts =
     WAL_TAG_BATCH # le_bytes 8 (length muts) @ concat (map prefixed muts)"

fun batch_loop :: "bytes \<Rightarrow> nat \<Rightarrow> nat \<Rightarrow> mutation list" where
  "batch_loop rec p 0 = []"
| "batch_loop rec p (Suc count) =
     (if p + 4 > length rec then []
      else
        let len = le_nat (take 4 (drop p rec)); p = p + 4
        in if p + len > length rec then []
           else (case mutation_decode (take len (drop p rec)) of None \<Rightarrow> [] | Some m \<Rightarrow> [m])
                @ batch_loop rec (p + len) count)"

definition decode_records :: "bytes \<Rightarrow> mutation list" where
  "decode_records rec =
     (let single = (\<lambda>b. case mutation_decode b of None \<Rightarrow> [] | Some m \<Rightarrow> [m]) in
      case rec of
        [] \<Rightarrow> single rec
      | t # rest \<Rightarrow>
          if t = WAL_TAG_BATCH then
            (if length rec < 9 then [] else batch_loop rec 9 (le_nat (take 8 (drop 1 rec))))
          else if t = WAL_TAG_SINGLE then single rest
          else single rec)"

section \<open>The snapshot file\<close>

datatype snap_err = SnapTooShort | SnapCrcMismatch | SnapTruncated | SnapOverrun

fun snap_loop :: "bytes \<Rightarrow> nat \<Rightarrow> nat \<Rightarrow> snap_err + mutation list" where
  "snap_loop payload p 0 = Inr []"
| "snap_loop payload p (Suc n) =
     (if p + 4 > length payload then Inl SnapTruncated
      else
        let len = le_nat (take 4 (drop p payload)); p = p + 4
        in if p + len > length payload then Inl SnapOverrun
           else (case snap_loop payload (p + len) n of
                   Inl e \<Rightarrow> Inl e
                 | Inr ms \<Rightarrow>
                     Inr ((case mutation_decode (take len (drop p payload)) of None \<Rightarrow> [] | Some m \<Rightarrow> [m]) @ ms)))"

definition load_snapshot :: "bytes \<Rightarrow> snap_err + mutation list" where
  "load_snapshot body =
     (if length body < 12 then Inl SnapTooShort
      else
        let payload = take (length body - 4) body; crc_bytes = drop (length body - 4) body
        in if unat (crc32 payload) \<noteq> le_nat crc_bytes then Inl SnapCrcMismatch
           else snap_loop payload 8 (le_nat (take 8 payload)))"

text \<open>
  The bytes \<open>write_snapshot_at\<close> emits for a list of records; the checksum is accumulated by the
  incremental hasher over the pieces as they are written.
\<close>

definition snapshot_pieces :: "mutation list \<Rightarrow> bytes list" where
  "snapshot_pieces ms =
     le_bytes 8 (length ms)
     # concat (map (\<lambda>m. [le_bytes 4 (length (mutation_encode m)), mutation_encode m]) ms)"

definition snapshot_file :: "mutation list \<Rightarrow> bytes" where
  "snapshot_file ms =
     concat (snapshot_pieces ms)
     @ le_bytes 4 (unat (hasher_finish (foldl hasher_update hasher_default (snapshot_pieces ms))))"

section \<open>Round trips\<close>

lemma length_mutation_encode: "12 \<le> length (mutation_encode m)"
  by (simp add: mutation_encode_def)

lemma mutation_decode_encode:
  assumes ok: "mutation_ok m"
  shows "mutation_decode (mutation_encode m @ rest) = Some m"
proof -
  let ?k = "m_key m" and ?v = "m_value m"
  let ?buf = "mutation_encode m @ rest"
  have "slice_get ?buf 0 8 = Some (le_bytes 8 (m_ts m))"
    by (simp add: slice_get_def mutation_encode_def)
  moreover have "slice_get ?buf 8 12 = Some (le_bytes 4 (length ?k))"
    by (simp add: slice_get_def mutation_encode_def)
  moreover have "slice_get ?buf 12 (12 + length ?k) = Some ?k"
    by (simp add: slice_get_def mutation_encode_def)
  moreover have "slice_get ?buf (12 + length ?k) (length ?buf) = Some (encode ?v @ rest)"
    by (simp add: slice_get_def mutation_encode_def)
  moreover have "le_nat (le_bytes 8 (m_ts m)) = m_ts m" "le_nat (le_bytes 4 (length ?k)) = length ?k"
    using ok by (simp_all add: mutation_ok_def le_nat_u32 le_nat_u64)
  moreover have "decode (encode ?v @ rest) = Some ?v"
    using ok by (intro val.dec_enc) (simp add: mutation_ok_def)
  ultimately show ?thesis by (simp add: mutation_decode_def Let_def)
qed

interpretation mut: byte_codec mutation_encode mutation_decode mutation_ok
  by unfold_locales (rule mutation_decode_encode)

text \<open>What fits a length-prefixed record.\<close>

definition record_ok :: "mutation \<Rightarrow> bool" where
  "record_ok m \<longleftrightarrow> mutation_ok m \<and> length (mutation_encode m) \<le> u32_max"

lemma length_prefixed [simp]: "length (prefixed m) = 4 + length (mutation_encode m)"
  by (simp add: prefixed_def)

lemma prefixed_at:
  assumes "record_ok m" and "p = length pre"
  shows "le_nat (take 4 (drop p (pre @ prefixed m @ post))) = length (mutation_encode m)"
    and "take (length (mutation_encode m)) (drop (p + 4) (pre @ prefixed m @ post)) = mutation_encode m"
  using assms by (simp_all add: prefixed_def record_ok_def le_nat_u32)

lemma batch_loop_prefixed:
  "p = length pre \<Longrightarrow> list_all record_ok ms \<Longrightarrow>
   batch_loop (pre @ concat (map prefixed ms) @ post) p (length ms) = ms"
proof (induction ms arbitrary: pre p)
  case (Cons m ms)
  let ?rest = "concat (map prefixed ms) @ post" and ?n = "length (mutation_encode m)"
  have m: "record_ok m" "mutation_decode (mutation_encode m) = Some m"
    using Cons.prems mut.dec_enc_exact by (auto simp: record_ok_def)
  have "batch_loop ((pre @ prefixed m) @ ?rest) (p + 4 + ?n) (length ms) = ms"
    by (rule Cons.IH) (use Cons.prems in auto)
  then show ?case
    using m Cons.prems(1) prefixed_at [OF m(1) Cons.prems(1), of ?rest] by (simp add: Let_def)
qed simp

lemma snap_loop_prefixed:
  "p = length pre \<Longrightarrow> list_all record_ok ms \<Longrightarrow>
   snap_loop (pre @ concat (map prefixed ms) @ post) p (length ms) = Inr ms"
proof (induction ms arbitrary: pre p)
  case (Cons m ms)
  let ?rest = "concat (map prefixed ms) @ post" and ?n = "length (mutation_encode m)"
  have m: "record_ok m" "mutation_decode (mutation_encode m) = Some m"
    using Cons.prems mut.dec_enc_exact by (auto simp: record_ok_def)
  have "snap_loop ((pre @ prefixed m) @ ?rest) (p + 4 + ?n) (length ms) = Inr ms"
    by (rule Cons.IH) (use Cons.prems in auto)
  then show ?case
    using m Cons.prems(1) prefixed_at [OF m(1) Cons.prems(1), of ?rest] by (simp add: Let_def)
qed simp

lemma decode_single_record: "mutation_ok m \<Longrightarrow> decode_records (encode_single_record m) = [m]"
  by (simp add: decode_records_def encode_single_record_def WAL_TAG_SINGLE_def WAL_TAG_BATCH_def
      mut.dec_enc_exact)

lemma decode_batch_record:
  assumes "list_all record_ok ms" and "length ms \<le> u64_max"
  shows "decode_records (encode_batch_record ms) = ms"
proof -
  have "batch_loop ((WAL_TAG_BATCH # le_bytes 8 (length ms)) @ concat (map prefixed ms) @ []) 9 (length ms) = ms"
    by (rule batch_loop_prefixed) (use assms in simp_all)
  then show ?thesis
    using assms(2) by (simp add: decode_records_def encode_batch_record_def le_nat_u64)
qed

text \<open>The flusher's choice of frame: a commit of one mutation is a single record, else a batch.\<close>

definition commit_frame :: "mutation list \<Rightarrow> bytes" where
  "commit_frame ms = (if length ms = 1 then encode_single_record (hd ms) else encode_batch_record ms)"

lemma decode_commit_frame:
  assumes "list_all record_ok ms" and "length ms \<le> u64_max"
  shows "decode_records (commit_frame ms) = ms"
proof (cases "length ms = 1")
  case True
  then obtain m where "ms = [m]" by (cases ms) auto
  then show ?thesis using assms by (simp add: commit_frame_def decode_single_record record_ok_def)
next
  case False
  then show ?thesis using assms decode_batch_record by (simp add: commit_frame_def)
qed

lemma concat_snapshot_pieces: "concat (snapshot_pieces ms) = le_bytes 8 (length ms) @ concat (map prefixed ms)"
proof -
  have "concat (concat (map (\<lambda>m. [le_bytes 4 (length (mutation_encode m)), mutation_encode m]) ms))
      = concat (map prefixed ms)"
    by (induction ms) (simp_all add: prefixed_def)
  then show ?thesis by (simp add: snapshot_pieces_def)
qed

lemma snapshot_file_eq:
  "snapshot_file ms = (let p = le_bytes 8 (length ms) @ concat (map prefixed ms)
                       in p @ le_bytes 4 (unat (crc32 p)))"
  by (simp add: snapshot_file_def hasher_concat concat_snapshot_pieces Let_def)

lemma load_snapshot_file:
  assumes "list_all record_ok ms" and "length ms \<le> u64_max"
  shows "load_snapshot (snapshot_file ms) = Inr ms"
proof -
  have "snap_loop (le_bytes 8 (length ms) @ concat (map prefixed ms) @ []) 8 (length ms) = Inr ms"
    by (rule snap_loop_prefixed) (use assms in simp_all)
  then show ?thesis
    using assms(2) by (simp add: load_snapshot_def snapshot_file_eq Let_def le_nat_u64)
qed

lemma le_bytes_8: "le_bytes 8 n = of_nat n # le_bytes 7 (n div 256)"
  using le_bytes.simps(2) [of 7 n] by simp

lemma mutation_encode_Cons: "mutation_encode m = of_nat (m_ts m) # drop 1 (mutation_encode m)"
  by (simp add: mutation_encode_def le_bytes_8)

lemma of_nat_byte_mod: "(of_nat n :: byte) = of_nat (n mod 256)"
  by (simp add: word_unat_eq_iff unat_of_nat)

lemma of_nat_byte_eq: "(of_nat n :: byte) = of_nat k \<longleftrightarrow> n mod 256 = k mod 256"
  by (simp add: word_unat_eq_iff unat_of_nat)

lemma le_nat_snoc: "le_nat (xs @ [b]) = le_nat xs + 256 ^ length xs * unat b"
  by (induction xs) (simp_all add: algebra_simps)

section \<open>Claims\<close>

text \<open>
  Claim C2. A commit is one record of the log: decoding the frame the flusher writes for a
  commit, a single record or a batch, gives back exactly its mutations in order, so replay
  applies the whole commit or none of it.
\<close>

theorem commit_frame_roundtrip:
  assumes "list_all record_ok ms" and "length ms \<le> u64_max"
  shows "decode_records (commit_frame ms) = ms"
  using assms by (rule decode_commit_frame)

theorem commit_frame_roundtrip_witness:
  "decode_records (commit_frame [\<lparr>m_key = [107], m_value = VInt 5, m_ts = 3\<rparr>,
                                 \<lparr>m_key = [], m_value = VTombstone, m_ts = 3\<rparr>])
   = [\<lparr>m_key = [107], m_value = VInt 5, m_ts = 3\<rparr>, \<lparr>m_key = [], m_value = VTombstone, m_ts = 3\<rparr>]"
  by (rule commit_frame_roundtrip)
    (simp_all add: record_ok_def mutation_ok_def mutation_encode_def u32_max_def u64_max_def)

text \<open>
  Claim C5. A checkpoint file loads exactly the mutations it was written from; and if at most
  four adjacent bytes of its body are altered, loading it reports a checksum error instead of
  returning records.
\<close>

theorem snapshot_file_roundtrip:
  assumes ms: "list_all record_ok ms" "length ms \<le> u64_max"
    and body: "concat (snapshot_pieces ms) = p @ bs @ s"
    and burst: "length bs = length bs'" "length bs \<le> 4" "bs \<noteq> bs'"
  shows "load_snapshot (snapshot_file ms) = Inr ms
    \<and> load_snapshot (p @ bs' @ s @ drop (length (p @ bs @ s)) (snapshot_file ms)) = Inl SnapCrcMismatch"
proof
  show "load_snapshot (snapshot_file ms) = Inr ms" using ms by (rule load_snapshot_file)
  have sf: "snapshot_file ms = (p @ bs @ s) @ le_bytes 4 (unat (crc32 (p @ bs @ s)))"
    using body by (simp add: snapshot_file_def hasher_concat)
  have "crc32 (p @ bs' @ s) \<noteq> crc32 (p @ bs @ s)"
    using crc32_detects_burst [OF burst, of p s] by metis
  then have ne: "unat (crc32 (p @ bs' @ s)) \<noteq> unat (crc32 (p @ bs @ s))"
    by (simp add: word_unat_eq_iff)
  have "8 \<le> length (concat (snapshot_pieces ms))"
    by (simp add: concat_snapshot_pieces)
  then have l: "12 \<le> length (p @ bs' @ s @ le_bytes 4 (unat (crc32 (p @ bs @ s))))"
    using body burst(1) by simp
  show "load_snapshot (p @ bs' @ s @ drop (length (p @ bs @ s)) (snapshot_file ms)) = Inl SnapCrcMismatch"
    using l ne by (simp add: sf load_snapshot_def Let_def)
qed

theorem snapshot_file_roundtrip_witness:
  "load_snapshot (snapshot_file [\<lparr>m_key = [107], m_value = VInt 5, m_ts = 3\<rparr>])
     = Inr [\<lparr>m_key = [107], m_value = VInt 5, m_ts = 3\<rparr>]
   \<and> load_snapshot ([] @ [2] @ drop 1 (concat (snapshot_pieces [\<lparr>m_key = [107], m_value = VInt 5, m_ts = 3\<rparr>]))
       @ drop (length ([] @ [1 :: byte] @ drop 1 (concat (snapshot_pieces [\<lparr>m_key = [107], m_value = VInt 5, m_ts = 3\<rparr>]))))
           (snapshot_file [\<lparr>m_key = [107], m_value = VInt 5, m_ts = 3\<rparr>]))
     = Inl SnapCrcMismatch"
proof (rule snapshot_file_roundtrip)
  show "concat (snapshot_pieces [\<lparr>m_key = [107], m_value = VInt 5, m_ts = 3\<rparr>])
      = [] @ [1 :: byte] @ drop 1 (concat (snapshot_pieces [\<lparr>m_key = [107], m_value = VInt 5, m_ts = 3\<rparr>]))"
    by (simp add: snapshot_pieces_def le_bytes_8)
qed (simp_all add: record_ok_def mutation_ok_def mutation_encode_def u32_max_def u64_max_def)

text \<open>
  An untagged record of an older log whose timestamp has the low byte 1 is taken for a
  tagged single record and its mutation is lost without an error, although the decoder is
  documented to accept legacy records; one whose low timestamp byte is neither tag decodes.
\<close>

lemma legacy_record_misread:
  assumes ok: "mutation_ok m"
  shows "(m_ts m mod 256 \<notin> {1, 2} \<longrightarrow> decode_records (mutation_encode m) = [m])
    \<and> (m_ts m mod 256 = 1 \<and> m_key m \<noteq> [] \<and> hd (m_key m) \<noteq> 0 \<and> length (mutation_encode m) < 2 ^ 24
        \<longrightarrow> decode_records (mutation_encode m) = [])"
proof (intro conjI impI)
  have split: "mutation_encode m = of_nat (m_ts m) # drop 1 (mutation_encode m)"
    by (rule mutation_encode_Cons)
  have batch: "of_nat (m_ts m) = WAL_TAG_BATCH \<longleftrightarrow> m_ts m mod 256 = 2"
    using of_nat_byte_eq [of "m_ts m" 2] by (simp add: WAL_TAG_BATCH_def)
  have single: "of_nat (m_ts m) = WAL_TAG_SINGLE \<longleftrightarrow> m_ts m mod 256 = 1"
    using of_nat_byte_eq [of "m_ts m" 1] by (simp add: WAL_TAG_SINGLE_def)
  have dec: "decode_records (mutation_encode m) =
      (let single = (\<lambda>b. case mutation_decode b of None \<Rightarrow> [] | Some m \<Rightarrow> [m]) in
       if m_ts m mod 256 = 2 then
         (if length (mutation_encode m) < 9 then []
          else batch_loop (mutation_encode m) 9 (le_nat (take 8 (drop 1 (mutation_encode m)))))
       else if m_ts m mod 256 = 1 then single (drop 1 (mutation_encode m)) else single (mutation_encode m))"
    using split by (cases "mutation_encode m") (simp_all add: decode_records_def Let_def batch single [simplified])
  show "decode_records (mutation_encode m) = [m]" if t: "m_ts m mod 256 \<notin> {1, 2}"
    using t dec mut.dec_enc_exact [OF ok] by simp
  assume t: "m_ts m mod 256 = 1 \<and> m_key m \<noteq> [] \<and> hd (m_key m) \<noteq> 0 \<and> length (mutation_encode m) < 2 ^ 24"
  then obtain b k where k: "m_key m = b # k" and b: "b \<noteq> 0" by (cases "m_key m") auto
  let ?rest = "drop 1 (mutation_encode m)" and ?l = "drop 1 (le_bytes 4 (length (m_key m)))"
  have s: "slice_get ?rest 8 12 = Some (?l @ [b])"
    by (simp add: slice_get_def mutation_encode_def k)
  have "1 \<le> unat b"
    using b by (simp add: unat_gt_0 Suc_le_eq)
  then have "2 ^ 24 \<le> le_nat (?l @ [b])"
    by (simp only: le_nat_snoc) simp
  then have "slice_get ?rest 12 (12 + le_nat (?l @ [b])) = None"
    using t by (simp add: slice_get_def) linarith
  with s have "mutation_decode ?rest = None"
    by (simp add: mutation_decode_def Let_def split: option.split)
  then show "decode_records (mutation_encode m) = []"
    using t dec by simp
qed

end
