(* ===== verification/Shards.thy ===== *)
theory Shards
  imports Chain Records
begin

text \<open>
  The sharded keyspace of \<open>crates/storage/src/engine.rs\<close>: shard selection by FNV-1a with
  Redis-style hash tags, the application of committed mutations shard by shard, point reads
  and the range scans.  The state is the list of the 32 shard maps; \<open>shards_wf\<close> says that
  every map is ordered and holds only keys of its own shard, each with a non-empty chain.
\<close>

section \<open>Shard selection\<close>

definition fnv1a :: "bytes \<Rightarrow> 64 word" where
  "fnv1a bs = foldl (\<lambda>h b. (h XOR ucast b) * 0x100000001b3) 0xcbf29ce484222325 bs"

definition SHARD_COUNT :: nat where "SHARD_COUNT = 32"

fun position :: "('a \<Rightarrow> bool) \<Rightarrow> 'a list \<Rightarrow> nat option" where
  "position P [] = None"
| "position P (x # xs) = (if P x then Some 0 else map_option Suc (position P xs))"

text \<open>The bytes that are hashed: those inside the first \<open>{...}\<close>, when it is closed and not empty.\<close>

definition hash_input :: "key \<Rightarrow> bytes" where
  "hash_input k =
     (case position (\<lambda>b. b = 123) k of
        None \<Rightarrow> k
      | Some start \<Rightarrow>
          let rest = drop (start + 1) k
          in case position (\<lambda>b. b = 125) rest of
               None \<Rightarrow> k
             | Some e \<Rightarrow> if e > 0 then take e rest else k)"

definition shard_of :: "key \<Rightarrow> nat" where
  "shard_of k = unat (fnv1a (hash_input k) AND of_nat (SHARD_COUNT - 1))"

type_synonym shard = "(key, chain) btree"
type_synonym shards = "shard list"

definition empty_shards :: shards where
  "empty_shards = replicate SHARD_COUNT []"

section \<open>Applying commits\<close>

text \<open>
  One iteration of the inner loop of \<open>apply_refs_to_shards\<close>: the shard map, the change of the
  live \<open>kv:\<close> key count and the newly dead keys.
\<close>

definition kv_prefix :: bytes where "kv_prefix = [107, 118, 58]"

definition starts_with :: "bytes \<Rightarrow> bytes \<Rightarrow> bool" where
  "starts_with k p = (take (length p) k = p)"

definition chain_of :: "shard \<Rightarrow> key \<Rightarrow> chain" where
  "chain_of data k = (case bt_get data k of None \<Rightarrow> chain_default | Some c \<Rightarrow> c)"

definition apply_item ::
    "nat list \<Rightarrow> mutation \<Rightarrow> shard \<times> int \<times> (key \<times> nat) list \<Rightarrow> shard \<times> int \<times> (key \<times> nat) list" where
  "apply_item active m st =
     (case st of (data, delta, dead) \<Rightarrow>
      let c = chain_of data (m_key m);
          before = chain_latest c \<noteq> None;
          c' = chain_push (m_ts m) (m_value m) active c
      in (bt_insert (m_key m) c' data,
          (if starts_with (m_key m) kv_prefix
           then delta + of_bool (chain_latest c' \<noteq> None) - of_bool before else delta),
          (if chain_latest c' = None then dead @ [(m_key m, latest_ts c')] else dead)))"

definition apply_items :: "nat list \<Rightarrow> mutation list \<Rightarrow> shard \<Rightarrow> shard \<times> int \<times> (key \<times> nat) list" where
  "apply_items active items data = fold (apply_item active) items (data, 0, [])"

text \<open>The outer loop: the shards in order, skipping those without work.\<close>

fun apply_shards_loop ::
    "nat list \<Rightarrow> mutation list \<Rightarrow> nat list \<Rightarrow> shards \<times> int \<times> (key \<times> nat) list \<Rightarrow> shards \<times> int \<times> (key \<times> nat) list" where
  "apply_shards_loop active muts [] st = st"
| "apply_shards_loop active muts (i # is) (sh, kv, gy) =
     (let items = filter (\<lambda>m. shard_of (m_key m) = i) muts
      in if items = [] then apply_shards_loop active muts is (sh, kv, gy)
         else (case apply_items active items (sh ! i) of
                 (data, delta, dead) \<Rightarrow>
                   apply_shards_loop active muts is (sh[i := data], kv + delta, gy @ dead)))"

definition apply_muts ::
    "nat list \<Rightarrow> mutation list \<Rightarrow> shards \<times> int \<times> (key \<times> nat) list \<Rightarrow> shards \<times> int \<times> (key \<times> nat) list" where
  "apply_muts active muts st = apply_shards_loop active muts [0..<SHARD_COUNT] st"

section \<open>Point reads\<close>

definition chain_lookup :: "shards \<Rightarrow> key \<Rightarrow> chain option" where
  "chain_lookup sh k = bt_get (sh ! shard_of k) k"

definition get_at :: "shards \<Rightarrow> key \<Rightarrow> nat \<Rightarrow> val option" where
  "get_at sh k snapshot =
     (case chain_lookup sh k of None \<Rightarrow> None | Some c \<Rightarrow> visible snapshot c)"

definition get_at_checked :: "nat \<Rightarrow> shards \<Rightarrow> key \<Rightarrow> nat \<Rightarrow> unit + val option" where
  "get_at_checked gc_horizon sh k snapshot =
     (case chain_lookup sh k of
        None \<Rightarrow> (if snapshot < gc_horizon then Inl () else Inr None)
      | Some c \<Rightarrow>
          if first_ts c > 0 \<and> snapshot < first_ts c then Inr None
          else
            let oldest = (case versions c of [] \<Rightarrow> u64_max | v # _ \<Rightarrow> v_ts v)
            in if pruned_ts c > 0 \<and> snapshot < oldest then Inl ()
               else Inr (visible snapshot c))"

definition key_version :: "shards \<Rightarrow> key \<Rightarrow> nat" where
  "key_version sh k = (case chain_lookup sh k of None \<Rightarrow> 0 | Some c \<Rightarrow> latest_ts c)"

definition latest_of :: "shards \<Rightarrow> key \<Rightarrow> val option" where
  "latest_of sh k = (case chain_lookup sh k of None \<Rightarrow> None | Some c \<Rightarrow> chain_latest c)"

definition dbsize :: "shards \<Rightarrow> nat \<Rightarrow> nat" where
  "dbsize sh snap = sum_list (map (\<lambda>data. length (filter (\<lambda>(_, c). visible snap c \<noteq> None) data)) sh)"

section \<open>Range scans\<close>

text \<open>The live pairs of a list of map entries, in order.\<close>

definition live_pairs :: "nat \<Rightarrow> (key \<times> chain) list \<Rightarrow> (key \<times> val) list" where
  "live_pairs snapshot es = List.map_filter (\<lambda>(k, c). map_option (Pair k) (visible snapshot c)) es"

text \<open>\<open>scan\<close>; \<open>BTreeMap::range\<close> panics on an inverted range, which is \<open>None\<close> here.\<close>

definition scan :: "shards \<Rightarrow> key \<Rightarrow> key \<Rightarrow> nat \<Rightarrow> (key \<times> val) list option" where
  "scan sh start stop snapshot =
     (if start > stop then None
      else Some (sort_key fst (concat (map (\<lambda>data. live_pairs snapshot (bt_range data start stop)) sh))))"

definition scan_from :: "shards \<Rightarrow> key \<Rightarrow> key \<Rightarrow> nat \<Rightarrow> nat \<Rightarrow> (key \<times> val) list" where
  "scan_from sh start stop limit snapshot =
     (if start \<ge> stop \<or> limit = 0 then []
      else take limit (sort_key fst
             (concat (map (\<lambda>data. take limit (live_pairs snapshot (bt_range data start stop))) sh))))"

definition scan_pinned :: "shards \<Rightarrow> key \<Rightarrow> key \<Rightarrow> key \<Rightarrow> nat \<Rightarrow> (key \<times> val) list option" where
  "scan_pinned sh hint start stop snapshot =
     (if start > stop then None
      else Some (live_pairs snapshot (bt_range (sh ! shard_of hint) start stop)))"

definition scan_pinned_limit :: "shards \<Rightarrow> key \<Rightarrow> key \<Rightarrow> key \<Rightarrow> nat \<Rightarrow> nat \<Rightarrow> (key \<times> val) list" where
  "scan_pinned_limit sh hint start stop snapshot limit =
     (if start \<ge> stop then []
      else take limit (live_pairs snapshot (bt_range (sh ! shard_of hint) start stop)))"

text \<open>The reverse scan checks its limit after a push, so it returns one pair for a limit of 0.\<close>

definition scan_pinned_reverse :: "shards \<Rightarrow> key \<Rightarrow> key \<Rightarrow> key \<Rightarrow> nat \<Rightarrow> nat \<Rightarrow> (key \<times> val) list" where
  "scan_pinned_reverse sh hint start stop snapshot limit =
     (if start \<ge> stop then []
      else rev (take (max 1 limit) (live_pairs snapshot (rev (bt_range (sh ! shard_of hint) start stop)))))"

text \<open>The least key above every key with a prefix: trailing 0xFF bytes dropped, the last byte
  incremented.  Empty when there is none.\<close>

fun bump_last :: "bytes \<Rightarrow> bytes" where
  "bump_last [] = []"
| "bump_last (b # r) = (if b = 255 then bump_last r else (b + 1) # r)"

definition prefix_end :: "bytes \<Rightarrow> bytes" where
  "prefix_end p = rev (bump_last (rev p))"

definition scan_prefix :: "shards \<Rightarrow> bytes \<Rightarrow> nat \<Rightarrow> (key \<times> val) list option" where
  "scan_prefix sh p snapshot =
     (let stop = prefix_end p
      in if stop = [] then
           Some (sort_key fst (concat (map (\<lambda>data. live_pairs snapshot (filter (\<lambda>(k, _). p \<le> k) data)) sh)))
         else scan sh p stop snapshot)"

section \<open>Well-formed shards\<close>

definition shards_wf :: "shards \<Rightarrow> bool" where
  "shards_wf sh \<longleftrightarrow> length sh = SHARD_COUNT \<and>
     (\<forall>i<SHARD_COUNT. bt_wf (sh ! i) \<and>
        (\<forall>(k, c)\<in>set (sh ! i). shard_of k = i \<and> chain_wf c \<and> versions c \<noteq> []))"

lemma shard_of_less [simp]: "shard_of k < SHARD_COUNT"
proof -
  have "of_nat (SHARD_COUNT - 1) = (mask 5 :: 64 word)"
    by (simp add: SHARD_COUNT_def mask_eq_exp_minus_1)
  then have "shard_of k = take_bit 5 (unat (fnv1a (hash_input k)))"
    by (simp add: shard_of_def unsigned_take_bit_eq flip: take_bit_eq_mask)
  then show ?thesis by (simp add: SHARD_COUNT_def take_bit_eq_mod)
qed

lemma empty_shards_wf [wf_intros]: "shards_wf empty_shards"
  by (simp add: shards_wf_def empty_shards_def)

lemma lookup_empty [simp]: "chain_lookup empty_shards k = None"
  using shard_of_less [of k] by (simp add: chain_lookup_def empty_shards_def)

lemma lookup_wf: "shards_wf sh \<Longrightarrow> chain_lookup sh k = Some c \<Longrightarrow> chain_wf c \<and> versions c \<noteq> []"
proof -
  assume wf: "shards_wf sh" and "chain_lookup sh k = Some c"
  then have "(k, c) \<in> set (sh ! shard_of k)" by (simp add: chain_lookup_def map_of_SomeD)
  with wf shard_of_less [of k] show "chain_wf c \<and> versions c \<noteq> []"
    unfolding shards_wf_def by blast
qed

lemma in_shard: "shards_wf sh \<Longrightarrow> i < SHARD_COUNT \<Longrightarrow> (k, c) \<in> set (sh ! i) \<longleftrightarrow> shard_of k = i \<and> chain_lookup sh k = Some c"
  by (fastforce simp: shards_wf_def chain_lookup_def bt_in_set)

text \<open>The number of live \<open>kv:\<close> keys.\<close>

definition kv_alive :: "key \<times> chain \<Rightarrow> bool" where
  "kv_alive e = (case e of (k, c) \<Rightarrow> starts_with k kv_prefix \<and> chain_latest c \<noteq> None)"

definition live_kv_keys :: "shards \<Rightarrow> int" where
  "live_kv_keys sh = sum_list (map (\<lambda>data. int (length (filter kv_alive data))) sh)"

section \<open>What applying does to one key\<close>

definition push_all :: "nat list \<Rightarrow> mutation list \<Rightarrow> chain \<Rightarrow> chain" where
  "push_all active ms c = fold (\<lambda>m. chain_push (m_ts m) (m_value m) active) ms c"

lemma push_all_simps [simp]: "push_all a [] c = c"
  "push_all a (m # ms) c = push_all a ms (chain_push (m_ts m) (m_value m) a c)"
  by (simp_all add: push_all_def)

lemma push_all_wf [wf_intros]: "chain_wf c \<Longrightarrow> chain_wf (push_all a ms c)"
  by (induction ms arbitrary: c) (auto intro: push_wf)

lemma push_all_nonempty: "ms \<noteq> [] \<Longrightarrow> versions (push_all a ms c) \<noteq> []"
  by (induction ms rule: rev_induct) (simp_all add: push_all_def)

definition of_key :: "key \<Rightarrow> mutation list \<Rightarrow> mutation list" where
  "of_key k ms = filter (\<lambda>m. m_key m = k) ms"

lemma of_key_simps [simp]: "of_key k [] = []"
  "of_key k (m # ms) = (if m_key m = k then m # of_key k ms else of_key k ms)"
  "of_key k (ms @ ns) = of_key k ms @ of_key k ns"
  by (simp_all add: of_key_def)

definition pushed :: "nat list \<Rightarrow> mutation list \<Rightarrow> (key \<Rightarrow> chain option) \<Rightarrow> key \<Rightarrow> chain option" where
  "pushed a ms f k =
     (if of_key k ms = [] then f k
      else Some (push_all a (of_key k ms) (case f k of None \<Rightarrow> chain_default | Some c \<Rightarrow> c)))"

lemma apply_item_step:
  assumes "bt_wf data" and "apply_item a m (data, d, dead) = (data', d', dead')"
  shows "bt_wf data'"
    and "bt_get data' = (bt_get data)(m_key m \<mapsto> chain_push (m_ts m) (m_value m) a (chain_of data (m_key m)))"
    and "d' - d = int (length (filter kv_alive data')) - int (length (filter kv_alive data))"
    and "set dead \<subseteq> set dead'"
    and "bt_get data' k = Some c \<Longrightarrow> chain_latest c = None \<Longrightarrow> (k, latest_ts c) \<in> set dead' \<or> bt_get data k = Some c"
proof -
  let ?c = "chain_of data (m_key m)"
  let ?c' = "chain_push (m_ts m) (m_value m) a ?c"
  have r: "data' = bt_insert (m_key m) ?c' data"
    "d' = (if starts_with (m_key m) kv_prefix
           then d + of_bool (chain_latest ?c' \<noteq> None) - of_bool (chain_latest ?c \<noteq> None) else d)"
    "dead' = (if chain_latest ?c' = None then dead @ [(m_key m, latest_ts ?c')] else dead)"
    using assms(2) [symmetric] by (simp_all only: apply_item_def Let_def prod.case prod.inject)
  show "bt_wf data'" using assms(1) by (simp add: r bt_wf_insert)
  show upd: "bt_get data' = (bt_get data)(m_key m \<mapsto> ?c')" using assms(1) by (simp add: r bt_get_insert)
  show "d' - d = int (length (filter kv_alive data')) - int (length (filter kv_alive data))"
    unfolding r(1) count_bt_insert [OF assms(1)]
    by (simp add: r(2) kv_alive_def chain_of_def chain_default_def chain_latest_def split: option.split)
  show "set dead \<subseteq> set dead'" by (auto simp: r)
  show "(k, latest_ts c) \<in> set dead' \<or> bt_get data k = Some c"
    if "bt_get data' k = Some c" "chain_latest c = None"
    using that upd by (auto simp: r(3) split: if_splits)
qed

lemma apply_items_fold:
  assumes "bt_wf data" and "fold (apply_item a) items (data, d, dead) = (data', d', dead')"
  shows "bt_wf data' \<and> bt_get data' = pushed a items (bt_get data)
    \<and> d' - d = int (length (filter kv_alive data')) - int (length (filter kv_alive data))
    \<and> set dead \<subseteq> set dead'
    \<and> (\<forall>k c. bt_get data' k = Some c \<and> chain_latest c = None \<longrightarrow>
             (k, latest_ts c) \<in> set dead' \<or> bt_get data k = Some c)"
  using assms
proof (induction items arbitrary: data d dead)
  case (Cons m items)
  obtain data1 d1 dead1 where s: "apply_item a m (data, d, dead) = (data1, d1, dead1)"
    by (metis prod_cases3)
  note st = apply_item_step [OF Cons.prems(1) s]
  have "fold (apply_item a) items (data1, d1, dead1) = (data', d', dead')" using Cons.prems(2) s by simp
  note IH = Cons.IH [OF st(1) this]
  have "bt_get data' = pushed a (m # items) (bt_get data)"
    using IH st(2) by (auto simp: pushed_def fun_eq_iff chain_of_def)
  moreover have "\<forall>k c. bt_get data' k = Some c \<and> chain_latest c = None \<longrightarrow>
      (k, latest_ts c) \<in> set dead' \<or> bt_get data k = Some c"
    using IH st(5) by blast
  moreover have "set dead \<subseteq> set dead'" using IH st(4) by blast
  ultimately show ?case using IH st(1,3) by simp
qed (simp add: pushed_def fun_eq_iff)

text \<open>The loop over the shards.\<close>

definition dead_recorded :: "shards \<Rightarrow> (key \<times> nat) list \<Rightarrow> bool" where
  "dead_recorded sh gy \<longleftrightarrow>
     (\<forall>k c. chain_lookup sh k = Some c \<and> chain_latest c = None \<longrightarrow> (k, latest_ts c) \<in> set gy)"

lemma pushed_filter:
  "(\<And>m. m \<in> set ms \<Longrightarrow> m_key m = k \<Longrightarrow> P m) \<Longrightarrow> pushed a (filter P ms) f k = pushed a ms f k"
proof -
  assume "\<And>m. m \<in> set ms \<Longrightarrow> m_key m = k \<Longrightarrow> P m"
  then have "of_key k (filter P ms) = of_key k ms"
    by (induction ms) auto
  then show ?thesis by (simp add: pushed_def)
qed

lemma pushed_Some_wf:
  assumes "pushed a ms f k = Some c" and "\<And>c. f k = Some c \<Longrightarrow> chain_wf c \<and> versions c \<noteq> []"
  shows "chain_wf c \<and> versions c \<noteq> []"
  using assms
  by (auto simp: pushed_def push_all_nonempty intro!: push_all_wf chain_default_wf split: if_splits option.splits)

lemma live_kv_update:
  assumes "i < length sh"
  shows "live_kv_keys (sh[i := data]) =
     live_kv_keys sh - int (length (filter kv_alive (sh ! i))) + int (length (filter kv_alive data))"
proof -
  have "sh = take i sh @ sh ! i # drop (Suc i) sh" using assms by (rule id_take_nth_drop)
  then have "live_kv_keys sh = live_kv_keys (take i sh) + int (length (filter kv_alive (sh ! i))) + live_kv_keys (drop (Suc i) sh)"
    unfolding live_kv_keys_def by (metis (no_types, lifting) add.assoc list.simps(9) map_append sum_list.Cons sum_list_append)
  moreover have "live_kv_keys (sh[i := data]) = live_kv_keys (take i sh) + int (length (filter kv_alive data)) + live_kv_keys (drop (Suc i) sh)"
    using assms by (simp add: live_kv_keys_def upd_conv_take_nth_drop)
  ultimately show ?thesis by simp
qed

lemma shards_wf_update:
  assumes "shards_wf sh" and "i < SHARD_COUNT" and "bt_wf data"
    and "\<And>k c. bt_get data k = Some c \<Longrightarrow> shard_of k = i \<and> chain_wf c \<and> versions c \<noteq> []"
  shows "shards_wf (sh[i := data])"
  using assms by (auto simp: shards_wf_def nth_list_update bt_in_set)

lemma apply_shards_loop_ok:
  assumes "shards_wf sh" and "apply_shards_loop a muts is (sh, kv, gy) = (sh', kv', gy')"
    and "distinct is" and "set is \<subseteq> {..<SHARD_COUNT}"
  shows "shards_wf sh'
    \<and> (\<forall>k. chain_lookup sh' k = (if shard_of k \<in> set is then pushed a muts (chain_lookup sh) k else chain_lookup sh k))
    \<and> kv' - kv = live_kv_keys sh' - live_kv_keys sh
    \<and> (dead_recorded sh gy \<longrightarrow> dead_recorded sh' gy')"
  using assms
proof (induction "is" arbitrary: sh kv gy)
  case (Cons i "is")
  let ?items = "filter (\<lambda>m. shard_of (m_key m) = i) muts"
  have i: "i < SHARD_COUNT" "i < length sh" using Cons.prems by (auto simp: shards_wf_def)
  obtain data d dead where ai: "apply_items a ?items (sh ! i) = (data, d, dead)" by (metis prod_cases3)
  have wfi: "bt_wf (sh ! i)" using Cons.prems i by (simp add: shards_wf_def)
  note fold = apply_items_fold [OF wfi ai [unfolded apply_items_def]]
  have get: "bt_get (sh ! i) k = (if shard_of k = i then chain_lookup sh k else None)" for k
    using in_shard [OF Cons.prems(1) i(1)] wfi
    by (metis bt_in_set chain_lookup_def option.exhaust)
  have dat: "bt_get data k = (if shard_of k = i then pushed a muts (chain_lookup sh) k else None)" for k
  proof (cases "shard_of k = i")
    case True
    then have "pushed a ?items (bt_get (sh ! i)) k = pushed a muts (bt_get (sh ! i)) k"
      by (intro pushed_filter) auto
    then show ?thesis using True fold get by (simp add: pushed_def)
  next
    case False
    then have "of_key k ?items = []" by (auto simp: of_key_def filter_empty_conv)
    then show ?thesis using False fold get by (simp add: pushed_def)
  qed
  let ?sh = "sh[i := data]"
  have wf1: "shards_wf ?sh"
    using Cons.prems(1) i fold dat lookup_wf [OF Cons.prems(1)]
    by (intro shards_wf_update) (auto dest!: pushed_Some_wf split: if_splits)
  have look: "chain_lookup ?sh k = (if shard_of k = i then pushed a muts (chain_lookup sh) k else chain_lookup sh k)" for k
    using dat i by (auto simp: chain_lookup_def)
  have kv1: "d = live_kv_keys ?sh - live_kv_keys sh"
    using fold i by (simp add: live_kv_update)
  have dr: "dead_recorded ?sh (gy @ dead)" if "dead_recorded sh gy"
    unfolding dead_recorded_def
  proof (intro allI impI)
    fix k c assume c: "chain_lookup ?sh k = Some c \<and> chain_latest c = None"
    then show "(k, latest_ts c) \<in> set (gy @ dead)"
      using that fold look dat get by (auto simp: dead_recorded_def split: if_splits)
  qed
  have step: "apply_shards_loop a muts is (?sh, kv + d, gy @ dead) = (sh', kv', gy')"
  proof (cases "?items = []")
    case True
    then have "data = sh ! i" "d = 0" "dead = []" using ai by (simp_all add: apply_items_def)
    then show ?thesis using Cons.prems(2) True by simp
  next
    case False
    then show ?thesis using Cons.prems(2) ai by (simp add: Let_def)
  qed
  have "distinct is" "set is \<subseteq> {..<SHARD_COUNT}" "i \<notin> set is" using Cons.prems by auto
  then show ?case
    using Cons.IH [OF wf1 step] look kv1 dr by (auto simp: pushed_def)
qed simp

lemma apply_muts_ok:
  assumes "shards_wf sh" and "apply_muts a muts (sh, kv, gy) = (sh', kv', gy')"
  shows "shards_wf sh'" and "chain_lookup sh' k = pushed a muts (chain_lookup sh) k"
    and "kv' - kv = live_kv_keys sh' - live_kv_keys sh"
    and "dead_recorded sh gy \<Longrightarrow> dead_recorded sh' gy'"
  using apply_shards_loop_ok [OF assms(1) assms(2) [unfolded apply_muts_def]] by (auto simp: atLeast0LessThan)

section \<open>Scans\<close>

text \<open>A list of pairs is the scan of the keys with a property: in key order, all of them, no others.\<close>

definition is_scan :: "(key \<Rightarrow> bool) \<Rightarrow> shards \<Rightarrow> nat \<Rightarrow> (key \<times> val) list \<Rightarrow> bool" where
  "is_scan P sh snap out \<longleftrightarrow>
     bt_wf out \<and> (\<forall>k v. (k, v) \<in> set out \<longleftrightarrow> P k \<and> get_at sh k snap = Some v)"

lemma bt_set_unique: "bt_wf xs \<Longrightarrow> bt_wf ys \<Longrightarrow> set xs = set ys \<Longrightarrow> xs = ys"
  by (rule bt.entries_ext) (auto simp: fun_eq_iff, metis bt_in_set not_Some_eq old.prod.exhaust)

lemma is_scan_unique: "is_scan P sh s xs \<Longrightarrow> is_scan P sh s ys \<Longrightarrow> xs = ys"
  by (rule bt_set_unique) (auto simp: is_scan_def)

lemma in_live_pairs: "(k, v) \<in> set (live_pairs s es) \<longleftrightarrow> (\<exists>c. (k, c) \<in> set es \<and> visible s c = Some v)"
  by (force simp: live_pairs_def map_filter_def)

lemma live_pairs_Cons: "live_pairs s ((k, c) # es) =
   (case visible s c of None \<Rightarrow> live_pairs s es | Some v \<Rightarrow> (k, v) # live_pairs s es)"
  by (simp add: live_pairs_def List.map_filter_simps split: option.split)

lemma live_pairs_Nil [simp]: "live_pairs s [] = []"
  by (simp add: live_pairs_def List.map_filter_simps)

lemma live_pairs_wf: "bt_wf es \<Longrightarrow> bt_wf (live_pairs s es)"
proof (induction es)
  case (Cons e es)
  obtain k c where e: "e = (k, c)" by (cases e)
  have "\<forall>x\<in>set (live_pairs s es). k < fst x"
    using Cons.prems by (fastforce simp: e bt_wf_Cons in_live_pairs)
  then show ?case
    using Cons by (auto simp: e live_pairs_Cons bt_wf_Cons split: option.split)
qed simp

lemma live_pairs_append: "live_pairs s (xs @ ys) = live_pairs s xs @ live_pairs s ys"
  by (induction xs) (auto simp: live_pairs_Cons split: option.split)

lemma live_pairs_rev: "live_pairs s (rev es) = rev (live_pairs s es)"
  by (induction es) (auto simp: live_pairs_append live_pairs_Cons split: option.split)

text \<open>Lists of pairs of different shards, concatenated and sorted.\<close>

definition sharded :: "nat \<Rightarrow> (key \<times> 'a) list list \<Rightarrow> bool" where
  "sharded n ls \<longleftrightarrow> (\<forall>i<length ls. bt_wf (ls ! i) \<and> (\<forall>x\<in>set (ls ! i). shard_of (fst x) = n + i))"

lemma sharded_Cons:
  "sharded n (l # ls) \<longleftrightarrow> bt_wf l \<and> (\<forall>x\<in>set l. shard_of (fst x) = n) \<and> sharded (Suc n) ls"
  by (auto simp: sharded_def nth_Cons split: nat.split)

lemma sharded_distinct: "sharded n ls \<Longrightarrow> distinct (map fst (concat ls)) \<and> (\<forall>x\<in>set (concat ls). n \<le> shard_of (fst x))"
proof (induction ls arbitrary: n)
  case (Cons l ls)
  then have l: "bt_wf l" "\<forall>x\<in>set l. shard_of (fst x) = n" and ls: "sharded (Suc n) ls"
    by (simp_all add: sharded_Cons)
  show ?case
    using Cons.IH [OF ls] l bt_wf_distinct [OF l(1)] by (force simp: not_less_eq_eq)
qed simp

lemma sharded_sort_wf: "sharded n ls \<Longrightarrow> bt_wf (sort_key fst (concat ls))"
  using sharded_distinct [of n ls]
  by (simp add: bt_wf_def strict_sorted_iff distinct_map) 

lemma sorted_take_superset:
  assumes A: "bt_wf A" and B: "bt_wf B" and "set B \<subseteq> set A" and "set (take n A) \<subseteq> set B"
  shows "take n B = take n A"
proof -
  let ?C = "take n A @ filter (\<lambda>x. x \<in> set B) (drop n A)"
  have split: "sorted_wrt (\<lambda>x y. fst x < fst y) (take n A @ drop n A)"
    using A by (simp add: bt_wf_def sorted_wrt_map)
  then have C: "bt_wf ?C"
    by (simp only: sorted_wrt_append bt_wf_def sorted_wrt_map) (auto simp: sorted_wrt_filter)
  have "set A = set (take n A) \<union> set (drop n A)" by (metis append_take_drop_id set_append)
  then have "set B = set ?C" using assms(3,4) by auto
  then have "B = ?C" using B C by (intro bt_set_unique)
  then have "take n B = take n ?C" by simp
  also have "\<dots> = take n A"
    by (cases "length A \<le> n") (auto simp: min_def)
  finally show ?thesis .
qed

lemma first_of_union:
  assumes A: "bt_wf A" and l: "bt_wf l" "set l \<subseteq> set A" and x: "x \<in> set (take n A)" "x \<in> set l"
  shows "x \<in> set (take n l)"
proof (rule ccontr)
  assume nx: "x \<notin> set (take n l)"
  then have xd: "x \<in> set (drop n l)" using x(2) by (metis UnE append_take_drop_id set_append)
  have "sorted_wrt (\<lambda>x y. fst x < fst y) (take n l @ drop n l)"
    using l by (simp add: bt_wf_def sorted_wrt_map)
  then have less: "\<forall>y\<in>set (take n l). fst y < fst x"
    using xd by (simp only: sorted_wrt_append)  blast
  obtain j where j: "j < n" "j < length A" "A ! j = x"
    using x(1) by (auto simp: in_set_conv_nth)
  have sA: "sorted_wrt (\<lambda>x y. fst x < fst y) A" using A by (simp add: bt_wf_def sorted_wrt_map)
  have "set (take n l) \<subseteq> set (take j A)"
  proof
    fix y assume y: "y \<in> set (take n l)"
    then have "y \<in> set A" using l(2) by (meson in_set_takeD subsetD)
    then obtain i where i: "i < length A" "A ! i = y" by (auto simp: in_set_conv_nth)
    have "\<not> j \<le> i"
      using less y j i sorted_wrt_nth_less [OF sA, of j i] by (auto simp: le_less)
    then show "y \<in> set (take j A)" using i by (auto simp: in_set_conv_nth)
  qed
  then have "card (set (take n l)) \<le> card (set (take j A))" by (intro card_mono) auto
  also have "\<dots> \<le> j" using card_length [of "take j A"] by simp
  finally have "card (set (take n l)) \<le> j" .
  moreover have "card (set (take n l)) = length (take n l)"
    using bt_wf_distinct [OF l(1)] by (intro distinct_card distinct_take) (simp add: distinct_map)
  moreover have "n \<le> length l" using xd by (cases "n \<le> length l") auto
  ultimately show False using j(1) by simp
qed

text \<open>The keys of all shards with a property.\<close>

definition shard_lists :: "(key \<Rightarrow> bool) \<Rightarrow> nat \<Rightarrow> shards \<Rightarrow> (key \<times> val) list list" where
  "shard_lists P s sh = map (\<lambda>data. live_pairs s (filter (\<lambda>(k, _). P k) data)) sh"

lemma filter_bt_wf: "bt_wf m \<Longrightarrow> bt_wf (filter P m)"
  by (simp add: bt_wf_def sorted_wrt_map sorted_wrt_filter)

lemma shard_lists_sharded:
  assumes wf: "shards_wf sh"
  shows "sharded 0 (shard_lists P s sh)"
  unfolding sharded_def
proof (intro allI impI)
  fix i assume "i < length (shard_lists P s sh)"
  then have i: "i < SHARD_COUNT" "i < length sh" using wf by (simp_all add: shard_lists_def shards_wf_def)
  have "bt_wf (sh ! i)" "\<forall>(k, c)\<in>set (sh ! i). shard_of k = i" using wf i by (auto simp: shards_wf_def)
  then show "bt_wf (shard_lists P s sh ! i) \<and> (\<forall>x\<in>set (shard_lists P s sh ! i). shard_of (fst x) = 0 + i)"
    using i by (auto simp: shard_lists_def live_pairs_wf filter_bt_wf in_live_pairs)
qed

lemma in_shard_lists:
  assumes wf: "shards_wf sh" and i: "i < SHARD_COUNT"
  shows "(k, v) \<in> set (shard_lists P s sh ! i) \<longleftrightarrow> shard_of k = i \<and> P k \<and> get_at sh k s = Some v"
proof -
  have "i < length sh" using assms by (simp add: shards_wf_def)
  then have "(k, v) \<in> set (shard_lists P s sh ! i) \<longleftrightarrow> (\<exists>c. (k, c) \<in> set (sh ! i) \<and> P k \<and> visible s c = Some v)"
    by (auto simp: shard_lists_def in_live_pairs)
  then show ?thesis
    using in_shard [OF wf i] by (auto simp: get_at_def split: option.splits)
qed

lemma length_shard_lists: "shards_wf sh \<Longrightarrow> length (shard_lists P s sh) = SHARD_COUNT"
  by (simp add: shard_lists_def shards_wf_def)

lemma shard_lists_scan:
  assumes wf: "shards_wf sh"
  shows "is_scan P sh s (sort_key fst (concat (shard_lists P s sh)))"
proof -
  have "(k, v) \<in> set (concat (shard_lists P s sh)) \<longleftrightarrow> P k \<and> get_at sh k s = Some v" for k v
  proof -
    have "(k, v) \<in> set (concat (shard_lists P s sh)) \<longleftrightarrow> (\<exists>i<SHARD_COUNT. (k, v) \<in> set (shard_lists P s sh ! i))"
      using length_shard_lists [OF wf, of P s] by (auto simp: set_conv_nth [of "shard_lists P s sh"])
    then show ?thesis using in_shard_lists [OF wf] shard_of_less [of k] by blast
  qed
  then show ?thesis
    using sharded_sort_wf [OF shard_lists_sharded [OF wf]] by (simp add: is_scan_def)
qed

lemma bt_range_shard: "live_pairs s (bt_range data lo hi) = live_pairs s (filter (\<lambda>(k, _). lo \<le> k \<and> k < hi) data)"
  by (simp add: bt_range_def)

lemma scan_eq: "lo \<le> hi \<Longrightarrow> scan sh lo hi s = Some (sort_key fst (concat (shard_lists (\<lambda>k. lo \<le> k \<and> k < hi) s sh)))"
  by (simp add: scan_def shard_lists_def bt_range_shard not_less [symmetric])

lemma take_lists_sharded: "sharded n ls \<Longrightarrow> sharded n (map (take m) ls)"
  by (auto simp: sharded_def bt_wf_def sorted_wrt_take dest: in_set_takeD simp flip: take_map)

text \<open>Taking the first \<open>n\<close> of every shard is enough for the first \<open>n\<close> of all.\<close>

lemma take_shards:
  assumes wf: "shards_wf sh"
  shows "take n (sort_key fst (concat (map (take n) (shard_lists P s sh))))
       = take n (sort_key fst (concat (shard_lists P s sh)))"
proof (rule sorted_take_superset)
  let ?ls = "shard_lists P s sh" and ?A = "sort_key fst (concat (shard_lists P s sh))"
  show A: "bt_wf ?A" by (rule sharded_sort_wf [OF shard_lists_sharded [OF wf]])
  show "bt_wf (sort_key fst (concat (map (take n) ?ls)))"
    by (rule sharded_sort_wf [OF take_lists_sharded [OF shard_lists_sharded [OF wf]]])
  show "set (sort_key fst (concat (map (take n) ?ls))) \<subseteq> set ?A"
    by (auto dest: in_set_takeD)
  show "set (take n ?A) \<subseteq> set (sort_key fst (concat (map (take n) ?ls)))"
  proof
    fix x assume x: "x \<in> set (take n ?A)"
    then have "x \<in> set ?A" by (rule in_set_takeD)
    then obtain l where l: "l \<in> set ?ls" "x \<in> set l" by auto
    then have "bt_wf l" using shard_lists_sharded [OF wf, of P s] by (auto simp: sharded_def in_set_conv_nth)
    then have "x \<in> set (take n l)" using first_of_union [OF A _ _ x l(2)] l(1) by auto
    then show "x \<in> set (sort_key fst (concat (map (take n) ?ls)))" using l(1) by auto
  qed
qed

text \<open>The end of a prefix range.\<close>

lemma bump_last_append: "bump_last (xs @ ys) = (if bump_last xs = [] then bump_last ys else bump_last xs @ ys)"
  by (induction xs) auto

lemma prefix_end_Cons:
  "prefix_end (b # p) = (if prefix_end p = [] then (if b = 255 then [] else [b + 1]) else b # prefix_end p)"
  by (simp add: prefix_end_def bump_last_append)

lemma byte_le_255: "(b :: byte) \<le> 255"
  using unat_byte_less [of b] by (simp add: word_le_nat_alt)

lemma byte_less_Suc: "(b :: byte) \<noteq> 255 \<Longrightarrow> c < b + 1 \<longleftrightarrow> c \<le> b"
proof -
  assume b: "b \<noteq> 255"
  then have "unat b < 255"
    using byte_le_255 [of b] by (simp add: word_le_nat_alt word_unat_eq_iff)
  then have "unat (b + 1) = unat b + 1"
    by (intro unat_add_lem [THEN iffD1, THEN trans]) simp_all
  then show ?thesis by (simp add: word_less_nat_alt word_le_nat_alt less_Suc_eq_le)
qed

lemma all_255_le: "prefix_end p = [] \<Longrightarrow> p \<le> k \<longleftrightarrow> starts_with k p"
proof (induction p arbitrary: k)
  case (Cons b p)
  then have b: "b = 255" "prefix_end p = []" by (auto simp: prefix_end_Cons split: if_splits)
  show ?case
  proof (cases k)
    case (Cons c r)
    then show ?thesis
      using b Cons.IH [of r] byte_le_255 [of c] by (auto simp: starts_with_def)
  qed (simp add: starts_with_def)
qed (simp add: starts_with_def)

lemma prefix_end_range:
  "prefix_end p \<noteq> [] \<Longrightarrow> p \<le> k \<and> k < prefix_end p \<longleftrightarrow> starts_with k p"
proof (induction p arbitrary: k)
  case (Cons b p)
  show ?case
  proof (cases k)
    case kc: (Cons c r)
    show ?thesis
    proof (cases "prefix_end p = []")
      case True
      then have "b \<noteq> 255" using Cons.prems by (auto simp: prefix_end_Cons)
      then show ?thesis
        using True kc all_255_le [OF True, of r] byte_less_Suc [of b c]
        by (auto simp: prefix_end_Cons starts_with_def)
    next
      case False
      then show ?thesis using kc Cons.IH [OF False, of r] by (auto simp: prefix_end_Cons starts_with_def)
    qed
  qed (simp add: starts_with_def)
qed (simp add: prefix_end_def)

lemma prefix_end_above: "prefix_end p \<noteq> [] \<Longrightarrow> p \<le> prefix_end p"
  using prefix_end_range [of p p] by (simp add: starts_with_def)

section \<open>Claims\<close>

lemma position_append: "(\<forall>x\<in>set xs. \<not> P x) \<Longrightarrow> P y \<Longrightarrow> position P (xs @ y # ys) = Some (length xs)"
  by (induction xs) auto

lemma is_scan_cong: "is_scan P sh s out \<Longrightarrow> (\<And>k. P k = Q k) \<Longrightarrow> is_scan Q sh s out"
  by (simp add: is_scan_def)

lemma shards_wf_length: "shards_wf sh \<Longrightarrow> length sh = SHARD_COUNT"
  by (simp add: shards_wf_def)

lemma pinned_scan_out:
  assumes wf: "shards_wf sh" and r: "start < stop" and limit: "0 < limit"
    and tag: "\<And>k. start \<le> k \<and> k < stop \<and> get_at sh k s \<noteq> None \<Longrightarrow> shard_of k = shard_of hint"
  shows "\<exists>out. scan sh start stop s = Some out \<and> scan_pinned sh hint start stop s = Some out
    \<and> scan_pinned_limit sh hint start stop s limit = take limit out
    \<and> scan_pinned_reverse sh hint start stop s limit = drop (length out - limit) out"
proof -
  let ?P = "\<lambda>k. start \<le> k \<and> k < stop"
  let ?out = "sort_key fst (concat (shard_lists ?P s sh))"
  have nle: "\<not> stop \<le> start" "start \<le> stop" using \<open>start < stop\<close> by (meson leD less_imp_le)+
  let ?pin = "live_pairs s (bt_range (sh ! shard_of hint) start stop)"
  have "shard_of hint < length sh" using wf by (simp add: shards_wf_length)
  then have pin: "?pin = shard_lists ?P s sh ! shard_of hint"
    by (simp add: shard_lists_def bt_range_shard)
  have "bt_wf ?pin"
    using shard_lists_sharded [OF wf, of ?P s] length_shard_lists [OF wf] by (simp add: pin sharded_def)
  then have "is_scan ?P sh s ?pin"
    using tag in_shard_lists [OF wf shard_of_less, of _ _ ?P s hint] by (auto simp: is_scan_def pin)
  then have "?out = ?pin" using is_scan_unique shard_lists_scan [OF wf] by blast
  then show ?thesis
    using nle limit scan_eq [OF nle(2), of sh s]
    by (simp add: scan_pinned_def scan_pinned_limit_def scan_pinned_reverse_def not_less [symmetric]
        live_pairs_rev rev_take max_def)
qed

lemma scan_out:
  assumes wf: "shards_wf sh" and "start < stop"
  shows "\<exists>out. scan sh start stop s = Some out \<and> is_scan (\<lambda>k. start \<le> k \<and> k < stop) sh s out
    \<and> (\<forall>limit. scan_from sh start stop limit s = take limit out)"
proof -
  let ?P = "\<lambda>k. start \<le> k \<and> k < stop"
  let ?out = "sort_key fst (concat (shard_lists ?P s sh))"
  have nle: "\<not> stop \<le> start" "start \<le> stop" using \<open>start < stop\<close> by (meson leD less_imp_le)+
  have "scan_from sh start stop limit s = take limit ?out" for limit
  proof (cases "limit = 0")
    case False
    have "map (\<lambda>data. take limit (live_pairs s (bt_range data start stop))) sh = map (take limit) (shard_lists ?P s sh)"
      by (simp add: shard_lists_def bt_range_shard)
    then show ?thesis
      using False nle take_shards [OF wf, of limit ?P s] by (simp add: scan_from_def)
  qed (simp add: scan_from_def)
  then show ?thesis
    using scan_eq [OF nle(2), of sh s] shard_lists_scan [OF wf, of ?P s] by simp
qed

text \<open>
  Claim C4. A range scan over the 32 shards returns exactly the live pairs of the range at the
  snapshot, in key order, and a page of \<open>limit\<close> entries, which reads at most \<open>limit\<close> entries
  of every shard, is the beginning of that scan.
\<close>

theorem scan_complete_and_paged:
  assumes wf: "shards_wf sh" and "start < stop"
  shows "\<exists>out. scan sh start stop s = Some out \<and> is_scan (\<lambda>k. start \<le> k \<and> k < stop) sh s out
    \<and> (\<forall>limit. scan_from sh start stop limit s = take limit out)"
  using assms by (rule scan_out)

theorem scan_complete_and_paged_witness:
  "\<exists>out. scan empty_shards [97] [98] 7 = Some out \<and> is_scan (\<lambda>k. [97] \<le> k \<and> k < [98]) empty_shards 7 out
    \<and> (\<forall>limit. scan_from empty_shards [97] [98] limit 7 = take limit out)"
  by (rule scan_complete_and_paged [OF empty_shards_wf]) simp

lemma prefix_scan_out:
  assumes wf: "shards_wf sh"
  shows "\<exists>out. scan_prefix sh p s = Some out \<and> is_scan (\<lambda>k. starts_with k p) sh s out"
proof (cases "prefix_end p = []")
  case True
  have "map (\<lambda>data. live_pairs s (filter (\<lambda>(k, _). p \<le> k) data)) sh = shard_lists (\<lambda>k. p \<le> k) s sh"
    by (simp add: shard_lists_def)
  then show ?thesis
    using True is_scan_cong [OF shard_lists_scan [OF wf] all_255_le [OF True]] by (simp add: scan_prefix_def)
next
  case False
  then show ?thesis
    using is_scan_cong [OF shard_lists_scan [OF wf] prefix_end_range [OF False]]
      scan_eq [OF prefix_end_above [OF False]] by (simp add: scan_prefix_def)
qed

text \<open>
  A prefix scan never panics and returns exactly the live pairs whose key starts with
  the prefix, in key order, also when the prefix ends in 0xFF bytes or is empty.
\<close>

theorem scan_prefix_exact:
  assumes wf: "shards_wf sh"
  shows "\<exists>out. scan_prefix sh p s = Some out \<and> is_scan (\<lambda>k. starts_with k p) sh s out"
  by (rule prefix_scan_out [OF wf])

theorem scan_prefix_exact_witness:
  "\<exists>out. scan_prefix empty_shards [112, 255] 3 = Some out \<and> is_scan (\<lambda>k. starts_with k [112, 255]) empty_shards 3 out"
  by (rule scan_prefix_exact) (rule empty_shards_wf)

text \<open>
  When every live key of a range shares the hint's shard, scanning that one shard
  loses nothing: the pinned scan equals the full scan, the limited one is its beginning and
  the reverse one is its end, in ascending order.
\<close>

theorem pinned_scan_complete:
  assumes wf: "shards_wf sh" and r: "start < stop" and limit: "0 < limit"
    and tag: "\<And>k. start \<le> k \<and> k < stop \<and> get_at sh k s \<noteq> None \<Longrightarrow> shard_of k = shard_of hint"
  shows "\<exists>out. scan sh start stop s = Some out \<and> scan_pinned sh hint start stop s = Some out
    \<and> scan_pinned_limit sh hint start stop s limit = take limit out
    \<and> scan_pinned_reverse sh hint start stop s limit = drop (length out - limit) out"
  by (rule pinned_scan_out [OF wf r limit tag])

theorem pinned_scan_complete_witness:
  "\<exists>out. scan empty_shards [97] [98] 7 = Some out \<and> scan_pinned empty_shards [97] [97] [98] 7 = Some out
    \<and> scan_pinned_limit empty_shards [97] [97] [98] 7 2 = take 2 out
    \<and> scan_pinned_reverse empty_shards [97] [97] [98] 7 2 = drop (length out - 2) out"
  by (rule pinned_scan_complete [OF empty_shards_wf]) (simp_all add: get_at_def)

text \<open>
  Keys with the same non-empty hash tag, whatever surrounds it, are on one shard, and
  every shard index is in range.
\<close>

lemma hash_tag_colocates:
  assumes "123 \<notin> set pre" and "123 \<notin> set pre'" and "125 \<notin> set tag" and "tag \<noteq> []"
  shows "shard_of (pre @ [123] @ tag @ [125] @ post) = shard_of (pre' @ [123] @ tag @ [125] @ post')
    \<and> shard_of (pre @ [123] @ tag @ [125] @ post) < SHARD_COUNT"
proof -
  have "hash_input (p @ [123] @ tag @ [125] @ q) = tag" if "123 \<notin> set p" for p q
  proof -
    have "\<forall>x\<in>set p. x \<noteq> 123" and "\<forall>x\<in>set tag. x \<noteq> 125" using that assms(3) by blast+
    then have "position (\<lambda>b. b = 123) (p @ 123 # tag @ 125 # q) = Some (length p)"
      and "position (\<lambda>b. b = 125) (tag @ 125 # q) = Some (length tag)"
      by (simp_all add: position_append)
    then show ?thesis using assms(4) by (simp add: hash_input_def Let_def)
  qed
  then have "shard_of (p @ [123] @ tag @ [125] @ q) = unat (fnv1a tag AND of_nat (SHARD_COUNT - 1))"
    if "123 \<notin> set p" for p q
    using that by (simp add: shard_of_def)
  from this [OF assms(1)] this [OF assms(2)] show ?thesis
    using shard_of_less [of "pre @ [123] @ tag @ [125] @ post"] by simp
qed

end
