(* ===== verification/Op_Store.thy ===== *)
theory Op_Store
  imports Shards
begin

text \<open>
  The store an operation on the commit path sees (\<open>OpStore\<close> and the \<open>Store\<close> trait of
  \<open>crates/storage/src/engine.rs\<close>): its own writes over the overlay of the current batch over
  the applied state, a lazy three-way merge for range reads, and an undo log that rolls one
  command of a batch back to a savepoint.  The laws the commands rely on are the locale
  \<open>kv_store\<close>, interpreted here on \<open>OpStore\<close>.
\<close>

section \<open>State and operations\<close>

record op_store =
  os_shards :: shards
  os_overlay :: "(key, val) btree"
  os_writes :: "(key, val) btree"
  os_undo :: "(key \<times> val option) list"
  os_savepoints :: nat

definition os_new :: "shards \<Rightarrow> (key, val) btree \<Rightarrow> op_store" where
  "os_new sh overlay = \<lparr>os_shards = sh, os_overlay = overlay, os_writes = [], os_undo = [], os_savepoints = 0\<rparr>"

definition os_record :: "key \<Rightarrow> op_store \<Rightarrow> op_store" where
  "os_record k st =
     (if os_savepoints st > 0 then st\<lparr>os_undo := os_undo st @ [(k, bt_get (os_writes st) k)]\<rparr> else st)"

definition os_get :: "op_store \<Rightarrow> key \<Rightarrow> val option" where
  "os_get st k =
     (case bt_get (os_writes st) k of Some v \<Rightarrow> live v | None \<Rightarrow>
      case bt_get (os_overlay st) k of Some v \<Rightarrow> live v | None \<Rightarrow>
      latest_of (os_shards st) k)"

definition os_put :: "key \<Rightarrow> val \<Rightarrow> op_store \<Rightarrow> op_store" where
  "os_put k v st = (let st = os_record k st in st\<lparr>os_writes := bt_insert k v (os_writes st)\<rparr>)"

definition os_delete :: "key \<Rightarrow> op_store \<Rightarrow> op_store" where
  "os_delete k st = (let st = os_record k st in st\<lparr>os_writes := bt_insert k VTombstone (os_writes st)\<rparr>)"

text \<open>
  The merge of \<open>scan_range\<close>.  A peekable iterator is the list of what it has yet to yield;
  \<open>next_key\<close> is the least (greatest, when reversed) key at the head of the sources and
  \<open>advance\<close> steps every source that holds it, the first one giving the value.
\<close>

type_synonym source = "(key \<times> val option) list"

fun next_key :: "bool \<Rightarrow> key option \<Rightarrow> source list \<Rightarrow> key option" where
  "next_key reverse best [] = best"
| "next_key reverse best ([] # its) = next_key reverse best its"
| "next_key reverse best (((k, _) # _) # its) =
     next_key reverse
       (case best of None \<Rightarrow> Some k
        | Some n \<Rightarrow> if (if reverse then k > n else k < n) then Some k else best) its"

fun advance :: "key \<Rightarrow> source list \<Rightarrow> val option option \<times> source list" where
  "advance key [] = (None, [])"
| "advance key (it # its) =
     (case advance key its of (chosen, its') \<Rightarrow>
        case it of
          (k, v) # rest \<Rightarrow> if k = key then (Some v, rest # its') else (chosen, it # its')
        | [] \<Rightarrow> (chosen, it # its'))"

text \<open>The loop, \<open>n\<close> being the number of entries still wanted.\<close>

lemma advance_length_le: "sum_list (map length (snd (advance key its))) \<le> sum_list (map length its)"
proof (induction its)
  case (Cons it its)
  then show ?case by (cases it) (auto split: prod.splits)
qed simp

lemma advance_length:
  "\<exists>it\<in>set its. \<exists>v r. it = (key, v) # r \<Longrightarrow>
     sum_list (map length (snd (advance key its))) < sum_list (map length its)"
proof (induction its)
  case (Cons it its)
  show ?case
  proof (cases "\<exists>v r. it = (key, v) # r")
    case True
    then show ?thesis using advance_length_le [of key its] by (auto split: prod.splits)
  next
    case False
    then have "\<exists>it\<in>set its. \<exists>v r. it = (key, v) # r" using Cons.prems by auto
    then show ?thesis using Cons.IH False by (cases it) (auto split: prod.splits)
  qed
qed simp

lemma next_key_head:
  "next_key reverse best its = Some k \<Longrightarrow> best = Some k \<or> (\<exists>it\<in>set its. \<exists>v r. it = (k, v) # r)"
  by (induction reverse best its rule: next_key.induct) (fastforce split: option.splits if_splits)+

function merge_loop :: "bool \<Rightarrow> nat \<Rightarrow> source list \<Rightarrow> (key \<times> val) list" where
  "merge_loop reverse n its =
     (if n = 0 then []
      else case next_key reverse None its of
        None \<Rightarrow> []
      | Some key \<Rightarrow>
          (case advance key its of (chosen, its') \<Rightarrow>
             case chosen of
               Some (Some v) \<Rightarrow>
                 if v \<noteq> VTombstone then (key, v) # merge_loop reverse (n - 1) its'
                 else merge_loop reverse n its'
             | _ \<Rightarrow> merge_loop reverse n its'))"
  by pat_completeness auto
termination
  by (relation "measure (\<lambda>(_, _, its). sum_list (map length its))")
    (auto dest!: next_key_head advance_length simp: prod_eq_iff)

declare merge_loop.simps [simp del]

definition os_scan_range ::
    "op_store \<Rightarrow> key \<Rightarrow> key \<Rightarrow> key \<Rightarrow> nat \<Rightarrow> bool \<Rightarrow> (key \<times> val) list" where
  "os_scan_range st hint start stop limit reverse =
     (if start \<ge> stop \<or> limit = 0 then []
      else
        let w = map (\<lambda>(k, v). (k, Some v)) (bt_range (os_writes st) start stop);
            ov = map (\<lambda>(k, v). (k, Some v)) (bt_range (os_overlay st) start stop);
            d = map (\<lambda>(k, c). (k, chain_latest c)) (bt_range (os_shards st ! shard_of hint) start stop)
        in merge_loop reverse limit (if reverse then [rev w, rev ov, rev d] else [w, ov, d]))"

definition os_version :: "op_store \<Rightarrow> key \<Rightarrow> nat" where
  "os_version st k =
     (if bt_get (os_writes st) k \<noteq> None \<or> bt_get (os_overlay st) k \<noteq> None then u64_max
      else key_version (os_shards st) k)"

definition os_has_writes :: "op_store \<Rightarrow> bool" where
  "os_has_writes st \<longleftrightarrow> os_writes st \<noteq> []"

definition os_discard :: "op_store \<Rightarrow> op_store" where
  "os_discard st = st\<lparr>os_writes := [], os_undo := []\<rparr>"

definition os_batch_keys :: "op_store \<Rightarrow> key list" where
  "os_batch_keys st = bt_keys (os_overlay st)"

definition os_savepoint :: "op_store \<Rightarrow> nat \<times> op_store" where
  "os_savepoint st = (length (os_undo st), st\<lparr>os_savepoints := os_savepoints st + 1\<rparr>)"

function os_rollback_to :: "nat \<Rightarrow> op_store \<Rightarrow> op_store" where
  "os_rollback_to sp st =
     (if length (os_undo st) > sp then
        (case last (os_undo st) of (k, prev) \<Rightarrow>
           os_rollback_to sp
             (st\<lparr>os_undo := butlast (os_undo st),
                 os_writes := (case prev of Some v \<Rightarrow> bt_insert k v (os_writes st)
                               | None \<Rightarrow> bt_remove k (os_writes st))\<rparr>))
      else st)"
  by pat_completeness auto
termination
  by (relation "measure (\<lambda>(_, st). length (os_undo st))") auto

declare os_rollback_to.simps [simp del]

section \<open>The store interface\<close>

text \<open>
  What the commands rely on: a write is read back, other keys and the read itself leave the
  rest of the view alone, a failed command can be rolled back.
\<close>

locale kv_store =
  fixes get :: "key \<Rightarrow> 's \<Rightarrow> val option \<times> 's"
    and put :: "key \<Rightarrow> val \<Rightarrow> 's \<Rightarrow> 's"
    and delete :: "key \<Rightarrow> 's \<Rightarrow> 's"
    and wf :: "'s \<Rightarrow> bool"
  assumes get_put: "wf s \<Longrightarrow> fst (get k' (put k v s)) = (if k' = k then live v else fst (get k' s))"
    and get_delete: "wf s \<Longrightarrow> fst (get k' (delete k s)) = (if k' = k then None else fst (get k' s))"
    and get_get: "wf s \<Longrightarrow> fst (get k' (snd (get k s))) = fst (get k' s)"
    and wf_put: "wf s \<Longrightarrow> wf (put k v s)"
    and wf_delete: "wf s \<Longrightarrow> wf (delete k s)"
    and wf_get: "wf s \<Longrightarrow> wf (snd (get k s))"
begin

definition view :: "'s \<Rightarrow> key \<Rightarrow> val option" where
  "view s = (\<lambda>k. fst (get k s))"

lemma view_put: "wf s \<Longrightarrow> view (put k v s) = (view s)(k := live v)"
  by (auto simp: view_def get_put)

lemma view_delete: "wf s \<Longrightarrow> view (delete k s) = (view s)(k := None)"
  by (auto simp: view_def get_delete)

lemma view_get: "wf s \<Longrightarrow> view (snd (get k s)) = view s"
  by (auto simp: view_def get_get)

lemma wf_puts: "wf s \<Longrightarrow> wf (fold (\<lambda>(k, v). put k v) kvs s)"
  by (induction kvs arbitrary: s) (auto simp: wf_put)

lemma view_puts:
  "wf s \<Longrightarrow> view (fold (\<lambda>(k, v). put k v) kvs s) k =
     (case map_of (rev kvs) k of None \<Rightarrow> view s k | Some v \<Rightarrow> live v)"
proof (induction kvs arbitrary: s)
  case (Cons a kvs)
  then show ?case
    by (cases a) (auto simp: view_put wf_put map_add_def split: option.splits)
qed simp

lemma wf_deletes: "wf s \<Longrightarrow> wf (fold delete ks s)"
  by (induction ks arbitrary: s) (auto simp: wf_delete)

lemma view_deletes: "wf s \<Longrightarrow> view (fold delete ks s) k = (if k \<in> set ks then None else view s k)"
  by (induction ks arbitrary: s) (auto simp: view_delete wf_delete)

text \<open>Read-modify-write of one key.\<close>

lemma view_update:
  "wf s \<Longrightarrow> view (put k (f (fst (get k s))) (snd (get k s))) = (view s)(k := live (f (view s k)))"
  by (simp add: view_put wf_get view_get) (simp add: view_def)

end

definition os_wf :: "op_store \<Rightarrow> bool" where
  "os_wf st \<longleftrightarrow> bt_wf (os_writes st) \<and> bt_wf (os_overlay st)"

lemma os_record_simps [simp]:
  "os_writes (os_record k st) = os_writes st" "os_overlay (os_record k st) = os_overlay st"
  "os_shards (os_record k st) = os_shards st" "os_savepoints (os_record k st) = os_savepoints st"
  by (simp_all add: os_record_def)

lemma os_update_simps [simp]:
  "os_writes (os_put k v st) = bt_insert k v (os_writes st)"
  "os_writes (os_delete k st) = bt_insert k VTombstone (os_writes st)"
  "os_overlay (os_put k v st) = os_overlay st" "os_overlay (os_delete k st) = os_overlay st"
  "os_shards (os_put k v st) = os_shards st" "os_shards (os_delete k st) = os_shards st"
  "os_savepoints (os_put k v st) = os_savepoints st" "os_savepoints (os_delete k st) = os_savepoints st"
  "os_undo (os_put k v st) = os_undo (os_record k st)" "os_undo (os_delete k st) = os_undo (os_record k st)"
  by (simp_all add: os_put_def os_delete_def Let_def)

lemma live_tombstone [simp]: "live VTombstone = None"
  by (simp add: live_def)

interpretation os: kv_store "\<lambda>k s. (os_get s k, s)" os_put os_delete os_wf
  by unfold_locales (auto simp: os_get_def os_wf_def bt_get_insert bt_wf_insert split: option.split)

lemma os_view: "os.view st = os_get st"
  by (simp add: os.view_def)

section \<open>The merge\<close>

text \<open>The order of a direction, and what the sources say about a key.\<close>

definition dir_less :: "bool \<Rightarrow> key \<Rightarrow> key \<Rightarrow> bool" where
  "dir_less reverse a b = (if reverse then b < a else a < b)"

fun first_of :: "source list \<Rightarrow> key \<Rightarrow> val option option" where
  "first_of [] k = None"
| "first_of (it # its) k = (case map_of it k of Some v \<Rightarrow> Some v | None \<Rightarrow> first_of its k)"

definition sources_ok :: "bool \<Rightarrow> source list \<Rightarrow> bool" where
  "sources_ok reverse its \<longleftrightarrow> (\<forall>it\<in>set its. sorted_wrt (dir_less reverse) (map fst it))"

lemma dir_less_trans: "dir_less r a b \<Longrightarrow> dir_less r b c \<Longrightarrow> dir_less r a c"
  by (auto simp: dir_less_def split: if_splits)

lemma dir_less_irrefl [simp]: "\<not> dir_less r a a"
  by (simp add: dir_less_def)

lemma dir_less_linear: "dir_less r a b \<or> a = b \<or> dir_less r b a"
  by (auto simp: dir_less_def)

lemma sources_ok_Cons [simp]:
  "sources_ok r (it # its) \<longleftrightarrow> sorted_wrt (dir_less r) (map fst it) \<and> sources_ok r its"
  by (simp add: sources_ok_def)

lemma next_key_least:
  "next_key r best its = Some k \<Longrightarrow>
     (\<forall>n. best = Some n \<longrightarrow> n = k \<or> dir_less r k n) \<and>
     (\<forall>it\<in>set its. \<forall>k' v rest. it = (k', v) # rest \<longrightarrow> k' = k \<or> dir_less r k k')"
proof (induction r best its rule: next_key.induct)
  case (3 r best k0 v0 rest its)
  let ?b = "case best of None \<Rightarrow> Some k0 | Some n \<Rightarrow> if (if r then k0 > n else k0 < n) then Some k0 else best"
  have IH: "(\<forall>n. ?b = Some n \<longrightarrow> n = k \<or> dir_less r k n)"
    "(\<forall>it\<in>set its. \<forall>k' v rest. it = (k', v) # rest \<longrightarrow> k' = k \<or> dir_less r k k')"
    using 3 by auto
  have "k0 = k \<or> dir_less r k k0" "\<forall>n. best = Some n \<longrightarrow> n = k \<or> dir_less r k n"
    using IH(1) dir_less_trans [of r k] dir_less_linear [of r]
    by (cases best; force simp: dir_less_def split: if_splits)+
  then show ?case using IH(2) by auto
qed auto

lemma next_key_None: "next_key r best its = None \<Longrightarrow> best = None \<and> (\<forall>it\<in>set its. it = [])"
  by (induction r best its rule: next_key.induct) (auto split: option.splits if_splits)

lemma source_after:
  assumes "sorted_wrt (dir_less r) (map fst it)" and "\<forall>k' v rest. it = (k', v) # rest \<longrightarrow> k' = k \<or> dir_less r k k'"
    and "map_of it x = Some v"
  shows "x = k \<or> dir_less r k x"
proof (cases it)
  case (Cons e rest)
  obtain k' v' where e: "e = (k', v')" by (cases e)
  have k': "k' = k \<or> dir_less r k k'" using assms(2) by (simp add: Cons e)
  show ?thesis
  proof (cases "x = k'")
    case False
    then have "(x, v) \<in> set rest" using assms(3) by (simp add: Cons e map_of_SomeD)
    then have "dir_less r k' x" using assms(1) by (force simp: Cons e)
    then show ?thesis using k' dir_less_trans by blast
  qed (use k' in simp)
qed (use assms(3) in simp)

text \<open>One round of the loop.\<close>

lemma advance_round:
  assumes "sources_ok r its"
    and "\<forall>it\<in>set its. \<forall>k' v rest. it = (k', v) # rest \<longrightarrow> k' = key \<or> dir_less r key k'"
    and "advance key its = (chosen, its')"
  shows "sources_ok r its' \<and> chosen = first_of its key \<and> first_of its' = (first_of its)(key := None)
    \<and> (\<forall>k. first_of its k \<noteq> None \<longrightarrow> k = key \<or> dir_less r key k)"
  using assms
proof (induction its arbitrary: chosen its')
  case (Cons it its)
  obtain ch jts where a: "advance key its = (ch, jts)" by fastforce
  have IH: "sources_ok r jts" "ch = first_of its key" "first_of jts = (first_of its)(key := None)"
    "\<forall>k. first_of its k \<noteq> None \<longrightarrow> k = key \<or> dir_less r key k"
    using Cons.IH [OF _ _ a] Cons.prems by auto
  have src: "sorted_wrt (dir_less r) (map fst it)" using Cons.prems by simp
  have after: "map_of it x = Some v \<Longrightarrow> x = key \<or> dir_less r key x" for x v
    using source_after [OF src] Cons.prems(2) by auto
  have ends: "\<forall>k. first_of (it # its) k \<noteq> None \<longrightarrow> k = key \<or> dir_less r key k"
    using after IH(4) by (auto split: option.splits)
  show ?case
  proof (cases "\<exists>v rest. it = (key, v) # rest")
    case True
    then obtain v rest where it: "it = (key, v) # rest" by blast
    have "map_of rest key = None" using src by (auto simp: it map_of_eq_None_iff)
    then show ?thesis
      using Cons.prems(3) a IH(1-3) src ends
      by (auto simp: it fun_eq_iff simp del: first_of.simps(2) split: if_splits)
        (auto split: option.splits)
  next
    case False
    then have r: "chosen = ch" "its' = it # jts" using Cons.prems(3) a by (auto split: list.splits)
    have "map_of it key = None"
    proof (rule ccontr)
      assume "map_of it key \<noteq> None"
      then have "key \<in> fst ` set it" by (simp add: map_of_eq_None_iff)
      then obtain k' v' rest where it: "it = (k', v') # rest" "key \<in> fst ` set rest"
        using False by (cases it) auto
      then have "dir_less r k' key" "k' = key \<or> dir_less r key k'" using src Cons.prems(2) by auto
      then show False using dir_less_trans [of r key k' key] by auto
    qed
    then show ?thesis using r IH(1-3) src ends by (auto simp: fun_eq_iff split: option.splits)
  qed
qed (simp_all add: fun_eq_iff)

text \<open>The merge yields a beginning of the live view of the sources, in order.\<close>

definition is_merge :: "bool \<Rightarrow> source list \<Rightarrow> (key \<times> val) list \<Rightarrow> bool" where
  "is_merge r its full \<longleftrightarrow> sorted_wrt (dir_less r) (map fst full)
     \<and> (\<forall>k v. (k, v) \<in> set full \<longleftrightarrow> first_of its k = Some (Some v) \<and> v \<noteq> VTombstone)"

lemma merge_loop_take:
  "sources_ok r its \<Longrightarrow> \<exists>full. is_merge r its full \<and> (\<forall>n. merge_loop r n its = take n full)"
proof (induction "sum_list (map length its)" arbitrary: its rule: less_induct)
  case less
  show ?case
  proof (cases "next_key r None its")
    case None
    then have "\<forall>it\<in>set its. it = []" using next_key_None by blast
    then have "first_of its k = None" for k by (induction its) auto
    moreover have "merge_loop r n its = []" for n using None by (simp add: merge_loop.simps [of r n its])
    ultimately show ?thesis by (intro exI [of _ "[]"]) (simp add: is_merge_def)
  next
    case (Some key)
    obtain chosen its' where a: "advance key its = (chosen, its')" by fastforce
    have "\<exists>it\<in>set its. \<exists>v rest. it = (key, v) # rest" using next_key_head [OF Some] by auto
    then have lt: "sum_list (map length its') < sum_list (map length its)"
      using advance_length [of its key] a by simp
    have "\<forall>it\<in>set its. \<forall>k' v rest. it = (k', v) # rest \<longrightarrow> k' = key \<or> dir_less r key k'"
      using next_key_least [OF Some] by blast
    note rd = advance_round [OF less.prems this a]
    then obtain full where full: "is_merge r its' full" and taken: "\<And>n. merge_loop r n its' = take n full"
      using less.hyps [OF lt] by blast
    have mem: "(k, v) \<in> set full \<longleftrightarrow> k \<noteq> key \<and> first_of its k = Some (Some v) \<and> v \<noteq> VTombstone" for k v
      using full rd by (simp add: is_merge_def)
    have after: "\<forall>x\<in>set full. dir_less r key (fst x)"
    proof
      fix x assume "x \<in> set full"
      then have "fst x \<noteq> key" "first_of its (fst x) \<noteq> None" using mem [of "fst x" "snd x"] by auto
      then show "dir_less r key (fst x)" using rd by blast
    qed
    have srt: "sorted_wrt (dir_less r) (map fst full)" using full by (simp add: is_merge_def)
    have ch: "chosen = first_of its key" using rd by blast
    show ?thesis
    proof (cases "\<exists>v. chosen = Some (Some v) \<and> v \<noteq> VTombstone")
      case True
      then obtain v where v: "chosen = Some (Some v)" "v \<noteq> VTombstone" by blast
      then have "is_merge r its ((key, v) # full)"
        using mem after srt ch by (auto simp: is_merge_def)
      moreover have "merge_loop r n its = take n ((key, v) # full)" for n
        using v by (cases n) (simp_all add: merge_loop.simps [of r _ its] Some a taken)
      ultimately show ?thesis by blast
    next
      case False
      then have "is_merge r its full" using mem srt ch unfolding is_merge_def by metis
      moreover have "merge_loop r n its = take n full" for n
        using False by (auto simp: merge_loop.simps [of r _ its] Some a taken split: option.split)
      ultimately show ?thesis by blast
    qed
  qed
qed

section \<open>Undo\<close>

definition restore :: "key \<times> val option \<Rightarrow> (key, val) btree \<Rightarrow> (key, val) btree" where
  "restore e m = (case e of (k, prev) \<Rightarrow>
     case prev of Some v \<Rightarrow> bt_insert k v m | None \<Rightarrow> bt_remove k m)"

lemma os_rollback_eq:
  "os_rollback_to sp st =
     st\<lparr>os_undo := take sp (os_undo st), os_writes := fold restore (rev (drop sp (os_undo st))) (os_writes st)\<rparr>"
proof (induction sp st rule: os_rollback_to.induct)
  case (1 sp st)
  show ?case
  proof (cases "length (os_undo st) > sp")
    case True
    then obtain u k prev where u: "os_undo st = u @ [(k, prev)]"
      by (metis append_butlast_last_id length_0_conv not_less_zero surj_pair)
    show ?thesis
      using True 1 by (simp add: os_rollback_to.simps [of sp st] u restore_def)
  qed (simp add: os_rollback_to.simps [of sp st])
qed

lemma restore_wf: "bt_wf m \<Longrightarrow> bt_wf (restore e m)"
  by (auto simp: restore_def bt_wf_insert bt_wf_remove split: prod.split option.split)

lemma fold_restore_wf: "bt_wf m \<Longrightarrow> bt_wf (fold restore es m)"
  by (induction es arbitrary: m) (auto simp: restore_wf)

lemma restore_insert: "bt_wf m \<Longrightarrow> restore (k, bt_get m k) (bt_insert k v m) = m"
  by (rule bt.entries_ext)
    (auto simp: restore_def bt_get_insert bt_get_remove bt_wf_insert bt_wf_remove fun_eq_iff split: option.split)

text \<open>What a command may do to the store between two savepoints.\<close>

inductive os_step :: "nat \<Rightarrow> op_store \<Rightarrow> op_store \<Rightarrow> bool" for sp where
  put: "os_step sp st (os_put k v st)"
| delete: "os_step sp st (os_delete k st)"
| savepoint: "os_step sp st (snd (os_savepoint st))"
| rollback: "sp \<le> sp' \<Longrightarrow> os_step sp st (os_rollback_to sp' st)"

inductive_cases os_stepE: "os_step sp st st'"

definition undo_reaches :: "nat \<Rightarrow> (key, val) btree \<Rightarrow> (key \<times> val option) list \<Rightarrow> op_store \<Rightarrow> bool" where
  "undo_reaches sp base u st \<longleftrightarrow>
     os_savepoints st > 0 \<and> bt_wf (os_writes st) \<and> sp \<le> length (os_undo st) \<and> take sp (os_undo st) = u
     \<and> fold restore (rev (drop sp (os_undo st))) (os_writes st) = base"

lemma undo_reaches_insert:
  assumes "undo_reaches sp base u st"
  shows "undo_reaches sp base u (st\<lparr>os_undo := os_undo st @ [(k, bt_get (os_writes st) k)],
                                     os_writes := bt_insert k v (os_writes st)\<rparr>)"
  using assms by (simp add: undo_reaches_def bt_wf_insert restore_insert)

lemma undo_reaches_step:
  assumes "os_step sp st st'" and "undo_reaches sp base u st"
  shows "undo_reaches sp base u st'"
  using assms(1)
proof (rule os_stepE)
  fix k v assume "st' = os_put k v st"
  moreover have "os_put k v st = st\<lparr>os_undo := os_undo st @ [(k, bt_get (os_writes st) k)],
      os_writes := bt_insert k v (os_writes st)\<rparr>"
    using assms(2) by (simp add: os_put_def os_record_def undo_reaches_def)
  ultimately show ?thesis using undo_reaches_insert [OF assms(2)] by simp
next
  fix k assume "st' = os_delete k st"
  moreover have "os_delete k st = st\<lparr>os_undo := os_undo st @ [(k, bt_get (os_writes st) k)],
      os_writes := bt_insert k VTombstone (os_writes st)\<rparr>"
    using assms(2) by (simp add: os_delete_def os_record_def undo_reaches_def)
  ultimately show ?thesis using undo_reaches_insert [OF assms(2)] by simp
next
  assume "st' = snd (os_savepoint st)"
  then show ?thesis using assms(2) by (simp add: os_savepoint_def undo_reaches_def)
next
  fix sp' assume s: "st' = os_rollback_to sp' st" "sp \<le> sp'"
  let ?u = "os_undo st"
  have d: "drop sp ?u = drop sp (take sp' ?u) @ drop sp' ?u"
  proof (cases "sp' \<le> length ?u")
    case True
    then show ?thesis using s(2) by (metis append_take_drop_id drop_append length_take min.absorb2 diff_is_0_eq drop0)
  qed (use s(2) in simp)
  have "fold restore (rev (drop sp ?u)) (os_writes st)
      = fold restore (rev (drop sp (take sp' ?u))) (fold restore (rev (drop sp' ?u)) (os_writes st))"
    by (subst d) simp
  then show ?thesis
    using assms(2) s by (simp add: os_rollback_eq undo_reaches_def fold_restore_wf min_def)
qed

section \<open>Range reads\<close>

definition scan_sources :: "op_store \<Rightarrow> key \<Rightarrow> key \<Rightarrow> key \<Rightarrow> source list" where
  "scan_sources st hint start stop =
     [map (\<lambda>(k, v). (k, Some v)) (bt_range (os_writes st) start stop),
      map (\<lambda>(k, v). (k, Some v)) (bt_range (os_overlay st) start stop),
      map (\<lambda>(k, c). (k, chain_latest c)) (bt_range (os_shards st ! shard_of hint) start stop)]"

lemma os_scan_range_eq:
  "\<not> stop \<le> start \<Longrightarrow> os_scan_range st hint start stop limit reverse =
     merge_loop reverse limit
       (if reverse then map rev (scan_sources st hint start stop) else scan_sources st hint start stop)"
  by (simp add: os_scan_range_def scan_sources_def Let_def merge_loop.simps [of _ 0])

lemma map_of_values: "map_of (map (\<lambda>(k, v). (k, f v)) m) = map_option f \<circ> map_of m"
  by (rule map_of_map)

lemma bt_wf_values: "bt_wf (map (\<lambda>(k, v). (k, f v)) m) = bt_wf m"
  by (simp add: bt_wf_def comp_def case_prod_beta)

lemma scan_sources_wf:
  assumes "os_wf st" and "shards_wf (os_shards st)"
  shows "\<forall>it\<in>set (scan_sources st hint start stop). bt_wf it"
proof -
  have "bt_wf (os_shards st ! shard_of hint)" using assms(2) by (simp add: shards_wf_def)
  then show ?thesis
    using assms(1) by (simp add: scan_sources_def bt_wf_values bt_range_wf os_wf_def)
qed

lemma map_of_rev_wf: "bt_wf m \<Longrightarrow> map_of (rev m) = map_of m"
  using bt_wf_distinct [of m] by (subst map_of_inject_set) (simp_all add: rev_map [symmetric])

lemma first_of_rev: "\<forall>it\<in>set its. bt_wf it \<Longrightarrow> first_of (map rev its) k = first_of its k"
  by (induction its) (auto simp: map_of_rev_wf split: option.splits)

lemma sources_dir:
  assumes "\<forall>it\<in>set its. bt_wf it"
  shows "sources_ok False its" and "sources_ok True (map rev its)"
  using assms
  by (auto simp: sources_ok_def bt_wf_def dir_less_def [abs_def] sorted_wrt_rev simp flip: rev_map)

lemma first_of_sources:
  assumes wf: "os_wf st" "shards_wf (os_shards st)"
    and tag: "start \<le> k \<and> k < stop \<and> latest_of (os_shards st) k \<noteq> None \<Longrightarrow> shard_of k = shard_of hint"
  shows "first_of (scan_sources st hint start stop) k = Some (Some v) \<and> v \<noteq> VTombstone
     \<longleftrightarrow> start \<le> k \<and> k < stop \<and> os_get st k = Some v"
proof -
  let ?sh = "os_shards st ! shard_of hint"
  have "bt_wf ?sh" using wf(2) by (simp add: shards_wf_def)
  then have get: "bt_get ?sh k = (if shard_of k = shard_of hint then chain_lookup (os_shards st) k else None)"
    using in_shard [OF wf(2) shard_of_less [of hint], of k] by (metis bt_in_set option.exhaust)
  have lt: "chain_latest c = Some x \<Longrightarrow> x \<noteq> VTombstone" for c x
    by (auto simp: chain_latest_last live_def split: if_splits)
  have d: "map_option chain_latest (bt_get ?sh k) = Some (Some x) \<longleftrightarrow> latest_of (os_shards st) k = Some x"
    if "start \<le> k" "k < stop" for x
    using that tag by (auto simp: get latest_of_def split: option.splits)
  have shard: "map_option chain_latest (bt_get ?sh k) = Some (Some v) \<and> v \<noteq> VTombstone
      \<longleftrightarrow> latest_of (os_shards st) k = Some v" if "start \<le> k" "k < stop"
    using d [OF that, of v] lt by (auto simp: latest_of_def split: option.splits)
  have ranges: "map_of (bt_range m start stop) k = (if start \<le> k \<and> k < stop then map_of m k else None)"
    if "bt_wf m" for m :: "(key, 'x) btree"
    using that by (rule bt_get_range)
  have w: "bt_wf (os_writes st)" "bt_wf (os_overlay st)" using wf(1) by (auto simp: os_wf_def)
  have f: "first_of (scan_sources st hint start stop) k =
      (if start \<le> k \<and> k < stop then
         (case bt_get (os_writes st) k of Some v \<Rightarrow> Some (Some v) | None \<Rightarrow>
          case bt_get (os_overlay st) k of Some v \<Rightarrow> Some (Some v) | None \<Rightarrow>
          map_option chain_latest (bt_get ?sh k)) else None)"
    by (simp add: scan_sources_def map_of_values ranges [OF w(1)] ranges [OF w(2)]
        bt_get_range [OF \<open>bt_wf ?sh\<close>] split: option.split)
  show ?thesis
  proof (cases "start \<le> k \<and> k < stop")
    case True
    then show ?thesis
      using shard unfolding f os_get_def
      by (cases "bt_get (os_writes st) k"; cases "bt_get (os_overlay st) k") (auto simp: live_def)
  qed (auto simp: f)
qed

section \<open>Claims\<close>

text \<open>
  Claim C12. A range read inside an operation, the lazy merge of its own writes over the batch
  overlay over the applied state, returns the first \<open>limit\<close> entries of what point reads give on
  the range, ascending or descending, without missing, duplicating or resurrecting a key.
\<close>

theorem scan_range_merges:
  assumes wf: "os_wf st" "shards_wf (os_shards st)" and r: "start < stop"
    and tag: "\<And>k. start \<le> k \<and> k < stop \<and> latest_of (os_shards st) k \<noteq> None \<Longrightarrow> shard_of k = shard_of hint"
  shows "\<exists>full. bt_wf full \<and> (\<forall>k v. (k, v) \<in> set full \<longleftrightarrow> start \<le> k \<and> k < stop \<and> os_get st k = Some v)
    \<and> os_scan_range st hint start stop limit False = take limit full
    \<and> os_scan_range st hint start stop limit True = take limit (rev full)"
proof -
  let ?its = "scan_sources st hint start stop"
  note swf = scan_sources_wf [OF wf, of hint start stop]
  have nle: "\<not> stop \<le> start" using r by (meson leD)
  note first = first_of_sources [OF wf tag]
  obtain full where full: "is_merge False ?its full" "\<And>n. merge_loop False n ?its = take n full"
    using merge_loop_take [OF sources_dir(1) [OF swf]] by blast
  obtain bwd where bwd: "is_merge True (map rev ?its) bwd" "\<And>n. merge_loop True n (map rev ?its) = take n bwd"
    using merge_loop_take [OF sources_dir(2) [OF swf]] by blast
  have f: "bt_wf full" using full(1) by (simp add: is_merge_def bt_wf_def dir_less_def [abs_def])
  have b: "bt_wf (rev bwd)"
    using bwd(1) by (simp add: is_merge_def bt_wf_def dir_less_def [abs_def] sorted_wrt_rev flip: rev_map)
  have mem: "(k, v) \<in> set full \<longleftrightarrow> start \<le> k \<and> k < stop \<and> os_get st k = Some v" for k v
    using full(1) first [where k = k and v = v] by (simp add: is_merge_def)
  have "set (rev bwd) = set full"
    using full(1) bwd(1) first_of_rev [OF swf] by (auto simp: is_merge_def)
  then have "rev bwd = full" using f b by (intro bt_set_unique)
  then have "bwd = rev full" by auto
  then show ?thesis using f mem full(2) bwd(2) os_scan_range_eq [OF nle] by auto
qed

theorem scan_range_merges_witness:
  "\<exists>full. bt_wf full \<and> (\<forall>k v. (k, v) \<in> set full \<longleftrightarrow>
       [97] \<le> k \<and> k < [99] \<and> os_get (os_put [98] (VInt 1) (os_new empty_shards [([98], VInt 0)])) k = Some v)
    \<and> os_scan_range (os_put [98] (VInt 1) (os_new empty_shards [([98], VInt 0)])) [97] [97] [99] 5 False = take 5 full
    \<and> os_scan_range (os_put [98] (VInt 1) (os_new empty_shards [([98], VInt 0)])) [97] [97] [99] 5 True = take 5 (rev full)"
  by (rule scan_range_merges)
    (simp_all add: os_wf_def os_new_def empty_shards_wf latest_of_def bt_wf_Cons)

text \<open>
  Claim C13. Rolling a command back undoes exactly that command: from a savepoint, after any
  sequence of puts, deletes, nested savepoints and nested rollbacks, \<open>rollback_to\<close> restores the
  buffered writes and the undo log the store had when the savepoint was taken.
\<close>

theorem rollback_restores:
  assumes "bt_wf (os_writes st)" and "os_savepoint st = (sp, st0)" and "(os_step sp)\<^sup>*\<^sup>* st0 st'"
  shows "os_writes (os_rollback_to sp st') = os_writes st \<and> os_undo (os_rollback_to sp st') = os_undo st"
proof -
  have "undo_reaches sp (os_writes st) (os_undo st) st0"
    using assms(1,2) by (auto simp: os_savepoint_def undo_reaches_def)
  with assms(3) have "undo_reaches sp (os_writes st) (os_undo st) st'"
    by (induction rule: rtranclp_induct) (auto intro: undo_reaches_step)
  then show ?thesis by (simp add: os_rollback_eq undo_reaches_def)
qed

theorem rollback_restores_witness:
  "os_writes (os_rollback_to 0 (os_delete [107] (os_put [120] (VInt 2) (snd (os_savepoint (os_put [107] (VInt 1) (os_new empty_shards []))))))) = [([107], VInt 1)]
   \<and> os_undo (os_rollback_to 0 (os_delete [107] (os_put [120] (VInt 2) (snd (os_savepoint (os_put [107] (VInt 1) (os_new empty_shards []))))))) = []"
proof -
  let ?st = "os_put [107] (VInt 1) (os_new empty_shards [])"
  have w: "os_writes ?st = [([107], VInt 1)]" by (simp add: os_new_def)
  have u: "os_undo ?st = []" by (simp add: os_record_def os_new_def)
  have "os_savepoint ?st = (0, snd (os_savepoint ?st))" by (simp add: os_savepoint_def u del: os_update_simps)
  moreover have "(os_step 0)\<^sup>*\<^sup>* (snd (os_savepoint ?st)) (os_delete [107] (os_put [120] (VInt 2) (snd (os_savepoint ?st))))"
    by (meson os_step.put os_step.delete converse_rtranclp_into_rtranclp rtranclp.rtrancl_refl)
  ultimately show ?thesis using rollback_restores [of ?st] w u by (simp add: bt_wf_Cons del: os_update_simps)
qed

end
