(* ===== verification/Engine.thy ===== *)
theory Engine
  imports Op_Store Decimal
begin

text \<open>
  The MVCC engine (\<open>FlushCore\<close>, \<open>Engine\<close> and the group-commit flusher of
  \<open>crates/storage/src/engine.rs\<close>).  Clients enqueue pending writes under the queue lock, which
  reserves their timestamps; the flusher drains the queue, sweeps tombstones, resolves every
  pending write in order against the shards and the overlay of the batch, appends one frame per
  commit, syncs once, applies, publishes \<open>visible_ts\<close> and acknowledges.  The outcome of every
  file operation is an argument (\<open>flush_io\<close>).  Subscriber callbacks are the event list.
\<close>

section \<open>State\<close>

datatype op_error = NotAnInteger | IncrOverflow | WrongType

text \<open>A \<open>PendingWrite\<close>; \<open>pw_op\<close> is the closure run on the commit path.\<close>

record pending =
  pw_ts :: nat
  pw_muts :: "mutation list"
  pw_reads :: "(key \<times> nat) list"
  pw_incr :: "(key \<times> i64) option"
  pw_op :: "(op_store \<Rightarrow> op_store) option"
  pw_flush_all :: "bytes option"

datatype event = Committed mutation | Flushed

record flush_core =
  co_shards :: shards
  co_wal :: wal
  write_queue :: "pending list"
  visible_ts :: nat
  kv_live :: int
  active_snaps :: "(nat, nat) btree"
  graveyard :: "(key \<times> nat) list"
  gc_horizon :: nat
  last_appended :: nat
  events :: "event list"

text \<open>The engine adds the clock, the durability mode and the other files of its directory.\<close>

record engine = flush_core +
  clock :: nat
  sync_writes :: bool
  snap_file :: "bytes option"
  ckpt_file :: "bytes option"
  backups :: "(bytes \<times> bytes option \<times> bytes option) list"

section \<open>Tombstone collection\<close>

definition sweep_one :: "key \<times> nat \<Rightarrow> shards \<times> nat \<Rightarrow> shards \<times> nat" where
  "sweep_one kt st =
     (case kt of (k, ts) \<Rightarrow> case st of (sh, max_removed) \<Rightarrow>
      (case chain_lookup sh k of
         Some c \<Rightarrow>
           if chain_latest c = None \<and> latest_ts c = ts
           then (sh[shard_of k := bt_remove k (sh ! shard_of k)], max max_removed ts)
           else (sh, max_removed)
       | None \<Rightarrow> (sh, max_removed)))"

definition gc_bound :: "engine \<Rightarrow> nat" where
  "gc_bound e = (case active_snaps e of [] \<Rightarrow> visible_ts e | (m, _) # _ \<Rightarrow> min m (visible_ts e))"

definition sweep_tombstones :: "engine \<Rightarrow> engine" where
  "sweep_tombstones e =
     (let horizon = gc_bound e in
      if graveyard e = [] then e
      else
        let ready = filter (\<lambda>(_, ts). ts \<le> horizon) (graveyard e);
            keep = filter (\<lambda>(_, ts). \<not> ts \<le> horizon) (graveyard e)
        in (case fold sweep_one ready (co_shards e, 0) of
              (sh, max_removed) \<Rightarrow>
                e\<lparr>graveyard := keep, co_shards := sh, gc_horizon := max (gc_horizon e) max_removed\<rparr>))"

section \<open>Resolving a pending write\<close>

definition as_counter :: "val option \<Rightarrow> op_error + i64" where
  "as_counter v =
     (case v of
        None \<Rightarrow> Inr 0
      | Some VTombstone \<Rightarrow> Inr 0
      | Some (VInt i) \<Rightarrow> Inr i
      | Some (VBytes b) \<Rightarrow> (case parse_strict_i64 b of None \<Rightarrow> Inl NotAnInteger | Some i \<Rightarrow> Inr i)
      | Some _ \<Rightarrow> Inl WrongType)"

datatype resolved = RApply "mutation list option" "i64 option" | RConflict | ROpErr op_error

definition resolve :: "shards \<Rightarrow> pending \<Rightarrow> (key, val) btree \<Rightarrow> resolved" where
  "resolve sh pw overlay =
     (case pw_op pw of
        Some op \<Rightarrow>
          let st = op (os_new sh overlay)
          in RApply (Some (map (\<lambda>(k, v). \<lparr>m_key = k, m_value = v, m_ts = pw_ts pw\<rparr>) (os_writes st))) None
      | None \<Rightarrow>
          if list_ex (\<lambda>(k, snap). bt_get overlay k \<noteq> None
                \<or> (case chain_lookup sh k of None \<Rightarrow> False | Some c \<Rightarrow> latest_ts c > snap)) (pw_reads pw)
          then RConflict
          else
            (case pw_incr pw of
               None \<Rightarrow> RApply None None
             | Some (key, by) \<Rightarrow>
                 let cur = (case bt_get overlay key of
                              Some v \<Rightarrow> as_counter (Some v)
                            | None \<Rightarrow> as_counter (latest_of sh key))
                 in (case cur of
                       Inl e \<Rightarrow> ROpErr e
                     | Inr c \<Rightarrow>
                         (case checked_add_i64 c by of
                            None \<Rightarrow> ROpErr IncrOverflow
                          | Some next \<Rightarrow>
                              RApply (Some [\<lparr>m_key = key, m_value = VInt next, m_ts = pw_ts pw\<rparr>]) (Some next)))))"

definition resolved_muts :: "pending \<Rightarrow> resolved \<Rightarrow> mutation list option" where
  "resolved_muts pw r =
     (case r of RApply (Some m) _ \<Rightarrow> Some m | RApply None _ \<Rightarrow> Some (pw_muts pw) | _ \<Rightarrow> None)"

definition overlay_add :: "mutation list \<Rightarrow> (key, val) btree \<Rightarrow> (key, val) btree" where
  "overlay_add muts overlay = fold (\<lambda>m. bt_insert (m_key m) (m_value m)) muts overlay"

fun resolve_all :: "shards \<Rightarrow> bool \<Rightarrow> pending list \<Rightarrow> (key, val) btree \<Rightarrow> resolved option list" where
  "resolve_all sh need_overlay [] overlay = []"
| "resolve_all sh need_overlay (pw # batch) overlay =
     (if pw_flush_all pw \<noteq> None then None # resolve_all sh need_overlay batch overlay
      else
        let r = resolve sh pw overlay;
            overlay' = (if need_overlay
                        then (case resolved_muts pw r of None \<Rightarrow> overlay | Some m \<Rightarrow> overlay_add m overlay)
                        else overlay)
        in Some r # resolve_all sh need_overlay batch overlay')"

section \<open>The flusher\<close>

record flush_io =
  io_write :: write_outcome
  io_set_len :: bool
  io_sync :: bool
  io_wipe_sync :: bool
  io_rename_wal :: bool
  io_rename_snap :: bool
  io_open :: bool

datatype io_fail = WalFail wal_err | RenameFail | OpenFail

definition batch_muts :: "pending list \<Rightarrow> resolved option list \<Rightarrow> mutation list list" where
  "batch_muts batch outs =
     List.map_filter (\<lambda>(pw, out). case out of None \<Rightarrow> None | Some r \<Rightarrow> resolved_muts pw r) (zip batch outs)"

definition max_ts :: "pending list \<Rightarrow> nat" where
  "max_ts batch = fold (\<lambda>pw m. max m (pw_ts pw)) batch 0"

definition durable_step :: "flush_io \<Rightarrow> bytes list \<Rightarrow> nat \<Rightarrow> engine \<Rightarrow> engine \<times> (wal_err + unit)" where
  "durable_step io frames maxts e =
     (if frames = [] then (e, Inr ())
      else case append_frames (io_write io) (io_set_len io) frames (co_wal e) of
        (w, Inl err) \<Rightarrow> (e\<lparr>co_wal := w\<rparr>, Inl err)
      | (w, Inr _) \<Rightarrow>
          (case sync (io_sync io) w of
             (w', r) \<Rightarrow> (e\<lparr>co_wal := w', last_appended := max (last_appended e) maxts\<rparr>, r)))"

text \<open>
  \<open>perform_flush_all\<close>: a backup is its name, the log and the snapshot moved there.  When the
  snapshot cannot be moved the log is renamed back.  When the fresh log cannot be opened the
  log is renamed back, but the snapshot is not: the code asks whether the snapshot exists under
  the name it was just renamed from.  Renaming back is taken to succeed.
\<close>

definition perform_flush_all :: "flush_io \<Rightarrow> bytes \<Rightarrow> engine \<Rightarrow> engine \<times> (io_fail + unit)" where
  "perform_flush_all io bak e =
     (case sync (io_wipe_sync io) (co_wal e) of
        (w, Inl err) \<Rightarrow> (e\<lparr>co_wal := w\<rparr>, Inl (WalFail err))
      | (w, Inr _) \<Rightarrow>
          if \<not> io_rename_wal io then (e\<lparr>co_wal := w\<rparr>, Inl RenameFail)
          else if snap_file e \<noteq> None \<and> \<not> io_rename_snap io then (e\<lparr>co_wal := w\<rparr>, Inl RenameFail)
          else if \<not> io_open io then
            (e\<lparr>co_wal := w,
               backups := (if snap_file e = None then backups e else backups e @ [(bak, None, snap_file e)]),
               snap_file := None\<rparr>, Inl OpenFail)
          else (e\<lparr>backups := backups e @ [(bak, Some (log_file w), snap_file e)],
                  snap_file := None,
                  co_wal := wal_open None,
                  co_shards := map (\<lambda>_. []) (co_shards e),
                  kv_live := 0,
                  graveyard := []\<rparr>, Inr ()))"

definition apply_to_engine :: "mutation list \<Rightarrow> engine \<Rightarrow> engine" where
  "apply_to_engine muts e =
     (case apply_muts (bt_keys (active_snaps e)) muts (co_shards e, kv_live e, graveyard e) of
        (sh, kv, gy) \<Rightarrow> e\<lparr>co_shards := sh, kv_live := kv, graveyard := gy\<rparr>)"

datatype ack = AckIo io_fail | AckConflict | AckOpErr op_error | AckOk "i64 option"

definition ack_of :: "wal_err + unit \<Rightarrow> io_fail option \<Rightarrow> resolved option \<Rightarrow> ack" where
  "ack_of flushed wipe_err out =
     (case flushed of
        Inl err \<Rightarrow> AckIo (WalFail err)
      | Inr _ \<Rightarrow>
          (case wipe_err of
             Some err \<Rightarrow> AckIo err
           | None \<Rightarrow>
               (case out of
                  Some (RApply _ v) \<Rightarrow> AckOk v
                | Some RConflict \<Rightarrow> AckConflict
                | Some (ROpErr err) \<Rightarrow> AckOpErr err
                | None \<Rightarrow> AckOk None)))"

definition wants_overlay :: "pending \<Rightarrow> bool" where
  "wants_overlay pw \<longleftrightarrow> pw_reads pw \<noteq> [] \<or> pw_incr pw \<noteq> None \<or> pw_op pw \<noteq> None"

definition wipe_step :: "flush_io \<Rightarrow> bytes list \<Rightarrow> engine \<Rightarrow> engine \<times> io_fail option" where
  "wipe_step io wipes e =
     (case wipes of
        [] \<Rightarrow> (e, None)
      | bak # _ \<Rightarrow>
          (case perform_flush_all io bak e of
             (e', Inr _) \<Rightarrow> (e'\<lparr>events := events e' @ [Flushed]\<rparr>, None)
           | (e', Inl err) \<Rightarrow> (e', Some err)))"

definition commit_step :: "mutation list \<Rightarrow> engine \<Rightarrow> engine" where
  "commit_step muts e = (apply_to_engine muts e)\<lparr>events := events e @ map Committed muts\<rparr>"

definition publish :: "pending list \<Rightarrow> engine \<Rightarrow> engine" where
  "publish batch e = (if batch = [] then e else e\<lparr>visible_ts := max (visible_ts e) (max_ts batch)\<rparr>)"

definition flush_batch :: "flush_io \<Rightarrow> pending list \<Rightarrow> engine \<Rightarrow> engine \<times> ack list" where
  "flush_batch io batch e0 =
     (let e1 = sweep_tombstones e0;
          need_overlay = list_ex wants_overlay batch;
          outs = resolve_all (co_shards e1) need_overlay batch [];
          muts = batch_muts batch outs;
          frames = map commit_frame (filter (\<lambda>m. m \<noteq> []) muts);
          wipes = List.map_filter pw_flush_all batch
      in case durable_step io frames (max_ts batch) e1 of (e2, flushed) \<Rightarrow>
         case wipe_step io wipes e2 of (e3, wipe_err) \<Rightarrow>
           (publish batch (if flushed = Inr () \<and> wipes = [] then commit_step (concat muts) e3 else e3),
            map (ack_of flushed wipe_err) outs))"

text \<open>One round of the flusher thread: it drains the whole queue.\<close>

definition flush_round :: "flush_io \<Rightarrow> engine \<Rightarrow> engine \<times> ack list" where
  "flush_round io e = flush_batch io (write_queue e) (e\<lparr>write_queue := []\<rparr>)"

section \<open>Client operations\<close>

definition tick :: "engine \<Rightarrow> nat \<times> engine" where
  "tick e = (clock e + 1, e\<lparr>clock := clock e + 1\<rparr>)"

definition mk_pending ::
    "nat \<Rightarrow> (key \<times> val) list \<Rightarrow> (key \<times> nat) list \<Rightarrow> (key \<times> i64) option \<Rightarrow> (op_store \<Rightarrow> op_store) option
     \<Rightarrow> bytes option \<Rightarrow> pending" where
  "mk_pending ts writes reads incr op flush =
     \<lparr>pw_ts = ts, pw_muts = map (\<lambda>(k, v). \<lparr>m_key = k, m_value = v, m_ts = ts\<rparr>) writes,
      pw_reads = reads, pw_incr = incr, pw_op = op, pw_flush_all = flush\<rparr>"

text \<open>The queueing half of \<open>submit\<close> on a durable engine.\<close>

definition submit_durable ::
    "(key \<times> val) list \<Rightarrow> (key \<times> nat) list \<Rightarrow> (key \<times> i64) option \<Rightarrow> (op_store \<Rightarrow> op_store) option
     \<Rightarrow> engine \<Rightarrow> engine" where
  "submit_durable writes reads incr op e =
     (case tick e of (ts, e) \<Rightarrow>
        e\<lparr>write_queue := write_queue e @ [mk_pending ts writes reads incr op None]\<rparr>)"

text \<open>\<open>submit\<close> on a non-durable engine: resolve, apply and publish under the apply lock.\<close>

definition submit_direct ::
    "(key \<times> val) list \<Rightarrow> (key \<times> nat) list \<Rightarrow> (key \<times> i64) option \<Rightarrow> (op_store \<Rightarrow> op_store) option
     \<Rightarrow> engine \<Rightarrow> engine \<times> ack" where
  "submit_direct writes reads incr op e =
     (case tick e of (ts, e) \<Rightarrow>
      let pw = mk_pending ts writes reads incr op None;
          publish = (\<lambda>e. e\<lparr>visible_ts := max (visible_ts e) ts\<rparr>)
      in (case resolve (co_shards e) pw [] of
            RConflict \<Rightarrow> (publish e, AckConflict)
          | ROpErr err \<Rightarrow> (publish e, AckOpErr err)
          | RApply m v \<Rightarrow>
              let muts = (case m of Some m \<Rightarrow> m | None \<Rightarrow> pw_muts pw);
                  e1 = publish (apply_to_engine muts e);
                  e2 = (if ts mod 64 = 0 then sweep_tombstones e1 else e1)
              in (e2\<lparr>events := events e2 @ map Committed muts\<rparr>, AckOk v)))"

definition enqueue_flush_all :: "bytes \<Rightarrow> engine \<Rightarrow> engine" where
  "enqueue_flush_all bak e =
     (case tick e of (ts, e) \<Rightarrow>
        e\<lparr>write_queue := write_queue e @ [mk_pending ts [] [] None None (Some bak)]\<rparr>)"

definition incr_many :: "(key \<times> i64) list \<Rightarrow> engine \<Rightarrow> engine" where
  "incr_many ops e = fold (\<lambda>op. submit_durable [] [] (Some op) None) ops e"

definition submit_ops :: "(op_store \<Rightarrow> op_store) list \<Rightarrow> engine \<Rightarrow> engine" where
  "submit_ops ops e = fold (\<lambda>op. submit_durable [] [] None (Some op)) ops e"

definition put_batch :: "(key \<times> val) list \<Rightarrow> engine \<Rightarrow> engine" where
  "put_batch kvs e = submit_durable (fold (\<lambda>(k, v). bt_insert k v) kvs []) [] None None e"

definition snapshot :: "engine \<Rightarrow> nat" where
  "snapshot e = visible_ts e"

text \<open>Registering and releasing a snapshot (\<open>begin\<close>, \<open>dump\<close>, \<open>Drop for Txn\<close>).\<close>

definition pin :: "nat \<Rightarrow> engine \<Rightarrow> engine" where
  "pin s e = e\<lparr>active_snaps := bt_insert s (case bt_get (active_snaps e) s of None \<Rightarrow> 1 | Some c \<Rightarrow> c + 1) (active_snaps e)\<rparr>"

definition unpin :: "nat \<Rightarrow> engine \<Rightarrow> engine" where
  "unpin s e =
     (case bt_get (active_snaps e) s of
        None \<Rightarrow> e
      | Some c \<Rightarrow> if c - 1 = 0 then e\<lparr>active_snaps := bt_remove s (active_snaps e)\<rparr>
                  else e\<lparr>active_snaps := bt_insert s (c - 1) (active_snaps e)\<rparr>)"

definition kv_count :: "engine \<Rightarrow> nat" where
  "kv_count e = nat (max (kv_live e) 0)"

definition get :: "engine \<Rightarrow> key \<Rightarrow> val option" where
  "get e k = get_at (co_shards e) k (snapshot e)"

text \<open>An engine over an empty directory.\<close>

definition fresh_engine :: "bool \<Rightarrow> engine" where
  "fresh_engine durable =
     \<lparr>co_shards = empty_shards, co_wal = wal_open None, write_queue = [], visible_ts = 0, kv_live = 0,
      active_snaps = [], graveyard = [], gc_horizon = 0, last_appended = 0, events = [],
      clock = 0, sync_writes = durable, snap_file = None, ckpt_file = None, backups = []\<rparr>"

section \<open>The specification: the committed history\<close>

text \<open>
  What the subscribers saw since the last wipe is the abstract state; \<open>truth\<close> is the value of a
  key at a snapshot according to it.
\<close>

fun history :: "event list \<Rightarrow> mutation list \<Rightarrow> mutation list" where
  "history [] h = h"
| "history (Committed m # evs) h = history evs (h @ [m])"
| "history (Flushed # evs) h = history evs []"

definition hist :: "engine \<Rightarrow> mutation list" where
  "hist e = history (events e) []"

definition version_of :: "mutation \<Rightarrow> version" where
  "version_of m = \<lparr>v_ts = m_ts m, v_value = m_value m\<rparr>"

definition key_hist :: "mutation list \<Rightarrow> key \<Rightarrow> version list" where
  "key_hist h k = map version_of (of_key k h)"

definition truth :: "mutation list \<Rightarrow> key \<Rightarrow> nat \<Rightarrow> val option" where
  "truth h k s = (case as_of s (key_hist h k) of None \<Rightarrow> None | Some v \<Rightarrow> live (v_value v))"

lemma history_append: "history (evs @ evs') h = history evs' (history evs h)"
  by (induction evs h rule: history.induct) auto

lemma history_committed: "history (map Committed ms) h = h @ ms"
  by (induction ms arbitrary: h) auto

lemma version_of_simps [simp]: "v_ts (version_of m) = m_ts m" "v_value (version_of m) = m_value m"
  by (simp_all add: version_of_def)

lemma key_hist_append [simp]: "key_hist (h @ h') k = key_hist h k @ key_hist h' k"
  by (simp add: key_hist_def)

lemma key_hist_Nil [simp]: "key_hist [] k = []"
  by (simp add: key_hist_def)

lemma set_key_hist: "v \<in> set (key_hist h k) \<longleftrightarrow> (\<exists>m\<in>set h. m_key m = k \<and> v = version_of m)"
  by (auto simp: key_hist_def of_key_def)

lemma sorted_last_ge: "sorted_wrt (<) (map v_ts h) \<Longrightarrow> v \<in> set h \<Longrightarrow> v_ts v \<le> v_ts (last h)"
  by (cases h rule: rev_cases) (auto simp: sorted_wrt_append intro: less_imp_le)

text \<open>The key's chain represents its history since it was last collected.\<close>

definition ends_dead :: "nat \<Rightarrow> version list \<Rightarrow> bool" where
  "ends_dead horizon h \<longleftrightarrow> h = [] \<or> (v_value (last h) = VTombstone \<and> v_ts (last h) \<le> horizon)"

definition key_tracks :: "nat \<Rightarrow> version list \<Rightarrow> chain option \<Rightarrow> bool" where
  "key_tracks horizon h oc \<longleftrightarrow>
     (case oc of
        None \<Rightarrow> ends_dead horizon h
      | Some c \<Rightarrow> \<exists>h1 h2. h = h1 @ h2 \<and> chain_tracks c h2 \<and> ends_dead horizon h1)"

text \<open>The version a snapshot reads, when it is not a tombstone, in the shards and in the history.\<close>

definition alive :: "version option \<Rightarrow> version option" where
  "alive ov = (case ov of None \<Rightarrow> None | Some v \<Rightarrow> if live (v_value v) = None then None else Some v)"

definition version_at :: "shards \<Rightarrow> key \<Rightarrow> nat \<Rightarrow> version option" where
  "version_at sh k s = (case chain_lookup sh k of None \<Rightarrow> None | Some c \<Rightarrow> alive (as_of s (versions c)))"

definition true_version :: "mutation list \<Rightarrow> key \<Rightarrow> nat \<Rightarrow> version option" where
  "true_version h k s = alive (as_of s (key_hist h k))"

definition pinned_exact :: "shards \<Rightarrow> mutation list \<Rightarrow> (nat, nat) btree \<Rightarrow> bool" where
  "pinned_exact sh h act \<longleftrightarrow> (\<forall>s\<in>set (bt_keys act). \<forall>k. version_at sh k s = true_version h k s)"

definition queue_ok :: "nat \<Rightarrow> nat \<Rightarrow> pending list \<Rightarrow> bool" where
  "queue_ok vis clk q \<longleftrightarrow>
     sorted_wrt (<) (map pw_ts q) \<and>
     (\<forall>pw\<in>set q. pw_ts pw \<le> clk \<and> (pw_flush_all pw = None \<longrightarrow> vis < pw_ts pw))"

text \<open>
  A pending write as the engine makes it: one timestamp, each key once; an operation keeps its
  buffered writes a map.
\<close>

definition pending_ok :: "pending \<Rightarrow> bool" where
  "pending_ok pw \<longleftrightarrow>
     (\<forall>m\<in>set (pw_muts pw). m_ts m = pw_ts pw) \<and> distinct (map m_key (pw_muts pw)) \<and>
     (\<forall>op st. pw_op pw = Some op \<and> os_wf st \<longrightarrow> os_wf (op st))"

definition collected_seen :: "shards \<Rightarrow> mutation list \<Rightarrow> (nat, nat) btree \<Rightarrow> bool" where
  "collected_seen sh h act \<longleftrightarrow>
     (\<forall>s\<in>set (bt_keys act). \<forall>k. chain_lookup sh k = None \<longrightarrow> (\<forall>v\<in>set (key_hist h k). v_ts v \<le> s))"

definition core_ok :: "engine \<Rightarrow> bool" where
  "core_ok e \<longleftrightarrow>
     shards_wf (co_shards e) \<and> bt_wf (active_snaps e)
     \<and> kv_live e = live_kv_keys (co_shards e)
     \<and> dead_recorded (co_shards e) (graveyard e)
     \<and> (\<forall>m\<in>set (hist e). 0 < m_ts m \<and> m_ts m \<le> visible_ts e)
     \<and> (\<forall>s\<in>set (bt_keys (active_snaps e)). s \<le> visible_ts e)
     \<and> (\<forall>k. key_tracks (gc_horizon e) (key_hist (hist e) k) (chain_lookup (co_shards e) k))
     \<and> pinned_exact (co_shards e) (hist e) (active_snaps e)
     \<and> (\<forall>k. sorted_wrt (<) (map v_ts (key_hist (hist e) k)))
     \<and> collected_seen (co_shards e) (hist e) (active_snaps e)"

definition engine_ok :: "engine \<Rightarrow> bool" where
  "engine_ok e \<longleftrightarrow>
     core_ok e \<and> visible_ts e \<le> clock e \<and> queue_ok (visible_ts e) (clock e) (write_queue e)
     \<and> (\<forall>pw\<in>set (write_queue e). pending_ok pw \<and> (sync_writes e \<or> pw_flush_all pw \<noteq> None))"

section \<open>Reads\<close>

lemma visible_alive: "visible s c = map_option v_value (alive (as_of s (versions c)))"
  by (auto simp: visible_def alive_def live_def split: option.split)

lemma get_at_version: "get_at sh k s = map_option v_value (version_at sh k s)"
  by (simp add: get_at_def version_at_def visible_alive split: option.split)

lemma truth_version: "truth h k s = map_option v_value (true_version h k s)"
  by (auto simp: truth_def true_version_def alive_def live_def split: option.split)

lemma pinned_get: "pinned_exact sh h act \<Longrightarrow> s \<in> set (bt_keys act) \<Longrightarrow> get_at sh k s = truth h k s"
  by (simp add: pinned_exact_def get_at_version truth_version)

lemma version_at_dead: "version_at sh k s = None \<longleftrightarrow> get_at sh k s = None"
  by (simp add: get_at_version)

lemma as_of_all: "\<forall>v\<in>set vs. v_ts v \<le> s \<Longrightarrow> as_of s vs = (if vs = [] then None else Some (last vs))"
  by (cases vs rule: rev_cases) (simp_all add: as_of_snoc)

lemma truth_latest: "\<forall>m\<in>set h. m_ts m \<le> s \<Longrightarrow>
   truth h k s = (if key_hist h k = [] then None else live (v_value (last (key_hist h k))))"
  unfolding truth_def by (subst as_of_all) (auto simp: set_key_hist)

lemma key_tracksE:
  assumes "key_tracks hz h (Some c)"
  obtains h1 h2 where "h = h1 @ h2" and "chain_tracks c h2" and "ends_dead hz h1" and "h2 \<noteq> []"
    and "last h = last h2"
  using assms by (auto simp: key_tracks_def chain_tracks_def)

lemma key_tracks_latest:
  assumes "key_tracks hz h oc"
  shows "(case oc of None \<Rightarrow> None | Some c \<Rightarrow> chain_latest c) = (if h = [] then None else live (v_value (last h)))"
proof (cases oc)
  case None
  then show ?thesis using assms by (auto simp: key_tracks_def ends_dead_def)
next
  case (Some c)
  with assms obtain h1 h2 where "h = h1 @ h2" "chain_tracks c h2" "h2 \<noteq> []" "last h = last h2"
    by (auto elim: key_tracksE)
  then show ?thesis using tracks_latest Some by simp
qed

lemma core_ok_tracks:
  "core_ok e \<Longrightarrow> key_tracks (gc_horizon e) (key_hist (hist e) k) (chain_lookup (co_shards e) k)"
  by (simp add: core_ok_def)

lemma latest_of_truth:
  assumes "core_ok e" and "visible_ts e \<le> s"
  shows "latest_of (co_shards e) k = truth (hist e) k s"
proof -
  have "key_tracks (gc_horizon e) (key_hist (hist e) k) (chain_lookup (co_shards e) k)"
    and "\<forall>m\<in>set (hist e). m_ts m \<le> s"
    using assms by (auto simp: core_ok_def)
  then show ?thesis by (simp add: latest_of_def key_tracks_latest truth_latest)
qed

lemma lookup_latest_ts:
  assumes "core_ok e" and "chain_lookup (co_shards e) k = Some c"
  shows "chain_wf c \<and> latest_ts c \<le> visible_ts e"
proof -
  have "key_tracks (gc_horizon e) (key_hist (hist e) k) (Some c)"
    using core_ok_tracks [OF assms(1), of k] assms(2) by simp
  then obtain h1 h2 where h: "key_hist (hist e) k = h1 @ h2" "chain_tracks c h2" "h2 \<noteq> []"
    by (auto elim: key_tracksE)
  then have "last h2 \<in> set (key_hist (hist e) k)" by simp
  then obtain m where "m \<in> set (hist e)" "last h2 = version_of m" by (auto simp: set_key_hist)
  moreover have "latest_ts c = v_ts (last h2)" using tracks_latest [OF h(2)] by blast
  moreover have "chain_wf c" using h(2) by (simp add: chain_tracks_def)
  ultimately show ?thesis using assms(1) by (auto simp: core_ok_def)
qed

lemma get_at_latest:
  assumes "core_ok e" and "visible_ts e \<le> s"
  shows "get_at (co_shards e) k s = latest_of (co_shards e) k"
proof (cases "chain_lookup (co_shards e) k")
  case (Some c)
  then show ?thesis
    using visible_latest [of c s] lookup_latest_ts [OF assms(1) Some] assms(2)
    by (simp add: get_at_def latest_of_def)
qed (simp add: get_at_def latest_of_def)

lemma version_at_latest:
  assumes ok: "core_ok e" and le: "\<forall>v\<in>set (key_hist (hist e) k). v_ts v \<le> s"
  shows "version_at (co_shards e) k s = true_version (hist e) k s"
proof -
  have t: "key_tracks (gc_horizon e) (key_hist (hist e) k) (chain_lookup (co_shards e) k)"
    using ok by (rule core_ok_tracks)
  show ?thesis
  proof (cases "chain_lookup (co_shards e) k")
    case None
    then show ?thesis
      using t as_of_all [OF le] by (auto simp: version_at_def true_version_def key_tracks_def ends_dead_def alive_def live_def)
  next
    case (Some c)
    with t obtain h1 h2 where h: "key_hist (hist e) k = h1 @ h2" "chain_tracks c h2" "h2 \<noteq> []"
      "last (key_hist (hist e) k) = last h2"
      by (auto elim: key_tracksE)
    have c: "versions c \<noteq> []" "last (versions c) = last h2" "set (versions c) \<subseteq> set h2"
      using h(2) subseq_set by (auto simp: chain_tracks_def)
    then have "\<forall>v\<in>set (versions c). v_ts v \<le> s" using le h(1) by auto
    then show ?thesis using as_of_all [OF le] as_of_all h c Some by (simp add: version_at_def true_version_def)
  qed
qed

lemma get_truth: "core_ok e \<Longrightarrow> get e k = truth (hist e) k (visible_ts e)"
  by (simp add: get_def snapshot_def get_at_latest latest_of_truth)

section \<open>Applying commits keeps the invariant\<close>

lemma push_all_tracks:
  "chain_tracks c h \<Longrightarrow> sorted_wrt (<) (map m_ts ms) \<Longrightarrow> \<forall>m\<in>set ms. latest_ts c < m_ts m \<Longrightarrow>
   chain_tracks (push_all a ms c) (h @ map version_of ms)"
proof (induction ms arbitrary: c h)
  case (Cons m ms)
  have "chain_tracks (chain_push (m_ts m) (m_value m) a c) (h @ [version_of m])"
    using push_tracks Cons.prems by (simp add: version_of_def)
  moreover have "\<forall>x\<in>set ms. latest_ts (chain_push (m_ts m) (m_value m) a c) < m_ts x"
    using Cons.prems by (auto simp: chain_push_versions(3))
  ultimately show ?case using Cons.IH Cons.prems(2) by fastforce
qed simp

lemma push_all_tracks_new:
  assumes "ms \<noteq> []" and "sorted_wrt (<) (map m_ts ms)" and "\<forall>m\<in>set ms. 0 < m_ts m"
  shows "chain_tracks (push_all a ms chain_default) (map version_of ms)"
proof -
  obtain m ms' where ms: "ms = m # ms'" using assms(1) by (cases ms) auto
  have "chain_tracks (chain_push (m_ts m) (m_value m) a chain_default) [version_of m]"
    using push_tracks_new assms(3) by (simp add: ms version_of_def)
  moreover have "\<forall>x\<in>set ms'. latest_ts (chain_push (m_ts m) (m_value m) a chain_default) < m_ts x"
    using assms(2) by (auto simp: ms chain_push_versions(3) chain_default_def)
  ultimately show ?thesis using push_all_tracks assms(2) ms by fastforce
qed

lemma key_tracks_pushed:
  assumes t: "key_tracks hz h (f k)" and ms: "sorted_wrt (<) (map m_ts (of_key k muts))"
    and new: "\<forall>m\<in>set muts. bound < m_ts m" and old: "\<forall>v\<in>set h. v_ts v \<le> bound"
  shows "key_tracks hz (h @ map version_of (of_key k muts)) (pushed a muts f k)"
proof (cases "of_key k muts = []")
  case True
  then show ?thesis using t by (simp add: pushed_def)
next
  case False
  have sub: "\<forall>m\<in>set (of_key k muts). bound < m_ts m" using new by (auto simp: of_key_def)
  show ?thesis
  proof (cases "f k")
    case None
    have "chain_tracks (push_all a (of_key k muts) chain_default) (map version_of (of_key k muts))"
      using sub by (intro push_all_tracks_new [OF False ms]) auto
    then show ?thesis using False None t by (auto simp: key_tracks_def pushed_def)
  next
    case (Some c)
    with t obtain h1 h2 where h: "h = h1 @ h2" "chain_tracks c h2" "ends_dead hz h1" "h2 \<noteq> []"
      by (auto elim: key_tracksE)
    have "latest_ts c \<le> bound" using old h tracks_latest [OF h(2)] by auto
    then have "chain_tracks (push_all a (of_key k muts) c) (h2 @ map version_of (of_key k muts))"
      using sub by (intro push_all_tracks [OF h(2) ms]) (auto intro: le_less_trans)
    then show ?thesis using False Some h by (auto simp: key_tracks_def pushed_def)
  qed
qed

lemma push_all_as_of:
  "chain_wf c \<Longrightarrow> sorted a \<Longrightarrow> s \<in> set a \<Longrightarrow> \<forall>m\<in>set ms. s < m_ts m \<Longrightarrow>
   as_of s (versions (push_all a ms c)) = as_of s (versions c)"
  by (induction ms arbitrary: c) (auto simp: push_as_of push_wf)

lemma version_at_pushed:
  assumes "\<And>k. chain_lookup sh' k = pushed a muts (chain_lookup sh) k" and "shards_wf sh"
    and "sorted a" and "s \<in> set a" and "\<forall>m\<in>set muts. s < m_ts m"
  shows "version_at sh' k s = version_at sh k s"
proof -
  have "\<forall>m\<in>set (of_key k muts). s < m_ts m" using assms(5) by (auto simp: of_key_def)
  moreover have "alive (as_of s (versions chain_default)) = None" by (simp add: alive_def chain_default_def)
  ultimately show ?thesis
    using assms(1) [of k] lookup_wf [OF assms(2), of k] chain_default_wf push_all_as_of [OF _ assms(3,4)]
    by (auto simp: version_at_def pushed_def split: option.splits)
qed

lemma true_version_append_new:
  "\<forall>m\<in>set muts. s < m_ts m \<Longrightarrow> true_version (h @ muts) k s = true_version h k s"
proof -
  assume "\<forall>m\<in>set muts. s < m_ts m"
  then have "as_of s (key_hist muts k) = None"
    by (auto simp: as_of_None set_key_hist)
  then show ?thesis by (simp add: true_version_def as_of_append)
qed

lemma truth_append_new: "\<forall>m\<in>set muts. s < m_ts m \<Longrightarrow> truth (h @ muts) k s = truth h k s"
  by (simp add: truth_version true_version_append_new)

lemma active_sorted: "bt_wf act \<Longrightarrow> sorted (bt_keys act)"
  by (simp add: bt_wf_def bt_keys_def strict_sorted_iff)

lemma apply_core_ok:
  assumes ok: "core_ok e" and keys: "\<And>k. sorted_wrt (<) (map m_ts (of_key k muts))"
    and new: "\<forall>m\<in>set muts. visible_ts e < m_ts m \<and> m_ts m \<le> v" and v: "visible_ts e \<le> v"
    and e': "e' = (apply_to_engine muts e)\<lparr>events := events e @ map Committed muts, visible_ts := v\<rparr>"
  shows "core_ok e' \<and> hist e' = hist e @ muts"
proof -
  obtain sh kv gy where a: "apply_muts (bt_keys (active_snaps e)) muts (co_shards e, kv_live e, graveyard e) = (sh, kv, gy)"
    by (metis prod_cases3)
  have f: "co_shards e' = sh" "kv_live e' = kv" "graveyard e' = gy" "active_snaps e' = active_snaps e"
    "gc_horizon e' = gc_horizon e" "visible_ts e' = v" "events e' = events e @ map Committed muts"
    by (simp_all add: e' apply_to_engine_def a)
  have h: "hist e' = hist e @ muts" by (simp add: hist_def f history_append history_committed)
  have wf: "shards_wf (co_shards e)" and act: "bt_wf (active_snaps e)" using ok by (auto simp: core_ok_def)
  note am = apply_muts_ok [OF wf a]
  have hist_le: "\<forall>m\<in>set (hist e). m_ts m \<le> visible_ts e" using ok by (simp add: core_ok_def)
  have tr: "key_tracks (gc_horizon e) (key_hist (hist e @ muts) k) (chain_lookup sh k)" for k
    unfolding am(2) key_hist_append key_hist_def [of muts]
    by (rule key_tracks_pushed [where bound = "visible_ts e", OF core_ok_tracks [OF ok] keys])
      (use new hist_le in \<open>auto simp: set_key_hist\<close>)
  have pin: "pinned_exact sh (hist e @ muts) (active_snaps e)"
    unfolding pinned_exact_def
  proof (intro ballI allI)
    fix s k assume s: "s \<in> set (bt_keys (active_snaps e))"
    then have "\<forall>m\<in>set muts. s < m_ts m" using ok new by (fastforce simp: core_ok_def)
    then show "version_at sh k s = true_version (hist e @ muts) k s"
      using version_at_pushed [OF am(2) wf active_sorted [OF act] s] true_version_append_new ok s
      by (simp add: core_ok_def pinned_exact_def)
  qed
  have srt: "sorted_wrt (<) (map v_ts (key_hist (hist e @ muts) k))" for k
  proof -
    have "sorted_wrt (<) (map v_ts (key_hist (hist e) k))" using ok by (simp add: core_ok_def)
    moreover have "sorted_wrt (<) (map v_ts (key_hist muts k))"
      using keys [of k] by (simp add: key_hist_def comp_def)
    moreover have "\<forall>x\<in>set (key_hist (hist e) k). \<forall>y\<in>set (key_hist muts k). v_ts x < v_ts y"
      using hist_le new by (fastforce simp: set_key_hist)
    ultimately show ?thesis by (simp add: sorted_wrt_append)
  qed
  have col: "collected_seen sh (hist e @ muts) (active_snaps e)"
    unfolding collected_seen_def
  proof (intro ballI allI impI)
    fix s k v assume s: "s \<in> set (bt_keys (active_snaps e))" and n: "chain_lookup sh k = None"
      and v: "v \<in> set (key_hist (hist e @ muts) k)"
    have "of_key k muts = []" and "chain_lookup (co_shards e) k = None"
      using n am(2) [of k] by (auto simp: pushed_def split: if_splits)
    then show "v_ts v \<le> s"
      using ok s v by (auto simp: core_ok_def collected_seen_def key_hist_def)
  qed
  have "\<forall>m\<in>set (hist e @ muts). 0 < m_ts m \<and> m_ts m \<le> v"
    using ok new v by (force simp: core_ok_def)
  moreover have "\<forall>s\<in>set (bt_keys (active_snaps e)). s \<le> v"
    using ok v by (force simp: core_ok_def)
  moreover have "kv = live_kv_keys sh" "dead_recorded sh gy"
    using am(3,4) ok by (auto simp: core_ok_def)
  ultimately show ?thesis
    using am(1) act tr pin h srt col by (simp add: core_ok_def f)
qed

section \<open>Sweeping keeps the invariant\<close>

definition dead_in :: "shards \<Rightarrow> (key \<times> nat) list \<Rightarrow> key \<Rightarrow> bool" where
  "dead_in sh xs k \<longleftrightarrow>
     (\<exists>c. chain_lookup sh k = Some c \<and> chain_latest c = None \<and> (k, latest_ts c) \<in> set xs)"

lemma remove_from_shard:
  assumes wf: "shards_wf sh" and c: "chain_lookup sh k = Some c"
  defines "sh' \<equiv> sh[shard_of k := bt_remove k (sh ! shard_of k)]"
  shows "shards_wf sh'" and "chain_lookup sh' = (chain_lookup sh)(k := None)"
    and "live_kv_keys sh' = live_kv_keys sh - of_bool (kv_alive (k, c))"
proof -
  let ?d = "sh ! shard_of k"
  have d: "bt_wf ?d" and l: "shard_of k < length sh" using wf by (simp_all add: shards_wf_def)
  have get: "bt_get (bt_remove k ?d) = (bt_get ?d)(k := None)" using d by (rule bt_get_remove)
  have ins: "shard_of k' = shard_of k \<and> chain_wf c' \<and> versions c' \<noteq> []" if "bt_get ?d k' = Some c'" for k' c'
    using map_of_SomeD [OF that] in_shard [OF wf shard_of_less] lookup_wf [OF wf, of k' c'] by simp
  show "shards_wf sh'"
    unfolding sh'_def
  proof (rule shards_wf_update [OF wf shard_of_less])
    show "bt_wf (bt_remove k ?d)" using d by (rule bt_wf_remove)
    fix k' c' assume "bt_get (bt_remove k ?d) k' = Some c'"
    then have "bt_get ?d k' = Some c'" by (simp add: get split: if_splits)
    then show "shard_of k' = shard_of k \<and> chain_wf c' \<and> versions c' \<noteq> []" by (rule ins)
  qed
  show "chain_lookup sh' = (chain_lookup sh)(k := None)"
    unfolding fun_eq_iff
  proof
    fix x
    show "chain_lookup sh' x = ((chain_lookup sh)(k := None)) x"
      using l get by (cases "shard_of x = shard_of k"; cases "x = k") (simp_all add: sh'_def chain_lookup_def)
  qed
  have "bt_get ?d k = Some c" using c by (simp add: chain_lookup_def)
  then show "live_kv_keys sh' = live_kv_keys sh - of_bool (kv_alive (k, c))"
    using live_kv_update [OF l, of "bt_remove k ?d"] count_bt_remove [OF d, of kv_alive k] by (simp add: sh'_def)
qed

lemma sweep_one_ok:
  assumes wf: "shards_wf sh" and s: "sweep_one (k, ts) (sh, m) = (sh', m')"
  shows "shards_wf sh' \<and> m \<le> m' \<and> live_kv_keys sh' = live_kv_keys sh
    \<and> chain_lookup sh' = (\<lambda>x. if dead_in sh [(k, ts)] x then None else chain_lookup sh x)
    \<and> (\<forall>x. dead_in sh [(k, ts)] x \<longrightarrow> ts \<le> m')"
proof (cases "dead_in sh [(k, ts)] k")
  case True
  then obtain c where c: "chain_lookup sh k = Some c" "chain_latest c = None" "latest_ts c = ts"
    by (auto simp: dead_in_def)
  note r = remove_from_shard [OF wf c(1)]
  have "dead_in sh [(k, ts)] x \<longleftrightarrow> x = k" for x using c by (auto simp: dead_in_def)
  moreover have "sh' = sh[shard_of k := bt_remove k (sh ! shard_of k)]" "m' = max m ts"
    using s c by (auto simp: sweep_one_def)
  moreover have "\<not> kv_alive (k, c)" using c(2) by (simp add: kv_alive_def)
  ultimately show ?thesis
    using r by (simp add: fun_upd_def)
next
  case False
  then have none: "\<not> dead_in sh [(k, ts)] x" for x by (auto simp: dead_in_def)
  have "sh' = sh" "m' = m"
    using s False by (auto simp: sweep_one_def dead_in_def split: option.splits if_splits)
  then show ?thesis using wf none by simp
qed

lemma sweep_fold:
  "shards_wf sh \<Longrightarrow> fold sweep_one xs (sh, m) = (sh', m') \<Longrightarrow>
   shards_wf sh' \<and> m \<le> m' \<and> live_kv_keys sh' = live_kv_keys sh
   \<and> (\<forall>k. chain_lookup sh' k = (if dead_in sh xs k then None else chain_lookup sh k))
   \<and> (\<forall>k c. chain_lookup sh k = Some c \<and> dead_in sh xs k \<longrightarrow> latest_ts c \<le> m')"
proof (induction xs arbitrary: sh m)
  case Nil
  then show ?case by (auto simp: dead_in_def)
next
  case (Cons x xs)
  obtain k ts where x: "x = (k, ts)" by (cases x)
  obtain sh1 m1 where s: "sweep_one (k, ts) (sh, m) = (sh1, m1)" by fastforce
  note one = sweep_one_ok [OF Cons.prems(1) s]
  have "fold sweep_one xs (sh1, m1) = (sh', m')" using Cons.prems(2) s x by simp
  note IH = Cons.IH [OF conjunct1 [OF one] this]
  have d: "dead_in sh (x # xs) k' \<longleftrightarrow> dead_in sh [(k, ts)] k' \<or> dead_in sh1 xs k'" for k'
    using one by (auto simp: dead_in_def x split: if_splits)
  have bound: "latest_ts c \<le> m'" if c: "chain_lookup sh k' = Some c" "dead_in sh (x # xs) k'" for k' c
  proof (cases "dead_in sh [(k, ts)] k'")
    case True
    then have "latest_ts c = ts" using c(1) by (auto simp: dead_in_def)
    moreover have "ts \<le> m1" using one True by blast
    ultimately show ?thesis using IH by linarith
  next
    case False
    then have "dead_in sh1 xs k'" "chain_lookup sh1 k' = Some c" using d c one by auto
    then show ?thesis using IH by blast
  qed
  have "chain_lookup sh' k' = (if dead_in sh (x # xs) k' then None else chain_lookup sh k')" for k'
    using IH one d [of k'] by (auto simp: dead_in_def)
  then show ?case using IH one bound by auto
qed

lemma gc_bound_le: "gc_bound e \<le> visible_ts e"
  by (auto simp: gc_bound_def split: list.split)

lemma gc_bound_active: "bt_wf (active_snaps e) \<Longrightarrow> s \<in> set (bt_keys (active_snaps e)) \<Longrightarrow> gc_bound e \<le> s"
  by (cases "active_snaps e") (fastforce simp: gc_bound_def bt_keys_def bt_wf_Cons min_def)+

lemma sweep_fields [simp]:
  "events (sweep_tombstones e) = events e" "visible_ts (sweep_tombstones e) = visible_ts e"
  "active_snaps (sweep_tombstones e) = active_snaps e" "co_wal (sweep_tombstones e) = co_wal e"
  "write_queue (sweep_tombstones e) = write_queue e" "clock (sweep_tombstones e) = clock e"
  "kv_live (sweep_tombstones e) = kv_live e" "sync_writes (sweep_tombstones e) = sync_writes e"
  "snap_file (sweep_tombstones e) = snap_file e" "ckpt_file (sweep_tombstones e) = ckpt_file e"
  "last_appended (sweep_tombstones e) = last_appended e" "backups (sweep_tombstones e) = backups e"
  by (simp_all add: sweep_tombstones_def Let_def split: prod.split)

lemma hist_sweep [simp]: "hist (sweep_tombstones e) = hist e"
  by (simp add: hist_def)

lemma sweep_core_ok:
  assumes ok: "core_ok e"
  shows "core_ok (sweep_tombstones e)"
    and "\<forall>k c. chain_lookup (co_shards (sweep_tombstones e)) k = Some c \<and> chain_latest c = None
           \<longrightarrow> gc_bound e < latest_ts c"
    and "latest_of (co_shards (sweep_tombstones e)) k = latest_of (co_shards e) k"
proof -
  let ?b = "gc_bound e" and ?e = "sweep_tombstones e"
  let ?ready = "filter (\<lambda>(_, ts). ts \<le> ?b) (graveyard e)" and ?keep = "filter (\<lambda>(_, ts). \<not> ts \<le> ?b) (graveyard e)"
  obtain sh m where f: "fold sweep_one ?ready (co_shards e, 0) = (sh, m)" by fastforce
  have e: "co_shards ?e = sh" "graveyard ?e = ?keep" "gc_horizon ?e = max (gc_horizon e) m"
    using f by (auto simp: sweep_tombstones_def Let_def split: prod.splits)
  have wf: "shards_wf (co_shards e)" and act: "bt_wf (active_snaps e)" using ok by (auto simp: core_ok_def)
  note sw = sweep_fold [OF wf f]
  have look: "chain_lookup sh k = (if dead_in (co_shards e) ?ready k then None else chain_lookup (co_shards e) k)" for k
    using sw by blast
  have dead: "dead_in (co_shards e) ?ready k \<longleftrightarrow>
      (\<exists>c. chain_lookup (co_shards e) k = Some c \<and> chain_latest c = None \<and> latest_ts c \<le> ?b)" for k
    using ok by (auto simp: dead_in_def core_ok_def dead_recorded_def)
  have latest: "latest_of sh k = latest_of (co_shards e) k" for k
    using look dead by (auto simp: latest_of_def split: option.split)
  have tr: "key_tracks (max (gc_horizon e) m) (key_hist (hist e) k) (chain_lookup sh k)" for k
  proof -
    have mono: "ends_dead (gc_horizon e) h \<Longrightarrow> ends_dead (max (gc_horizon e) m) h" for h
      by (auto simp: ends_dead_def)
    note t = core_ok_tracks [OF ok, of k]
    show ?thesis
    proof (cases "dead_in (co_shards e) ?ready k")
      case True
      then obtain c where c: "chain_lookup (co_shards e) k = Some c" "chain_latest c = None"
        by (auto simp: dead_in_def)
      obtain h1 h2 where h: "key_hist (hist e) k = h1 @ h2" "chain_tracks c h2" "h2 \<noteq> []"
        using t c by (auto elim: key_tracksE)
      have "latest_ts c \<le> m" using sw True c by blast
      then have "ends_dead (max (gc_horizon e) m) (key_hist (hist e) k)"
        using tracks_latest [OF h(2)] h c(2) by (auto simp: ends_dead_def live_def split: if_splits)
      then show ?thesis using True look by (simp add: key_tracks_def)
    next
      case False
      then show ?thesis using t look mono by (auto simp: key_tracks_def split: option.splits)
    qed
  qed
  have pin: "version_at sh k s = version_at (co_shards e) k s" if s: "s \<in> set (bt_keys (active_snaps e))" for s k
  proof (cases "dead_in (co_shards e) ?ready k")
    case True
    then obtain c where c: "chain_lookup (co_shards e) k = Some c" "chain_latest c = None" "latest_ts c \<le> ?b"
      using dead by blast
    then have "visible s c = None"
      using visible_latest [of c s] lookup_wf [OF wf c(1)] gc_bound_active [OF act s] by auto
    then have "version_at (co_shards e) k s = None" using c by (simp add: version_at_dead get_at_def)
    then show ?thesis using True look by (simp add: version_at_def)
  qed (simp add: version_at_def look)
  have col: "collected_seen sh (hist e) (active_snaps e)"
    unfolding collected_seen_def
  proof (intro ballI allI impI)
    fix s k v assume s: "s \<in> set (bt_keys (active_snaps e))" and n: "chain_lookup sh k = None"
      and v: "v \<in> set (key_hist (hist e) k)"
    show "v_ts v \<le> s"
    proof (cases "chain_lookup (co_shards e) k")
      case None
      then show ?thesis using ok s v by (simp add: core_ok_def collected_seen_def)
    next
      case (Some c)
      then have d: "dead_in (co_shards e) ?ready k" using n look [of k] by (auto split: if_splits)
      then have c: "latest_ts c \<le> ?b" using dead Some by auto
      obtain h1 h2 where h: "key_hist (hist e) k = h1 @ h2" "chain_tracks c h2" "h2 \<noteq> []"
        "last (key_hist (hist e) k) = last h2"
        using core_ok_tracks [OF ok, of k] Some by (auto elim: key_tracksE)
      have "sorted_wrt (<) (map v_ts (key_hist (hist e) k))" using ok by (simp add: core_ok_def)
      then have "v_ts v \<le> v_ts (last (key_hist (hist e) k))"
        using v by (intro sorted_last_ge) 
      also have "\<dots> = latest_ts c" using h tracks_latest [OF h(2)] by simp
      finally show ?thesis using c gc_bound_active [OF act s] by linarith
    qed
  qed
  have rec: "dead_recorded sh ?keep"
    using ok look dead by (auto simp: dead_recorded_def core_ok_def split: if_splits)
  show "core_ok ?e"
    using ok sw tr pin rec col by (simp add: core_ok_def e pinned_exact_def)
  show "\<forall>k c. chain_lookup (co_shards ?e) k = Some c \<and> chain_latest c = None \<longrightarrow> ?b < latest_ts c"
    using look dead by (auto simp: e split: if_splits)
  show "latest_of (co_shards ?e) k = latest_of (co_shards e) k" using latest by (simp add: e)
qed

section \<open>What a batch commits\<close>

lemma distinct_of_key: "distinct (map m_key ms) \<Longrightarrow> length (of_key k ms) \<le> 1"
proof (induction ms)
  case (Cons m ms)
  have "of_key k ms = []" if "m_key m = k"
  proof -
    have "\<forall>x\<in>set ms. m_key x \<noteq> k" using Cons.prems that by (auto simp: image_iff)
    then show ?thesis by (simp add: of_key_def filter_empty_conv)
  qed
  then show ?case using Cons by auto
qed simp

lemma overlay_add_wf: "bt_wf ov \<Longrightarrow> bt_wf (overlay_add ms ov)"
  unfolding overlay_add_def by (induction ms arbitrary: ov) (auto simp: bt_wf_insert)

lemma resolve_ok:
  assumes pw: "pending_ok pw" and ov: "bt_wf ov" and r: "resolved_muts pw (resolve sh pw ov) = Some ms"
  shows "(\<forall>m\<in>set ms. m_ts m = pw_ts pw) \<and> distinct (map m_key ms)"
proof (cases "pw_op pw")
  case (Some op)
  have "os_wf (os_new sh ov)" using ov by (simp add: os_wf_def os_new_def)
  then have "os_wf (op (os_new sh ov))" using pw Some by (auto simp: pending_ok_def)
  then have "distinct (map fst (os_writes (op (os_new sh ov))))"
    by (intro bt_wf_distinct) (simp add: os_wf_def)
  moreover have "ms = map (\<lambda>(k, v). \<lparr>m_key = k, m_value = v, m_ts = pw_ts pw\<rparr>) (os_writes (op (os_new sh ov)))"
    using r by (simp add: resolve_def resolved_muts_def Some Let_def)
  ultimately show ?thesis by (auto simp: comp_def case_prod_beta)
next
  case None
  have "ms = pw_muts pw \<or> (\<exists>k v. ms = [\<lparr>m_key = k, m_value = v, m_ts = pw_ts pw\<rparr>])"
    using r by (auto simp: resolve_def resolved_muts_def None Let_def split: if_splits option.splits sum.splits)
  then show ?thesis using pw by (auto simp: pending_ok_def)
qed

lemma batch_muts_Cons:
  "batch_muts (pw # batch) (out # outs) =
     (case out of None \<Rightarrow> [] | Some r \<Rightarrow> (case resolved_muts pw r of None \<Rightarrow> [] | Some m \<Rightarrow> [m]))
     @ batch_muts batch outs"
  by (simp add: batch_muts_def List.map_filter_simps split: option.split)

lemma batch_muts_Nil [simp]: "batch_muts [] outs = []"
  by (simp add: batch_muts_def List.map_filter_simps)

lemma length_resolve_all [simp]: "length (resolve_all sh n batch ov) = length batch"
  by (induction sh n batch ov rule: resolve_all.induct) (auto simp: Let_def)

lemma batch_muts_ok:
  assumes "sorted_wrt (<) (map pw_ts batch)" and "\<forall>pw\<in>set batch. pending_ok pw" and "bt_wf ov"
  shows "(\<forall>k. sorted_wrt (<) (map m_ts (of_key k (concat (batch_muts batch (resolve_all sh n batch ov))))))
    \<and> (\<forall>m\<in>set (concat (batch_muts batch (resolve_all sh n batch ov))).
         \<exists>pw\<in>set batch. pw_flush_all pw = None \<and> m_ts m = pw_ts pw)"
  using assms
proof (induction sh n batch ov rule: resolve_all.induct)
  case (2 sh n pw batch ov)
  show ?case
  proof (cases "pw_flush_all pw = None")
    case False
    then show ?thesis using 2 by (auto simp: batch_muts_Cons)
  next
    case True
    define r where "r = resolve sh pw ov"
    define ov' where "ov' = (if n then (case resolved_muts pw r of None \<Rightarrow> ov | Some m \<Rightarrow> overlay_add m ov) else ov)"
    define rest where "rest = concat (batch_muts batch (resolve_all sh n batch ov'))"
    have "bt_wf ov'" using 2(5) by (auto simp: ov'_def overlay_add_wf split: option.split)
    then have IH: "sorted_wrt (<) (map m_ts (of_key k rest))"
      "\<forall>m\<in>set rest. \<exists>pw\<in>set batch. pw_flush_all pw = None \<and> m_ts m = pw_ts pw" for k
      using "2.IH"(2) [OF _ refl refl] "2.prems" True by (auto simp: rest_def ov'_def r_def)
    define ms where "ms = (case resolved_muts pw r of None \<Rightarrow> [] | Some m \<Rightarrow> m)"
    have ms: "\<forall>m\<in>set ms. m_ts m = pw_ts pw" "distinct (map m_key ms)"
      using resolve_ok [of pw ov sh] "2.prems"
      by (cases "resolved_muts pw r"; simp add: ms_def r_def)+
    have c: "concat (batch_muts (pw # batch) (resolve_all sh n (pw # batch) ov)) = ms @ rest"
      using True by (auto simp: batch_muts_Cons Let_def rest_def ms_def r_def ov'_def split: option.split)
    have later: "\<forall>m\<in>set rest. pw_ts pw < m_ts m"
      using IH(2) "2.prems"(1) by auto
    have "sorted_wrt (<) (map m_ts (of_key k (ms @ rest)))" for k
    proof -
      have "length (of_key k ms) \<le> 1" using ms(2) by (rule distinct_of_key)
      then have "sorted_wrt (<) (map m_ts (of_key k ms))"
        by (cases "of_key k ms" rule: list.exhaust) (auto simp: le_Suc_eq)
      moreover have "\<forall>x\<in>set (of_key k ms). \<forall>y\<in>set (of_key k rest). m_ts x < m_ts y"
        using ms(1) later by (auto simp: of_key_def)
      ultimately show ?thesis using IH(1) [of k] by (simp add: sorted_wrt_append)
    qed
    moreover have "\<exists>pw'\<in>set (pw # batch). pw_flush_all pw' = None \<and> m_ts m = pw_ts pw'" if "m \<in> set (ms @ rest)" for m
      using that ms(1) True IH(2) by auto
    ultimately show ?thesis unfolding c by blast
  qed
qed simp

lemma max_ts_fold:
  "b \<le> fold (\<lambda>pw m. max m (pw_ts pw)) batch b \<and>
   (\<forall>pw\<in>set batch. pw_ts pw \<le> fold (\<lambda>pw m. max m (pw_ts pw)) batch b)"
proof (induction batch arbitrary: b)
  case (Cons pw batch)
  have "max b (pw_ts pw) \<le> fold (\<lambda>pw m. max m (pw_ts pw)) batch (max b (pw_ts pw))
      \<and> (\<forall>x\<in>set batch. pw_ts x \<le> fold (\<lambda>pw m. max m (pw_ts pw)) batch (max b (pw_ts pw)))"
    by (rule Cons.IH)
  then show ?case by (simp add: max.bounded_iff)
qed simp

lemma max_ts_ge: "pw \<in> set batch \<Longrightarrow> pw_ts pw \<le> max_ts batch"
  using max_ts_fold [of 0 batch] by (simp add: max_ts_def)

lemma max_ts_le: "\<forall>pw\<in>set batch. pw_ts pw \<le> b \<Longrightarrow> max_ts batch \<le> b"
proof -
  have "a \<le> b \<Longrightarrow> \<forall>pw\<in>set batch. pw_ts pw \<le> b \<Longrightarrow> fold (\<lambda>pw m. max m (pw_ts pw)) batch a \<le> b" for a
    by (induction batch arbitrary: a) auto
  then show "\<forall>pw\<in>set batch. pw_ts pw \<le> b \<Longrightarrow> max_ts batch \<le> b" by (simp add: max_ts_def)
qed

section \<open>A flush round keeps the invariant\<close>

lemma core_ok_cong:
  assumes "core_ok e" and "co_shards e' = co_shards e" and "active_snaps e' = active_snaps e"
    and "kv_live e' = kv_live e" and "graveyard e' = graveyard e" and "events e' = events e"
    and "gc_horizon e' = gc_horizon e" and "visible_ts e \<le> visible_ts e'"
  shows "core_ok e'"
  using assms by (force simp: core_ok_def hist_def)

lemma durable_step_fields:
  assumes "durable_step io frames t e = (e', r)"
  shows "co_shards e' = co_shards e" "active_snaps e' = active_snaps e" "kv_live e' = kv_live e"
    "graveyard e' = graveyard e" "events e' = events e" "gc_horizon e' = gc_horizon e"
    "visible_ts e' = visible_ts e" "clock e' = clock e" "write_queue e' = write_queue e"
    "snap_file e' = snap_file e" "sync_writes e' = sync_writes e"
  using assms by (auto simp: durable_step_def split: if_splits prod.splits sum.splits)

lemma wiped_core_ok:
  assumes "core_ok e"
  shows "core_ok (e\<lparr>co_shards := map (\<lambda>_. []) (co_shards e), kv_live := 0, graveyard := [], events := events e @ [Flushed]\<rparr>)"
proof -
  have sh: "map (\<lambda>_. []) (co_shards e) = empty_shards"
    using assms by (simp add: core_ok_def shards_wf_def empty_shards_def map_replicate_const)
  have "live_kv_keys empty_shards = 0" by (simp add: live_kv_keys_def empty_shards_def sum_list_replicate)
  then show ?thesis
    using assms
    by (simp add: sh core_ok_def empty_shards_wf dead_recorded_def hist_def history_append key_tracks_def
        ends_dead_def pinned_exact_def version_at_def true_version_def alive_def collected_seen_def)
qed

lemma perform_flush_all_ok:
  assumes ok: "core_ok e" and p: "perform_flush_all io bak e = (e', r)"
  shows "(r = Inr () \<longrightarrow> core_ok (e'\<lparr>events := events e' @ [Flushed]\<rparr>) \<and> chain_lookup (co_shards e') k = None)
    \<and> (r \<noteq> Inr () \<longrightarrow> core_ok e' \<and> co_shards e' = co_shards e)
    \<and> events e' = events e \<and> visible_ts e' = visible_ts e \<and> clock e' = clock e \<and> write_queue e' = write_queue e
    \<and> active_snaps e' = active_snaps e"
proof (cases "r = Inr ()")
  case True
  have sh: "map (\<lambda>_. []) (co_shards e) = empty_shards"
    using ok by (simp add: core_ok_def shards_wf_def empty_shards_def map_replicate_const)
  obtain w y where "sync (io_wipe_sync io) (co_wal e) = (w, y)" by fastforce
  then have e': "e' = e\<lparr>backups := backups e @ [(bak, Some (log_file w), snap_file e)], snap_file := None,
      co_wal := wal_open None, co_shards := map (\<lambda>_. []) (co_shards e), kv_live := 0, graveyard := []\<rparr>"
    using p True by (auto simp: perform_flush_all_def split: prod.splits sum.splits if_splits)
  have "core_ok (e'\<lparr>events := events e' @ [Flushed]\<rparr>)"
    using wiped_core_ok [OF ok] by (rule core_ok_cong) (simp_all add: e')
  then show ?thesis using True sh by (simp add: e')
next
  case False
  then have "co_shards e' = co_shards e \<and> active_snaps e' = active_snaps e \<and> kv_live e' = kv_live e
      \<and> graveyard e' = graveyard e \<and> events e' = events e \<and> gc_horizon e' = gc_horizon e
      \<and> visible_ts e' = visible_ts e \<and> clock e' = clock e \<and> write_queue e' = write_queue e"
    using p by (auto simp: perform_flush_all_def split: prod.splits sum.splits if_splits)
  then show ?thesis using False core_ok_cong [OF ok] by simp
qed

lemma wipes_empty: "List.map_filter pw_flush_all batch = [] \<longleftrightarrow> (\<forall>pw\<in>set batch. pw_flush_all pw = None)"
  by (induction batch) (auto simp: List.map_filter_simps split: option.splits)

text \<open>The mutations a batch commits when nothing fails.\<close>

definition batch_commits :: "pending list \<Rightarrow> engine \<Rightarrow> mutation list" where
  "batch_commits batch e =
     concat (batch_muts batch
       (resolve_all (co_shards (sweep_tombstones e)) (list_ex wants_overlay batch) batch []))"

lemma flush_batch_ok:
  assumes ok: "core_ok e" and batch: "sorted_wrt (<) (map pw_ts batch)" "\<forall>pw\<in>set batch. pending_ok pw"
    and new: "\<forall>pw\<in>set batch. pw_flush_all pw = None \<longrightarrow> visible_ts e < pw_ts pw"
    and f: "flush_batch io batch e = (e', acks)"
  shows "core_ok e' \<and> clock e' = clock e \<and> write_queue e' = write_queue e
    \<and> visible_ts e' = (if batch = [] then visible_ts e else max (visible_ts e) (max_ts batch))
    \<and> active_snaps e' = active_snaps e
    \<and> (\<forall>m\<in>set (batch_commits batch e). visible_ts e < m_ts m)
    \<and> (hist e' = hist e \<or> hist e' = hist e @ batch_commits batch e
       \<or> hist e' = [] \<and> events e' = events e @ [Flushed])"
proof -
  define e1 where "e1 = sweep_tombstones e"
  define outs where "outs = resolve_all (co_shards e1) (list_ex wants_overlay batch) batch []"
  define muts where "muts = batch_muts batch outs"
  define wipes where "wipes = List.map_filter pw_flush_all batch"
  have ok1: "core_ok e1" unfolding e1_def by (rule sweep_core_ok(1) [OF ok])
  obtain e2 fl where d: "durable_step io (map commit_frame (filter (\<lambda>m. m \<noteq> []) muts)) (max_ts batch) e1 = (e2, fl)"
    by fastforce
  note df = durable_step_fields [OF d]
  have ok2: "core_ok e2" by (rule core_ok_cong [OF ok1]) (simp_all add: df)
  have h2: "hist e2 = hist e" "visible_ts e2 = visible_ts e" "clock e2 = clock e" "write_queue e2 = write_queue e"
    "active_snaps e2 = active_snaps e" by (simp_all add: df e1_def hist_def)
  have commits: "batch_commits batch e = concat muts"
    by (simp add: batch_commits_def muts_def outs_def e1_def)
  obtain e3 we where w3: "wipe_step io wipes e2 = (e3, we)" by fastforce
  define e4 where "e4 = (if fl = Inr () \<and> wipes = [] then commit_step (concat muts) e3 else e3)"
  have e': "e' = publish batch e4"
    using f unfolding flush_batch_def Let_def e1_def [symmetric] outs_def [symmetric] muts_def [symmetric] wipes_def [symmetric]
    by (simp add: d w3 e4_def)
  have b: "\<And>k. sorted_wrt (<) (map m_ts (of_key k (concat muts)))"
    "\<forall>m\<in>set (concat muts). \<exists>pw\<in>set batch. pw_flush_all pw = None \<and> m_ts m = pw_ts pw"
    using batch_muts_ok [OF batch bt_wf_Nil] unfolding muts_def outs_def by blast+
  have ts0: "\<forall>m\<in>set (batch_commits batch e). visible_ts e < m_ts m"
    using b(2) new by (fastforce simp: commits)
  have ev2: "events e2 = events e" by (simp add: df e1_def)
  show ?thesis
  proof (cases "wipes = []")
    case True
    then have e3: "e3 = e2" using w3 by (simp add: wipe_step_def)
    show ?thesis
    proof (cases "fl = Inr ()")
      case fl: True
      have nofl: "\<forall>pw\<in>set batch. pw_flush_all pw = None" using True wipes_empty [of batch] by (simp add: wipes_def)
      let ?v = "if batch = [] then visible_ts e else max (visible_ts e) (max_ts batch)"
      have ts: "\<forall>m\<in>set (concat muts). visible_ts e2 < m_ts m \<and> m_ts m \<le> ?v"
        using b(2) new max_ts_ge [of _ batch] h2 by (fastforce simp: le_max_iff_disj)
      have ev: "events (apply_to_engine (concat muts) e2) = events e2"
        "visible_ts (apply_to_engine (concat muts) e2) = visible_ts e2"
        "clock (apply_to_engine (concat muts) e2) = clock e2"
        "write_queue (apply_to_engine (concat muts) e2) = write_queue e2"
        "active_snaps (apply_to_engine (concat muts) e2) = active_snaps e2"
        by (simp_all add: apply_to_engine_def split: prod.split)
      have e4': "e' = (apply_to_engine (concat muts) e2)\<lparr>events := events e2 @ map Committed (concat muts), visible_ts := ?v\<rparr>"
        using True fl h2 ev by (simp add: e' e4_def e3 commit_step_def publish_def)
      have "core_ok e' \<and> hist e' = hist e2 @ concat muts"
        by (rule apply_core_ok [OF ok2 b(1) ts _ e4']) (use h2 in auto)
      then show ?thesis using h2 commits ev ts0 by (simp add: e4')
    next
      case fl: False
      then have "e4 = e2" using True by (simp add: e4_def e3)
      then show ?thesis
        using core_ok_cong [OF ok2, of e'] h2 ts0 by (auto simp: e' hist_def publish_def)
    qed
  next
    case False
    then obtain bak ws where w: "wipes = bak # ws" by (cases wipes) auto
    obtain ef r where p: "perform_flush_all io bak e2 = (ef, r)" by fastforce
    note pf = perform_flush_all_ok [OF ok2 p]
    have e4: "e4 = e3" using False by (simp add: e4_def)
    show ?thesis
    proof (cases r)
      case (Inr x)
      then have e3: "e3 = ef\<lparr>events := events ef @ [Flushed]\<rparr>" using w p w3 by (simp add: wipe_step_def)
      have "core_ok e3" unfolding e3 using pf [of "[]"] Inr old.unit.exhaust by blast
      then have "core_ok e'" by (rule core_ok_cong) (simp_all add: e' e4 publish_def)
      then show ?thesis
        using pf h2 ts0 ev2 by (auto simp: e' e4 e3 hist_def history_append publish_def)
    next
      case (Inl err)
      then have e3: "e3 = ef" using w p w3 by (simp add: wipe_step_def)
      have "core_ok e3" unfolding e3 using pf [of "[]"] Inl by blast
      then have "core_ok e'" by (rule core_ok_cong) (simp_all add: e' e4 publish_def)
      then show ?thesis using pf h2 ts0 by (auto simp: e' e4 e3 hist_def publish_def)
    qed
  qed
qed

end
