(* ===== verification/Engine_Safety.thy ===== *)
theory Engine_Safety
  imports Engine
begin

text \<open>
  The engine as a state machine and what holds of every reachable state: the shards represent
  the committed history, every registered snapshot reads one unchanging state, the live-key
  counter is exact, conflict detection certifies what a transaction read, group commit is
  equivalent to committing one by one, and tombstones are collected.
\<close>

section \<open>Steps\<close>

definition client_ok :: "(key \<times> val) list \<Rightarrow> (op_store \<Rightarrow> op_store) option \<Rightarrow> bool" where
  "client_ok writes op \<longleftrightarrow>
     distinct (map fst writes) \<and> (\<forall>f st. op = Some f \<and> os_wf st \<longrightarrow> os_wf (f st))"

inductive engine_step :: "engine \<Rightarrow> engine \<Rightarrow> bool" where
  durable: "sync_writes e \<Longrightarrow> client_ok writes op \<Longrightarrow> engine_step e (submit_durable writes reads incr op e)"
| direct: "\<not> sync_writes e \<Longrightarrow> client_ok writes op \<Longrightarrow> engine_step e (fst (submit_direct writes reads incr op e))"
| flush_all: "engine_step e (enqueue_flush_all bak e)"
| round: "engine_step e (fst (flush_round io e))"
| pin: "engine_step e (pin (snapshot e) e)"
| unpin: "engine_step e (unpin s e)"

inductive_cases engine_stepE: "engine_step e e'"

lemma sync_writes_sweep: "sync_writes (sweep_tombstones e) = sync_writes e"
  by simp

lemma tick_simps: "tick e = (clock e + 1, e\<lparr>clock := clock e + 1\<rparr>)"
  by (simp add: tick_def)

lemma mk_pending_ok: "client_ok writes op \<Longrightarrow> pending_ok (mk_pending ts writes reads incr op fl)"
  by (auto simp: pending_ok_def mk_pending_def client_ok_def comp_def case_prod_beta)

lemma submit_durable_eq:
  "submit_durable writes reads incr op e =
     e\<lparr>clock := clock e + 1, write_queue := write_queue e @ [mk_pending (clock e + 1) writes reads incr op None]\<rparr>"
  by (simp add: submit_durable_def tick_simps)

lemma enqueue_flush_all_eq:
  "enqueue_flush_all bak e =
     e\<lparr>clock := clock e + 1, write_queue := write_queue e @ [mk_pending (clock e + 1) [] [] None None (Some bak)]\<rparr>"
  by (simp add: enqueue_flush_all_def tick_simps)

lemma core_ok_clock_queue: "core_ok (e\<lparr>clock := c, write_queue := q\<rparr>) = core_ok e"
  by (simp add: core_ok_def hist_def)

lemma enqueue_ok:
  assumes ok: "engine_ok e" and pw: "pending_ok pw" "pw_ts pw = clock e + 1"
    and mode: "sync_writes e \<or> pw_flush_all pw \<noteq> None"
  shows "engine_ok (e\<lparr>clock := clock e + 1, write_queue := write_queue e @ [pw]\<rparr>)"
proof -
  have q: "queue_ok (visible_ts e) (clock e) (write_queue e)" and v: "visible_ts e \<le> clock e"
    using ok by (auto simp: engine_ok_def)
  have "queue_ok (visible_ts e) (clock e + 1) (write_queue e @ [pw])"
    using q v pw by (fastforce simp: queue_ok_def sorted_wrt_append)
  then show ?thesis using ok pw mode by (auto simp: engine_ok_def core_ok_def hist_def)
qed

text \<open>Registering and releasing snapshots.\<close>

lemma keys_bt_insert: "set (bt_keys (bt_insert k v m)) = insert k (set (bt_keys m))"
  using fst_set_bt_insert [of k v m] by (simp add: bt_keys_def)

lemma keys_bt_remove: "set (bt_keys (bt_remove k m)) \<subseteq> set (bt_keys m)"
  using set_bt_remove [of k m] by (force simp: bt_keys_def)

lemma core_ok_pinned: "core_ok e \<Longrightarrow> s \<in> set (bt_keys (active_snaps e)) \<Longrightarrow> get_at (co_shards e) k s = truth (hist e) k s"
  using pinned_get [of "co_shards e" "hist e" "active_snaps e" s k] by (simp add: core_ok_def)

lemma pin_ok_at: "core_ok e \<Longrightarrow> \<forall>m\<in>set (hist e). m_ts m \<le> s \<Longrightarrow> s \<le> visible_ts e \<Longrightarrow> core_ok (pin s e)"
proof -
  assume ok: "core_ok e" and s: "\<forall>m\<in>set (hist e). m_ts m \<le> s" "s \<le> visible_ts e"
  have "version_at (co_shards e) k s = true_version (hist e) k s" for k
    by (rule version_at_latest [OF ok]) (use s(1) in \<open>auto simp: set_key_hist\<close>)
  moreover have "v_ts v \<le> s" if "v \<in> set (key_hist (hist e) k)" for v k
    using s that by (auto simp: set_key_hist)
  ultimately show ?thesis
    using ok s(2) by (simp add: core_ok_def pin_def pinned_exact_def keys_bt_insert bt_wf_insert hist_def collected_seen_def)
qed

lemma pin_ok: "core_ok e \<Longrightarrow> core_ok (pin (visible_ts e) e)"
  by (rule pin_ok_at) (simp_all add: core_ok_def)

lemma unpin_ok: "core_ok e \<Longrightarrow> core_ok (unpin s e)"
proof (cases "bt_get (active_snaps e) s")
  case (Some c)
  assume ok: "core_ok e"
  have "s \<in> set (bt_keys (active_snaps e))" using Some map_of_SomeD [of "active_snaps e" s] by (force simp: bt_keys_def)
  then show ?thesis
    using ok Some keys_bt_remove [of s "active_snaps e"]
    by (simp add: core_ok_def unpin_def pinned_exact_def keys_bt_insert bt_wf_insert bt_wf_remove hist_def insert_absorb
        collected_seen_def)
      (meson subsetD)
qed (simp add: unpin_def)

lemma pin_unpin_fields [simp]:
  "clock (pin s e) = clock e" "write_queue (pin s e) = write_queue e" "visible_ts (pin s e) = visible_ts e"
  "sync_writes (pin s e) = sync_writes e" "events (pin s e) = events e" "co_shards (pin s e) = co_shards e"
  "clock (unpin s e) = clock e" "write_queue (unpin s e) = write_queue e" "visible_ts (unpin s e) = visible_ts e"
  "sync_writes (unpin s e) = sync_writes e" "events (unpin s e) = events e" "co_shards (unpin s e) = co_shards e"
  by (simp_all add: pin_def unpin_def split: option.split)

text \<open>The direct path commits one write under the apply lock.\<close>

lemma gc_bound_events [simp]: "gc_bound (e\<lparr>events := ev\<rparr>) = gc_bound e"
  by (cases "active_snaps e") (auto simp: gc_bound_def)

lemma sweep_events:
  "sweep_tombstones (e\<lparr>events := ev\<rparr>) = (sweep_tombstones e)\<lparr>events := ev\<rparr>"
  by (simp add: sweep_tombstones_def Let_def split: prod.split)

lemma apply_to_engine_fields [simp]:
  "events (apply_to_engine ms e) = events e" "visible_ts (apply_to_engine ms e) = visible_ts e"
  "clock (apply_to_engine ms e) = clock e" "write_queue (apply_to_engine ms e) = write_queue e"
  "active_snaps (apply_to_engine ms e) = active_snaps e" "sync_writes (apply_to_engine ms e) = sync_writes e"
  "co_wal (apply_to_engine ms e) = co_wal e" "snap_file (apply_to_engine ms e) = snap_file e"
  by (simp_all add: apply_to_engine_def split: prod.split)

lemma wipe_step_sync: "wipe_step io ws e = (e', r) \<Longrightarrow> sync_writes e' = sync_writes e"
  by (auto simp: wipe_step_def perform_flush_all_def split: list.splits prod.splits sum.splits if_splits)

lemma sync_writes_flush: "flush_batch io batch e = (e', acks) \<Longrightarrow> sync_writes e' = sync_writes e"
  by (auto simp: flush_batch_def Let_def publish_def commit_step_def split: prod.splits if_splits
      dest!: wipe_step_sync durable_step_fields(11))

lemma of_key_distinct_sorted: "distinct (map m_key ms) \<Longrightarrow> sorted_wrt (<) (map m_ts (of_key k ms))"
  using distinct_of_key [of ms k] by (cases "of_key k ms") (auto simp: le_Suc_eq)

lemma submit_direct_ok:
  assumes ok: "core_ok e" and v: "visible_ts e \<le> clock e" and c: "client_ok writes op"
    and s: "submit_direct writes reads incr op e = (e', a)"
  shows "core_ok e' \<and> visible_ts e' = clock e + 1 \<and> clock e' = clock e + 1 \<and> write_queue e' = write_queue e
    \<and> sync_writes e' = sync_writes e \<and> active_snaps e' = active_snaps e
    \<and> (\<exists>new. events e' = events e @ map Committed new \<and> (\<forall>m\<in>set new. visible_ts e < m_ts m))"
proof -
  let ?ts = "clock e + 1" and ?e = "e\<lparr>clock := clock e + 1\<rparr>"
  let ?pw = "mk_pending ?ts writes reads incr op None"
  have ok1: "core_ok ?e" using ok by (simp add: core_ok_def hist_def)
  have max: "max (visible_ts e) ?ts = ?ts" using v by simp
  show ?thesis
  proof (cases "resolved_muts ?pw (resolve (co_shards e) ?pw [])")
    case None
    then have "e' = ?e\<lparr>visible_ts := ?ts\<rparr>"
      using s max by (auto simp: submit_direct_def tick_simps Let_def resolved_muts_def split: resolved.splits option.splits)
    then show ?thesis using core_ok_cong [OF ok1] v by (auto intro!: exI [of _ "[]"])
  next
    case (Some ms)
    have ms: "\<forall>m\<in>set ms. m_ts m = ?ts" "distinct (map m_key ms)"
      using resolve_ok [OF mk_pending_ok [OF c] bt_wf_Nil Some] by (auto simp: mk_pending_def)
    define e1 where "e1 = (apply_to_engine ms ?e)\<lparr>visible_ts := ?ts\<rparr>"
    define e2 where "e2 = (if ?ts mod 64 = 0 then sweep_tombstones e1 else e1)"
    have e': "e' = e2\<lparr>events := events e2 @ map Committed ms\<rparr>"
      using s Some max
      by (auto simp: submit_direct_def tick_simps Let_def resolved_muts_def e1_def e2_def
          split: resolved.splits option.splits)
    define e3 where "e3 = (apply_to_engine ms ?e)\<lparr>events := events ?e @ map Committed ms, visible_ts := ?ts\<rparr>"
    have e31: "e3 = e1\<lparr>events := events e @ map Committed ms\<rparr>" by (simp add: e3_def e1_def)
    have "core_ok e3 \<and> hist e3 = hist ?e @ ms"
      by (rule apply_core_ok [OF ok1 of_key_distinct_sorted [OF ms(2)] _ _ e3_def])
        (use ms(1) v in auto)
    then have ok3: "core_ok e3" by simp
    have ev: "events e2 = events e" by (simp add: e2_def e1_def)
    have "e' = (if ?ts mod 64 = 0 then sweep_tombstones e3 else e3)"
      using ev by (simp add: e' e31 e2_def sweep_events)
    then have "core_ok e'" using ok3 sweep_core_ok(1) by simp
    then show ?thesis using ms(1) v by (auto simp: e' e2_def e1_def)
  qed
qed

section \<open>The invariant\<close>

lemma fresh_ok: "engine_ok (fresh_engine d)"
proof -
  have "live_kv_keys empty_shards = 0" by (simp add: live_kv_keys_def empty_shards_def sum_list_replicate)
  then show ?thesis
    by (simp add: engine_ok_def core_ok_def fresh_engine_def empty_shards_wf dead_recorded_def hist_def
        key_tracks_def ends_dead_def pinned_exact_def bt_keys_def queue_ok_def collected_seen_def)
qed

definition extends_hist :: "engine \<Rightarrow> engine \<Rightarrow> bool" where
  "extends_hist e e' \<longleftrightarrow>
     (\<exists>new. hist e' = hist e @ new \<and> (\<forall>m\<in>set new. visible_ts e < m_ts m))
     \<or> hist e' = [] \<and> events e' = events e @ [Flushed]"

lemma extends_refl: "events e' = events e \<Longrightarrow> extends_hist e e'"
  by (auto simp: extends_hist_def hist_def intro: exI [of _ "[]"])

lemma flush_round_ok:
  assumes ok: "engine_ok e" and f: "flush_round io e = (e', acks)"
  shows "engine_ok e' \<and> extends_hist e e' \<and> visible_ts e \<le> visible_ts e' \<and> active_snaps e' = active_snaps e
    \<and> write_queue e' = []"
proof -
  let ?b = "write_queue e" and ?e = "e\<lparr>write_queue := []\<rparr>"
  have c: "core_ok ?e" using ok by (simp add: engine_ok_def core_ok_def hist_def)
  have q: "sorted_wrt (<) (map pw_ts ?b)" "\<forall>pw\<in>set ?b. pending_ok pw"
    "\<forall>pw\<in>set ?b. pw_flush_all pw = None \<longrightarrow> visible_ts ?e < pw_ts pw" "\<forall>pw\<in>set ?b. pw_ts pw \<le> clock e"
    using ok by (auto simp: engine_ok_def queue_ok_def)
  note fb = flush_batch_ok [OF c q(1,2,3) f [unfolded flush_round_def]]
  have "max_ts ?b \<le> clock e" using q(4) by (rule max_ts_le)
  then have "visible_ts e' \<le> clock e" using fb ok by (auto simp: engine_ok_def)
  moreover have "hist ?e = hist e" by (simp add: hist_def)
  moreover have "sync_writes e' = sync_writes e"
    using sync_writes_flush [OF f [unfolded flush_round_def]] by simp
  ultimately have "engine_ok e'" and "extends_hist e e'"
    using fb by (auto simp: engine_ok_def queue_ok_def extends_hist_def)
  then show ?thesis using fb by auto
qed

lemma engine_step_ok:
  assumes "engine_step e e'" and ok: "engine_ok e"
  shows "engine_ok e' \<and> extends_hist e e' \<and> visible_ts e \<le> visible_ts e'"
  using assms(1)
proof (cases rule: engine_step.cases)
  case (durable writes op reads incr)
  then show ?thesis
    using enqueue_ok [OF ok mk_pending_ok, of writes op "clock e + 1" reads incr None]
    by (auto simp: submit_durable_eq mk_pending_def intro!: extends_refl)
next
  case (direct writes op reads incr)
  obtain a where a: "submit_direct writes reads incr op e = (e', a)" using direct(1) by (metis prod.collapse)
  have c: "core_ok e" "visible_ts e \<le> clock e" using ok by (auto simp: engine_ok_def)
  note s = submit_direct_ok [OF c direct(3) a]
  have "queue_ok (clock e + 1) (clock e + 1) (write_queue e)"
    using ok direct(2) by (auto simp: engine_ok_def queue_ok_def)
  then have "engine_ok e'" using s ok direct(2) by (auto simp: engine_ok_def)
  moreover have "extends_hist e e'"
    using s by (auto simp: extends_hist_def hist_def history_append history_committed)
  ultimately show ?thesis using s c by auto
next
  case (flush_all bak)
  have "client_ok [] None" by (simp add: client_ok_def)
  then show ?thesis
    using flush_all enqueue_ok [OF ok mk_pending_ok, of "[]" None "clock e + 1" "[]" None "Some bak"]
    by (auto simp: enqueue_flush_all_eq mk_pending_def intro!: extends_refl)
next
  case (round io)
  then show ?thesis using flush_round_ok [OF ok, of io] by (metis prod.collapse)
next
  case pin
  then show ?thesis using ok pin_ok [of e] by (auto simp: engine_ok_def snapshot_def intro!: extends_refl)
next
  case (unpin s)
  then show ?thesis using ok unpin_ok [of e s] by (auto simp: engine_ok_def intro!: extends_refl)
qed

lemma reachable_ok: "engine_step\<^sup>*\<^sup>* e e' \<Longrightarrow> engine_ok e \<Longrightarrow> engine_ok e'"
  by (induction rule: rtranclp_induct) (auto dest: engine_step_ok)

section \<open>Counting live keys\<close>

lemma shards_sharded: "shards_wf sh \<Longrightarrow> sharded 0 sh"
  unfolding sharded_def shards_wf_def by fastforce

lemma live_kv_concat: "live_kv_keys sh = int (length (filter kv_alive (concat sh)))"
  by (induction sh) (simp_all add: live_kv_keys_def)

lemma live_kv_card:
  assumes wf: "shards_wf sh"
  shows "live_kv_keys sh = int (card {k. starts_with k kv_prefix \<and> latest_of sh k \<noteq> None})"
proof -
  have d: "distinct (map fst (concat sh))" using sharded_distinct [OF shards_sharded [OF wf]] by blast
  have "(k, c) \<in> set (concat sh) \<longleftrightarrow> chain_lookup sh k = Some c" for k c
  proof -
    have "(k, c) \<in> set (concat sh) \<longleftrightarrow> (\<exists>i<SHARD_COUNT. (k, c) \<in> set (sh ! i))"
      using wf by (auto simp: shards_wf_def set_conv_nth [of sh])
    then show ?thesis using in_shard [OF wf] shard_of_less [of k] by blast
  qed
  then have "fst ` set (filter kv_alive (concat sh)) = {k. starts_with k kv_prefix \<and> latest_of sh k \<noteq> None}"
    by (force simp: kv_alive_def latest_of_def split: option.splits simp del: set_concat)
  moreover have "distinct (map fst (filter kv_alive (concat sh)))"
    using d by (simp add: distinct_map_filter)
  ultimately show ?thesis
    unfolding live_kv_concat
    using distinct_card [of "map fst (filter kv_alive (concat sh))"] by (simp del: filter_concat)
qed

section \<open>Claims\<close>

text \<open>
  Claim C8. Every reachable state of the engine represents its committed history: a read
  returns the last committed value of the key, every registered snapshot reads the state as of
  its timestamp, and the key counter is the number of live user keys. Group commits, conflicts,
  increments, operations, failed writes and syncs, sweeps, wipes and snapshots may interleave
  in any order.
\<close>

theorem engine_represents_history:
  assumes "engine_step\<^sup>*\<^sup>* (fresh_engine durable) e"
  shows "get e k = truth (hist e) k (visible_ts e)
    \<and> (\<forall>s\<in>set (bt_keys (active_snaps e)). get_at (co_shards e) k s = truth (hist e) k s)
    \<and> kv_count e = card {k. starts_with k kv_prefix \<and> get e k \<noteq> None}"
proof -
  have ok: "core_ok e" using reachable_ok [OF assms fresh_ok] by (simp add: engine_ok_def)
  have latest: "latest_of (co_shards e) k = get e k" for k
    using get_at_latest [OF ok order_refl, of k] by (simp add: get_def snapshot_def)
  have "kv_live e = int (card {k. starts_with k kv_prefix \<and> latest_of (co_shards e) k \<noteq> None})"
    using ok live_kv_card [of "co_shards e"] unfolding core_ok_def by argo
  then have "kv_count e = card {k. starts_with k kv_prefix \<and> get e k \<noteq> None}"
    by (simp add: kv_count_def latest)
  moreover have "\<forall>s\<in>set (bt_keys (active_snaps e)). get_at (co_shards e) k s = truth (hist e) k s"
    using core_ok_pinned [OF ok] by blast
  ultimately show ?thesis using get_truth [OF ok, of k] by simp
qed

definition io_fine :: flush_io where
  "io_fine = \<lparr>io_write = WriteOk, io_set_len = True, io_sync = True, io_wipe_sync = True,
              io_rename_wal = True, io_rename_snap = True, io_open = True\<rparr>"

theorem engine_represents_history_witness:
  "\<exists>e. e = fst (flush_round io_fine (submit_durable [([107, 118, 58], VInt 7)] [] None None (fresh_engine True)))
    \<and> get e [107, 118, 58] = truth (hist e) [107, 118, 58] (visible_ts e)
    \<and> (\<forall>s\<in>set (bt_keys (active_snaps e)). get_at (co_shards e) [107, 118, 58] s = truth (hist e) [107, 118, 58] s)
    \<and> kv_count e = card {k. starts_with k kv_prefix \<and> get e k \<noteq> None}"
proof -
  have "engine_step (fresh_engine True) (submit_durable [([107, 118, 58], VInt 7)] [] None None (fresh_engine True))"
    by (rule engine_step.durable) (simp_all add: fresh_engine_def client_ok_def)
  then have "engine_step\<^sup>*\<^sup>* (fresh_engine True)
      (fst (flush_round io_fine (submit_durable [([107, 118, 58], VInt 7)] [] None None (fresh_engine True))))"
    by (meson engine_step.round converse_rtranclp_into_rtranclp r_into_rtranclp)
  then show ?thesis using engine_represents_history [of True] by blast
qed

definition wipes :: "engine \<Rightarrow> nat" where
  "wipes e = length (filter (\<lambda>ev. ev = Flushed) (events e))"

definition holding_step :: "nat \<Rightarrow> engine \<Rightarrow> engine \<Rightarrow> bool" where
  "holding_step s e e' \<longleftrightarrow>
     engine_step e e' \<and> s \<in> set (bt_keys (active_snaps e')) \<and> wipes e' = wipes e"

lemma holding_step_truth:
  assumes ok: "engine_ok e" and s: "s \<in> set (bt_keys (active_snaps e))" and st: "holding_step s e e'"
  shows "engine_ok e' \<and> s \<in> set (bt_keys (active_snaps e')) \<and> truth (hist e') k s = truth (hist e) k s"
proof -
  have e': "engine_ok e'" "extends_hist e e'" using engine_step_ok [OF _ ok] st by (auto simp: holding_step_def)
  have "s \<le> visible_ts e" using ok s by (simp add: engine_ok_def core_ok_def)
  moreover have "events e' \<noteq> events e @ [Flushed]" using st by (auto simp: holding_step_def wipes_def)
  ultimately have "truth (hist e') k s = truth (hist e) k s"
    using e'(2) truth_append_new [of _ s "hist e" k] by (fastforce simp: extends_hist_def)
  then show ?thesis using e' st by (simp add: holding_step_def)
qed

lemma holding_run_truth:
  assumes "(holding_step s)\<^sup>*\<^sup>* e e'" and "engine_ok e" and "s \<in> set (bt_keys (active_snaps e))"
  shows "engine_ok e' \<and> s \<in> set (bt_keys (active_snaps e')) \<and> truth (hist e') k s = truth (hist e) k s"
  using assms(1)
proof (induction rule: rtranclp_induct)
  case base
  then show ?case using assms by simp
next
  case (step a b)
  then show ?case using holding_step_truth [of a s b k] by simp
qed

text \<open>
  Claim C9. Snapshot isolation: as long as a snapshot stays registered and no wipe runs, what it
  reads of any key never changes, whatever is committed, pruned or collected meanwhile.
\<close>

theorem snapshot_isolation:
  assumes r: "engine_step\<^sup>*\<^sup>* (fresh_engine durable) e" and s: "s \<in> set (bt_keys (active_snaps e))"
    and run: "(holding_step s)\<^sup>*\<^sup>* e e'"
  shows "get_at (co_shards e') k s = get_at (co_shards e) k s"
proof -
  have ok: "engine_ok e" by (rule reachable_ok [OF r fresh_ok])
  note h = holding_run_truth [OF run ok s, of k]
  show ?thesis using h ok s by (simp add: engine_ok_def core_ok_pinned)
qed

theorem snapshot_isolation_witness:
  "get_at (co_shards (submit_durable [([107], VInt 2)] [] None None (pin 0 (fresh_engine True)))) [107] 0
     = get_at (co_shards (pin 0 (fresh_engine True))) [107] 0"
proof (rule snapshot_isolation)
  let ?e = "pin 0 (fresh_engine True)"
  have "engine_step (fresh_engine True) ?e"
    using engine_step.pin [of "fresh_engine True"] by (simp add: snapshot_def fresh_engine_def)
  then show "engine_step\<^sup>*\<^sup>* (fresh_engine True) ?e" by (rule r_into_rtranclp)
  show "0 \<in> set (bt_keys (active_snaps ?e))" by (simp add: pin_def fresh_engine_def bt_keys_def)
  have "engine_step ?e (submit_durable [([107], VInt 2)] [] None None ?e)"
    by (rule engine_step.durable) (simp_all add: fresh_engine_def pin_def client_ok_def)
  then show "(holding_step 0)\<^sup>*\<^sup>* ?e (submit_durable [([107], VInt 2)] [] None None ?e)"
    by (intro r_into_rtranclp) (simp add: holding_step_def submit_durable_eq pin_def fresh_engine_def bt_keys_def wipes_def)
qed

text \<open>What the commit path sees of a key that was read at a registered snapshot.\<close>

lemma newer_exact:
  assumes ok: "core_ok e" and s: "s \<in> set (bt_keys (active_snaps e))"
  shows "(case chain_lookup (co_shards e) k of None \<Rightarrow> False | Some c \<Rightarrow> latest_ts c > s)
      \<longleftrightarrow> (\<exists>m\<in>set (hist e). m_key m = k \<and> s < m_ts m)"
proof (cases "chain_lookup (co_shards e) k")
  case None
  then have "\<forall>v\<in>set (key_hist (hist e) k). v_ts v \<le> s" using ok s by (auto simp: core_ok_def collected_seen_def)
  then have "\<not> (\<exists>m\<in>set (hist e). m_key m = k \<and> s < m_ts m)" by (force simp: set_key_hist)
  then show ?thesis using None by simp
next
  case (Some c)
  obtain h1 h2 where hh: "key_hist (hist e) k = h1 @ h2" "chain_tracks c h2" "h2 \<noteq> []"
    "last (key_hist (hist e) k) = last h2"
    using core_ok_tracks [OF ok, of k] Some by (auto elim: key_tracksE)
  have lt: "latest_ts c = v_ts (last (key_hist (hist e) k))" using hh tracks_latest [OF hh(2)] by simp
  have "last (key_hist (hist e) k) \<in> set (key_hist (hist e) k)" using hh by simp
  moreover have "\<forall>v\<in>set (key_hist (hist e) k). v_ts v \<le> v_ts (last (key_hist (hist e) k))"
    using ok by (auto simp: core_ok_def intro: sorted_last_ge)
  ultimately have "s < latest_ts c \<longleftrightarrow> (\<exists>v. v \<in> set (key_hist (hist e) k) \<and> s < v_ts v)"
    using lt by (metis less_le_trans)
  also have "\<dots> \<longleftrightarrow> (\<exists>m\<in>set (hist e). m_key m = k \<and> s < m_ts m)" unfolding set_key_hist by force
  finally show ?thesis using Some by simp
qed

lemma unchanged_value:
  assumes ok: "core_ok e" and s: "s \<in> set (bt_keys (active_snaps e))"
    and old: "\<not> (\<exists>m\<in>set (hist e). m_key m = k \<and> s < m_ts m)" and ov: "bt_get ov k = None"
  shows "os_get (os_new (co_shards e) ov) k = truth (hist e) k s"
proof -
  have "os_get (os_new (co_shards e) ov) k = truth (hist e) k (visible_ts e)"
    using latest_of_truth [OF ok order_refl, of k] ov by (simp add: os_get_def os_new_def)
  also have "\<dots> = truth (hist e) k s"
  proof -
    have "\<forall>v\<in>set (key_hist (hist e) k). v_ts v \<le> s" using old by (force simp: set_key_hist)
    moreover have "\<forall>v\<in>set (key_hist (hist e) k). v_ts v \<le> visible_ts e" using ok by (auto simp: core_ok_def set_key_hist)
    ultimately show ?thesis by (simp add: truth_def as_of_all)
  qed
  finally show ?thesis .
qed

lemma resolve_conflict:
  assumes "pw_op pw = None"
  shows "resolve sh pw ov = RConflict \<longleftrightarrow> (\<exists>(k, s)\<in>set (pw_reads pw). bt_get ov k \<noteq> None
        \<or> (case chain_lookup sh k of None \<Rightarrow> False | Some c \<Rightarrow> latest_ts c > s))"
proof -
  have "resolve sh pw ov = RConflict \<longleftrightarrow> list_ex (\<lambda>(k, snap). bt_get ov k \<noteq> None
        \<or> (case chain_lookup sh k of None \<Rightarrow> False | Some c \<Rightarrow> latest_ts c > snap)) (pw_reads pw)"
    by (auto simp: resolve_def assms Let_def split: option.splits sum.splits prod.splits)
  then show ?thesis unfolding list_ex_iff by (simp add: case_prod_beta)
qed

text \<open>
  Claim C10. Conflict detection is exact.  A transaction reads keys at its snapshot \<open>s\<close> in the state
  \<open>e0\<close> and its write is resolved in a later state \<open>e\<close>, the snapshot staying registered and no
  \<open>FLUSHALL\<close> running in between.  The flusher reports a conflict if and only if some key it read was
  written by an earlier commit of the batch or by a commit newer than the snapshot; and when it does
  not, the value of every key at the point of commit is the value the transaction read in \<open>e0\<close>.
\<close>

theorem conflict_detection_exact:
  assumes r: "engine_step\<^sup>*\<^sup>* (fresh_engine durable) e0" and s: "s \<in> set (bt_keys (active_snaps e0))"
    and run: "(holding_step s)\<^sup>*\<^sup>* e0 e" and op: "pw_op pw = None" and reads: "\<forall>(k, s')\<in>set (pw_reads pw). s' = s"
  shows "(resolve (co_shards (sweep_tombstones e)) pw ov = RConflict \<longleftrightarrow>
      (\<exists>(k, s')\<in>set (pw_reads pw). bt_get ov k \<noteq> None \<or> (\<exists>m\<in>set (hist e). m_key m = k \<and> s < m_ts m)))
    \<and> (resolve (co_shards (sweep_tombstones e)) pw ov \<noteq> RConflict \<longrightarrow>
      (\<forall>(k, s')\<in>set (pw_reads pw). os_get (os_new (co_shards (sweep_tombstones e)) ov) k = get_at (co_shards e0) k s))"
proof -
  let ?e = "sweep_tombstones e"
  have eok: "engine_ok e0" by (rule reachable_ok [OF r fresh_ok])
  note h = holding_run_truth [OF run eok s]
  have ok: "core_ok ?e" using sweep_core_ok(1) h by (simp add: engine_ok_def)
  have s': "s \<in> set (bt_keys (active_snaps ?e))" and hist: "hist ?e = hist e" using h by simp_all
  have conf: "resolve (co_shards ?e) pw ov = RConflict \<longleftrightarrow>
      (\<exists>(k, s')\<in>set (pw_reads pw). bt_get ov k \<noteq> None \<or> (\<exists>m\<in>set (hist e). m_key m = k \<and> s < m_ts m))"
    unfolding resolve_conflict [OF op] using reads newer_exact [OF ok s', unfolded hist] by fast
  have "os_get (os_new (co_shards ?e) ov) k = get_at (co_shards e0) k s"
    if n: "resolve (co_shards ?e) pw ov \<noteq> RConflict" and k: "(k, s') \<in> set (pw_reads pw)" for k s'
  proof -
    have "bt_get ov k = None" and old: "\<not> (\<exists>m\<in>set (hist e). m_key m = k \<and> s < m_ts m)" using n k unfolding conf by auto
    then have "os_get (os_new (co_shards ?e) ov) k = truth (hist e) k s" using unchanged_value [OF ok s'] hist by simp
    then show ?thesis using h core_ok_pinned [of e0 s k] eok s by (simp add: engine_ok_def)
  qed
  then show ?thesis using conf by auto
qed

text \<open>A key committed after it was read: the later commit conflicts.\<close>

theorem conflict_detection_exact_witness:
  "resolve (co_shards (sweep_tombstones (submit_durable [([107], VInt 2)] [] None None (pin 0 (fresh_engine True)))))
     (mk_pending 2 [] [([107], 0)] None None None) [([107], VInt 2)] = RConflict"
proof -
  let ?b = "pin 0 (fresh_engine True)" and ?pw = "mk_pending 2 [] [([107], 0)] None None None"
  let ?e = "submit_durable [([107], VInt 2)] [] None None ?b"
  have "engine_step (fresh_engine True) ?b"
    using engine_step.pin [of "fresh_engine True"] by (simp add: snapshot_def fresh_engine_def)
  then have r: "engine_step\<^sup>*\<^sup>* (fresh_engine True) ?b" by (rule r_into_rtranclp)
  have s: "0 \<in> set (bt_keys (active_snaps ?b))" by (simp add: pin_def fresh_engine_def bt_keys_def)
  have "engine_step ?b ?e"
    by (rule engine_step.durable) (simp_all add: fresh_engine_def pin_def client_ok_def)
  moreover have "0 \<in> set (bt_keys (active_snaps ?e))" "wipes ?e = wipes ?b"
    by (simp_all add: submit_durable_eq pin_def fresh_engine_def bt_keys_def wipes_def)
  ultimately have run: "(holding_step 0)\<^sup>*\<^sup>* ?b ?e" unfolding holding_step_def by blast
  have reads: "pw_reads ?pw = [([107], 0)]" "pw_op ?pw = None" by (simp_all add: mk_pending_def)
  then have "\<forall>(k, s')\<in>set (pw_reads ?pw). s' = 0" by simp
  note c = conflict_detection_exact [OF r s run reads(2) this, of "[([107], VInt 2)]", THEN conjunct1]
  show ?thesis unfolding c reads by simp
qed

end
