(* ===== verification/Group_Commit.thy ===== *)
theory Group_Commit
  imports Engine_Safety
begin

text \<open>
  Group commit against its specification: committing the writes of a batch one by one, each
  resolved against the shards after the previous one was applied.  The batch overlay and the
  single append make no difference, for operations that cannot tell \<open>alike\<close> stores apart;
  \<open>Group_Ops\<close> shows that those of the keyspace cannot.
\<close>

section \<open>One-by-one commits\<close>

type_synonym apply_state = "shards \<times> int \<times> (key \<times> nat) list"

fun commit_each :: "nat list \<Rightarrow> pending list \<Rightarrow> apply_state \<Rightarrow> resolved list \<times> apply_state" where
  "commit_each act [] st = ([], st)"
| "commit_each act (pw # batch) st =
     (let r = resolve (fst st) pw [];
          st' = (case resolved_muts pw r of None \<Rightarrow> st | Some ms \<Rightarrow> apply_muts act ms st)
      in case commit_each act batch st' of (rs, st'') \<Rightarrow> (r # rs, st''))"

text \<open>
  Two stores of an operation are alike up to \<open>vis\<close> when they buffer the same writes and what is
  under these writes gives the same point reads and the same answers to whether a key is newer
  than a snapshot not above \<open>vis\<close>.
\<close>

definition os_base :: "op_store \<Rightarrow> op_store" where
  "os_base st = os_new (os_shards st) (os_overlay st)"

definition alike :: "nat \<Rightarrow> op_store \<Rightarrow> op_store \<Rightarrow> bool" where
  "alike vis s t \<longleftrightarrow>
     os_wf s \<and> shards_wf (os_shards s) \<and> os_wf t \<and> shards_wf (os_shards t)
     \<and> os_writes s = os_writes t \<and> os_undo s = os_undo t \<and> os_savepoints s = os_savepoints t
     \<and> (\<forall>k. os_get (os_base s) k = os_get (os_base t) k)
     \<and> (\<forall>k n. n \<le> vis \<longrightarrow> (n < os_version (os_base s) k) = (n < os_version (os_base t) k))"

definition op_respects :: "nat \<Rightarrow> (op_store \<Rightarrow> op_store) \<Rightarrow> bool" where
  "op_respects vis f \<longleftrightarrow> (\<forall>s t. alike vis s t \<longrightarrow> os_writes (f s) = os_writes (f t))"

definition pending_seq_ok :: "nat \<Rightarrow> pending \<Rightarrow> bool" where
  "pending_seq_ok vis pw \<longleftrightarrow> pending_ok pw \<and> pw_flush_all pw = None \<and> vis < pw_ts pw
     \<and> (\<forall>(k, s)\<in>set (pw_reads pw). s \<le> vis)
     \<and> (\<forall>f. pw_op pw = Some f \<longrightarrow> op_respects vis f)"

section \<open>The overlay stands for the applied state\<close>

lemma pushed_append: "pushed a (P @ ms) f k = pushed a ms (pushed a P f) k"
  by (auto simp: pushed_def push_all_def)

lemma overlay_get: "bt_get (overlay_add ms ov) k = (if of_key k ms = [] then bt_get ov k else Some (m_value (last (of_key k ms))))"
proof (induction ms arbitrary: ov)
  case (Cons m ms)
  then show ?case by (auto simp: overlay_add_def bt_get_insert)
qed (simp add: overlay_add_def)

text \<open>\<open>P\<close> are the mutations of the batch so far: newer than the state, each key's in order.\<close>

definition overlay_follows :: "nat \<Rightarrow> shards \<Rightarrow> mutation list \<Rightarrow> bool" where
  "overlay_follows vis sh P \<longleftrightarrow> shards_wf sh \<and> (\<forall>k c. chain_lookup sh k = Some c \<longrightarrow> latest_ts c \<le> vis)
     \<and> (\<forall>m\<in>set P. vis < m_ts m) \<and> (\<forall>k. sorted_wrt (<) (map m_ts (of_key k P)))"

lemma push_all_latest:
  "chain_wf c \<Longrightarrow> sorted_wrt (<) (map m_ts ms) \<Longrightarrow> \<forall>m\<in>set ms. latest_ts c < m_ts m \<Longrightarrow> ms \<noteq> [] \<Longrightarrow>
   chain_latest (push_all a ms c) = live (m_value (last ms)) \<and> latest_ts (push_all a ms c) = m_ts (last ms)"
proof (induction ms arbitrary: c)
  case (Cons m ms)
  let ?c = "chain_push (m_ts m) (m_value m) a c"
  have l: "latest_ts ?c = m_ts m" using Cons.prems by (simp add: chain_push_versions(3))
  show ?case
  proof (cases "ms = []")
    case True
    then show ?thesis using l Cons.prems push_latest [of c "m_ts m" "m_value m" a] by simp
  next
    case False
    then show ?thesis
      using Cons.IH [of ?c] Cons.prems l push_wf [of c "m_ts m" "m_value m" a] by auto
  qed
qed simp

lemma follows_latest:
  assumes f: "overlay_follows vis sh P" and l: "\<And>k. chain_lookup sh' k = pushed a P (chain_lookup sh) k"
    and k: "of_key k P \<noteq> []"
  shows "\<exists>c. chain_lookup sh' k = Some c \<and> chain_latest c = live (m_value (last (of_key k P))) \<and> vis < latest_ts c"
proof -
  let ?c = "case chain_lookup sh k of None \<Rightarrow> chain_default | Some c \<Rightarrow> c"
  have new: "\<forall>m\<in>set (of_key k P). vis < m_ts m" using f by (auto simp: overlay_follows_def of_key_def)
  have "chain_wf ?c \<and> latest_ts ?c \<le> vis"
    using f lookup_wf [of sh k] chain_default_wf
    by (auto simp: overlay_follows_def chain_default_def split: option.split)
  then have "chain_latest (push_all a (of_key k P) ?c) = live (m_value (last (of_key k P)))
      \<and> latest_ts (push_all a (of_key k P) ?c) = m_ts (last (of_key k P))"
    using f new k by (intro push_all_latest) (auto simp: overlay_follows_def)
  then show ?thesis using l [of k] k new by (simp add: pushed_def)
qed

lemma resolve_overlay:
  assumes f: "overlay_follows vis sh P" and l: "\<And>k. chain_lookup sh' k = pushed a P (chain_lookup sh) k"
    and ov: "ov = overlay_add P []" and pw: "pending_seq_ok vis pw" and wf': "shards_wf sh'" and vis: "vis < u64_max"
  shows "resolve sh pw ov = resolve sh' pw []"
proof -
  have get: "bt_get ov k = (if of_key k P = [] then None else Some (m_value (last (of_key k P))))" for k
    by (simp add: ov overlay_get)
  have latest: "latest_of sh' k = (case bt_get ov k of Some v \<Rightarrow> live v | None \<Rightarrow> latest_of sh k)" for k
  proof (cases "of_key k P = []")
    case True
    then show ?thesis using l [of k] by (simp add: get latest_of_def pushed_def)
  next
    case False
    then show ?thesis using follows_latest [OF f l False] by (auto simp: get latest_of_def)
  qed
  have newer: "(bt_get ov k \<noteq> None \<or> (case chain_lookup sh k of None \<Rightarrow> False | Some c \<Rightarrow> latest_ts c > s))
      \<longleftrightarrow> (case chain_lookup sh' k of None \<Rightarrow> False | Some c \<Rightarrow> latest_ts c > s)" if "s \<le> vis" for k s
  proof (cases "of_key k P = []")
    case True
    then show ?thesis using l [of k] by (simp add: get pushed_def)
  next
    case False
    then show ?thesis using follows_latest [OF f l False] that by (auto simp: get)
  qed
  have reads: "list_ex (\<lambda>(k, snap). bt_get ov k \<noteq> None
        \<or> (case chain_lookup sh k of None \<Rightarrow> False | Some c \<Rightarrow> latest_ts c > snap)) (pw_reads pw)
    \<longleftrightarrow> list_ex (\<lambda>(k, snap). (case chain_lookup sh' k of None \<Rightarrow> False | Some c \<Rightarrow> latest_ts c > snap)) (pw_reads pw)"
    unfolding list_ex_iff using pw newer by (fastforce simp: pending_seq_ok_def)
  have counter: "(case bt_get ov k of Some v \<Rightarrow> as_counter (Some v) | None \<Rightarrow> as_counter (latest_of sh k))
      = as_counter (latest_of sh' k)" for k
    by (simp add: latest live_def as_counter_def split: option.split)
  have "os_get (os_new sh ov) k = os_get (os_new sh' []) k" for k
    by (simp add: os_get_def os_new_def latest split: option.split)
  moreover have "(n < os_version (os_new sh ov) k) = (n < os_version (os_new sh' []) k)" if "n \<le> vis" for n k
    using newer [OF that, of k] that vis
    by (auto simp: os_version_def os_new_def key_version_def split: option.splits)
  moreover have "bt_wf ov" by (simp add: ov overlay_add_wf)
  ultimately have view: "alike vis (os_new sh ov) (os_new sh' [])"
    using f wf' by (simp add: alike_def overlay_follows_def os_wf_def os_base_def) (simp add: os_new_def)
  show ?thesis
  proof (cases "pw_op pw")
    case (Some op)
    then have "os_writes (op (os_new sh ov)) = os_writes (op (os_new sh' []))"
      using pw view unfolding pending_seq_ok_def op_respects_def by blast
    then show ?thesis by (simp add: resolve_def Some Let_def)
  next
    case None
    show ?thesis
    proof (cases "pw_incr pw")
      case None
      then show ?thesis using reads \<open>pw_op pw = None\<close> by (simp add: resolve_def)
    next
      case (Some kb)
      then show ?thesis using reads counter [of "fst kb"] \<open>pw_op pw = None\<close>
        by (simp add: resolve_def Let_def case_prod_beta)
    qed
  qed
qed

lemma resolve_blind: "\<not> wants_overlay pw \<Longrightarrow> resolve sh pw ov = RApply None None"
  by (cases "pw_incr pw") (auto simp: wants_overlay_def resolve_def)

lemma commit_each_batch:
  assumes "overlay_follows vis sh P" and "sorted_wrt (<) (map pw_ts batch)" and "\<forall>pw\<in>set batch. pending_seq_ok vis pw"
    and "\<forall>pw\<in>set batch. \<forall>m\<in>set P. m_ts m < pw_ts pw"
    and "shards_wf (fst st)" and "\<And>k. chain_lookup (fst st) k = pushed a P (chain_lookup sh) k"
    and "need \<or> (\<forall>pw\<in>set batch. \<not> wants_overlay pw)"
    and "ov = (if need then overlay_add P [] else [])" and "vis < u64_max"
  shows "resolve_all sh need batch ov = map Some (fst (commit_each a batch st))
    \<and> (\<forall>k. chain_lookup (fst (snd (commit_each a batch st))) k
         = pushed a (P @ concat (batch_muts batch (resolve_all sh need batch ov))) (chain_lookup sh) k)"
  using assms
proof (induction batch arbitrary: P st ov)
  case Nil
  then show ?case by simp
next
  case (Cons pw batch)
  have pw: "pending_seq_ok vis pw" using Cons.prems(3) by simp
  have r: "resolve sh pw ov = resolve (fst st) pw []"
  proof (cases need)
    case True
    then show ?thesis
      using resolve_overlay [OF Cons.prems(1,6) _ pw Cons.prems(5,9)] Cons.prems(8) by simp
  next
    case False
    then show ?thesis using Cons.prems(7) by (simp add: resolve_blind)
  qed
  define ms where "ms = (case resolved_muts pw (resolve sh pw ov) of None \<Rightarrow> [] | Some m \<Rightarrow> m)"
  define st' where "st' = (case resolved_muts pw (resolve sh pw ov) of None \<Rightarrow> st | Some ms \<Rightarrow> apply_muts a ms st)"
  define ov' where "ov' = (if need then overlay_add (P @ ms) [] else [])"
  have ovwf: "bt_wf ov" using Cons.prems(8) by (simp add: overlay_add_wf)
  have ms: "\<forall>m\<in>set ms. m_ts m = pw_ts pw" "distinct (map m_key ms)"
    using resolve_ok [of pw ov sh] pw ovwf
    by (cases "resolved_muts pw (resolve sh pw ov)"; simp add: ms_def pending_seq_ok_def)+
  have f': "overlay_follows vis sh (P @ ms)"
  proof -
    have "sorted_wrt (<) (map m_ts (of_key k (P @ ms)))" for k
    proof -
      have "\<forall>x\<in>set (of_key k P). \<forall>y\<in>set (of_key k ms). m_ts x < m_ts y"
        using Cons.prems(4) ms(1) by (auto simp: of_key_def)
      then show ?thesis
        using Cons.prems(1) of_key_distinct_sorted [OF ms(2), of k]
        by (simp add: overlay_follows_def sorted_wrt_append)
    qed
    then show ?thesis using Cons.prems(1) ms(1) pw by (auto simp: overlay_follows_def pending_seq_ok_def)
  qed
  have st': "shards_wf (fst st') \<and> (\<forall>k. chain_lookup (fst st') k = pushed a (P @ ms) (chain_lookup sh) k)"
  proof (cases "resolved_muts pw (resolve sh pw ov)")
    case None
    then show ?thesis using Cons.prems(5,6) by (simp add: st'_def ms_def)
  next
    case (Some m)
    obtain s kv gy s' kv' gy' where t: "st = (s, kv, gy)" "apply_muts a m st = (s', kv', gy')"
      by (metis prod_cases3)
    have "shards_wf s'" "chain_lookup s' k = pushed a m (chain_lookup s) k" for k
      using apply_muts_ok [of s a m kv gy s' kv' gy'] Cons.prems(5) t by auto
    moreover have "chain_lookup s = pushed a P (chain_lookup sh)"
      using Cons.prems(6) t by (simp add: fun_eq_iff)
    ultimately show ?thesis
      using Some t by (simp add: st'_def ms_def pushed_append)
  qed
  have ts: "\<forall>pw'\<in>set batch. \<forall>m\<in>set (P @ ms). m_ts m < pw_ts pw'"
    using Cons.prems(2,4) ms(1) by auto
  have IH: "resolve_all sh need batch ov' = map Some (fst (commit_each a batch st'))
    \<and> (\<forall>k. chain_lookup (fst (snd (commit_each a batch st'))) k
         = pushed a ((P @ ms) @ concat (batch_muts batch (resolve_all sh need batch ov'))) (chain_lookup sh) k)"
    by (rule Cons.IH [OF f' _ _ ts]) (use Cons.prems st' in \<open>auto simp: ov'_def\<close>)
  have ovn: "(if need then (case resolved_muts pw (resolve sh pw ov) of None \<Rightarrow> ov | Some m \<Rightarrow> overlay_add m ov) else ov) = ov'"
    using Cons.prems(8) by (auto simp: ov'_def ms_def overlay_add_def split: option.split)
  have ra: "resolve_all sh need (pw # batch) ov = Some (resolve sh pw ov) # resolve_all sh need batch ov'"
    using pw ovn by (simp add: Let_def pending_seq_ok_def)
  have ce: "commit_each a (pw # batch) st = (resolve sh pw ov # fst (commit_each a batch st'), snd (commit_each a batch st'))"
    by (simp add: Let_def r [symmetric] st'_def split: prod.split)
  have bm: "concat (batch_muts (pw # batch) (resolve_all sh need (pw # batch) ov))
      = ms @ concat (batch_muts batch (resolve_all sh need batch ov'))"
    unfolding ra by (simp add: batch_muts_Cons ms_def split: option.split)
  show ?case using IH unfolding ce bm by (simp add: ra del: resolve_all.simps commit_each.simps)
qed

section \<open>A round\<close>

lemma ack_io_free:
  assumes "\<forall>a\<in>set (map (ack_of fl we) outs). \<forall>err. a \<noteq> AckIo err" and "outs \<noteq> []"
  shows "fl = Inr () \<and> we = None"
proof -
  obtain out outs' where "outs = out # outs'" using assms(2) by (cases outs) auto
  then have "\<forall>err. ack_of fl we out \<noteq> AckIo err" using assms(1) by simp
  then show ?thesis by (cases fl; cases we) (auto simp: ack_of_def)
qed

lemma sweep_write_queue:
  "co_shards (sweep_tombstones (e\<lparr>write_queue := q\<rparr>)) = co_shards (sweep_tombstones e)"
proof -
  have "gc_bound (e\<lparr>write_queue := q\<rparr>) = gc_bound e"
    by (cases "active_snaps e") (auto simp: gc_bound_def)
  then show ?thesis by (simp add: sweep_tombstones_def Let_def split: prod.split)
qed

lemma core_follows: "core_ok e \<Longrightarrow> overlay_follows (visible_ts e) (co_shards e) []"
  using lookup_latest_ts [of e] by (simp add: overlay_follows_def core_ok_def)

text \<open>When nothing fails and no wipe is queued, every write is acknowledged with its own outcome.\<close>

lemma flush_round_fine:
  assumes "\<not> poisoned (co_wal e)" and "\<forall>pw\<in>set (write_queue e). pw_flush_all pw = None"
    and "outs = resolve_all (co_shards (sweep_tombstones e)) (list_ex wants_overlay (write_queue e)) (write_queue e) []"
    and "payloads_ok (map commit_frame (filter (\<lambda>m. m \<noteq> []) (batch_muts (write_queue e) outs)))"
    and "flush_round io_fine e = (e', acks)"
  shows "acks = map (ack_of (Inr ()) None) outs"
proof -
  define e1 where "e1 = sweep_tombstones (e\<lparr>write_queue := []\<rparr>)"
  define frames where "frames = map commit_frame (filter (\<lambda>m. m \<noteq> []) (batch_muts (write_queue e) outs))"
  obtain e2 fl where d: "durable_step io_fine frames (max_ts (write_queue e)) e1 = (e2, fl)" by fastforce
  have "\<not> poisoned (co_wal e1)" using assms(1) by (simp add: e1_def)
  then have "fl = Inr ()"
    using d assms(4) by (auto simp: durable_step_def io_fine_def append_frames_def frames_buf_log sync_def
        frames_def [symmetric] split: if_splits)
  moreover have "List.map_filter pw_flush_all (write_queue e) = []"
    using assms(2) wipes_empty [of "write_queue e"] by simp
  moreover have "resolve_all (co_shards e1) (list_ex wants_overlay (write_queue e)) (write_queue e) [] = outs"
    using assms(3) by (simp add: e1_def sweep_write_queue)
  ultimately show ?thesis
    using assms(5) d unfolding flush_round_def flush_batch_def Let_def e1_def [symmetric] frames_def
    by (simp add: wipe_step_def)
qed

text \<open>For any operations that cannot tell alike stores apart.\<close>

lemma group_commit_respects:
  assumes r: "engine_step\<^sup>*\<^sup>* (fresh_engine durable) e" and vis: "visible_ts e < u64_max"
    and q: "\<forall>pw\<in>set (write_queue e). pending_seq_ok (visible_ts e) pw"
    and f: "flush_round io e = (e', acks)" and ok: "\<forall>a\<in>set acks. \<forall>err. a \<noteq> AckIo err"
    and each: "commit_each (bt_keys (active_snaps e)) (write_queue e)
                 (co_shards (sweep_tombstones e), kv_live e, graveyard (sweep_tombstones e)) = (rs, (sh, kv, gy))"
  shows "acks = map (\<lambda>r. ack_of (Inr ()) None (Some r)) rs
    \<and> (\<forall>k. chain_lookup (co_shards e') k = chain_lookup sh k)"
proof -
  let ?b = "write_queue e" and ?e = "e\<lparr>write_queue := []\<rparr>"
  have eok: "engine_ok e" by (rule reachable_ok [OF r fresh_ok])
  define e1 where "e1 = sweep_tombstones ?e"
  have sw: "co_shards e1 = co_shards (sweep_tombstones e)"
    by (simp add: e1_def sweep_write_queue)
  have ok1: "core_ok e1" unfolding e1_def
    by (rule sweep_core_ok(1)) (use eok in \<open>simp add: engine_ok_def core_ok_def hist_def\<close>)
  have v1: "visible_ts e1 = visible_ts e" "active_snaps e1 = active_snaps e" by (simp_all add: e1_def)
  define outs where "outs = resolve_all (co_shards e1) (list_ex wants_overlay ?b) ?b []"
  have srt: "sorted_wrt (<) (map pw_ts ?b)" using eok by (simp add: engine_ok_def queue_ok_def)
  have wf1: "shards_wf (co_shards e1)" using ok1 by (simp add: core_ok_def)
  have fol: "overlay_follows (visible_ts e) (co_shards e1) []" using core_follows [OF ok1] v1 by simp
  have cb: "outs = map Some (fst (commit_each (bt_keys (active_snaps e)) ?b (co_shards e1, kv_live e, graveyard (sweep_tombstones e))))
    \<and> (\<forall>k. chain_lookup (fst (snd (commit_each (bt_keys (active_snaps e)) ?b (co_shards e1, kv_live e, graveyard (sweep_tombstones e))))) k
         = pushed (bt_keys (active_snaps e)) ([] @ concat (batch_muts ?b outs)) (chain_lookup (co_shards e1)) k)"
    unfolding outs_def
    by (rule commit_each_batch [OF fol srt q])
      (use wf1 vis in \<open>auto simp: pushed_def list_ex_iff overlay_add_def\<close>)
  have outs: "outs = map Some rs" and shk: "\<And>k. chain_lookup sh k
      = pushed (bt_keys (active_snaps e)) (concat (batch_muts ?b outs)) (chain_lookup (co_shards e1)) k"
    using cb each by (simp_all add: sw)
  define muts where "muts = batch_muts ?b outs"
  obtain e2 fl where d: "durable_step io (map commit_frame (filter (\<lambda>m. m \<noteq> []) muts)) (max_ts ?b) e1 = (e2, fl)"
    by fastforce
  have nw: "List.map_filter pw_flush_all ?b = []"
    using q wipes_empty [of ?b] by (simp add: pending_seq_ok_def)
  have acks: "acks = map (ack_of fl None) outs"
    and e': "e' = publish ?b (if fl = Inr () then commit_step (concat muts) e2 else e2)"
    using f unfolding flush_round_def flush_batch_def Let_def e1_def [symmetric] outs_def [symmetric] muts_def [symmetric]
    by (simp_all add: d nw wipe_step_def)
  have fl: "fl = Inr ()"
  proof (cases "outs = []")
    case True
    then have "muts = []" by (simp add: muts_def batch_muts_def List.map_filter_simps)
    then show ?thesis using d by (simp add: durable_step_def)
  next
    case False
    then show ?thesis using ack_io_free ok acks by blast
  qed
  obtain s' kv' gy' where am: "apply_muts (bt_keys (active_snaps e2)) (concat muts) (co_shards e2, kv_live e2, graveyard e2) = (s', kv', gy')"
    by (metis prod_cases3)
  note df = durable_step_fields [OF d]
  have "co_shards e' = s'"
    by (simp add: e' fl publish_def commit_step_def apply_to_engine_def am)
  moreover have "chain_lookup s' k = pushed (bt_keys (active_snaps e)) (concat muts) (chain_lookup (co_shards e1)) k" for k
    using apply_muts_ok(2) [OF _ am] wf1 df v1 by simp
  ultimately show ?thesis using acks outs fl shk by (simp add: muts_def)
qed

end
