(* ===== verification/Engine_Reads.thy ===== *)
theory Engine_Reads
  imports Group_Commit
begin

text \<open>
  Point-in-time reads, counters, tombstone collection and the full wipe of the engine: when the
  checked read is exact and two situations where it is not, running sums of increments, what a
  sweep reclaims, conflict checks against snapshots that were not registered, and what a wipe
  does to commits of its own batch.
\<close>

section \<open>The rounds of a concrete run\<close>

definition small_mut :: "mutation \<Rightarrow> bool" where
  "small_mut m \<longleftrightarrow> 1 + length (mutation_encode m) \<le> MAX_FRAME"

text \<open>Queueing one write on an idle engine and running one round of the flusher.\<close>

definition put_round :: "key \<Rightarrow> val \<Rightarrow> engine \<Rightarrow> engine" where
  "put_round k v e = fst (flush_round io_fine (submit_durable [(k, v)] [] None None e))"

lemma put_round_eval:
  assumes q: "write_queue e = []" and w: "\<not> poisoned (co_wal e)"
    and m: "m = \<lparr>m_key = k, m_value = v, m_ts = clock e + 1\<rparr>" and small: "small_mut m"
  shows "write_queue (put_round k v e) = [] \<and> \<not> poisoned (co_wal (put_round k v e))
    \<and> clock (put_round k v e) = clock e + 1
    \<and> visible_ts (put_round k v e) = max (visible_ts e) (clock e + 1)
    \<and> active_snaps (put_round k v e) = active_snaps e
    \<and> gc_horizon (put_round k v e) = gc_horizon (sweep_tombstones e)
    \<and> events (put_round k v e) = events e @ [Committed m]
    \<and> (co_shards (put_round k v e), kv_live (put_round k v e), graveyard (put_round k v e))
        = apply_muts (bt_keys (active_snaps e)) [m]
            (co_shards (sweep_tombstones e), kv_live e, graveyard (sweep_tombstones e))"
proof -
  define e0 where "e0 = (submit_durable [(k, v)] [] None None e)\<lparr>write_queue := []\<rparr>"
  define e1 where "e1 = sweep_tombstones e0"
  let ?pw = "mk_pending (clock e + 1) [(k, v)] [] None None None"
  have e0: "e0 = e\<lparr>clock := clock e + 1\<rparr>" by (simp add: e0_def submit_durable_eq q)
  have "gc_bound e0 = gc_bound e" by (cases "active_snaps e") (auto simp: gc_bound_def e0)
  then have s1: "co_shards e1 = co_shards (sweep_tombstones e)" "graveyard e1 = graveyard (sweep_tombstones e)"
    "gc_horizon e1 = gc_horizon (sweep_tombstones e)"
    by (simp_all add: e1_def sweep_tombstones_def Let_def e0 split: prod.split)
  have outs: "resolve_all (co_shards e1) n [?pw] [] = [Some (RApply None None)]" for n
    by (simp add: Let_def resolve_def mk_pending_def)
  have muts: "batch_muts [?pw] [Some (RApply None None)] = [[m]]"
    by (simp add: batch_muts_Cons resolved_muts_def mk_pending_def m)
  have cf: "commit_frame [m] = encode_single_record m" by (simp add: commit_frame_def)
  obtain w2 where w2: "append_frames WriteOk True [encode_single_record m] (co_wal e1) = (w2, Inr ())" "\<not> poisoned w2"
    using w small by (auto simp: append_frames_def frames_buf_log e1_def e0 small_mut_def encode_single_record_def)
  have d: "durable_step io_fine [encode_single_record m] (max_ts [?pw]) e1
      = (e1\<lparr>co_wal := w2, last_appended := max (last_appended e1) (max_ts [?pw])\<rparr>, Inr ())"
    using w2 by (simp add: durable_step_def io_fine_def sync_def)
  have mx: "max_ts [?pw] = clock e + 1" by (simp add: max_ts_def mk_pending_def)
  have wp: "List.map_filter pw_flush_all [?pw] = []" by (simp add: List.map_filter_simps mk_pending_def)
  have "flush_round io_fine (submit_durable [(k, v)] [] None None e) = flush_batch io_fine [?pw] e0"
    by (simp add: flush_round_def e0_def submit_durable_eq q)
  also have "fst \<dots> = publish [?pw] (commit_step [m] (e1\<lparr>co_wal := w2, last_appended := max (last_appended e1) (clock e + 1)\<rparr>))"
    using d unfolding flush_batch_def Let_def e1_def [symmetric] outs muts wp mx
    by (simp add: cf wipe_step_def)
  finally have "put_round k v e = publish [?pw] (commit_step [m] (e1\<lparr>co_wal := w2, last_appended := max (last_appended e1) (clock e + 1)\<rparr>))"
    by (simp add: put_round_def)
  then show ?thesis
    using w2(2)
    by (simp add: publish_def commit_step_def mx apply_to_engine_def s1 split: prod.split)
      (simp add: e1_def e0 q max_ts_def mk_pending_def)
qed

lemma put_round_steps:
  assumes "sync_writes e"
  shows "engine_step\<^sup>*\<^sup>* e (put_round k v e)"
proof -
  have "engine_step e (submit_durable [(k, v)] [] None None e)"
    by (rule engine_step.durable) (simp_all add: assms client_ok_def)
  then show ?thesis
    unfolding put_round_def by (meson engine_step.round converse_rtranclp_into_rtranclp r_into_rtranclp)
qed

lemma put_round_sync: "sync_writes (put_round k v e) = sync_writes e"
proof -
  obtain e' acks where f: "flush_round io_fine (submit_durable [(k, v)] [] None None e) = (e', acks)" by fastforce
  then have "sync_writes e' = sync_writes (submit_durable [(k, v)] [] None None e)"
    using sync_writes_flush [OF f [unfolded flush_round_def]] by simp
  then show ?thesis using f by (simp add: put_round_def submit_durable_eq)
qed

text \<open>What such a round does to the chain of a key.\<close>

lemma put_round_lookup:
  assumes ok: "engine_ok e" and q: "write_queue e = []" and w: "\<not> poisoned (co_wal e)"
    and small: "small_mut \<lparr>m_key = k, m_value = v, m_ts = clock e + 1\<rparr>"
  shows "chain_lookup (co_shards (put_round k v e)) x =
     pushed (bt_keys (active_snaps e)) [\<lparr>m_key = k, m_value = v, m_ts = clock e + 1\<rparr>]
       (chain_lookup (co_shards (sweep_tombstones e))) x"
proof -
  have "core_ok (sweep_tombstones e)" using ok sweep_core_ok(1) by (simp add: engine_ok_def)
  then have wf: "shards_wf (co_shards (sweep_tombstones e))" by (simp add: core_ok_def)
  have "apply_muts (bt_keys (active_snaps e)) [\<lparr>m_key = k, m_value = v, m_ts = clock e + 1\<rparr>]
      (co_shards (sweep_tombstones e), kv_live e, graveyard (sweep_tombstones e))
    = (co_shards (put_round k v e), kv_live (put_round k v e), graveyard (put_round k v e))"
    using put_round_eval [OF q w refl small] by simp
  then show ?thesis using apply_muts_ok(2) [OF wf] by simp
qed

text \<open>A collected key, and what a sweep leaves.\<close>

lemma sweep_lookup_dead:
  assumes ok: "core_ok e" and c: "chain_lookup (co_shards e) k = Some c" "chain_latest c = None"
    and act: "active_snaps e = []"
  shows "chain_lookup (co_shards (sweep_tombstones e)) k = None \<and> latest_ts c \<le> gc_horizon (sweep_tombstones e)"
proof -
  have ok1: "core_ok (sweep_tombstones e)" by (rule sweep_core_ok(1) [OF ok])
  have b: "gc_bound e = visible_ts e" by (simp add: gc_bound_def act)
  have none: "chain_lookup (co_shards (sweep_tombstones e)) k = None"
  proof (cases "chain_lookup (co_shards (sweep_tombstones e)) k")
    case (Some c')
    have "latest_of (co_shards (sweep_tombstones e)) k = None"
      using sweep_core_ok(3) [OF ok, of k] c by (simp add: latest_of_def)
    then have "visible_ts e < latest_ts c'"
      using sweep_core_ok(2) [OF ok] Some b by (simp add: latest_of_def)
    moreover have "latest_ts c' \<le> visible_ts e" using lookup_latest_ts [OF ok1 Some] by simp
    ultimately show ?thesis by simp
  qed
  obtain h1 h2 where h: "key_hist (hist e) k = h1 @ h2" "chain_tracks c h2" "h2 \<noteq> []"
    "last (key_hist (hist e) k) = last h2"
    using core_ok_tracks [OF ok, of k] c(1) by (auto elim: key_tracksE)
  have "ends_dead (gc_horizon (sweep_tombstones e)) (key_hist (hist e) k)"
    using core_ok_tracks [OF ok1, of k] none by (simp add: key_tracks_def)
  then have "latest_ts c \<le> gc_horizon (sweep_tombstones e)"
    using h tracks_latest [OF h(2)] by (simp add: ends_dead_def)
  then show ?thesis using none by simp
qed

section \<open>Claims\<close>

lemma truth_split:
  assumes "key_hist h k = h1 @ h2" and "ends_dead hz h1" and "sorted_wrt (<) (map v_ts (key_hist h k))" and "hz \<le> s"
  shows "truth h k s = (case as_of s h2 of None \<Rightarrow> None | Some v \<Rightarrow> live (v_value v))"
proof (cases "as_of s h2")
  case None
  have "as_of s h1 = None \<or> (\<exists>v. as_of s h1 = Some v \<and> v_value v = VTombstone)"
  proof (cases "h1 = []")
    case False
    then have l: "v_value (last h1) = VTombstone" "v_ts (last h1) \<le> hz" using assms(2) by (auto simp: ends_dead_def)
    have "sorted_wrt (<) (map v_ts h1)" using assms(1,3) by (simp add: sorted_wrt_append)
    then have "\<forall>v\<in>set h1. v_ts v \<le> s" using sorted_last_ge [of h1] l(2) assms(4) by fastforce
    then show ?thesis using False l(1) by (simp add: as_of_all)
  qed simp
  then show ?thesis using None assms(1) by (auto simp: truth_def as_of_append)
next
  case (Some v)
  then show ?thesis using assms(1) by (simp add: truth_def as_of_append)
qed

text \<open>
  A checked point-in-time read answers exactly what the key's value was at the
  snapshot, whenever the snapshot is not older than the newest collected tombstone and the chain
  was never pruned or retains some version newer than everything pruned and old enough.
\<close>

theorem checked_read_exact:
  assumes r: "engine_step\<^sup>*\<^sup>* (fresh_engine durable) e" and gc: "gc_horizon e \<le> s"
    and kept: "\<And>c. chain_lookup (co_shards e) k = Some c \<Longrightarrow>
      pruned_ts c = 0 \<or> (\<exists>v\<in>set (versions c). pruned_ts c < v_ts v \<and> v_ts v \<le> s)"
  shows "get_at_checked (gc_horizon e) (co_shards e) k s = Inr (truth (hist e) k s)"
proof -
  have ok: "core_ok e" using reachable_ok [OF r fresh_ok] by (simp add: engine_ok_def)
  have srt: "sorted_wrt (<) (map v_ts (key_hist (hist e) k))" using ok by (simp add: core_ok_def)
  show ?thesis
  proof (cases "chain_lookup (co_shards e) k")
    case None
    then have "ends_dead (gc_horizon e) (key_hist (hist e) k)"
      using core_ok_tracks [OF ok, of k] by (simp add: key_tracks_def)
    then have "truth (hist e) k s = None" using truth_split [of "hist e" k _ "[]"] srt gc by simp
    then show ?thesis using None gc by (simp add: get_at_checked_def)
  next
    case (Some c)
    obtain h1 h2 where h: "key_hist (hist e) k = h1 @ h2" "chain_tracks c h2" "ends_dead (gc_horizon e) h1"
      using core_ok_tracks [OF ok, of k] Some by (auto elim: key_tracksE)
    note tr = truth_split [OF h(1,3) srt gc]
    have c: "chain_wf c" "versions c \<noteq> []" "first_ts c = v_ts (hd h2)" "h2 \<noteq> []" "sorted_wrt (<) (map v_ts h2)"
      using h(2) by (auto simp: chain_tracks_def)
    show ?thesis
    proof (cases "s < first_ts c")
      case True
      have "\<forall>v\<in>set h2. v_ts (hd h2) \<le> v_ts v"
        using c(4,5) by (cases h2) (auto intro: less_imp_le)
      then have "as_of s h2 = None" using True c(3) by (auto simp: as_of_None intro: less_le_trans)
      then show ?thesis using True Some tr by (simp add: get_at_checked_def)
    next
      case False
      have asof: "as_of s (versions c) = as_of s h2"
        using kept [OF Some] tracks_as_of [OF h(2)] h(2) by (auto simp: chain_tracks_def)
      have "\<not> (0 < pruned_ts c \<and> s < v_ts (hd (versions c)))"
      proof
        assume p: "0 < pruned_ts c \<and> s < v_ts (hd (versions c))"
        then obtain v where v: "v \<in> set (versions c)" "v_ts v \<le> s" using kept [OF Some] by auto
        have "v_ts (hd (versions c)) \<le> v_ts v"
          using c(1) v(1) by (cases "versions c") (auto simp: chain_wf_def)
        then show False using p v(2) by simp
      qed
      then show ?thesis
        using False Some c(2) tr asof
        by (cases "versions c") (auto simp: get_at_checked_def visible_def Let_def)
    qed
  qed
qed

theorem checked_read_exact_witness:
  "get_at_checked (gc_horizon (fresh_engine True)) (co_shards (fresh_engine True)) [107] 5
     = Inr (truth (hist (fresh_engine True)) [107] 5)"
  by (rule checked_read_exact [of True]) (simp_all add: fresh_engine_def)

text \<open>
  The checked read is not always exact. After the versions between an open snapshot
  and the newest eight were pruned, a read in the gap is answered with the older value the open
  snapshot holds, instead of an error: ten commits of one key at timestamps 1 to 10 with
  snapshot 1 open leave version 2 pruned, and reading at 2 gives the value of timestamp 1.
\<close>

definition ten_commits :: chain where
  "ten_commits = fold (\<lambda>t. chain_push t (VInt (of_nat t)) [1]) [1, 2, 3, 4, 5, 6, 7, 8, 9, 10] chain_default"

lemma ten_commits_eval:
  "ten_commits = \<lparr>latest_ts = 10,
     versions = map (\<lambda>t. \<lparr>v_ts = t, v_value = VInt (of_nat t)\<rparr>) [1, 3, 4, 5, 6, 7, 8, 9, 10],
     pruned_ts = 2, first_ts = 1\<rparr>"
  unfolding ten_commits_def by code_simp

lemma checked_read_stale_in_gap:
  "\<exists>sh. shards_wf sh \<and> chain_lookup sh [107] = Some ten_commits
    \<and> chain_tracks ten_commits (map (\<lambda>t. \<lparr>v_ts = t, v_value = VInt (of_nat t)\<rparr>) [1, 2, 3, 4, 5, 6, 7, 8, 9, 10])
    \<and> get_at_checked 0 sh [107] 2 = Inr (Some (VInt 1))"
proof -
  let ?h = "\<lambda>ts. map (\<lambda>t. \<lparr>v_ts = t, v_value = VInt (of_nat t)\<rparr>) (ts :: nat list)"
  let ?sh = "empty_shards[shard_of [107] := [([107], ten_commits)]]"
  have l: "shard_of [107] < length empty_shards" by (simp add: empty_shards_def)
  have "chain_wf ten_commits" by (simp add: ten_commits_eval chain_wf_def)
  then have "shards_wf ?sh"
    by (intro shards_wf_update [OF empty_shards_wf]) (auto simp: ten_commits_eval bt_wf_Cons split: if_splits)
  moreover have lk: "chain_lookup ?sh [107] = Some ten_commits" using l by (simp add: chain_lookup_def)
  moreover have "get_at_checked 0 ?sh [107] 2 = Inr (Some (VInt 1))"
    unfolding get_at_checked_def lk by (simp add: ten_commits_eval visible_def as_of_def live_def)
  moreover have "chain_tracks ten_commits (?h [1, 2, 3, 4, 5, 6, 7, 8, 9, 10])"
    unfolding chain_tracks_def by (simp add: ten_commits_eval chain_wf_def)
  ultimately show ?thesis by blast
qed

text \<open>A run: put a key, delete it, and (collecting it) put it again.\<close>

definition after_put :: engine where
  "after_put = put_round [107] (VInt 1) (fresh_engine True)"

definition after_delete :: engine where
  "after_delete = put_round [107] VTombstone after_put"

definition after_again :: engine where
  "after_again = put_round [107] (VInt 3) after_delete"

lemma small_k: "small_mut \<lparr>m_key = [107], m_value = VInt i, m_ts = t\<rparr>" "small_mut \<lparr>m_key = [107], m_value = VTombstone, m_ts = t\<rparr>"
  by (simp_all add: small_mut_def mutation_encode_def MAX_FRAME_def u32_max_def)

definition idle :: "nat \<Rightarrow> event list \<Rightarrow> engine \<Rightarrow> bool" where
  "idle t evs e \<longleftrightarrow> engine_step\<^sup>*\<^sup>* (fresh_engine True) e \<and> engine_ok e \<and> write_queue e = []
     \<and> \<not> poisoned (co_wal e) \<and> clock e = t \<and> visible_ts e = t \<and> active_snaps e = [] \<and> events e = evs
     \<and> sync_writes e"

lemma fresh_idle: "idle 0 [] (fresh_engine True)"
  using fresh_ok [of True] by (simp add: idle_def) (simp add: fresh_engine_def wal_open_def Let_def)

lemma put_round_idle:
  assumes i: "idle t evs e" and small: "small_mut \<lparr>m_key = k, m_value = v, m_ts = Suc t\<rparr>"
  shows "idle (Suc t) (evs @ [Committed \<lparr>m_key = k, m_value = v, m_ts = Suc t\<rparr>]) (put_round k v e)"
    and "chain_lookup (co_shards (put_round k v e)) x =
      pushed [] [\<lparr>m_key = k, m_value = v, m_ts = Suc t\<rparr>] (chain_lookup (co_shards (sweep_tombstones e))) x"
    and "gc_horizon (put_round k v e) = gc_horizon (sweep_tombstones e)"
proof -
  have e: "engine_ok e" "write_queue e = []" "\<not> poisoned (co_wal e)" "clock e = t" "visible_ts e = t"
    "active_snaps e = []" "events e = evs" "sync_writes e" "engine_step\<^sup>*\<^sup>* (fresh_engine True) e"
    using i by (auto simp: idle_def)
  have sm: "small_mut \<lparr>m_key = k, m_value = v, m_ts = clock e + 1\<rparr>" using small e(4) by simp
  note pe = put_round_eval [OF e(2,3) refl sm]
  have st: "engine_step\<^sup>*\<^sup>* e (put_round k v e)" by (rule put_round_steps [OF e(8)])
  then show "idle (Suc t) (evs @ [Committed \<lparr>m_key = k, m_value = v, m_ts = Suc t\<rparr>]) (put_round k v e)"
    using pe e reachable_ok [OF st e(1)] put_round_sync [of k v e] by (auto simp: idle_def)
  show "chain_lookup (co_shards (put_round k v e)) x =
      pushed [] [\<lparr>m_key = k, m_value = v, m_ts = Suc t\<rparr>] (chain_lookup (co_shards (sweep_tombstones e))) x"
    using put_round_lookup [OF e(1-3) sm, of x] e(4,6) by (simp add: bt_keys_def)
  show "gc_horizon (put_round k v e) = gc_horizon (sweep_tombstones e)" using pe by simp
qed

lemma after_put_idle: "idle 1 [Committed \<lparr>m_key = [107], m_value = VInt 1, m_ts = 1\<rparr>] after_put"
  using put_round_idle(1) [OF fresh_idle small_k(1)] by (simp add: after_put_def)

lemma after_delete_idle:
  "idle 2 [Committed \<lparr>m_key = [107], m_value = VInt 1, m_ts = 1\<rparr>, Committed \<lparr>m_key = [107], m_value = VTombstone, m_ts = 2\<rparr>] after_delete"
  using put_round_idle(1) [OF after_put_idle small_k(2)] by (simp add: after_delete_def numeral_2_eq_2)

lemma after_delete_swept: "chain_lookup (co_shards (sweep_tombstones after_delete)) [107] = None
    \<and> 2 \<le> gc_horizon (sweep_tombstones after_delete)"
proof -
  have ok: "core_ok after_delete" and act: "active_snaps after_delete = []"
    using after_delete_idle by (auto simp: idle_def engine_ok_def)
  obtain c where c: "chain_lookup (co_shards after_delete) [107] = Some c"
    using put_round_idle(2) [OF after_put_idle small_k(2), of "[107]"] by (auto simp: after_delete_def pushed_def)
  have "hist after_delete = [\<lparr>m_key = [107], m_value = VInt 1, m_ts = 1\<rparr>, \<lparr>m_key = [107], m_value = VTombstone, m_ts = 2\<rparr>]"
    using after_delete_idle by (simp add: idle_def hist_def)
  then have kh: "key_hist (hist after_delete) [107] = [\<lparr>v_ts = 1, v_value = VInt 1\<rparr>, \<lparr>v_ts = 2, v_value = VTombstone\<rparr>]"
    by (simp add: key_hist_def version_of_def)
  obtain h1 h2 where h: "chain_tracks c h2" "last (key_hist (hist after_delete) [107]) = last h2"
    using core_ok_tracks [OF ok, of "[107]"] c by (auto elim: key_tracksE)
  then have "chain_latest c = None" "latest_ts c = 2" using tracks_latest [OF h(1)] kh by (auto simp: h(2) [symmetric])
  then show ?thesis using sweep_lookup_dead [OF ok c _ act] by simp
qed

text \<open>
  The checked read forgets a collected life of a key. After a key was written, deleted,
  collected and written again, a read at a snapshot of its first life answers that the key did
  not exist, although the engine knows that older reads cannot be answered exactly.
\<close>

lemma checked_read_forgets_first_life:
  "engine_step\<^sup>*\<^sup>* (fresh_engine True) after_again
    \<and> truth (hist after_again) [107] 1 = Some (VInt 1) \<and> 1 < gc_horizon after_again
    \<and> get_at_checked (gc_horizon after_again) (co_shards after_again) [107] 1 = Inr None"
proof -
  note r = put_round_idle [OF after_delete_idle, of "[107]" "VInt 3", folded after_again_def]
  have sm: "small_mut \<lparr>m_key = [107], m_value = VInt 3, m_ts = Suc 2\<rparr>" by (rule small_k)
  have i: "idle 3 [Committed \<lparr>m_key = [107], m_value = VInt 1, m_ts = 1\<rparr>,
      Committed \<lparr>m_key = [107], m_value = VTombstone, m_ts = 2\<rparr>,
      Committed \<lparr>m_key = [107], m_value = VInt 3, m_ts = 3\<rparr>] after_again"
    using r(1) [OF sm] by (simp add: numeral_3_eq_3)
  have gh: "gc_horizon after_again = gc_horizon (sweep_tombstones after_delete)" by (rule r(3) [OF sm])
  have "chain_lookup (co_shards after_again) [107] = Some (chain_push 3 (VInt 3) [] chain_default)"
    using r(2) [OF sm, of "[107]"] after_delete_swept by (simp add: pushed_def numeral_3_eq_3)
  moreover have "chain_push 3 (VInt 3) [] chain_default =
      \<lparr>latest_ts = 3, versions = [\<lparr>v_ts = 3, v_value = VInt 3\<rparr>], pruned_ts = 0, first_ts = 3\<rparr>"
    by (simp add: chain_push_def chain_default_def partition_point_def MAX_VERSIONS_PER_KEY_def)
  ultimately have "get_at_checked g (co_shards after_again) [107] 1 = Inr None" for g
    by (simp add: get_at_checked_def)
  moreover have "truth (hist after_again) [107] 1 = Some (VInt 1)"
    using i by (simp add: idle_def hist_def truth_def key_hist_def version_of_def as_of_def live_def)
  ultimately show ?thesis using i gh after_delete_swept by (simp add: idle_def)
qed

text \<open>
  Claim C15. WATCH misses a delete. A key is present at timestamp 1, where a client starts to
  watch it without registering a snapshot; it is deleted at timestamp 2; the next round of the
  flusher first collects the tombstone and then finds no conflict, so the guarded commit runs
  although the watched key changed.
\<close>

theorem watch_misses_delete:
  "engine_step\<^sup>*\<^sup>* (fresh_engine True) after_delete
    \<and> get after_put [107] = Some (VInt 1) \<and> snapshot after_put = 1 \<and> get after_delete [107] = None
    \<and> resolve (co_shards (sweep_tombstones after_delete))
        (mk_pending 3 [([119], VInt 9)] [([107], 1)] None None None) [] = RApply None None"
proof -
  have ok1: "core_ok after_put" and ok2: "core_ok after_delete"
    using after_put_idle after_delete_idle by (auto simp: idle_def engine_ok_def)
  have "get after_put [107] = Some (VInt 1)"
    using get_truth [OF ok1, of "[107]"] after_put_idle
    by (simp add: idle_def hist_def truth_def key_hist_def version_of_def as_of_def live_def)
  moreover have "get after_delete [107] = None"
    using get_truth [OF ok2, of "[107]"] after_delete_idle
    by (simp add: idle_def hist_def truth_def key_hist_def version_of_def as_of_def live_def)
  moreover have "resolve (co_shards (sweep_tombstones after_delete))
      (mk_pending 3 [([119], VInt 9)] [([107], 1)] None None None) [] = RApply None None"
    using after_delete_swept by (simp add: resolve_def mk_pending_def)
  ultimately show ?thesis
    using after_put_idle after_delete_idle by (simp add: idle_def snapshot_def)
qed

lemma chain_in_hist:
  assumes "core_ok e" and "chain_lookup (co_shards e) k = Some c"
  shows "\<exists>m\<in>set (hist e). m_key m = k \<and> m_ts m = latest_ts c"
proof -
  have "key_tracks (gc_horizon e) (key_hist (hist e) k) (Some c)"
    using core_ok_tracks [OF assms(1), of k] assms(2) by simp
  then obtain h1 h2 where h: "key_hist (hist e) k = h1 @ h2" "chain_tracks c h2" "h2 \<noteq> []"
    by (auto elim: key_tracksE)
  then have "last h2 \<in> set (key_hist (hist e) k)" by simp
  then show ?thesis using tracks_latest [OF h(2)] by (auto simp: set_key_hist)
qed

text \<open>
  Claim C14. Deleted keys are reclaimed exactly when no registered snapshot needs them: a sweep
  leaves a chain in memory for a key if and only if the key is live or was last written after some
  registered snapshot, whatever newer snapshots are open; and it changes neither the current value
  of a key nor what any registered snapshot reads.
\<close>

theorem sweep_reclaims:
  assumes r: "engine_step\<^sup>*\<^sup>* (fresh_engine durable) e"
  shows "(chain_lookup (co_shards (sweep_tombstones e)) k \<noteq> None \<longleftrightarrow>
      get e k \<noteq> None \<or> (\<exists>s m. s \<in> set (bt_keys (active_snaps e)) \<and> m \<in> set (hist e) \<and> m_key m = k \<and> s < m_ts m))
    \<and> get (sweep_tombstones e) k = get e k
    \<and> (\<forall>s. s \<in> set (bt_keys (active_snaps e)) \<longrightarrow> get_at (co_shards (sweep_tombstones e)) k s = get_at (co_shards e) k s)"
proof -
  let ?e = "sweep_tombstones e"
  have ok: "core_ok e" using reachable_ok [OF r fresh_ok] by (simp add: engine_ok_def)
  have ok1: "core_ok ?e" by (rule sweep_core_ok(1) [OF ok])
  have g: "get ?e k = get e k" using get_truth [OF ok] get_truth [OF ok1] by simp
  have l: "latest_of (co_shards ?e) k = get e k"
    using get_at_latest [OF ok1 order_refl, of k] g by (simp add: get_def snapshot_def)
  have old: "\<exists>s m. s \<in> set (bt_keys (active_snaps e)) \<and> m \<in> set (hist e) \<and> m_key m = k \<and> s < m_ts m"
    if c: "chain_lookup (co_shards ?e) k = Some c" "get e k = None" for c
  proof -
    have "chain_latest c = None" using l c by (simp add: latest_of_def)
    then have b: "gc_bound e < latest_ts c" using sweep_core_ok(2) [OF ok] c(1) by blast
    obtain m where m: "m \<in> set (hist e)" "m_key m = k" "m_ts m = latest_ts c" using chain_in_hist [OF ok1 c(1)] by auto
    then have "latest_ts c \<le> visible_ts e" using ok by (auto simp: core_ok_def)
    then have "\<exists>s\<in>set (bt_keys (active_snaps e)). s < latest_ts c"
      using b by (auto simp: gc_bound_def bt_keys_def min_less_iff_disj split: list.splits)
    then show ?thesis using m by metis
  qed
  have "chain_lookup (co_shards ?e) k \<noteq> None" if "get e k \<noteq> None" using l that by (auto simp: latest_of_def split: option.splits)
  moreover have "chain_lookup (co_shards ?e) k \<noteq> None"
    if "s \<in> set (bt_keys (active_snaps e))" "m \<in> set (hist e)" "m_key m = k" "s < m_ts m" for s m
  proof
    assume "chain_lookup (co_shards ?e) k = None"
    then have "\<forall>v\<in>set (key_hist (hist e) k). v_ts v \<le> s" using ok1 that(1) by (simp add: core_ok_def collected_seen_def)
    moreover have "version_of m \<in> set (key_hist (hist e) k)" using that(2,3) by (auto simp: set_key_hist)
    ultimately show False using that(4) by fastforce
  qed
  moreover have "get_at (co_shards ?e) k s = get_at (co_shards e) k s" if "s \<in> set (bt_keys (active_snaps e))" for s
    using core_ok_pinned [OF ok that] core_ok_pinned [OF ok1, of s] that by simp
  moreover have "chain_lookup (co_shards ?e) k \<noteq> None \<Longrightarrow> get e k = None \<Longrightarrow>
      \<exists>s m. s \<in> set (bt_keys (active_snaps e)) \<and> m \<in> set (hist e) \<and> m_key m = k \<and> s < m_ts m"
    using old by blast
  ultimately show ?thesis using g by blast
qed

text \<open>A snapshot taken after the delete does not keep the key.\<close>

theorem sweep_reclaims_witness:
  "active_snaps (pin 2 after_delete) \<noteq> [] \<and> chain_lookup (co_shards (sweep_tombstones (pin 2 after_delete))) [107] = None"
proof -
  let ?e = "pin 2 after_delete"
  have i: "idle 2 [Committed \<lparr>m_key = [107], m_value = VInt 1, m_ts = 1\<rparr>, Committed \<lparr>m_key = [107], m_value = VTombstone, m_ts = 2\<rparr>] after_delete"
    by (rule after_delete_idle)
  then have "engine_step after_delete ?e" using engine_step.pin [of after_delete] by (simp add: idle_def snapshot_def)
  then have r: "engine_step\<^sup>*\<^sup>* (fresh_engine True) ?e" using i by (auto simp: idle_def)
  have k: "bt_keys (active_snaps ?e) = [2]" using i by (simp add: idle_def pin_def bt_keys_def)
  have h: "hist ?e = [\<lparr>m_key = [107], m_value = VInt 1, m_ts = 1\<rparr>, \<lparr>m_key = [107], m_value = VTombstone, m_ts = 2\<rparr>]"
    using i by (simp add: idle_def hist_def)
  have ok: "core_ok ?e" using reachable_ok [OF r fresh_ok] by (simp add: engine_ok_def)
  have "get ?e [107] = None"
    unfolding get_truth [OF ok] h using i by (simp add: idle_def truth_def key_hist_def of_key_def as_of_def version_of_def)
  then have "chain_lookup (co_shards (sweep_tombstones ?e)) [107] = None"
    using sweep_reclaims [OF r, of "[107]"] k h by auto
  then show ?thesis using k by (auto simp: bt_keys_def)
qed

text \<open>The increments of one key in a batch.\<close>

definition incr_pendings :: "key \<Rightarrow> (nat \<times> i64) list \<Rightarrow> pending list" where
  "incr_pendings k ops = map (\<lambda>(t, by). mk_pending t [] [] (Some (k, by)) None None) ops"

definition counter_now :: "shards \<Rightarrow> (key, val) btree \<Rightarrow> key \<Rightarrow> op_error + i64" where
  "counter_now sh ov k = (case bt_get ov k of Some v \<Rightarrow> as_counter (Some v) | None \<Rightarrow> as_counter (latest_of sh k))"

fun running :: "i64 \<Rightarrow> i64 list \<Rightarrow> i64 list" where
  "running c [] = []"
| "running c (b # bs) = (c + b) # running (c + b) bs"

lemma resolve_incr:
  assumes "counter_now sh ov k = Inr c" and "checked_add_i64 c b = Some n"
  shows "resolve sh (mk_pending t [] [] (Some (k, b)) None None) ov
     = RApply (Some [\<lparr>m_key = k, m_value = VInt n, m_ts = t\<rparr>]) (Some n)"
  using assms by (simp add: resolve_def mk_pending_def counter_now_def Let_def)

lemma checked_add_fits: "- (2 ^ 63) \<le> sint c + sint b \<Longrightarrow> sint c + sint b < 2 ^ 63 \<Longrightarrow> checked_add_i64 c b = Some (c + b)"
  by (simp add: checked_add_i64_def Let_def)

lemma incr_batch:
  assumes "counter_now sh ov k = Inr c"
    and "\<And>i. i < length ops \<Longrightarrow> - (2 ^ 63) \<le> sint c + sum_list (map (\<lambda>op. sint (snd op)) (take (Suc i) ops))
       \<and> sint c + sum_list (map (\<lambda>op. sint (snd op)) (take (Suc i) ops)) < 2 ^ 63"
  shows "map (ack_of (Inr ()) None) (resolve_all sh True (incr_pendings k ops) ov)
     = map (\<lambda>n. AckOk (Some n)) (running c (map snd ops))
    \<and> (\<forall>i<length ops. sint (running c (map snd ops) ! i) = sint c + sum_list (map (\<lambda>op. sint (snd op)) (take (Suc i) ops)))"
  using assms
proof (induction ops arbitrary: ov c)
  case Nil
  then show ?case by (simp add: incr_pendings_def)
next
  case (Cons op ops)
  obtain t b where op: "op = (t, b)" by (cases op)
  have fit: "- (2 ^ 63) \<le> sint c + sint b" "sint c + sint b < 2 ^ 63"
    using Cons.prems(2) [of 0] by (simp_all add: op)
  note add = checked_add_fits [OF fit]
  have sc: "sint (c + b) = sint c + sint b" by (rule checked_add_i64_Some [OF add])
  let ?m = "[\<lparr>m_key = k, m_value = VInt (c + b), m_ts = t\<rparr>]"
  have now: "counter_now sh (overlay_add ?m ov) k = Inr (c + b)"
    by (simp add: counter_now_def overlay_get as_counter_def)
  have "- (2 ^ 63) \<le> sint (c + b) + sum_list (map (\<lambda>op. sint (snd op)) (take (Suc i) ops))
      \<and> sint (c + b) + sum_list (map (\<lambda>op. sint (snd op)) (take (Suc i) ops)) < 2 ^ 63" if "i < length ops" for i
    using Cons.prems(2) [of "Suc i"] that by (simp add: op sc add.assoc)
  note IH = Cons.IH [OF now this]
  have r: "resolve_all sh True (incr_pendings k (op # ops)) ov =
      Some (RApply (Some ?m) (Some (c + b))) # resolve_all sh True (incr_pendings k ops) (overlay_add ?m ov)"
    using resolve_incr [OF Cons.prems(1) add, of t]
    by (simp add: incr_pendings_def op Let_def resolved_muts_def) (simp add: mk_pending_def)
  have "sint (running c (map snd (op # ops)) ! i) = sint c + sum_list (map (\<lambda>op. sint (snd op)) (take (Suc i) (op # ops)))"
    if "i < length (op # ops)" for i
    using that IH sc by (cases i) (auto simp: op)
  then show ?case using IH unfolding r by (simp add: ack_of_def op)
qed

text \<open>
  Concurrent increments of one counter lose nothing: in a batch of increments whose
  partial sums fit an \<open>i64\<close>, every one is acknowledged with the running sum, in queue order.
\<close>

theorem incr_batch_running_sums:
  assumes "counter_now sh ov k = Inr c"
    and "\<And>i. i < length ops \<Longrightarrow> - (2 ^ 63) \<le> sint c + sum_list (map (\<lambda>op. sint (snd op)) (take (Suc i) ops))
       \<and> sint c + sum_list (map (\<lambda>op. sint (snd op)) (take (Suc i) ops)) < 2 ^ 63"
  shows "\<exists>sums. map (ack_of (Inr ()) None) (resolve_all sh True (incr_pendings k ops) ov) = map (\<lambda>n. AckOk (Some n)) sums
    \<and> length sums = length ops
    \<and> (\<forall>i<length ops. sint (sums ! i) = sint c + sum_list (map (\<lambda>op. sint (snd op)) (take (Suc i) ops)))"
proof -
  have "length (running c bs) = length bs" for bs by (induction c bs rule: running.induct) auto
  then show ?thesis using incr_batch [OF assms] by (intro exI [of _ "running c (map snd ops)"]) simp
qed

theorem incr_batch_running_sums_witness:
  "\<exists>sums. map (ack_of (Inr ()) None) (resolve_all empty_shards True (incr_pendings [107] [(1, 5), (2, -2)]) [([107], VInt 10)])
      = map (\<lambda>n. AckOk (Some n)) sums \<and> length sums = length [(1 :: nat, 5 :: i64), (2, -2)]
    \<and> (\<forall>i<length [(1 :: nat, 5 :: i64), (2, -2)]. sint (sums ! i) = sint (10 :: i64) + sum_list (map (\<lambda>op. sint (snd op)) (take (Suc i) [(1 :: nat, 5 :: i64), (2, -2)])))"
proof (rule incr_batch_running_sums)
  show "counter_now empty_shards [([107], VInt 10)] [107] = Inr 10"
    by (simp add: counter_now_def as_counter_def)
  fix i assume "i < length [(1 :: nat, 5 :: i64), (2, -2)]"
  then have "i = 0 \<or> i = 1" by auto
  then show "- (2 ^ 63) \<le> sint (10 :: i64) + sum_list (map (\<lambda>op. sint (snd op)) (take (Suc i) [(1 :: nat, 5 :: i64), (2, -2)]))
      \<and> sint (10 :: i64) + sum_list (map (\<lambda>op. sint (snd op)) (take (Suc i) [(1 :: nat, 5 :: i64), (2, -2)])) < 2 ^ 63"
    by auto
qed

text \<open>
  Claim C16. A wipe loses acknowledged commits. When a write is enqueued after a FLUSHALL and the
  flusher drains both in one batch, the write is acknowledged as committed, but its key is
  absent from the shards and the new log is empty: the record went to the backed-up log.
\<close>

theorem flushall_loses_later_commit:
  assumes q: "write_queue e = [mk_pending t [] [] None None (Some bak), mk_pending t' [(k, v)] [] None None None]"
    and w: "\<not> poisoned (co_wal e)" and small: "small_mut \<lparr>m_key = k, m_value = v, m_ts = t'\<rparr>"
    and wf: "shards_wf (co_shards e)"
    and f: "flush_round io_fine e = (e', acks)"
  shows "acks = [AckOk None, AckOk None] \<and> chain_lookup (co_shards e') x = None \<and> log_file (co_wal e') = []"
proof -
  let ?b = "write_queue e"
  define m where "m = \<lparr>m_key = k, m_value = v, m_ts = t'\<rparr>"
  define e1 where "e1 = sweep_tombstones (e\<lparr>write_queue := []\<rparr>)"
  have outs: "resolve_all (co_shards e1) n ?b [] = [None, Some (RApply None None)]" for n
    by (simp add: q mk_pending_def Let_def resolve_def)
  have muts: "batch_muts ?b [None, Some (RApply None None)] = [[m]]"
    by (simp add: q batch_muts_Cons resolved_muts_def mk_pending_def m_def)
  have wp: "List.map_filter pw_flush_all ?b = [bak]" by (simp add: q List.map_filter_simps mk_pending_def)
  have cf: "commit_frame [m] = encode_single_record m" by (simp add: commit_frame_def)
  obtain w2 where w2: "append_frames WriteOk True [encode_single_record m] (co_wal e1) = (w2, Inr ())" "\<not> poisoned w2"
    using w small by (auto simp: append_frames_def frames_buf_log e1_def small_mut_def encode_single_record_def m_def)
  define e2 where "e2 = e1\<lparr>co_wal := w2, last_appended := max (last_appended e1) (max_ts ?b)\<rparr>"
  have d: "durable_step io_fine [encode_single_record m] (max_ts ?b) e1 = (e2, Inr ())"
    using w2 by (simp add: durable_step_def io_fine_def sync_def e2_def)
  have sh: "length (co_shards e1) = SHARD_COUNT"
  proof -
    obtain sh mx where s: "fold sweep_one (filter (\<lambda>(_, ts). ts \<le> gc_bound (e\<lparr>write_queue := []\<rparr>)) (graveyard e)) (co_shards e, 0) = (sh, mx)"
      by fastforce
    have "shards_wf sh" using sweep_fold [OF wf s] by blast
    then show ?thesis
      using wf s by (simp add: e1_def sweep_tombstones_def Let_def shards_wf_length)
  qed
  have pf: "perform_flush_all io_fine bak e2 =
      (e2\<lparr>backups := backups e2 @ [(bak, Some (log_file w2), snap_file e2)], snap_file := None, co_wal := wal_open None,
          co_shards := map (\<lambda>_. []) (co_shards e2), kv_live := 0, graveyard := []\<rparr>, Inr ())"
    using w2(2) by (simp add: perform_flush_all_def io_fine_def sync_def e2_def)
  have e': "e' = publish ?b (fst (wipe_step io_fine [bak] e2))" and acks: "acks = [AckOk None, AckOk None]"
    using f unfolding flush_round_def flush_batch_def Let_def e1_def [symmetric] outs muts wp
    by (auto simp: cf d wipe_step_def pf ack_of_def)
  have "co_shards e' = map (\<lambda>_. []) (co_shards e2)" "co_wal e' = wal_open None"
    by (simp_all add: e' wipe_step_def pf publish_def)
  moreover have "co_shards e2 = co_shards e1" by (simp add: e2_def)
  ultimately show ?thesis
    using acks sh by (simp add: chain_lookup_def wal_open_def Let_def)
qed

theorem flushall_loses_later_commit_witness:
  "\<exists>e e' acks. e = submit_durable [([107], VInt 1)] [] None None (enqueue_flush_all [98] (fresh_engine True))
    \<and> flush_round io_fine e = (e', acks)
    \<and> acks = [AckOk None, AckOk None] \<and> chain_lookup (co_shards e') [107] = None \<and> log_file (co_wal e') = []"
proof -
  let ?e = "submit_durable [([107], VInt 1)] [] None None (enqueue_flush_all [98] (fresh_engine True))"
  obtain e' acks where f: "flush_round io_fine ?e = (e', acks)" by fastforce
  have q: "write_queue ?e = [mk_pending 1 [] [] None None (Some [98]), mk_pending 2 [([107], VInt 1)] [] None None None]"
    by (simp add: submit_durable_eq enqueue_flush_all_eq fresh_engine_def numeral_2_eq_2)
  have "\<not> poisoned (co_wal ?e)" "shards_wf (co_shards ?e)"
    by (simp_all add: submit_durable_eq enqueue_flush_all_eq fresh_engine_def wal_open_def Let_def empty_shards_wf)
  then show ?thesis using flushall_loses_later_commit [OF q _ small_k(1) _ f, of "[107]"] f by blast
qed

end
