(* ===== verification/Keys.thy ===== *)
theory Keys
  imports Shards
begin

text \<open>
  The key encodings of \<open>crates/server/src/keyspace.rs\<close>: where a string value or a collection
  header lives, where its deadline lives, and the family of element keys of a collection, whose
  hash tag keeps them on one shard.  The lemmas show that the encodings never collide, that a
  family's range holds exactly its elements and that list positions are ordered as numbers.
\<close>

section \<open>Definitions\<close>

definition T_HASH :: byte where "T_HASH = 1"
definition T_LIST :: byte where "T_LIST = 2"
definition T_SET :: byte where "T_SET = 3"
definition T_ZSET :: byte where "T_ZSET = 4"
definition T_STREAM :: byte where "T_STREAM = 5"

definition SUB_HASH :: byte where "SUB_HASH = 104"
definition SUB_SET :: byte where "SUB_SET = 115"
definition SUB_SETPOS :: byte where "SUB_SETPOS = 116"
definition SUB_LIST :: byte where "SUB_LIST = 108"
definition SUB_ZMEM :: byte where "SUB_ZMEM = 109"
definition SUB_ZSCORE :: byte where "SUB_ZSCORE = 122"

definition kv :: "key \<Rightarrow> key" where
  "kv key = [107, 118, 58] @ key"

definition expk :: "key \<Rightarrow> key" where
  "expk key = [101, 120, 112, 58] @ key"

definition HEX :: bytes where
  "HEX = [48, 49, 50, 51, 52, 53, 54, 55, 56, 57, 97, 98, 99, 100, 101, 102]"

definition hex_key :: "key \<Rightarrow> bytes" where
  "hex_key key = concat (map (\<lambda>b. [HEX ! unat (drop_bit 4 b), HEX ! unat (b AND 15)]) key)"

definition ebase :: "key \<Rightarrow> byte \<Rightarrow> key" where
  "ebase key sub = [99, 58, 123] @ hex_key key @ [125, 58] @ [sub]"

definition ekey :: "key \<Rightarrow> byte \<Rightarrow> bytes \<Rightarrow> key" where
  "ekey key sub rest = ebase key sub @ rest"

definition erange :: "key \<Rightarrow> byte \<Rightarrow> key \<times> key" where
  "erange key sub = (ebase key sub, ebase key (sub + 1))"

definition seq_bytes :: "i64 \<Rightarrow> bytes" where
  "seq_bytes i = be_bytes 8 (unat (i XOR push_bit 63 1))"

definition seq_from :: "bytes \<Rightarrow> i64" where
  "seq_from b = of_nat (be_nat (take 8 b)) XOR push_bit 63 1"

text \<open>Scores: a double is its bit pattern; both zeros have the encoding of \<open>0.0\<close>.\<close>

definition score_bytes :: "64 word \<Rightarrow> bytes" where
  "score_bytes f =
     (let b = (if f = 0 \<or> f = push_bit 63 1 then 0 else f);
          ord = (if drop_bit 63 b = 1 then NOT b else b XOR push_bit 63 1)
      in be_bytes 8 (unat ord))"

definition score_from :: "bytes \<Rightarrow> 64 word" where
  "score_from b =
     (let ord = of_nat (be_nat (take 8 b)) :: 64 word
      in if drop_bit 63 ord = 1 then ord XOR push_bit 63 1 else NOT ord)"

section \<open>Byte strings in order\<close>

lemma same_prefix_less [simp]: "(p @ a < p @ b) = (a < (b :: bytes))"
  by (induction p) simp_all

lemma same_prefix_le [simp]: "(p @ a \<le> p @ b) = (a \<le> (b :: bytes))"
  by (auto simp: le_less)

lemma be_nat_Cons: "be_nat (b # bs) = unat b * 256 ^ length bs + be_nat bs"
proof -
  have "le_nat (xs @ ys) = le_nat xs + 256 ^ length xs * le_nat ys" for xs ys
    by (induction xs) (simp_all add: algebra_simps)
  then show ?thesis by (simp add: be_nat_def algebra_simps)
qed

lemma be_nat_bound: "be_nat bs < 256 ^ length bs"
  using le_nat_bound [of "rev bs"] by (simp add: be_nat_def)

lemma be_nat_less: "length xs = length ys \<Longrightarrow> xs < ys \<longleftrightarrow> be_nat xs < be_nat ys"
proof (induction xs ys rule: list_induct2)
  case (Cons x xs y ys)
  have b: "be_nat xs < 256 ^ length ys" "be_nat ys < 256 ^ length ys"
    using be_nat_bound [of xs] be_nat_bound [of ys] Cons.hyps by simp_all
  have step: "u * m + r < v * m + r'" if "u < v" "r < m" for u v m r r' :: nat
  proof -
    have "u * m + r < Suc u * m" using that by simp
    also have "\<dots> \<le> v * m" using that(1) by (intro mult_right_mono) simp_all
    finally show ?thesis by simp
  qed
  let ?m = "256 ^ length ys :: nat"
  have "unat x < unat y \<or> x = y \<or> unat y < unat x"
    by (metis linorder_neqE_nat unsigned_word_eqI)
  then show ?case
    using Cons b step [of "unat x" "unat y" "be_nat xs" ?m "be_nat ys"] step [of "unat y" "unat x" "be_nat ys" ?m "be_nat xs"]
    by (elim disjE) (simp_all add: be_nat_Cons word_less_nat_alt, auto)
qed simp

lemma be_bytes_less: "m \<le> u64_max \<Longrightarrow> n \<le> u64_max \<Longrightarrow> be_bytes 8 m < be_bytes 8 n \<longleftrightarrow> m < n"
  by (simp add: be_nat_less be_nat_u64)

lemma unat_le_u64: "unat (w :: 64 word) \<le> u64_max"
  using unsigned_less [of w, where 'a = nat] by (simp add: u64_max_def)

section \<open>List positions\<close>

lemma xor_top: "(i :: 64 word) XOR push_bit 63 1 = i + push_bit 63 1"
proof -
  define m where "m = (push_bit 63 1 :: 64 word)"
  define a where "a = i AND NOT m"
  have am: "a AND m = 0" by (simp add: a_def) (simp add: and.assoc)
  have mm: "m + m = 0" by (simp add: m_def)
  have bm: "bit m n \<longleftrightarrow> n = 63" for n
    unfolding m_def by (simp only: bit_push_bit_iff bit_1_iff) auto
  have add: "a + m = a OR m" using am by (rule disjunctive_add_eq_or)
  show ?thesis
  proof (cases "bit i 63")
    case True
    then have "i = a OR m" "i XOR m = a"
      by (auto intro!: bit_word_eqI simp: a_def bm bit_or_iff bit_and_iff bit_not_iff bit_xor_iff)
    moreover from this(1) have "i + m = a" by (metis add mm add.assoc add.right_neutral)
    ultimately show ?thesis unfolding m_def [symmetric] by simp
  next
    case False
    then have "i = a" "i XOR m = a OR m"
      by (auto intro!: bit_word_eqI simp: a_def bm bit_or_iff bit_and_iff bit_not_iff bit_xor_iff)
    then show ?thesis unfolding m_def [symmetric] using add by simp
  qed
qed

lemma unat_xor_top: "int (unat ((i :: i64) XOR push_bit 63 1)) = sint i + 2 ^ 63"
proof -
  have "i + push_bit 63 1 = word_of_int (sint i + 2 ^ 63)" by (simp add: push_bit_eq_mult)
  then have "uint (i + push_bit 63 1) = (sint i + 2 ^ 63) mod 2 ^ 64" by (simp only: uint_word_of_int) simp
  moreover have "0 \<le> sint i + 2 ^ 63" "sint i + 2 ^ 63 < 2 ^ 64" using sint_range_i64 [of i] by simp_all
  ultimately show ?thesis unfolding xor_top by simp
qed

lemma seq_bytes_less: "seq_bytes i < seq_bytes j \<longleftrightarrow> sint i < sint j"
proof -
  have "seq_bytes i < seq_bytes j \<longleftrightarrow> unat (i XOR push_bit 63 1) < unat (j XOR push_bit 63 1)"
    unfolding seq_bytes_def by (rule be_bytes_less) (rule unat_le_u64)+
  then show ?thesis using unat_xor_top [of i] unat_xor_top [of j] by linarith
qed

lemma seq_bytes_inj [simp]: "seq_bytes i = seq_bytes j \<longleftrightarrow> i = j"
  using seq_bytes_less [of i j] seq_bytes_less [of j i] by (metis less_irrefl linorder_neqE_linordered_idom signed_word_eqI)

lemma length_seq_bytes [simp]: "length (seq_bytes i) = 8"
  by (simp add: seq_bytes_def)

lemma seq_from_bytes: "seq_from (seq_bytes i) = i"
proof -
  have "be_nat (seq_bytes i) = unat (i XOR push_bit 63 1)"
    unfolding seq_bytes_def by (rule be_nat_u64) (rule unat_le_u64)
  then show ?thesis by (simp add: seq_from_def xor.assoc)
qed

section \<open>Keys do not collide\<close>

lemma nibble_values: "unat (drop_bit 4 (b :: byte)) = unat b div 16" "unat (b AND 15) = unat b mod 16"
proof -
  show "unat (drop_bit 4 b) = unat b div 16"
    by (simp only: unat_drop_bit_eq drop_bit_eq_div [where 'a = nat]) simp
  have "b AND 15 = take_bit 4 b" by (simp add: take_bit_eq_mask mask_eq_exp_minus_1)
  then have "unat (b AND 15) = take_bit 4 (unat b)" by (simp only: unsigned_take_bit_eq)
  then show "unat (b AND 15) = unat b mod 16" by (simp only: take_bit_eq_mod) simp
qed

lemma nibbles: "unat (b :: byte) = 16 * unat (drop_bit 4 b) + unat (b AND 15)"
  unfolding nibble_values by simp

lemma nibble_less: "unat (drop_bit 4 (b :: byte)) < 16" "unat ((b :: byte) AND 15) < 16"
  unfolding nibble_values using unat_byte_less [of b] by simp_all

lemma HEX_digit: "i < 16 \<Longrightarrow> j < 16 \<Longrightarrow> (HEX ! i = HEX ! j) = (i = j)"
  by (rule nth_eq_iff_index_eq) (simp_all add: HEX_def)

lemma HEX_ascii: "i < 16 \<Longrightarrow> HEX ! i \<in> set HEX"
  by (rule nth_mem) (simp add: HEX_def)

lemma hex_key_simps [simp]:
  "hex_key [] = []" "hex_key (b # bs) = [HEX ! unat (drop_bit 4 b), HEX ! unat (b AND 15)] @ hex_key bs"
  by (simp_all add: hex_key_def)

lemma hex_key_inj [simp]: "hex_key k = hex_key k' \<longleftrightarrow> k = k'"
proof (induction k arbitrary: k')
  case Nil
  then show ?case by (cases k') auto
next
  case (Cons b k)
  show ?case
  proof (cases k')
    case (Cons c k'')
    have "HEX ! unat (drop_bit 4 b) = HEX ! unat (drop_bit 4 c) \<and> HEX ! unat (b AND 15) = HEX ! unat (c AND 15) \<longleftrightarrow> b = c"
      using nibbles [of b] nibbles [of c] by (metis HEX_digit nibble_less unsigned_word_eqI)
    then show ?thesis using Cons.IH [of k''] by (auto simp: Cons)
  qed auto
qed

lemma hex_key_set: "set (hex_key k) \<subseteq> set HEX"
  by (induction k) (auto intro: HEX_ascii nibble_less)

lemma hex_key_no_brace: "123 \<notin> set (hex_key k)" "125 \<notin> set (hex_key k)"
proof -
  have "123 \<notin> set HEX" "125 \<notin> set HEX" by (simp_all add: HEX_def)
  then show "123 \<notin> set (hex_key k)" "125 \<notin> set (hex_key k)" using hex_key_set [of k] by blast+
qed

lemma hex_key_Nil [simp]: "hex_key k = [] \<longleftrightarrow> k = []"
  by (cases k) auto

lemma split_at_first: "x \<notin> set a \<Longrightarrow> x \<notin> set b \<Longrightarrow> a @ x # y = b @ x # z \<longleftrightarrow> a = b \<and> y = z"
proof (induction a arbitrary: b)
  case Nil
  then show ?case by (cases b) auto
next
  case (Cons c a)
  then show ?case by (cases b) auto
qed

lemma ekey_inj [simp]: "ekey k s r = ekey k' s' r' \<longleftrightarrow> k = k' \<and> s = s' \<and> r = r'"
  using split_at_first [OF hex_key_no_brace(2) [of k] hex_key_no_brace(2) [of k'], of "58 # s # r" "58 # s' # r'"]
  by (simp add: ekey_def ebase_def)

lemma kv_inj [simp]: "kv a = kv b \<longleftrightarrow> a = b"
  by (simp add: kv_def)

lemma expk_inj [simp]: "expk a = expk b \<longleftrightarrow> a = b"
  by (simp add: expk_def)

lemma key_kinds [simp]:
  "kv a \<noteq> expk b" "expk b \<noteq> kv a" "kv a \<noteq> ekey k s r" "ekey k s r \<noteq> kv a"
  "expk a \<noteq> ekey k s r" "ekey k s r \<noteq> expk a"
  by (simp_all add: kv_def expk_def ekey_def ebase_def)

section \<open>A family and its range\<close>

lemma ekey_less [simp]: "ekey k s r < ekey k s r' \<longleftrightarrow> r < r'"
  by (simp add: ekey_def)

lemma ekey_le [simp]: "ekey k s r \<le> ekey k s r' \<longleftrightarrow> r \<le> r'"
  by (simp add: ekey_def)

lemma ekey_empty: "ekey k s [] = ebase k s"
  by (simp add: ekey_def)

lemma ekey_shard:
  assumes "k \<noteq> []"
  shows "shard_of (ekey k s r) = shard_of (ekey k s' r')"
  using hash_tag_colocates [of "[99, 58]" "[99, 58]" "hex_key k" "58 # s # r" "58 # s' # r'"] hex_key_no_brace [of k] assms
  by (simp add: ekey_def ebase_def)

lemma ebase_next: "s \<noteq> 255 \<Longrightarrow> prefix_end (ebase k s) = ebase k (s + 1)"
  by (simp add: prefix_end_def ebase_def)

lemma ebase_nonempty: "ebase k s \<noteq> []"
  by (simp add: ebase_def)

lemma starts_with_ebase: "starts_with x (ebase k s) \<longleftrightarrow> (\<exists>r. x = ekey k s r)"
  by (metis append_eq_conv_conj ekey_def starts_with_def)

lemma in_erange: "s \<noteq> 255 \<Longrightarrow> ebase k s \<le> x \<and> x < ebase k (s + 1) \<longleftrightarrow> (\<exists>r. x = ekey k s r)"
  using prefix_end_range [of "ebase k s" x] ebase_nonempty [of k "s + 1"] by (simp add: ebase_next starts_with_ebase)

lemma ebase_less: "s \<noteq> 255 \<Longrightarrow> ebase k s < ebase k (s + 1)"
  using in_erange [of s k "ebase k s"] ekey_empty [of k s, symmetric] by blast

section \<open>Claims\<close>

text \<open>
  Claim C30. The element keys of a collection: for a non-empty user key the range of a family
  holds exactly the keys of its elements, all on the shard of the range's start, in the order of
  their suffixes, list positions in the order of the numbers they encode; different collections,
  families or elements never share a key, and no element key is a value or deadline key.
\<close>

theorem element_keys_exact:
  assumes "key \<noteq> []" and "sub \<noteq> 255"
  shows "(fst (erange key sub) \<le> x \<and> x < snd (erange key sub)) = (\<exists>rest. x = ekey key sub rest)
    \<and> shard_of (ekey key sub rest) = shard_of (fst (erange key sub))
    \<and> (ekey key sub (seq_bytes i) < ekey key sub (seq_bytes j)) = (sint i < sint j)
    \<and> (ekey key sub rest = ekey key' sub' rest') = (key = key' \<and> sub = sub' \<and> rest = rest')
    \<and> ekey key sub rest \<noteq> kv key' \<and> ekey key sub rest \<noteq> expk key'"
  using in_erange [OF assms(2)] ekey_shard [OF assms(1), of sub rest sub "[]"] seq_bytes_less
  by (simp add: erange_def ekey_empty)

theorem element_keys_exact_witness:
  "([99, 58, 123, 54, 49, 125, 58, 104] \<le> ekey [97] SUB_HASH [1, 2] \<and> ekey [97] SUB_HASH [1, 2] < snd (erange [97] SUB_HASH))
     = (\<exists>rest. ekey [97] SUB_HASH [1, 2] = ekey [97] SUB_HASH rest)
   \<and> fst (erange [97] SUB_HASH) = [99, 58, 123, 54, 49, 125, 58, 104]"
proof -
  have "SUB_HASH \<noteq> 255" by (simp add: SUB_HASH_def)
  moreover have "fst (erange [97] SUB_HASH) = [99, 58, 123, 54, 49, 125, 58, 104]" by code_simp
  ultimately show ?thesis
    using element_keys_exact [of "[97]" SUB_HASH "ekey [97] SUB_HASH [1, 2]"] by simp
qed

text \<open>
  The empty user key has the empty tag \<open>{}\<close>, for which \<open>shard_of\<close> hashes the whole key: its
  elements are spread over the shards and a range read of the family sees one of them only.
\<close>

lemma empty_key_scatters:
  "shard_of (ekey [] SUB_HASH [97]) \<noteq> shard_of (fst (erange [] SUB_HASH))"
  by code_simp

end
