(* ===== verification/Resp.thy ===== *)
theory Resp
  imports Decimal Value_Codec Shards
begin

text \<open>
  The wire protocol (\<open>crates/protocol/src/lib.rs\<close>): the RESP encoder with its RESP2 and RESP3
  forms, the incremental command parser of the event loop and the blocking one, with the limits
  on what an unauthenticated client may send.
\<close>

section \<open>Values and their encoding\<close>

datatype resp =
  RSimple bytes | RError bytes | RInt i64 | RBulk bytes | RNil | RNilArray
  | RArray "resp list" | RMap "resp list" | RPush "resp list"

definition crlf :: bytes where "crlf = [13, 10]"

fun encode_into :: "bool \<Rightarrow> resp \<Rightarrow> bytes" where
  "encode_into resp3 (RSimple s) = 43 # s @ crlf"
| "encode_into resp3 (RError s) = 45 # s @ crlf"
| "encode_into resp3 (RInt i) = 58 # show_i64 i @ crlf"
| "encode_into resp3 (RBulk b) = 36 # show_nat (length b) @ crlf @ b @ crlf"
| "encode_into resp3 RNil = (if resp3 then [95, 13, 10] else [36, 45, 49, 13, 10])"
| "encode_into resp3 RNilArray = (if resp3 then [95, 13, 10] else [42, 45, 49, 13, 10])"
| "encode_into resp3 (RArray items) = 42 # show_nat (length items) @ crlf @ concat (map (encode_into resp3) items)"
| "encode_into resp3 (RPush items) =
     (if resp3 then 62 else 42) # show_nat (length items) @ crlf @ concat (map (encode_into resp3) items)"
| "encode_into resp3 (RMap items) =
     37 # show_nat (length items div 2) @ crlf @ concat (map (encode_into resp3) items)"

definition resp_encode :: "resp \<Rightarrow> bytes" where
  "resp_encode r = encode_into False r"

definition resp_encode_as :: "bool \<Rightarrow> resp \<Rightarrow> bytes" where
  "resp_encode_as resp3 r = encode_into resp3 r"

section \<open>Limits and headers\<close>

definition MAX_BULK_LEN :: nat where "MAX_BULK_LEN = 512 * 1024 * 1024"
definition MAX_ARGS :: nat where "MAX_ARGS = 1024 * 1024"
definition MAX_LINE :: nat where "MAX_LINE = 64 * 1024"

datatype proto_err =
  TooBigInline | BadArrayHeader | InvalidMultibulk | ExpectedBulk | BadBulkLen | InvalidBulkLen | NoCrlf | UnexpectedEof

definition find_line_end :: "bytes \<Rightarrow> nat \<Rightarrow> proto_err + nat option" where
  "find_line_end buf from =
     (case position (\<lambda>b. b = 10) (drop from buf) of
        Some i \<Rightarrow> Inr (Some (from + i))
      | None \<Rightarrow> if length buf - from > MAX_LINE then Inl TooBigInline else Inr None)"

text \<open>\<open>str::trim\<close>: the UTF-8 encodings of the Unicode white space characters.\<close>

definition white_space :: "bytes list" where
  "white_space =
     [[9], [10], [11], [12], [13], [32], [194, 133], [194, 160], [225, 154, 128]]
     @ map (\<lambda>b. [226, 128, b]) [128, 129, 130, 131, 132, 133, 134, 135, 136, 137, 138, 168, 169, 175]
     @ [[226, 129, 159], [227, 128, 128]]"

function strip_seqs :: "bytes list \<Rightarrow> bytes \<Rightarrow> bytes" where
  "strip_seqs ws s =
     (case List.find (\<lambda>w. w \<noteq> [] \<and> starts_with s w) ws of
        None \<Rightarrow> s
      | Some w \<Rightarrow> strip_seqs ws (drop (length w) s))"
  by pat_completeness auto
termination
proof (relation "measure (\<lambda>(ws, s). length s)")
  fix ws s w assume "List.find (\<lambda>w. w \<noteq> [] \<and> starts_with s w) ws = Some w"
  then have "w \<noteq> []" "starts_with s w" by (auto simp: find_Some_iff)
  then show "((ws, drop (length w) s), ws, s) \<in> measure (\<lambda>(ws, s). length s)"
    by (cases s) (auto simp: starts_with_def)
qed simp

declare strip_seqs.simps [simp del]

definition trim :: "bytes \<Rightarrow> bytes" where
  "trim s = rev (strip_seqs (map rev white_space) (rev (strip_seqs white_space s)))"

definition parse_len :: "bytes \<Rightarrow> proto_err \<Rightarrow> proto_err + nat option" where
  "parse_len hdr what =
     (let hdr = (if hdr \<noteq> [] \<and> last hdr = 13 then butlast hdr else hdr)
      in case (if utf8_valid hdr then rust_parse_i64 (trim hdr) else None) of
           None \<Rightarrow> Inl what
         | Some n \<Rightarrow>
             if sint n = -1 then Inr None
             else if sint n < 0 then Inl what
             else Inr (Some (nat (sint n))))"

definition slice :: "bytes \<Rightarrow> nat \<Rightarrow> nat \<Rightarrow> bytes" where
  "slice buf lo hi = take (hi - lo) (drop lo buf)"

section \<open>The incremental parser\<close>

text \<open>
  The loop over the arguments.  The checked addition of the code cannot fail: the length is at
  most \<open>MAX_BULK_LEN\<close>.
\<close>

fun parse_args :: "bytes \<Rightarrow> nat \<Rightarrow> nat \<Rightarrow> proto_err + (bytes list \<times> nat) option" where
  "parse_args buf 0 pos = Inr (Some ([], pos))"
| "parse_args buf (Suc n) pos =
     (if pos \<ge> length buf then Inr None
      else if buf ! pos \<noteq> 36 then Inl ExpectedBulk
      else case find_line_end buf pos of
        Inl e \<Rightarrow> Inl e
      | Inr None \<Rightarrow> Inr None
      | Inr (Some bnl) \<Rightarrow>
          (case parse_len (slice buf (pos + 1) bnl) BadBulkLen of
             Inl e \<Rightarrow> Inl e
           | Inr None \<Rightarrow> Inl InvalidBulkLen
           | Inr (Some len) \<Rightarrow>
               if len > MAX_BULK_LEN then Inl InvalidBulkLen
               else
                 let p = bnl + 1; stop = p + len + 2
                 in if stop > length buf then Inr None
                    else if slice buf (p + len) stop \<noteq> [13, 10] then Inl NoCrlf
                    else (case parse_args buf n stop of
                            Inr (Some (args, q)) \<Rightarrow> Inr (Some (slice buf p (p + len) # args, q))
                          | r \<Rightarrow> r)))"

fun split_spaces :: "bytes \<Rightarrow> bytes \<Rightarrow> bytes list" where
  "split_spaces acc [] = [acc]"
| "split_spaces acc (b # bs) = (if b = 32 then acc # split_spaces [] bs else split_spaces (acc @ [b]) bs)"

definition inline_args :: "bytes \<Rightarrow> bytes list" where
  "inline_args line = filter (\<lambda>s. s \<noteq> []) (split_spaces [] line)"

definition try_parse :: "bytes \<Rightarrow> proto_err + (bytes list \<times> nat) option" where
  "try_parse buf =
     (if buf = [] then Inr None
      else if hd buf = 42 then
        (case find_line_end buf 0 of
           Inl e \<Rightarrow> Inl e
         | Inr None \<Rightarrow> Inr None
         | Inr (Some nl) \<Rightarrow>
             (case parse_len (slice buf 1 nl) BadArrayHeader of
                Inl e \<Rightarrow> Inl e
              | Inr None \<Rightarrow> Inr (Some ([], nl + 1))
              | Inr (Some c) \<Rightarrow> if c > MAX_ARGS then Inl InvalidMultibulk else parse_args buf c (nl + 1)))
      else
        (case find_line_end buf 0 of
           Inl e \<Rightarrow> Inl e
         | Inr None \<Rightarrow> Inr None
         | Inr (Some nl) \<Rightarrow>
             let line = take nl buf;
                 line = (if line \<noteq> [] \<and> last line = 13 then butlast line else line)
             in Inr (Some (inline_args line, nl + 1))))"

section \<open>The blocking parser\<close>

text \<open>\<open>read_until\<close> takes up to and including the newline, or everything at the end of the stream.\<close>

definition read_line :: "bytes \<Rightarrow> bytes \<times> bytes" where
  "read_line s = (case position (\<lambda>b. b = 10) s of None \<Rightarrow> (s, []) | Some i \<Rightarrow> (take (i + 1) s, drop (i + 1) s))"

definition strip_line_end :: "bytes \<Rightarrow> bytes" where
  "strip_line_end s = rev (dropWhile (\<lambda>b. b = 10 \<or> b = 13) (rev s))"

fun read_args :: "nat \<Rightarrow> bytes \<Rightarrow> proto_err + bytes list \<times> bytes" where
  "read_args 0 s = Inr ([], s)"
| "read_args (Suc n) s =
     (case read_line s of (line, s) \<Rightarrow>
      let hdr = strip_line_end line
      in if hdr = [] \<or> hd hdr \<noteq> 36 then Inl ExpectedBulk
         else case parse_len (tl hdr) BadBulkLen of
             Inl e \<Rightarrow> Inl e
           | Inr None \<Rightarrow> Inl InvalidBulkLen
           | Inr (Some len) \<Rightarrow>
               if len > MAX_BULK_LEN then Inl InvalidBulkLen
               else if length s < len + 2 then Inl UnexpectedEof
               else (case read_args n (drop (len + 2) s) of
                       Inl e \<Rightarrow> Inl e
                     | Inr (args, r) \<Rightarrow> Inr (take len s # args, r)))"

definition read_command :: "bytes \<Rightarrow> proto_err + bytes list option \<times> bytes" where
  "read_command s =
     (case read_line s of (line, s') \<Rightarrow>
      if line = [] then Inr (None, s')
      else
        let first = strip_line_end line
        in if first = [] then Inr (Some [], s')
           else if hd first = 42 then
             (case parse_len (tl first) BadArrayHeader of
                Inl e \<Rightarrow> Inl e
              | Inr None \<Rightarrow> Inr (Some [], s')
              | Inr (Some c) \<Rightarrow>
                  if c > MAX_ARGS then Inl InvalidMultibulk
                  else (case read_args c s' of Inl e \<Rightarrow> Inl e | Inr (args, r) \<Rightarrow> Inr (Some args, r)))
           else Inr (Some (inline_args first), s'))"

section \<open>Headers the encoder writes\<close>

lemma show_nat_bytes: "b \<in> set (show_nat n) \<Longrightarrow> is_digit b"
  using show_nat_digits [of n] by (simp add: list_all_iff)

lemma digit_plain: "is_digit b \<Longrightarrow> b \<noteq> 10 \<and> b \<noteq> 13 \<and> b \<noteq> 32 \<and> b \<noteq> 42 \<and> b \<noteq> 36"
  by (auto simp: is_digit_def)

lemma show_nat_plain: "b \<in> set (show_nat n) \<Longrightarrow> b \<noteq> 10 \<and> b \<noteq> 13 \<and> b \<noteq> 32 \<and> b \<noteq> 42 \<and> b \<noteq> 36"
  using show_nat_bytes digit_plain by blast

lemma white_space_not_digit: "w \<in> set white_space \<Longrightarrow> w \<noteq> [] \<Longrightarrow> \<not> is_digit (hd w) \<and> \<not> is_digit (last w)"
  by (auto simp: white_space_def is_digit_def)

lemma strip_seqs_digit:
  assumes "ds \<noteq> []" and "is_digit (hd ds)" and "\<forall>w\<in>set ws. w \<noteq> [] \<longrightarrow> \<not> is_digit (hd w)"
  shows "strip_seqs ws ds = ds"
proof -
  have "List.find (\<lambda>w. w \<noteq> [] \<and> starts_with ds w) ws = None"
    unfolding find_None_iff
  proof
    assume "\<exists>w. w \<in> set ws \<and> w \<noteq> [] \<and> starts_with ds w"
    then obtain w where w: "w \<in> set ws" "w \<noteq> []" "starts_with ds w" by blast
    then have "hd (take (length w) ds) = hd w" by (simp add: starts_with_def)
    then have "hd ds = hd w" using w(2) by (cases ds; cases w) auto
    then show False using assms w by auto
  qed
  then show ?thesis by (simp add: strip_seqs.simps)
qed

lemma trim_digits: "ds \<noteq> [] \<Longrightarrow> list_all is_digit ds \<Longrightarrow> trim ds = ds"
proof -
  assume ds: "ds \<noteq> []" "list_all is_digit ds"
  have h: "is_digit (hd ds)" "is_digit (hd (rev ds))" using ds by (auto simp: list_all_iff hd_rev)
  have "strip_seqs white_space ds = ds"
    by (rule strip_seqs_digit [OF ds(1) h(1)]) (use white_space_not_digit in blast)
  moreover have "strip_seqs (map rev white_space) (rev ds) = rev ds"
    by (rule strip_seqs_digit) (use ds h white_space_not_digit in \<open>auto simp: hd_rev\<close>)
  ultimately show ?thesis by (simp add: trim_def)
qed

lemma utf8_digits: "list_all is_digit ds \<Longrightarrow> utf8_valid ds"
  by (induction ds) (auto simp: is_digit_def in_bytes_def word_le_nat_alt)

lemma rust_parse_show_nat: "n < 2 ^ 63 \<Longrightarrow> rust_parse_i64 (show_nat n) = Some (word_of_int (int n))"
proof -
  assume "n < 2 ^ 63"
  then have "int n < 2 ^ 63" using of_nat_less_iff [of n "2 ^ 63", where 'a = int] by simp
  moreover have "hd (show_nat n) \<noteq> 45" "hd (show_nat n) \<noteq> 43"
    using not_digit_sign [OF hd_show_nat_digit] by blast+
  ultimately show ?thesis
    using show_nat_digits [of n] show_nat_nonempty [of n] digits_val_show_nat [of n]
    by (simp add: rust_parse_i64_def i64_of_int_def)
qed

lemma parse_len_show: "n < 2 ^ 63 \<Longrightarrow> parse_len (show_nat n) e = Inr (Some n) \<and> parse_len (show_nat n @ [13]) e = Inr (Some n)"
proof -
  assume n: "n < 2 ^ 63"
  have l: "last (show_nat n) \<noteq> 13" using show_nat_plain [of "last (show_nat n)" n] show_nat_nonempty [of n] by simp
  have "int n < 2 ^ 63" using n of_nat_less_iff [of n "2 ^ 63", where 'a = int] by simp
  then have "sint (word_of_int (int n) :: i64) = int n" by (intro sint_of_int_i64) auto
  then show ?thesis
    using l show_nat_digits [of n] show_nat_nonempty [of n] rust_parse_show_nat [OF n]
    by (simp add: parse_len_def Let_def utf8_digits trim_digits)
qed

text \<open>The position of a newline after a header.\<close>

lemma position_none: "(\<forall>x\<in>set xs. \<not> P x) \<Longrightarrow> position P xs = None"
  by (induction xs) auto

lemma find_line_end_header:
  assumes "\<forall>x\<in>set h. x \<noteq> 10"
  shows "find_line_end (pre @ h @ 10 # rest) (length pre) = Inr (Some (length pre + length h))"
  using position_append [of h "\<lambda>b. b = 10" 10 rest] assms by (simp add: find_line_end_def)

lemma find_line_end_partial:
  assumes "\<forall>x\<in>set h. x \<noteq> 10" and "length h \<le> MAX_LINE"
  shows "find_line_end (pre @ h) (length pre) = Inr None"
  using position_none [of h "\<lambda>b. b = 10"] assms by (simp add: find_line_end_def)

lemma slice_mid: "a = length pre \<Longrightarrow> b = a + length x \<Longrightarrow> slice (pre @ x @ post) a b = x"
  by (simp add: slice_def)

section \<open>Commands on the wire\<close>

definition bulk :: "bytes \<Rightarrow> bytes" where
  "bulk b = 36 # show_nat (length b) @ [13, 10] @ b @ [13, 10]"

definition wire_command :: "bytes list \<Rightarrow> bytes" where
  "wire_command args = 42 # show_nat (length args) @ [13, 10] @ concat (map bulk args)"

definition command_ok :: "bytes list \<Rightarrow> bool" where
  "command_ok args \<longleftrightarrow> length args \<le> MAX_ARGS \<and> (\<forall>a\<in>set args. length a \<le> MAX_BULK_LEN)"

lemma wire_command_encode: "resp_encode (RArray (map RBulk args)) = wire_command args"
proof -
  have "map (encode_into False) (map RBulk args) = map bulk args" by (simp add: bulk_def crlf_def)
  then show ?thesis by (simp only: resp_encode_def encode_into.simps wire_command_def crlf_def length_map)
qed

lemma bulk_len_small: "length a \<le> MAX_BULK_LEN \<Longrightarrow> length a < 2 ^ 63"
  by (simp add: MAX_BULK_LEN_def)

lemma bulk_header:
  assumes l: "length a \<le> MAX_BULK_LEN"
  shows "find_line_end (pre @ 36 # show_nat (length a) @ [13] @ 10 # tail) (length pre) = Inr (Some (length pre + length (show_nat (length a)) + 2))"
    and "parse_len (slice (pre @ 36 # show_nat (length a) @ [13] @ 10 # tail) (length pre + 1) (length pre + length (show_nat (length a)) + 2)) BadBulkLen
      = Inr (Some (length a))"
proof -
  let ?h = "show_nat (length a) @ [13]"
  have "\<forall>x\<in>set (36 # ?h). x \<noteq> 10" using show_nat_plain by auto
  from find_line_end_header [OF this, of pre tail]
  show "find_line_end (pre @ 36 # show_nat (length a) @ [13] @ 10 # tail) (length pre) = Inr (Some (length pre + length (show_nat (length a)) + 2))"
    by simp
  have "slice (pre @ 36 # ?h @ 10 # tail) (length pre + 1) (length pre + length (show_nat (length a)) + 2) = ?h"
    using slice_mid [of "length pre + 1" "pre @ [36]" "length pre + length (show_nat (length a)) + 2" ?h "10 # tail"] by simp
  then show "parse_len (slice (pre @ 36 # show_nat (length a) @ [13] @ 10 # tail) (length pre + 1) (length pre + length (show_nat (length a)) + 2)) BadBulkLen
      = Inr (Some (length a))"
    using parse_len_show [OF bulk_len_small [OF l]] by simp
qed

lemma parse_args_step:
  assumes l: "length a \<le> MAX_BULK_LEN"
  shows "parse_args (pre @ bulk a @ tail) (Suc n) (length pre) =
     (case parse_args (pre @ bulk a @ tail) n (length pre + length (bulk a)) of
        Inr (Some (args, q)) \<Rightarrow> Inr (Some (a # args, q)) | r \<Rightarrow> r)"
proof -
  let ?buf = "pre @ bulk a @ tail"
  let ?b = "length pre + length (show_nat (length a)) + 2"
  let ?p = "?b + 1"
  have b: "?buf = pre @ 36 # show_nat (length a) @ [13] @ 10 # a @ [13, 10] @ tail" by (simp add: bulk_def)
  note h = bulk_header [OF l, of pre "a @ [13, 10] @ tail", folded b]
  have body: "slice ?buf ?p (?p + length a) = a"
    using slice_mid [of ?p "pre @ 36 # show_nat (length a) @ [13] @ [10]" "?p + length a" a "[13, 10] @ tail"] by (simp add: bulk_def)
  have fin: "slice ?buf (?p + length a) (?p + length a + 2) = [13, 10]"
    using slice_mid [of "?p + length a" "pre @ 36 # show_nat (length a) @ [13] @ [10] @ a" "?p + length a + 2" "[13, 10]" tail]
    by (simp add: bulk_def)
  have pos: "length pre < length ?buf" "?buf ! length pre = 36" by (simp_all add: bulk_def nth_append)
  have fits: "\<not> length ?buf < ?p + length a + 2" by (simp add: bulk_def)
  have stop: "?p + length a + 2 = length pre + length (bulk a)" by (simp add: bulk_def)
  show ?thesis
    unfolding parse_args.simps(2) h(1) using l pos
    by (simp only: sum.case option.case h(2) Let_def stop body fin [unfolded stop] fits [unfolded stop] if_False not_le) (simp split: sum.split option.split)
qed

lemma parse_args_bulks:
  assumes "\<forall>a\<in>set args. length a \<le> MAX_BULK_LEN"
  shows "parse_args (pre @ concat (map bulk args) @ post) (length args) (length pre)
     = Inr (Some (args, length pre + length (concat (map bulk args))))"
  using assms
proof (induction args arbitrary: pre)
  case (Cons a args)
  have "parse_args (pre @ bulk a @ concat (map bulk args) @ post) (length args) (length pre + length (bulk a))
      = Inr (Some (args, length pre + length (bulk a) + length (concat (map bulk args))))"
    using Cons.IH [of "pre @ bulk a"] Cons.prems by simp
  then show ?case
    using parse_args_step [of a pre "concat (map bulk args) @ post" "length args"] Cons.prems by simp
qed simp

text \<open>A command that has not arrived completely.\<close>

lemma length_show_small: "n < 10 ^ 19 \<Longrightarrow> length (show_nat n) \<le> 19"
  using length_show_nat [of n 18] by simp

lemma header_partial:
  assumes "k \<le> length (show_nat n) + 2" and "n < 2 ^ 63" and "c \<noteq> 10"
  shows "find_line_end (pre @ take k (c # show_nat n @ 13 # 10 # x)) (length pre) = Inr None"
proof -
  have t: "take k (c # show_nat n @ 13 # 10 # x) = take k (c # show_nat n @ [13])"
    using assms(1) by (simp add: take_Cons' take_append)
  have "(2 :: nat) ^ 63 < 10 ^ 19" by simp
  then have "length (show_nat n) \<le> 19" using assms(2) by (intro length_show_small) simp
  then have "length (take k (c # show_nat n @ [13])) \<le> MAX_LINE" by (simp add: MAX_LINE_def)
  moreover have "\<forall>b\<in>set (take k (c # show_nat n @ [13])). b \<noteq> 10"
    using show_nat_plain [of 10] assms(3) by (auto dest!: in_set_takeD)
  ultimately show ?thesis unfolding t by (intro find_line_end_partial)
qed

lemma parse_args_prefix:
  assumes "\<forall>a\<in>set args. length a \<le> MAX_BULK_LEN" and "k < length (concat (map bulk args))"
  shows "parse_args (pre @ take k (concat (map bulk args))) (length args) (length pre) = Inr None"
  using assms
proof (induction args arbitrary: pre k)
  case (Cons a args)
  have l: "length a \<le> MAX_BULK_LEN" using Cons.prems by simp
  show ?case
  proof (cases "length (bulk a) \<le> k")
    case True
    then have t: "take k (concat (map bulk (a # args))) = bulk a @ take (k - length (bulk a)) (concat (map bulk args))"
      by simp
    have "parse_args ((pre @ bulk a) @ take (k - length (bulk a)) (concat (map bulk args))) (length args) (length (pre @ bulk a)) = Inr None"
      using Cons.prems True by (intro Cons.IH) auto
    then show ?thesis
      unfolding t using parse_args_step [OF l, of pre "take (k - length (bulk a)) (concat (map bulk args))" "length args"]
      by simp
  next
    case False
    then have t: "take k (concat (map bulk (a # args))) = take k (bulk a)" by simp
    let ?buf = "pre @ take k (bulk a)"
    have "parse_args ?buf (Suc (length args)) (length pre) = Inr None"
    proof (cases "k \<le> length (show_nat (length a)) + 2")
      case True
      have "find_line_end ?buf (length pre) = Inr None"
        unfolding bulk_def using header_partial [OF True bulk_len_small [OF l], of 36 pre "a @ [13, 10]"] by simp
      then show ?thesis by (cases k) (auto simp: bulk_def nth_append)
    next
      case big: False
      let ?h = "36 # show_nat (length a) @ [13] @ [10]"
      have b: "?buf = pre @ 36 # show_nat (length a) @ [13] @ 10 # take (k - length ?h) (a @ [13, 10])"
        using big by (simp add: bulk_def take_Cons' take_append)
      note h = bulk_header [OF l, of pre "take (k - length ?h) (a @ [13, 10])", folded b]
      have pos: "length pre < length ?buf" "?buf ! length pre = 36" using big by (simp_all add: b nth_append)
      have "length ?buf < length pre + length (show_nat (length a)) + 2 + 1 + length a + 2"
        using False by (simp add: bulk_def)
      then show ?thesis
        unfolding parse_args.simps(2) h(1) using l pos
        by (simp only: sum.case option.case h(2) Let_def) simp
    qed
    then show ?thesis unfolding t by simp
  qed
qed simp

lemma try_parse_command:
  assumes "command_ok args"
  shows "try_parse (wire_command args @ rest) = Inr (Some (args, length (wire_command args)))"
proof -
  let ?h = "show_nat (length args) @ [13]"
  let ?tl = "concat (map bulk args) @ rest"
  have b: "wire_command args @ rest = (42 # ?h) @ 10 # ?tl" by (simp add: wire_command_def)
  have nl: "\<forall>x\<in>set (42 # ?h). x \<noteq> 10" using show_nat_plain by auto
  have f: "find_line_end (wire_command args @ rest) 0 = Inr (Some (length (42 # ?h)))"
    using find_line_end_header [OF nl, of "[]" ?tl] by (simp add: b)
  have s: "slice (wire_command args @ rest) 1 (length (42 # ?h)) = ?h"
    using slice_mid [of 1 "[42]" "length (42 # ?h)" ?h "10 # ?tl"] by (simp add: b)
  have n: "length args < 2 ^ 63" using assms by (simp add: command_ok_def MAX_ARGS_def)
  have p: "parse_args (wire_command args @ rest) (length args) (length (42 # ?h) + 1) = Inr (Some (args, length (wire_command args)))"
    using parse_args_bulks [of args "(42 # ?h) @ [10]" rest] assms by (simp add: command_ok_def wire_command_def)
  have "wire_command args @ rest \<noteq> []" "hd (wire_command args @ rest) = 42" by (simp_all add: wire_command_def)
  then show ?thesis
    using f s p parse_len_show [OF n, of BadArrayHeader] assms
    by (simp add: try_parse_def command_ok_def)
qed

lemma try_parse_prefix:
  assumes "command_ok args" and k: "k < length (wire_command args)"
  shows "try_parse (take k (wire_command args)) = Inr None"
proof (cases "k = 0")
  case False
  let ?d = "show_nat (length args)"
  let ?w = "take k (wire_command args)"
  have n: "length args < 2 ^ 63" using assms by (simp add: command_ok_def MAX_ARGS_def)
  have hd: "?w \<noteq> []" "hd ?w = 42" using False by (simp_all add: wire_command_def take_Cons')
  show ?thesis
  proof (cases "k \<le> length ?d + 2")
    case True
    have "find_line_end ?w 0 = Inr None"
      using header_partial [OF True n, of 42 "[]" "concat (map bulk args)"] by (simp add: wire_command_def)
    then show ?thesis using hd by (simp add: try_parse_def)
  next
    case big: False
    let ?h = "42 # ?d @ [13]"
    let ?tl = "take (k - length ?h - 1) (concat (map bulk args))"
    have w: "?w = ?h @ 10 # ?tl" using big by (simp add: wire_command_def take_Cons' take_append)
    have "\<forall>x\<in>set ?h. x \<noteq> 10" using show_nat_plain by auto
    from find_line_end_header [OF this, of "[]" ?tl] have f: "find_line_end ?w 0 = Inr (Some (length ?h))" by (simp add: w)
    have s: "slice ?w 1 (length ?h) = ?d @ [13]"
      using slice_mid [of 1 "[42]" "length ?h" "?d @ [13]" "10 # ?tl"] by (simp add: w)
    have "parse_args ((?h @ [10]) @ ?tl) (length args) (length (?h @ [10])) = Inr None"
      using assms big by (intro parse_args_prefix) (auto simp: command_ok_def wire_command_def)
    then show ?thesis
      using f s hd parse_len_show [OF n, of BadArrayHeader] assms by (simp add: try_parse_def command_ok_def w)
  qed
qed (simp add: try_parse_def)

text \<open>The blocking parser.\<close>

lemma read_line_header: "\<forall>x\<in>set h. x \<noteq> 10 \<Longrightarrow> read_line (h @ 10 # rest) = (h @ [10], rest)"
  using position_append [of h "\<lambda>b. b = 10" 10 rest] by (simp add: read_line_def)

lemma strip_header: "x \<noteq> 10 \<Longrightarrow> x \<noteq> 13 \<Longrightarrow> strip_line_end (h @ [x] @ [13] @ [10]) = h @ [x]"
  by (simp add: strip_line_end_def)

lemma strip_digits: "strip_line_end ((c # show_nat n @ [13]) @ [10]) = c # show_nat n"
proof -
  have "show_nat n = butlast (show_nat n) @ [last (show_nat n)]" using show_nat_nonempty by simp
  moreover have "last (show_nat n) \<noteq> 10 \<and> last (show_nat n) \<noteq> 13"
    using show_nat_plain [of "last (show_nat n)" n] show_nat_nonempty [of n] by simp
  ultimately show ?thesis
    using strip_header [of "last (show_nat n)" "c # butlast (show_nat n)"] by (metis append.assoc append_Cons)
qed

lemma read_args_bulks:
  "\<forall>a\<in>set args. length a \<le> MAX_BULK_LEN \<Longrightarrow> read_args (length args) (concat (map bulk args) @ post) = Inr (args, post)"
proof (induction args)
  case (Cons a args)
  let ?h = "36 # show_nat (length a) @ [13]"
  let ?tl = "concat (map bulk args) @ post"
  have b: "concat (map bulk (a # args)) @ post = ?h @ 10 # a @ [13, 10] @ ?tl" by (simp add: bulk_def [of a])
  have "\<forall>x\<in>set ?h. x \<noteq> 10" using show_nat_plain by auto
  from read_line_header [OF this] have r: "read_line (?h @ 10 # a @ [13, 10] @ ?tl) = (?h @ [10], a @ [13, 10] @ ?tl)" .
  have len: "parse_len (show_nat (length a)) BadBulkLen = Inr (Some (length a))"
    using parse_len_show [OF bulk_len_small, of a] Cons.prems by simp
  have IH: "read_args (length args) ?tl = Inr (args, post)" using Cons by simp
  show ?case
    unfolding b using Cons.prems by (simp add: r [simplified] strip_digits [simplified] len IH Let_def)
qed simp

lemma read_command_wire:
  assumes "command_ok args"
  shows "read_command (wire_command args @ rest) = Inr (Some args, rest)"
proof -
  let ?h = "42 # show_nat (length args) @ [13]"
  have b: "wire_command args @ rest = ?h @ 10 # concat (map bulk args) @ rest" by (simp add: wire_command_def)
  have "\<forall>x\<in>set ?h. x \<noteq> 10" using show_nat_plain by auto
  from read_line_header [OF this] have r: "read_line (?h @ 10 # concat (map bulk args) @ rest) = (?h @ [10], concat (map bulk args) @ rest)" .
  have n: "length args < 2 ^ 63" using assms by (simp add: command_ok_def MAX_ARGS_def)
  show ?thesis
    unfolding b using assms parse_len_show [OF n, of BadArrayHeader] read_args_bulks [of args rest]
    by (simp add: read_command_def r [simplified] strip_digits [simplified] Let_def command_ok_def)
qed

text \<open>Whatever the bytes, an accepted command consumes some of them and respects the limits.\<close>

lemma position_less: "position P xs = Some i \<Longrightarrow> i < length xs"
  by (induction xs arbitrary: i) (auto split: if_splits)

lemma find_line_end_bound: "find_line_end buf from = Inr (Some i) \<Longrightarrow> from \<le> i \<and> i < length buf"
  by (auto simp: find_line_end_def split: option.splits if_splits dest!: position_less)

lemma parse_args_Suc:
  assumes "parse_args buf (Suc n) pos = Inr (Some (args, q))"
  obtains bnl len as where "find_line_end buf pos = Inr (Some bnl)" "len \<le> MAX_BULK_LEN"
    "Suc bnl + len + 2 \<le> length buf" "parse_args buf n (Suc bnl + len + 2) = Inr (Some (as, q))"
    "args = slice buf (Suc bnl) (Suc bnl + len) # as"
proof -
  from assms obtain bnl where f: "find_line_end buf pos = Inr (Some bnl)"
    by (auto split: if_splits sum.splits option.splits)
  from assms f obtain len where l: "parse_len (slice buf (pos + 1) bnl) BadBulkLen = Inr (Some len)"
    by (auto split: if_splits sum.splits option.splits)
  have len: "len \<le> MAX_BULK_LEN" and fit: "Suc bnl + len + 2 \<le> length buf"
    using assms f l by (auto simp: Let_def split: if_splits)
  have r: "(case parse_args buf n (Suc bnl + len + 2) of Inr (Some (as, q)) \<Rightarrow> Inr (Some (slice buf (Suc bnl) (Suc bnl + len) # as, q)) | r \<Rightarrow> r)
      = Inr (Some (args, q))"
    using assms f l len fit by (simp add: Let_def split: if_splits)
  then obtain as where "parse_args buf n (Suc bnl + len + 2) = Inr (Some (as, q))" "args = slice buf (Suc bnl) (Suc bnl + len) # as"
    by (cases "parse_args buf n (Suc bnl + len + 2)") (auto split: option.splits)
  then show thesis using that [OF f len fit] by blast
qed

lemma parse_args_bound:
  "parse_args buf n pos = Inr (Some (args, q)) \<Longrightarrow>
     pos \<le> q \<and> (pos \<le> length buf \<longrightarrow> q \<le> length buf) \<and> length args = n \<and> (\<forall>a\<in>set args. length a \<le> MAX_BULK_LEN)"
proof (induction n arbitrary: pos args)
  case (Suc n)
  obtain bnl len as where f: "find_line_end buf pos = Inr (Some bnl)" and l: "len \<le> MAX_BULK_LEN"
    and fit: "Suc bnl + len + 2 \<le> length buf" and a: "parse_args buf n (Suc bnl + len + 2) = Inr (Some (as, q))"
    and args: "args = slice buf (Suc bnl) (Suc bnl + len) # as"
    using parse_args_Suc [OF Suc.prems] by blast
  have "length (slice buf (Suc bnl) (Suc bnl + len)) \<le> len" by (simp add: slice_def)
  then have "length (slice buf (Suc bnl) (Suc bnl + len)) \<le> MAX_BULK_LEN" using l by simp
  moreover have "pos \<le> bnl" using find_line_end_bound [OF f] by simp
  ultimately show ?case using Suc.IH [OF a] args fit by simp
qed simp

section \<open>Claims\<close>

text \<open>
  Claim C18. Commands are framed exactly. The encoding of a command within the limits parses to
  its arguments and consumes exactly its bytes, whatever follows in the buffer; every proper
  beginning of it asks for more bytes, without an error and without a wrong command; and the
  blocking reader reads the same command and leaves the rest of the stream.
\<close>

theorem command_framing:
  assumes "command_ok args"
  shows "try_parse (resp_encode (RArray (map RBulk args)) @ rest) = Inr (Some (args, length (resp_encode (RArray (map RBulk args)))))
    \<and> (k < length (resp_encode (RArray (map RBulk args))) \<longrightarrow> try_parse (take k (resp_encode (RArray (map RBulk args)))) = Inr None)
    \<and> read_command (resp_encode (RArray (map RBulk args)) @ rest) = Inr (Some args, rest)"
  unfolding wire_command_encode
  using try_parse_command [OF assms] try_parse_prefix [OF assms] read_command_wire [OF assms] by blast

theorem command_framing_witness:
  "try_parse (resp_encode (RArray (map RBulk [[71, 69, 84], [107]])) @ [42])
     = Inr (Some ([[71, 69, 84], [107]], length (resp_encode (RArray (map RBulk [[71, 69, 84], [107]])))))
   \<and> read_command (resp_encode (RArray (map RBulk [[71, 69, 84], [107]])) @ [42]) = Inr (Some [[71, 69, 84], [107]], [42])"
proof -
  have "command_ok [[71, 69, 84], [107]]" by (simp add: command_ok_def MAX_ARGS_def MAX_BULK_LEN_def)
  from command_framing [OF this, of "[42]"] show ?thesis by blast
qed

text \<open>
  Claim C19. Hostile input is bounded. Whatever bytes a client sends, a command the parser accepts
  consumes at least one and at most the buffered bytes (so the dispatch loop makes progress and
  never reads outside the buffer), and an array command has at most \<open>MAX_ARGS\<close> arguments of at
  most \<open>MAX_BULK_LEN\<close> bytes.
\<close>

theorem parse_bounds:
  assumes "try_parse buf = Inr (Some (args, n))"
  shows "0 < n \<and> n \<le> length buf
    \<and> (hd buf = 42 \<longrightarrow> length args \<le> MAX_ARGS \<and> list_all (\<lambda>a. length a \<le> MAX_BULK_LEN) args)"
proof -
  have ne: "buf \<noteq> []" using assms by (auto simp: try_parse_def)
  obtain nl where nl: "find_line_end buf 0 = Inr (Some nl)"
    using assms ne by (auto simp: try_parse_def split: if_splits sum.splits option.splits)
  have b: "nl < length buf" using find_line_end_bound [OF nl] by simp
  show ?thesis
  proof (cases "hd buf = 42")
    case True
    then have t: "(case parse_len (slice buf 1 nl) BadArrayHeader of
        Inl e \<Rightarrow> Inl e | Inr None \<Rightarrow> Inr (Some ([], nl + 1))
      | Inr (Some c) \<Rightarrow> if c > MAX_ARGS then Inl InvalidMultibulk else parse_args buf c (nl + 1)) = Inr (Some (args, n))"
      using assms ne nl by (simp add: try_parse_def)
    consider "args = []" "n = Suc nl" | c where "c \<le> MAX_ARGS" "parse_args buf c (Suc nl) = Inr (Some (args, n))"
    proof (cases "parse_len (slice buf 1 nl) BadArrayHeader")
      case (Inl e)
      then show thesis using t by simp
    next
      case (Inr o')
      show thesis
      proof (cases o')
        case None
        then show thesis using t Inr that(1) by simp
      next
        case (Some c)
        then show thesis using t Inr that(2) [of c] by (simp split: if_splits)
      qed
    qed
    then show ?thesis
    proof cases
      case 1
      then show ?thesis using b by simp
    next
      case 2
      then show ?thesis using parse_args_bound [OF 2(2)] b by (auto simp: list_all_iff)
    qed
  next
    case False
    then show ?thesis using assms ne nl b by (auto simp: try_parse_def Let_def split: if_splits)
  qed
qed

theorem parse_bounds_witness:
  "\<exists>args n. try_parse [80, 73, 78, 71, 13, 10] = Inr (Some (args, n)) \<and> 0 < n \<and> n \<le> 6"
proof -
  have "try_parse [80, 73, 78, 71, 13, 10] = Inr (Some ([[80, 73, 78, 71]], 6))" by code_simp
  from parse_bounds [OF this] show ?thesis using \<open>try_parse _ = _\<close> by auto
qed

end
