(* ===== verification/Utf8.thy ===== *)
theory Utf8
  imports Value_Codec "HOL-Library.Char_ord"
begin

text \<open>
  \<open>String::from_utf8_lossy\<close>, through which the server reads names, passwords and patterns: every
  maximal ill-formed sequence becomes one replacement character.  A Rust \<open>String\<close> is the
  \<open>string\<close> of its UTF-8 bytes where the code compares it with literals.
\<close>

text \<open>The length of the next character, or of the ill-formed sequence in its place.\<close>

definition utf8_next :: "byte \<Rightarrow> bytes \<Rightarrow> bool \<times> nat" where
  "utf8_next b bs =
     (if in_bytes 0 127 b then (True, 1)
      else if in_bytes 194 223 b then
        (case bs of c # _ \<Rightarrow> if in_bytes 128 191 c then (True, 2) else (False, 1) | [] \<Rightarrow> (False, 1))
      else if in_bytes 224 239 b then
        (case bs of [] \<Rightarrow> (False, 1)
         | c # r \<Rightarrow>
             if in_bytes (if b = 224 then 160 else 128) (if b = 237 then 159 else 191) c then
               (case r of d # _ \<Rightarrow> if in_bytes 128 191 d then (True, 3) else (False, 2) | [] \<Rightarrow> (False, 2))
             else (False, 1))
      else if in_bytes 240 244 b then
        (case bs of [] \<Rightarrow> (False, 1)
         | c # r \<Rightarrow>
             if in_bytes (if b = 240 then 144 else 128) (if b = 244 then 143 else 191) c then
               (case r of [] \<Rightarrow> (False, 2)
                | d # r' \<Rightarrow>
                    if in_bytes 128 191 d then
                      (case r' of e # _ \<Rightarrow> if in_bytes 128 191 e then (True, 4) else (False, 3) | [] \<Rightarrow> (False, 3))
                    else (False, 2))
             else (False, 1))
      else (False, 1))"

lemma utf8_next_pos: "0 < snd (utf8_next b bs)"
  by (simp add: utf8_next_def split: list.splits)

lemma utf8_next_posD: "(ok, n) = utf8_next b bs \<Longrightarrow> 0 < n"
  using utf8_next_pos [of b bs] by (metis snd_conv)

function utf8_lossy :: "bytes \<Rightarrow> bytes" where
  "utf8_lossy [] = []"
| "utf8_lossy (b # bs) =
     (case utf8_next b bs of
        (ok, n) \<Rightarrow> (if ok then take n (b # bs) else [239, 191, 189]) @ utf8_lossy (drop n (b # bs)))"
  by pat_completeness auto
termination
  using utf8_next_pos by (relation "measure length") (auto simp: less_Suc_eq_le dest: utf8_next_posD)

definition as_bytes :: "string \<Rightarrow> bytes" where
  "as_bytes s = map (\<lambda>c. of_nat (of_char c)) s"

definition from_bytes :: "bytes \<Rightarrow> string" where
  "from_bytes b = map (\<lambda>x. char_of (unat x)) b"

definition from_utf8_lossy :: "bytes \<Rightarrow> string" where
  "from_utf8_lossy b = from_bytes (utf8_lossy b)"

lemma utf8_valid_next:
  assumes v: "utf8_valid (b # bs)"
  shows "\<exists>n. utf8_next b bs = (True, n) \<and> utf8_valid (drop n (b # bs))"
proof -
  consider "in_bytes 0 127 b" | "\<not> in_bytes 0 127 b" "in_bytes 194 223 b"
    | "\<not> in_bytes 0 127 b" "\<not> in_bytes 194 223 b" "in_bytes 224 239 b"
    | "\<not> in_bytes 0 127 b" "\<not> in_bytes 194 223 b" "\<not> in_bytes 224 239 b"
    by blast
  then show ?thesis
  proof cases
    case 1
    then show ?thesis using v by (simp add: utf8_next_def)
  next
    case 2
    with v obtain c r where "bs = c # r" "in_bytes 128 191 c" "utf8_valid r" by (cases bs) simp_all
    then show ?thesis using 2 by (simp add: utf8_next_def)
  next
    case 3
    let ?ok = "in_bytes (if b = 224 then 160 else 128) (if b = 237 then 159 else 191)"
    have "case bs of c # d # r \<Rightarrow> ?ok c \<and> in_bytes 128 191 d \<and> utf8_valid r | _ \<Rightarrow> False"
      using v 3 by (simp only: utf8_valid.simps if_True if_False)
    then obtain c d r where "bs = c # d # r" "?ok c" "in_bytes 128 191 d" "utf8_valid r"
      by (cases bs; cases "tl bs") (simp_all only: list.case list.sel)
    then show ?thesis using 3 by (simp add: utf8_next_def)
  next
    case 4
    let ?ok = "in_bytes (if b = 240 then 144 else 128) (if b = 244 then 143 else 191)"
    have i: "in_bytes 240 244 b" using v 4 by (simp only: utf8_valid.simps if_False split: if_splits)
    have "case bs of c # d # e # r \<Rightarrow> ?ok c \<and> in_bytes 128 191 d \<and> in_bytes 128 191 e \<and> utf8_valid r | _ \<Rightarrow> False"
      using v 4 i by (simp only: utf8_valid.simps if_True if_False)
    then obtain c d e r where "bs = c # d # e # r" "?ok c" "in_bytes 128 191 d" "in_bytes 128 191 e" "utf8_valid r"
      by (cases bs; cases "tl bs"; cases "tl (tl bs)") (simp_all only: list.case list.sel)
    then show ?thesis using 4 i by (simp add: utf8_next_def)
  qed
qed

lemma utf8_lossy_valid: "utf8_valid bs \<Longrightarrow> utf8_lossy bs = bs"
proof (induction bs rule: utf8_lossy.induct)
  case (2 b bs)
  obtain n where n: "utf8_next b bs = (True, n)" "utf8_valid (drop n (b # bs))"
    using utf8_valid_next [OF "2.prems"] by blast
  have "utf8_lossy (drop n (b # bs)) = drop n (b # bs)" using "2.IH" n by simp
  then show ?case using n(1) by (simp only: utf8_lossy.simps prod.case if_True append_take_drop_id)
qed simp

lemma as_bytes_from_bytes [simp]: "as_bytes (from_bytes b) = b"
proof -
  have "of_nat (of_char (char_of (unat x))) = (x :: byte)" for x
    using unat_byte_less [of x] by (simp only: of_char_of mod_less of_nat_unat ucast_id)
  then show ?thesis by (simp add: as_bytes_def from_bytes_def comp_def)
qed

lemma from_bytes_as_bytes [simp]: "from_bytes (as_bytes s) = s"
proof -
  have "char_of (unat (of_nat (of_char c) :: byte)) = c" for c :: char
  proof -
    have "unat (of_nat (of_char c) :: byte) = of_char c mod 256" by (simp add: unat_of_nat)
    then show ?thesis by simp
  qed
  then show ?thesis by (simp add: as_bytes_def from_bytes_def comp_def)
qed

lemma length_as_bytes [simp]: "length (as_bytes s) = length s"
  by (simp add: as_bytes_def)

lemma as_bytes_inj: "as_bytes s = as_bytes t \<longleftrightarrow> s = t"
  by (metis from_bytes_as_bytes)

end
