(* ===== verification/Commands.thy ===== *)
theory Commands
  imports Shards Utf8
begin

text \<open>
  The command tables: the ACL categories of every command and the positions of its keys
  (\<open>crates/server/src/acl.rs\<close>), which commands the keyspace executes and which of them write
  (\<open>keyspace.rs\<close>, \<open>keyspace/stream.rs\<close>), what a replica refuses (\<open>replication.rs\<close>) and what the
  event loop may run without waiting for the disk (\<open>eventloop.rs\<close>).

  Command names arrive in upper case.
\<close>

datatype perm_category =
  CAll | CRead | CWrite | CAdmin | CDangerous | CPubSub | CVector | CTimeSeries | CMemory | CTable | CReduce | CConnection

section \<open>Categories\<close>

definition command_categories :: "string \<Rightarrow> perm_category list" where
  "command_categories cmd =
    (if cmd \<in> set [''PING'', ''ECHO'', ''QUIT'', ''HELLO'', ''AUTH'', ''CLIENT'', ''SELECT'', ''RESET'',
           ''TIME'', ''COMMAND'']
     then [CConnection]
     else if cmd \<in> set [''INFO'', ''DBSIZE'', ''CDCLEN'']
     then [CAdmin, CRead]
     else if cmd \<in> set [''GET'', ''MGET'', ''KEYS'', ''EXISTS'', ''TYPE'', ''TTL'', ''PTTL'', ''STRLEN'',
           ''GETAT'', ''SCAN'', ''GETRANGE'']
     then [CRead]
     else if cmd \<in> set [''SET'', ''MSET'', ''MSETNX'', ''DEL'', ''UNLINK'', ''INCR'', ''INCRBY'',
           ''INCRBYFLOAT'', ''DECR'', ''DECRBY'', ''APPEND'', ''GETSET'', ''GETDEL'', ''GETEX'',
           ''SETNX'', ''SETEX'', ''PSETEX'', ''SETRANGE'', ''RENAME'', ''RENAMENX'', ''EXPIRE'',
           ''PEXPIRE'', ''EXPIREAT'', ''PEXPIREAT'', ''PERSIST'']
     then [CWrite]
     else if cmd \<in> set [''EXPIRETIME'', ''PEXPIRETIME'']
     then [CRead]
     else if cmd \<in> set [''MULTI'', ''EXEC'', ''DISCARD'', ''WATCH'', ''UNWATCH'']
     then [CConnection]
     else if cmd \<in> set [''HGET'', ''HMGET'', ''HEXISTS'', ''HLEN'', ''HGETALL'', ''HKEYS'', ''HVALS'',
           ''HSTRLEN'', ''LLEN'', ''LINDEX'', ''LRANGE'', ''LPOS'', ''SISMEMBER'', ''SMISMEMBER'',
           ''SCARD'', ''SMEMBERS'', ''SRANDMEMBER'', ''SINTER'', ''SUNION'', ''SDIFF'',
           ''ZSCORE'', ''ZMSCORE'', ''ZCARD'', ''ZCOUNT'', ''ZRANK'', ''ZREVRANK'', ''ZRANGE'',
           ''ZREVRANGE'', ''ZRANGEBYSCORE'', ''ZREVRANGEBYSCORE'', ''ZRANGEBYLEX'',
           ''ZREVRANGEBYLEX'', ''ZLEXCOUNT'', ''XLEN'', ''XRANGE'', ''XREVRANGE'', ''XREAD'',
           ''XPENDING'', ''XINFO'']
     then [CRead]
     else if cmd \<in> set [''XADD'', ''XDEL'', ''XTRIM'', ''XREADGROUP'', ''XGROUP'', ''XACK'', ''XCLAIM'',
           ''XAUTOCLAIM'', ''XSETID'']
     then [CWrite]
     else if cmd \<in> set [''VC.STATUS'', ''VC.LOG'', ''VC.DIFF'', ''VC.GET'', ''VC.KEYS'', ''VC.HISTORY'']
     then [CRead]
     else if cmd \<in> set [''VC.COMMIT'', ''VC.BRANCH'', ''VC.TAG'', ''VC.RESTORE'']
     then [CWrite]
     else if cmd \<in> set [''VC.INIT'', ''VC.CHECKOUT'', ''VC.MERGE'', ''VC.RESET'', ''VC.REVERT'']
     then [CAdmin, CDangerous]
     else if cmd \<in> set [''HSET'', ''HSETNX'', ''HMSET'', ''HDEL'', ''HINCRBY'', ''HINCRBYFLOAT'', ''LPUSH'',
           ''RPUSH'', ''LPUSHX'', ''RPUSHX'', ''LPOP'', ''RPOP'', ''BLPOP'', ''BRPOP'', ''LSET'',
           ''LTRIM'', ''LREM'', ''LINSERT'', ''RPOPLPUSH'', ''LMOVE'', ''SADD'', ''SREM'',
           ''SPOP'', ''SINTERSTORE'', ''SUNIONSTORE'', ''SDIFFSTORE'', ''SMOVE'', ''ZADD'',
           ''ZREM'', ''ZINCRBY'', ''ZREMRANGEBYSCORE'', ''ZREMRANGEBYRANK'', ''ZREMRANGEBYLEX'',
           ''ZPOPMIN'', ''ZPOPMAX'']
     then [CWrite]
     else if cmd \<in> set [''FLUSHALL'', ''FLUSHDB'', ''CONFIG'', ''CHECKPOINT'', ''MEMTRACK'', ''SHUTDOWN'',
           ''ACL'', ''VSNAPSHOT'', ''GPU.LOAD'', ''GPU.UNLOAD'', ''GPU.MODE'', ''GPU.SWEEP'',
           ''CACHE.CLEAR'', ''CACHE.BUGS'', ''CACHE.TRACES'']
     then [CAdmin, CDangerous]
     else if cmd \<in> set [''GPU.INFO'', ''ROLE'']
     then [CAdmin, CRead]
     else if cmd \<in> set [''WAIT'']
     then [CConnection]
     else if cmd \<in> set [''VBULKLOAD'', ''VBULKLOADNS'']
     then [CVector, CWrite, CDangerous]
     else if cmd \<in> set [''VSEARCH'', ''VSEARCHNS'', ''VSEARCHA'', ''VSEARCHANS'', ''VSEARCH.MANY'',
           ''VSEARCH.MANYNS'', ''VGETPAYLOAD'', ''VLISTNS'', ''VQUANT'', ''VQUANTNS'', ''VFACET'',
           ''VRECOMMEND'']
     then [CVector, CRead]
     else if cmd \<in> set [''VADD'', ''VADDNS'', ''VDEL'', ''VDELNS'', ''VADDBATCH'', ''VADDBATCHNS'',
           ''VSETQUANT'', ''VSETQUANTNS'', ''VFITQUANT'', ''VFITQUANTNS'', ''VCALIBRATE'',
           ''VSETPAYLOAD'', ''VDELPAYLOAD'']
     then [CVector, CWrite]
     else if cmd \<in> set [''TSRANGE'', ''TSRANGE.LATEST'', ''TSLATEST'', ''TSAVG'']
     then [CTimeSeries, CRead]
     else if cmd \<in> set [''TSADD'', ''TSADD.F'']
     then [CTimeSeries, CWrite]
     else if cmd \<in> set [''SUBSCRIBE'', ''PSUBSCRIBE'', ''UNSUBSCRIBE'', ''PUNSUBSCRIBE'', ''PUBLISH'',
           ''PUBSUB'']
     then [CPubSub]
     else if cmd \<in> set [''REDUCE'', ''REDUCE.PROGRAM'']
     then [CReduce, CWrite]
     else if cmd \<in> set [''TABLE.GET'', ''TABLE.SCAN'', ''TABLE.FILTEREQ'']
     then [CTable, CRead]
     else if cmd \<in> set [''TABLE.SET'', ''TABLE.DEL'']
     then [CTable, CWrite]
     else if cmd \<in> set [''MEM.RECALL'', ''MEM.RECALL.AS_OF'', ''MEM.NEIGH'', ''MEM.TRAV'', ''MEM.COUNT'',
           ''MEM.GET'', ''MEM.PROC.GET'', ''MEM.PROC.LIST'', ''MEM.WM_GET'', ''MEM.EPISODES'',
           ''MEM.INCOMING'', ''RAG.SEARCH'', ''RAG.CONTEXT'']
     then [CMemory, CRead]
     else if cmd \<in> set [''MEM.REMEMBER'', ''MEM.REMEMBER.T'', ''MEM.FORGET'', ''MEM.LINK'', ''MEM.UNLINK'',
           ''MEM.CONSOLIDATE'', ''MEM.EPISODES_CLEAR'', ''MEM.PROC.SET'', ''MEM.INVALIDATE'',
           ''MEM.WM_SET'', ''MEM.WM_DELETE'', ''MEM.EPISODE'', ''MEM.EPISODE_FORGET'',
           ''RAG.INGEST'']
     then [CMemory, CWrite]
     else if cmd \<in> set [''CRDT.GET'', ''HLC.NOW'', ''CACHE.GET'']
     then [CRead]
     else if cmd \<in> set [''CRDT.GCOUNTER'', ''CRDT.PNCOUNTER'', ''CRDT.LWW'', ''HLC.UPDATE'', ''CACHE.SET'',
           ''CACHE.SRCSET'', ''CACHE.SRCDEL'', ''CACHE.INVALIDATE'']
     then [CWrite]
     else [CAdmin, CDangerous])"

section \<open>Reads and writes\<close>

definition stream_cmds :: "string list" where
  "stream_cmds =
    [''XADD'', ''XLEN'', ''XRANGE'', ''XREVRANGE'', ''XDEL'', ''XTRIM'', ''XREAD'',
     ''XREADGROUP'', ''XGROUP'', ''XACK'', ''XPENDING'', ''XCLAIM'', ''XAUTOCLAIM'',
     ''XINFO'', ''XSETID'']"

definition is_stream_cmd :: "string \<Rightarrow> bool" where
  "is_stream_cmd name \<longleftrightarrow> name \<in> set stream_cmds"

definition is_stream_read :: "string \<Rightarrow> bool" where
  "is_stream_read name \<longleftrightarrow> name \<in> set
    [''XLEN'', ''XRANGE'', ''XREVRANGE'', ''XREAD'', ''XPENDING'', ''XINFO'']"

definition keyspace_cmds :: "string list" where
  "keyspace_cmds =
    [''GET'', ''SET'', ''SETNX'', ''SETEX'', ''PSETEX'', ''GETSET'', ''GETDEL'', ''GETEX'',
     ''APPEND'', ''STRLEN'', ''GETRANGE'', ''SETRANGE'', ''INCR'', ''DECR'', ''INCRBY'',
     ''DECRBY'', ''INCRBYFLOAT'', ''MGET'', ''MSET'', ''MSETNX'', ''DEL'', ''UNLINK'',
     ''EXISTS'', ''TYPE'', ''RENAME'', ''RENAMENX'', ''EXPIRE'', ''PEXPIRE'', ''EXPIREAT'',
     ''PEXPIREAT'', ''TTL'', ''PTTL'', ''EXPIRETIME'', ''PEXPIRETIME'', ''PERSIST'',
     ''HSET'', ''HSETNX'', ''HMSET'', ''HGET'', ''HMGET'', ''HDEL'', ''HEXISTS'', ''HLEN'',
     ''HGETALL'', ''HKEYS'', ''HVALS'', ''HINCRBY'', ''HINCRBYFLOAT'', ''HSTRLEN'',
     ''LPUSH'', ''RPUSH'', ''LPUSHX'', ''RPUSHX'', ''LPOP'', ''RPOP'', ''LLEN'', ''LINDEX'',
     ''LSET'', ''LRANGE'', ''LTRIM'', ''LREM'', ''LINSERT'', ''LPOS'', ''RPOPLPUSH'',
     ''LMOVE'', ''SADD'', ''SREM'', ''SISMEMBER'', ''SMISMEMBER'', ''SCARD'', ''SMEMBERS'',
     ''SPOP'', ''SRANDMEMBER'', ''SINTER'', ''SUNION'', ''SDIFF'', ''SINTERSTORE'',
     ''SUNIONSTORE'', ''SDIFFSTORE'', ''SMOVE'', ''ZADD'', ''ZREM'', ''ZSCORE'',
     ''ZMSCORE'', ''ZINCRBY'', ''ZCARD'', ''ZCOUNT'', ''ZRANK'', ''ZREVRANK'', ''ZRANGE'',
     ''ZREVRANGE'', ''ZRANGEBYSCORE'', ''ZREVRANGEBYSCORE'', ''ZREMRANGEBYSCORE'',
     ''ZREMRANGEBYRANK'', ''ZPOPMIN'', ''ZPOPMAX'', ''ZRANGEBYLEX'', ''ZREVRANGEBYLEX'',
     ''ZLEXCOUNT'', ''ZREMRANGEBYLEX'', ''PING'', ''ECHO'', ''TIME'']"

definition is_keyspace_cmd :: "string \<Rightarrow> bool" where
  "is_keyspace_cmd name \<longleftrightarrow> name \<in> set keyspace_cmds \<or> is_stream_cmd name"

definition is_keyspace_write :: "string \<Rightarrow> bool" where
  "is_keyspace_write name \<longleftrightarrow> is_keyspace_cmd name
    \<and> name \<notin> set
      [''GET'', ''STRLEN'', ''GETRANGE'', ''MGET'', ''EXISTS'', ''TYPE'', ''TTL'', ''PTTL'',
       ''EXPIRETIME'', ''PEXPIRETIME'', ''HGET'', ''HMGET'', ''HEXISTS'', ''HLEN'',
       ''HGETALL'', ''HKEYS'', ''HVALS'', ''HSTRLEN'', ''LLEN'', ''LINDEX'', ''LRANGE'',
       ''LPOS'', ''SISMEMBER'', ''SMISMEMBER'', ''SCARD'', ''SMEMBERS'', ''SRANDMEMBER'',
       ''SINTER'', ''SUNION'', ''SDIFF'', ''ZSCORE'', ''ZMSCORE'', ''ZCARD'', ''ZCOUNT'',
       ''ZRANK'', ''ZREVRANK'', ''ZRANGE'', ''ZREVRANGE'', ''ZRANGEBYSCORE'',
       ''ZREVRANGEBYSCORE'', ''ZRANGEBYLEX'', ''ZREVRANGEBYLEX'', ''ZLEXCOUNT'', ''PING'',
       ''ECHO'', ''TIME'']
    \<and> \<not> is_stream_read name"

definition is_write_command :: "string \<Rightarrow> bool" where
  "is_write_command name \<longleftrightarrow> name \<in> set
      [''FLUSHALL'', ''FLUSHDB'', ''VSNAPSHOT'', ''BLPOP'', ''BRPOP'', ''VC.INIT'',
       ''VC.CHECKOUT'', ''VC.MERGE'', ''VC.RESET'', ''VC.REVERT'']
    \<or> CWrite \<in> set (command_categories name)"

definition other_reads :: "string list" where
  "other_reads =
    [''PING'', ''ECHO'', ''TIME'', ''QUIT'', ''HELLO'', ''CLIENT'', ''SELECT'', ''DBSIZE'',
     ''INFO'', ''COMMAND'', ''CONFIG'', ''ROLE'', ''PUBSUB'', ''KEYS'', ''SCAN'',
     ''SCANRANGE'', ''GETAT'', ''VSEARCH'', ''VSEARCHNS'', ''VSEARCHA'', ''VSEARCHANS'',
     ''VSEARCH.MANY'', ''VSEARCH.MANYNS'', ''VGETPAYLOAD'', ''VLISTNS'', ''VQUANT'',
     ''VQUANTNS'', ''VFACET'', ''VRECOMMEND'', ''TSRANGE'', ''TSRANGE.LATEST'',
     ''TSLATEST'', ''TSAVG'', ''TABLE.GET'', ''TABLE.SCAN'', ''TABLE.FILTEREQ'',
     ''CRDT.GET'', ''HLC.NOW'', ''MEM.RECALL'', ''MEM.RECALL.AS_OF'', ''MEM.GET'',
     ''MEM.COUNT'', ''MEM.NEIGH'', ''MEM.TRAV'', ''MEM.PROC.GET'', ''MEM.PROC.LIST'',
     ''MEM.EPISODES'', ''MEM.INCOMING'', ''CDCLEN'', ''GPU.INFO'', ''MULTI'', ''DISCARD'',
     ''WATCH'', ''UNWATCH'', ''SUBSCRIBE'', ''PSUBSCRIBE'', ''REPLSYNC'', ''MEMTRACK'']"

definition is_read_only :: "string \<Rightarrow> bool" where
  "is_read_only name = (if is_keyspace_cmd name then \<not> is_keyspace_write name else name \<in> set other_reads)"

section \<open>Keys of a command\<close>

fun step_by2 :: "'a list \<Rightarrow> 'a list" where
  "step_by2 [] = []"
| "step_by2 [a] = [a]"
| "step_by2 (a # b # r) = a # step_by2 r"

definition ascii_upper_byte :: "byte \<Rightarrow> byte" where
  "ascii_upper_byte b = (if 97 \<le> b \<and> b \<le> 122 then b - 32 else b)"

definition eq_ignore_ascii_case :: "bytes \<Rightarrow> bytes \<Rightarrow> bool" where
  "eq_ignore_ascii_case a b \<longleftrightarrow> map ascii_upper_byte a = map ascii_upper_byte b"

definition command_keys :: "string \<Rightarrow> bytes list \<Rightarrow> bytes list" where
  "command_keys cmd args =
    (if cmd \<in> set [''GET'', ''SET'', ''INCR'', ''INCRBY'', ''DECR'', ''DECRBY'', ''APPEND'', ''STRLEN'',
           ''TYPE'', ''TTL'', ''PTTL'', ''EXPIRE'', ''PEXPIRE'', ''PERSIST'', ''GETSET'',
           ''GETDEL'', ''SETNX'', ''GETRANGE'']
     then take 1 args
     else if cmd \<in> set [''DEL'', ''UNLINK'', ''MGET'', ''EXISTS'', ''WATCH'', ''SINTER'', ''SUNION'',
           ''SDIFF'', ''SINTERSTORE'', ''SUNIONSTORE'', ''SDIFFSTORE'']
     then args
     else if cmd \<in> set [''MSET'', ''MSETNX''] then step_by2 args
     else if cmd \<in> set [''RENAME'', ''RENAMENX'', ''SMOVE'', ''RPOPLPUSH'', ''LMOVE''] then take 2 args
     else if cmd \<in> set [''BLPOP'', ''BRPOP''] then take (length args - 1) args
     else if cmd \<in> set [''SETEX'', ''PSETEX'', ''GETEX'', ''SETRANGE'', ''INCRBYFLOAT'', ''EXPIREAT'',
           ''PEXPIREAT'', ''EXPIRETIME'', ''PEXPIRETIME'']
     then take 1 args
     else if cmd \<in> set [''XREAD'', ''XREADGROUP''] then
       (case position (\<lambda>a. eq_ignore_ascii_case a (as_bytes ''STREAMS'')) args of
          Some p \<Rightarrow> (let rest = drop (p + 1) args in take (length rest div 2) rest)
        | None \<Rightarrow> [])
     else if cmd \<in> set [''XGROUP'', ''XINFO''] then take 1 (drop 1 args)
     else if cmd = ''VC.GET'' then take 1 (drop 1 args)
     else if cmd = ''VC.RESTORE'' then drop 1 args
     else if cmd = ''VC.HISTORY'' then take 1 args
     else if is_keyspace_cmd cmd \<and> cmd \<notin> {''PING'', ''ECHO'', ''TIME''} then take 1 args
     else [])"

section \<open>Claims\<close>

lemma writes_refused1: "list_all (\<lambda>c. is_keyspace_write c = is_write_command c) (take 60 keyspace_cmds)"
  by code_simp

lemma writes_refused2: "list_all (\<lambda>c. is_keyspace_write c = is_write_command c) (drop 60 keyspace_cmds)"
  by code_simp

lemma writes_refused3: "list_all (\<lambda>c. is_keyspace_write c = is_write_command c) stream_cmds"
  by code_simp

lemma other_reads_accepted: "list_all (\<lambda>c. \<not> is_write_command c) other_reads"
  by code_simp

text \<open>
  Claim C26. The command tables agree. A keyspace command may write exactly when a replica refuses
  it, so no write slips past a replica and no read is refused; and a command the event loop runs
  without waiting for the disk is never one a replica refuses.
\<close>

theorem command_tables_agree:
  "(is_keyspace_cmd c \<longrightarrow> is_keyspace_write c = is_write_command c) \<and> (is_read_only c \<longrightarrow> \<not> is_write_command c)"
proof -
  have "is_keyspace_write c = is_write_command c" if "is_keyspace_cmd c"
  proof -
    have "c \<in> set (take 60 keyspace_cmds) \<union> set (drop 60 keyspace_cmds) \<union> set stream_cmds"
      using that append_take_drop_id [of 60 keyspace_cmds] by (metis UnI1 UnI2 is_keyspace_cmd_def is_stream_cmd_def set_append)
    then show ?thesis using writes_refused1 writes_refused2 writes_refused3 by (auto simp: list_all_iff)
  qed
  then show ?thesis using other_reads_accepted by (auto simp: is_read_only_def list_all_iff split: if_splits)
qed

theorem command_tables_agree_witness:
  "is_write_command ''HSET'' \<and> \<not> is_write_command ''ZRANGE''"
  using command_tables_agree [of "''HSET''"] command_tables_agree [of "''ZRANGE''"]
  by (simp add: is_keyspace_cmd_def is_keyspace_write_def keyspace_cmds_def is_stream_read_def)

end
