(* ===== verification/Float_Text.thy ===== *)
theory Float_Text
  imports Resp
begin

text \<open>
  Doubles and their text, as the keyspace commands use them (\<open>fmt_f64\<close>, \<open>parse_f64\<close> of
  \<open>crates/server/src/keyspace.rs\<close>).  A double is its bit pattern; its value is a fraction of
  integers, and every operation is the exact one followed by rounding to nearest, ties to even.
  Rust prints the shortest decimal that reads back as the same double.
\<close>

type_synonym f64 = "64 word"

section \<open>Bit patterns and values\<close>

definition f64_neg :: "f64 \<Rightarrow> bool" where "f64_neg f \<longleftrightarrow> bit f 63"

definition f64_exp :: "f64 \<Rightarrow> nat" where "f64_exp f = unat f div 2 ^ 52 mod 2048"

definition f64_man :: "f64 \<Rightarrow> nat" where "f64_man f = unat f mod 2 ^ 52"

definition f64_nan :: "f64 \<Rightarrow> bool" where "f64_nan f \<longleftrightarrow> f64_exp f = 2047 \<and> f64_man f \<noteq> 0"

definition f64_infinite :: "f64 \<Rightarrow> bool" where "f64_infinite f \<longleftrightarrow> f64_exp f = 2047 \<and> f64_man f = 0"

definition f64_finite :: "f64 \<Rightarrow> bool" where "f64_finite f \<longleftrightarrow> f64_exp f \<noteq> 2047"

text \<open>The magnitude of a finite double in units of \<open>2 ^ -1074\<close>, the least positive double.\<close>

definition f64_mag :: "f64 \<Rightarrow> nat" where
  "f64_mag f = (if f64_exp f = 0 then f64_man f else (2 ^ 52 + f64_man f) * 2 ^ (f64_exp f - 1))"

definition f64_bits :: "bool \<Rightarrow> nat \<Rightarrow> f64" where
  "f64_bits neg n = of_nat ((if neg then 2 ^ 63 else 0) + n)"

definition f64_inf :: "bool \<Rightarrow> f64" where "f64_inf neg = f64_bits neg (2047 * 2 ^ 52)"

section \<open>Rounding\<close>

fun bit_length :: "nat \<Rightarrow> nat" where
  "bit_length n = (if n = 0 then 0 else Suc (bit_length (n div 2)))"

declare bit_length.simps [simp del]

text \<open>The fraction \<open>num / den\<close>, in units of \<open>2 ^ -1074\<close>, to the nearest double.\<close>

definition round_half_even :: "nat \<Rightarrow> nat \<Rightarrow> nat" where
  "round_half_even num den =
     (let q = num div den; r = num mod den
      in if 2 * r < den \<or> (2 * r = den \<and> even q) then q else q + 1)"

definition f64_round :: "bool \<Rightarrow> nat \<Rightarrow> nat \<Rightarrow> f64" where
  "f64_round neg num den =
     (let e = bit_length (num div den) - 53;
          q = round_half_even num (den * 2 ^ e);
          bits = (if q < 2 ^ 52 then q else e * 2 ^ 52 + q)
      in if bits \<ge> 2047 * 2 ^ 52 then f64_inf neg else f64_bits neg bits)"

text \<open>Addition.\<close>

definition f64_signed :: "f64 \<Rightarrow> int" where
  "f64_signed f = (if f64_neg f then - int (f64_mag f) else int (f64_mag f))"

definition f64_add :: "f64 \<Rightarrow> f64 \<Rightarrow> f64" where
  "f64_add a b =
     (if f64_nan a \<or> f64_nan b \<or> (f64_infinite a \<and> f64_infinite b \<and> f64_neg a \<noteq> f64_neg b)
        then of_nat (2047 * 2 ^ 52 + 2 ^ 51)
      else if f64_infinite a then a
      else if f64_infinite b then b
      else
        let s = f64_signed a + f64_signed b
        in if s = 0 then f64_bits (f64_neg a \<and> f64_neg b) 0
           else f64_round (s < 0) (nat \<bar>s\<bar>) 1)"

section \<open>Reading\<close>

definition ascii_lower_byte :: "byte \<Rightarrow> byte" where
  "ascii_lower_byte b = (if 65 \<le> b \<and> b \<le> 90 then b + 32 else b)"

text \<open>\<open>digits [ . digits ] [ e [ + | - ] digits ]\<close>, with a digit on one side of the point.\<close>

definition parse_exponent :: "bytes \<Rightarrow> int option" where
  "parse_exponent b =
     (case b of
        [] \<Rightarrow> Some 0
      | c # r \<Rightarrow>
          if c = 101 \<or> c = 69 then
            (let neg = (r \<noteq> [] \<and> hd r = 45);
                 ds = (if r \<noteq> [] \<and> (hd r = 45 \<or> hd r = 43) then tl r else r)
             in if ds = [] \<or> \<not> list_all is_digit ds then None
                else Some (if neg then - int (digits_val ds) else int (digits_val ds)))
          else None)"

definition decimal_f64 :: "bool \<Rightarrow> nat \<Rightarrow> int \<Rightarrow> f64" where
  "decimal_f64 neg d e =
     (if e < 0 then f64_round neg (d * 2 ^ 1074) (10 ^ nat (- e)) else f64_round neg (d * 10 ^ nat e * 2 ^ 1074) 1)"

definition parse_number :: "bool \<Rightarrow> bytes \<Rightarrow> f64 option" where
  "parse_number neg b =
     (let ip = takeWhile is_digit b;
          r = dropWhile is_digit b;
          point = (r \<noteq> [] \<and> hd r = 46);
          fp = (if point then takeWhile is_digit (tl r) else []);
          r = (if point then dropWhile is_digit (tl r) else r)
      in if ip = [] \<and> fp = [] then None
         else map_option (\<lambda>e. decimal_f64 neg (digits_val (ip @ fp)) (e - int (length fp))) (parse_exponent r))"

text \<open>\<open>str::parse::<f64>\<close>.\<close>

definition rust_parse_f64 :: "bytes \<Rightarrow> f64 option" where
  "rust_parse_f64 b =
     (let neg = (b \<noteq> [] \<and> hd b = 45);
          r = (if b \<noteq> [] \<and> (hd b = 45 \<or> hd b = 43) then tl b else b);
          l = map ascii_lower_byte r
      in if l = [105, 110, 102] \<or> l = [105, 110, 102, 105, 110, 105, 116, 121] then Some (f64_inf neg)
         else if l = [110, 97, 110] then Some (f64_bits neg (2047 * 2 ^ 52 + 2 ^ 51))
         else parse_number neg r)"

definition parse_f64 :: "bytes \<Rightarrow> f64 option" where
  "parse_f64 a =
     (if \<not> utf8_valid a then None
      else
        let s = trim a;
            l = map ascii_lower_byte s;
            v = (if l = [105, 110, 102] \<or> l = [43, 105, 110, 102] then Some (f64_inf False)
                 else if l = [45, 105, 110, 102] then Some (f64_inf True)
                 else rust_parse_f64 s)
        in case v of None \<Rightarrow> None | Some v \<Rightarrow> if f64_nan v then None else Some v)"

section \<open>Printing\<close>

text \<open>
  The shortest decimal, \<open>d * 10 ^ e\<close>: with \<open>n = 1, 2, \<dots>\<close> significant digits, the two decimals
  around the value that read back, the closer one when both do.
\<close>

definition f64_abs :: "f64 \<Rightarrow> f64" where "f64_abs f = f64_bits False (unat f mod 2 ^ 63)"

text \<open>The value is below \<open>10 ^ p\<close> and not below \<open>10 ^ (p - 1)\<close>.\<close>

definition decimal_point :: "f64 \<Rightarrow> int" where
  "decimal_point f = int (length (show_nat (f64_mag f * 10 ^ 400 div 2 ^ 1074))) - 400"

definition decimal_candidate :: "f64 \<Rightarrow> nat \<Rightarrow> (nat \<times> int) option" where
  "decimal_candidate f n =
     (let e = decimal_point f - int n;
          num = (if e < 0 then f64_mag f * 10 ^ nat (- e) else f64_mag f);
          den = (if e < 0 then 2 ^ 1074 else 10 ^ nat e * 2 ^ 1074);
          d = num div den;
          lo = (decimal_f64 False d e = f64_abs f);
          hi = (decimal_f64 False (d + 1) e = f64_abs f)
      in if lo \<and> (\<not> hi \<or> 2 * (num mod den) < den) then Some (d, e)
         else if hi then Some (if d + 1 = 10 then (1, e + 1) else (d + 1, e))
         else None)"

fun shortest_decimal :: "f64 \<Rightarrow> nat \<Rightarrow> nat \<Rightarrow> (nat \<times> int) option" where
  "shortest_decimal f 0 n = None"
| "shortest_decimal f (Suc k) n =
     (case decimal_candidate f n of Some r \<Rightarrow> Some r | None \<Rightarrow> shortest_decimal f k (n + 1))"

text \<open>\<open>Display\<close> of a double: no exponent, zeros where the digits do not reach the point.\<close>

definition plain_decimal :: "nat \<Rightarrow> int \<Rightarrow> bytes" where
  "plain_decimal d e =
     (let ds = show_nat d; k = nat (- e)
      in if e \<ge> 0 then ds @ replicate (nat e) 48
         else if k < length ds then take (length ds - k) ds @ [46] @ drop (length ds - k) ds
         else [48, 46] @ replicate (k - length ds) 48 @ ds)"

definition show_f64 :: "f64 \<Rightarrow> bytes" where
  "show_f64 f =
     (if f64_nan f then [78, 97, 78]
      else (if f64_neg f then [45] else [])
        @ (if f64_infinite f then [105, 110, 102]
           else if f64_mag f = 0 then [48]
           else case shortest_decimal f 17 1 of Some (d, e) \<Rightarrow> plain_decimal d e | None \<Rightarrow> []))"

definition fmt_f64 :: "f64 \<Rightarrow> bytes" where
  "fmt_f64 f =
     (if f64_infinite f then (if f64_neg f then [45, 105, 110, 102] else [105, 110, 102])
      else if f64_finite f \<and> f64_mag f mod 2 ^ 1074 = 0 \<and> f64_mag f < 10 ^ 17 * 2 ^ 1074
        then show_i64 (word_of_int (if f64_neg f then - int (f64_mag f div 2 ^ 1074) else int (f64_mag f div 2 ^ 1074)))
      else show_f64 f)"

end
