(* ===== verification/Header.thy ===== *)
theory Header
  imports Keys Resp Utf8 Commands Float_Text
begin

text \<open>
  The collection header of \<open>crates/server/src/keyspace.rs\<close> (\<open>Meta\<close>), the error replies of the
  server and the argument parsing the commands share.  Counters of the header are machine words:
  the release build wraps them.
\<close>

section \<open>The header\<close>

definition SUB_XENT :: byte where "SUB_XENT = 120"
definition SUB_XGRP :: byte where "SUB_XGRP = 103"
definition SUB_XPEL :: byte where "SUB_XPEL = 112"
definition SUB_XCON :: byte where "SUB_XCON = 113"

record meta =
  mt_ty :: byte
  mt_len :: "64 word"
  mt_head :: i64
  mt_tail :: i64
  mt_ver :: "64 word"
  mt_ext :: "64 word \<times> 64 word \<times> 64 word"

definition meta_new :: "byte \<Rightarrow> meta" where
  "meta_new ty = \<lparr>mt_ty = ty, mt_len = 0, mt_head = 0, mt_tail = 0, mt_ver = 0, mt_ext = (0, 0, 0)\<rparr>"

definition le_word :: "64 word \<Rightarrow> bytes" where
  "le_word w = le_bytes 8 (unat w)"

definition meta_encode :: "meta \<Rightarrow> bytes" where
  "meta_encode m =
     mt_ty m # le_word (mt_len m) @ le_word (mt_head m) @ le_word (mt_tail m) @ le_word (mt_ver m)
     @ (if mt_ty m = T_STREAM then (case mt_ext m of (x, y, z) \<Rightarrow> le_word x @ le_word y @ le_word z) else [])"

definition word_at :: "bytes \<Rightarrow> nat \<Rightarrow> 64 word" where
  "word_at b i = of_nat (le_nat (take 8 (drop i b)))"

definition meta_decode :: "bytes \<Rightarrow> meta option" where
  "meta_decode b =
     (if length b \<noteq> 33 \<and> length b \<noteq> 57 then None
      else Some \<lparr>mt_ty = b ! 0, mt_len = word_at b 1, mt_head = word_at b 9, mt_tail = word_at b 17,
                 mt_ver = word_at b 25,
                 mt_ext = (if length b = 57 then (word_at b 33, word_at b 41, word_at b 49) else (0, 0, 0))\<rparr>)"

definition type_name :: "meta \<Rightarrow> string" where
  "type_name m =
     (if mt_ty m = T_HASH then ''hash'' else if mt_ty m = T_LIST then ''list''
      else if mt_ty m = T_SET then ''set'' else if mt_ty m = T_ZSET then ''zset''
      else if mt_ty m = T_STREAM then ''stream'' else ''unknown'')"

definition type_subs :: "byte \<Rightarrow> byte list" where
  "type_subs ty =
     (if ty = T_HASH then [SUB_HASH] else if ty = T_LIST then [SUB_LIST]
      else if ty = T_SET then [SUB_SET, SUB_SETPOS] else if ty = T_ZSET then [SUB_ZMEM, SUB_ZSCORE]
      else if ty = T_STREAM then [SUB_XENT, SUB_XGRP, SUB_XPEL, SUB_XCON] else [])"

section \<open>Replies\<close>

definition err_codes :: "string list" where
  "err_codes = [''ERR'', ''NOAUTH'', ''NOPERM'', ''NOPROTO'', ''WRONGPASS'', ''WRONGTYPE'', ''EXECABORT'',
     ''NOSCRIPT'', ''BUSYKEY'', ''READONLY'', ''NOGROUP'', ''BUSYGROUP'']"

definition err :: "string \<Rightarrow> resp" where
  "err msg =
     (if takeWhile (\<lambda>c. c \<noteq> CHR '' '') msg \<in> set err_codes then RError (as_bytes msg)
      else RError (as_bytes (''ERR '' @ msg)))"

definition WRONGTYPE :: string where
  "WRONGTYPE = ''WRONGTYPE Operation against a key holding the wrong kind of value''"

definition lower_name :: "string \<Rightarrow> string" where
  "lower_name s = from_bytes (map ascii_lower_byte (as_bytes s))"

definition upper_name :: "bytes \<Rightarrow> string" where
  "upper_name b = from_bytes (map ascii_upper_byte (utf8_lossy b))"

definition wrong_args :: "string \<Rightarrow> resp" where
  "wrong_args name = err (''wrong number of arguments for '' @ [CHR 0x27] @ lower_name name @ [CHR 0x27] @ '' command'')"

definition ok_reply :: resp where "ok_reply = RSimple (as_bytes ''OK'')"

definition not_int :: resp where "not_int = err ''value is not an integer or out of range''"

definition not_float :: resp where "not_float = err ''value is not a valid float''"

definition invalid_expire :: "string \<Rightarrow> resp" where
  "invalid_expire name = err (''invalid expire time in '' @ [CHR 0x27] @ name @ [CHR 0x27] @ '' command'')"

section \<open>Deadlines and ranges\<close>

definition checked_mul_i64 :: "i64 \<Rightarrow> i64 \<Rightarrow> i64 option" where
  "checked_mul_i64 a b = i64_of_int (sint a * sint b)"

text \<open>\<open>EX\<close>, \<open>PX\<close>, \<open>EXAT\<close>, \<open>PXAT\<close> to an absolute deadline in milliseconds.\<close>

definition abs_deadline_signed :: "string \<Rightarrow> i64 \<Rightarrow> nat \<Rightarrow> nat option" where
  "abs_deadline_signed unit v now =
     (case (if unit = ''EX'' \<or> unit = ''EXAT'' then checked_mul_i64 v 1000
            else if unit = ''PX'' \<or> unit = ''PXAT'' then Some v else None) of
        None \<Rightarrow> None
      | Some ms \<Rightarrow>
          (case (if unit = ''EX'' \<or> unit = ''PX''
                 then (case i64_of_int (int now) of None \<Rightarrow> None | Some n \<Rightarrow> checked_add_i64 ms n)
                 else Some ms) of
             None \<Rightarrow> None
           | Some ms \<Rightarrow> Some (nat (max (sint ms) 0))))"

definition abs_deadline :: "string \<Rightarrow> i64 \<Rightarrow> nat \<Rightarrow> nat option" where
  "abs_deadline unit v now = (if sint v \<le> 0 then None else abs_deadline_signed unit v now)"

text \<open>A \<open>[start, stop]\<close> index pair against a length; \<open>None\<close> is the empty range.\<close>

definition norm_range :: "i64 \<Rightarrow> i64 \<Rightarrow> i64 \<Rightarrow> (i64 \<times> i64) option" where
  "norm_range start stop len =
     (let s = (if sint start < 0 then (if sint (len + start) < 0 then 0 else len + start) else start);
          e = (if sint stop < 0 then len + stop else if sint stop \<le> sint (len - 1) then stop else len - 1)
      in if sint s \<le> sint e \<and> sint s < sint len then Some (s, e) else None)"

definition val_bytes :: "val \<Rightarrow> bytes" where
  "val_bytes v =
     (case v of VBytes b \<Rightarrow> b | VInt i \<Rightarrow> show_i64 i | VFloat f \<Rightarrow> fmt_f64 f | _ \<Rightarrow> [])"

section \<open>Round trip\<close>

definition meta_ok :: "meta \<Rightarrow> bool" where
  "meta_ok m \<longleftrightarrow> mt_ty m = T_STREAM \<or> mt_ext m = (0, 0, 0)"

lemma length_le_word [simp]: "length (le_word w) = 8"
  by (simp add: le_word_def)

lemma word_at_mid: "i = length p \<Longrightarrow> word_at (p @ le_word w @ q) i = w"
  by (simp add: word_at_def le_word_def)

lemma meta_decode_encode [codec]: "meta_ok m \<Longrightarrow> meta_decode (meta_encode m) = Some m"
proof -
  assume ok: "meta_ok m"
  obtain x y z where e: "mt_ext m = (x, y, z)" by (cases "mt_ext m")
  let ?t = "[mt_ty m]" and ?l = "le_word (mt_len m)" and ?h = "le_word (mt_head m)"
    and ?ta = "le_word (mt_tail m)" and ?v = "le_word (mt_ver m)"
    and ?x = "if mt_ty m = T_STREAM then le_word x @ le_word y @ le_word z else []"
  have enc: "meta_encode m = ?t @ ?l @ ?h @ ?ta @ ?v @ ?x" by (simp add: meta_encode_def e)
  have w: "word_at (meta_encode m) 1 = mt_len m" "word_at (meta_encode m) 9 = mt_head m"
    "word_at (meta_encode m) 17 = mt_tail m" "word_at (meta_encode m) 25 = mt_ver m"
    using word_at_mid [of 1 ?t "mt_len m"] word_at_mid [of 9 "?t @ ?l" "mt_head m"]
      word_at_mid [of 17 "?t @ ?l @ ?h" "mt_tail m"] word_at_mid [of 25 "?t @ ?l @ ?h @ ?ta" "mt_ver m"]
    unfolding enc by simp_all
  have s: "word_at (meta_encode m) 33 = x" "word_at (meta_encode m) 41 = y" "word_at (meta_encode m) 49 = z"
    if "mt_ty m = T_STREAM"
    using that word_at_mid [of 33 "?t @ ?l @ ?h @ ?ta @ ?v" x] word_at_mid [of 41 "?t @ ?l @ ?h @ ?ta @ ?v @ le_word x" y]
      word_at_mid [of 49 "?t @ ?l @ ?h @ ?ta @ ?v @ le_word x @ le_word y" z "[]"]
    unfolding enc by simp_all
  have len: "length (meta_encode m) = (if mt_ty m = T_STREAM then 57 else 33)" "meta_encode m ! 0 = mt_ty m"
    unfolding enc by simp_all
  show ?thesis
    using ok s e by (auto simp: meta_decode_def meta_ok_def len w [unfolded One_nat_def] intro!: meta.equality)
qed

lemma meta_new_simps [simp]:
  "mt_ty (meta_new ty) = ty" "mt_len (meta_new ty) = 0" "mt_ver (meta_new ty) = 0"
  "mt_head (meta_new ty) = 0" "mt_tail (meta_new ty) = 0"
  by (simp_all add: meta_new_def)

lemma meta_new_ok [simp]: "meta_ok (meta_new ty)"
  by (simp add: meta_ok_def meta_new_def)

end
