(* ===== verification/Txn.thy ===== *)
theory Txn
  imports Engine_Safety
begin

text \<open>
  Transactions (\<open>Txn\<close> in \<open>crates/storage/src/engine.rs\<close>): reads at a registered snapshot over
  the transaction's own writes, range reads that over-fetch by the number of buffered writes,
  and a commit that carries the read set and the watched keys to the flusher.  A transaction
  provides the same store interface as an operation on the commit path.
\<close>

section \<open>State and operations\<close>

record txn =
  tx_snapshot :: nat
  tx_writes :: "(key, val) btree"
  tx_reads :: "key list"
  tx_watches :: "(key \<times> nat) list"

definition txn_begin :: "engine \<Rightarrow> txn \<times> engine" where
  "txn_begin e =
     (\<lparr>tx_snapshot = snapshot e, tx_writes = [], tx_reads = [], tx_watches = []\<rparr>, pin (snapshot e) e)"

definition txn_get :: "shards \<Rightarrow> key \<Rightarrow> txn \<Rightarrow> val option \<times> txn" where
  "txn_get sh k t =
     (case bt_get (tx_writes t) k of
        Some v \<Rightarrow> ((if v = VTombstone then None else Some v), t)
      | None \<Rightarrow> (get_at sh k (tx_snapshot t), t\<lparr>tx_reads := tx_reads t @ [k]\<rparr>))"

definition txn_has_writes :: "txn \<Rightarrow> bool" where
  "txn_has_writes t \<longleftrightarrow> tx_writes t \<noteq> []"

definition txn_watch :: "key \<Rightarrow> nat \<Rightarrow> txn \<Rightarrow> txn" where
  "txn_watch k s t = t\<lparr>tx_watches := tx_watches t @ [(k, s)]\<rparr>"

definition txn_put :: "key \<Rightarrow> val \<Rightarrow> txn \<Rightarrow> txn" where
  "txn_put k v t = t\<lparr>tx_writes := bt_insert k v (tx_writes t)\<rparr>"

definition txn_delete :: "key \<Rightarrow> txn \<Rightarrow> txn" where
  "txn_delete k t = t\<lparr>tx_writes := bt_insert k VTombstone (tx_writes t)\<rparr>"

definition txn_discard :: "txn \<Rightarrow> txn" where
  "txn_discard t = t\<lparr>tx_writes := []\<rparr>"

definition txn_version :: "shards \<Rightarrow> key \<Rightarrow> txn \<Rightarrow> nat" where
  "txn_version sh k t = (if bt_get (tx_writes t) k \<noteq> None then u64_max else key_version sh k)"

definition merge_local :: "(key \<times> val) list \<Rightarrow> (key, val) btree \<Rightarrow> (key, val) btree" where
  "merge_local local merged =
     fold (\<lambda>(k, v) m. if v = VTombstone then bt_remove k m else bt_insert k v m) local merged"

definition txn_scan_range :: "shards \<Rightarrow> key \<Rightarrow> key \<Rightarrow> key \<Rightarrow> nat \<Rightarrow> bool \<Rightarrow> txn \<Rightarrow> (key \<times> val) list" where
  "txn_scan_range sh hint start stop limit reverse t =
     (if start \<ge> stop \<or> limit = 0 then []
      else
        let local = bt_range (tx_writes t) start stop;
            fetch = limit + length local;
            base = (if reverse then scan_pinned_reverse sh hint start stop (tx_snapshot t) fetch
                    else scan_pinned_limit sh hint start stop (tx_snapshot t) fetch);
            merged = merge_local local (fold (\<lambda>(k, v). bt_insert k v) base [])
        in if reverse then take limit (rev merged) else take limit merged)"

text \<open>The commit queues the writes with the read set, each key at the snapshot, and the watches.\<close>

definition txn_commit_reads :: "txn \<Rightarrow> (key \<times> nat) list" where
  "txn_commit_reads t = map (\<lambda>k. (k, tx_snapshot t)) (tx_reads t) @ tx_watches t"

definition txn_commit :: "txn \<Rightarrow> engine \<Rightarrow> engine" where
  "txn_commit t e = submit_durable (tx_writes t) (txn_commit_reads t) None None e"

section \<open>A transaction is a store\<close>

definition txn_wf :: "txn \<Rightarrow> bool" where
  "txn_wf t \<longleftrightarrow> bt_wf (tx_writes t)"

definition txn_view :: "shards \<Rightarrow> txn \<Rightarrow> key \<Rightarrow> val option" where
  "txn_view sh t k = (case bt_get (tx_writes t) k of Some v \<Rightarrow> live v | None \<Rightarrow> get_at sh k (tx_snapshot t))"

lemma txn_get_view: "fst (txn_get sh k t) = txn_view sh t k"
  by (simp add: txn_get_def txn_view_def live_def split: option.split)

lemma txn_view_updates [simp]:
  "txn_view sh (txn_put k v t) = (txn_view sh t)(k := live v)"
  "txn_view sh (txn_delete k t) = (txn_view sh t)(k := None)"
  "txn_view sh (snd (txn_get sh k t)) = txn_view sh t"
  by (auto simp: fun_eq_iff txn_view_def txn_put_def txn_delete_def txn_get_def bt_get_insert live_def split: option.split)

lemma txn_wf_updates [simp]:
  "txn_wf t \<Longrightarrow> txn_wf (txn_put k v t)" "txn_wf t \<Longrightarrow> txn_wf (txn_delete k t)" "txn_wf t \<Longrightarrow> txn_wf (snd (txn_get sh k t))"
  by (simp_all add: txn_wf_def txn_put_def txn_delete_def txn_get_def bt_wf_insert split: option.split)

interpretation tx: kv_store "txn_get sh" txn_put txn_delete txn_wf for sh
  by unfold_locales (simp_all add: txn_get_view)

section \<open>Range reads\<close>

lemma take_filter_prefix: "\<forall>x\<in>set (take n xs). Q x \<Longrightarrow> take n (filter Q xs) = take n xs"
proof (induction xs arbitrary: n)
  case (Cons x xs)
  then show ?case by (cases n) auto
qed simp

lemma early_elements:
  assumes s: "sorted_wrt R A" and asym: "\<And>x y. R x y \<Longrightarrow> \<not> R y x" and i: "i < length A"
    and Q: "Q \<subseteq> set A" "\<forall>y\<in>Q. R y (A ! i)"
  shows "card Q \<le> i"
proof -
  have "Q \<subseteq> set (take i A)"
  proof
    fix y assume y: "y \<in> Q"
    then have "y \<in> set A" using Q(1) by (rule subsetD [rotated])
    then obtain j where j: "j < length A" "A ! j = y" by (auto simp: in_set_conv_nth)
    have "R y (A ! i)" using y Q(2) by blast
    then have "\<not> i < j" "i \<noteq> j" using j sorted_wrt_nth_less [OF s, of i j] asym by auto
    then have "j < i" by simp
    then show "y \<in> set (take i A)" using j by (auto simp: in_set_conv_nth)
  qed
  then have "card Q \<le> card (set (take i A))" by (intro card_mono) auto
  also have "\<dots> \<le> i" using card_length [of "take i A"] by simp
  finally show ?thesis .
qed

text \<open>What merging the local writes into a map gives.\<close>

lemma merge_local_get:
  "bt_wf loc \<Longrightarrow> bt_wf m \<Longrightarrow> bt_wf (merge_local loc m) \<and>
     bt_get (merge_local loc m) k = (case bt_get loc k of None \<Rightarrow> bt_get m k | Some v \<Rightarrow> live v)"
proof (induction loc arbitrary: m)
  case (Cons a loc)
  obtain x v where a: "a = (x, v)" by (cases a)
  let ?m = "if v = VTombstone then bt_remove x m else bt_insert x v m"
  have wf: "bt_wf loc" "bt_wf ?m" and n: "bt_get loc x = None"
    using Cons.prems a bt_wf_not_in by (auto simp: bt_wf_Cons bt_wf_remove bt_wf_insert)
  have g: "bt_get ?m = (bt_get m)(x := live v)"
    using Cons.prems by (auto simp: bt_get_remove bt_get_insert live_def)
  have "merge_local (a # loc) m = merge_local loc ?m" by (simp add: merge_local_def a)
  then show ?case using Cons.IH [OF wf] n g by (auto simp: a split: option.split)
qed (simp add: merge_local_def)

lemma collect_sorted: "bt_wf xs \<Longrightarrow> fold (\<lambda>(k, v). bt_insert k v) xs [] = xs \<and> fold (\<lambda>(k, v). bt_insert k v) (rev xs) [] = xs"
proof -
  assume wf: "bt_wf xs"
  have d: "distinct (map fst xs)" using wf by (rule bt_wf_distinct)
  have f: "bt_wf (fold (\<lambda>(k, v). bt_insert k v) ys []) \<and> (\<forall>k. bt_get (fold (\<lambda>(k, v). bt_insert k v) ys []) k = map_of (rev ys) k)" for ys
    using bt.wf_insrt_fold [of "[]" ys] bt.get_insrt_fold [of "[]" ys] by (simp add: map_add_def split: option.split)
  have "map_of (rev xs) = map_of xs" using d by (subst map_of_inject_set) (simp_all add: rev_map [symmetric])
  then have "\<forall>k. bt_get (fold (\<lambda>(k, v). bt_insert k v) xs []) k = bt_get xs k"
    "\<forall>k. bt_get (fold (\<lambda>(k, v). bt_insert k v) (rev xs) []) k = bt_get xs k"
    using f [of xs] f [of "rev xs"] by auto
  then show ?thesis using f wf by (auto intro!: bt.entries_ext simp: fun_eq_iff)
qed

text \<open>
  Over-fetching by the number of local writes is enough: each can hide at most one of the
  fetched pairs.
\<close>

lemma overlay_take:
  assumes B: "bt_wf B" and A: "bt_wf A" and P: "bt_wf P" and loc: "bt_wf loc"
    and getA: "\<And>k. bt_get A k = (case bt_get loc k of None \<Rightarrow> bt_get B k | Some v \<Rightarrow> live v)"
    and getP: "\<And>k. bt_get P k = (case bt_get loc k of None \<Rightarrow> bt_get X k | Some v \<Rightarrow> live v)"
    and X: "bt_wf X"
    and R: "\<And>x y. R x y \<Longrightarrow> \<not> R y x" and RA: "sorted_wrt R A'" "set A' = set A"
    and RB: "sorted_wrt R (take f B' @ drop f B')" "set (take f B') = set X" "set B' = set B" "length B' = length B"
    and f: "f = n + length loc" and i: "i < n" "i < length A'"
  shows "A' ! i \<in> set P"
proof (rule ccontr)
  obtain k v where kv: "A' ! i = (k, v)" by (cases "A' ! i")
  assume "A' ! i \<notin> set P"
  then have notP: "bt_get P k \<noteq> Some v" using bt_in_set [OF P] kv by simp
  have inA: "bt_get A k = Some v" using i kv RA(2) bt_in_set [OF A] nth_mem by fastforce
  have nl: "bt_get loc k = None" using notP inA getA [of k] getP [of k] by (auto split: option.splits)
  then have "bt_get B k = Some v" "bt_get X k \<noteq> Some v" using inA notP getA [of k] getP [of k] by auto
  then have "(k, v) \<in> set B'" "(k, v) \<notin> set (take f B')" using RB bt_in_set [OF B] bt_in_set [OF X] by auto
  then have d: "(k, v) \<in> set (drop f B')" by (metis UnE append_take_drop_id set_append)
  let ?Q = "set (filter (\<lambda>x. bt_get loc (fst x) = None) (take f B'))"
  have sub: "?Q \<subseteq> set A'"
  proof
    fix x assume x: "x \<in> ?Q"
    then have "x \<in> set B" "bt_get loc (fst x) = None" using RB(3) by (auto dest: in_set_takeD)
    then have "bt_get B (fst x) = Some (snd x)" using bt_in_set [OF B, of "fst x" "snd x"] by simp
    then have "bt_get A (fst x) = Some (snd x)" using getA [of "fst x"] \<open>bt_get loc (fst x) = None\<close> by simp
    then show "x \<in> set A'" using bt_in_set [OF A, of "fst x" "snd x"] RA(2) by simp
  qed
  have less: "\<forall>y\<in>?Q. R y (A' ! i)"
    using conjunct2 [OF conjunct2 [OF sorted_wrt_append [THEN iffD1, OF RB(1)]]] d kv by simp
  have "card ?Q \<le> i" by (rule early_elements [OF RA(1) R i(2) sub less])
  have fl: "f \<le> length B'" using d by (cases "f \<le> length B'") auto
  have X': "distinct X" "card (set (take f B')) = length X"
    using bt_wf_distinct [OF X] RB(2) by (auto simp: distinct_map distinct_card)
  have Xl: "card (set (take f B')) = f"
  proof -
    have "card (set B') = length B'"
      using RB(3,4) bt_wf_distinct [OF B] by (simp add: distinct_map distinct_card)
    then have "distinct (take f B')" by (simp add: card_distinct)
    then show ?thesis using fl distinct_card by fastforce
  qed
  have "set (take f B') \<subseteq> ?Q \<union> (\<lambda>k. (k, the (bt_get B k))) ` fst ` set loc"
  proof
    fix x assume x: "x \<in> set (take f B')"
    then have "(fst x, snd x) \<in> set B" using RB(3) by (auto dest: in_set_takeD)
    then have xB: "bt_get B (fst x) = Some (snd x)" unfolding bt_in_set [OF B] .
    show "x \<in> ?Q \<union> (\<lambda>k. (k, the (bt_get B k))) ` fst ` set loc"
    proof (cases "bt_get loc (fst x)")
      case None
      then show ?thesis using x by simp
    next
      case (Some w)
      from map_of_SomeD [OF this] have "fst x \<in> fst ` set loc" by (rule image_eqI [rotated]) simp
      then show ?thesis using xB by (force simp: image_iff)
    qed
  qed
  then have "card (set (take f B')) \<le> card (?Q \<union> (\<lambda>k. (k, the (bt_get B k))) ` fst ` set loc)"
    by (intro card_mono) auto
  also have "\<dots> \<le> card ?Q + card ((\<lambda>k. (k, the (bt_get B k))) ` fst ` set loc)" by (rule card_Un_le)
  also have "card ((\<lambda>k. (k, the (bt_get B k))) ` fst ` set loc) \<le> card (fst ` set loc)" by (rule card_image_le) simp
  also have "card (fst ` set loc) \<le> length loc" using card_length [of "map fst loc"] by simp
  finally show False using Xl f \<open>card ?Q \<le> i\<close> i(1) by simp
qed

lemma bt_filter_of_subset: "bt_wf A \<Longrightarrow> bt_wf P \<Longrightarrow> set P \<subseteq> set A \<Longrightarrow> P = filter (\<lambda>x. x \<in> set P) A"
  by (rule bt_set_unique) (auto simp: filter_bt_wf)

lemma sorted_rev_wf: "bt_wf B \<Longrightarrow> sorted_wrt (\<lambda>x y. fst y < fst x) (rev B)"
  by (simp add: bt_wf_def sorted_wrt_map sorted_wrt_rev)

section \<open>Claims\<close>

text \<open>
  Claim C20. A range read in a transaction is exact although it fetches only as many committed
  pairs as the limit and the number of buffered writes: when the live keys of the range share
  the hint's shard, it returns the first entries, in either direction, of the range as the
  transaction sees it, its own writes and deletes over the snapshot.
\<close>

theorem txn_scan_range_exact:
  assumes wf: "txn_wf t" "shards_wf sh" and r: "start < stop"
    and tag: "\<And>k. start \<le> k \<and> k < stop \<and> get_at sh k (tx_snapshot t) \<noteq> None \<Longrightarrow> shard_of k = shard_of hint"
  shows "\<exists>full. bt_wf full \<and> (\<forall>k v. (k, v) \<in> set full \<longleftrightarrow> start \<le> k \<and> k < stop \<and> txn_view sh t k = Some v)
    \<and> txn_scan_range sh hint start stop limit False t = take limit full
    \<and> txn_scan_range sh hint start stop limit True t = take limit (rev full)"
proof -
  let ?s = "tx_snapshot t"
  define loc where "loc = bt_range (tx_writes t) start stop"
  define f where "f = limit + length loc"
  have tw: "bt_wf (tx_writes t)" using wf(1) by (simp add: txn_wf_def)
  have lw: "bt_wf loc" unfolding loc_def using tw by (rule bt_range_wf)
  have gl: "bt_get loc k = (if start \<le> k \<and> k < stop then bt_get (tx_writes t) k else None)" for k
    unfolding loc_def using tw by (rule bt_get_range)
  have nle: "\<not> stop \<le> start" "start \<le> stop" using r by (meson leD less_imp_le)+
  obtain B where sc: "scan sh start stop ?s = Some B"
    using scan_eq [OF nle(2)] by blast
  have pin: "scan_pinned_limit sh hint start stop ?s n = take n B
      \<and> scan_pinned_reverse sh hint start stop ?s n = drop (length B - n) B" if "0 < n" for n
    using pinned_scan_out [OF wf(2) r that, of ?s hint] tag sc by auto
  have isB: "is_scan (\<lambda>k. start \<le> k \<and> k < stop) sh ?s B"
    using shard_lists_scan [OF wf(2), of "\<lambda>k. start \<le> k \<and> k < stop" ?s] sc scan_eq [OF nle(2), of sh ?s] by simp
  then have B: "bt_wf B" and gB: "\<And>k. bt_get B k = (if start \<le> k \<and> k < stop then get_at sh k ?s else None)"
  proof -
    show B: "bt_wf B" using isB by (simp add: is_scan_def)
    show "bt_get B k = (if start \<le> k \<and> k < stop then get_at sh k ?s else None)" for k
    proof -
      have mem: "bt_get B k = Some v \<longleftrightarrow> start \<le> k \<and> k < stop \<and> get_at sh k ?s = Some v" for v
        using isB bt_in_set [OF B, of k v] by (simp add: is_scan_def)
      have eqI: "(\<And>v. a = Some v \<longleftrightarrow> b = Some v) \<Longrightarrow> a = b" for a b :: "val option" by (metis not_None_eq)
      show ?thesis by (rule eqI) (auto simp: mem)
    qed
  qed
  define full where "full = merge_local loc B"
  have full: "bt_wf full" and gf: "\<And>k. bt_get full k = (case bt_get loc k of None \<Rightarrow> bt_get B k | Some v \<Rightarrow> live v)"
    using merge_local_get [OF lw B] by (auto simp: full_def)
  have view: "(k, v) \<in> set full \<longleftrightarrow> start \<le> k \<and> k < stop \<and> txn_view sh t k = Some v" for k v
    by (auto simp: bt_in_set [OF full] gf gl gB txn_view_def split: option.splits)
  have sub: "set (merge_local loc X) \<subseteq> set full" if "bt_wf X" "set X \<subseteq> set B" for X
  proof
    fix x assume x: "x \<in> set (merge_local loc X)"
    obtain k v where kv: "x = (k, v)" by (cases x)
    note m = merge_local_get [OF lw \<open>bt_wf X\<close>, of k]
    have "bt_get (merge_local loc X) k = Some v" using x kv bt_in_set [OF conjunct1 [OF m], of k v] by simp
    moreover have "bt_get B k = Some v" if "bt_get X k = Some v"
      using subsetD [OF \<open>set X \<subseteq> set B\<close>, of "(k, v)"] that bt_in_set [OF B, of k v] bt_in_set [OF \<open>bt_wf X\<close>, of k v] by simp
    ultimately have "bt_get full k = Some v" using m gf [of k] by (cases "bt_get loc k") simp_all
    then show "x \<in> set full" using kv bt_in_set [OF full, of k v] by simp
  qed
  have fwd: "take limit (merge_local loc (take f B)) = take limit full"
  proof -
    let ?P = "merge_local loc (take f B)"
    have X: "bt_wf (take f B)" using B by (simp add: bt_wf_def take_map [symmetric] sorted_wrt_take)
    have P: "bt_wf ?P" and gP: "\<And>k. bt_get ?P k = (case bt_get loc k of None \<Rightarrow> bt_get (take f B) k | Some v \<Rightarrow> live v)"
      using merge_local_get [OF lw X] by auto
    have srt: "sorted_wrt (\<lambda>x y. fst x < fst y) full" "sorted_wrt (\<lambda>x y. fst x < fst y) (take f B @ drop f B)"
      using full B by (simp_all add: bt_wf_def sorted_wrt_map)
    have "\<forall>x\<in>set (take limit full). x \<in> set ?P"
    proof
      fix x assume "x \<in> set (take limit full)"
      then obtain i where i: "i < limit" "i < length full" "full ! i = x" by (auto simp: in_set_conv_nth)
      show "x \<in> set ?P"
        using overlay_take [OF B full P lw gf gP X _ srt(1) refl srt(2) refl refl refl f_def i(1,2)] i(3)
        by (auto dest: less_asym)
    qed
    moreover have "?P = filter (\<lambda>x. x \<in> set ?P) full"
      using sub [OF X] by (intro bt_filter_of_subset [OF full P]) (auto dest: in_set_takeD)
    ultimately show ?thesis using take_filter_prefix [of limit full "\<lambda>x. x \<in> set ?P"] by simp
  qed
  have bwd: "take limit (rev (merge_local loc (drop (length B - f) B))) = take limit (rev full)"
  proof -
    let ?X = "drop (length B - f) B"
    let ?P = "merge_local loc ?X"
    have X: "bt_wf ?X" using B by (simp add: bt_wf_def drop_map [symmetric] sorted_wrt_drop)
    have P: "bt_wf ?P" and gP: "\<And>k. bt_get ?P k = (case bt_get loc k of None \<Rightarrow> bt_get ?X k | Some v \<Rightarrow> live v)"
      using merge_local_get [OF lw X] by auto
    have srt: "sorted_wrt (\<lambda>x y. fst y < fst x) (rev full)" "sorted_wrt (\<lambda>x y. fst y < fst x) (take f (rev B) @ drop f (rev B))"
      using sorted_rev_wf full B by auto
    have tk: "set (take f (rev B)) = set ?X" by (simp add: take_rev)
    have "\<forall>x\<in>set (take limit (rev full)). x \<in> set ?P"
    proof
      fix x assume "x \<in> set (take limit (rev full))"
      then obtain i where i: "i < limit" "i < length (rev full)" "rev full ! i = x" by (auto simp: in_set_conv_nth)
      show "x \<in> set ?P"
        using overlay_take [OF B full P lw gf gP X _ srt(1) set_rev srt(2) tk set_rev length_rev f_def i(1,2)] i(3)
        by (auto dest: less_asym)
    qed
    moreover have "?P = filter (\<lambda>x. x \<in> set ?P) full"
      using sub [OF X] by (intro bt_filter_of_subset [OF full P]) (auto dest: in_set_dropD)
    then have "rev ?P = filter (\<lambda>x. x \<in> set ?P) (rev full)" by (metis rev_filter)
    ultimately show ?thesis using take_filter_prefix [of limit "rev full" "\<lambda>x. x \<in> set ?P"] by simp
  qed
  have col: "fold (\<lambda>(k, v). bt_insert k v) (take f B) [] = take f B"
    "fold (\<lambda>(k, v). bt_insert k v) (drop (length B - f) B) [] = drop (length B - f) B"
    using B by (auto intro!: collect_sorted [THEN conjunct1]
        simp: bt_wf_def take_map [symmetric] sorted_wrt_take drop_map [symmetric] sorted_wrt_drop)
  have "txn_scan_range sh hint start stop limit False t = take limit full
      \<and> txn_scan_range sh hint start stop limit True t = take limit (rev full)"
  proof (cases "limit = 0")
    case False
    then have "0 < f" by (simp add: f_def)
    from pin [OF this] show ?thesis
      using False nle fwd bwd col by (simp add: txn_scan_range_def Let_def loc_def [symmetric] f_def [symmetric])
  qed (simp add: txn_scan_range_def)
  then show ?thesis using full view by blast
qed

theorem txn_scan_range_exact_witness:
  "\<exists>full. bt_wf full \<and> txn_scan_range empty_shards [97] [97] [99] 1 False (txn_put [98] (VInt 5) (fst (txn_begin (fresh_engine True)))) = take 1 full
    \<and> ([98], VInt 5) \<in> set full"
proof -
  let ?t = "txn_put [98] (VInt 5) (fst (txn_begin (fresh_engine True)))"
  have "txn_wf ?t" by (simp add: txn_wf_def txn_put_def txn_begin_def bt_wf_def)
  moreover have "[97 :: byte] < [99]" by simp
  moreover have "txn_view empty_shards ?t [98] = Some (VInt 5)" by (simp add: live_def)
  moreover have "[97 :: byte] \<le> [98]" "[98 :: byte] < [99]" by simp_all
  ultimately show ?thesis
    using txn_scan_range_exact [of ?t empty_shards "[97]" "[99]" "[97]" 1] empty_shards_wf
    by (auto simp: get_at_def)
qed

end
