(* ===== verification/Store_Ops.thy ===== *)
theory Store_Ops
  imports Keys Op_Store Txn
begin

text \<open>
  The \<open>Store\<close> trait of \<open>crates/storage/src/engine.rs\<close> as the commands see it: a \<open>&mut dyn Store\<close>
  is its method table and its data.  The locale \<open>frame_store\<close> states what holds of
  a store in any condition, \<open>command_store\<close> what the keyspace executor relies on beyond point reads
  and writes: a range read on one shard returns exactly the live entries of the view.  Both are
  interpreted on the commit-path store, the second on transactions too.
\<close>

record 's store_ops =
  so_get :: "key \<Rightarrow> 's \<Rightarrow> val option \<times> 's"
  so_put :: "key \<Rightarrow> val \<Rightarrow> 's \<Rightarrow> 's"
  so_delete :: "key \<Rightarrow> 's \<Rightarrow> 's"
  so_scan_range :: "key \<Rightarrow> key \<Rightarrow> key \<Rightarrow> nat \<Rightarrow> bool \<Rightarrow> 's \<Rightarrow> (key \<times> val) list"
  so_version :: "key \<Rightarrow> 's \<Rightarrow> nat"
  so_has_writes :: "'s \<Rightarrow> bool"
  so_discard :: "'s \<Rightarrow> 's"
  so_savepoint :: "'s \<Rightarrow> nat \<times> 's"
  so_rollback_to :: "nat \<Rightarrow> 's \<Rightarrow> 's"

definition os_ops :: "op_store store_ops" where
  "os_ops =
     \<lparr>so_get = (\<lambda>k s. (os_get s k, s)), so_put = os_put, so_delete = os_delete,
      so_scan_range = (\<lambda>hint start stop limit reverse s. os_scan_range s hint start stop limit reverse),
      so_version = (\<lambda>k s. os_version s k), so_has_writes = os_has_writes, so_discard = os_discard,
      so_savepoint = os_savepoint, so_rollback_to = os_rollback_to\<rparr>"

text \<open>Transactions keep the trait's default savepoints: rolling back discards.\<close>

definition txn_ops :: "shards \<Rightarrow> txn store_ops" where
  "txn_ops sh =
     \<lparr>so_get = txn_get sh, so_put = txn_put, so_delete = txn_delete,
      so_scan_range = (\<lambda>hint start stop limit reverse t. txn_scan_range sh hint start stop limit reverse t),
      so_version = txn_version sh, so_has_writes = txn_has_writes, so_discard = txn_discard,
      so_savepoint = (\<lambda>t. (0, t)), so_rollback_to = (\<lambda>_. txn_discard)\<rparr>"

section \<open>The contract\<close>

text \<open>The live entries of a view in a range, in key order.\<close>

definition range_of :: "(key \<Rightarrow> val option) \<Rightarrow> key \<Rightarrow> key \<Rightarrow> (key, val) btree \<Rightarrow> bool" where
  "range_of V start stop full \<longleftrightarrow>
     bt_wf full \<and> (\<forall>k v. (k, v) \<in> set full \<longleftrightarrow> start \<le> k \<and> k < stop \<and> V k = Some v)"

lemma range_of_unique: "range_of V a b xs \<Longrightarrow> range_of V a b ys \<Longrightarrow> xs = ys"
  unfolding range_of_def by (intro bt_set_unique) auto

text \<open>What holds of a store in any condition: the laws of point access, and range reads stay in range.\<close>

locale frame_store =
  kv_store "so_get ops" "so_put ops" "so_delete ops" wf
  for ops :: "'s store_ops" and wf :: "'s \<Rightarrow> bool" +
  assumes scan_within: "(k, v) \<in> set (so_scan_range ops hint start stop limit reverse s) \<Longrightarrow> start \<le> k \<and> k < stop"

text \<open>What holds when the shards are in order: range reads return exactly the live entries.\<close>

locale command_store = frame_store ops wf
  for ops :: "'s store_ops" and wf :: "'s \<Rightarrow> bool" +
  assumes scan_range: "wf s \<Longrightarrow> start < stop \<Longrightarrow> (\<And>k. start \<le> k \<Longrightarrow> k < stop \<Longrightarrow> shard_of k = shard_of hint) \<Longrightarrow>
      \<exists>full. range_of (\<lambda>k. fst (so_get ops k s)) start stop full
        \<and> so_scan_range ops hint start stop limit False s = take limit full
        \<and> so_scan_range ops hint start stop limit True s = take limit (rev full)"
    and scan_empty: "\<not> start < stop \<Longrightarrow> so_scan_range ops hint start stop limit reverse s = []"
begin

lemma scan_range_full:
  assumes "wf s" and "start < stop" and "\<And>k. start \<le> k \<Longrightarrow> k < stop \<Longrightarrow> shard_of k = shard_of hint"
    and "range_of (view s) start stop full"
  shows "so_scan_range ops hint start stop limit False s = take limit full"
    and "so_scan_range ops hint start stop limit True s = take limit (rev full)"
proof -
  obtain full' where f: "range_of (\<lambda>k. fst (so_get ops k s)) start stop full'"
    "so_scan_range ops hint start stop limit False s = take limit full'"
    "so_scan_range ops hint start stop limit True s = take limit (rev full')"
    using scan_range [OF assms(1,2), of hint limit] assms(3) by blast
  moreover have "full' = full"
    using range_of_unique [OF f(1)] assms(4) by (simp add: view_def)
  ultimately show "so_scan_range ops hint start stop limit False s = take limit full"
    "so_scan_range ops hint start stop limit True s = take limit (rev full)" by simp_all
qed

end

text \<open>Whatever the shards hold, a range read returns keys of the range.\<close>

lemma advance_keys:
  "\<forall>it\<in>set its. \<forall>x\<in>set it. P (fst x) \<Longrightarrow> \<forall>it\<in>set (snd (advance key its)). \<forall>x\<in>set it. P (fst x)"
proof (induction its)
  case (Cons it its)
  then show ?case by (cases it) (auto split: prod.splits)
qed simp

lemma merge_loop_keys:
  "\<forall>it\<in>set its. \<forall>x\<in>set it. P (fst x) \<Longrightarrow> \<forall>x\<in>set (merge_loop reverse n its). P (fst x)"
proof (induction "sum_list (map length its)" arbitrary: n its rule: less_induct)
  case less
  show ?case
  proof (cases "n = 0 \<or> next_key reverse None its = None")
    case True
    then show ?thesis by (auto simp: merge_loop.simps [of reverse n its])
  next
    case False
    then obtain key where n: "n \<noteq> 0" and key: "next_key reverse None its = Some key" by auto
    obtain chosen its' where a: "advance key its = (chosen, its')" by (cases "advance key its")
    have head: "\<exists>it\<in>set its. \<exists>v r. it = (key, v) # r" using next_key_head [OF key] by simp
    then have "P key" using less.prems by fastforce
    moreover have "\<forall>x\<in>set (merge_loop reverse n' its'). P (fst x)" for n'
      using less.hyps [of its' n'] advance_length [OF head] advance_keys [OF less.prems, of key] a by simp
    ultimately show ?thesis
      using n key a by (auto simp: merge_loop.simps [of reverse n its] split: option.splits)
  qed
qed

lemma sources_within:
  "\<forall>x\<in>set w. Q x \<Longrightarrow> \<forall>x\<in>set ov. Q x \<Longrightarrow> \<forall>x\<in>set d. Q x \<Longrightarrow>
     \<forall>it\<in>set (if r then [rev w, rev ov, rev d] else [w, ov, d]). \<forall>x\<in>set it. Q x"
  by simp

lemma bt_range_keys: "\<forall>x\<in>set (bt_range m lo hi). lo \<le> fst x \<and> fst x < hi"
  by (auto simp: bt_range_def)

lemma os_scan_within:
  assumes "(k, v) \<in> set (os_scan_range st hint start stop limit reverse)"
  shows "start \<le> k \<and> k < stop"
proof -
  let ?P = "\<lambda>x. start \<le> x \<and> x < stop"
  let ?w = "map (\<lambda>(k, v). (k, Some v)) (bt_range (os_writes st) start stop)"
  let ?o = "map (\<lambda>(k, v). (k, Some v)) (bt_range (os_overlay st) start stop)"
  let ?d = "map (\<lambda>(k, c). (k, chain_latest c)) (bt_range (os_shards st ! shard_of hint) start stop)"
  have "\<forall>x\<in>set ?w. ?P (fst x)" "\<forall>x\<in>set ?o. ?P (fst x)" "\<forall>x\<in>set ?d. ?P (fst x)"
    by (auto simp: bt_range_def)
  then have "\<forall>it\<in>set (if reverse then [rev ?w, rev ?o, rev ?d] else [?w, ?o, ?d]). \<forall>x\<in>set it. ?P (fst x)"
    by (rule sources_within)
  note keys = merge_loop_keys [OF this, of reverse limit]
  have "os_scan_range st hint start stop limit reverse =
      merge_loop reverse limit (if reverse then [rev ?w, rev ?o, rev ?d] else [?w, ?o, ?d])"
    if "\<not> (start \<ge> stop \<or> limit = 0)"
    unfolding os_scan_range_def Let_def if_not_P [OF that] ..
  moreover have "\<not> (start \<ge> stop \<or> limit = 0)" using assms by (auto simp: os_scan_range_def split: if_splits)
  ultimately show ?thesis using bspec [OF keys, of "(k, v)"] assms by (simp only: fst_conv simp_thms)
qed

lemma insert_all_keys:
  "\<forall>x\<in>set xs \<union> set m. P (fst x) \<Longrightarrow> \<forall>x\<in>set (fold (\<lambda>(k, v). bt_insert k v) xs m). P (fst x)"
proof (induction xs arbitrary: m)
  case (Cons x xs)
  obtain k v where x: "x = (k, v)" by (cases x)
  have "\<forall>x\<in>set xs \<union> set (bt_insert k v m). P (fst x)"
    using Cons.prems set_bt_insert [of k v m] by (auto simp: x)
  then show ?case using Cons.IH by (simp add: x)
qed simp

lemma merge_local_keys:
  "\<forall>x\<in>set xs \<union> set m. P (fst x) \<Longrightarrow> \<forall>x\<in>set (merge_local xs m). P (fst x)"
  unfolding merge_local_def
proof (induction xs arbitrary: m)
  case (Cons x xs)
  obtain k v where x: "x = (k, v)" by (cases x)
  let ?m = "if v = VTombstone then bt_remove k m else bt_insert k v m"
  have "set (bt_remove k m) \<subseteq> set m" by (induction k m rule: bt_remove.induct) auto
  then have "set ?m \<subseteq> insert (k, v) (set m)" using set_bt_insert [of k v m] by auto
  then have "\<forall>x\<in>set xs \<union> set ?m. P (fst x)" using Cons.prems by (auto simp: x)
  then show ?case using Cons.IH [of ?m] by (simp add: x)
qed simp

lemma live_pairs_keys: "\<forall>x\<in>set es. P (fst x) \<Longrightarrow> \<forall>x\<in>set (live_pairs at es). P (fst x)"
  by (fastforce simp: live_pairs_def List.map_filter_def split: if_splits)

lemma pinned_keys:
  "\<forall>x\<in>set (scan_pinned_limit sh hint start stop s n). start \<le> fst x \<and> fst x < stop"
  "\<forall>x\<in>set (scan_pinned_reverse sh hint start stop s n). start \<le> fst x \<and> fst x < stop"
proof -
  let ?r = "bt_range (sh ! shard_of hint) start stop"
  have 1: "\<forall>x\<in>set (live_pairs s ?r). start \<le> fst x \<and> fst x < stop"
    by (rule live_pairs_keys [of _ "\<lambda>k. start \<le> k \<and> k < stop"]) (rule bt_range_keys)
  have 2: "\<forall>x\<in>set (live_pairs s (rev ?r)). start \<le> fst x \<and> fst x < stop"
    by (rule live_pairs_keys [of _ "\<lambda>k. start \<le> k \<and> k < stop"]) (unfold set_rev, rule bt_range_keys)
  show "\<forall>x\<in>set (scan_pinned_limit sh hint start stop s n). start \<le> fst x \<and> fst x < stop"
    using 1 by (auto simp: scan_pinned_limit_def dest: in_set_takeD)
  show "\<forall>x\<in>set (scan_pinned_reverse sh hint start stop s n). start \<le> fst x \<and> fst x < stop"
    using 2 by (auto simp: scan_pinned_reverse_def dest: in_set_takeD)
qed

lemma txn_scan_within:
  assumes "(k, v) \<in> set (txn_scan_range sh hint start stop limit reverse t)"
  shows "start \<le> k \<and> k < stop"
proof -
  let ?P = "\<lambda>x. start \<le> x \<and> x < stop"
  let ?local = "bt_range (tx_writes t) start stop"
  let ?base = "if reverse then scan_pinned_reverse sh hint start stop (tx_snapshot t) (limit + length ?local)
                 else scan_pinned_limit sh hint start stop (tx_snapshot t) (limit + length ?local)"
  let ?m = "merge_local ?local (fold (\<lambda>(k, v). bt_insert k v) ?base [])"
  have "\<forall>x\<in>set ?base \<union> set []. ?P (fst x)" using pinned_keys by (simp split: if_split)
  note 1 = insert_all_keys [OF this]
  have "\<forall>x\<in>set ?local \<union> set (fold (\<lambda>(k, v). bt_insert k v) ?base []). ?P (fst x)"
    using 1 bt_range_keys by (simp only: ball_Un) simp
  note keys = merge_local_keys [OF this]
  have r: "\<not> (start \<ge> stop \<or> limit = 0)" using assms by (auto simp: txn_scan_range_def split: if_splits)
  have eq: "txn_scan_range sh hint start stop limit reverse t = (if reverse then take limit (rev ?m) else take limit ?m)"
    unfolding txn_scan_range_def Let_def if_not_P [OF r] ..
  have elim: "x \<in> set (if reverse then take limit (rev m) else take limit m) \<Longrightarrow> x \<in> set m" for x and m :: "(key \<times> val) list"
    by (auto dest: in_set_takeD split: if_splits)
  have "(k, v) \<in> set ?m" by (rule elim, rule assms [unfolded eq])
  from bspec [OF keys this] show ?thesis by (simp only: fst_conv)
qed

definition os_ok :: "op_store \<Rightarrow> bool" where
  "os_ok s \<longleftrightarrow> os_wf s \<and> shards_wf (os_shards s)"

interpretation fs: frame_store os_ops os_wf
  by unfold_locales
    (auto simp: os_ops_def os.get_put [simplified] os.get_delete [simplified] os.wf_put os.wf_delete dest: os_scan_within)

interpretation cs: command_store os_ops os_ok
proof (unfold_locales, goal_cases)
  case (8 s start stop hint limit)
  then show ?case
    using scan_range_merges [of s start stop hint limit] by (simp add: os_ok_def os_ops_def range_of_def)
next
  case (7 k v hint start stop limit reverse s)
  then show ?case by (rule fs.scan_within)
qed (auto simp: os_ops_def os_scan_range_def not_less os_ok_def os.get_put [simplified] os.get_delete [simplified] os.wf_put os.wf_delete)

definition txn_ok :: "shards \<Rightarrow> txn \<Rightarrow> bool" where
  "txn_ok sh t \<longleftrightarrow> txn_wf t \<and> shards_wf sh"

interpretation ct: command_store "txn_ops sh" "txn_ok sh" for sh
proof (unfold_locales, goal_cases)
  case (8 s start stop hint limit)
  then show ?case
    using txn_scan_range_exact [of s sh start stop hint limit]
    by (simp add: txn_ok_def txn_ops_def range_of_def txn_get_view)
next
  case (7 k v hint start stop limit reverse s)
  then show ?case by (auto simp: txn_ops_def dest: txn_scan_within)
qed (auto simp: txn_ops_def txn_scan_range_def not_less txn_ok_def txn_get_view)

lemma cs_view: "cs.view s = os_get s"
  by (simp add: os_ops_def os_view)

lemma fs_view: "fs.view s = os_get s"
  by (rule cs_view)

lemma ct_view: "ct.view sh t = txn_view sh t"
  by (simp add: txn_ops_def tx.view_def txn_get_view fun_eq_iff)

end
