(* ===== verification/Context.thy ===== *)
theory Context
  imports Header Store_Ops
begin

text \<open>
  The execution context of a command (\<open>Ctx\<close> of \<open>crates/server/src/keyspace.rs\<close>) and its
  helpers: loading a key with lazy expiry, deadlines, headers, whole-key deletion, range
  iteration.  A command is a function from the context to an early-return reply or a value and
  the new context; \<open>bnd\<close> is the sequencing that \<open>?\<close> performs.  What the run reads from outside,
  the values \<open>rand()\<close> will return and the wall clock in microseconds, is supplied by the context;
  a supply that is too short stops the command with an error reply and stands for no run.
\<close>

section \<open>Commands\<close>

record 's cx =
  cx_tx :: 's
  cx_now :: nat
  cx_readonly :: bool
  cx_exp :: "(key \<times> nat option) list"
  cx_created :: bool
  cx_rnd :: "64 word list"
  cx_clock :: "nat list"

type_synonym ('s, 'a) cmd = "'s cx \<Rightarrow> (resp + 'a) \<times> 's cx"

definition ret :: "'a \<Rightarrow> ('s, 'a) cmd" where "ret x = (\<lambda>cx. (Inr x, cx))"

definition fail :: "resp \<Rightarrow> ('s, 'a) cmd" where "fail e = (\<lambda>cx. (Inl e, cx))"

definition bnd :: "('s, 'a) cmd \<Rightarrow> ('a \<Rightarrow> ('s, 'b) cmd) \<Rightarrow> ('s, 'b) cmd" where
  "bnd m f = (\<lambda>cx. case m cx of (Inl e, cx') \<Rightarrow> (Inl e, cx') | (Inr x, cx') \<Rightarrow> f x cx')"

definition need :: "string \<Rightarrow> bool \<Rightarrow> ('s, unit) cmd" where
  "need name b = (if b then ret () else fail (wrong_args name))"

definition ok_or :: "'a option \<Rightarrow> resp \<Rightarrow> ('s, 'a) cmd" where
  "ok_or a e = (case a of None \<Rightarrow> fail e | Some x \<Rightarrow> ret x)"

fun each_of :: "('b \<Rightarrow> 'a \<Rightarrow> ('s, 'b) cmd) \<Rightarrow> 'a list \<Rightarrow> 'b \<Rightarrow> ('s, 'b) cmd" where
  "each_of f [] acc = ret acc"
| "each_of f (x # xs) acc = bnd (f acc x) (each_of f xs)"

definition get_key :: "'s store_ops \<Rightarrow> key \<Rightarrow> ('s, val option) cmd" where
  "get_key ops k = (\<lambda>cx. case so_get ops k (cx_tx cx) of (v, s) \<Rightarrow> (Inr v, cx\<lparr>cx_tx := s\<rparr>))"

definition put_key :: "'s store_ops \<Rightarrow> key \<Rightarrow> val \<Rightarrow> ('s, unit) cmd" where
  "put_key ops k v = (\<lambda>cx. (Inr (), cx\<lparr>cx_tx := so_put ops k v (cx_tx cx)\<rparr>))"

definition delete_key :: "'s store_ops \<Rightarrow> key \<Rightarrow> ('s, unit) cmd" where
  "delete_key ops k = (\<lambda>cx. (Inr (), cx\<lparr>cx_tx := so_delete ops k (cx_tx cx)\<rparr>))"

definition scan_keys :: "'s store_ops \<Rightarrow> key \<Rightarrow> key \<Rightarrow> key \<Rightarrow> nat \<Rightarrow> bool \<Rightarrow> ('s, (key \<times> val) list) cmd" where
  "scan_keys ops hint start stop limit reverse =
     (\<lambda>cx. (Inr (so_scan_range ops hint start stop limit reverse (cx_tx cx)), cx))"

definition note_exp :: "key \<Rightarrow> nat option \<Rightarrow> ('s, unit) cmd" where
  "note_exp k at = (\<lambda>cx. (Inr (), cx\<lparr>cx_exp := cx_exp cx @ [(k, at)]\<rparr>))"

definition note_created :: "('s, unit) cmd" where
  "note_created = (\<lambda>cx. (Inr (), cx\<lparr>cx_created := True\<rparr>))"

definition now_cmd :: "('s, nat) cmd" where "now_cmd = (\<lambda>cx. (Inr (cx_now cx), cx))"

definition readonly_cmd :: "('s, bool) cmd" where "readonly_cmd = (\<lambda>cx. (Inr (cx_readonly cx), cx))"

text \<open>One step of the process-wide generator; other threads may step it between two draws.\<close>

definition rng_next :: "64 word \<Rightarrow> 64 word" where
  "rng_next x =
     (let x = x XOR push_bit 13 x; x = x XOR drop_bit 7 x in x XOR push_bit 17 x)"

definition rand_cmd :: "('s, 64 word) cmd" where
  "rand_cmd = (\<lambda>cx. case cx_rnd cx of [] \<Rightarrow> (Inl (RError []), cx) | x # xs \<Rightarrow> (Inr x, cx\<lparr>cx_rnd := xs\<rparr>))"

definition clock_cmd :: "('s, nat) cmd" where
  "clock_cmd = (\<lambda>cx. case cx_clock cx of [] \<Rightarrow> (Inl (RError []), cx) | t # ts \<Rightarrow> (Inr t, cx\<lparr>cx_clock := ts\<rparr>))"

definition supply_cmd :: "('s, nat) cmd" where "supply_cmd = (\<lambda>cx. (Inr (length (cx_rnd cx)), cx))"

section \<open>The helpers of the context\<close>

datatype ent = ENone | EStr bytes | EColl meta

record entry =
  en_ent :: ent
  en_ttl :: "nat option"

definition entry_exists :: "entry \<Rightarrow> bool" where
  "entry_exists e \<longleftrightarrow> en_ent e \<noteq> ENone"

definition set_ttl :: "'s store_ops \<Rightarrow> key \<Rightarrow> nat option \<Rightarrow> nat option \<Rightarrow> ('s, unit) cmd" where
  "set_ttl ops key had at =
     (case at of
        Some a \<Rightarrow> bnd (put_key ops (expk key) (VInt (of_nat a))) (\<lambda>_. note_exp key (Some a))
      | None \<Rightarrow>
          if had \<noteq> None then bnd (delete_key ops (expk key)) (\<lambda>_. note_exp key None)
          else ret ())"

definition delete_family :: "'s store_ops \<Rightarrow> key \<Rightarrow> byte \<Rightarrow> ('s, unit) cmd" where
  "delete_family ops key sub =
     (case erange key sub of
        (s, e) \<Rightarrow> bnd (scan_keys ops s s e u64_max False) (\<lambda>kvs. each_of (\<lambda>_ (k, _). delete_key ops k) kvs ()))"

definition delete_elements :: "'s store_ops \<Rightarrow> key \<Rightarrow> byte \<Rightarrow> ('s, unit) cmd" where
  "delete_elements ops key ty = each_of (\<lambda>_ sub. delete_family ops key sub) (type_subs ty) ()"

definition delete_all :: "'s store_ops \<Rightarrow> key \<Rightarrow> entry \<Rightarrow> ('s, unit) cmd" where
  "delete_all ops key e =
     bnd (case en_ent e of EColl m \<Rightarrow> delete_elements ops key (mt_ty m) | _ \<Rightarrow> ret ()) (\<lambda>_.
     bnd (if entry_exists e then delete_key ops (kv key) else ret ()) (\<lambda>_.
     set_ttl ops key (en_ttl e) None))"

definition ent_of :: "val option \<Rightarrow> resp + ent" where
  "ent_of raw =
     (case raw of
        None \<Rightarrow> Inr ENone
      | Some (VBytes b) \<Rightarrow> Inr (EStr b)
      | Some (VInt i) \<Rightarrow> Inr (EStr (show_i64 i))
      | Some (VFloat f) \<Rightarrow> Inr (EStr (fmt_f64 f))
      | Some (VMeta m) \<Rightarrow>
          (case meta_decode m of Some m \<Rightarrow> Inr (EColl m) | None \<Rightarrow> Inl (err ''corrupt collection header''))
      | Some _ \<Rightarrow> Inl (err WRONGTYPE))"

definition ttl_of :: "val option \<Rightarrow> nat option" where
  "ttl_of raw = (case raw of Some (VInt at) \<Rightarrow> Some (unat at) | _ \<Rightarrow> None)"

definition load :: "'s store_ops \<Rightarrow> key \<Rightarrow> ('s, entry) cmd" where
  "load ops key =
     bnd (get_key ops (expk key)) (\<lambda>t.
     bnd (get_key ops (kv key)) (\<lambda>raw.
     case ent_of raw of
       Inl e \<Rightarrow> fail e
     | Inr ent \<Rightarrow>
         let e = \<lparr>en_ent = ent, en_ttl = ttl_of t\<rparr>
         in bnd now_cmd (\<lambda>now.
            if (case ttl_of t of None \<Rightarrow> False | Some at \<Rightarrow> at \<le> now) then
              bnd readonly_cmd (\<lambda>ro.
              bnd (if \<not> ro then delete_all ops key e else ret ()) (\<lambda>_.
              ret \<lparr>en_ent = ENone, en_ttl = None\<rparr>))
            else ret e)))"

definition coll :: "'s store_ops \<Rightarrow> key \<Rightarrow> byte \<Rightarrow> ('s, (meta \<times> nat option) option) cmd" where
  "coll ops key ty =
     bnd (load ops key) (\<lambda>e.
     case en_ent e of
       ENone \<Rightarrow> ret None
     | EColl m \<Rightarrow> if mt_ty m = ty then ret (Some (m, en_ttl e)) else fail (err WRONGTYPE)
     | EStr _ \<Rightarrow> fail (err WRONGTYPE))"

definition coll_or_new :: "'s store_ops \<Rightarrow> key \<Rightarrow> byte \<Rightarrow> ('s, meta \<times> nat option) cmd" where
  "coll_or_new ops key ty =
     bnd (coll ops key ty) (\<lambda>c. ret (case c of Some mt \<Rightarrow> mt | None \<Rightarrow> (meta_new ty, None)))"

definition put_meta :: "'s store_ops \<Rightarrow> key \<Rightarrow> meta \<Rightarrow> nat option \<Rightarrow> ('s, unit) cmd" where
  "put_meta ops key m ttl =
     (if mt_len m = 0 then bnd (delete_key ops (kv key)) (\<lambda>_. set_ttl ops key ttl None)
      else
        bnd (if mt_ver m = 0 then note_created else ret ()) (\<lambda>_.
        put_key ops (kv key) (VMeta (meta_encode (m\<lparr>mt_ver := mt_ver m + 1\<rparr>)))))"

definition put_str :: "'s store_ops \<Rightarrow> key \<Rightarrow> bytes \<Rightarrow> entry \<Rightarrow> nat option \<Rightarrow> ('s, unit) cmd" where
  "put_str ops key v old ttl =
     bnd (case en_ent old of EColl m \<Rightarrow> delete_elements ops key (mt_ty m) | _ \<Rightarrow> ret ()) (\<lambda>_.
     bnd (put_key ops (kv key) (VBytes v)) (\<lambda>_.
     set_ttl ops key (en_ttl old) ttl))"

definition elements :: "'s store_ops \<Rightarrow> key \<Rightarrow> byte \<Rightarrow> ('s, (bytes \<times> val) list) cmd" where
  "elements ops key sub =
     (case erange key sub of
        (s, e) \<Rightarrow> bnd (scan_keys ops s s e u64_max False) (\<lambda>kvs. ret (map (\<lambda>(k, v). (drop (length s) k, v)) kvs)))"

text \<open>
  \<open>each\<close>: pages of 256 entries, visited until the callback, which threads what it captures,
  declines.  The page loop carries fuel: one turn for every entry of the range and one more, as
  every turn that does not end it moves past at least one entry.
\<close>

definition PAGE :: nat where "PAGE = 256"

fun visit :: "('b \<Rightarrow> key \<Rightarrow> val \<Rightarrow> 'b \<times> bool) \<Rightarrow> (key \<times> val) list \<Rightarrow> 'b \<Rightarrow> 'b \<times> bool" where
  "visit f [] acc = (acc, True)"
| "visit f ((k, v) # r) acc = (case f acc k v of (acc, go) \<Rightarrow> if go then visit f r acc else (acc, False))"

fun pages :: "'s store_ops \<Rightarrow> key \<Rightarrow> key \<Rightarrow> key \<Rightarrow> bool \<Rightarrow> ('b \<Rightarrow> key \<Rightarrow> val \<Rightarrow> 'b \<times> bool) \<Rightarrow> nat \<Rightarrow> 'b \<Rightarrow> ('s, 'b) cmd" where
  "pages ops hint s e reverse f 0 acc = ret acc"
| "pages ops hint s e reverse f (Suc turns) acc =
     bnd (scan_keys ops hint s e PAGE reverse) (\<lambda>page.
     if page = [] then ret acc
     else
       let last = fst (last page); (acc, go) = visit f page acc
       in if \<not> go \<or> length page < PAGE then ret acc
          else if reverse then pages ops hint s last reverse f turns acc
          else pages ops hint (last @ [0]) e reverse f turns acc)"

definition each :: "'s store_ops \<Rightarrow> key \<Rightarrow> key \<Rightarrow> key \<Rightarrow> bool \<Rightarrow> ('b \<Rightarrow> key \<Rightarrow> val \<Rightarrow> 'b \<times> bool) \<Rightarrow> 'b \<Rightarrow> ('s, 'b) cmd" where
  "each ops hint s e reverse f acc =
     bnd (scan_keys ops hint s e u64_max reverse) (\<lambda>all. pages ops hint s e reverse f (length all + 1) acc)"

end
