(* ===== verification/Ks_Spec.thy ===== *)
theory Ks_Spec
  imports Context
begin

text \<open>
  Reasoning about commands.  A command run on any store that meets \<open>command_store\<close> is a
  transition of the view, the key-to-value map the store shows: \<open>spec m now ro V r V'\<close> says that
  \<open>m\<close>, started where the view is \<open>V\<close>, returns \<open>r\<close> and leaves \<open>V'\<close>, and that the deadlines it
  noted for the expiry index and the collection flag it raised are those the change needs.
\<close>

section \<open>Views\<close>

type_synonym kview = "key \<Rightarrow> val option"
type_synonym family = "byte \<Rightarrow> bytes \<Rightarrow> val option"

definition deadline :: "kview \<Rightarrow> key \<Rightarrow> nat option" where
  "deadline V k = ttl_of (V (expk k))"

definition has_coll :: "kview \<Rightarrow> bool" where
  "has_coll V \<longleftrightarrow> (\<exists>k m. V (kv k) = Some (VMeta m))"

text \<open>The noted changes turn an index that mirrors \<open>V\<close> into one that mirrors \<open>V'\<close>.\<close>

definition mirrors :: "kview \<Rightarrow> (key \<times> nat option) list \<Rightarrow> kview \<Rightarrow> bool" where
  "mirrors V E V' \<longleftrightarrow>
     (\<forall>k. deadline V' k = (case map_of (rev E) k of None \<Rightarrow> deadline V k | Some d \<Rightarrow> d))"

lemma mirrors_Nil: "mirrors V [] V' \<longleftrightarrow> (\<forall>k. deadline V' k = deadline V k)"
  by (simp add: mirrors_def)

lemma mirrors_trans: "mirrors V E V1 \<Longrightarrow> mirrors V1 E' V2 \<Longrightarrow> mirrors V (E @ E') V2"
  by (auto simp: mirrors_def map_add_def split: option.splits)

text \<open>The keys that belong to a user key, and what a change of that key leaves alone.\<close>

definition owned :: "key \<Rightarrow> key \<Rightarrow> bool" where
  "owned k x \<longleftrightarrow> x = kv k \<or> x = expk k \<or> (\<exists>s r. x = ekey k s r)"

definition elsewhere :: "key \<Rightarrow> kview \<Rightarrow> kview \<Rightarrow> bool" where
  "elsewhere k V V' \<longleftrightarrow> (\<forall>x. \<not> owned k x \<longrightarrow> V' x = V x)"

lemma owned_simps [simp]: "owned k (kv k)" "owned k (expk k)" "owned k (ekey k s r)"
  by (auto simp: owned_def)

lemma elsewhere_refl [simp]: "elsewhere k V V"
  by (simp add: elsewhere_def)

lemma elsewhere_trans: "elsewhere k V V1 \<Longrightarrow> elsewhere k V1 V2 \<Longrightarrow> elsewhere k V V2"
  by (simp add: elsewhere_def)

lemma elsewhere_upd: "owned k x \<Longrightarrow> elsewhere k V V1 \<Longrightarrow> elsewhere k V (V1(x := v))"
  by (auto simp: elsewhere_def)

section \<open>Objects\<close>

datatype obj = OAbsent | OStr bytes | OColl meta family

definition ent_obj :: "obj \<Rightarrow> ent" where
  "ent_obj ob = (case ob of OAbsent \<Rightarrow> ENone | OStr b \<Rightarrow> EStr b | OColl m F \<Rightarrow> EColl m)"

definition family_at :: "kview \<Rightarrow> key \<Rightarrow> family" where
  "family_at V k = (\<lambda>s r. V (ekey k s r))"

definition no_family :: family where "no_family = (\<lambda>_ _. None)"

definition family_ok :: "byte \<Rightarrow> family \<Rightarrow> bool" where
  "family_ok ty F \<longleftrightarrow>
     (\<forall>s. s \<notin> set (type_subs ty) \<longrightarrow> F s = Map.empty)
     \<and> (\<forall>s. finite (dom (F s)) \<and> card (dom (F s)) \<le> u64_max)"

definition holds_obj :: "kview \<Rightarrow> key \<Rightarrow> obj \<Rightarrow> bool" where
  "holds_obj V k ob \<longleftrightarrow>
     (case ob of
        OAbsent \<Rightarrow> V (kv k) = None \<and> family_at V k = no_family
      | OStr b \<Rightarrow> (\<exists>v. V (kv k) = Some v \<and> ent_of (Some v) = Inr (EStr b)) \<and> family_at V k = no_family
      | OColl m F \<Rightarrow> V (kv k) = Some (VMeta (meta_encode m)) \<and> meta_ok m \<and> mt_len m \<noteq> 0
          \<and> family_at V k = F \<and> family_ok (mt_ty m) F)"

definition holds_ttl :: "kview \<Rightarrow> key \<Rightarrow> nat option \<Rightarrow> bool" where
  "holds_ttl V k ttl \<longleftrightarrow>
     V (expk k) = map_option (\<lambda>a. VInt (of_nat a)) ttl \<and> (case ttl of None \<Rightarrow> True | Some a \<Rightarrow> a \<le> u64_max)"

definition holds :: "kview \<Rightarrow> key \<Rightarrow> obj \<Rightarrow> nat option \<Rightarrow> bool" where
  "holds V k ob ttl \<longleftrightarrow> holds_obj V k ob \<and> holds_ttl V k ttl \<and> (ob = OAbsent \<longrightarrow> ttl = None)"

definition expired :: "nat \<Rightarrow> nat option \<Rightarrow> bool" where
  "expired now ttl = (case ttl of None \<Rightarrow> False | Some a \<Rightarrow> a \<le> now)"

text \<open>What a command sees of an object: nothing once its deadline has passed.\<close>

definition live_obj :: "nat \<Rightarrow> obj \<Rightarrow> nat option \<Rightarrow> obj" where
  "live_obj now ob ttl = (if expired now ttl then OAbsent else ob)"

definition live_ttl :: "nat \<Rightarrow> nat option \<Rightarrow> nat option" where
  "live_ttl now ttl = (if expired now ttl then None else ttl)"

definition other_type :: "obj \<Rightarrow> byte \<Rightarrow> bool" where
  "other_type ob ty = (case ob of OAbsent \<Rightarrow> False | OStr b \<Rightarrow> True | OColl m F \<Rightarrow> mt_ty m \<noteq> ty)"

definition cleared :: "key \<Rightarrow> kview \<Rightarrow> kview" where
  "cleared k V = (\<lambda>x. if owned k x then None else V x)"

lemma unat_of_nat_u64: "a \<le> u64_max \<Longrightarrow> unat (of_nat a :: 64 word) = a"
  by (simp add: unat_of_nat u64_max_def)

lemma holds_ttl_deadline: "holds_ttl V k ttl \<Longrightarrow> deadline V k = ttl"
  by (auto simp: holds_ttl_def deadline_def ttl_of_def unat_of_nat_u64 split: option.splits)

lemma holds_cong:
  assumes "holds V k ob ttl" and "V' (kv k) = V (kv k)" and "V' (expk k) = V (expk k)" and "family_at V' k = family_at V k"
  shows "holds V' k ob ttl"
  using assms by (cases ob) (simp_all add: holds_def holds_obj_def holds_ttl_def)

lemma holds_cleared: "holds (cleared k V) k OAbsent None"
  by (auto simp: holds_def holds_obj_def holds_ttl_def cleared_def family_at_def no_family_def)

lemma elsewhere_cleared: "elsewhere k V (cleared k V)"
  by (simp add: elsewhere_def cleared_def)

lemma holds_elsewhere:
  assumes "holds V k' ob ttl" and "elsewhere k V V'" and "k' \<noteq> k"
  shows "holds V' k' ob ttl"
proof -
  have "V' (kv k') = V (kv k')" "V' (expk k') = V (expk k')" "V' (ekey k' s r) = V (ekey k' s r)" for s r
    using assms(2,3) by (auto simp: elsewhere_def owned_def)
  then have "family_at V' k' = family_at V k'" "V' (kv k') = V (kv k')" "V' (expk k') = V (expk k')"
    by (simp_all add: family_at_def)
  then show ?thesis using assms(1) by (cases ob) (simp_all add: holds_def holds_obj_def holds_ttl_def)
qed

definition no_elems :: "key \<Rightarrow> kview \<Rightarrow> kview" where
  "no_elems k V = (\<lambda>x. if \<exists>s r. x = ekey k s r then None else V x)"

lemma no_elems_id: "family_at V k = no_family \<Longrightarrow> no_elems k V = V"
  by (auto simp: no_elems_def family_at_def no_family_def fun_eq_iff)

lemma cleared_eq: "(no_elems k V)(kv k := None, expk k := None) = cleared k V"
  by (auto simp: no_elems_def cleared_def owned_def)

text \<open>The view after a load: an expired key is purged, unless the run is read-only.\<close>

definition touched :: "nat \<Rightarrow> bool \<Rightarrow> key \<Rightarrow> nat option \<Rightarrow> kview \<Rightarrow> kview" where
  "touched now ro k ttl V = (if expired now ttl \<and> \<not> ro then cleared k V else V)"

lemma live_coll:
  "live_obj now ob ttl = OColl m F \<Longrightarrow> ob = OColl m F \<and> touched now ro k ttl V = V \<and> live_ttl now ttl = ttl"
  by (auto simp: live_obj_def live_ttl_def touched_def split: if_splits)

lemma elsewhere_touched: "elsewhere k V (touched now ro k ttl V)"
  by (simp add: touched_def elsewhere_cleared)

lemma holds_touched:
  "holds V k ob ttl \<Longrightarrow> holds (touched now False k ttl V) k (live_obj now ob ttl) (live_ttl now ttl)"
  by (auto simp: touched_def live_obj_def live_ttl_def holds_cleared)

definition with_str :: "key \<Rightarrow> bytes \<Rightarrow> nat option \<Rightarrow> kview \<Rightarrow> kview" where
  "with_str k v at V = (no_elems k V)(kv k \<mapsto> VBytes v, expk k := map_option (\<lambda>a. VInt (of_nat a)) at)"

lemma holds_with_str:
  "case at of None \<Rightarrow> True | Some a \<Rightarrow> a \<le> u64_max \<Longrightarrow> holds (with_str k v at V) k (OStr v) at"
  by (auto simp: holds_def holds_obj_def holds_ttl_def with_str_def no_elems_def family_at_def no_family_def ent_of_def)

lemma elsewhere_with_str: "elsewhere k V (with_str k v at V)"
  by (auto simp: elsewhere_def with_str_def no_elems_def owned_def)

section \<open>The entries of a family\<close>

definition entries_of :: "(bytes \<Rightarrow> val option) \<Rightarrow> (bytes \<times> val) list" where
  "entries_of f = map (\<lambda>r. (r, the (f r))) (sorted_list_of_set (dom f))"

lemma entries_of_wf: "bt_wf (entries_of f)"
  by (simp add: bt_wf_def entries_of_def comp_def)

lemma set_entries_of: "finite (dom f) \<Longrightarrow> (r, v) \<in> set (entries_of f) \<longleftrightarrow> f r = Some v"
  by (auto simp: entries_of_def)

lemma map_of_entries_of: "finite (dom f) \<Longrightarrow> map_of (entries_of f) = f"
  using set_entries_of [of f] bt_in_set [OF entries_of_wf [of f]] by (metis map_of_eqI option.exhaust not_Some_eq ext)

lemma length_entries_of: "length (entries_of f) = card (dom f)"
  by (simp add: entries_of_def)

lemma entries_of_unique: "bt_wf es \<Longrightarrow> map_of es = f \<Longrightarrow> entries_of f = es"
  using map_of_entries_of [of f] by (intro bt_set_unique) (auto simp: entries_of_wf finite_dom_map_of bt_in_set)

definition family_keys :: "key \<Rightarrow> byte \<Rightarrow> kview \<Rightarrow> (key \<times> val) list" where
  "family_keys k s V = map (\<lambda>(r, v). (ekey k s r, v)) (entries_of (family_at V k s))"

lemma in_family_keys:
  assumes "finite (dom (family_at V k s))"
  shows "(x, v) \<in> set (family_keys k s V) \<longleftrightarrow> (\<exists>r. x = ekey k s r) \<and> V x = Some v"
proof -
  have "(x, v) \<in> set (family_keys k s V) \<longleftrightarrow> (\<exists>r. x = ekey k s r \<and> (r, v) \<in> set (entries_of (family_at V k s)))"
    by (auto simp: family_keys_def image_iff) (metis case_prod_conv)
  then show ?thesis using assms by (auto simp: set_entries_of) (auto simp: family_at_def)
qed

lemma fst_family_keys:
  "finite (dom (family_at V k s)) \<Longrightarrow> x \<in> fst ` set (family_keys k s V) \<longleftrightarrow> (\<exists>r. x = ekey k s r) \<and> V x \<noteq> None"
  using in_family_keys [of V k s x] by (auto simp: image_iff) (metis fst_conv)

lemma family_range:
  assumes "finite (dom (family_at V k s))" and "s \<noteq> 255"
  shows "range_of V (ebase k s) (ebase k (s + 1)) (family_keys k s V)"
proof -
  have "bt_wf (family_keys k s V)"
    using entries_of_wf [of "family_at V k s"]
    by (simp add: bt_wf_def family_keys_def comp_def case_prod_unfold sorted_wrt_map)
  moreover have "ebase k s \<le> x \<and> x < ebase k (s + 1) \<and> P \<longleftrightarrow> (\<exists>r. x = ekey k s r) \<and> P" for x P
    using in_erange [OF assms(2), of k x] by blast
  ultimately show ?thesis by (simp add: range_of_def in_family_keys [OF assms(1)])
qed

section \<open>Specifications of commands\<close>

lemma sub_not_max: "s \<in> set (type_subs ty) \<Longrightarrow> s \<noteq> 255"
  by (auto simp: type_subs_def SUB_HASH_def SUB_LIST_def SUB_SET_def SUB_SETPOS_def SUB_ZMEM_def SUB_ZSCORE_def
      SUB_XENT_def SUB_XGRP_def SUB_XPEL_def SUB_XCON_def split: if_splits)

context frame_store
begin

lemma get_key_eq: "get_key ops k cx = (Inr (view (cx_tx cx) k), cx\<lparr>cx_tx := snd (so_get ops k (cx_tx cx))\<rparr>)"
  by (simp add: get_key_def view_def split: prod.split)

end

context command_store
begin

definition spec :: "('s, 'a) cmd \<Rightarrow> nat \<Rightarrow> bool \<Rightarrow> kview \<Rightarrow> resp + 'a \<Rightarrow> kview \<Rightarrow> bool" where
  "spec m now ro V r V' \<longleftrightarrow>
     (\<forall>cx. wf (cx_tx cx) \<and> view (cx_tx cx) = V \<and> cx_now cx = now \<and> cx_readonly cx = ro \<longrightarrow>
       (\<exists>cx' E. m cx = (r, cx') \<and> wf (cx_tx cx') \<and> view (cx_tx cx') = V' \<and> cx_now cx' = now
          \<and> cx_readonly cx' = ro \<and> cx_exp cx' = cx_exp cx @ E \<and> mirrors V E V'
          \<and> (cx_created cx \<longrightarrow> cx_created cx') \<and> (has_coll V' \<longrightarrow> has_coll V \<or> cx_created cx')))"

lemma spec_run:
  assumes "spec m (cx_now cx) (cx_readonly cx) (view (cx_tx cx)) r V'" and "wf (cx_tx cx)"
  obtains cx' E where "m cx = (r, cx')" "wf (cx_tx cx')" "view (cx_tx cx') = V'" "cx_now cx' = cx_now cx"
    "cx_readonly cx' = cx_readonly cx" "cx_exp cx' = cx_exp cx @ E" "mirrors (view (cx_tx cx)) E V'"
    "cx_created cx \<longrightarrow> cx_created cx'" "has_coll V' \<longrightarrow> has_coll (view (cx_tx cx)) \<or> cx_created cx'"
  using assms unfolding spec_def by blast

lemma spec_ret: "spec (ret x) now ro V (Inr x) V"
  by (auto simp: spec_def ret_def mirrors_Nil)

lemma spec_fail: "spec (fail e) now ro V (Inl e) V"
  by (auto simp: spec_def fail_def mirrors_Nil)

lemma spec_now: "spec now_cmd now ro V (Inr now) V"
  by (auto simp: spec_def now_cmd_def mirrors_Nil)

lemma spec_readonly: "spec readonly_cmd now ro V (Inr ro) V"
  by (auto simp: spec_def readonly_cmd_def mirrors_Nil)

lemma spec_bnd:
  assumes m: "spec m now ro V (Inr x) V1" and f: "spec (f x) now ro V1 r V2"
  shows "spec (bnd m f) now ro V r V2"
  unfolding spec_def
proof (intro allI impI, elim conjE)
  fix cx :: "'s cx"
  assume cx: "wf (cx_tx cx)" "view (cx_tx cx) = V" "cx_now cx = now" "cx_readonly cx = ro"
  obtain cx1 E1 where 1: "m cx = (Inr x, cx1)" "wf (cx_tx cx1)" "view (cx_tx cx1) = V1" "cx_now cx1 = now"
      "cx_readonly cx1 = ro" "cx_exp cx1 = cx_exp cx @ E1" "mirrors V E1 V1" "cx_created cx \<longrightarrow> cx_created cx1"
      "has_coll V1 \<longrightarrow> has_coll V \<or> cx_created cx1"
    using m cx unfolding spec_def by blast
  obtain cx2 E2 where 2: "f x cx1 = (r, cx2)" "wf (cx_tx cx2)" "view (cx_tx cx2) = V2" "cx_now cx2 = now"
      "cx_readonly cx2 = ro" "cx_exp cx2 = cx_exp cx1 @ E2" "mirrors V1 E2 V2" "cx_created cx1 \<longrightarrow> cx_created cx2"
      "has_coll V2 \<longrightarrow> has_coll V1 \<or> cx_created cx2"
    using f 1(2-5) unfolding spec_def by blast
  have "bnd m f cx = (r, cx2)" using 1(1) 2(1) by (simp add: bnd_def)
  moreover have "mirrors V (E1 @ E2) V2" using 1(7) 2(7) by (rule mirrors_trans)
  ultimately show "\<exists>cx' E. bnd m f cx = (r, cx') \<and> wf (cx_tx cx') \<and> view (cx_tx cx') = V2 \<and> cx_now cx' = now
          \<and> cx_readonly cx' = ro \<and> cx_exp cx' = cx_exp cx @ E \<and> mirrors V E V2
          \<and> (cx_created cx \<longrightarrow> cx_created cx') \<and> (has_coll V2 \<longrightarrow> has_coll V \<or> cx_created cx')"
    using 1 2 by (intro exI [of _ cx2] exI [of _ "E1 @ E2"]) auto
qed

lemma spec_bnd_fail: "spec m now ro V (Inl e) V1 \<Longrightarrow> spec (bnd m f) now ro V (Inl e) V1"
  unfolding spec_def bnd_def by fastforce

lemma spec_get: "spec (get_key ops k) now ro V (Inr (V k)) V"
  by (auto simp: spec_def get_key_eq wf_get view_get mirrors_Nil)

lemma spec_put:
  assumes "v \<noteq> VTombstone" and "\<And>u. k \<noteq> expk u" and "(\<exists>u m. k = kv u \<and> v = VMeta m) \<longrightarrow> has_coll V"
  shows "spec (put_key ops k v) now ro V (Inr ()) (V(k \<mapsto> v))"
proof -
  have "mirrors V [] (V(k \<mapsto> v))" using assms(2) by (auto simp: mirrors_Nil deadline_def)
  moreover have "has_coll (V(k \<mapsto> v)) \<longrightarrow> has_coll V"
    using assms(3) by (auto simp: has_coll_def split: if_splits)
  ultimately show ?thesis
    using assms(1) by (auto simp: spec_def put_key_def wf_put view_put live_def)
qed

lemma has_coll_delete: "has_coll (V(k := None)) \<Longrightarrow> has_coll V"
  by (auto simp: has_coll_def split: if_splits)

lemma spec_delete:
  assumes "\<And>u. k \<noteq> expk u"
  shows "spec (delete_key ops k) now ro V (Inr ()) (V(k := None))"
proof -
  have "mirrors V [] (V(k := None))" using assms by (auto simp: mirrors_Nil deadline_def)
  then show ?thesis by (auto simp: spec_def delete_key_def wf_delete view_delete dest: has_coll_delete)
qed

lemma spec_set_ttl:
  assumes h: "V (expk k) \<noteq> None \<longleftrightarrow> had \<noteq> None" and at: "case at of None \<Rightarrow> True | Some a \<Rightarrow> a \<le> u64_max"
  shows "spec (set_ttl ops k had at) now ro V (Inr ()) (V(expk k := map_option (\<lambda>a. VInt (of_nat a)) at))"
proof (cases at)
  case (Some a)
  have "mirrors V [(k, Some a)] (V(expk k \<mapsto> VInt (of_nat a)))"
    using at by (auto simp: mirrors_def deadline_def ttl_of_def Some unat_of_nat_u64)
  moreover have "has_coll (V(expk k \<mapsto> VInt (of_nat a))) \<longrightarrow> has_coll V"
    by (auto simp: has_coll_def split: if_splits)
  ultimately show ?thesis
    by (auto simp: Some spec_def set_ttl_def bnd_def put_key_def note_exp_def wf_put view_put live_def)
next
  case None
  show ?thesis
  proof (cases "had = None")
    case True
    then have "V(expk k := None) = V" using h by auto
    then show ?thesis using None True spec_ret [of "()" now ro V] by (simp add: set_ttl_def)
  next
    case False
    have "mirrors V [(k, None)] (V(expk k := None))"
      by (auto simp: mirrors_def deadline_def ttl_of_def)
    then show ?thesis using None False
      by (auto simp: spec_def set_ttl_def bnd_def delete_key_def note_exp_def wf_delete view_delete dest: has_coll_delete)
  qed
qed

lemma spec_scan:
  assumes "start < stop" and "\<And>k. start \<le> k \<Longrightarrow> k < stop \<Longrightarrow> shard_of k = shard_of hint" and "range_of V start stop full"
  shows "spec (scan_keys ops hint start stop limit reverse) now ro V
     (Inr (take limit (if reverse then rev full else full))) V"
  using scan_range_full [OF _ assms(1), of _ hint full limit] assms(2,3)
  by (cases reverse) (auto simp: spec_def scan_keys_def mirrors_Nil)

lemma spec_each_delete:
  assumes "\<And>k. k \<in> fst ` set kvs \<Longrightarrow> (\<forall>u. k \<noteq> expk u)"
  shows "spec (each_of (\<lambda>_ (k, _). delete_key ops k) kvs ()) now ro V (Inr ())
     (\<lambda>x. if x \<in> fst ` set kvs then None else V x)"
  using assms
proof (induction kvs arbitrary: V)
  case Nil
  then show ?case using spec_ret [of "()"] by simp
next
  case (Cons kvp kvs)
  obtain k v where k: "kvp = (k, v)" by (cases kvp)
  have "spec (delete_key ops k) now ro V (Inr ()) (V(k := None))"
    by (rule spec_delete) (use Cons.prems k in force)
  moreover have "spec (each_of (\<lambda>_ (k, _). delete_key ops k) kvs ()) now ro (V(k := None)) (Inr ())
      (\<lambda>x. if x \<in> fst ` set kvs then None else (V(k := None)) x)"
    using Cons.prems by (intro Cons.IH) auto
  moreover have "(\<lambda>x. if x \<in> fst ` set kvs then None else (V(k := None)) x) =
      (\<lambda>x. if x \<in> fst ` set (kvp # kvs) then None else V x)"
    by (auto simp: k)
  ultimately show ?case by (simp add: k) (rule spec_bnd)
qed

lemma spec_family_scan:
  assumes "k \<noteq> []" and "s \<noteq> 255" and "finite (dom (family_at V k s))" and "card (dom (family_at V k s)) \<le> u64_max"
  shows "spec (scan_keys ops (ebase k s) (ebase k s) (ebase k (s + 1)) u64_max False) now ro V (Inr (family_keys k s V)) V"
proof -
  have shard: "shard_of x = shard_of (ebase k s)" if x: "ebase k s \<le> x" "x < ebase k (s + 1)" for x
  proof -
    obtain r where "x = ekey k s r" using in_erange [OF assms(2), of k x] x by blast
    then show ?thesis using ekey_shard [OF assms(1), of s r s "[]"] by (simp only: ekey_empty)
  qed
  have "take u64_max (if False then rev (family_keys k s V) else family_keys k s V) = family_keys k s V"
    using assms(4) by (simp add: family_keys_def length_entries_of)
  moreover have "spec (scan_keys ops (ebase k s) (ebase k s) (ebase k (s + 1)) u64_max False) now ro V
      (Inr (take u64_max (if False then rev (family_keys k s V) else family_keys k s V))) V"
    by (rule spec_scan [OF ebase_less [OF assms(2)] shard family_range [OF assms(3,2)]])
  ultimately show ?thesis by (simp only:)
qed

lemma spec_delete_family:
  assumes "k \<noteq> []" and "s \<noteq> 255" and "finite (dom (family_at V k s))" and "card (dom (family_at V k s)) \<le> u64_max"
  shows "spec (delete_family ops k s) now ro V (Inr ()) (\<lambda>x. if \<exists>r. x = ekey k s r then None else V x)"
proof -
  note keys = fst_family_keys [OF assms(3)]
  have "spec (each_of (\<lambda>_ (k, _). delete_key ops k) (family_keys k s V) ()) now ro V (Inr ())
     (\<lambda>x. if x \<in> fst ` set (family_keys k s V) then None else V x)"
    by (rule spec_each_delete) (auto simp: keys)
  moreover have "(\<lambda>x. if x \<in> fst ` set (family_keys k s V) then None else V x) =
      (\<lambda>x. if \<exists>r. x = ekey k s r then None else V x)"
    by (auto simp: keys)
  ultimately show ?thesis
    unfolding delete_family_def erange_def prod.case using spec_family_scan [OF assms] by (auto intro: spec_bnd)
qed

lemma spec_elements:
  assumes "k \<noteq> []" and "s \<noteq> 255" and "finite (dom (family_at V k s))" and "card (dom (family_at V k s)) \<le> u64_max"
  shows "spec (elements ops k s) now ro V (Inr (entries_of (family_at V k s))) V"
proof -
  have "map (\<lambda>(x, v). (drop (length (ebase k s)) x, v)) (family_keys k s V) = entries_of (family_at V k s)"
    by (simp add: family_keys_def comp_def case_prod_unfold ekey_def)
  then show ?thesis
    unfolding elements_def erange_def prod.case using spec_family_scan [OF assms] spec_ret by (metis (no_types, lifting) spec_bnd)
qed

lemma spec_delete_families:
  assumes "k \<noteq> []" and "\<And>s. s \<in> set subs \<Longrightarrow> s \<noteq> 255"
    and "\<And>s. finite (dom (family_at V k s)) \<and> card (dom (family_at V k s)) \<le> u64_max"
  shows "spec (each_of (\<lambda>_ sub. delete_family ops k sub) subs ()) now ro V (Inr ())
     (\<lambda>x. if \<exists>s\<in>set subs. \<exists>r. x = ekey k s r then None else V x)"
  using assms(2,3)
proof (induction subs arbitrary: V)
  case Nil
  then show ?case using spec_ret [of "()"] by simp
next
  case (Cons s subs)
  let ?V = "\<lambda>x. if \<exists>r. x = ekey k s r then None else V x"
  have fam: "family_at ?V k s' = (if s' = s then Map.empty else family_at V k s')" for s'
    by (auto simp: family_at_def)
  have "spec (delete_family ops k s) now ro V (Inr ()) ?V"
    using Cons.prems by (intro spec_delete_family assms(1)) auto
  moreover have "spec (each_of (\<lambda>_ sub. delete_family ops k sub) subs ()) now ro ?V (Inr ())
      (\<lambda>x. if \<exists>s\<in>set subs. \<exists>r. x = ekey k s r then None else ?V x)"
    using Cons.prems by (intro Cons.IH) (auto simp: fam)
  moreover have "(\<lambda>x. if \<exists>s\<in>set subs. \<exists>r. x = ekey k s r then None else ?V x) =
      (\<lambda>x. if \<exists>s\<in>set (s # subs). \<exists>r. x = ekey k s r then None else V x)"
    by auto
  ultimately show ?case by (simp only: each_of.simps) (rule spec_bnd)
qed

lemma spec_delete_elements:
  assumes "k \<noteq> []" and "family_ok ty (family_at V k)"
  shows "spec (delete_elements ops k ty) now ro V (Inr ()) (no_elems k V)"
proof -
  have "(\<lambda>x. if \<exists>s\<in>set (type_subs ty). \<exists>r. x = ekey k s r then None else V x) = no_elems k V"
  proof
    fix x
    show "(if \<exists>s\<in>set (type_subs ty). \<exists>r. x = ekey k s r then None else V x) = no_elems k V x"
    proof (cases "\<exists>s r. x = ekey k s r")
      case True
      then obtain s r where x: "x = ekey k s r" by blast
      have "V x = None" if "s \<notin> set (type_subs ty)"
        using that assms(2) by (auto simp: x family_ok_def family_at_def fun_eq_iff)
      then show ?thesis by (auto simp: no_elems_def x)
    qed (auto simp: no_elems_def)
  qed
  moreover have "spec (delete_elements ops k ty) now ro V (Inr ())
      (\<lambda>x. if \<exists>s\<in>set (type_subs ty). \<exists>r. x = ekey k s r then None else V x)"
    unfolding delete_elements_def
    using assms sub_not_max by (intro spec_delete_families) (auto simp: family_ok_def)
  ultimately show ?thesis by simp
qed

lemma spec_drop_elements:
  assumes "k \<noteq> []" and "holds_obj V k ob"
  shows "spec (case ent_obj ob of EColl m \<Rightarrow> delete_elements ops k (mt_ty m) | _ \<Rightarrow> ret ()) now ro V (Inr ()) (no_elems k V)"
proof (cases ob)
  case (OColl m F)
  then show ?thesis using assms spec_delete_elements by (simp add: holds_obj_def ent_obj_def)
next
  case OAbsent
  then show ?thesis using assms(2) spec_ret [of "()"] no_elems_id by (simp add: holds_obj_def ent_obj_def)
next
  case (OStr b)
  then show ?thesis using assms(2) spec_ret [of "()"] no_elems_id by (simp add: holds_obj_def ent_obj_def)
qed

lemma spec_delete_all:
  assumes "k \<noteq> []" and "holds V k ob ttl"
  shows "spec (delete_all ops k \<lparr>en_ent = ent_obj ob, en_ttl = ttl\<rparr>) now ro V (Inr ()) (cleared k V)"
proof -
  let ?e = "\<lparr>en_ent = ent_obj ob, en_ttl = ttl\<rparr>"
  let ?V1 = "no_elems k V" and ?V2 = "(no_elems k V)(kv k := None)"
  have 1: "spec (case en_ent ?e of EColl m \<Rightarrow> delete_elements ops k (mt_ty m) | _ \<Rightarrow> ret ()) now ro V (Inr ()) ?V1"
    using spec_drop_elements assms by (simp add: holds_def)
  have 2: "spec (if entry_exists ?e then delete_key ops (kv k) else ret ()) now ro ?V1 (Inr ()) ?V2"
  proof (cases "ob = OAbsent")
    case True
    then have "?V2 = ?V1" using assms(2) by (auto simp: holds_def holds_obj_def no_elems_def)
    then show ?thesis using True spec_ret [of "()" now ro ?V1] by (simp add: entry_exists_def ent_obj_def)
  next
    case False
    then have "entry_exists ?e" by (cases ob) (simp_all add: entry_exists_def ent_obj_def)
    then show ?thesis using spec_delete [of "kv k" now ro ?V1] by simp
  qed
  have "spec (set_ttl ops k ttl None) now ro ?V2 (Inr ()) (?V2(expk k := map_option (\<lambda>a. VInt (of_nat a)) None))"
    using assms(2) by (intro spec_set_ttl) (auto simp: holds_def holds_ttl_def no_elems_def)
  then have "spec (set_ttl ops k (en_ttl ?e) None) now ro ?V2 (Inr ()) (cleared k V)"
    by (simp add: cleared_eq)
  then show ?thesis unfolding delete_all_def by (intro spec_bnd [OF 1] spec_bnd [OF 2])
qed

lemma spec_load:
  assumes "k \<noteq> []" and h: "holds V k ob ttl"
  shows "spec (load ops k) now ro V (Inr \<lparr>en_ent = ent_obj (live_obj now ob ttl), en_ttl = live_ttl now ttl\<rparr>)
     (touched now ro k ttl V)"
proof -
  have ttl: "ttl_of (V (expk k)) = ttl"
    using holds_ttl_deadline [of V k ttl] h by (simp add: holds_def deadline_def)
  have ent: "ent_of (V (kv k)) = Inr (ent_obj ob)"
    using h by (cases ob) (auto simp: holds_def holds_obj_def ent_obj_def ent_of_def meta_decode_encode)
  let ?e = "\<lparr>en_ent = ent_obj ob, en_ttl = ttl\<rparr>"
  let ?none = "\<lparr>en_ent = ENone, en_ttl = None\<rparr>"
  let ?rest = "if expired now ttl then
        bnd readonly_cmd (\<lambda>ro. bnd (if \<not> ro then delete_all ops k ?e else ret ()) (\<lambda>_. ret ?none))
      else ret ?e"
  have "spec ?rest now ro V (Inr \<lparr>en_ent = ent_obj (live_obj now ob ttl), en_ttl = live_ttl now ttl\<rparr>) (touched now ro k ttl V)"
  proof (cases "expired now ttl")
    case True
    have "spec (if \<not> ro then delete_all ops k ?e else ret ()) now ro V (Inr ()) (touched now ro k ttl V)"
      using spec_delete_all [OF assms] True by (cases ro) (simp_all add: touched_def spec_ret)
    then have "spec ?rest now ro V (Inr ?none) (touched now ro k ttl V)"
      unfolding if_P [OF True] by (rule spec_bnd [OF spec_readonly spec_bnd]) (rule spec_ret)
    then show ?thesis using True by (simp add: live_obj_def live_ttl_def ent_obj_def)
  qed (simp add: live_obj_def live_ttl_def touched_def spec_ret)
  then have "spec (bnd now_cmd (\<lambda>now. if expired now ttl then
        bnd readonly_cmd (\<lambda>ro. bnd (if \<not> ro then delete_all ops k ?e else ret ()) (\<lambda>_. ret ?none))
      else ret ?e)) now ro V (Inr \<lparr>en_ent = ent_obj (live_obj now ob ttl), en_ttl = live_ttl now ttl\<rparr>) (touched now ro k ttl V)"
    by (rule spec_bnd [OF spec_now])
  then show ?thesis
    unfolding load_def
    by (intro spec_bnd [OF spec_get] ) (simp add: ttl ent Let_def expired_def)
qed

lemma spec_coll_absent:
  "k \<noteq> [] \<Longrightarrow> holds V k ob ttl \<Longrightarrow> live_obj now ob ttl = OAbsent \<Longrightarrow>
     spec (coll ops k ty) now ro V (Inr None) (touched now ro k ttl V)"
  unfolding coll_def by (rule spec_bnd [OF spec_load], assumption, assumption, simp add: ent_obj_def spec_ret)

lemma spec_coll_some:
  "k \<noteq> [] \<Longrightarrow> holds V k ob ttl \<Longrightarrow> live_obj now ob ttl = OColl m F \<Longrightarrow> mt_ty m = ty \<Longrightarrow>
     spec (coll ops k ty) now ro V (Inr (Some (m, live_ttl now ttl))) (touched now ro k ttl V)"
  unfolding coll_def by (rule spec_bnd [OF spec_load], assumption, assumption, simp add: ent_obj_def spec_ret)

lemma spec_coll_wrongtype:
  "k \<noteq> [] \<Longrightarrow> holds V k ob ttl \<Longrightarrow> other_type (live_obj now ob ttl) ty \<Longrightarrow>
     spec (coll ops k ty) now ro V (Inl (err WRONGTYPE)) (touched now ro k ttl V)"
  unfolding coll_def
  by (rule spec_bnd [OF spec_load], assumption, assumption)
    (auto simp: ent_obj_def spec_fail other_type_def split: obj.splits)

lemma spec_coll_or_new:
  assumes "k \<noteq> []" "holds V k ob ttl" "\<not> other_type (live_obj now ob ttl) ty"
  shows "spec (coll_or_new ops k ty) now ro V
     (Inr (case live_obj now ob ttl of OColl m F \<Rightarrow> (m, live_ttl now ttl) | _ \<Rightarrow> (meta_new ty, None))) (touched now ro k ttl V)"
proof (cases "live_obj now ob ttl")
  case OAbsent
  show ?thesis
    unfolding coll_or_new_def by (rule spec_bnd [OF spec_coll_absent [OF assms(1,2)]]) (simp_all add: OAbsent spec_ret)
next
  case (OColl m F)
  then have "mt_ty m = ty" using assms(3) by (simp add: other_type_def)
  then show ?thesis
    unfolding coll_or_new_def
    by (intro spec_bnd [OF spec_coll_some [OF assms(1,2) OColl]]) (simp_all add: OColl spec_ret)
qed (use assms(3) in \<open>simp add: other_type_def\<close>)

lemma spec_put_meta:
  assumes "mt_len m \<noteq> 0" and "mt_ver m \<noteq> 0 \<longrightarrow> has_coll V"
  shows "spec (put_meta ops k m ttl) now ro V (Inr ()) (V(kv k \<mapsto> VMeta (meta_encode (m\<lparr>mt_ver := mt_ver m + 1\<rparr>))))"
proof -
  have "mirrors V [] (V(kv k \<mapsto> v))" for v by (auto simp: mirrors_Nil deadline_def)
  then show ?thesis
    using assms by (auto simp: spec_def put_meta_def bnd_def note_created_def ret_def put_key_def wf_put view_put live_def)
qed

lemma spec_put_meta_empty:
  assumes "mt_len m = 0" and "V (expk k) \<noteq> None \<longleftrightarrow> ttl \<noteq> None"
  shows "spec (put_meta ops k m ttl) now ro V (Inr ()) (V(kv k := None, expk k := None))"
proof -
  have "spec (delete_key ops (kv k)) now ro V (Inr ()) (V(kv k := None))" by (rule spec_delete) simp
  moreover have "spec (set_ttl ops k ttl None) now ro (V(kv k := None)) (Inr ())
      (V(kv k := None, expk k := map_option (\<lambda>a. VInt (of_nat a)) None))"
    using assms(2) by (intro spec_set_ttl) simp_all
  ultimately show ?thesis using assms(1) by (auto simp: put_meta_def intro: spec_bnd)
qed

lemma spec_put_str:
  assumes "k \<noteq> []" and h: "holds V k ob ttl" and at: "case at of None \<Rightarrow> True | Some a \<Rightarrow> a \<le> u64_max"
  shows "spec (put_str ops k v \<lparr>en_ent = ent_obj ob, en_ttl = ttl\<rparr> at) now ro V (Inr ()) (with_str k v at V)"
proof -
  let ?V1 = "no_elems k V" and ?V2 = "(no_elems k V)(kv k \<mapsto> VBytes v)"
  have 1: "spec (case ent_obj ob of EColl m \<Rightarrow> delete_elements ops k (mt_ty m) | _ \<Rightarrow> ret ()) now ro V (Inr ()) ?V1"
    using spec_drop_elements assms by (simp add: holds_def)
  have 2: "spec (put_key ops (kv k) (VBytes v)) now ro ?V1 (Inr ()) ?V2"
    by (rule spec_put) simp_all
  have "spec (set_ttl ops k ttl at) now ro ?V2 (Inr ()) (?V2(expk k := map_option (\<lambda>a. VInt (of_nat a)) at))"
    using h at by (intro spec_set_ttl) (auto simp: holds_def holds_ttl_def no_elems_def)
  then show ?thesis
    unfolding put_str_def with_str_def entry.simps by (intro spec_bnd [OF 1] spec_bnd [OF 2])
qed

end

section \<open>Transitions of one key\<close>

text \<open>
  On the commit path, command \<open>m\<close> takes key \<open>k\<close> to object \<open>ob\<close> with deadline \<open>ttl\<close>, replies \<open>r\<close>,
  leaves every other user key alone and notes the changes the expiry index needs.
\<close>

definition key_transition :: "(op_store, 'a) cmd \<Rightarrow> op_store cx \<Rightarrow> key \<Rightarrow> resp + 'a \<Rightarrow> obj \<Rightarrow> nat option \<Rightarrow> bool" where
  "key_transition m cx k r ob ttl \<longleftrightarrow>
     (\<exists>cx' E. m cx = (r, cx') \<and> os_ok (cx_tx cx') \<and> holds (os_get (cx_tx cx')) k ob ttl
        \<and> elsewhere k (os_get (cx_tx cx)) (os_get (cx_tx cx'))
        \<and> cx_now cx' = cx_now cx \<and> cx_readonly cx' = cx_readonly cx
        \<and> cx_exp cx' = cx_exp cx @ E \<and> mirrors (os_get (cx_tx cx)) E (os_get (cx_tx cx'))
        \<and> (cx_created cx \<longrightarrow> cx_created cx')
        \<and> (has_coll (os_get (cx_tx cx')) \<longrightarrow> has_coll (os_get (cx_tx cx)) \<or> cx_created cx'))"

lemma key_transitionI:
  assumes "cs.spec m (cx_now cx) (cx_readonly cx) (os_get (cx_tx cx)) r V'" and "os_ok (cx_tx cx)"
    and "holds V' k ob ttl" and "elsewhere k (os_get (cx_tx cx)) V'"
  shows "key_transition m cx k r ob ttl"
proof -
  have "cs.spec m (cx_now cx) (cx_readonly cx) (cs.view (cx_tx cx)) r V'" using assms(1) by (simp only: cs_view)
  then obtain cx' E where r: "m cx = (r, cx')" "os_ok (cx_tx cx')" "cs.view (cx_tx cx') = V'" "cx_now cx' = cx_now cx"
    "cx_readonly cx' = cx_readonly cx" "cx_exp cx' = cx_exp cx @ E" "mirrors (cs.view (cx_tx cx)) E V'"
    "cx_created cx \<longrightarrow> cx_created cx'" "has_coll V' \<longrightarrow> has_coll (cs.view (cx_tx cx)) \<or> cx_created cx'"
    using assms(2) by (rule cs.spec_run)
  then have "os_get (cx_tx cx') = V'" "mirrors (os_get (cx_tx cx)) E V'"
    "has_coll V' \<longrightarrow> has_coll (os_get (cx_tx cx)) \<or> cx_created cx'" by (simp_all only: cs_view)
  then show ?thesis using r assms(3,4) unfolding key_transition_def by blast
qed

lemma key_transition_specI:
  assumes "\<not> cx_readonly cx" and "os_ok (cx_tx cx)"
    and "cs.spec m (cx_now cx) False (os_get (cx_tx cx)) r V' \<and> holds V' k ob ttl \<and> elsewhere k (os_get (cx_tx cx)) V'"
  shows "key_transition m cx k r ob ttl"
  using assms by (auto intro: key_transitionI)

text \<open>A read leaves the key as its load does.\<close>

lemma key_transition_readI:
  assumes "\<not> cx_readonly cx" and "os_ok (cx_tx cx)" and "holds (os_get (cx_tx cx)) k ob ttl"
    and "cs.spec m (cx_now cx) False (os_get (cx_tx cx)) r (touched (cx_now cx) False k ttl (os_get (cx_tx cx)))"
  shows "key_transition m cx k r (live_obj (cx_now cx) ob ttl) (live_ttl (cx_now cx) ttl)"
  using assms by (intro key_transition_specI) (auto intro: holds_touched elsewhere_touched)

text \<open>A context on the empty store.\<close>

definition fresh_cx :: "nat \<Rightarrow> op_store cx" where
  "fresh_cx now = \<lparr>cx_tx = os_new empty_shards [], cx_now = now, cx_readonly = False, cx_exp = [], cx_created = False,
     cx_rnd = [], cx_clock = []\<rparr>"

lemma fresh_cx_simps [simp]:
  "cx_tx (fresh_cx now) = os_new empty_shards []" "cx_now (fresh_cx now) = now" "\<not> cx_readonly (fresh_cx now)"
  by (simp_all add: fresh_cx_def)

lemma fresh_get [simp]: "os_get (os_new empty_shards []) k = None"
  by (simp add: os_get_def os_new_def latest_of_def)

lemma fresh_store_ok [simp]: "os_ok (os_new empty_shards [])"
  by (simp add: os_ok_def os_wf_def os_new_def empty_shards_wf)

lemma fresh_holds [simp]: "holds (os_get (os_new empty_shards [])) k OAbsent None"
  by (simp add: holds_def holds_obj_def holds_ttl_def family_at_def no_family_def fun_eq_iff)

lemma live_absent [simp]: "live_obj now OAbsent ttl = OAbsent" "live_ttl now None = None"
  by (simp_all add: live_obj_def live_ttl_def)

end
