(* ===== verification/Stream_Ids.thy ===== *)
theory Stream_Ids
  imports Context "HOL-Library.Product_Lexorder"
begin

text \<open>
  The identifiers and encodings of streams (\<open>crates/server/src/keyspace/stream.rs\<close>): entry ids, a
  pair of machine words ordered lexicographically, their text and their big-endian keys, the
  field list of an entry, and the records of consumer groups.
\<close>

section \<open>Identifiers\<close>

type_synonym sid = "64 word \<times> 64 word"

definition U64_MAX :: "64 word" where "U64_MAX = - 1"

definition ID_MIN :: sid where "ID_MIN = (0, 0)"

definition ID_MAX :: sid where "ID_MAX = (U64_MAX, U64_MAX)"

definition NODE :: "64 word" where "NODE = 100"

definition invalid_id :: resp where
  "invalid_id = err ''Invalid stream ID specified as stream command argument''"

definition id_bytes :: "sid \<Rightarrow> bytes" where
  "id_bytes i = be_bytes 8 (unat (fst i)) @ be_bytes 8 (unat (snd i))"

definition id_from :: "bytes \<Rightarrow> sid" where
  "id_from b = (of_nat (be_nat (take 8 b)), of_nat (be_nat (take 8 (drop 8 b))))"

definition fmt_id :: "sid \<Rightarrow> bytes" where
  "fmt_id i = show_nat (unat (fst i)) @ [45] @ show_nat (unat (snd i))"

definition id_resp :: "sid \<Rightarrow> resp" where "id_resp i = RBulk (fmt_id i)"

definition next_id :: "sid \<Rightarrow> sid option" where
  "next_id i =
     (if snd i < U64_MAX then Some (fst i, snd i + 1)
      else if fst i < U64_MAX then Some (fst i + 1, 0)
      else None)"

definition prev_id :: "sid \<Rightarrow> sid option" where
  "prev_id i =
     (if snd i > 0 then Some (fst i, snd i - 1)
      else if fst i > 0 then Some (fst i - 1, U64_MAX)
      else None)"

text \<open>\<open>parse\<close> of an unsigned number without a sign.\<close>

definition parse_u64 :: "bytes \<Rightarrow> 64 word option" where
  "parse_u64 s =
     (if s \<noteq> [] \<and> list_all is_digit s \<and> digits_val s \<le> u64_max then Some (of_nat (digits_val s)) else None)"

definition parse_id :: "bytes \<Rightarrow> 64 word \<Rightarrow> sid option" where
  "parse_id a missing_seq =
     (if 45 \<in> set a then
        (case (parse_u64 (takeWhile (\<lambda>b. b \<noteq> 45) a), parse_u64 (tl (dropWhile (\<lambda>b. b \<noteq> 45) a))) of
           (Some ms, Some seq) \<Rightarrow> Some (ms, seq)
         | _ \<Rightarrow> None)
      else map_option (\<lambda>ms. (ms, missing_seq)) (parse_u64 a))"

definition strict_id :: "bytes \<Rightarrow> ('s, sid) cmd" where
  "strict_id a = ok_or (parse_id a 0) invalid_id"

text \<open>
  Range bounds: \<open>-\<close>, \<open>+\<close>, exclusive with a leading parenthesis.  The code wraps the result in an
  \<open>Option\<close> that is always \<open>Some\<close>.
\<close>

definition range_bound :: "(sid \<Rightarrow> sid option) \<Rightarrow> 64 word \<Rightarrow> string \<Rightarrow> bytes \<Rightarrow> ('s, sid) cmd" where
  "range_bound step missing_seq msg a =
     (if a = [45] then ret ID_MIN
      else if a = [43] then ret ID_MAX
      else if a \<noteq> [] \<and> hd a = 40 then
        bnd (ok_or (parse_id (tl a) missing_seq) invalid_id) (\<lambda>i. ok_or (step i) (err msg))
      else ok_or (parse_id a missing_seq) invalid_id)"

definition range_start :: "bytes \<Rightarrow> ('s, sid) cmd" where
  "range_start = range_bound next_id 0 ''invalid start ID for the interval''"

definition range_end :: "bytes \<Rightarrow> ('s, sid) cmd" where
  "range_end = range_bound prev_id U64_MAX ''invalid end ID for the interval''"

section \<open>Encodings\<close>

definition enc_fields :: "bytes list \<Rightarrow> bytes" where
  "enc_fields f = le_bytes 4 (length f) @ concat (map (\<lambda>x. le_bytes 4 (length x) @ x) f)"

fun dec_loop :: "bytes \<Rightarrow> nat \<Rightarrow> nat \<Rightarrow> bytes list" where
  "dec_loop b i 0 = []"
| "dec_loop b i (Suc n) =
     (if i + 4 > length b then []
      else let l = le_nat (take 4 (drop i b)) in take l (drop (i + 4) b) # dec_loop b (i + 4 + l) n)"

definition dec_fields :: "bytes \<Rightarrow> bytes list" where
  "dec_fields b = (if length b < 4 then [] else dec_loop b 4 (le_nat (take 4 b)))"

definition entry_resp :: "sid \<Rightarrow> bytes list \<Rightarrow> resp" where
  "entry_resp i fs = RArray [id_resp i, RArray (map RBulk fs)]"

definition bytes_of :: "val \<Rightarrow> bytes" where
  "bytes_of v = (case v of VBytes b \<Rightarrow> b | _ \<Rightarrow> [])"

definition u64_at :: "bytes \<Rightarrow> nat \<Rightarrow> 64 word" where
  "u64_at b i = (if i + 8 \<le> length b then word_at b i else 0)"

definition group_part :: "bytes \<Rightarrow> bytes" where
  "group_part g = be_bytes 4 (length g) @ g"

record group =
  gr_last :: sid
  gr_read :: i64

definition group_enc :: "group \<Rightarrow> bytes" where
  "group_enc gr = le_word (fst (gr_last gr)) @ le_word (snd (gr_last gr)) @ le_word (gr_read gr)"

definition group_dec :: "bytes \<Rightarrow> group" where
  "group_dec b = \<lparr>gr_last = (u64_at b 0, u64_at b 8), gr_read = u64_at b 16\<rparr>"

record pel =
  pl_time :: "64 word"
  pl_count :: "64 word"
  pl_owner :: bytes

definition pel_enc :: "pel \<Rightarrow> bytes" where
  "pel_enc p = le_word (pl_time p) @ le_word (pl_count p) @ pl_owner p"

definition pel_dec :: "bytes \<Rightarrow> pel" where
  "pel_dec b = \<lparr>pl_time = u64_at b 0, pl_count = u64_at b 8, pl_owner = drop 16 b\<rparr>"

definition con_enc :: "64 word \<Rightarrow> i64 \<Rightarrow> bytes" where
  "con_enc seen active = le_word seen @ le_word active"

definition con_dec :: "bytes \<Rightarrow> 64 word \<times> i64" where
  "con_dec b = (u64_at b 0, u64_at b 8)"

section \<open>Laws\<close>

lemma id_bytes_length [simp]: "length (id_bytes i) = 16"
  by (simp add: id_bytes_def)

lemma id_from_bytes: "id_from (id_bytes i @ rest) = i"
proof -
  have "be_nat (be_bytes 8 (unat w)) = unat w" for w :: "64 word"
    by (rule be_nat_u64) (rule unat_le_u64)
  then show ?thesis by (simp add: id_from_def id_bytes_def)
qed

lemma id_bytes_less: "id_bytes i < id_bytes j \<longleftrightarrow> i < j"
proof -
  have eq: "be_bytes 8 (unat a) = be_bytes 8 (unat b) \<longleftrightarrow> a = b" for a b :: "64 word"
    using be_nat_u64 [OF unat_le_u64, of a] be_nat_u64 [OF unat_le_u64, of b] by (metis unsigned_word_eqI)
  have lt: "be_bytes 8 (unat a) < be_bytes 8 (unat b) \<longleftrightarrow> a < b" for a b :: "64 word"
    using be_bytes_less [OF unat_le_u64 unat_le_u64, of a b] by (simp add: word_less_nat_alt)
  have app: "x @ y < x' @ y' \<longleftrightarrow> x < x' \<or> (x = x' \<and> y < y')" if "length x = length x'" for x x' y y' :: bytes
    using that by (induction x x' rule: list_induct2) auto
  show ?thesis
    by (cases i; cases j) (simp add: id_bytes_def app eq lt less_prod_def')
qed

lemma word_succ_le: "b < U64_MAX \<Longrightarrow> b < d \<longleftrightarrow> b + 1 \<le> d"
proof -
  assume "b < U64_MAX"
  moreover have "unat U64_MAX = u64_max" unfolding U64_MAX_def u64_max_def by (simp add: unsigned_minus_1_eq_mask mask_eq_exp_minus_1)
  ultimately have "unat b < u64_max" by (simp add: word_less_nat_alt)
  then have "unat (b + 1) = unat b + 1" by (simp add: unat_word_ariths u64_max_def)
  then show ?thesis by (simp add: word_less_nat_alt word_le_nat_alt Suc_le_eq)
qed

lemma word_max_le: "\<not> b < U64_MAX \<Longrightarrow> d \<le> b"
  by (metis U64_MAX_def linorder_not_less max_word_max order_antisym_conv)

text \<open>\<open>next_id\<close> is the successor in the order of ids, and fails at the largest.\<close>

lemma next_id_least:
  "next_id i = Some j \<Longrightarrow> i < k \<longleftrightarrow> j \<le> k"
  "next_id i = None \<Longrightarrow> \<not> i < k"
proof -
  obtain a b c d where ik: "i = (a, b)" "k = (c, d)" by (cases i; cases k)
  show "i < k \<longleftrightarrow> j \<le> k" if "next_id i = Some j"
  proof (cases "b < U64_MAX")
    case True
    then show ?thesis using that word_succ_le [of b d] by (auto simp: next_id_def ik less_prod_def' less_eq_prod_def)
  next
    case False
    then show ?thesis using that word_succ_le [of a c] word_max_le [OF False, of d]
      by (auto simp: next_id_def ik less_prod_def' less_eq_prod_def split: if_splits)
  qed
  show "\<not> i < k" if "next_id i = None"
    using that word_max_le [of a c] word_max_le [of b d]
    by (auto simp: next_id_def ik less_prod_def' split: if_splits)
qed

lemma dec_loop_fields:
  assumes "\<forall>x\<in>set f. length x \<le> u32_max" and "length p = i"
  shows "dec_loop (p @ concat (map (\<lambda>x. le_bytes 4 (length x) @ x) f)) i (length f) = f"
  using assms
proof (induction f arbitrary: p i)
  case (Cons x f)
  let ?rest = "concat (map (\<lambda>x. le_bytes 4 (length x) @ x) f)" and ?l = "le_bytes 4 (length x)"
  have l: "le_nat ?l = length x" using Cons.prems(1) by (simp add: codec)
  have "dec_loop ((p @ ?l @ x) @ ?rest) (i + 4 + length x) (length f) = f"
    using Cons.prems by (intro Cons.IH) simp_all
  then show ?case using Cons.prems(2) l by (simp add: Let_def)
qed simp

lemma dec_enc_fields:
  "length f \<le> u32_max \<Longrightarrow> \<forall>x\<in>set f. length x \<le> u32_max \<Longrightarrow> dec_fields (enc_fields f) = f"
  using dec_loop_fields [of f "le_bytes 4 (length f)" 4] by (simp add: dec_fields_def enc_fields_def codec)

lemma u64_at_mid: "i = length p \<Longrightarrow> u64_at (p @ le_word w @ q) i = w"
  by (simp add: u64_at_def word_at_mid)

lemma group_dec_enc: "group_dec (group_enc gr) = gr"
  using u64_at_mid [of 0 "[]" "fst (gr_last gr)"] u64_at_mid [of 8 "le_word (fst (gr_last gr))" "snd (gr_last gr)"]
    u64_at_mid [of 16 "le_word (fst (gr_last gr)) @ le_word (snd (gr_last gr))" "gr_read gr" "[]"]
  by (simp add: group_dec_def group_enc_def)

lemma pel_dec_enc: "pel_dec (pel_enc p) = p"
  using u64_at_mid [of 0 "[]" "pl_time p"] u64_at_mid [of 8 "le_word (pl_time p)" "pl_count p"]
  by (simp add: pel_dec_def pel_enc_def)

lemma con_dec_enc: "con_dec (con_enc seen active) = (seen, active)"
  using u64_at_mid [of 0 "[]" seen] u64_at_mid [of 8 "le_word seen" active "[]"]
  by (simp add: con_dec_def con_enc_def)

end
