(* ===== verification/Ks_Strings.thy ===== *)
theory Ks_Strings
  imports Context
begin

text \<open>
  The string commands of \<open>exec_inner\<close> in \<open>crates/server/src/keyspace.rs\<close>, branch by branch:
  argument checks first, then the load of the key, then the write.
\<close>

text \<open>The string a key holds: \<open>None\<close> when absent, an early WRONGTYPE for a collection.\<close>

definition str_or_wrongtype :: "ent \<Rightarrow> ('s, bytes option) cmd" where
  "str_or_wrongtype e =
     (case e of ENone \<Rightarrow> ret None | EStr v \<Rightarrow> ret (Some v) | EColl _ \<Rightarrow> fail (err WRONGTYPE))"

definition bulk_or_nil :: "bytes option \<Rightarrow> resp" where
  "bulk_or_nil v = (case v of None \<Rightarrow> RNil | Some b \<Rightarrow> RBulk b)"

definition int_reply :: "int \<Rightarrow> resp" where
  "int_reply n = RInt (word_of_int n)"

definition ping_cmd :: "bytes list \<Rightarrow> ('s, resp) cmd" where
  "ping_cmd a = ret (case a of m # _ \<Rightarrow> RBulk m | [] \<Rightarrow> RSimple (as_bytes ''PONG''))"

definition echo_cmd :: "string \<Rightarrow> bytes list \<Rightarrow> ('s, resp) cmd" where
  "echo_cmd name a = bnd (need name (length a = 1)) (\<lambda>_. ret (RBulk (a ! 0)))"

definition get_cmd :: "'s store_ops \<Rightarrow> string \<Rightarrow> bytes list \<Rightarrow> ('s, resp) cmd" where
  "get_cmd ops name a =
     bnd (need name (length a = 1)) (\<lambda>_.
     bnd (load ops (a ! 0)) (\<lambda>e.
     bnd (str_or_wrongtype (en_ent e)) (\<lambda>v. ret (bulk_or_nil v))))"

definition mget_cmd :: "'s store_ops \<Rightarrow> string \<Rightarrow> bytes list \<Rightarrow> ('s, resp) cmd" where
  "mget_cmd ops name a =
     bnd (need name (length a \<ge> 1)) (\<lambda>_.
     bnd (each_of (\<lambda>out k. bnd (load ops k) (\<lambda>e.
            ret (out @ [case en_ent e of EStr v \<Rightarrow> RBulk v | _ \<Rightarrow> RNil]))) a []) (\<lambda>out.
     ret (RArray out)))"

text \<open>The options of SET: NX, XX, GET, KEEPTTL, and the deadline.\<close>

record set_opts =
  opt_nx :: bool
  opt_xx :: bool
  opt_get :: bool
  opt_keep :: bool
  opt_ttl :: "nat option"

fun set_options :: "nat \<Rightarrow> bytes list \<Rightarrow> set_opts \<Rightarrow> resp + set_opts" where
  "set_options now [] so = Inr so"
| "set_options now (x # r) so =
     (let opt = upper_name x in
      if opt = ''NX'' then set_options now r (so\<lparr>opt_nx := True\<rparr>)
      else if opt = ''XX'' then set_options now r (so\<lparr>opt_xx := True\<rparr>)
      else if opt = ''GET'' then set_options now r (so\<lparr>opt_get := True\<rparr>)
      else if opt = ''KEEPTTL'' then set_options now r (so\<lparr>opt_keep := True\<rparr>)
      else if opt \<in> set [''EX'', ''PX'', ''EXAT'', ''PXAT''] then
        (case r of
           [] \<Rightarrow> Inl (err ''syntax error'')
         | v # r' \<Rightarrow>
             (case parse_strict_i64 v of
                None \<Rightarrow> Inl (err ''syntax error'')
              | Some n \<Rightarrow>
                  if sint n \<le> 0 then Inl (invalid_expire ''set'')
                  else (case abs_deadline opt n now of
                          None \<Rightarrow> Inl (invalid_expire ''set'')
                        | Some at \<Rightarrow> set_options now r' (so\<lparr>opt_ttl := Some at\<rparr>))))
      else Inl (err ''syntax error''))"

definition set_cmd :: "'s store_ops \<Rightarrow> string \<Rightarrow> bytes list \<Rightarrow> ('s, resp) cmd" where
  "set_cmd ops name a =
     bnd (need name (length a \<ge> 2)) (\<lambda>_.
     bnd now_cmd (\<lambda>now.
     case set_options now (drop 2 a) \<lparr>opt_nx = False, opt_xx = False, opt_get = False, opt_keep = False, opt_ttl = None\<rparr> of
       Inl e \<Rightarrow> fail e
     | Inr so \<Rightarrow>
         if (opt_nx so \<and> opt_xx so) \<or> (opt_keep so \<and> opt_ttl so \<noteq> None) then fail (err ''syntax error'')
         else
           bnd (load ops (a ! 0)) (\<lambda>old.
           bnd (case en_ent old of
                  EStr v \<Rightarrow> ret (Some v)
                | ENone \<Rightarrow> ret None
                | EColl _ \<Rightarrow> if opt_get so then fail (err WRONGTYPE) else ret None) (\<lambda>prev.
           let proceed = \<not> (opt_nx so \<and> entry_exists old) \<and> \<not> (opt_xx so \<and> \<not> entry_exists old)
           in bnd (if proceed then put_str ops (a ! 0) (a ! 1) old (if opt_keep so then en_ttl old else opt_ttl so)
                   else ret ()) (\<lambda>_.
              ret (if opt_get so then bulk_or_nil prev else if proceed then ok_reply else RNil))))))"

definition setnx_cmd :: "'s store_ops \<Rightarrow> string \<Rightarrow> bytes list \<Rightarrow> ('s, resp) cmd" where
  "setnx_cmd ops name a =
     bnd (need name (length a = 2)) (\<lambda>_.
     bnd (load ops (a ! 0)) (\<lambda>old.
     if entry_exists old then ret (int_reply 0)
     else bnd (put_str ops (a ! 0) (a ! 1) old None) (\<lambda>_. ret (int_reply 1))))"

definition setex_cmd :: "'s store_ops \<Rightarrow> string \<Rightarrow> bytes list \<Rightarrow> ('s, resp) cmd" where
  "setex_cmd ops name a =
     bnd (need name (length a = 3)) (\<lambda>_.
     bnd (ok_or (parse_strict_i64 (a ! 1)) not_int) (\<lambda>v.
     if sint v \<le> 0 then fail (invalid_expire (lower_name name))
     else
       bnd now_cmd (\<lambda>now.
       bnd (ok_or (abs_deadline (if name = ''SETEX'' then ''EX'' else ''PX'') v now) (invalid_expire (lower_name name))) (\<lambda>at.
       bnd (load ops (a ! 0)) (\<lambda>old.
       bnd (put_str ops (a ! 0) (a ! 2) old (Some at)) (\<lambda>_. ret ok_reply))))))"

definition getset_cmd :: "'s store_ops \<Rightarrow> string \<Rightarrow> bytes list \<Rightarrow> ('s, resp) cmd" where
  "getset_cmd ops name a =
     bnd (need name (length a = 2)) (\<lambda>_.
     bnd (load ops (a ! 0)) (\<lambda>old.
     bnd (str_or_wrongtype (en_ent old)) (\<lambda>prev.
     bnd (put_str ops (a ! 0) (a ! 1) old None) (\<lambda>_. ret (bulk_or_nil prev)))))"

definition getdel_cmd :: "'s store_ops \<Rightarrow> string \<Rightarrow> bytes list \<Rightarrow> ('s, resp) cmd" where
  "getdel_cmd ops name a =
     bnd (need name (length a = 1)) (\<lambda>_.
     bnd (load ops (a ! 0)) (\<lambda>old.
     case en_ent old of
       ENone \<Rightarrow> ret RNil
     | EColl _ \<Rightarrow> fail (err WRONGTYPE)
     | EStr v \<Rightarrow> bnd (delete_all ops (a ! 0) old) (\<lambda>_. ret (RBulk v))))"

definition getex_cmd :: "'s store_ops \<Rightarrow> string \<Rightarrow> bytes list \<Rightarrow> ('s, resp) cmd" where
  "getex_cmd ops name a =
     bnd (need name (length a \<ge> 1)) (\<lambda>_.
     bnd (load ops (a ! 0)) (\<lambda>old.
     case en_ent old of
       ENone \<Rightarrow> ret RNil
     | EColl _ \<Rightarrow> fail (err WRONGTYPE)
     | EStr v \<Rightarrow>
         bnd (if length a > 1 then
                let opt = upper_name (a ! 1)
                in if opt = ''PERSIST'' \<and> length a = 2 then set_ttl ops (a ! 0) (en_ttl old) None
                   else if length a = 3 \<and> opt \<in> set [''EX'', ''PX'', ''EXAT'', ''PXAT''] then
                     bnd (ok_or (parse_strict_i64 (a ! 2)) not_int) (\<lambda>t.
                     bnd now_cmd (\<lambda>now.
                     bnd (ok_or (if sint t > 0 then abs_deadline opt t now else None) (invalid_expire ''getex'')) (\<lambda>at.
                     set_ttl ops (a ! 0) (en_ttl old) (Some at))))
                   else fail (err ''syntax error'')
              else ret ()) (\<lambda>_. ret (RBulk v))))"

definition append_cmd :: "'s store_ops \<Rightarrow> string \<Rightarrow> bytes list \<Rightarrow> ('s, resp) cmd" where
  "append_cmd ops name a =
     bnd (need name (length a = 2)) (\<lambda>_.
     bnd (load ops (a ! 0)) (\<lambda>old.
     bnd (str_or_wrongtype (en_ent old)) (\<lambda>v.
     let v = (case v of Some v \<Rightarrow> v | None \<Rightarrow> []) @ a ! 1
     in bnd (put_str ops (a ! 0) v old (en_ttl old)) (\<lambda>_. ret (int_reply (int (length v)))))))"

definition strlen_cmd :: "'s store_ops \<Rightarrow> string \<Rightarrow> bytes list \<Rightarrow> ('s, resp) cmd" where
  "strlen_cmd ops name a =
     bnd (need name (length a = 1)) (\<lambda>_.
     bnd (load ops (a ! 0)) (\<lambda>e.
     bnd (str_or_wrongtype (en_ent e)) (\<lambda>v.
     ret (int_reply (case v of Some v \<Rightarrow> int (length v) | None \<Rightarrow> 0)))))"

definition getrange_slice :: "i64 \<Rightarrow> i64 \<Rightarrow> bytes \<Rightarrow> bytes" where
  "getrange_slice s e v =
     (let len = (of_nat (length v) :: i64);
          fix_end = (\<lambda>x. if sint x < 0 then (if sint (len + x) < 0 then 0 else len + x) else x);
          s' = fix_end s;
          e' = (if sint (fix_end e) \<le> sint (len - 1) then fix_end e else len - 1)
      in if sint s < 0 \<and> sint e < 0 \<and> sint s > sint e then []
         else if len = 0 \<or> sint s' > sint e' then []
         else take (nat (sint e' - sint s' + 1)) (drop (nat (sint s')) v))"

definition getrange_cmd :: "'s store_ops \<Rightarrow> string \<Rightarrow> bytes list \<Rightarrow> ('s, resp) cmd" where
  "getrange_cmd ops name a =
     bnd (need name (length a = 3)) (\<lambda>_.
     bnd (ok_or (parse_strict_i64 (a ! 1)) not_int) (\<lambda>s.
     bnd (ok_or (parse_strict_i64 (a ! 2)) not_int) (\<lambda>e.
     bnd (load ops (a ! 0)) (\<lambda>ent.
     bnd (str_or_wrongtype (en_ent ent)) (\<lambda>v.
     ret (RBulk (getrange_slice s e (case v of Some v \<Rightarrow> v | None \<Rightarrow> []))))))))"

text \<open>\<open>resize\<close> with zeros up to the end of the patch, then \<open>copy_from_slice\<close>.\<close>

definition patch_at :: "nat \<Rightarrow> bytes \<Rightarrow> bytes \<Rightarrow> bytes" where
  "patch_at off p v =
     (let v = v @ replicate (off + length p - length v) 0
      in take off v @ p @ drop (off + length p) v)"

definition setrange_cmd :: "'s store_ops \<Rightarrow> string \<Rightarrow> bytes list \<Rightarrow> ('s, resp) cmd" where
  "setrange_cmd ops name a =
     bnd (need name (length a = 3)) (\<lambda>_.
     bnd (ok_or (case parse_strict_i64 (a ! 1) of
                   Some i \<Rightarrow> if 0 \<le> sint i \<and> sint i < 512 * 1024 * 1024 then Some (nat (sint i)) else None
                 | None \<Rightarrow> None) (err ''offset is out of range'')) (\<lambda>off.
     bnd (load ops (a ! 0)) (\<lambda>old.
     bnd (str_or_wrongtype (en_ent old)) (\<lambda>v.
     let v = (case v of Some v \<Rightarrow> v | None \<Rightarrow> [])
     in if a ! 2 = [] then ret (int_reply (int (length v)))
        else
          let v = patch_at off (a ! 2) v
          in bnd (put_str ops (a ! 0) v old (en_ttl old)) (\<lambda>_. ret (int_reply (int (length v))))))))"

definition incr_by :: "string \<Rightarrow> bytes list \<Rightarrow> ('s, i64) cmd" where
  "incr_by name a =
     (if name = ''INCR'' then bnd (need name (length a = 1)) (\<lambda>_. ret 1)
      else if name = ''DECR'' then bnd (need name (length a = 1)) (\<lambda>_. ret (- 1))
      else if name = ''INCRBY'' then
        bnd (need name (length a = 2)) (\<lambda>_. ok_or (parse_strict_i64 (a ! 1)) not_int)
      else
        bnd (need name (length a = 2)) (\<lambda>_.
        ok_or (case parse_strict_i64 (a ! 1) of Some v \<Rightarrow> checked_neg_i64 v | None \<Rightarrow> None) not_int))"

definition incr_cmd :: "'s store_ops \<Rightarrow> string \<Rightarrow> bytes list \<Rightarrow> ('s, resp) cmd" where
  "incr_cmd ops name a =
     bnd (incr_by name a) (\<lambda>by.
     bnd (load ops (a ! 0)) (\<lambda>old.
     bnd (case en_ent old of
            ENone \<Rightarrow> ret 0
          | EStr v \<Rightarrow> ok_or (parse_strict_i64 v) not_int
          | EColl _ \<Rightarrow> fail (err WRONGTYPE)) (\<lambda>cur.
     bnd (ok_or (checked_add_i64 cur by) (err ''increment or decrement would overflow'')) (\<lambda>n.
     bnd (put_key ops (kv (a ! 0)) (VInt n)) (\<lambda>_. ret (RInt n))))))"

definition incrbyfloat_cmd :: "'s store_ops \<Rightarrow> string \<Rightarrow> bytes list \<Rightarrow> ('s, resp) cmd" where
  "incrbyfloat_cmd ops name a =
     bnd (need name (length a = 2)) (\<lambda>_.
     bnd (ok_or (parse_f64 (a ! 1)) not_float) (\<lambda>by.
     bnd (load ops (a ! 0)) (\<lambda>old.
     bnd (case en_ent old of
            ENone \<Rightarrow> ret 0
          | EStr v \<Rightarrow> ok_or (parse_f64 v) not_float
          | EColl _ \<Rightarrow> fail (err WRONGTYPE)) (\<lambda>cur.
     let n = f64_add cur by
     in if \<not> f64_finite n then fail (err ''increment would produce NaN or Infinity'')
        else bnd (put_str ops (a ! 0) (fmt_f64 n) old (en_ttl old)) (\<lambda>_. ret (RBulk (fmt_f64 n)))))))"

text \<open>\<open>a.chunks(2)\<close> of an even number of arguments.\<close>

fun pairs_of :: "'a list \<Rightarrow> ('a \<times> 'a) list" where
  "pairs_of (x # y # r) = (x, y) # pairs_of r"
| "pairs_of _ = []"

definition mset_cmd :: "'s store_ops \<Rightarrow> string \<Rightarrow> bytes list \<Rightarrow> ('s, resp) cmd" where
  "mset_cmd ops name a =
     bnd (need name (length a \<ge> 2 \<and> even (length a))) (\<lambda>_.
     bnd (each_of (\<lambda>olds (k, _). bnd (load ops k) (\<lambda>e. ret (olds @ [e]))) (pairs_of a) []) (\<lambda>olds.
     if name = ''MSETNX'' \<and> list_ex entry_exists olds then ret (int_reply 0)
     else
       bnd (each_of (\<lambda>_ ((k, v), old). put_str ops k v old None) (zip (pairs_of a) olds) ()) (\<lambda>_.
       ret (if name = ''MSET'' then ok_reply else int_reply 1))))"

definition exec_string :: "'s store_ops \<Rightarrow> string \<Rightarrow> bytes list \<Rightarrow> ('s, resp) cmd option" where
  "exec_string ops name a =
     (if name = ''PING'' then Some (ping_cmd a)
      else if name = ''ECHO'' then Some (echo_cmd name a)
      else if name = ''GET'' then Some (get_cmd ops name a)
      else if name = ''MGET'' then Some (mget_cmd ops name a)
      else if name = ''SET'' then Some (set_cmd ops name a)
      else if name = ''SETNX'' then Some (setnx_cmd ops name a)
      else if name = ''SETEX'' \<or> name = ''PSETEX'' then Some (setex_cmd ops name a)
      else if name = ''GETSET'' then Some (getset_cmd ops name a)
      else if name = ''GETDEL'' then Some (getdel_cmd ops name a)
      else if name = ''GETEX'' then Some (getex_cmd ops name a)
      else if name = ''APPEND'' then Some (append_cmd ops name a)
      else if name = ''STRLEN'' then Some (strlen_cmd ops name a)
      else if name = ''GETRANGE'' then Some (getrange_cmd ops name a)
      else if name = ''SETRANGE'' then Some (setrange_cmd ops name a)
      else if name \<in> set [''INCR'', ''DECR'', ''INCRBY'', ''DECRBY''] then Some (incr_cmd ops name a)
      else if name = ''INCRBYFLOAT'' then Some (incrbyfloat_cmd ops name a)
      else if name = ''MSET'' \<or> name = ''MSETNX'' then Some (mset_cmd ops name a)
      else None)"

end
