(* ===== verification/Ks_Hash.thy ===== *)
theory Ks_Hash
  imports Ks_Strings
begin

text \<open>The hash commands of \<open>exec_inner\<close> in \<open>crates/server/src/keyspace.rs\<close>.\<close>

definition hset_pair :: "'s store_ops \<Rightarrow> key \<Rightarrow> meta \<times> int \<Rightarrow> bytes \<times> bytes \<Rightarrow> ('s, meta \<times> int) cmd" where
  "hset_pair ops key = (\<lambda>(m, added) (f, v).
     bnd (get_key ops (ekey key SUB_HASH f)) (\<lambda>old.
     bnd (put_key ops (ekey key SUB_HASH f) (VBytes v)) (\<lambda>_.
     ret (if old = None then (m\<lparr>mt_len := mt_len m + 1\<rparr>, added + 1) else (m, added)))))"

definition hset_cmd :: "'s store_ops \<Rightarrow> string \<Rightarrow> bytes list \<Rightarrow> ('s, resp) cmd" where
  "hset_cmd ops name a =
     bnd (need name (length a \<ge> 3 \<and> odd (length a))) (\<lambda>_.
     bnd (coll_or_new ops (a ! 0) T_HASH) (\<lambda>(m, ttl).
     bnd (each_of (hset_pair ops (a ! 0)) (pairs_of (tl a)) (m, 0)) (\<lambda>(m, added).
     bnd (put_meta ops (a ! 0) m ttl) (\<lambda>_.
     ret (if name = ''HSET'' then int_reply added else ok_reply)))))"

definition hsetnx_cmd :: "'s store_ops \<Rightarrow> string \<Rightarrow> bytes list \<Rightarrow> ('s, resp) cmd" where
  "hsetnx_cmd ops name a =
     bnd (need name (length a = 3)) (\<lambda>_.
     bnd (coll_or_new ops (a ! 0) T_HASH) (\<lambda>(m, ttl).
     bnd (get_key ops (ekey (a ! 0) SUB_HASH (a ! 1))) (\<lambda>old.
     if old \<noteq> None then ret (int_reply 0)
     else
       bnd (put_key ops (ekey (a ! 0) SUB_HASH (a ! 1)) (VBytes (a ! 2))) (\<lambda>_.
       bnd (put_meta ops (a ! 0) (m\<lparr>mt_len := mt_len m + 1\<rparr>) ttl) (\<lambda>_. ret (int_reply 1))))))"

definition val_or_nil :: "val option \<Rightarrow> resp" where
  "val_or_nil v = (case v of None \<Rightarrow> RNil | Some v \<Rightarrow> RBulk (val_bytes v))"

definition hget_cmd :: "'s store_ops \<Rightarrow> string \<Rightarrow> bytes list \<Rightarrow> ('s, resp) cmd" where
  "hget_cmd ops name a =
     bnd (need name (length a = 2)) (\<lambda>_.
     bnd (coll ops (a ! 0) T_HASH) (\<lambda>c.
     if c = None then ret RNil
     else bnd (get_key ops (ekey (a ! 0) SUB_HASH (a ! 1))) (\<lambda>v. ret (val_or_nil v))))"

definition hmget_cmd :: "'s store_ops \<Rightarrow> string \<Rightarrow> bytes list \<Rightarrow> ('s, resp) cmd" where
  "hmget_cmd ops name a =
     bnd (need name (length a \<ge> 2)) (\<lambda>_.
     bnd (coll ops (a ! 0) T_HASH) (\<lambda>c.
     bnd (each_of (\<lambda>out f.
            if c = None then ret (out @ [RNil])
            else bnd (get_key ops (ekey (a ! 0) SUB_HASH f)) (\<lambda>v. ret (out @ [val_or_nil v]))) (tl a) []) (\<lambda>out.
     ret (RArray out))))"

definition hdel_field :: "'s store_ops \<Rightarrow> key \<Rightarrow> meta \<times> int \<Rightarrow> bytes \<Rightarrow> ('s, meta \<times> int) cmd" where
  "hdel_field ops key = (\<lambda>(m, c) f.
     bnd (get_key ops (ekey key SUB_HASH f)) (\<lambda>old.
     if old \<noteq> None then
       bnd (delete_key ops (ekey key SUB_HASH f)) (\<lambda>_. ret (m\<lparr>mt_len := mt_len m - 1\<rparr>, c + 1))
     else ret (m, c)))"

definition hdel_cmd :: "'s store_ops \<Rightarrow> string \<Rightarrow> bytes list \<Rightarrow> ('s, resp) cmd" where
  "hdel_cmd ops name a =
     bnd (need name (length a \<ge> 2)) (\<lambda>_.
     bnd (coll ops (a ! 0) T_HASH) (\<lambda>c.
     case c of
       None \<Rightarrow> ret (int_reply 0)
     | Some (m, ttl) \<Rightarrow>
         bnd (each_of (hdel_field ops (a ! 0)) (tl a) (m, 0)) (\<lambda>(m, n).
         bnd (if n > 0 then put_meta ops (a ! 0) m ttl else ret ()) (\<lambda>_. ret (int_reply n)))))"

definition hexists_cmd :: "'s store_ops \<Rightarrow> string \<Rightarrow> bytes list \<Rightarrow> ('s, resp) cmd" where
  "hexists_cmd ops name a =
     bnd (need name (length a = 2)) (\<lambda>_.
     bnd (coll ops (a ! 0) T_HASH) (\<lambda>c.
     if c = None then ret (int_reply 0)
     else bnd (get_key ops (ekey (a ! 0) SUB_HASH (a ! 1))) (\<lambda>v. ret (int_reply (if v \<noteq> None then 1 else 0)))))"

definition coll_len_cmd :: "'s store_ops \<Rightarrow> byte \<Rightarrow> string \<Rightarrow> bytes list \<Rightarrow> ('s, resp) cmd" where
  "coll_len_cmd ops ty name a =
     bnd (need name (length a = 1)) (\<lambda>_.
     bnd (coll ops (a ! 0) ty) (\<lambda>c.
     ret (case c of None \<Rightarrow> int_reply 0 | Some (m, _) \<Rightarrow> RInt (mt_len m))))"

definition hlen_cmd :: "'s store_ops \<Rightarrow> string \<Rightarrow> bytes list \<Rightarrow> ('s, resp) cmd" where
  "hlen_cmd ops = coll_len_cmd ops T_HASH"

definition hstrlen_cmd :: "'s store_ops \<Rightarrow> string \<Rightarrow> bytes list \<Rightarrow> ('s, resp) cmd" where
  "hstrlen_cmd ops name a =
     bnd (need name (length a = 2)) (\<lambda>_.
     bnd (coll ops (a ! 0) T_HASH) (\<lambda>c.
     if c = None then ret (int_reply 0)
     else
       bnd (get_key ops (ekey (a ! 0) SUB_HASH (a ! 1))) (\<lambda>v.
       ret (int_reply (case v of None \<Rightarrow> 0 | Some v \<Rightarrow> int (length (val_bytes v)))))))"

definition hgetall_cmd :: "'s store_ops \<Rightarrow> string \<Rightarrow> bytes list \<Rightarrow> ('s, resp) cmd" where
  "hgetall_cmd ops name a =
     bnd (need name (length a = 1)) (\<lambda>_.
     bnd (coll ops (a ! 0) T_HASH) (\<lambda>c.
     if c = None then ret (RArray [])
     else
       bnd (elements ops (a ! 0) SUB_HASH) (\<lambda>es.
       ret (RArray (concat (map (\<lambda>(f, v).
              (if name \<noteq> ''HVALS'' then [RBulk f] else [])
              @ (if name \<noteq> ''HKEYS'' then [RBulk (val_bytes v)] else [])) es))))))"

definition hincrby_cmd :: "'s store_ops \<Rightarrow> string \<Rightarrow> bytes list \<Rightarrow> ('s, resp) cmd" where
  "hincrby_cmd ops name a =
     bnd (need name (length a = 3)) (\<lambda>_.
     bnd (coll_or_new ops (a ! 0) T_HASH) (\<lambda>(m, ttl).
     let k = ekey (a ! 0) SUB_HASH (a ! 1)
     in bnd (get_key ops k) (\<lambda>cur.
        let m = (if cur = None then m\<lparr>mt_len := mt_len m + 1\<rparr> else m); cur_b = map_option val_bytes cur
        in bnd (if name = ''HINCRBY'' then
                  bnd (ok_or (parse_strict_i64 (a ! 2)) not_int) (\<lambda>by.
                  bnd (case cur_b of None \<Rightarrow> ret 0
                       | Some b \<Rightarrow> ok_or (parse_strict_i64 b) (err ''hash value is not an integer'')) (\<lambda>c.
                  bnd (ok_or (checked_add_i64 c by) (err ''increment or decrement would overflow'')) (\<lambda>nv.
                  bnd (put_key ops k (VBytes (show_i64 nv))) (\<lambda>_. ret (RInt nv)))))
                else
                  bnd (ok_or (parse_f64 (a ! 2)) not_float) (\<lambda>by.
                  bnd (case cur_b of None \<Rightarrow> ret 0
                       | Some b \<Rightarrow> ok_or (parse_f64 b) (err ''hash value is not a float'')) (\<lambda>c.
                  let nv = f64_add c by
                  in if \<not> f64_finite nv then fail (err ''increment would produce NaN or Infinity'')
                     else bnd (put_key ops k (VBytes (fmt_f64 nv))) (\<lambda>_. ret (RBulk (fmt_f64 nv)))))) (\<lambda>out.
           bnd (put_meta ops (a ! 0) m ttl) (\<lambda>_. ret out)))))"

definition exec_hash :: "'s store_ops \<Rightarrow> string \<Rightarrow> bytes list \<Rightarrow> ('s, resp) cmd option" where
  "exec_hash ops name a =
     (if name = ''HSET'' \<or> name = ''HMSET'' then Some (hset_cmd ops name a)
      else if name = ''HSETNX'' then Some (hsetnx_cmd ops name a)
      else if name = ''HGET'' then Some (hget_cmd ops name a)
      else if name = ''HMGET'' then Some (hmget_cmd ops name a)
      else if name = ''HDEL'' then Some (hdel_cmd ops name a)
      else if name = ''HEXISTS'' then Some (hexists_cmd ops name a)
      else if name = ''HLEN'' then Some (hlen_cmd ops name a)
      else if name = ''HSTRLEN'' then Some (hstrlen_cmd ops name a)
      else if name \<in> set [''HGETALL'', ''HKEYS'', ''HVALS''] then Some (hgetall_cmd ops name a)
      else if name = ''HINCRBY'' \<or> name = ''HINCRBYFLOAT'' then Some (hincrby_cmd ops name a)
      else None)"

end
