(* ===== verification/Ks_Set.thy ===== *)
theory Ks_Set
  imports Ks_Hash
begin

text \<open>
  The set commands of \<open>exec_inner\<close> in \<open>crates/server/src/keyspace.rs\<close>.  A member is stored twice:
  under its own name with its position, and under its position; positions are dense, the last
  member moving into the hole a removal leaves.
\<close>

definition set_key :: "key \<Rightarrow> bytes \<Rightarrow> key" where "set_key key v = ekey key SUB_SET v"

definition setpos_key :: "key \<Rightarrow> i64 \<Rightarrow> key" where "setpos_key key i = ekey key SUB_SETPOS (seq_bytes i)"

definition MAX_RANDOM_PICKS :: int where "MAX_RANDOM_PICKS = 2 ^ 24"

definition set_add :: "'s store_ops \<Rightarrow> key \<Rightarrow> meta \<Rightarrow> bytes \<Rightarrow> ('s, meta \<times> bool) cmd" where
  "set_add ops key m v =
     bnd (get_key ops (set_key key v)) (\<lambda>old.
     if old \<noteq> None then ret (m, False)
     else
       bnd (put_key ops (set_key key v) (VInt (mt_len m))) (\<lambda>_.
       bnd (put_key ops (setpos_key key (mt_len m)) (VBytes v)) (\<lambda>_.
       ret (m\<lparr>mt_len := mt_len m + 1\<rparr>, True))))"

definition fill_hole :: "'s store_ops \<Rightarrow> key \<Rightarrow> i64 \<Rightarrow> i64 \<Rightarrow> ('s, unit) cmd" where
  "fill_hole ops key pos end_pos =
     bnd (get_key ops (setpos_key key end_pos)) (\<lambda>lv.
     case lv of
       Some (VBytes lm) \<Rightarrow>
         bnd (put_key ops (setpos_key key pos) (VBytes lm)) (\<lambda>_. put_key ops (set_key key lm) (VInt pos))
     | _ \<Rightarrow> ret ())"

definition set_rem :: "'s store_ops \<Rightarrow> key \<Rightarrow> meta \<Rightarrow> bytes \<Rightarrow> ('s, meta \<times> bool) cmd" where
  "set_rem ops key m v =
     bnd (get_key ops (set_key key v)) (\<lambda>old.
     case old of
       Some (VInt pos) \<Rightarrow>
         let last = mt_len m - 1
         in bnd (if pos \<noteq> last then fill_hole ops key pos last else ret ()) (\<lambda>_.
            bnd (delete_key ops (setpos_key key last)) (\<lambda>_.
            bnd (delete_key ops (set_key key v)) (\<lambda>_.
            ret (m\<lparr>mt_len := mt_len m - 1\<rparr>, True))))
     | _ \<Rightarrow> ret (m, False))"

definition set_at :: "'s store_ops \<Rightarrow> key \<Rightarrow> 64 word \<Rightarrow> ('s, bytes) cmd" where
  "set_at ops key pos =
     bnd (get_key ops (setpos_key key pos)) (\<lambda>v. ret (case v of Some (VBytes b) \<Rightarrow> b | _ \<Rightarrow> []))"

definition set_members :: "'s store_ops \<Rightarrow> key \<Rightarrow> ('s, bytes list) cmd" where
  "set_members ops key =
     bnd (coll ops key T_SET) (\<lambda>c.
     if c = None then ret [] else bnd (elements ops key SUB_SET) (\<lambda>es. ret (map fst es)))"

text \<open>A loop over members that counts those the step changed.\<close>

definition count_changed :: "(meta \<Rightarrow> bytes \<Rightarrow> ('s, meta \<times> bool) cmd) \<Rightarrow> meta \<times> int \<Rightarrow> bytes \<Rightarrow> ('s, meta \<times> int) cmd" where
  "count_changed step = (\<lambda>(m, c) v. bnd (step m v) (\<lambda>(m, ch). ret (m, if ch then c + 1 else c)))"

definition sadd_cmd :: "'s store_ops \<Rightarrow> string \<Rightarrow> bytes list \<Rightarrow> ('s, resp) cmd" where
  "sadd_cmd ops name a =
     bnd (need name (length a \<ge> 2)) (\<lambda>_.
     bnd (coll_or_new ops (a ! 0) T_SET) (\<lambda>(m, ttl).
     bnd (each_of (count_changed (set_add ops (a ! 0))) (tl a) (m, 0)) (\<lambda>(m, added).
     bnd (if added > 0 then put_meta ops (a ! 0) m ttl else ret ()) (\<lambda>_. ret (int_reply added)))))"

definition srem_cmd :: "'s store_ops \<Rightarrow> string \<Rightarrow> bytes list \<Rightarrow> ('s, resp) cmd" where
  "srem_cmd ops name a =
     bnd (need name (length a \<ge> 2)) (\<lambda>_.
     bnd (coll ops (a ! 0) T_SET) (\<lambda>c.
     case c of
       None \<Rightarrow> ret (int_reply 0)
     | Some (m, ttl) \<Rightarrow>
         bnd (each_of (count_changed (set_rem ops (a ! 0))) (tl a) (m, 0)) (\<lambda>(m, n).
         bnd (if n > 0 then put_meta ops (a ! 0) m ttl else ret ()) (\<lambda>_. ret (int_reply n)))))"

definition is_member :: "'s store_ops \<Rightarrow> key \<Rightarrow> bool \<Rightarrow> bytes \<Rightarrow> ('s, resp) cmd" where
  "is_member ops key present v =
     (if present then bnd (get_key ops (set_key key v)) (\<lambda>x. ret (int_reply (if x \<noteq> None then 1 else 0)))
      else ret (int_reply 0))"

definition sismember_cmd :: "'s store_ops \<Rightarrow> string \<Rightarrow> bytes list \<Rightarrow> ('s, resp) cmd" where
  "sismember_cmd ops name a =
     bnd (need name (length a = 2)) (\<lambda>_.
     bnd (coll ops (a ! 0) T_SET) (\<lambda>c. is_member ops (a ! 0) (c \<noteq> None) (a ! 1)))"

definition smismember_cmd :: "'s store_ops \<Rightarrow> string \<Rightarrow> bytes list \<Rightarrow> ('s, resp) cmd" where
  "smismember_cmd ops name a =
     bnd (need name (length a \<ge> 2)) (\<lambda>_.
     bnd (coll ops (a ! 0) T_SET) (\<lambda>c.
     bnd (each_of (\<lambda>out v. bnd (is_member ops (a ! 0) (c \<noteq> None) v) (\<lambda>r. ret (out @ [r]))) (tl a) []) (\<lambda>out.
     ret (RArray out))))"

definition scard_cmd :: "'s store_ops \<Rightarrow> string \<Rightarrow> bytes list \<Rightarrow> ('s, resp) cmd" where
  "scard_cmd ops = coll_len_cmd ops T_SET"

definition smembers_cmd :: "'s store_ops \<Rightarrow> string \<Rightarrow> bytes list \<Rightarrow> ('s, resp) cmd" where
  "smembers_cmd ops name a =
     bnd (need name (length a = 1)) (\<lambda>_.
     bnd (set_members ops (a ! 0)) (\<lambda>ms. ret (RArray (map RBulk ms))))"

section \<open>Random picks\<close>

text \<open>\<open>rand() % m.len\<close>, and the member there.\<close>

definition rand_member :: "'s store_ops \<Rightarrow> key \<Rightarrow> 64 word \<Rightarrow> ('s, bytes) cmd" where
  "rand_member ops key len = bnd rand_cmd (\<lambda>x. set_at ops key (x mod len))"

fun repeat_cmd :: "nat \<Rightarrow> ('b \<Rightarrow> ('s, 'b) cmd) \<Rightarrow> 'b \<Rightarrow> ('s, 'b) cmd" where
  "repeat_cmd 0 f acc = ret acc"
| "repeat_cmd (Suc n) f acc = bnd (f acc) (repeat_cmd n f)"

definition swap_remove :: "nat \<Rightarrow> 'a list \<Rightarrow> 'a list" where
  "swap_remove i xs = butlast (xs[i := last xs])"

text \<open>The loop that thins the whole set, one random removal per turn.\<close>

definition thin_step :: "bytes list \<Rightarrow> ('s, bytes list) cmd" where
  "thin_step all = bnd rand_cmd (\<lambda>x. ret (swap_remove (unat x mod length all) all))"

text \<open>
  The loop that draws positions until \<open>want\<close> different ones were seen.  Each turn uses up one
  random value, so as many turns as values are left, and one, are enough.
\<close>

fun sample_loop :: "'s store_ops \<Rightarrow> key \<Rightarrow> 64 word \<Rightarrow> nat \<Rightarrow> nat \<Rightarrow> 64 word list \<times> bytes list \<Rightarrow> ('s, bytes list) cmd" where
  "sample_loop ops key len want 0 (seen, picked) = ret picked"
| "sample_loop ops key len want (Suc turns) (seen, picked) =
     (if length picked < want then
        bnd rand_cmd (\<lambda>x.
        let p = x mod len
        in if p \<in> set seen then sample_loop ops key len want turns (seen, picked)
           else bnd (set_at ops key p) (\<lambda>v. sample_loop ops key len want turns (p # seen, picked @ [v])))
      else ret picked)"

definition srandmember_picks :: "'s store_ops \<Rightarrow> key \<Rightarrow> meta \<Rightarrow> i64 \<Rightarrow> ('s, bytes list) cmd" where
  "srandmember_picks ops key m want =
     (if sint want < 0 then
        repeat_cmd (nat (- sint want)) (\<lambda>picked. bnd (rand_member ops key (mt_len m)) (\<lambda>v. ret (picked @ [v]))) []
      else
        let want = min want (mt_len m)
        in if want * 2 \<ge> mt_len m then
             bnd (set_members ops key) (\<lambda>all. repeat_cmd (length all - unat want) thin_step all)
           else
             bnd supply_cmd (\<lambda>n. sample_loop ops key (mt_len m) (unat want) (n + 1) ([], [])))"

definition spop_step :: "'s store_ops \<Rightarrow> key \<Rightarrow> meta \<times> bytes list \<Rightarrow> ('s, meta \<times> bytes list) cmd" where
  "spop_step ops key = (\<lambda>(m, picked).
     bnd (rand_member ops key (mt_len m)) (\<lambda>v.
     bnd (set_rem ops key m v) (\<lambda>(m, _). ret (m, picked @ [v]))))"

definition spop_cmd :: "'s store_ops \<Rightarrow> string \<Rightarrow> bytes list \<Rightarrow> ('s, resp) cmd" where
  "spop_cmd ops name a =
     bnd (need name (length a = 1 \<or> length a = 2)) (\<lambda>_.
     bnd (if length a > 1 then bnd (ok_or (parse_strict_i64 (a ! 1)) not_int) (\<lambda>c. ret (Some c)) else ret None) (\<lambda>count.
     if name = ''SPOP'' \<and> (case count of Some c \<Rightarrow> sint c < 0 | None \<Rightarrow> False)
       then fail (err ''value is out of range, must be positive'')
     else if (case count of Some c \<Rightarrow> sint c < - MAX_RANDOM_PICKS | None \<Rightarrow> False)
       then fail (err ''value is out of range, value must between -9223372036854775807 and 9223372036854775807'')
     else
       bnd (coll ops (a ! 0) T_SET) (\<lambda>c.
       case c of
         None \<Rightarrow> ret (if count \<noteq> None then RArray [] else RNil)
       | Some (m, ttl) \<Rightarrow>
           let want = (case count of Some c \<Rightarrow> c | None \<Rightarrow> 1)
           in bnd (if name = ''SRANDMEMBER'' then srandmember_picks ops (a ! 0) m want
                   else
                     bnd (repeat_cmd (unat (min want (mt_len m))) (spop_step ops (a ! 0)) (m, [])) (\<lambda>(m, picked).
                     bnd (if picked \<noteq> [] then put_meta ops (a ! 0) m ttl else ret ()) (\<lambda>_. ret picked))) (\<lambda>picked.
              ret (case count of
                     None \<Rightarrow> if picked = [] then RNil else RBulk (last picked)
                   | Some _ \<Rightarrow> RArray (map RBulk picked))))))"

section \<open>Set algebra\<close>

text \<open>A \<open>BTreeSet\<close> of byte strings is its members in order.\<close>

definition btset :: "bytes list \<Rightarrow> bytes list" where "btset xs = sort (remdups xs)"

definition combine :: "string \<Rightarrow> bytes list \<Rightarrow> bytes list \<Rightarrow> bytes list" where
  "combine name res s =
     (if take 5 name = ''SINTE'' then filter (\<lambda>x. x \<in> set s) res
      else if take 5 name = ''SUNIO'' then btset (res @ s)
      else filter (\<lambda>x. x \<notin> set s) res)"

definition set_result :: "string \<Rightarrow> bytes list list \<Rightarrow> bytes list" where
  "set_result name sets = (case sets of [] \<Rightarrow> [] | s # r \<Rightarrow> foldl (combine name) s r)"

definition setop_cmd :: "'s store_ops \<Rightarrow> string \<Rightarrow> bytes list \<Rightarrow> ('s, resp) cmd" where
  "setop_cmd ops name a =
     (let store = (drop (length name - 5) name = ''STORE'')
      in bnd (need name (length a \<ge> (if store then 2 else 1))) (\<lambda>_.
         bnd (each_of (\<lambda>sets k. bnd (set_members ops k) (\<lambda>ms. ret (sets @ [btset ms]))) (if store then tl a else a) []) (\<lambda>sets.
         let res = set_result name sets
         in if \<not> store then ret (RArray (map RBulk res))
            else
              bnd (load ops (a ! 0)) (\<lambda>old.
              bnd (delete_all ops (a ! 0) old) (\<lambda>_.
              bnd (each_of (\<lambda>m v. bnd (set_add ops (a ! 0) m v) (\<lambda>(m, _). ret m)) res (meta_new T_SET)) (\<lambda>m.
              bnd (put_meta ops (a ! 0) m None) (\<lambda>_.
              ret (int_reply (int (length res))))))))))"

definition smove_cmd :: "'s store_ops \<Rightarrow> string \<Rightarrow> bytes list \<Rightarrow> ('s, resp) cmd" where
  "smove_cmd ops name a =
     bnd (need name (length a = 3)) (\<lambda>_.
     bnd (coll ops (a ! 0) T_SET) (\<lambda>c.
     case c of
       None \<Rightarrow> ret (int_reply 0)
     | Some (sm, sttl) \<Rightarrow>
         bnd (coll_or_new ops (a ! 1) T_SET) (\<lambda>(dm, dttl).
         bnd (get_key ops (set_key (a ! 0) (a ! 2))) (\<lambda>x.
         if x = None then ret (int_reply 0)
         else if a ! 0 = a ! 1 then ret (int_reply 1)
         else
           bnd (set_rem ops (a ! 0) sm (a ! 2)) (\<lambda>(sm, _).
           bnd (put_meta ops (a ! 0) sm sttl) (\<lambda>_.
           bnd (set_add ops (a ! 1) dm (a ! 2)) (\<lambda>(dm, added).
           bnd (if added then put_meta ops (a ! 1) dm dttl else ret ()) (\<lambda>_.
           ret (int_reply 1)))))))))"

definition exec_set :: "'s store_ops \<Rightarrow> string \<Rightarrow> bytes list \<Rightarrow> ('s, resp) cmd option" where
  "exec_set ops name a =
     (if name = ''SADD'' then Some (sadd_cmd ops name a)
      else if name = ''SREM'' then Some (srem_cmd ops name a)
      else if name = ''SISMEMBER'' then Some (sismember_cmd ops name a)
      else if name = ''SMISMEMBER'' then Some (smismember_cmd ops name a)
      else if name = ''SCARD'' then Some (scard_cmd ops name a)
      else if name = ''SMEMBERS'' then Some (smembers_cmd ops name a)
      else if name = ''SPOP'' \<or> name = ''SRANDMEMBER'' then Some (spop_cmd ops name a)
      else if name \<in> set [''SINTER'', ''SUNION'', ''SDIFF'', ''SINTERSTORE'', ''SUNIONSTORE'', ''SDIFFSTORE'']
        then Some (setop_cmd ops name a)
      else if name = ''SMOVE'' then Some (smove_cmd ops name a)
      else None)"

end
