(* ===== verification/Ks_Zset.thy ===== *)
theory Ks_Zset
  imports Ks_Set
begin

text \<open>
  The sorted-set commands of \<open>exec_inner\<close> in \<open>crates/server/src/keyspace.rs\<close>.  A member is stored
  under its name with its score, and in an index ordered by score and then by name.
\<close>

section \<open>Comparing scores\<close>

text \<open>Infinities have the largest magnitudes; comparisons with a NaN are false.\<close>

definition f64_le :: "f64 \<Rightarrow> f64 \<Rightarrow> bool" where
  "f64_le a b \<longleftrightarrow> \<not> f64_nan a \<and> \<not> f64_nan b \<and> f64_signed a \<le> f64_signed b"

definition f64_lt :: "f64 \<Rightarrow> f64 \<Rightarrow> bool" where
  "f64_lt a b \<longleftrightarrow> \<not> f64_nan a \<and> \<not> f64_nan b \<and> f64_signed a < f64_signed b"

definition f64_eq :: "f64 \<Rightarrow> f64 \<Rightarrow> bool" where
  "f64_eq a b \<longleftrightarrow> f64_le a b \<and> f64_le b a"

section \<open>The two indexes\<close>

definition zmem_key :: "key \<Rightarrow> bytes \<Rightarrow> key" where "zmem_key key mbr = ekey key SUB_ZMEM mbr"

definition zscore_key :: "key \<Rightarrow> f64 \<Rightarrow> bytes \<Rightarrow> key" where
  "zscore_key key s mbr = ekey key SUB_ZSCORE (score_bytes s @ mbr)"

definition float_of :: "val option \<Rightarrow> f64 option" where
  "float_of v = (case v of Some (VFloat f) \<Rightarrow> Some f | _ \<Rightarrow> None)"

definition zscore :: "'s store_ops \<Rightarrow> key \<Rightarrow> bytes \<Rightarrow> ('s, f64 option) cmd" where
  "zscore ops key mbr = bnd (get_key ops (zmem_key key mbr)) (\<lambda>v. ret (float_of v))"

definition zremove :: "'s store_ops \<Rightarrow> key \<Rightarrow> bytes \<Rightarrow> ('s, bool) cmd" where
  "zremove ops key mbr =
     bnd (zscore ops key mbr) (\<lambda>s.
     case s of
       None \<Rightarrow> ret False
     | Some s \<Rightarrow>
         bnd (delete_key ops (zmem_key key mbr)) (\<lambda>_.
         bnd (delete_key ops (zscore_key key s mbr)) (\<lambda>_. ret True)))"

section \<open>ZADD\<close>

record zadd_opts =
  zo_nx :: bool
  zo_xx :: bool
  zo_gt :: bool
  zo_lt :: bool
  zo_ch :: bool
  zo_incr :: bool

text \<open>The leading options; the first argument that is none starts the pairs.\<close>

fun zadd_options :: "bytes list \<Rightarrow> zadd_opts \<Rightarrow> zadd_opts \<times> bytes list" where
  "zadd_options [] zo = (zo, [])"
| "zadd_options (x # r) zo =
     (let o' = upper_name x in
      if o' = ''NX'' then zadd_options r (zo\<lparr>zo_nx := True\<rparr>)
      else if o' = ''XX'' then zadd_options r (zo\<lparr>zo_xx := True\<rparr>)
      else if o' = ''GT'' then zadd_options r (zo\<lparr>zo_gt := True\<rparr>)
      else if o' = ''LT'' then zadd_options r (zo\<lparr>zo_lt := True\<rparr>)
      else if o' = ''CH'' then zadd_options r (zo\<lparr>zo_ch := True\<rparr>)
      else if o' = ''INCR'' then zadd_options r (zo\<lparr>zo_incr := True\<rparr>)
      else (zo, x # r))"

definition zadd_no_options :: zadd_opts where
  "zadd_no_options = \<lparr>zo_nx = False, zo_xx = False, zo_gt = False, zo_lt = False, zo_ch = False, zo_incr = False\<rparr>"

fun zadd_pairs :: "bytes list \<Rightarrow> resp + (f64 \<times> bytes) list" where
  "zadd_pairs (s # mbr # r) =
     (case parse_f64 s of
        None \<Rightarrow> Inl not_float
      | Some f \<Rightarrow> (case zadd_pairs r of Inl e \<Rightarrow> Inl e | Inr ps \<Rightarrow> Inr ((f, mbr) # ps)))"
| "zadd_pairs _ = Inr []"

definition zadd_parse :: "bytes list \<Rightarrow> resp + zadd_opts \<times> (f64 \<times> bytes) list" where
  "zadd_parse args =
     (case zadd_options args zadd_no_options of
        (zo, pairs) \<Rightarrow>
          if pairs = [] \<or> odd (length pairs) then Inl (err ''syntax error'')
          else if zo_nx zo \<and> zo_xx zo then Inl (err ''XX and NX options at the same time are not compatible'')
          else if (zo_gt zo \<and> zo_lt zo) \<or> (zo_nx zo \<and> (zo_gt zo \<or> zo_lt zo))
            then Inl (err ''GT, LT, and/or NX options at the same time are not compatible'')
          else if zo_incr zo \<and> length pairs \<noteq> 2 then Inl (err ''INCR option supports a single increment-element pair'')
          else (case zadd_pairs pairs of Inl e \<Rightarrow> Inl e | Inr ps \<Rightarrow> Inr (zo, ps)))"

record zadd_state =
  za_meta :: meta
  za_added :: int
  za_changed :: int
  za_out :: resp

definition score_reply :: "f64 \<Rightarrow> resp" where "score_reply f = RBulk (fmt_f64 f)"

definition zadd_store :: "'s store_ops \<Rightarrow> key \<Rightarrow> f64 \<Rightarrow> bytes \<Rightarrow> ('s, unit) cmd" where
  "zadd_store ops key new mbr =
     bnd (put_key ops (zmem_key key mbr) (VFloat new)) (\<lambda>_. put_key ops (zscore_key key new mbr) (VInt 1))"

definition zadd_step :: "'s store_ops \<Rightarrow> key \<Rightarrow> zadd_opts \<Rightarrow> zadd_state \<Rightarrow> f64 \<times> bytes \<Rightarrow> ('s, zadd_state) cmd" where
  "zadd_step ops key zo z = (\<lambda>(score, mbr).
     bnd (get_key ops (zmem_key key mbr)) (\<lambda>v.
     let cur = float_of v in
     if (zo_nx zo \<and> cur \<noteq> None) \<or> (zo_xx zo \<and> cur = None) then ret z
     else
       let new = (if zo_incr zo then f64_add (case cur of None \<Rightarrow> 0 | Some c \<Rightarrow> c) score else score) in
       if f64_nan new then fail (err ''resulting score is not a number (NaN)'')
       else
         case cur of
           Some c \<Rightarrow>
             if (zo_gt zo \<and> f64_le new c) \<or> (zo_lt zo \<and> f64_le c new) then ret z
             else if f64_eq new c then ret (if zo_incr zo then z\<lparr>za_out := score_reply new\<rparr> else z)
             else
               bnd (delete_key ops (zscore_key key c mbr)) (\<lambda>_.
               bnd (zadd_store ops key new mbr) (\<lambda>_.
               ret (z\<lparr>za_changed := za_changed z + 1, za_out := score_reply new\<rparr>)))
         | None \<Rightarrow>
             bnd (zadd_store ops key new mbr) (\<lambda>_.
             ret (z\<lparr>za_added := za_added z + 1, za_meta := (za_meta z)\<lparr>mt_len := mt_len (za_meta z) + 1\<rparr>,
                    za_out := score_reply new\<rparr>))))"

definition zadd_cmd :: "'s store_ops \<Rightarrow> string \<Rightarrow> bytes list \<Rightarrow> ('s, resp) cmd" where
  "zadd_cmd ops name a =
     bnd (need name (length a \<ge> 3)) (\<lambda>_.
     case zadd_parse (tl a) of
       Inl e \<Rightarrow> fail e
     | Inr (zo, ps) \<Rightarrow>
         bnd (coll_or_new ops (a ! 0) T_ZSET) (\<lambda>(m, ttl).
         bnd (each_of (zadd_step ops (a ! 0) zo) ps \<lparr>za_meta = m, za_added = 0, za_changed = 0, za_out = RNil\<rparr>) (\<lambda>z.
         bnd (if za_added z + za_changed z > 0 then put_meta ops (a ! 0) (za_meta z) ttl else ret ()) (\<lambda>_.
         ret (if zo_incr zo then za_out z
              else int_reply (if zo_ch zo then za_added z + za_changed z else za_added z))))))"

definition zincrby_cmd :: "'s store_ops \<Rightarrow> string \<Rightarrow> bytes list \<Rightarrow> ('s, resp) cmd" where
  "zincrby_cmd ops name a =
     bnd (need name (length a = 3)) (\<lambda>_. zadd_cmd ops ''ZADD'' [a ! 0, as_bytes ''INCR'', a ! 1, a ! 2])"

section \<open>Removal and point reads\<close>

definition zremove_step :: "'s store_ops \<Rightarrow> key \<Rightarrow> meta \<Rightarrow> bytes \<Rightarrow> ('s, meta \<times> bool) cmd" where
  "zremove_step ops key m mbr =
     bnd (zremove ops key mbr) (\<lambda>was. ret (if was then m\<lparr>mt_len := mt_len m - 1\<rparr> else m, was))"

definition zrem_cmd :: "'s store_ops \<Rightarrow> string \<Rightarrow> bytes list \<Rightarrow> ('s, resp) cmd" where
  "zrem_cmd ops name a =
     bnd (need name (length a \<ge> 2)) (\<lambda>_.
     bnd (coll ops (a ! 0) T_ZSET) (\<lambda>c.
     case c of
       None \<Rightarrow> ret (int_reply 0)
     | Some (m, ttl) \<Rightarrow>
         bnd (each_of (count_changed (zremove_step ops (a ! 0))) (tl a) (m, 0)) (\<lambda>(m, n).
         bnd (if n > 0 then put_meta ops (a ! 0) m ttl else ret ()) (\<lambda>_. ret (int_reply n)))))"

definition opt_score :: "f64 option \<Rightarrow> resp" where
  "opt_score s = (case s of None \<Rightarrow> RNil | Some f \<Rightarrow> score_reply f)"

definition zscore_cmd :: "'s store_ops \<Rightarrow> string \<Rightarrow> bytes list \<Rightarrow> ('s, resp) cmd" where
  "zscore_cmd ops name a =
     bnd (need name (length a = 2)) (\<lambda>_.
     bnd (coll ops (a ! 0) T_ZSET) (\<lambda>c.
     if c = None then ret RNil else bnd (zscore ops (a ! 0) (a ! 1)) (\<lambda>s. ret (opt_score s))))"

definition zmscore_cmd :: "'s store_ops \<Rightarrow> string \<Rightarrow> bytes list \<Rightarrow> ('s, resp) cmd" where
  "zmscore_cmd ops name a =
     bnd (need name (length a \<ge> 2)) (\<lambda>_.
     bnd (coll ops (a ! 0) T_ZSET) (\<lambda>c.
     bnd (each_of (\<lambda>out mbr.
            if c = None then ret (out @ [RNil])
            else bnd (zscore ops (a ! 0) mbr) (\<lambda>s. ret (out @ [opt_score s]))) (tl a) []) (\<lambda>out.
     ret (RArray out))))"

definition zcard_cmd :: "'s store_ops \<Rightarrow> string \<Rightarrow> bytes list \<Rightarrow> ('s, resp) cmd" where
  "zcard_cmd ops = coll_len_cmd ops T_ZSET"

section \<open>Ranges\<close>

text \<open>The score and the member of an index key, past its prefix.\<close>

definition zentry :: "key \<Rightarrow> key \<Rightarrow> f64 \<times> bytes" where
  "zentry key k =
     (let p = length (ebase key SUB_ZSCORE) in (score_from (take 8 (drop p k)), drop (p + 8) k))"

record bound =
  bd_v :: f64
  bd_excl :: bool

definition score_bound :: "bytes \<Rightarrow> resp + bound" where
  "score_bound a =
     (let excl = (a \<noteq> [] \<and> hd a = 40)
      in case parse_f64 (if excl then tl a else a) of
           None \<Rightarrow> Inl (err ''min or max is not a float'')
         | Some v \<Rightarrow> Inr \<lparr>bd_v = v, bd_excl = excl\<rparr>)"

definition in_bounds :: "f64 \<Rightarrow> bound \<Rightarrow> bound \<Rightarrow> bool \<times> bool" where
  "in_bounds s lo hi =
     (if bd_excl lo then f64_lt (bd_v lo) s else f64_le (bd_v lo) s,
      if bd_excl hi then f64_lt s (bd_v hi) else f64_le s (bd_v hi))"

text \<open>The smallest byte string above every string that starts with \<open>b\<close>.\<close>

definition next_prefix :: "bytes \<Rightarrow> bytes option" where
  "next_prefix b =
     (let r = dropWhile (\<lambda>x. x = 255) (rev b)
      in case r of [] \<Rightarrow> None | x # r \<Rightarrow> Some (rev ((x + 1) # r)))"

text \<open>The callbacks of the three range reads: entries skipped so far and entries taken.\<close>

definition score_visit :: "key \<Rightarrow> bound \<Rightarrow> bound \<Rightarrow> bool \<Rightarrow> nat \<Rightarrow> nat
    \<Rightarrow> nat \<times> (f64 \<times> bytes) list \<Rightarrow> key \<Rightarrow> val \<Rightarrow> (nat \<times> (f64 \<times> bytes) list) \<times> bool" where
  "score_visit key lo hi down offset limit = (\<lambda>(skipped, out) k _.
     let (sc, mbr) = zentry key k; (al, bh) = in_bounds sc lo hi in
     if down \<and> \<not> al then ((skipped, out), False)
     else if \<not> down \<and> \<not> bh then ((skipped, out), False)
     else if al \<and> bh then
       if skipped < offset then ((skipped + 1, out), True)
       else ((skipped, out @ [(sc, mbr)]), length out + 1 < limit)
     else ((skipped, out), True))"

definition zby_score :: "'s store_ops \<Rightarrow> key \<Rightarrow> bound \<Rightarrow> bound \<Rightarrow> bool \<Rightarrow> nat \<Rightarrow> nat \<Rightarrow> ('s, (f64 \<times> bytes) list) cmd" where
  "zby_score ops key lo hi down offset limit =
     (if limit = 0 then ret []
      else
        let (s, e) = erange key SUB_ZSCORE;
            start = (if down then s else s @ score_bytes (bd_v lo));
            stop = (if down then (case next_prefix (score_bytes (bd_v hi)) of Some nx \<Rightarrow> s @ nx | None \<Rightarrow> e) else e)
        in bnd (each ops s start stop down (score_visit key lo hi down offset limit) (0, [])) (\<lambda>(_, out). ret out))"

definition rank_visit :: "key \<Rightarrow> nat \<Rightarrow> nat
    \<Rightarrow> nat \<times> (f64 \<times> bytes) list \<Rightarrow> key \<Rightarrow> val \<Rightarrow> (nat \<times> (f64 \<times> bytes) list) \<times> bool" where
  "rank_visit key offset count = (\<lambda>(i, out) k _.
     let out = (if i \<ge> offset then out @ [zentry key k] else out) in ((i + 1, out), length out < count))"

definition zby_rank :: "'s store_ops \<Rightarrow> key \<Rightarrow> nat \<Rightarrow> nat \<Rightarrow> bool \<Rightarrow> ('s, (f64 \<times> bytes) list) cmd" where
  "zby_rank ops key offset count down =
     (if count = 0 then ret []
      else
        let (s, e) = erange key SUB_ZSCORE
        in bnd (each ops s s e down (rank_visit key offset count) (0, [])) (\<lambda>(_, out). ret out))"

datatype lex_bound = LexMin | LexMax | LexIncl bytes | LexExcl bytes

definition lex_bound_of :: "bytes \<Rightarrow> resp + lex_bound" where
  "lex_bound_of a =
     (if a = [45] then Inr LexMin
      else if a = [43] then Inr LexMax
      else if a \<noteq> [] \<and> hd a = 91 then Inr (LexIncl (tl a))
      else if a \<noteq> [] \<and> hd a = 40 then Inr (LexExcl (tl a))
      else Inl (err ''min or max not valid string range item''))"

definition lex_above :: "bytes \<Rightarrow> lex_bound \<Rightarrow> bool" where
  "lex_above mbr lo = (case lo of LexMin \<Rightarrow> True | LexMax \<Rightarrow> False | LexIncl x \<Rightarrow> x \<le> mbr | LexExcl x \<Rightarrow> x < mbr)"

definition lex_below :: "bytes \<Rightarrow> lex_bound \<Rightarrow> bool" where
  "lex_below mbr hi = (case hi of LexMin \<Rightarrow> False | LexMax \<Rightarrow> True | LexIncl x \<Rightarrow> mbr \<le> x | LexExcl x \<Rightarrow> mbr < x)"

definition lex_visit :: "key \<Rightarrow> lex_bound \<Rightarrow> lex_bound \<Rightarrow> nat \<Rightarrow> nat
    \<Rightarrow> nat \<times> (f64 \<times> bytes) list \<Rightarrow> key \<Rightarrow> val \<Rightarrow> (nat \<times> (f64 \<times> bytes) list) \<times> bool" where
  "lex_visit key lo hi offset count = (\<lambda>(skipped, out) k _.
     let (sc, mbr) = zentry key k;
         (skipped, out) =
           (if lex_above mbr lo \<and> lex_below mbr hi then
              if skipped < offset then (skipped + 1, out) else (skipped, out @ [(sc, mbr)])
            else (skipped, out))
     in ((skipped, out), length out < count))"

definition zby_lex :: "'s store_ops \<Rightarrow> key \<Rightarrow> lex_bound \<Rightarrow> lex_bound \<Rightarrow> bool \<Rightarrow> nat \<Rightarrow> nat \<Rightarrow> ('s, (f64 \<times> bytes) list) cmd" where
  "zby_lex ops key lo hi down offset count =
     (if count = 0 then ret []
      else
        let (s, e) = erange key SUB_ZSCORE
        in bnd (each ops s s e down (lex_visit key lo hi offset count) (0, [])) (\<lambda>(_, out). ret out))"

definition from_sum :: "resp + 'a \<Rightarrow> ('s, 'a) cmd" where
  "from_sum r = (case r of Inl e \<Rightarrow> fail e | Inr x \<Rightarrow> ret x)"

definition zcount_cmd :: "'s store_ops \<Rightarrow> string \<Rightarrow> bytes list \<Rightarrow> ('s, resp) cmd" where
  "zcount_cmd ops name a =
     bnd (need name (length a = 3)) (\<lambda>_.
     bnd (from_sum (score_bound (a ! 1))) (\<lambda>lo.
     bnd (from_sum (score_bound (a ! 2))) (\<lambda>hi.
     bnd (coll ops (a ! 0) T_ZSET) (\<lambda>c.
     case c of
       None \<Rightarrow> ret (int_reply 0)
     | Some _ \<Rightarrow>
         bnd (zby_score ops (a ! 0) lo hi False 0 u64_max) (\<lambda>items. ret (int_reply (int (length items))))))))"

definition zlexcount_cmd :: "'s store_ops \<Rightarrow> string \<Rightarrow> bytes list \<Rightarrow> ('s, resp) cmd" where
  "zlexcount_cmd ops name a =
     bnd (need name (length a = 3)) (\<lambda>_.
     bnd (from_sum (lex_bound_of (a ! 1))) (\<lambda>lo.
     bnd (from_sum (lex_bound_of (a ! 2))) (\<lambda>hi.
     bnd (coll ops (a ! 0) T_ZSET) (\<lambda>c.
     case c of
       None \<Rightarrow> ret (int_reply 0)
     | Some _ \<Rightarrow>
         bnd (zby_lex ops (a ! 0) lo hi False 0 u64_max) (\<lambda>items. ret (int_reply (int (length items))))))))"

text \<open>\<open>ZRANK\<close> counts the index entries before the member's own.\<close>

definition zrank_cmd :: "'s store_ops \<Rightarrow> string \<Rightarrow> bytes list \<Rightarrow> ('s, resp) cmd" where
  "zrank_cmd ops name a =
     bnd (need name (length a = 2 \<or> length a = 3)) (\<lambda>_.
     bnd (coll ops (a ! 0) T_ZSET) (\<lambda>c.
     case c of
       None \<Rightarrow> ret RNil
     | Some (m, _) \<Rightarrow>
         bnd (zscore ops (a ! 0) (a ! 1)) (\<lambda>s.
         case s of
           None \<Rightarrow> ret RNil
         | Some score \<Rightarrow>
             let (st, _) = erange (a ! 0) SUB_ZSCORE; target = zscore_key (a ! 0) score (a ! 1)
             in bnd (each ops st st target False (\<lambda>rank _ _. (rank + 1, True)) (0 :: i64)) (\<lambda>rank.
                let r = (if name = ''ZRANK'' then rank else mt_len m - 1 - rank);
                    with_score = (length a > 2 \<and> map ascii_upper_byte (a ! 2) = as_bytes ''WITHSCORE'')
                in ret (if with_score then RArray [RInt r, score_reply score] else RInt r)))))"

record zrange_opts =
  zr_byscore :: bool
  zr_bylex :: bool
  zr_rev :: bool
  zr_with :: bool
  zr_limit :: "(i64 \<times> i64) option"

text \<open>\<open>str::contains\<close>.\<close>

fun has_sub :: "string \<Rightarrow> string \<Rightarrow> bool" where
  "has_sub p [] = (p = [])"
| "has_sub p (c # s) = (take (length p) (c # s) = p \<or> has_sub p s)"

fun zrange_options :: "string \<Rightarrow> bytes list \<Rightarrow> zrange_opts \<Rightarrow> resp + zrange_opts" where
  "zrange_options name [] zr = Inr zr"
| "zrange_options name (x # r) zr =
     (let opt = upper_name x in
      if opt = ''WITHSCORES'' then zrange_options name r (zr\<lparr>zr_with := True\<rparr>)
      else if opt = ''BYSCORE'' \<and> name = ''ZRANGE'' then zrange_options name r (zr\<lparr>zr_byscore := True\<rparr>)
      else if opt = ''REV'' \<and> name = ''ZRANGE'' then zrange_options name r (zr\<lparr>zr_rev := True\<rparr>)
      else if opt = ''BYLEX'' \<and> name = ''ZRANGE'' then zrange_options name r (zr\<lparr>zr_bylex := True\<rparr>)
      else if opt = ''LIMIT'' then
        (case r of
           b # c # r' \<Rightarrow>
             (case (parse_strict_i64 b, parse_strict_i64 c) of
                (Some b, Some c) \<Rightarrow> zrange_options name r' (zr\<lparr>zr_limit := Some (b, c)\<rparr>)
              | _ \<Rightarrow> Inl (err ''syntax error''))
         | _ \<Rightarrow> Inl (err ''syntax error''))
      else Inl (err ''syntax error''))"

definition zrange_start_options :: "string \<Rightarrow> zrange_opts" where
  "zrange_start_options name =
     \<lparr>zr_byscore = has_sub ''BYSCORE'' name, zr_bylex = has_sub ''BYLEX'' name, zr_rev = (take 4 name = ''ZREV''),
      zr_with = False, zr_limit = None\<rparr>"

definition zrange_parse :: "string \<Rightarrow> bytes list \<Rightarrow> resp + zrange_opts" where
  "zrange_parse name args =
     (case zrange_options name args (zrange_start_options name) of
        Inl e \<Rightarrow> Inl e
      | Inr zr \<Rightarrow>
          if zr_byscore zr \<and> zr_bylex zr then Inl (err ''syntax error'')
          else if zr_bylex zr \<and> zr_with zr
            then Inl (err ''syntax error, WITHSCORES not supported in combination with BYLEX'')
          else Inr zr)"

text \<open>The offset and the count of \<open>LIMIT\<close>.\<close>

definition limit_of :: "zrange_opts \<Rightarrow> nat \<times> nat" where
  "limit_of zr =
     (case zr_limit zr of
        Some (b, c) \<Rightarrow> (nat (max (sint b) 0), if sint c < 0 then u64_max else unat c)
      | None \<Rightarrow> (0, u64_max))"

definition negative_offset :: "zrange_opts \<Rightarrow> bool" where
  "negative_offset zr = (case zr_limit zr of Some (b, _) \<Rightarrow> sint b < 0 | None \<Rightarrow> False)"

definition zrange_rank :: "'s store_ops \<Rightarrow> bytes list \<Rightarrow> meta \<Rightarrow> bool \<Rightarrow> ('s, (f64 \<times> bytes) list) cmd" where
  "zrange_rank ops a m down =
     bnd (ok_or (parse_strict_i64 (a ! 1)) not_int) (\<lambda>s.
     bnd (ok_or (parse_strict_i64 (a ! 2)) not_int) (\<lambda>e.
     case norm_range s e (mt_len m) of
       None \<Rightarrow> ret []
     | Some (s, e) \<Rightarrow> zby_rank ops (a ! 0) (unat s) (unat (e - s + 1)) down))"

definition zrange_items :: "'s store_ops \<Rightarrow> bytes list \<Rightarrow> zrange_opts \<Rightarrow> (lex_bound \<times> lex_bound) option \<Rightarrow> meta \<Rightarrow> ('s, (f64 \<times> bytes) list) cmd" where
  "zrange_items ops a zr lb m =
     (if negative_offset zr \<and> (zr_bylex zr \<or> zr_byscore zr) then ret []
      else case lb of
        Some (lo, hi) \<Rightarrow> zby_lex ops (a ! 0) lo hi (zr_rev zr) (fst (limit_of zr)) (snd (limit_of zr))
      | None \<Rightarrow>
          if zr_byscore zr then
            bnd (from_sum (score_bound (a ! 1))) (\<lambda>b1.
            bnd (from_sum (score_bound (a ! 2))) (\<lambda>b2.
            zby_score ops (a ! 0) (if zr_rev zr then b2 else b1) (if zr_rev zr then b1 else b2) (zr_rev zr)
              (fst (limit_of zr)) (snd (limit_of zr))))
          else if zr_limit zr \<noteq> None
            then fail (err ''syntax error, LIMIT is only supported in combination with either BYSCORE or BYLEX'')
          else zrange_rank ops a m (zr_rev zr))"

definition zrange_cmd :: "'s store_ops \<Rightarrow> string \<Rightarrow> bytes list \<Rightarrow> ('s, resp) cmd" where
  "zrange_cmd ops name a =
     bnd (need name (length a \<ge> 3)) (\<lambda>_.
     bnd (from_sum (zrange_parse name (drop 3 a))) (\<lambda>zr.
     bnd (if zr_bylex zr then
            bnd (from_sum (lex_bound_of (a ! 1))) (\<lambda>b1.
            bnd (from_sum (lex_bound_of (a ! 2))) (\<lambda>b2.
            ret (Some (if zr_rev zr then (b2, b1) else (b1, b2)))))
          else ret None) (\<lambda>lb.
     bnd (coll ops (a ! 0) T_ZSET) (\<lambda>c.
     case c of
       None \<Rightarrow> ret (RArray [])
     | Some (m, _) \<Rightarrow>
         bnd (zrange_items ops a zr lb m) (\<lambda>items.
         ret (RArray (concat (map (\<lambda>(sc, mbr). RBulk mbr # (if zr_with zr then [score_reply sc] else [])) items))))))))"

section \<open>Range removal and pops\<close>

definition zremove_all :: "'s store_ops \<Rightarrow> key \<Rightarrow> meta \<Rightarrow> (f64 \<times> bytes) list \<Rightarrow> ('s, meta) cmd" where
  "zremove_all ops key m items =
     each_of (\<lambda>m (_, mbr). bnd (zremove ops key mbr) (\<lambda>_. ret (m\<lparr>mt_len := mt_len m - 1\<rparr>))) items m"

definition zremrange_victims :: "'s store_ops \<Rightarrow> string \<Rightarrow> bytes list \<Rightarrow> (lex_bound \<times> lex_bound) option \<Rightarrow> meta \<Rightarrow> ('s, (f64 \<times> bytes) list) cmd" where
  "zremrange_victims ops name a lb m =
     (case lb of
        Some (lo, hi) \<Rightarrow> zby_lex ops (a ! 0) lo hi False 0 u64_max
      | None \<Rightarrow>
          if name = ''ZREMRANGEBYSCORE'' then
            bnd (from_sum (score_bound (a ! 1))) (\<lambda>lo.
            bnd (from_sum (score_bound (a ! 2))) (\<lambda>hi. zby_score ops (a ! 0) lo hi False 0 u64_max))
          else zrange_rank ops a m False)"

definition zremrange_cmd :: "'s store_ops \<Rightarrow> string \<Rightarrow> bytes list \<Rightarrow> ('s, resp) cmd" where
  "zremrange_cmd ops name a =
     bnd (need name (length a = 3)) (\<lambda>_.
     bnd (if name = ''ZREMRANGEBYLEX'' then
            bnd (from_sum (lex_bound_of (a ! 1))) (\<lambda>lo.
            bnd (from_sum (lex_bound_of (a ! 2))) (\<lambda>hi. ret (Some (lo, hi))))
          else ret None) (\<lambda>lb.
     bnd (coll ops (a ! 0) T_ZSET) (\<lambda>c.
     case c of
       None \<Rightarrow> ret (int_reply 0)
     | Some (m, ttl) \<Rightarrow>
         bnd (zremrange_victims ops name a lb m) (\<lambda>victims.
         bnd (zremove_all ops (a ! 0) m victims) (\<lambda>m.
         bnd (if victims \<noteq> [] then put_meta ops (a ! 0) m ttl else ret ()) (\<lambda>_.
         ret (int_reply (int (length victims)))))))))"

definition zpop_cmd :: "'s store_ops \<Rightarrow> string \<Rightarrow> bytes list \<Rightarrow> ('s, resp) cmd" where
  "zpop_cmd ops name a =
     bnd (need name (length a = 1 \<or> length a = 2)) (\<lambda>_.
     bnd (if length a > 1
          then ok_or (case parse_strict_i64 (a ! 1) of Some c \<Rightarrow> if sint c \<ge> 0 then Some (unat c) else None | None \<Rightarrow> None)
                 (err ''value is out of range, must be positive'')
          else ret 1) (\<lambda>count.
     bnd (coll ops (a ! 0) T_ZSET) (\<lambda>c.
     case c of
       None \<Rightarrow> ret (RArray [])
     | Some (m, ttl) \<Rightarrow>
         bnd (zby_rank ops (a ! 0) 0 count (name = ''ZPOPMAX'')) (\<lambda>got.
         bnd (zremove_all ops (a ! 0) m got) (\<lambda>m.
         bnd (if got \<noteq> [] then put_meta ops (a ! 0) m ttl else ret ()) (\<lambda>_.
         ret (RArray (concat (map (\<lambda>(s, mbr). [RBulk mbr, score_reply s]) got)))))))))"

definition exec_zset :: "'s store_ops \<Rightarrow> string \<Rightarrow> bytes list \<Rightarrow> ('s, resp) cmd option" where
  "exec_zset ops name a =
     (if name = ''ZADD'' then Some (zadd_cmd ops name a)
      else if name = ''ZINCRBY'' then Some (zincrby_cmd ops name a)
      else if name = ''ZREM'' then Some (zrem_cmd ops name a)
      else if name = ''ZSCORE'' then Some (zscore_cmd ops name a)
      else if name = ''ZMSCORE'' then Some (zmscore_cmd ops name a)
      else if name = ''ZCARD'' then Some (zcard_cmd ops name a)
      else if name = ''ZCOUNT'' then Some (zcount_cmd ops name a)
      else if name = ''ZRANK'' \<or> name = ''ZREVRANK'' then Some (zrank_cmd ops name a)
      else if name \<in> set [''ZRANGE'', ''ZREVRANGE'', ''ZRANGEBYSCORE'', ''ZREVRANGEBYSCORE'', ''ZRANGEBYLEX'', ''ZREVRANGEBYLEX'']
        then Some (zrange_cmd ops name a)
      else if name = ''ZLEXCOUNT'' then Some (zlexcount_cmd ops name a)
      else if name \<in> set [''ZREMRANGEBYSCORE'', ''ZREMRANGEBYRANK'', ''ZREMRANGEBYLEX''] then Some (zremrange_cmd ops name a)
      else if name = ''ZPOPMIN'' \<or> name = ''ZPOPMAX'' then Some (zpop_cmd ops name a)
      else None)"

end
