(* ===== verification/Ks_Stream.thy ===== *)
theory Ks_Stream
  imports Stream_Ids Ks_Zset
begin

text \<open>
  The stream state and the commands on entries (\<open>crates/server/src/keyspace/stream.rs\<close>): XADD,
  XLEN, XRANGE, XDEL, XTRIM, XACK, XSETID.  Unlike other collections a stream may be empty.
\<close>

section \<open>State\<close>

record strm =
  st_m :: meta
  st_last :: sid
  st_added :: "64 word"
  st_maxdel :: sid

definition load_stream :: "'s store_ops \<Rightarrow> key \<Rightarrow> ('s, strm option) cmd" where
  "load_stream ops key =
     bnd (coll ops key T_STREAM) (\<lambda>c.
     ret (case c of
            None \<Rightarrow> None
          | Some (m, _) \<Rightarrow>
              (case mt_ext m of
                 (added, ms, seq) \<Rightarrow>
                   Some \<lparr>st_m = m, st_last = (mt_head m, mt_tail m), st_added = added, st_maxdel = (ms, seq)\<rparr>)))"

definition new_stream :: strm where
  "new_stream = \<lparr>st_m = meta_new T_STREAM, st_last = ID_MIN, st_added = 0, st_maxdel = ID_MIN\<rparr>"

definition saved_meta :: "strm \<Rightarrow> meta" where
  "saved_meta s =
     (st_m s)\<lparr>mt_ver := mt_ver (st_m s) + 1, mt_head := fst (st_last s), mt_tail := snd (st_last s),
             mt_ext := (st_added s, st_maxdel s)\<rparr>"

definition save_stream :: "'s store_ops \<Rightarrow> key \<Rightarrow> strm \<Rightarrow> ('s, strm) cmd" where
  "save_stream ops key s =
     bnd (if mt_ver (st_m s) = 0 then note_created else ret ()) (\<lambda>_.
     bnd (put_key ops (kv key) (VMeta (meta_encode (saved_meta s)))) (\<lambda>_.
     ret (s\<lparr>st_m := saved_meta s\<rparr>)))"

definition ent_key :: "key \<Rightarrow> sid \<Rightarrow> key" where
  "ent_key key i = ekey key SUB_XENT (id_bytes i)"

text \<open>Entries with \<open>lo \<le> id \<le> hi\<close>, at most \<open>count\<close> of them, all when \<open>count\<close> is 0.\<close>

definition entry_visit :: "key \<Rightarrow> nat \<Rightarrow> (sid \<times> bytes list) list \<Rightarrow> key \<Rightarrow> val \<Rightarrow> (sid \<times> bytes list) list \<times> bool" where
  "entry_visit key count = (\<lambda>out k v.
     let out = out @ [(id_from (drop (length (ebase key SUB_XENT)) k), dec_fields (bytes_of v))]
     in (out, count = 0 \<or> length out < count))"

definition stream_range :: "'s store_ops \<Rightarrow> key \<Rightarrow> sid \<Rightarrow> sid \<Rightarrow> bool \<Rightarrow> nat \<Rightarrow> ('s, (sid \<times> bytes list) list) cmd" where
  "stream_range ops key lo hi down count =
     (if lo > hi then ret []
      else each ops (ebase key SUB_XENT) (ent_key key lo) (ent_key key hi @ [0]) down (entry_visit key count) [])"

definition first_id :: "'s store_ops \<Rightarrow> key \<Rightarrow> ('s, sid option) cmd" where
  "first_id ops key =
     bnd (stream_range ops key ID_MIN ID_MAX False 1) (\<lambda>es. ret (case es of [] \<Rightarrow> None | (i, _) # _ \<Rightarrow> Some i))"

definition stream_entry :: "'s store_ops \<Rightarrow> key \<Rightarrow> sid \<Rightarrow> ('s, bytes list option) cmd" where
  "stream_entry ops key i = bnd (get_key ops (ent_key key i)) (\<lambda>v. ret (map_option (\<lambda>v. dec_fields (bytes_of v)) v))"

section \<open>Trimming\<close>

datatype trim_how = MaxLen "64 word" | MinId sid

record trim_spec =
  ts_how :: trim_how
  ts_approx :: bool
  ts_limit :: "64 word"

definition parse_threshold :: "string \<Rightarrow> bytes list \<Rightarrow> resp + trim_spec \<times> bytes list" where
  "parse_threshold opt args =
     (let marked = (args \<noteq> [] \<and> (hd args = [126] \<or> hd args = [61]));
          approx = (marked \<and> hd args = [126]);
          r = (if marked then tl args else args)
      in case r of
           [] \<Rightarrow> Inl (err ''syntax error'')
         | t # r \<Rightarrow>
             if opt = ''MAXLEN'' then
               (case parse_strict_i64 t of
                  None \<Rightarrow> Inl not_int
                | Some n \<Rightarrow>
                    if sint n < 0 then Inl (err ''The MAXLEN argument must be >= 0.'')
                    else Inr (\<lparr>ts_how = MaxLen n, ts_approx = approx, ts_limit = 0\<rparr>, r))
             else
               (case parse_id t 0 of
                  None \<Rightarrow> Inl invalid_id
                | Some i \<Rightarrow> Inr (\<lparr>ts_how = MinId i, ts_approx = approx, ts_limit = 0\<rparr>, r)))"

type_synonym trim_args = "trim_spec option \<times> 64 word option"

text \<open>One trim option at the head of the arguments; \<open>None\<close> if there is none.\<close>

definition parse_trim :: "bytes list \<Rightarrow> trim_args \<Rightarrow> (resp + trim_args \<times> bytes list) option" where
  "parse_trim args st =
     (case args of
        [] \<Rightarrow> None
      | x # r \<Rightarrow>
          let opt = upper_name x in
          if opt = ''MAXLEN'' \<or> opt = ''MINID'' then
            Some (case parse_threshold opt r of Inl e \<Rightarrow> Inl e | Inr (spec, r) \<Rightarrow> Inr ((Some spec, snd st), r))
          else if opt = ''LIMIT'' then
            Some (case r of
                    [] \<Rightarrow> Inl not_int
                  | v # r \<Rightarrow>
                      (case parse_strict_i64 v of
                         None \<Rightarrow> Inl not_int
                       | Some n \<Rightarrow>
                           if sint n < 0 then Inl (err ''The LIMIT argument must be >= 0.'')
                           else Inr ((fst st, Some n), r)))
          else None)"

lemma parse_threshold_shorter: "parse_threshold opt args = Inr (spec, r) \<Longrightarrow> length r < length args"
  by (cases args) (auto simp: parse_threshold_def Let_def split: list.splits option.splits if_splits)

lemma parse_trim_shorter: "parse_trim args st = Some (Inr (st', r)) \<Longrightarrow> length r < length args"
  using parse_threshold_shorter
  by (fastforce simp: parse_trim_def Let_def split: list.splits option.splits if_splits sum.splits)

definition finish_trim :: "trim_args \<Rightarrow> resp + trim_spec option" where
  "finish_trim st =
     (case st of
        (None, Some _) \<Rightarrow> Inl (err ''syntax error'')
      | (Some s, l) \<Rightarrow>
          if l \<noteq> None \<and> \<not> ts_approx s then Inl (err ''syntax error, LIMIT cannot be used without the special ~ option'')
          else Inr (Some (s\<lparr>ts_limit := (if ts_approx s then (case l of Some n \<Rightarrow> n | None \<Rightarrow> NODE * 100) else 0)\<rparr>))
      | (None, None) \<Rightarrow> Inr None)"

definition sat_sub :: "64 word \<Rightarrow> 64 word \<Rightarrow> 64 word" where
  "sat_sub a b = (if b \<le> a then a - b else 0)"

text \<open>How many entries a trim drops: approximate trims only drop whole nodes.\<close>

definition trim_amount :: "trim_spec \<Rightarrow> 64 word \<Rightarrow> 64 word" where
  "trim_amount t n =
     (if ts_approx t then
        (let n = (if ts_limit t > 0 then min n (ts_limit t) else n) in n div NODE * NODE)
      else n)"

definition trim_excess :: "'s store_ops \<Rightarrow> key \<Rightarrow> strm \<Rightarrow> trim_how \<Rightarrow> ('s, 64 word) cmd" where
  "trim_excess ops key s how =
     (case how of
        MaxLen n \<Rightarrow> ret (sat_sub (mt_len (st_m s)) n)
      | MinId i \<Rightarrow>
          (case prev_id i of
             Some below \<Rightarrow> bnd (stream_range ops key ID_MIN below False 0) (\<lambda>es. ret (of_nat (length es)))
           | None \<Rightarrow> ret 0))"

definition trim_stream :: "'s store_ops \<Rightarrow> key \<Rightarrow> strm \<Rightarrow> trim_spec \<Rightarrow> ('s, strm \<times> 64 word) cmd" where
  "trim_stream ops key s t =
     bnd (trim_excess ops key s (ts_how t)) (\<lambda>n.
     let n = trim_amount t n in
     if n = 0 then ret (s, 0)
     else
       bnd (stream_range ops key ID_MIN ID_MAX False (unat n)) (\<lambda>victims.
       bnd (each_of (\<lambda>_ (i, _). delete_key ops (ent_key key i)) victims ()) (\<lambda>_.
       let m = st_m s; removed = of_nat (length victims)
       in ret (s\<lparr>st_m := m\<lparr>mt_len := mt_len m - removed\<rparr>\<rparr>, removed))))"

section \<open>XADD\<close>

function xadd_options :: "bytes list \<Rightarrow> bool \<Rightarrow> trim_args \<Rightarrow> resp + bool \<times> trim_args \<times> bytes list" where
  "xadd_options args nomk st =
     (if args \<noteq> [] \<and> eq_ignore_ascii_case (hd args) (as_bytes ''NOMKSTREAM'') then xadd_options (tl args) True st
      else case parse_trim args st of
             None \<Rightarrow> Inr (nomk, st, args)
           | Some (Inl e) \<Rightarrow> Inl e
           | Some (Inr (st', r)) \<Rightarrow> xadd_options r nomk st')"
  by pat_completeness auto

termination
  by (relation "measure (\<lambda>(args, _, _). length args)") (auto dest: parse_trim_shorter)

declare xadd_options.simps [simp del]

text \<open>\<open>*\<close> is no request, \<open><ms>-*\<close> fixes the milliseconds, an id fixes both parts.\<close>

definition id_request :: "bytes \<Rightarrow> resp + (64 word \<times> 64 word option) option" where
  "id_request a =
     (if a = [42] then Inr None
      else if length a \<ge> 2 \<and> drop (length a - 2) a = [45, 42] then
        (case parse_u64 (take (length a - 2) a) of None \<Rightarrow> Inl invalid_id | Some ms \<Rightarrow> Inr (Some (ms, None)))
      else
        (case parse_id a 0 of None \<Rightarrow> Inl invalid_id | Some i \<Rightarrow> Inr (Some (fst i, Some (snd i)))))"

definition choose_id :: "nat \<Rightarrow> sid \<Rightarrow> (64 word \<times> 64 word option) option \<Rightarrow> sid option" where
  "choose_id now last_id req =
     (case req of
        None \<Rightarrow> if of_nat now > fst last_id then Some (of_nat now, 0) else next_id last_id
      | Some (ms, None) \<Rightarrow>
          if ms > fst last_id then Some (ms, 0)
          else if ms = fst last_id \<and> snd last_id < U64_MAX then Some (ms, snd last_id + 1)
          else None
      | Some (ms, Some seq) \<Rightarrow> if (ms, seq) \<le> last_id then None else Some (ms, seq))"

definition too_small :: resp where
  "too_small = err ''The ID specified in XADD is equal or smaller than the target stream top item''"

definition add_entry :: "'s store_ops \<Rightarrow> key \<Rightarrow> strm \<Rightarrow> trim_spec option \<Rightarrow> bytes list \<Rightarrow> sid \<Rightarrow> ('s, resp) cmd" where
  "add_entry ops key s spec fs i =
     bnd (put_key ops (ent_key key i) (VBytes (enc_fields fs))) (\<lambda>_.
     let s = s\<lparr>st_m := (st_m s)\<lparr>mt_len := mt_len (st_m s) + 1\<rparr>, st_added := st_added s + 1, st_last := i\<rparr>
     in bnd (case spec of None \<Rightarrow> ret s | Some t \<Rightarrow> bnd (trim_stream ops key s t) (\<lambda>(s, _). ret s)) (\<lambda>s.
        bnd (save_stream ops key s) (\<lambda>_. ret (id_resp i))))"

definition xadd_cmd :: "'s store_ops \<Rightarrow> string \<Rightarrow> bytes list \<Rightarrow> ('s, resp) cmd" where
  "xadd_cmd ops name a =
     bnd (need name (length a \<ge> 2)) (\<lambda>_.
     bnd (from_sum (xadd_options (tl a) False (None, None))) (\<lambda>(nomk, st, r).
     bnd (from_sum (finish_trim st)) (\<lambda>spec.
     bnd (if r = [] then fail (wrong_args name) else ret ()) (\<lambda>_.
     bnd (from_sum (id_request (hd r))) (\<lambda>req.
     bnd (need name (tl r \<noteq> [] \<and> even (length (tl r)))) (\<lambda>_.
     if req = Some (0, Some 0) then fail (err ''The ID specified in XADD must be greater than 0-0'')
     else
       bnd (load_stream ops (a ! 0)) (\<lambda>so.
       if so = None \<and> nomk then ret RNil
       else
         let s = (case so of Some s \<Rightarrow> s | None \<Rightarrow> new_stream) in
         if st_last s = ID_MAX
           then fail (err ''The stream has exhausted the last possible ID, unable to add more items'')
         else
           bnd now_cmd (\<lambda>now.
           bnd (ok_or (choose_id now (st_last s) req) too_small) (\<lambda>i.
           add_entry ops (a ! 0) s spec (tl r) i)))))))))"

section \<open>The other entry commands\<close>

definition xlen_cmd :: "'s store_ops \<Rightarrow> string \<Rightarrow> bytes list \<Rightarrow> ('s, resp) cmd" where
  "xlen_cmd ops name a =
     bnd (need name (length a = 1)) (\<lambda>_.
     bnd (load_stream ops (a ! 0)) (\<lambda>so. ret (case so of None \<Rightarrow> int_reply 0 | Some s \<Rightarrow> RInt (mt_len (st_m s)))))"

definition entries_reply :: "(sid \<times> bytes list) list \<Rightarrow> resp" where
  "entries_reply es = RArray (map (\<lambda>(i, f). entry_resp i f) es)"

text \<open>The \<open>COUNT\<close> option: an early reply, or the count.\<close>

definition xrange_count :: "'s store_ops \<Rightarrow> bytes list \<Rightarrow> ('s, resp + nat) cmd" where
  "xrange_count ops a =
     (if length a \<noteq> 5 then ret (Inr 0)
      else if \<not> eq_ignore_ascii_case (a ! 3) (as_bytes ''COUNT'') then fail (err ''syntax error'')
      else
        bnd (ok_or (parse_strict_i64 (a ! 4)) not_int) (\<lambda>c.
        bnd (load_stream ops (a ! 0)) (\<lambda>so.
        ret (if so = None then Inl (RArray [])
             else if sint c \<le> 0 then Inl RNilArray
             else Inr (unat c)))))"

definition xrange_cmd :: "'s store_ops \<Rightarrow> string \<Rightarrow> bytes list \<Rightarrow> ('s, resp) cmd" where
  "xrange_cmd ops name a =
     bnd (need name (length a = 3 \<or> length a = 5)) (\<lambda>_.
     let down = (name = ''XREVRANGE'') in
     bnd (range_start (if down then a ! 2 else a ! 1)) (\<lambda>lo.
     bnd (range_end (if down then a ! 1 else a ! 2)) (\<lambda>hi.
     bnd (xrange_count ops a) (\<lambda>c.
     case c of
       Inl r \<Rightarrow> ret r
     | Inr count \<Rightarrow>
         bnd (load_stream ops (a ! 0)) (\<lambda>so.
         if so = None then ret (RArray [])
         else bnd (stream_range ops (a ! 0) lo hi down count) (\<lambda>es. ret (entries_reply es)))))))"

definition strict_ids :: "bytes list \<Rightarrow> ('s, sid list) cmd" where
  "strict_ids xs = each_of (\<lambda>out x. bnd (strict_id x) (\<lambda>i. ret (out @ [i]))) xs []"

definition xdel_step :: "'s store_ops \<Rightarrow> key \<Rightarrow> strm \<times> int \<Rightarrow> sid \<Rightarrow> ('s, strm \<times> int) cmd" where
  "xdel_step ops key = (\<lambda>(s, n) i.
     bnd (get_key ops (ent_key key i)) (\<lambda>v.
     if v = None then ret (s, n)
     else
       bnd (delete_key ops (ent_key key i)) (\<lambda>_.
       ret (s\<lparr>st_m := (st_m s)\<lparr>mt_len := mt_len (st_m s) - 1\<rparr>,
              st_maxdel := (if i > st_maxdel s then i else st_maxdel s)\<rparr>, n + 1))))"

definition xdel_cmd :: "'s store_ops \<Rightarrow> string \<Rightarrow> bytes list \<Rightarrow> ('s, resp) cmd" where
  "xdel_cmd ops name a =
     bnd (need name (length a \<ge> 2)) (\<lambda>_.
     bnd (load_stream ops (a ! 0)) (\<lambda>so.
     case so of
       None \<Rightarrow> ret (int_reply 0)
     | Some s \<Rightarrow>
         bnd (strict_ids (tl a)) (\<lambda>ids.
         bnd (each_of (xdel_step ops (a ! 0)) ids (s, 0)) (\<lambda>(s, n).
         bnd (if n > 0 then bnd (save_stream ops (a ! 0) s) (\<lambda>_. ret ()) else ret ()) (\<lambda>_.
         ret (int_reply n))))))"

function xtrim_options :: "bytes list \<Rightarrow> trim_args \<Rightarrow> resp + trim_args" where
  "xtrim_options args st =
     (if args = [] then Inr st
      else case parse_trim args st of
             None \<Rightarrow> Inl (err ''syntax error'')
           | Some (Inl e) \<Rightarrow> Inl e
           | Some (Inr (st', r)) \<Rightarrow> xtrim_options r st')"
  by pat_completeness auto

termination
  by (relation "measure (\<lambda>(args, _). length args)") (auto dest: parse_trim_shorter)

declare xtrim_options.simps [simp del]

definition xtrim_cmd :: "'s store_ops \<Rightarrow> string \<Rightarrow> bytes list \<Rightarrow> ('s, resp) cmd" where
  "xtrim_cmd ops name a =
     bnd (need name (length a \<ge> 3)) (\<lambda>_.
     bnd (from_sum (xtrim_options (tl a) (None, None))) (\<lambda>st.
     bnd (from_sum (finish_trim st)) (\<lambda>spec.
     case spec of
       None \<Rightarrow> fail (err ''syntax error'')
     | Some t \<Rightarrow>
         bnd (load_stream ops (a ! 0)) (\<lambda>so.
         case so of
           None \<Rightarrow> ret (int_reply 0)
         | Some s \<Rightarrow>
             bnd (trim_stream ops (a ! 0) s t) (\<lambda>(s, removed).
             bnd (if removed > 0 then bnd (save_stream ops (a ! 0) s) (\<lambda>_. ret ()) else ret ()) (\<lambda>_.
             ret (RInt removed)))))))"

record setid_opts =
  so_added :: "64 word option"
  so_maxdel :: "sid option"

fun xsetid_options :: "bytes list \<Rightarrow> setid_opts \<Rightarrow> resp + setid_opts" where
  "xsetid_options [] so = Inr so"
| "xsetid_options [x] so = Inl (err ''syntax error'')"
| "xsetid_options (x # v # r) so =
     (let opt = upper_name x in
      if opt = ''ENTRIESADDED'' then
        (case parse_strict_i64 v of
           None \<Rightarrow> Inl not_int
         | Some e \<Rightarrow>
             if sint e < 0 then Inl (err ''entries_added must be positive'')
             else xsetid_options r (so\<lparr>so_added := Some e\<rparr>))
      else if opt = ''MAXDELETEDID'' then
        (case parse_id v 0 of None \<Rightarrow> Inl invalid_id | Some i \<Rightarrow> xsetid_options r (so\<lparr>so_maxdel := Some i\<rparr>))
      else Inl (err ''syntax error''))"

definition xsetid_apply :: "sid \<Rightarrow> setid_opts \<Rightarrow> strm \<Rightarrow> resp + strm" where
  "xsetid_apply i so s =
     (if (case so_maxdel so of Some md \<Rightarrow> i < md | None \<Rightarrow> False)
        then Inl (err ''The ID specified in XSETID is smaller than the provided max_deleted_entry_id'')
      else if (case so_added so of Some e \<Rightarrow> e < mt_len (st_m s) | None \<Rightarrow> False)
        then Inl (err ''The entries_added specified in XSETID is smaller than the target stream length'')
      else if mt_len (st_m s) > 0 \<and> i < st_last s
        then Inl (err ''The ID specified in XSETID is smaller than the target stream top item'')
      else Inr (s\<lparr>st_last := i,
                 st_added := (case so_added so of Some e \<Rightarrow> e | None \<Rightarrow> st_added s),
                 st_maxdel := (case so_maxdel so of Some md \<Rightarrow> md | None \<Rightarrow> st_maxdel s)\<rparr>))"

definition xsetid_cmd :: "'s store_ops \<Rightarrow> string \<Rightarrow> bytes list \<Rightarrow> ('s, resp) cmd" where
  "xsetid_cmd ops name a =
     bnd (need name (length a \<ge> 2)) (\<lambda>_.
     bnd (strict_id (a ! 1)) (\<lambda>i.
     bnd (from_sum (xsetid_options (drop 2 a) \<lparr>so_added = None, so_maxdel = None\<rparr>)) (\<lambda>so.
     bnd (load_stream ops (a ! 0)) (\<lambda>st.
     case st of
       None \<Rightarrow> fail (err ''no such key'')
     | Some s \<Rightarrow>
         bnd (from_sum (xsetid_apply i so s)) (\<lambda>s.
         bnd (save_stream ops (a ! 0) s) (\<lambda>_. ret ok_reply))))))"

section \<open>Ids grow\<close>

lemma choose_id_above: "choose_id now last_id req = Some i \<Longrightarrow> last_id < i"
  using next_id_least(1) [of last_id i i] word_succ_le [of "snd last_id" "snd last_id + 1"]
  by (cases last_id; cases i)
    (auto simp: choose_id_def less_prod_def' less_eq_prod_def split: option.splits if_splits)

end
