(* ===== verification/Ks_Groups.thy ===== *)
theory Ks_Groups
  imports Ks_Stream
begin

text \<open>
  Consumer groups (\<open>crates/server/src/keyspace/stream.rs\<close>): the group, pending and consumer
  records, the lag bookkeeping, XREAD and XREADGROUP, XPENDING, XCLAIM, XAUTOCLAIM, XGROUP, XINFO,
  and the dispatcher of the stream commands.
\<close>

section \<open>Records\<close>

definition group_key :: "key \<Rightarrow> bytes \<Rightarrow> key" where "group_key key g = ekey key SUB_XGRP g"

definition pel_base :: "key \<Rightarrow> bytes \<Rightarrow> key" where "pel_base key g = ekey key SUB_XPEL (group_part g)"

definition pel_key :: "key \<Rightarrow> bytes \<Rightarrow> sid \<Rightarrow> key" where
  "pel_key key g i = ekey key SUB_XPEL (group_part g @ id_bytes i)"

definition con_base :: "key \<Rightarrow> bytes \<Rightarrow> key" where "con_base key g = ekey key SUB_XCON (group_part g)"

definition con_key :: "key \<Rightarrow> bytes \<Rightarrow> bytes \<Rightarrow> key" where
  "con_key key g name = ekey key SUB_XCON (group_part g @ name)"

definition load_group :: "'s store_ops \<Rightarrow> key \<Rightarrow> bytes \<Rightarrow> ('s, group option) cmd" where
  "load_group ops key g =
     bnd (get_key ops (group_key key g)) (\<lambda>v. ret (map_option (\<lambda>v. group_dec (bytes_of v)) v))"

definition save_group :: "'s store_ops \<Rightarrow> key \<Rightarrow> bytes \<Rightarrow> group \<Rightarrow> ('s, unit) cmd" where
  "save_group ops key g gr = put_key ops (group_key key g) (VBytes (group_enc gr))"

definition groups :: "'s store_ops \<Rightarrow> key \<Rightarrow> ('s, (bytes \<times> group) list) cmd" where
  "groups ops key =
     bnd (elements ops key SUB_XGRP) (\<lambda>es. ret (map (\<lambda>(name, v). (name, group_dec (bytes_of v))) es))"

definition load_pel :: "'s store_ops \<Rightarrow> key \<Rightarrow> bytes \<Rightarrow> sid \<Rightarrow> ('s, pel option) cmd" where
  "load_pel ops key g i =
     bnd (get_key ops (pel_key key g i)) (\<lambda>v. ret (map_option (\<lambda>v. pel_dec (bytes_of v)) v))"

definition put_pel :: "'s store_ops \<Rightarrow> key \<Rightarrow> bytes \<Rightarrow> sid \<Rightarrow> pel \<Rightarrow> ('s, unit) cmd" where
  "put_pel ops key g i p = put_key ops (pel_key key g i) (VBytes (pel_enc p))"

definition pel_visit :: "key \<Rightarrow> bytes \<Rightarrow> nat \<Rightarrow> (pel \<Rightarrow> bool) \<Rightarrow> (sid \<times> pel) list \<Rightarrow> key \<Rightarrow> val \<Rightarrow> (sid \<times> pel) list \<times> bool" where
  "pel_visit key g count keep = (\<lambda>out k v.
     let p = pel_dec (bytes_of v);
         out = (if keep p then out @ [(id_from (drop (length (pel_base key g)) k), p)] else out)
     in (out, count = 0 \<or> length out < count))"

definition pel_range :: "'s store_ops \<Rightarrow> key \<Rightarrow> bytes \<Rightarrow> sid \<Rightarrow> sid \<Rightarrow> nat \<Rightarrow> (pel \<Rightarrow> bool) \<Rightarrow> ('s, (sid \<times> pel) list) cmd" where
  "pel_range ops key g lo hi count keep =
     (if lo > hi then ret []
      else each ops (pel_base key g) (pel_key key g lo) (pel_key key g hi @ [0]) False (pel_visit key g count keep) [])"

definition load_con :: "'s store_ops \<Rightarrow> key \<Rightarrow> bytes \<Rightarrow> bytes \<Rightarrow> ('s, (64 word \<times> i64) option) cmd" where
  "load_con ops key g name =
     bnd (get_key ops (con_key key g name)) (\<lambda>v. ret (map_option (\<lambda>v. con_dec (bytes_of v)) v))"

definition save_con :: "'s store_ops \<Rightarrow> key \<Rightarrow> bytes \<Rightarrow> bytes \<Rightarrow> 64 word \<Rightarrow> i64 \<Rightarrow> ('s, unit) cmd" where
  "save_con ops key g name seen active = put_key ops (con_key key g name) (VBytes (con_enc seen active))"

definition touch_con :: "'s store_ops \<Rightarrow> key \<Rightarrow> bytes \<Rightarrow> bytes \<Rightarrow> bool \<Rightarrow> ('s, bool) cmd" where
  "touch_con ops key g name active =
     bnd (load_con ops key g name) (\<lambda>cur.
     bnd now_cmd (\<lambda>now.
     bnd (save_con ops key g name (of_nat now)
            (if active then of_nat now else (case cur of None \<Rightarrow> - 1 | Some (_, act) \<Rightarrow> act))) (\<lambda>_.
     ret (cur = None))))"

text \<open>The bound \<open>start @ [255, 255]\<close> ends both prefix reads.\<close>

definition consumers :: "'s store_ops \<Rightarrow> key \<Rightarrow> bytes \<Rightarrow> ('s, (bytes \<times> 64 word \<times> i64) list) cmd" where
  "consumers ops key g =
     (let base = con_base key g
      in each ops base base (base @ [255, 255]) False
           (\<lambda>out k v. (out @ [(drop (length base) k, con_dec (bytes_of v))], True)) [])"

definition delete_prefix :: "'s store_ops \<Rightarrow> key \<Rightarrow> ('s, unit) cmd" where
  "delete_prefix ops start =
     bnd (scan_keys ops start start (start @ [255, 255]) u64_max False) (\<lambda>kvs.
     each_of (\<lambda>_ (k, _). delete_key ops k) kvs ())"

definition quoted :: "bytes \<Rightarrow> string" where
  "quoted b = [CHR 0x27] @ from_utf8_lossy b @ [CHR 0x27]"

definition nogroup :: "key \<Rightarrow> bytes \<Rightarrow> resp" where
  "nogroup key g = err (''NOGROUP No such key '' @ quoted key @ '' or consumer group '' @ quoted g)"

definition no_such_group :: "key \<Rightarrow> bytes \<Rightarrow> resp" where
  "no_such_group key g = err (''NOGROUP No such consumer group '' @ quoted g @ '' for key name '' @ quoted key)"

definition need_key :: resp where
  "need_key = err (''The XGROUP subcommand requires the key to exist. Note that for CREATE you may want to use ''
     @ ''the MKSTREAM option to create an empty stream automatically.'')"

definition has_group :: "'s store_ops \<Rightarrow> key \<Rightarrow> bytes \<Rightarrow> ('s, bool) cmd" where
  "has_group ops key g =
     bnd (load_stream ops key) (\<lambda>so.
     if so = None then ret False else bnd (load_group ops key g) (\<lambda>gr. ret (gr \<noteq> None)))"

section \<open>Entries read and lag\<close>

definition has_tombstones :: "'s store_ops \<Rightarrow> key \<Rightarrow> strm \<Rightarrow> sid \<Rightarrow> ('s, bool) cmd" where
  "has_tombstones ops key s start =
     (if mt_len (st_m s) = 0 \<or> st_maxdel s = ID_MIN then ret False
      else
        bnd (first_id ops key) (\<lambda>f.
        ret (if (case f of Some f \<Rightarrow> f > st_maxdel s | None \<Rightarrow> False) then False else start \<le> st_maxdel s)))"

definition estimate_read :: "'s store_ops \<Rightarrow> key \<Rightarrow> strm \<Rightarrow> sid \<Rightarrow> ('s, i64) cmd" where
  "estimate_read ops key s i =
     (let len = mt_len (st_m s) in
      if st_added s = 0 then ret 0
      else if len = 0 \<and> i \<le> st_last s then ret (st_added s)
      else if i = st_last s then ret (st_added s)
      else if i > st_last s then ret (- 1)
      else
        bnd (first_id ops key) (\<lambda>f.
        let first = (case f of Some f \<Rightarrow> f | None \<Rightarrow> ID_MAX) in
        ret (if st_maxdel s = ID_MIN \<or> st_maxdel s < first then
               if i < first then st_added s - len
               else if i = first then st_added s - len + 1
               else - 1
             else - 1)))"

definition lag :: "'s store_ops \<Rightarrow> key \<Rightarrow> strm \<Rightarrow> group \<Rightarrow> ('s, resp) cmd" where
  "lag ops key s gr =
     (if st_added s = 0 then ret (int_reply 0)
      else
        bnd (if gr_read gr \<noteq> - 1 then has_tombstones ops key s (gr_last gr) else ret True) (\<lambda>tomb.
        if \<not> tomb then ret (RInt (st_added s - gr_read gr))
        else
          bnd (estimate_read ops key s (gr_last gr)) (\<lambda>r.
          ret (if r = - 1 then RNil else RInt (st_added s - r)))))"

section \<open>XREAD and XREADGROUP\<close>

text \<open>The options up to \<open>STREAMS\<close>: the count, \<open>NOACK\<close>, and what follows.\<close>

fun xread_options :: "bool \<Rightarrow> nat \<Rightarrow> bool \<Rightarrow> bytes list \<Rightarrow> resp + nat \<times> bool \<times> bytes list" where
  "xread_options grouped count noack [] = Inl (err ''syntax error'')"
| "xread_options grouped count noack (x # r) =
     (let opt = upper_name x in
      if opt = ''COUNT'' then
        (case r of
           [] \<Rightarrow> Inl not_int
         | v # r' \<Rightarrow>
             (case parse_strict_i64 v of
                None \<Rightarrow> Inl not_int
              | Some c \<Rightarrow> xread_options grouped (nat (max (sint c) 0)) noack r'))
      else if opt = ''BLOCK'' then
        (case r of
           [] \<Rightarrow> Inl (err ''timeout is not an integer or out of range'')
         | v # r' \<Rightarrow>
             (case parse_strict_i64 v of
                None \<Rightarrow> Inl (err ''timeout is not an integer or out of range'')
              | Some b \<Rightarrow>
                  if sint b < 0 then Inl (err ''timeout is negative'') else xread_options grouped count noack r'))
      else if opt = ''NOACK'' \<and> grouped then xread_options grouped count True r
      else if opt = ''STREAMS'' then Inr (count, noack, r)
      else Inl (err ''syntax error''))"

datatype xstart = After sid | NewEntries

definition unbalanced :: "bool \<Rightarrow> resp" where
  "unbalanced grouped =
     err (''Unbalanced '' @ [CHR 0x27] @ (if grouped then ''xreadgroup'' else ''xread'') @ [CHR 0x27]
       @ '' list of streams: for each stream key an ID''
       @ (if grouped then '' or '' @ [CHR 0x27] @ ''>'' @ [CHR 0x27] else '' or '' @ [CHR 0x27] @ ''$'' @ [CHR 0x27])
       @ '' must be specified.'')"

definition only_grouped :: resp where
  "only_grouped =
     err (''The > ID can be specified only when calling XREADGROUP using the GROUP <group> <consumer> option.'')"

definition dollar_grouped :: resp where
  "dollar_grouped =
     err (''The $ ID is meaningless in the context of XREADGROUP: you want to read the history of this ''
       @ ''consumer by specifying a proper ID, or use the > ID to get new messages. The $ ID would just ''
       @ ''return an empty result set.'')"

definition start_of :: "'s store_ops \<Rightarrow> (bytes \<times> bytes) option \<Rightarrow> key \<Rightarrow> bytes \<Rightarrow> ('s, xstart) cmd" where
  "start_of ops grp k idv =
     bnd (case grp of
            Some (g, _) \<Rightarrow>
              bnd (has_group ops k g) (\<lambda>ok.
              if ok then ret ()
              else fail (err (''NOGROUP No such key '' @ quoted k @ '' or consumer group '' @ quoted g
                          @ '' in XREADGROUP with GROUP option'')))
          | None \<Rightarrow> bnd (load_stream ops k) (\<lambda>_. ret ())) (\<lambda>_.
     if idv = [62] then (if grp = None then fail only_grouped else ret NewEntries)
     else if idv = [36] then
       if grp \<noteq> None then fail dollar_grouped
       else bnd (load_stream ops k) (\<lambda>so. ret (After (case so of None \<Rightarrow> ID_MIN | Some s \<Rightarrow> st_last s)))
     else if idv = [43] \<and> grp = None then
       bnd (load_stream ops k) (\<lambda>_.
       bnd (stream_range ops k ID_MIN ID_MAX True 1) (\<lambda>es.
       ret (case es of
              (i, _) # _ \<Rightarrow> (case prev_id i of None \<Rightarrow> After ID_MIN | Some p \<Rightarrow> After p)
            | [] \<Rightarrow> After ID_MAX)))
     else bnd (strict_id idv) (\<lambda>i. ret (After i)))"

definition stream_reply :: "key \<Rightarrow> resp \<Rightarrow> resp" where
  "stream_reply k r = RArray [RBulk k, r]"

definition read_after :: "'s store_ops \<Rightarrow> key \<Rightarrow> nat \<Rightarrow> sid \<Rightarrow> ('s, resp list) cmd" where
  "read_after ops k count after =
     (case next_id after of
        None \<Rightarrow> ret []
      | Some lo \<Rightarrow>
          bnd (stream_range ops k lo ID_MAX False count) (\<lambda>es.
          ret (if es = [] then [] else [stream_reply k (entries_reply es)])))"

definition deliver :: "'s store_ops \<Rightarrow> key \<Rightarrow> bytes \<Rightarrow> bytes \<Rightarrow> bool \<Rightarrow> strm \<Rightarrow> group \<Rightarrow> sid \<times> bytes list \<Rightarrow> ('s, group) cmd" where
  "deliver ops k g c noack s = (\<lambda>gr (i, _).
     let gr = gr\<lparr>gr_last := i\<rparr> in
     bnd (if gr_read gr \<noteq> - 1 then has_tombstones ops k s i else ret True) (\<lambda>tomb.
     bnd (if \<not> tomb then ret (gr\<lparr>gr_read := gr_read gr + 1\<rparr>)
          else if st_added s > 0 then bnd (estimate_read ops k s i) (\<lambda>r. ret (gr\<lparr>gr_read := r\<rparr>))
          else ret gr) (\<lambda>gr.
     bnd now_cmd (\<lambda>now.
     bnd (if noack then ret () else put_pel ops k g i \<lparr>pl_time = of_nat now, pl_count = 1, pl_owner = c\<rparr>) (\<lambda>_.
     ret gr)))))"

text \<open>The group was checked to exist before any stream is read, so its record is there.\<close>

definition read_new :: "'s store_ops \<Rightarrow> key \<Rightarrow> bytes \<Rightarrow> bytes \<Rightarrow> bool \<Rightarrow> nat \<Rightarrow> strm \<Rightarrow> ('s, resp list) cmd" where
  "read_new ops k g c noack count s =
     bnd (load_group ops k g) (\<lambda>go.
     bnd (ok_or go (nogroup k g)) (\<lambda>gr.
     bnd (case next_id (gr_last gr) of
            Some lo \<Rightarrow> stream_range ops k lo ID_MAX False count
          | None \<Rightarrow> ret []) (\<lambda>es.
     bnd (touch_con ops k g c (es \<noteq> [])) (\<lambda>_.
     if es = [] then ret []
     else
       bnd (each_of (deliver ops k g c noack s) es gr) (\<lambda>gr.
       bnd (save_group ops k g gr) (\<lambda>_.
       bnd (save_stream ops k s) (\<lambda>_.
       ret [stream_reply k (entries_reply es)])))))))"

definition redeliver :: "'s store_ops \<Rightarrow> key \<Rightarrow> bytes \<Rightarrow> resp list \<Rightarrow> sid \<times> pel \<Rightarrow> ('s, resp list) cmd" where
  "redeliver ops k g = (\<lambda>out (i, p).
     bnd now_cmd (\<lambda>now.
     bnd (put_pel ops k g i (p\<lparr>pl_time := of_nat now, pl_count := pl_count p + 1\<rparr>)) (\<lambda>_.
     bnd (stream_entry ops k i) (\<lambda>f.
     ret (out @ [case f of Some f \<Rightarrow> entry_resp i f | None \<Rightarrow> RArray [id_resp i, RNilArray]])))))"

definition read_history :: "'s store_ops \<Rightarrow> key \<Rightarrow> bytes \<Rightarrow> bytes \<Rightarrow> nat \<Rightarrow> sid \<Rightarrow> ('s, resp list) cmd" where
  "read_history ops k g c count after =
     bnd (touch_con ops k g c False) (\<lambda>_.
     case next_id after of
       None \<Rightarrow> ret [stream_reply k (RArray [])]
     | Some lo \<Rightarrow>
         bnd (pel_range ops k g lo ID_MAX count (\<lambda>p. pl_owner p = c)) (\<lambda>pend.
         bnd (each_of (redeliver ops k g) pend []) (\<lambda>es. ret [stream_reply k (RArray es)])))"

definition read_stream :: "'s store_ops \<Rightarrow> (bytes \<times> bytes) option \<Rightarrow> nat \<Rightarrow> bool \<Rightarrow> key \<times> xstart \<Rightarrow> ('s, resp list) cmd" where
  "read_stream ops grp count noack = (\<lambda>(k, st).
     bnd (load_stream ops k) (\<lambda>so.
     case so of
       None \<Rightarrow> ret []
     | Some s \<Rightarrow>
         (case (grp, st) of
            (None, After i) \<Rightarrow> read_after ops k count i
          | (Some (g, c), NewEntries) \<Rightarrow> read_new ops k g c noack count s
          | (Some (g, c), After i) \<Rightarrow> read_history ops k g c count i
          | (None, NewEntries) \<Rightarrow> ret [])))"

definition xread :: "'s store_ops \<Rightarrow> (bytes \<times> bytes) option \<Rightarrow> bytes list \<Rightarrow> ('s, resp) cmd" where
  "xread ops grp a =
     bnd (from_sum (xread_options (grp \<noteq> None) 0 False a)) (\<lambda>(count, noack, r).
     if r = [] \<or> odd (length r) then fail (unbalanced (grp \<noteq> None))
     else
       let half = length r div 2; keys = take half r; ids = drop half r in
       bnd (each_of (\<lambda>out (k, i). bnd (start_of ops grp k i) (\<lambda>st. ret (out @ [(k, st)]))) (zip keys ids) []) (\<lambda>starts.
       bnd (each_of (\<lambda>out ks. bnd (read_stream ops grp count noack ks) (\<lambda>rs. ret (out @ rs))) starts []) (\<lambda>out.
       ret (if out = [] then RNilArray else RArray out))))"

definition xread_cmd :: "'s store_ops \<Rightarrow> string \<Rightarrow> bytes list \<Rightarrow> ('s, resp) cmd" where
  "xread_cmd ops name a = bnd (need name (length a \<ge> 3)) (\<lambda>_. xread ops None a)"

definition xreadgroup_cmd :: "'s store_ops \<Rightarrow> string \<Rightarrow> bytes list \<Rightarrow> ('s, resp) cmd" where
  "xreadgroup_cmd ops name a =
     bnd (need name (length a \<ge> 6)) (\<lambda>_.
     if \<not> eq_ignore_ascii_case (a ! 0) (as_bytes ''GROUP'') then fail (err ''syntax error'')
     else xread ops (Some (a ! 1, a ! 2)) (drop 3 a))"

section \<open>XACK and XPENDING\<close>

definition xack_cmd :: "'s store_ops \<Rightarrow> string \<Rightarrow> bytes list \<Rightarrow> ('s, resp) cmd" where
  "xack_cmd ops name a =
     bnd (need name (length a \<ge> 3)) (\<lambda>_.
     bnd (has_group ops (a ! 0) (a ! 1)) (\<lambda>ok.
     if \<not> ok then ret (int_reply 0)
     else
       bnd (strict_ids (drop 2 a)) (\<lambda>ids.
       bnd (each_of (\<lambda>n i.
              bnd (get_key ops (pel_key (a ! 0) (a ! 1) i)) (\<lambda>v.
              if v = None then ret n
              else bnd (delete_key ops (pel_key (a ! 0) (a ! 1) i)) (\<lambda>_. ret (n + 1)))) ids 0) (\<lambda>n.
       ret (int_reply n)))))"

record xpending_args =
  xp_idle :: "64 word"
  xp_lo :: sid
  xp_hi :: sid
  xp_cnt :: i64
  xp_who :: "bytes option"

definition xpending_ext :: "bytes list \<Rightarrow> ('s, xpending_args) cmd" where
  "xpending_ext args =
     bnd (if eq_ignore_ascii_case (hd args) (as_bytes ''IDLE'') then
            bnd (ok_or (if length args > 1 then parse_strict_i64 (args ! 1) else None) not_int) (\<lambda>v.
            ret (if sint v < 0 then 0 else v, drop 2 args))
          else ret (0, args)) (\<lambda>(idle, r).
     if length r \<noteq> 3 \<and> length r \<noteq> 4 then fail (err ''syntax error'')
     else
       bnd (range_start (r ! 0)) (\<lambda>lo.
       bnd (range_end (r ! 1)) (\<lambda>hi.
       bnd (ok_or (parse_strict_i64 (r ! 2)) not_int) (\<lambda>cnt.
       ret \<lparr>xp_idle = idle, xp_lo = lo, xp_hi = hi, xp_cnt = cnt,
            xp_who = (if length r > 3 then Some (r ! 3) else None)\<rparr>))))"

definition pending_summary :: "(sid \<times> pel) list \<Rightarrow> resp" where
  "pending_summary all =
     (if all = [] then RArray [int_reply 0, RNil, RNil, RNilArray]
      else
        let owners = map (\<lambda>(_, p). pl_owner p) all
        in RArray [int_reply (int (length all)), id_resp (fst (hd all)), id_resp (fst (last all)),
             RArray (map (\<lambda>w. RArray [RBulk w, RBulk (show_nat (length (filter (\<lambda>x. x = w) owners)))])
                       (sort (remdups owners)))])"

definition xpending_cmd :: "'s store_ops \<Rightarrow> string \<Rightarrow> bytes list \<Rightarrow> ('s, resp) cmd" where
  "xpending_cmd ops name a =
     bnd (if length a < 2 then fail (wrong_args ''XPENDING'') else ret ()) (\<lambda>_.
     bnd (if length a > 2 then bnd (xpending_ext (drop 2 a)) (\<lambda>x. ret (Some x)) else ret None) (\<lambda>ext.
     bnd (has_group ops (a ! 0) (a ! 1)) (\<lambda>ok.
     if \<not> ok then fail (nogroup (a ! 0) (a ! 1))
     else
       case ext of
         None \<Rightarrow>
           bnd (pel_range ops (a ! 0) (a ! 1) ID_MIN ID_MAX 0 (\<lambda>_. True)) (\<lambda>all. ret (pending_summary all))
       | Some x \<Rightarrow>
           if sint (xp_cnt x) \<le> 0 then ret (RArray [])
           else
             bnd now_cmd (\<lambda>now.
             bnd (pel_range ops (a ! 0) (a ! 1) (xp_lo x) (xp_hi x) (unat (xp_cnt x))
                    (\<lambda>p. (case xp_who x of None \<Rightarrow> True | Some w \<Rightarrow> w = pl_owner p)
                        \<and> xp_idle x \<le> sat_sub (of_nat now) (pl_time p))) (\<lambda>got.
             ret (RArray (map (\<lambda>(i, p). RArray [id_resp i, RBulk (pl_owner p),
                                RInt (sat_sub (of_nat now) (pl_time p)), RInt (pl_count p)]) got)))))))"

section \<open>XCLAIM and XAUTOCLAIM\<close>

record xclaim_opts =
  xc_time :: "64 word option"
  xc_retry :: "64 word option"
  xc_force :: bool
  xc_justid :: bool
  xc_lastid :: "sid option"

definition non_negative :: "i64 \<Rightarrow> 64 word" where
  "non_negative v = (if sint v < 0 then 0 else v)"

fun xclaim_options :: "64 word \<Rightarrow> bytes list \<Rightarrow> xclaim_opts \<Rightarrow> resp + xclaim_opts" where
  "xclaim_options now [] xc = Inr xc"
| "xclaim_options now (x # r) xc =
     (let opt = upper_name x in
      if opt = ''FORCE'' then xclaim_options now r (xc\<lparr>xc_force := True\<rparr>)
      else if opt = ''JUSTID'' then xclaim_options now r (xc\<lparr>xc_justid := True\<rparr>)
      else if opt \<in> set [''IDLE'', ''TIME'', ''RETRYCOUNT'', ''LASTID''] then
        (case r of
           [] \<Rightarrow> Inl (err ''syntax error'')
         | v # r' \<Rightarrow>
             if opt = ''LASTID'' then
               (case parse_id v 0 of
                  None \<Rightarrow> Inl invalid_id
                | Some i \<Rightarrow> xclaim_options now r' (xc\<lparr>xc_lastid := Some i\<rparr>))
             else
               (case parse_strict_i64 v of
                  None \<Rightarrow> Inl (err (''Invalid '' @ opt @ '' option argument for XCLAIM''))
                | Some n \<Rightarrow>
                    xclaim_options now r'
                      (if opt = ''IDLE'' then xc\<lparr>xc_time := Some (sat_sub now (non_negative n))\<rparr>
                       else if opt = ''TIME'' then xc\<lparr>xc_time := Some (non_negative n)\<rparr>
                       else xc\<lparr>xc_retry := Some (non_negative n)\<rparr>)))
      else Inl (err (''Unrecognized XCLAIM option '' @ quoted x)))"

definition xclaim_no_options :: xclaim_opts where
  "xclaim_no_options = \<lparr>xc_time = None, xc_retry = None, xc_force = False, xc_justid = False, xc_lastid = None\<rparr>"

text \<open>The record a claim starts from: the pending one, or with \<open>FORCE\<close> a new one.\<close>

definition claim_from :: "xclaim_opts \<Rightarrow> bytes \<Rightarrow> 64 word \<Rightarrow> bool \<Rightarrow> pel option \<Rightarrow> pel option" where
  "claim_from xc c now present po =
     (case po of
        Some p \<Rightarrow> Some p
      | None \<Rightarrow> if xc_force xc \<and> present then Some \<lparr>pl_time = now, pl_count = 0, pl_owner = c\<rparr> else None)"

definition claimed_pel :: "xclaim_opts \<Rightarrow> bytes \<Rightarrow> 64 word \<Rightarrow> pel \<Rightarrow> pel" where
  "claimed_pel xc c now p =
     p\<lparr>pl_owner := c, pl_time := (case xc_time xc of Some t \<Rightarrow> t | None \<Rightarrow> now),
       pl_count := (case xc_retry xc of Some r \<Rightarrow> r | None \<Rightarrow> if xc_justid xc then pl_count p else pl_count p + 1)\<rparr>"

definition claim_reply :: "bool \<Rightarrow> sid \<Rightarrow> bytes list \<Rightarrow> resp" where
  "claim_reply justid i f = (if justid then id_resp i else entry_resp i f)"

definition xclaim_step :: "'s store_ops \<Rightarrow> key \<Rightarrow> bytes \<Rightarrow> bytes \<Rightarrow> 64 word \<Rightarrow> xclaim_opts \<Rightarrow> 64 word \<Rightarrow> resp list \<Rightarrow> sid \<Rightarrow> ('s, resp list) cmd" where
  "xclaim_step ops key g c min_idle xc now = (\<lambda>out i.
     bnd (stream_entry ops key i) (\<lambda>f.
     bnd (load_pel ops key g i) (\<lambda>po.
     case claim_from xc c now (f \<noteq> None) po of
       None \<Rightarrow> ret out
     | Some p \<Rightarrow>
         (case f of
            None \<Rightarrow> bnd (delete_key ops (pel_key key g i)) (\<lambda>_. ret out)
          | Some f \<Rightarrow>
              if min_idle > 0 \<and> sat_sub now (pl_time p) < min_idle then ret out
              else
                bnd (put_pel ops key g i (claimed_pel xc c now p)) (\<lambda>_.
                ret (out @ [claim_reply (xc_justid xc) i f]))))))"

definition xclaim_cmd :: "'s store_ops \<Rightarrow> string \<Rightarrow> bytes list \<Rightarrow> ('s, resp) cmd" where
  "xclaim_cmd ops name a =
     bnd (if length a < 5 then fail (wrong_args ''XCLAIM'') else ret ()) (\<lambda>_.
     let key = a ! 0; g = a ! 1; c = a ! 2 in
     bnd (has_group ops key g) (\<lambda>ok.
     bnd (if \<not> ok then fail (nogroup key g) else ret ()) (\<lambda>_.
     bnd (ok_or (parse_strict_i64 (a ! 3)) (err ''Invalid min-idle-time argument for XCLAIM'')) (\<lambda>mi.
     bnd now_cmd (\<lambda>now.
     let ids = map (\<lambda>x. the (parse_id x 0)) (takeWhile (\<lambda>x. parse_id x 0 \<noteq> None) (drop 4 a));
         r = dropWhile (\<lambda>x. parse_id x 0 \<noteq> None) (drop 4 a) in
     bnd (from_sum (xclaim_options (of_nat now) r xclaim_no_options)) (\<lambda>xc.
     bnd (load_group ops key g) (\<lambda>go.
     bnd (ok_or go (nogroup key g)) (\<lambda>gr.
     bnd (case xc_lastid xc of
            Some l \<Rightarrow> if l > gr_last gr then save_group ops key g (gr\<lparr>gr_last := l\<rparr>) else ret ()
          | None \<Rightarrow> ret ()) (\<lambda>_.
     bnd (each_of (xclaim_step ops key g c (non_negative mi) xc (of_nat now)) ids []) (\<lambda>out.
     bnd (touch_con ops key g c (out \<noteq> [])) (\<lambda>_. ret (RArray out))))))))))))"

fun xautoclaim_options :: "bytes list \<Rightarrow> nat \<Rightarrow> bool \<Rightarrow> resp + nat \<times> bool" where
  "xautoclaim_options [] count justid = Inr (count, justid)"
| "xautoclaim_options (x # r) count justid =
     (let opt = upper_name x in
      if opt = ''COUNT'' then
        (case r of
           [] \<Rightarrow> Inl not_int
         | v # r' \<Rightarrow>
             (case parse_strict_i64 v of
                None \<Rightarrow> Inl not_int
              | Some n \<Rightarrow>
                  if sint n < 1 \<or> sint n > (2 ^ 63 - 1) div 10 then Inl (err ''COUNT must be > 0'')
                  else xautoclaim_options r' (unat n) justid))
      else if opt = ''JUSTID'' then xautoclaim_options r count True
      else Inl (err ''syntax error''))"

fun autoclaim_loop :: "'s store_ops \<Rightarrow> key \<Rightarrow> bytes \<Rightarrow> bytes \<Rightarrow> 64 word \<Rightarrow> bool \<Rightarrow> nat \<Rightarrow> 64 word
    \<Rightarrow> (sid \<times> pel) list \<Rightarrow> nat \<Rightarrow> resp list \<Rightarrow> resp list \<Rightarrow> ('s, sid \<times> resp list \<times> resp list) cmd" where
  "autoclaim_loop ops key g c min_idle justid count now [] attempts claimed deleted = ret (ID_MIN, claimed, deleted)"
| "autoclaim_loop ops key g c min_idle justid count now ((i, p) # r) attempts claimed deleted =
     (if length claimed \<ge> count \<or> attempts = 0 then ret (i, claimed, deleted)
      else
        bnd (stream_entry ops key i) (\<lambda>f.
        case f of
          None \<Rightarrow>
            bnd (delete_key ops (pel_key key g i)) (\<lambda>_.
            autoclaim_loop ops key g c min_idle justid count now r (attempts - 1) claimed (deleted @ [id_resp i]))
        | Some f \<Rightarrow>
            if sat_sub now (pl_time p) < min_idle
              then autoclaim_loop ops key g c min_idle justid count now r (attempts - 1) claimed deleted
            else
              bnd (put_pel ops key g i
                     (p\<lparr>pl_owner := c, pl_time := now, pl_count := (if justid then pl_count p else pl_count p + 1)\<rparr>)) (\<lambda>_.
              autoclaim_loop ops key g c min_idle justid count now r (attempts - 1) (claimed @ [claim_reply justid i f]) deleted)))"

definition xautoclaim_cmd :: "'s store_ops \<Rightarrow> string \<Rightarrow> bytes list \<Rightarrow> ('s, resp) cmd" where
  "xautoclaim_cmd ops name a =
     bnd (if length a < 5 then fail (wrong_args ''XAUTOCLAIM'') else ret ()) (\<lambda>_.
     let key = a ! 0; g = a ! 1; c = a ! 2 in
     bnd (load_stream ops key) (\<lambda>_.
     bnd (ok_or (parse_strict_i64 (a ! 3)) (err ''Invalid min-idle-time argument for XAUTOCLAIM'')) (\<lambda>mi.
     bnd (range_start (a ! 4)) (\<lambda>start.
     bnd (from_sum (xautoclaim_options (drop 5 a) 100 False)) (\<lambda>(count, justid).
     bnd (has_group ops key g) (\<lambda>ok.
     bnd (if \<not> ok then fail (nogroup key g) else ret ()) (\<lambda>_.
     bnd (pel_range ops key g start ID_MAX (count * 10 + 1) (\<lambda>_. True)) (\<lambda>pend.
     bnd now_cmd (\<lambda>now.
     bnd (autoclaim_loop ops key g c (non_negative mi) justid count (of_nat now) pend (count * 10) [] []) (\<lambda>(nxt, claimed, deleted).
     bnd (touch_con ops key g c (claimed \<noteq> [])) (\<lambda>_.
     ret (RArray [id_resp nxt, RArray claimed, RArray deleted]))))))))))))"

section \<open>XGROUP\<close>

definition parse_entries_read :: "bytes list \<Rightarrow> resp + i64 option" where
  "parse_entries_read args =
     (case args of
        [] \<Rightarrow> Inr None
      | x # r \<Rightarrow>
          if eq_ignore_ascii_case x (as_bytes ''ENTRIESREAD'') then
            (case (if r = [] then None else parse_strict_i64 (hd r)) of
               None \<Rightarrow> Inl not_int
             | Some v \<Rightarrow>
                 if sint v < - 1 then Inl (err ''value for ENTRIESREAD must be positive or -1'') else Inr (Some v))
          else Inl (err ''syntax error''))"

function xgroup_create_options :: "bytes list \<Rightarrow> bool \<Rightarrow> i64 option \<Rightarrow> resp + bool \<times> i64 option" where
  "xgroup_create_options args mk rd =
     (if args = [] then Inr (mk, rd)
      else if eq_ignore_ascii_case (hd args) (as_bytes ''MKSTREAM'') then xgroup_create_options (tl args) True rd
      else case parse_entries_read args of
             Inl e \<Rightarrow> Inl e
           | Inr rd \<Rightarrow> xgroup_create_options (drop 2 args) mk rd)"
  by pat_completeness auto

termination
  by (relation "measure (\<lambda>(args, _, _). length args)") auto

declare xgroup_create_options.simps [simp del]

definition bad_subcommand :: "string \<Rightarrow> string \<Rightarrow> resp" where
  "bad_subcommand sub help =
     err (''unknown subcommand or wrong number of arguments for '' @ [CHR 0x27] @ lower_name sub @ [CHR 0x27]
       @ ''. Try '' @ help @ '' HELP.'')"

definition explicit_id :: "bytes \<Rightarrow> ('s, sid option) cmd" where
  "explicit_id a = (if a = [36] then ret None else bnd (strict_id a) (\<lambda>i. ret (Some i)))"

definition set_group :: "'s store_ops \<Rightarrow> key \<Rightarrow> bytes \<Rightarrow> strm \<Rightarrow> sid option \<Rightarrow> i64 option \<Rightarrow> ('s, unit) cmd" where
  "set_group ops key g s explicit rd =
     (let i = (case explicit of Some i \<Rightarrow> i | None \<Rightarrow> st_last s) in
      bnd (case rd of Some r \<Rightarrow> ret r | None \<Rightarrow> estimate_read ops key s i) (\<lambda>r.
      save_group ops key g \<lparr>gr_last = i, gr_read = r\<rparr>))"

definition xgroup_create :: "'s store_ops \<Rightarrow> bytes list \<Rightarrow> ('s, resp) cmd" where
  "xgroup_create ops a =
     (let key = a ! 1; g = a ! 2 in
      bnd (from_sum (xgroup_create_options (drop 4 a) False None)) (\<lambda>(mk, rd).
      bnd (explicit_id (a ! 3)) (\<lambda>explicit.
      bnd (load_stream ops key) (\<lambda>so.
      bnd (case so of
             Some s \<Rightarrow> ret s
           | None \<Rightarrow> if mk then save_stream ops key new_stream else fail need_key) (\<lambda>s.
      bnd (load_group ops key g) (\<lambda>go.
      if go \<noteq> None then fail (err ''BUSYGROUP Consumer Group name already exists'')
      else
        bnd (set_group ops key g s explicit rd) (\<lambda>_.
        bnd (save_stream ops key s) (\<lambda>_. ret ok_reply))))))))"

definition xgroup_setid :: "'s store_ops \<Rightarrow> bytes list \<Rightarrow> ('s, resp) cmd" where
  "xgroup_setid ops a =
     (let key = a ! 1; g = a ! 2 in
      bnd (explicit_id (a ! 3)) (\<lambda>explicit.
      bnd (from_sum (parse_entries_read (drop 4 a))) (\<lambda>rd.
      bnd (load_stream ops key) (\<lambda>so.
      bnd (ok_or so need_key) (\<lambda>s.
      bnd (load_group ops key g) (\<lambda>go.
      if go = None then fail (no_such_group key g)
      else bnd (set_group ops key g s explicit rd) (\<lambda>_. ret ok_reply)))))))"

definition xgroup_destroy :: "'s store_ops \<Rightarrow> bytes list \<Rightarrow> ('s, resp) cmd" where
  "xgroup_destroy ops a =
     (let key = a ! 1; g = a ! 2 in
      bnd (load_stream ops key) (\<lambda>so.
      if so = None then fail need_key
      else
        bnd (load_group ops key g) (\<lambda>go.
        if go = None then ret (int_reply 0)
        else
          bnd (delete_key ops (group_key key g)) (\<lambda>_.
          bnd (delete_prefix ops (pel_base key g)) (\<lambda>_.
          bnd (delete_prefix ops (con_base key g)) (\<lambda>_. ret (int_reply 1)))))))"

definition xgroup_consumer :: "'s store_ops \<Rightarrow> bool \<Rightarrow> bytes list \<Rightarrow> ('s, resp) cmd" where
  "xgroup_consumer ops create a =
     (let key = a ! 1; g = a ! 2; c = a ! 3 in
      bnd (load_stream ops key) (\<lambda>so.
      if so = None then fail need_key
      else
        bnd (load_group ops key g) (\<lambda>go.
        if go = None then fail (no_such_group key g)
        else
          bnd (load_con ops key g c) (\<lambda>co.
          if create then
            if co \<noteq> None then ret (int_reply 0)
            else bnd now_cmd (\<lambda>now. bnd (save_con ops key g c (of_nat now) (- 1)) (\<lambda>_. ret (int_reply 1)))
          else if co = None then ret (int_reply 0)
          else
            bnd (pel_range ops key g ID_MIN ID_MAX 0 (\<lambda>p. pl_owner p = c)) (\<lambda>pend.
            bnd (each_of (\<lambda>_ (i, _). delete_key ops (pel_key key g i)) pend ()) (\<lambda>_.
            bnd (delete_key ops (con_key key g c)) (\<lambda>_. ret (int_reply (int (length pend))))))))))"

definition xgroup_help :: "string list" where
  "xgroup_help =
     [''XGROUP <subcommand> [<arg> [value] [opt] ...]. Subcommands are:'',
      ''CREATE <key> <groupname> <id|$> [option]'',
      ''CREATECONSUMER <key> <groupname> <consumer>'',
      ''DELCONSUMER <key> <groupname> <consumer>'',
      ''DESTROY <key> <groupname>'',
      ''SETID <key> <groupname> <id|$> [ENTRIESREAD entries_read]'']"

definition xgroup_cmd :: "'s store_ops \<Rightarrow> string \<Rightarrow> bytes list \<Rightarrow> ('s, resp) cmd" where
  "xgroup_cmd ops name a =
     (if a = [] then fail (wrong_args ''XGROUP'')
      else
        let sub = upper_name (hd a); n = length a in
        if sub = ''CREATE'' then if n < 4 then fail (bad_subcommand sub ''XGROUP'') else xgroup_create ops a
        else if sub = ''SETID'' then if n < 4 then fail (bad_subcommand sub ''XGROUP'') else xgroup_setid ops a
        else if sub = ''DESTROY'' then if n \<noteq> 3 then fail (bad_subcommand sub ''XGROUP'') else xgroup_destroy ops a
        else if sub = ''CREATECONSUMER'' \<or> sub = ''DELCONSUMER'' then
          if n \<noteq> 4 then fail (bad_subcommand sub ''XGROUP'') else xgroup_consumer ops (sub = ''CREATECONSUMER'') a
        else if sub = ''HELP'' then ret (RArray (map (\<lambda>l. RSimple (as_bytes l)) xgroup_help))
        else fail (err (''unknown subcommand '' @ quoted (hd a) @ ''. Try XGROUP HELP.'')))"

section \<open>XINFO\<close>

definition label :: "string \<Rightarrow> resp" where "label x = RBulk (as_bytes x)"

definition need_stream :: "'s store_ops \<Rightarrow> key \<Rightarrow> ('s, strm) cmd" where
  "need_stream ops key = bnd (load_stream ops key) (\<lambda>so. ok_or so (err ''no such key''))"

definition nodes_of :: "64 word \<Rightarrow> 64 word" where
  "nodes_of n = of_nat ((unat n + 99) div 100)"

definition first_entry :: "(sid \<times> bytes list) list \<Rightarrow> resp" where
  "first_entry es = (case es of [] \<Rightarrow> RNil | (i, f) # _ \<Rightarrow> entry_resp i f)"

definition xinfo_stream :: "'s store_ops \<Rightarrow> key \<Rightarrow> ('s, resp) cmd" where
  "xinfo_stream ops key =
     bnd (need_stream ops key) (\<lambda>s.
     bnd (stream_range ops key ID_MIN ID_MAX False 1) (\<lambda>first.
     bnd (stream_range ops key ID_MIN ID_MAX True 1) (\<lambda>final.
     bnd (groups ops key) (\<lambda>gs.
     let len = mt_len (st_m s) in
     ret (RArray
       [label ''length'', RInt len,
        label ''radix-tree-keys'', RInt (nodes_of len),
        label ''radix-tree-nodes'', RInt (nodes_of len + 1),
        label ''last-generated-id'', id_resp (st_last s),
        label ''max-deleted-entry-id'', id_resp (st_maxdel s),
        label ''entries-added'', RInt (st_added s),
        label ''recorded-first-entry-id'', id_resp (case first of [] \<Rightarrow> ID_MIN | (i, _) # _ \<Rightarrow> i),
        label ''groups'', int_reply (int (length gs)),
        label ''first-entry'', first_entry first,
        label ''last-entry'', first_entry final])))))"

definition xinfo_group :: "'s store_ops \<Rightarrow> key \<Rightarrow> strm \<Rightarrow> bytes \<times> group \<Rightarrow> ('s, resp) cmd" where
  "xinfo_group ops key s = (\<lambda>(name, gr).
     bnd (consumers ops key name) (\<lambda>cs.
     bnd (pel_range ops key name ID_MIN ID_MAX 0 (\<lambda>_. True)) (\<lambda>pend.
     bnd (lag ops key s gr) (\<lambda>lag_reply.
     ret (RArray
       [label ''name'', RBulk name, label ''consumers'', int_reply (int (length cs)),
        label ''pending'', int_reply (int (length pend)),
        label ''last-delivered-id'', id_resp (gr_last gr),
        label ''entries-read'', if gr_read gr = - 1 then RNil else RInt (gr_read gr),
        label ''lag'', lag_reply])))))"

definition consumer_reply :: "nat \<Rightarrow> (sid \<times> pel) list \<Rightarrow> bytes \<times> 64 word \<times> i64 \<Rightarrow> resp" where
  "consumer_reply now pend = (\<lambda>(name, seen, active).
     RArray
       [label ''name'', RBulk name,
        label ''pending'', int_reply (int (length (filter (\<lambda>(_, p). pl_owner p = name) pend))),
        label ''idle'', RInt (sat_sub (of_nat now) seen),
        label ''inactive'', if sint active < 0 then int_reply (- 1) else RInt (sat_sub (of_nat now) active)])"

definition xinfo_cmd :: "'s store_ops \<Rightarrow> string \<Rightarrow> bytes list \<Rightarrow> ('s, resp) cmd" where
  "xinfo_cmd ops name a =
     (if a = [] then fail (wrong_args ''XINFO'')
      else
        let sub = upper_name (hd a) in
        if length a < 2 then fail (bad_subcommand sub ''XINFO'')
        else if sub = ''STREAM'' then
          if length a > 2 \<and> \<not> eq_ignore_ascii_case (a ! 2) (as_bytes ''FULL'') then fail (err ''syntax error'')
          else xinfo_stream ops (a ! 1)
        else if sub = ''GROUPS'' then
          if length a \<noteq> 2 then fail (bad_subcommand sub ''XINFO'')
          else
            bnd (need_stream ops (a ! 1)) (\<lambda>s.
            bnd (groups ops (a ! 1)) (\<lambda>gs.
            bnd (each_of (\<lambda>out ng. bnd (xinfo_group ops (a ! 1) s ng) (\<lambda>r. ret (out @ [r]))) gs []) (\<lambda>out.
            ret (RArray out))))
        else if sub = ''CONSUMERS'' then
          if length a \<noteq> 3 then fail (bad_subcommand sub ''XINFO'')
          else
            bnd (need_stream ops (a ! 1)) (\<lambda>_.
            bnd (load_group ops (a ! 1) (a ! 2)) (\<lambda>go.
            if go = None then fail (no_such_group (a ! 1) (a ! 2))
            else
              bnd (pel_range ops (a ! 1) (a ! 2) ID_MIN ID_MAX 0 (\<lambda>_. True)) (\<lambda>pend.
              bnd now_cmd (\<lambda>now.
              bnd (consumers ops (a ! 1) (a ! 2)) (\<lambda>cs. ret (RArray (map (consumer_reply now pend) cs)))))))
        else fail (err (''unknown subcommand '' @ quoted (hd a) @ ''. Try XINFO HELP.'')))"

section \<open>The dispatcher\<close>

definition exec_stream :: "'s store_ops \<Rightarrow> string \<Rightarrow> bytes list \<Rightarrow> ('s, resp) cmd option" where
  "exec_stream ops name a =
     (if name = ''XADD'' then Some (xadd_cmd ops name a)
      else if name = ''XLEN'' then Some (xlen_cmd ops name a)
      else if name = ''XRANGE'' \<or> name = ''XREVRANGE'' then Some (xrange_cmd ops name a)
      else if name = ''XDEL'' then Some (xdel_cmd ops name a)
      else if name = ''XTRIM'' then Some (xtrim_cmd ops name a)
      else if name = ''XREAD'' then Some (xread_cmd ops name a)
      else if name = ''XREADGROUP'' then Some (xreadgroup_cmd ops name a)
      else if name = ''XACK'' then Some (xack_cmd ops name a)
      else if name = ''XPENDING'' then Some (xpending_cmd ops name a)
      else if name = ''XCLAIM'' then Some (xclaim_cmd ops name a)
      else if name = ''XAUTOCLAIM'' then Some (xautoclaim_cmd ops name a)
      else if name = ''XGROUP'' then Some (xgroup_cmd ops name a)
      else if name = ''XINFO'' then Some (xinfo_cmd ops name a)
      else if name = ''XSETID'' then Some (xsetid_cmd ops name a)
      else None)"

text \<open>\<open>last_id\<close>, which resolves \<open>$\<close> before a blocking read starts to wait.\<close>

definition stream_last_id :: "'s store_ops \<Rightarrow> key \<Rightarrow> ('s, bytes) cmd" where
  "stream_last_id ops key = (\<lambda>cx.
     case load_stream ops key cx of
       (Inr (Some s), cx) \<Rightarrow> (Inr (fmt_id (st_last s)), cx)
     | (_, cx) \<Rightarrow> (Inr [48, 45, 48], cx))"

end
