(* ===== verification/Ks_Generic.thy ===== *)
theory Ks_Generic
  imports Ks_Strings "HOL-Library.Signed_Division"
begin

text \<open>
  The commands of \<open>exec_inner\<close> that work on keys of any type (\<open>crates/server/src/keyspace.rs\<close>):
  deletion, existence, type, renaming and deadlines.
\<close>

text \<open>\<open>DEL\<close>: the accumulator is the count and the set of keys already seen.\<close>

definition del_cmd :: "'s store_ops \<Rightarrow> string \<Rightarrow> bytes list \<Rightarrow> ('s, resp) cmd" where
  "del_cmd ops name a =
     bnd (need name (length a \<ge> 1)) (\<lambda>_.
     bnd (each_of (\<lambda>(c, seen) k.
            if k \<in> set seen then ret (c, seen)
            else
              bnd (load ops k) (\<lambda>e.
              if entry_exists e then bnd (delete_all ops k e) (\<lambda>_. ret (c + 1, k # seen))
              else ret (c, k # seen))) a (0, [])) (\<lambda>(c, _).
     ret (int_reply c)))"

definition exists_cmd :: "'s store_ops \<Rightarrow> string \<Rightarrow> bytes list \<Rightarrow> ('s, resp) cmd" where
  "exists_cmd ops name a =
     bnd (need name (length a \<ge> 1)) (\<lambda>_.
     bnd (each_of (\<lambda>c k. bnd (load ops k) (\<lambda>e. ret (if entry_exists e then c + 1 else c))) a 0) (\<lambda>c.
     ret (int_reply c)))"

definition type_cmd :: "'s store_ops \<Rightarrow> string \<Rightarrow> bytes list \<Rightarrow> ('s, resp) cmd" where
  "type_cmd ops name a =
     bnd (need name (length a = 1)) (\<lambda>_.
     bnd (load ops (a ! 0)) (\<lambda>e.
     ret (RSimple (as_bytes (case en_ent e of ENone \<Rightarrow> ''none'' | EStr _ \<Rightarrow> ''string'' | EColl m \<Rightarrow> type_name m)))))"

definition copy_family :: "'s store_ops \<Rightarrow> key \<Rightarrow> key \<Rightarrow> byte \<Rightarrow> ('s, unit) cmd" where
  "copy_family ops src dst sub =
     bnd (elements ops src sub) (\<lambda>es. each_of (\<lambda>_ (rest, v). put_key ops (ekey dst sub rest) v) es ())"

definition rename_cmd :: "'s store_ops \<Rightarrow> string \<Rightarrow> bytes list \<Rightarrow> ('s, resp) cmd" where
  "rename_cmd ops name a =
     bnd (need name (length a = 2)) (\<lambda>_.
     bnd (load ops (a ! 0)) (\<lambda>src.
     if \<not> entry_exists src then fail (err ''no such key'')
     else if a ! 0 = a ! 1 then ret (if name = ''RENAME'' then ok_reply else int_reply 0)
     else
       bnd (load ops (a ! 1)) (\<lambda>dst.
       if name = ''RENAMENX'' \<and> entry_exists dst then ret (int_reply 0)
       else
         bnd (delete_all ops (a ! 1) dst) (\<lambda>_.
         bnd (case en_ent src of
                EStr v \<Rightarrow> put_key ops (kv (a ! 1)) (VBytes v)
              | EColl m \<Rightarrow>
                  bnd (each_of (\<lambda>_ sub. copy_family ops (a ! 0) (a ! 1) sub) (type_subs (mt_ty m)) ()) (\<lambda>_.
                  put_key ops (kv (a ! 1)) (VMeta (meta_encode m)))
              | ENone \<Rightarrow> ret ()) (\<lambda>_.
         bnd (delete_all ops (a ! 0) src) (\<lambda>_.
         bnd (set_ttl ops (a ! 1) None (en_ttl src)) (\<lambda>_.
         ret (if name = ''RENAME'' then ok_reply else int_reply 1))))))))"

record exp_opts =
  eo_nx :: bool
  eo_xx :: bool
  eo_gt :: bool
  eo_lt :: bool

fun expire_options :: "bytes list \<Rightarrow> exp_opts \<Rightarrow> resp + exp_opts" where
  "expire_options [] eo = Inr eo"
| "expire_options (x # r) eo =
     (let opt = upper_name x in
      if opt = ''NX'' then expire_options r (eo\<lparr>eo_nx := True\<rparr>)
      else if opt = ''XX'' then expire_options r (eo\<lparr>eo_xx := True\<rparr>)
      else if opt = ''GT'' then expire_options r (eo\<lparr>eo_gt := True\<rparr>)
      else if opt = ''LT'' then expire_options r (eo\<lparr>eo_lt := True\<rparr>)
      else Inl (err (''Unsupported option '' @ from_utf8_lossy x)))"

definition expire_unit :: "string \<Rightarrow> string" where
  "expire_unit name =
     (if name = ''EXPIRE'' then ''EX'' else if name = ''PEXPIRE'' then ''PX''
      else if name = ''EXPIREAT'' then ''EXAT'' else ''PXAT'')"

definition expire_allowed :: "exp_opts \<Rightarrow> nat option \<Rightarrow> nat \<Rightarrow> bool" where
  "expire_allowed eo cur at =
     (case cur of
        None \<Rightarrow> \<not> eo_xx eo \<and> \<not> eo_gt eo
      | Some c \<Rightarrow> \<not> eo_nx eo \<and> \<not> (eo_gt eo \<and> at \<le> c) \<and> \<not> (eo_lt eo \<and> at \<ge> c))"

definition expire_cmd :: "'s store_ops \<Rightarrow> string \<Rightarrow> bytes list \<Rightarrow> ('s, resp) cmd" where
  "expire_cmd ops name a =
     bnd (need name (length a \<ge> 2)) (\<lambda>_.
     bnd (ok_or (parse_strict_i64 (a ! 1)) not_int) (\<lambda>v.
     case expire_options (drop 2 a) \<lparr>eo_nx = False, eo_xx = False, eo_gt = False, eo_lt = False\<rparr> of
       Inl e \<Rightarrow> fail e
     | Inr eo \<Rightarrow>
         if (eo_nx eo \<and> (eo_xx eo \<or> eo_gt eo \<or> eo_lt eo)) \<or> (eo_gt eo \<and> eo_lt eo) then
           fail (err ''NX and XX, GT or LT options at the same time are not compatible'')
         else
           bnd (load ops (a ! 0)) (\<lambda>e.
           if \<not> entry_exists e then ret (int_reply 0)
           else
             bnd now_cmd (\<lambda>now.
             bnd (ok_or (abs_deadline_signed (expire_unit name) v now) (invalid_expire (lower_name name))) (\<lambda>at.
             if \<not> expire_allowed eo (en_ttl e) at then ret (int_reply 0)
             else
               bnd (if at \<le> now then delete_all ops (a ! 0) e else set_ttl ops (a ! 0) (en_ttl e) (Some at)) (\<lambda>_.
               ret (int_reply 1)))))))"

text \<open>\<open>TTL\<close> rounds to the nearest second; the sum and the casts wrap at 64 bits.\<close>

definition ttl_value :: "string \<Rightarrow> nat \<Rightarrow> nat \<Rightarrow> i64" where
  "ttl_value name at now =
     (if name = ''TTL'' then word_of_int (sint (of_nat (at - now + 500) :: i64) sdiv 1000)
      else if name = ''PTTL'' then of_nat (at - now)
      else if name = ''EXPIRETIME'' then of_nat (at div 1000)
      else of_nat at)"

definition ttl_cmd :: "'s store_ops \<Rightarrow> string \<Rightarrow> bytes list \<Rightarrow> ('s, resp) cmd" where
  "ttl_cmd ops name a =
     bnd (need name (length a = 1)) (\<lambda>_.
     bnd (load ops (a ! 0)) (\<lambda>e.
     if \<not> entry_exists e then ret (int_reply (- 2))
     else
       bnd now_cmd (\<lambda>now.
       ret (case en_ttl e of None \<Rightarrow> int_reply (- 1) | Some at \<Rightarrow> RInt (ttl_value name at now)))))"

definition persist_cmd :: "'s store_ops \<Rightarrow> string \<Rightarrow> bytes list \<Rightarrow> ('s, resp) cmd" where
  "persist_cmd ops name a =
     bnd (need name (length a = 1)) (\<lambda>_.
     bnd (load ops (a ! 0)) (\<lambda>e.
     if \<not> entry_exists e \<or> en_ttl e = None then ret (int_reply 0)
     else bnd (set_ttl ops (a ! 0) (en_ttl e) None) (\<lambda>_. ret (int_reply 1))))"

definition exec_generic :: "'s store_ops \<Rightarrow> string \<Rightarrow> bytes list \<Rightarrow> ('s, resp) cmd option" where
  "exec_generic ops name a =
     (if name = ''DEL'' \<or> name = ''UNLINK'' then Some (del_cmd ops name a)
      else if name = ''EXISTS'' then Some (exists_cmd ops name a)
      else if name = ''TYPE'' then Some (type_cmd ops name a)
      else if name = ''RENAME'' \<or> name = ''RENAMENX'' then Some (rename_cmd ops name a)
      else if name \<in> set [''EXPIRE'', ''PEXPIRE'', ''EXPIREAT'', ''PEXPIREAT''] then Some (expire_cmd ops name a)
      else if name \<in> set [''TTL'', ''PTTL'', ''EXPIRETIME'', ''PEXPIRETIME''] then Some (ttl_cmd ops name a)
      else if name = ''PERSIST'' then Some (persist_cmd ops name a)
      else None)"

end
