(* ===== verification/Ks_List.thy ===== *)
theory Ks_List
  imports Ks_Hash
begin

text \<open>
  The list commands of \<open>exec_inner\<close> in \<open>crates/server/src/keyspace.rs\<close>.  A list keeps its
  elements under the contiguous positions \<open>head .. tail\<close> of its header.
\<close>

definition list_key :: "key \<Rightarrow> i64 \<Rightarrow> key" where
  "list_key key i = ekey key SUB_LIST (seq_bytes i)"

definition push_step :: "'s store_ops \<Rightarrow> key \<Rightarrow> bool \<Rightarrow> meta \<Rightarrow> bytes \<Rightarrow> ('s, meta) cmd" where
  "push_step ops key left = (\<lambda>m v.
     let m1 = (if left then m\<lparr>mt_head := mt_head m - 1\<rparr> else m\<lparr>mt_tail := mt_tail m + 1\<rparr>);
         pos = (if left then mt_head m1 else mt_tail m1 - 1)
     in bnd (put_key ops (list_key key pos) (VBytes v)) (\<lambda>_. ret (m1\<lparr>mt_len := mt_len m1 + 1\<rparr>)))"

definition push_cmd :: "'s store_ops \<Rightarrow> string \<Rightarrow> bytes list \<Rightarrow> ('s, resp) cmd" where
  "push_cmd ops name a =
     bnd (need name (length a \<ge> 2)) (\<lambda>_.
     bnd (coll ops (a ! 0) T_LIST) (\<lambda>existing.
     if existing = None \<and> last name = CHR ''X'' then ret (int_reply 0)
     else
       case (case existing of Some mt \<Rightarrow> mt | None \<Rightarrow> (meta_new T_LIST, None)) of (m, ttl) \<Rightarrow>
         bnd (each_of (push_step ops (a ! 0) (hd name = CHR ''L'')) (tl a) m) (\<lambda>m.
         bnd (put_meta ops (a ! 0) m ttl) (\<lambda>_. ret (RInt (mt_len m))))))"

definition pop_step :: "'s store_ops \<Rightarrow> key \<Rightarrow> bool \<Rightarrow> meta \<times> bytes list \<Rightarrow> ('s, meta \<times> bytes list) cmd" where
  "pop_step ops key left = (\<lambda>(m, out).
     let m1 = (if left then m\<lparr>mt_head := mt_head m + 1\<rparr> else m\<lparr>mt_tail := mt_tail m - 1\<rparr>);
         pos = (if left then mt_head m1 - 1 else mt_tail m1)
     in bnd (get_key ops (list_key key pos)) (\<lambda>v.
        bnd (delete_key ops (list_key key pos)) (\<lambda>_.
        ret (m1\<lparr>mt_len := mt_len m1 - 1\<rparr>, out @ [case v of None \<Rightarrow> [] | Some v \<Rightarrow> val_bytes v]))))"

fun pop_loop :: "'s store_ops \<Rightarrow> key \<Rightarrow> bool \<Rightarrow> nat \<Rightarrow> meta \<times> bytes list \<Rightarrow> ('s, meta \<times> bytes list) cmd" where
  "pop_loop ops key left 0 acc = ret acc"
| "pop_loop ops key left (Suc n) acc = bnd (pop_step ops key left acc) (pop_loop ops key left n)"

definition pop_cmd :: "'s store_ops \<Rightarrow> string \<Rightarrow> bytes list \<Rightarrow> ('s, resp) cmd" where
  "pop_cmd ops name a =
     bnd (need name (length a = 1 \<or> length a = 2)) (\<lambda>_.
     bnd (if length a > 1
          then ok_or (case parse_strict_i64 (a ! 1) of Some c \<Rightarrow> if sint c \<ge> 0 then Some (Some (nat (sint c))) else None
                      | None \<Rightarrow> None) (err ''value is out of range, must be positive'')
          else ret None) (\<lambda>count.
     bnd (coll ops (a ! 0) T_LIST) (\<lambda>c.
     case c of
       None \<Rightarrow> ret RNil
     | Some (m, ttl) \<Rightarrow>
         let take = min (case count of Some n \<Rightarrow> n | None \<Rightarrow> 1) (unat (mt_len m))
         in bnd (pop_loop ops (a ! 0) (name = ''LPOP'') take (m, [])) (\<lambda>(m, out).
            bnd (put_meta ops (a ! 0) m ttl) (\<lambda>_.
            ret (case count of
                   None \<Rightarrow> if out = [] then RNil else RBulk (last out)
                 | Some _ \<Rightarrow> RArray (map RBulk out)))))))"

definition llen_cmd :: "'s store_ops \<Rightarrow> string \<Rightarrow> bytes list \<Rightarrow> ('s, resp) cmd" where
  "llen_cmd ops = coll_len_cmd ops T_LIST"

text \<open>A negative index counts from the end.\<close>

definition list_index :: "i64 \<Rightarrow> meta \<Rightarrow> i64 option" where
  "list_index i m =
     (let len = mt_len m;
          i = (if sint i < 0 then len + i else i)
      in if sint i < 0 \<or> sint i \<ge> sint len then None else Some i)"

definition lindex_cmd :: "'s store_ops \<Rightarrow> string \<Rightarrow> bytes list \<Rightarrow> ('s, resp) cmd" where
  "lindex_cmd ops name a =
     bnd (need name (length a = 2)) (\<lambda>_.
     bnd (ok_or (parse_strict_i64 (a ! 1)) not_int) (\<lambda>i.
     bnd (coll ops (a ! 0) T_LIST) (\<lambda>c.
     case c of
       None \<Rightarrow> ret RNil
     | Some (m, _) \<Rightarrow>
         (case list_index i m of
            None \<Rightarrow> ret RNil
          | Some i \<Rightarrow> bnd (get_key ops (list_key (a ! 0) (mt_head m + i))) (\<lambda>v. ret (val_or_nil v))))))"

definition lset_cmd :: "'s store_ops \<Rightarrow> string \<Rightarrow> bytes list \<Rightarrow> ('s, resp) cmd" where
  "lset_cmd ops name a =
     bnd (need name (length a = 3)) (\<lambda>_.
     bnd (ok_or (parse_strict_i64 (a ! 1)) not_int) (\<lambda>i.
     bnd (coll ops (a ! 0) T_LIST) (\<lambda>c.
     case c of
       None \<Rightarrow> fail (err ''no such key'')
     | Some (m, ttl) \<Rightarrow>
         (case list_index i m of
            None \<Rightarrow> fail (err ''index out of range'')
          | Some i \<Rightarrow>
              bnd (put_key ops (list_key (a ! 0) (mt_head m + i)) (VBytes (a ! 2))) (\<lambda>_.
              bnd (put_meta ops (a ! 0) m ttl) (\<lambda>_. ret ok_reply))))))"

text \<open>The pages of a range of \<open>n\<close> elements number at most \<open>n\<close>, and the loop ends one later.\<close>

definition lrange_cmd :: "'s store_ops \<Rightarrow> string \<Rightarrow> bytes list \<Rightarrow> ('s, resp) cmd" where
  "lrange_cmd ops name a =
     bnd (need name (length a = 3)) (\<lambda>_.
     bnd (ok_or (parse_strict_i64 (a ! 1)) not_int) (\<lambda>s.
     bnd (ok_or (parse_strict_i64 (a ! 2)) not_int) (\<lambda>e.
     bnd (coll ops (a ! 0) T_LIST) (\<lambda>c.
     case c of
       None \<Rightarrow> ret (RArray [])
     | Some (m, _) \<Rightarrow>
         (case norm_range s e (mt_len m) of
            None \<Rightarrow> ret (RArray [])
          | Some (s, e) \<Rightarrow>
              let start = list_key (a ! 0) (mt_head m + s); stop = list_key (a ! 0) (mt_head m + e + 1)
              in bnd (each ops start start stop False (\<lambda>out _ v. (out @ [RBulk (val_bytes v)], True)) []) (\<lambda>out.
                 ret (RArray out)))))))"

text \<open>The positions \<open>lo .. hi\<close> of a list, the upper bound excluded.\<close>

definition delete_range :: "'s store_ops \<Rightarrow> key \<Rightarrow> i64 \<Rightarrow> i64 \<Rightarrow> i64 \<Rightarrow> ('s, unit) cmd" where
  "delete_range ops key head lo hi =
     each_of (\<lambda>_ i. delete_key ops (list_key key (head + word_of_int i))) [sint lo..sint hi - 1] ()"

definition ltrim_cmd :: "'s store_ops \<Rightarrow> string \<Rightarrow> bytes list \<Rightarrow> ('s, resp) cmd" where
  "ltrim_cmd ops name a =
     bnd (need name (length a = 3)) (\<lambda>_.
     bnd (ok_or (parse_strict_i64 (a ! 1)) not_int) (\<lambda>s.
     bnd (ok_or (parse_strict_i64 (a ! 2)) not_int) (\<lambda>e.
     bnd (coll ops (a ! 0) T_LIST) (\<lambda>c.
     case c of
       None \<Rightarrow> ret ok_reply
     | Some (m, ttl) \<Rightarrow>
         let len = mt_len m
         in (case (case norm_range s e len of Some se \<Rightarrow> se | None \<Rightarrow> (len, len - 1)) of (ks, ke) \<Rightarrow>
               bnd (delete_range ops (a ! 0) (mt_head m) 0 ks) (\<lambda>_.
               bnd (delete_range ops (a ! 0) (mt_head m) (if sint (ke + 1) < 0 then 0 else ke + 1) len) (\<lambda>_.
               let nh = mt_head m + ks; nt = mt_head m + ke + 1;
                   tail = (if sint nt < sint nh then nh else nt)
               in bnd (put_meta ops (a ! 0) (m\<lparr>mt_head := nh, mt_tail := tail, mt_len := tail - nh\<rparr>) ttl) (\<lambda>_.
                  ret ok_reply))))))))"

text \<open>LREM and LINSERT compute the new list and rewrite it with positions from 0.\<close>

fun lrem_marks :: "i64 \<Rightarrow> bytes \<Rightarrow> i64 \<Rightarrow> bytes list \<Rightarrow> bool list \<times> i64" where
  "lrem_marks limit x removed [] = ([], removed)"
| "lrem_marks limit x removed (y # ys) =
     (let hit = (sint removed < sint limit \<and> y = x)
      in case lrem_marks limit x (if hit then removed + 1 else removed) ys of
           (ks, r) \<Rightarrow> ((\<not> hit) # ks, r))"

definition lrem_items :: "i64 \<Rightarrow> bytes \<Rightarrow> bytes list \<Rightarrow> bytes list \<times> i64" where
  "lrem_items count target items =
     (let limit = (if count = 0 then word_of_int (2 ^ 63 - 1) else if sint count < 0 then - count else count)
      in if sint count < 0
         then (case lrem_marks limit target 0 (rev items) of
                 (ks, r) \<Rightarrow> (map fst (filter snd (zip items (rev ks))), r))
         else (case lrem_marks limit target 0 items of
                 (ks, r) \<Rightarrow> (map fst (filter snd (zip items ks)), r)))"

definition rewrite_list :: "'s store_ops \<Rightarrow> key \<Rightarrow> meta \<Rightarrow> nat option \<Rightarrow> bytes list \<Rightarrow> ('s, unit) cmd" where
  "rewrite_list ops key m ttl xs =
     bnd (delete_range ops key (mt_head m) 0 (mt_len m)) (\<lambda>_.
     bnd (each_of (\<lambda>_ (i, v). put_key ops (list_key key (of_nat i)) (VBytes v)) (enumerate 0 xs) ()) (\<lambda>_.
     put_meta ops key (m\<lparr>mt_head := 0, mt_tail := of_nat (length xs), mt_len := of_nat (length xs)\<rparr>) ttl))"

definition list_items :: "'s store_ops \<Rightarrow> key \<Rightarrow> ('s, bytes list) cmd" where
  "list_items ops key = bnd (elements ops key SUB_LIST) (\<lambda>es. ret (map (\<lambda>(_, v). val_bytes v) es))"

definition lrem_cmd :: "'s store_ops \<Rightarrow> string \<Rightarrow> bytes list \<Rightarrow> ('s, resp) cmd" where
  "lrem_cmd ops name a =
     bnd (need name (length a = 3)) (\<lambda>_.
     bnd (coll ops (a ! 0) T_LIST) (\<lambda>c.
     case c of
       None \<Rightarrow> ret (int_reply 0)
     | Some (m, ttl) \<Rightarrow>
         bnd (list_items ops (a ! 0)) (\<lambda>items.
         bnd (ok_or (parse_strict_i64 (a ! 1)) not_int) (\<lambda>count.
         case lrem_items count (a ! 2) items of
           (new, removed) \<Rightarrow> bnd (rewrite_list ops (a ! 0) m ttl new) (\<lambda>_. ret (RInt removed))))))"

definition linsert_cmd :: "'s store_ops \<Rightarrow> string \<Rightarrow> bytes list \<Rightarrow> ('s, resp) cmd" where
  "linsert_cmd ops name a =
     bnd (need name (length a = 4)) (\<lambda>_.
     bnd (coll ops (a ! 0) T_LIST) (\<lambda>c.
     case c of
       None \<Rightarrow> ret (int_reply 0)
     | Some (m, ttl) \<Rightarrow>
         bnd (list_items ops (a ! 0)) (\<lambda>items.
         bnd (if upper_name (a ! 1) = ''BEFORE'' then ret 0
              else if upper_name (a ! 1) = ''AFTER'' then ret 1 else fail (err ''syntax error'')) (\<lambda>off.
         case position (\<lambda>v. v = a ! 2) items of
           None \<Rightarrow> ret (int_reply (- 1))
         | Some p \<Rightarrow>
             let new = take (p + off) items @ [a ! 3] @ drop (p + off) items
             in bnd (rewrite_list ops (a ! 0) m ttl new) (\<lambda>_. ret (int_reply (int (length new))))))))"

text \<open>LPOS.\<close>

record pos_opts =
  po_rank :: i64
  po_count :: "i64 option"
  po_maxlen :: i64

fun lpos_options :: "bytes list \<Rightarrow> pos_opts \<Rightarrow> resp + pos_opts" where
  "lpos_options [] po = Inr po"
| "lpos_options [x] po = Inl (err ''syntax error'')"
| "lpos_options (x # v # r) po =
     (let opt = upper_name x in
      case parse_strict_i64 v of
        None \<Rightarrow> Inl not_int
      | Some n \<Rightarrow>
          if opt = ''RANK'' then
            (if n = 0 then Inl (err (''RANK can'' @ [CHR 0x27] @ ''t be zero: use 1 to start from the first match, 2 from the second ... or use negative to start from the end of the list''))
             else if sint n = - (2 ^ 63) then Inl (err ''value is out of range, value must between -9223372036854775807 and 9223372036854775807'')
             else lpos_options r (po\<lparr>po_rank := n\<rparr>))
          else if opt = ''COUNT'' then
            (if sint n < 0 then Inl (err (''COUNT can'' @ [CHR 0x27] @ ''t be negative''))
             else lpos_options r (po\<lparr>po_count := Some n\<rparr>))
          else if opt = ''MAXLEN'' then
            (if sint n < 0 then Inl (err (''MAXLEN can'' @ [CHR 0x27] @ ''t be negative''))
             else lpos_options r (po\<lparr>po_maxlen := n\<rparr>))
          else Inl (err ''syntax error''))"

text \<open>
  The search over the items in the direction of the rank: \<open>skip\<close> matches are passed over,
  \<open>want\<close> are collected, \<open>maxlen\<close> items are looked at.
\<close>

fun lpos_search :: "bytes \<Rightarrow> nat \<Rightarrow> nat \<Rightarrow> nat \<Rightarrow> nat \<Rightarrow> bytes list \<Rightarrow> nat list" where
  "lpos_search x maxlen want skip idx [] = []"
| "lpos_search x maxlen want skip idx (y # ys) =
     (if maxlen \<noteq> 0 \<and> idx \<ge> maxlen then []
      else if y = x then
        (if skip > 0 then lpos_search x maxlen want (skip - 1) (idx + 1) ys
         else idx # (if want \<le> 1 then [] else lpos_search x maxlen (want - 1) 0 (idx + 1) ys))
      else lpos_search x maxlen want skip (idx + 1) ys)"

definition lpos_found :: "pos_opts \<Rightarrow> bytes \<Rightarrow> i64 \<Rightarrow> bytes list \<Rightarrow> i64 list" where
  "lpos_found po x len items =
     (let want = (case po_count po of Some c \<Rightarrow> if c = 0 then u64_max else unat c | None \<Rightarrow> 1);
          skip = nat \<bar>sint (po_rank po)\<bar> - 1;
          down = (sint (po_rank po) < 0)
      in map (\<lambda>idx. if down then len - 1 - of_nat idx else of_nat idx)
           (lpos_search x (unat (po_maxlen po)) want skip 0 (if down then rev items else items)))"

definition lpos_cmd :: "'s store_ops \<Rightarrow> string \<Rightarrow> bytes list \<Rightarrow> ('s, resp) cmd" where
  "lpos_cmd ops name a =
     bnd (need name (length a \<ge> 2)) (\<lambda>_.
     case lpos_options (drop 2 a) \<lparr>po_rank = 1, po_count = None, po_maxlen = 0\<rparr> of
       Inl e \<Rightarrow> fail e
     | Inr po \<Rightarrow>
         bnd (coll ops (a ! 0) T_LIST) (\<lambda>c.
         case c of
           None \<Rightarrow> ret (if po_count po \<noteq> None then RArray [] else RNil)
         | Some (m, _) \<Rightarrow>
             bnd (list_items ops (a ! 0)) (\<lambda>items.
             let found = lpos_found po (a ! 1) (mt_len m) items
             in ret (if po_count po \<noteq> None then RArray (map RInt found)
                     else case found of p # _ \<Rightarrow> RInt p | [] \<Rightarrow> RNil))))"

definition side_of :: "bytes \<Rightarrow> ('s, bool) cmd" where
  "side_of x =
     (if upper_name x = ''LEFT'' then ret True
      else if upper_name x = ''RIGHT'' then ret False else fail (err ''syntax error''))"

definition lmove_cmd :: "'s store_ops \<Rightarrow> string \<Rightarrow> bytes list \<Rightarrow> ('s, resp) cmd" where
  "lmove_cmd ops name a =
     bnd (if name = ''RPOPLPUSH'' then bnd (need name (length a = 2)) (\<lambda>_. ret (False, True))
          else
            bnd (need name (length a = 4)) (\<lambda>_.
            bnd (side_of (a ! 2)) (\<lambda>f. bnd (side_of (a ! 3)) (\<lambda>t. ret (f, t))))) (\<lambda>(from_left, to_left).
     bnd (coll ops (a ! 0) T_LIST) (\<lambda>c.
     if c = None then ret RNil
     else
       bnd (if a ! 0 \<noteq> a ! 1 then bnd (coll ops (a ! 1) T_LIST) (\<lambda>_. ret ()) else ret ()) (\<lambda>_.
       bnd (pop_cmd ops (if from_left then ''LPOP'' else ''RPOP'') (take 1 a)) (\<lambda>popped.
       case popped of
         RBulk v \<Rightarrow>
           bnd (push_cmd ops (if to_left then ''LPUSH'' else ''RPUSH'') [a ! 1, v]) (\<lambda>_. ret (RBulk v))
       | _ \<Rightarrow> ret RNil))))"

definition exec_list :: "'s store_ops \<Rightarrow> string \<Rightarrow> bytes list \<Rightarrow> ('s, resp) cmd option" where
  "exec_list ops name a =
     (if name \<in> set [''LPUSH'', ''RPUSH'', ''LPUSHX'', ''RPUSHX''] then Some (push_cmd ops name a)
      else if name = ''LPOP'' \<or> name = ''RPOP'' then Some (pop_cmd ops name a)
      else if name = ''LLEN'' then Some (llen_cmd ops name a)
      else if name = ''LINDEX'' then Some (lindex_cmd ops name a)
      else if name = ''LSET'' then Some (lset_cmd ops name a)
      else if name = ''LRANGE'' then Some (lrange_cmd ops name a)
      else if name = ''LTRIM'' then Some (ltrim_cmd ops name a)
      else if name = ''LREM'' then Some (lrem_cmd ops name a)
      else if name = ''LINSERT'' then Some (linsert_cmd ops name a)
      else if name = ''LPOS'' then Some (lpos_cmd ops name a)
      else if name = ''RPOPLPUSH'' \<or> name = ''LMOVE'' then Some (lmove_cmd ops name a)
      else None)"

end
