(* ===== verification/Ks_Frame.thy ===== *)
theory Ks_Frame
  imports Ks_Spec Ks_Groups Ks_Generic Ks_List
begin

text \<open>
  What every command guarantees, whatever its arguments and whatever the store holds: the
  deadlines it notes for the expiry index are exactly the changes it made to the stored
  deadlines, the collection flag is raised before a first header is written, the clock and the
  mode of the run are untouched, and the store was only changed through its trait.

  \<open>keeps c m L P\<close> is a Hoare triple for command \<open>m\<close>: started where the flag is up if \<open>c\<close> holds, it
  returns only values \<open>x\<close> with \<open>P x\<close>, and the flag is up afterwards if \<open>L x\<close> holds.
\<close>

section \<open>The triple\<close>

text \<open>The store was changed by reads, puts and deletes of the trait only.\<close>

inductive command_run :: "'s store_ops \<Rightarrow> 's \<Rightarrow> 's \<Rightarrow> bool" for ops where
  stay: "command_run ops s s"
| get: "command_run ops s s1 \<Longrightarrow> command_run ops s (snd (so_get ops k s1))"
| put: "command_run ops s s1 \<Longrightarrow> command_run ops s (so_put ops k v s1)"
| delete: "command_run ops s s1 \<Longrightarrow> command_run ops s (so_delete ops k s1)"

lemma command_run_trans:
  assumes "command_run ops s s1" and "command_run ops s1 s2"
  shows "command_run ops s s2"
  using assms(2,1) by (induction rule: command_run.induct) (auto intro: command_run.intros)

definition ttl_ok :: "nat option \<Rightarrow> bool" where
  "ttl_ok d \<longleftrightarrow> (case d of None \<Rightarrow> True | Some a \<Rightarrow> a \<le> u64_max)"

lemma ttl_ok_simps [simp]: "ttl_ok None" "ttl_ok (Some a) \<longleftrightarrow> a \<le> u64_max"
  by (simp_all add: ttl_ok_def)

text \<open>What is known of a header: one with a version was read from the store.\<close>

definition is_coll :: "entry \<Rightarrow> bool" where
  "is_coll e \<longleftrightarrow> (case en_ent e of EColl m \<Rightarrow> True | _ \<Rightarrow> False)"

definition versioned :: "meta \<Rightarrow> bool" where
  "versioned m \<longleftrightarrow> mt_ver m \<noteq> 0"

lemma versioned_simps [simp]:
  "versioned (m\<lparr>mt_len := a\<rparr>) = versioned m" "versioned (m\<lparr>mt_head := b\<rparr>) = versioned m"
  "versioned (m\<lparr>mt_tail := b\<rparr>) = versioned m" "versioned (m\<lparr>mt_ext := x\<rparr>) = versioned m"
  "\<not> versioned (meta_new ty)"
  by (simp_all add: versioned_def)

text \<open>Sequencing and the control structures before it.\<close>

lemma bnd_norm:
  "bnd (ret x) f = f x"
  "bnd (fail e) f = fail e"
  "bnd (bnd m g) f = bnd m (\<lambda>x. bnd (g x) f)"
  "bnd (if b then m1 else m2) f = (if b then bnd m1 f else bnd m2 f)"
  "bnd (case w of None \<Rightarrow> m1 | Some y \<Rightarrow> m3 y) f = (case w of None \<Rightarrow> bnd m1 f | Some y \<Rightarrow> bnd (m3 y) f)"
  "bnd (case p of (y, z) \<Rightarrow> m4 y z) f = (case p of (y, z) \<Rightarrow> bnd (m4 y z) f)"
  "bnd (case t of Inl y \<Rightarrow> m5 y | Inr z \<Rightarrow> m6 z) f = (case t of Inl y \<Rightarrow> bnd (m5 y) f | Inr z \<Rightarrow> bnd (m6 z) f)"
  "bnd (case n of ENone \<Rightarrow> m1 | EStr y \<Rightarrow> m7 y | EColl z \<Rightarrow> m8 z) f =
     (case n of ENone \<Rightarrow> bnd m1 f | EStr y \<Rightarrow> bnd (m7 y) f | EColl z \<Rightarrow> bnd (m8 z) f)"
  "bnd (Let y m9) f = Let y (\<lambda>y. bnd (m9 y) f)"
  "bnd (case v of VBytes x1 \<Rightarrow> n1 x1 | VInt x2 \<Rightarrow> n2 x2 | VFloat x3 \<Rightarrow> n3 x3 | VVector x4 \<Rightarrow> n4 x4 | VRow x5 \<Rightarrow> n5 x5
       | VTombstone \<Rightarrow> n6 | VMeta x7 \<Rightarrow> n7 x7) f =
     (case v of VBytes x1 \<Rightarrow> bnd (n1 x1) f | VInt x2 \<Rightarrow> bnd (n2 x2) f | VFloat x3 \<Rightarrow> bnd (n3 x3) f
       | VVector x4 \<Rightarrow> bnd (n4 x4) f | VRow x5 \<Rightarrow> bnd (n5 x5) f | VTombstone \<Rightarrow> bnd n6 f | VMeta x7 \<Rightarrow> bnd (n7 x7) f)"
  by (auto simp: bnd_def ret_def fail_def fun_eq_iff Let_def split: option.split prod.split sum.split ent.split val.split)

lemma need_norm: "bnd (need name b) f = (if b then f () else fail (wrong_args name))"
  by (simp add: need_def bnd_norm)

lemma ok_or_norm: "bnd (ok_or a e) f = (case a of None \<Rightarrow> fail e | Some x \<Rightarrow> f x)"
  by (simp add: ok_or_def bnd_norm split: option.split)

lemma from_sum_norm: "bnd (from_sum r) f = (case r of Inl e \<Rightarrow> fail e | Inr x \<Rightarrow> f x)"
  by (simp add: from_sum_def bnd_norm split: sum.split)

lemmas cmd_norm = bnd_norm need_norm ok_or_norm from_sum_norm

named_theorems keep \<open>the triples of the command building blocks\<close>

context frame_store
begin

definition flag :: "kview \<Rightarrow> 's cx \<Rightarrow> bool" where
  "flag V0 cx \<longleftrightarrow> has_coll V0 \<or> cx_created cx"

definition tracked :: "kview \<Rightarrow> 's cx \<Rightarrow> bool" where
  "tracked V0 cx \<longleftrightarrow> wf (cx_tx cx) \<and> mirrors V0 (cx_exp cx) (view (cx_tx cx))
     \<and> (has_coll (view (cx_tx cx)) \<longrightarrow> flag V0 cx)"

definition follows :: "kview \<Rightarrow> 's cx \<Rightarrow> 's cx \<Rightarrow> bool" where
  "follows V0 cx cx' \<longleftrightarrow> tracked V0 cx' \<and> (flag V0 cx \<longrightarrow> flag V0 cx') \<and> cx_now cx' = cx_now cx
     \<and> cx_readonly cx' = cx_readonly cx \<and> (\<exists>E. cx_exp cx' = cx_exp cx @ E)
     \<and> command_run ops (cx_tx cx) (cx_tx cx')"

definition keeps :: "bool \<Rightarrow> ('s, 'a) cmd \<Rightarrow> ('a \<Rightarrow> bool) \<Rightarrow> ('a \<Rightarrow> bool) \<Rightarrow> bool" where
  "keeps c m L P \<longleftrightarrow>
     (\<forall>V0 cx. tracked V0 cx \<and> (c \<longrightarrow> flag V0 cx) \<longrightarrow>
        follows V0 cx (snd (m cx)) \<and> (\<forall>x. fst (m cx) = Inr x \<longrightarrow> P x \<and> (L x \<longrightarrow> flag V0 (snd (m cx)))))"

abbreviation safe :: "bool \<Rightarrow> ('s, 'a) cmd \<Rightarrow> bool" where
  "safe c m \<equiv> keeps c m (\<lambda>_. False) (\<lambda>_. True)"

lemma follows_refl: "tracked V0 cx \<Longrightarrow> follows V0 cx cx"
  by (auto simp: follows_def intro: command_run.intros)

lemma follows_trans: "follows V0 cx cx1 \<Longrightarrow> follows V0 cx1 cx2 \<Longrightarrow> follows V0 cx cx2"
  by (auto simp: follows_def intro: command_run_trans)

lemma keepsI:
  assumes "\<And>V0 cx. tracked V0 cx \<Longrightarrow> (c \<longrightarrow> flag V0 cx) \<Longrightarrow> follows V0 cx (snd (m cx))"
    and "\<And>V0 cx x. tracked V0 cx \<Longrightarrow> (c \<longrightarrow> flag V0 cx) \<Longrightarrow> fst (m cx) = Inr x \<Longrightarrow>
      P x \<and> (L x \<longrightarrow> flag V0 (snd (m cx)))"
  shows "keeps c m L P"
  unfolding keeps_def using assms by blast

lemma keeps_run:
  assumes "keeps c m L P" and "tracked V0 cx" and "c \<longrightarrow> flag V0 cx" and "m cx = (r, cx')"
  shows "follows V0 cx cx'" and "r = Inr x \<Longrightarrow> P x \<and> (L x \<longrightarrow> flag V0 cx')"
  using assms by (fastforce simp: keeps_def)+

lemma keeps_weak: "keeps c m L P \<Longrightarrow> safe c m"
  by (auto simp: keeps_def)

lemma keeps_know: "keeps c m L P \<Longrightarrow> (c \<Longrightarrow> c') \<Longrightarrow> keeps c' m L P"
  by (auto simp: keeps_def)

lemma keeps_ret: "P x \<Longrightarrow> (L x \<Longrightarrow> c) \<Longrightarrow> keeps c (ret x) L P"
  by (auto simp: keeps_def ret_def follows_refl)

lemma safe_ret: "safe c (ret x)"
  by (rule keeps_ret) simp_all

lemma keeps_fail: "keeps c (fail e) L P"
  by (auto simp: keeps_def fail_def follows_refl)

lemma keeps_bnd:
  assumes m: "keeps c m L P" and f: "\<And>x. P x \<Longrightarrow> keeps (c \<or> L x) (f x) L' P'"
  shows "keeps c (bnd m f) L' P'"
proof -
  have "follows V0 cx cx2 \<and> (\<forall>y. r = Inr y \<longrightarrow> P' y \<and> (L' y \<longrightarrow> flag V0 cx2))"
    if cx: "tracked V0 cx" "c \<longrightarrow> flag V0 cx" and run: "bnd m f cx = (r, cx2)" for V0 r and cx cx2 :: "'s cx"
  proof -
    obtain r1 cx1 where 1: "m cx = (r1, cx1)" by (cases "m cx")
    have fol: "follows V0 cx cx1" using keeps_run [OF m cx 1] by simp
    show ?thesis
    proof (cases r1)
      case (Inl e)
      then show ?thesis using 1 fol run by (auto simp: bnd_def)
    next
      case (Inr x)
      have t: "tracked V0 cx1" "c \<longrightarrow> flag V0 cx1" using fol cx by (auto simp: follows_def)
      have x: "P x" "L x \<longrightarrow> flag V0 cx1" using keeps_run(2) [OF m cx 1 Inr] by auto
      have 2: "f x cx1 = (r, cx2)" using run 1 Inr by (simp add: bnd_def)
      note k = keeps_run [OF f [OF x(1)] t(1) _ 2]
      show ?thesis using k t(2) x(2) fol by (auto intro: follows_trans)
    qed
  qed
  then show ?thesis unfolding keeps_def by (metis prod.collapse)
qed

text \<open>Control structures.\<close>

lemma keeps_cases [keep]:
  "(b \<Longrightarrow> keeps c m1 L P) \<Longrightarrow> (\<not> b \<Longrightarrow> keeps c m2 L P) \<Longrightarrow> keeps c (if b then m1 else m2) L P"
  "(w = None \<Longrightarrow> keeps c m1 L P) \<Longrightarrow> (\<And>y. w = Some y \<Longrightarrow> keeps c (m3 y) L P) \<Longrightarrow>
     keeps c (case w of None \<Rightarrow> m1 | Some y \<Rightarrow> m3 y) L P"
  "(\<And>y z. p = (y, z) \<Longrightarrow> keeps c (m4 y z) L P) \<Longrightarrow> keeps c (case p of (y, z) \<Rightarrow> m4 y z) L P"
  "(\<And>y z. p = (y, z) \<Longrightarrow> keeps c (m0 y z u) L P) \<Longrightarrow> keeps c ((case p of (y, z) \<Rightarrow> m0 y z) u) L P"
  "(\<And>y. t = Inl y \<Longrightarrow> keeps c (m5 y) L P) \<Longrightarrow> (\<And>z. t = Inr z \<Longrightarrow> keeps c (m6 z) L P) \<Longrightarrow>
     keeps c (case t of Inl y \<Rightarrow> m5 y | Inr z \<Rightarrow> m6 z) L P"
  "(n = ENone \<Longrightarrow> keeps c m1 L P) \<Longrightarrow> (\<And>y. n = EStr y \<Longrightarrow> keeps c (m7 y) L P) \<Longrightarrow>
     (\<And>z. n = EColl z \<Longrightarrow> keeps c (m8 z) L P) \<Longrightarrow>
     keeps c (case n of ENone \<Rightarrow> m1 | EStr y \<Rightarrow> m7 y | EColl z \<Rightarrow> m8 z) L P"
  "keeps c (m9 x) L P \<Longrightarrow> keeps c (Let x m9) L P"
  by (auto split: option.split prod.split sum.split ent.split)

lemma keeps_val_cases [keep]:
  assumes "\<And>x. v = VBytes x \<Longrightarrow> keeps c (n1 x) L P" and "\<And>x. v = VInt x \<Longrightarrow> keeps c (n2 x) L P"
    and "\<And>x. v = VFloat x \<Longrightarrow> keeps c (n3 x) L P" and "\<And>x. v = VVector x \<Longrightarrow> keeps c (n4 x) L P"
    and "\<And>x. v = VRow x \<Longrightarrow> keeps c (n5 x) L P" and "v = VTombstone \<Longrightarrow> keeps c n6 L P"
    and "\<And>x. v = VMeta x \<Longrightarrow> keeps c (n7 x) L P"
  shows "keeps c (case v of VBytes x1 \<Rightarrow> n1 x1 | VInt x2 \<Rightarrow> n2 x2 | VFloat x3 \<Rightarrow> n3 x3 | VVector x4 \<Rightarrow> n4 x4
       | VRow x5 \<Rightarrow> n5 x5 | VTombstone \<Rightarrow> n6 | VMeta x7 \<Rightarrow> n7 x7) L P"
  using assms by (cases v) simp_all

text \<open>A dispatcher offers only such commands.\<close>

lemma offered [keep]:
  "pred_option Q x \<Longrightarrow> pred_option Q y \<Longrightarrow> pred_option Q (if b then x else y)"
  "Q m \<Longrightarrow> pred_option Q (Some m)"
  "pred_option Q None"
  by simp_all

text \<open>Control structures before \<open>bnd\<close> are moved over it.\<close>

lemma keeps_norm [keep]:
  "keeps c (f1 x) L P \<Longrightarrow> keeps c (bnd (ret x) f1) L P"
  "keeps c (bnd (fail e) f2) L P"
  "keeps c (bnd m (\<lambda>x. bnd (g x) f3)) L P \<Longrightarrow> keeps c (bnd (bnd m g) f3) L P"
  "(b \<Longrightarrow> keeps c (f4 ()) L P) \<Longrightarrow> keeps c (bnd (need name b) f4) L P"
  "(\<And>x. a = Some x \<Longrightarrow> keeps c (f5 x) L P) \<Longrightarrow> keeps c (bnd (ok_or a e) f5) L P"
  "(\<And>x. r = Inr x \<Longrightarrow> keeps c (f6 x) L P) \<Longrightarrow> keeps c (bnd (from_sum r) f6) L P"
  by (auto simp: cmd_norm keeps_fail split: option.split sum.split)

lemmas keeps_moved [keep] = bnd_norm(4-) [THEN ssubst, where P = "\<lambda>m. keeps c m L P" for c L P]

lemma keeps_tails [keep]: "safe c (ok_or a e)" "safe c (from_sum r)" "safe c (need name b)"
  by (auto simp: ok_or_def from_sum_def need_def keeps_fail safe_ret split: option.split sum.split)

section \<open>The primitives\<close>

lemma tracked_same_view:
  "tracked V0 cx \<Longrightarrow> wf s \<Longrightarrow> view s = view (cx_tx cx) \<Longrightarrow> tracked V0 (cx\<lparr>cx_tx := s\<rparr>)"
  by (simp add: tracked_def flag_def)

lemma keeps_get: "keeps c (get_key ops k) (\<lambda>v. \<exists>u m. k = kv u \<and> v = Some (VMeta m)) (\<lambda>_. True)"
proof (rule keepsI)
  fix V0 and cx :: "'s cx"
  assume t: "tracked V0 cx"
  let ?s = "snd (so_get ops k (cx_tx cx))"
  have v: "wf ?s" "view ?s = view (cx_tx cx)" using t by (auto simp: tracked_def wf_get view_get)
  show "follows V0 cx (snd (get_key ops k cx))"
    using tracked_same_view [OF t v] by (auto simp: get_key_eq follows_def flag_def intro: command_run.intros)
  fix x assume "fst (get_key ops k cx) = Inr x"
  then show "True \<and> ((\<exists>u m. k = kv u \<and> x = Some (VMeta m)) \<longrightarrow> flag V0 (snd (get_key ops k cx)))"
    using t by (auto simp: get_key_eq tracked_def flag_def has_coll_def)
qed

lemma tracked_write:
  assumes "tracked V0 cx" and "wf s" and "view s = (view (cx_tx cx))(k := v)" and "\<And>u. k \<noteq> expk u"
    and "\<And>u m. k = kv u \<Longrightarrow> v = Some (VMeta m) \<Longrightarrow> flag V0 cx"
  shows "tracked V0 (cx\<lparr>cx_tx := s\<rparr>)"
proof -
  have "deadline (view s) u = deadline (view (cx_tx cx)) u" for u
    using assms(3,4) by (simp add: deadline_def) metis
  moreover have "has_coll (view s) \<Longrightarrow> flag V0 cx"
    using assms by (auto simp: has_coll_def tracked_def split: if_splits)
  ultimately show ?thesis using assms(1,2) by (simp add: tracked_def mirrors_def flag_def)
qed

lemma keeps_put:
  assumes "\<And>u. k \<noteq> expk u" and "\<And>u m. k = kv u \<Longrightarrow> v = VMeta m \<Longrightarrow> c"
  shows "safe c (put_key ops k v)"
proof (rule keepsI)
  fix V0 and cx :: "'s cx"
  assume t: "tracked V0 cx" "c \<longrightarrow> flag V0 cx"
  have "tracked V0 (cx\<lparr>cx_tx := so_put ops k v (cx_tx cx)\<rparr>)"
    by (rule tracked_write [OF t(1), of _ k "live v"])
      (use t assms in \<open>auto simp: tracked_def wf_put view_put live_def split: if_splits\<close>)
  then show "follows V0 cx (snd (put_key ops k v cx))"
    by (auto simp: put_key_def follows_def flag_def intro: command_run.intros)
qed simp

lemma keeps_delete:
  assumes "\<And>u. k \<noteq> expk u"
  shows "safe c (delete_key ops k)"
proof (rule keepsI)
  fix V0 and cx :: "'s cx"
  assume t: "tracked V0 cx"
  have "tracked V0 (cx\<lparr>cx_tx := so_delete ops k (cx_tx cx)\<rparr>)"
    by (rule tracked_write [OF t, of _ k None]) (use t assms in \<open>auto simp: tracked_def wf_delete view_delete\<close>)
  then show "follows V0 cx (snd (delete_key ops k cx))"
    by (auto simp: delete_key_def follows_def flag_def intro: command_run.intros)
qed simp

lemma keeps_scan: "keeps c (scan_keys ops h s e n r) (\<lambda>_. False) (\<lambda>kvs. \<forall>x\<in>set kvs. s \<le> fst x \<and> fst x < e)"
  by (auto simp: keeps_def scan_keys_def follows_refl dest: scan_within)

lemma keeps_note_created: "keeps c note_created (\<lambda>_. True) (\<lambda>_. True)"
  by (auto simp: keeps_def note_created_def follows_def tracked_def flag_def intro: command_run.intros)

lemma safe_reads: "safe c now_cmd" "safe c readonly_cmd" "safe c supply_cmd"
  by (auto simp: keeps_def now_cmd_def readonly_cmd_def supply_cmd_def follows_refl)

lemma safe_supplies: "safe c rand_cmd" "safe c clock_cmd"
  by (auto simp: keeps_def rand_cmd_def clock_cmd_def follows_def tracked_def flag_def
      intro: command_run.intros split: list.split)

text \<open>A deadline is written together with its note.\<close>

lemma mirrors_set:
  assumes "mirrors V0 E V" and "deadline V' k = d" and "\<And>u. u \<noteq> k \<Longrightarrow> deadline V' u = deadline V u"
  shows "mirrors V0 (E @ [(k, d)]) V'"
  unfolding mirrors_def
proof
  fix u
  show "deadline V' u = (case map_of (rev (E @ [(k, d)])) u of None \<Rightarrow> deadline V0 u | Some d \<Rightarrow> d)"
    using assms by (cases "u = k") (simp_all add: mirrors_def)
qed

lemma tracked_deadline:
  assumes "tracked V0 cx" and "wf s" and "view s = (view (cx_tx cx))(expk k := v)" and "ttl_of v = d"
  shows "tracked V0 (cx\<lparr>cx_tx := s, cx_exp := cx_exp cx @ [(k, d)]\<rparr>)"
proof -
  have "mirrors V0 (cx_exp cx @ [(k, d)]) (view s)"
    by (rule mirrors_set [of _ _ "view (cx_tx cx)"]) (use assms in \<open>auto simp: tracked_def deadline_def\<close>)
  moreover have "has_coll (view s) \<Longrightarrow> has_coll (view (cx_tx cx))"
    using assms(3) by (auto simp: has_coll_def)
  ultimately show ?thesis using assms(1,2) by (auto simp: tracked_def flag_def)
qed

lemma safe_set_ttl:
  assumes "ttl_ok at"
  shows "safe c (set_ttl ops k had at)"
proof (rule keepsI)
  fix V0 and cx :: "'s cx"
  assume t: "tracked V0 cx"
  then have wf: "wf (cx_tx cx)" by (simp add: tracked_def)
  show "follows V0 cx (snd (set_ttl ops k had at cx))"
  proof (cases at)
    case (Some a)
    have "tracked V0 (cx\<lparr>cx_tx := so_put ops (expk k) (VInt (of_nat a)) (cx_tx cx), cx_exp := cx_exp cx @ [(k, Some a)]\<rparr>)"
      by (rule tracked_deadline [OF t, of _ _ "Some (VInt (of_nat a))"])
        (use assms in \<open>auto simp: Some wf_put wf view_put live_def ttl_of_def unat_of_nat_u64\<close>)
    then show ?thesis
      by (auto simp: Some set_ttl_def bnd_def put_key_def note_exp_def follows_def flag_def intro: command_run.intros)
  next
    case None
    have "tracked V0 (cx\<lparr>cx_tx := so_delete ops (expk k) (cx_tx cx), cx_exp := cx_exp cx @ [(k, None)]\<rparr>)"
      by (rule tracked_deadline [OF t, of _ _ None]) (auto simp: wf_delete wf view_delete ttl_of_def)
    then show ?thesis
      by (auto simp: None set_ttl_def bnd_def delete_key_def note_exp_def ret_def follows_def flag_def t intro: command_run.intros)
  qed
qed simp

lemmas keep_primitives [keep] = keeps_fail safe_ret safe_reads safe_supplies keeps_put keeps_delete safe_set_ttl
  keeps_get [THEN keeps_weak] keeps_scan [THEN keeps_weak]

lemmas keep_bnds [keep] = safe_reads [THEN keeps_bnd] safe_supplies [THEN keeps_bnd] keeps_put [THEN keeps_bnd]
  keeps_delete [THEN keeps_bnd] safe_set_ttl [THEN keeps_bnd] keeps_get [THEN keeps_bnd] keeps_scan [THEN keeps_bnd]
  keeps_note_created [THEN keeps_bnd]

section \<open>Loops\<close>

lemma keeps_each_of:
  assumes "\<And>acc x. x \<in> set xs \<Longrightarrow> P acc \<Longrightarrow> keeps (c \<or> L acc) (f acc x) L P" and "P acc" and "L acc \<Longrightarrow> c"
  shows "keeps c (each_of f xs acc) L P"
  using assms
proof (induction xs arbitrary: c acc)
  case Nil
  then show ?case by (auto intro!: keeps_ret)
next
  case (Cons x xs)
  have "c \<or> L acc \<longleftrightarrow> c" using Cons.prems(3) by auto
  then have "keeps c (f acc x) L P" using Cons.prems(1) [of x acc] Cons.prems(2) by simp
  moreover have "keeps (c \<or> L acc') (each_of f xs acc') L P" if "P acc'" for acc'
  proof (rule Cons.IH)
    fix a y assume "y \<in> set xs" "P a"
    then have "keeps (c \<or> L a) (f a y) L P" using Cons.prems(1) by simp
    then show "keeps ((c \<or> L acc') \<or> L a) (f a y) L P" by (rule keeps_know) blast
  qed (use that in auto)
  ultimately show ?case unfolding each_of.simps by (rule keeps_bnd)
qed

lemma safe_each_of: "(\<And>acc x. x \<in> set xs \<Longrightarrow> safe c (f acc x)) \<Longrightarrow> safe c (each_of f xs acc)"
  by (rule keeps_each_of) (simp_all only: simp_thms)

lemmas safe_loop = safe_each_of safe_each_of [THEN keeps_bnd]

lemma safe_pages: "safe c (pages ops h s e rv f n acc)"
proof (induction n arbitrary: c s e acc)
  case (Suc n)
  then show ?case by (auto simp: Let_def intro!: keep split: prod.split)
qed (simp add: safe_ret)

lemma safe_each [keep]: "safe c (each ops h s e rv f acc)"
  unfolding each_def by (rule keeps_scan [THEN keeps_bnd]) (rule safe_pages)

text \<open>The keys of a range inside a family are neither deadlines nor values.\<close>

lemma family_plain:
  assumes "ebase k s @ r \<le> x" and "x < ebase k' s' @ r'"
  shows "x \<noteq> expk u \<and> x \<noteq> kv u"
  using assms by (auto simp: ebase_def expk_def kv_def)

lemma safe_delete_family [keep]: "safe c (delete_family ops k s)"
  using family_plain [of k s "[]" _ k "s + 1" "[]"]
  by (force simp: delete_family_def erange_def intro!: keep safe_loop)

lemma safe_delete_elements [keep]: "safe c (delete_elements ops k ty)"
  by (auto simp: delete_elements_def intro!: keep safe_loop)

lemma safe_elements [keep]: "safe c (elements ops k s)"
  by (auto simp: elements_def erange_def intro!: keep)

lemmas keep_loops [keep] = safe_each [THEN keeps_bnd] safe_delete_family [THEN keeps_bnd]
  safe_delete_elements [THEN keeps_bnd] safe_elements [THEN keeps_bnd]

section \<open>The helpers of the context\<close>

lemma safe_delete_all [keep]: "safe c (delete_all ops k e)"
  by (auto simp: delete_all_def cmd_norm intro!: keep split: ent.split)

lemma ttl_of_ok: "ttl_of v = Some a \<Longrightarrow> a \<le> u64_max"
proof -
  have "unat w \<le> u64_max" for w :: "64 word"
  proof -
    have "unat w < 2 ^ LENGTH(64)" by (rule unsigned_less)
    then show ?thesis by (simp add: u64_max_def)
  qed
  then show "ttl_of v = Some a \<Longrightarrow> a \<le> u64_max" by (auto simp: ttl_of_def split: option.splits val.splits)
qed

lemma keeps_load: "keeps c (load ops k) is_coll (\<lambda>e. ttl_ok (en_ttl e))"
  unfolding load_def
  by (auto simp: cmd_norm Let_def is_coll_def ent_of_def
      intro!: keep keeps_ret safe_delete_all [THEN keeps_bnd] split: sum.split option.splits val.splits ent.splits)
    (erule ttl_of_ok)+

lemma keeps_coll: "keeps c (coll ops k ty) (\<lambda>x. x \<noteq> None) (\<lambda>x. \<forall>m ttl. x = Some (m, ttl) \<longrightarrow> ttl_ok ttl)"
  unfolding coll_def
  by (auto simp: is_coll_def intro!: keeps_load [THEN keeps_bnd] keep keeps_ret split: ent.split)

lemma keeps_coll_or_new: "keeps c (coll_or_new ops k ty) (\<lambda>x. versioned (fst x)) (\<lambda>x. ttl_ok (snd x))"
  unfolding coll_or_new_def
  by (auto intro!: keeps_coll [THEN keeps_bnd] keep keeps_ret split: option.splits)

lemma safe_put_meta [keep]: "(versioned m \<Longrightarrow> c) \<Longrightarrow> safe c (put_meta ops k m ttl)"
  by (auto simp: put_meta_def cmd_norm versioned_def intro!: keep)

lemma safe_put_str [keep]: "ttl_ok at \<Longrightarrow> safe c (put_str ops k v old at)"
  by (auto simp: put_str_def cmd_norm intro!: keep split: ent.split)

lemmas keep_helpers [keep] = safe_delete_all [THEN keeps_bnd] keeps_load [THEN keeps_bnd] keeps_load [THEN keeps_weak]
  keeps_coll [THEN keeps_bnd] keeps_coll [THEN keeps_weak] keeps_coll_or_new [THEN keeps_bnd]
  safe_put_meta [THEN keeps_bnd] safe_put_str [THEN keeps_bnd]

end

end
