(* ===== verification/Ks_Safe.thy ===== *)
theory Ks_Safe
  imports Ks_Frame
begin

text \<open>
  Every command of the dispatchers, on every argument list, meets the triple of \<open>Ks_Frame\<close>.
\<close>

section \<open>Deadlines that commands compute\<close>

lemma abs_deadline_signed_le: "abs_deadline_signed unit v now = Some a \<Longrightarrow> a \<le> u64_max"
proof -
  have "nat (max (sint w) 0) \<le> u64_max" for w :: i64
  proof -
    have "sint w < 2 ^ 63" using sint_lt [of w] by simp
    then show ?thesis by (simp add: u64_max_def)
  qed
  then show "abs_deadline_signed unit v now = Some a \<Longrightarrow> a \<le> u64_max"
    by (auto simp: abs_deadline_signed_def split: option.splits if_splits)
qed

lemma abs_deadline_le: "abs_deadline unit v now = Some a \<Longrightarrow> a \<le> u64_max"
  by (auto simp: abs_deadline_def abs_deadline_signed_le split: if_splits)

lemma set_options_ttl: "set_options now a so = Inr so' \<Longrightarrow> ttl_ok (opt_ttl so) \<Longrightarrow> ttl_ok (opt_ttl so')"
proof (induction now a so arbitrary: so' rule: set_options.induct)
  case (2 now x r so)
  then show ?case
    by (auto simp: Let_def abs_deadline_le split: if_splits list.splits option.splits)
qed simp

lemmas frame_simps = is_coll_def abs_deadline_le abs_deadline_signed_le

context frame_store
begin

lemma str_or_wrongtype_cases [keep]:
  "(\<And>x. keeps c (f x) L P) \<Longrightarrow> keeps c (bnd (str_or_wrongtype e) f) L P"
  unfolding str_or_wrongtype_def by (intro keep)

section \<open>Strings and keys of any type\<close>

lemma safe_string_reads [keep]:
  "safe c (ping_cmd a)" "safe c (echo_cmd name a)" "safe c (get_cmd ops name a)" "safe c (mget_cmd ops name a)"
  "safe c (strlen_cmd ops name a)" "safe c (getrange_cmd ops name a)"
  unfolding ping_cmd_def echo_cmd_def get_cmd_def mget_cmd_def strlen_cmd_def getrange_cmd_def
  by (intro keep safe_loop)+

lemma safe_string_writes [keep]:
  "safe c (setnx_cmd ops name a)" "safe c (setex_cmd ops name a)" "safe c (getset_cmd ops name a)"
  "safe c (getdel_cmd ops name a)" "safe c (append_cmd ops name a)" "safe c (setrange_cmd ops name a)"
  "safe c (set_cmd ops name a)" "safe c (getex_cmd ops name a)"
  unfolding setnx_cmd_def setex_cmd_def getset_cmd_def getdel_cmd_def append_cmd_def setrange_cmd_def
    set_cmd_def getex_cmd_def
  by (intro keep; auto simp: frame_simps dest!: set_options_ttl split: if_splits)+

lemma safe_numbers [keep]:
  "safe c (incr_cmd ops name a)" "safe c (incrbyfloat_cmd ops name a)" "safe c (mset_cmd ops name a)"
  unfolding incr_cmd_def incr_by_def incrbyfloat_cmd_def mset_cmd_def
  by (intro keep safe_loop; simp)+

lemma safe_exec_string: "pred_option (safe c) (exec_string ops name a)"
  unfolding exec_string_def by (intro keep)

lemma safe_copy_family [keep]: "safe c (copy_family ops src dst sub)"
  unfolding copy_family_def by (intro keep safe_loop; simp)

lemma safe_generic_cmds [keep]:
  "safe c (del_cmd ops name a)" "safe c (exists_cmd ops name a)" "safe c (type_cmd ops name a)"
  "safe c (expire_cmd ops name a)" "safe c (ttl_cmd ops name a)" "safe c (persist_cmd ops name a)"
  "safe c (rename_cmd ops name a)"
  unfolding del_cmd_def exists_cmd_def type_cmd_def expire_cmd_def ttl_cmd_def persist_cmd_def rename_cmd_def
  by (intro keep safe_loop; simp add: frame_simps)+

lemma safe_exec_generic: "pred_option (safe c) (exec_generic ops name a)"
  unfolding exec_generic_def by (intro keep)

section \<open>Hashes and lists\<close>

text \<open>Loops over a header keep its version, so the flag follows the header.\<close>

lemma meta_loop:
  assumes "\<And>m x. x \<in> set xs \<Longrightarrow> keeps (c \<or> versioned m) (f m x) versioned (\<lambda>_. True)" and "versioned m \<Longrightarrow> c"
  shows "keeps c (each_of f xs m) versioned (\<lambda>_. True)"
  by (rule keeps_each_of) (use assms in simp_all)

lemma pair_loop:
  assumes "\<And>m n x. x \<in> set xs \<Longrightarrow> keeps (c \<or> versioned m) (f (m, n) x) (\<lambda>p. versioned (fst p)) (\<lambda>_. True)"
    and "versioned (fst mn) \<Longrightarrow> c"
  shows "keeps c (each_of f xs mn) (\<lambda>p. versioned (fst p)) (\<lambda>_. True)"
proof (rule keeps_each_of)
  fix acc x assume "x \<in> set xs"
  then show "keeps (c \<or> versioned (fst acc)) (f acc x) (\<lambda>p. versioned (fst p)) (\<lambda>_. True)"
    using assms(1) [of x "fst acc" "snd acc"] by simp
qed (use assms(2) in simp_all)

lemmas header_loop = meta_loop [THEN keeps_bnd] pair_loop [THEN keeps_bnd]

lemma safe_hash_reads [keep]:
  "safe c (hget_cmd ops name a)" "safe c (hmget_cmd ops name a)" "safe c (hexists_cmd ops name a)"
  "safe c (coll_len_cmd ops ty name a)" "safe c (hlen_cmd ops name a)" "safe c (hstrlen_cmd ops name a)"
  "safe c (hgetall_cmd ops name a)"
  unfolding hget_cmd_def hmget_cmd_def hexists_cmd_def coll_len_cmd_def hlen_cmd_def hstrlen_cmd_def hgetall_cmd_def
  by (intro keep safe_loop)+

lemma safe_hash_writes [keep]:
  "safe c (hset_cmd ops name a)" "safe c (hsetnx_cmd ops name a)" "safe c (hdel_cmd ops name a)"
  "safe c (hincrby_cmd ops name a)"
  unfolding hset_cmd_def hset_pair_def hsetnx_cmd_def hdel_cmd_def hdel_field_def hincrby_cmd_def
  by (intro keep header_loop keeps_ret; auto split: if_splits)+

lemma safe_exec_hash: "pred_option (safe c) (exec_hash ops name a)"
  unfolding exec_hash_def by (intro keep)

text \<open>Element keys are neither deadlines nor values.\<close>

lemmas element_keys = list_key_def set_key_def setpos_key_def zmem_key_def zscore_key_def

lemma keeps_reply_cases [keep]:
  "(\<And>v. r = RBulk v \<Longrightarrow> keeps c (m1 v) L P) \<Longrightarrow> keeps c m2 L P \<Longrightarrow>
     keeps c (case r of RBulk v \<Rightarrow> m1 v | _ \<Rightarrow> m2) L P"
  by (cases r) simp_all

lemma keeps_push_step:
  "(versioned m \<Longrightarrow> c) \<Longrightarrow> keeps c (push_step ops k l m v) versioned (\<lambda>_. True)"
  unfolding push_step_def by (intro keep keeps_ret; auto simp: element_keys split: if_splits)

lemma safe_push_cmd [keep]: "safe c (push_cmd ops name a)"
  unfolding push_cmd_def
  by (intro keep header_loop keeps_push_step; auto split: option.splits)

lemma keeps_pop_loop:
  "(versioned (fst p) \<Longrightarrow> c) \<Longrightarrow> keeps c (pop_loop ops k l n p) (\<lambda>p. versioned (fst p)) (\<lambda>_. True)"
proof (induction n arbitrary: c p)
  case (Suc n)
  have "keeps c (pop_step ops k l p) (\<lambda>p. versioned (fst p)) (\<lambda>_. True)"
    unfolding pop_step_def by (intro keep keeps_ret; use Suc.prems in \<open>auto simp: element_keys split: if_splits\<close>)
  then show ?case unfolding pop_loop.simps by (rule keeps_bnd) (rule Suc.IH, simp)
qed (auto intro: keeps_ret)

lemma safe_pop_cmd [keep]: "safe c (pop_cmd ops name a)"
  unfolding pop_cmd_def by (intro keep keeps_pop_loop [THEN keeps_bnd]; simp)

lemma safe_delete_range [keep]: "safe c (delete_range ops k h lo hi)"
  unfolding delete_range_def by (intro keep safe_loop; simp add: element_keys)

lemma safe_list_items [keep]: "safe c (list_items ops k)"
  unfolding list_items_def by (intro keep)

lemma safe_rewrite_list [keep]: "(versioned m \<Longrightarrow> c) \<Longrightarrow> safe c (rewrite_list ops k m ttl xs)"
  unfolding rewrite_list_def
  by (intro keep safe_delete_range [THEN keeps_bnd] safe_loop; simp add: element_keys)

lemmas keep_list [keep] = safe_delete_range [THEN keeps_bnd] safe_list_items [THEN keeps_bnd]
  safe_rewrite_list [THEN keeps_bnd] safe_pop_cmd [THEN keeps_bnd] safe_push_cmd [THEN keeps_bnd]
  keeps_coll [THEN keeps_bnd, THEN keeps_bnd]

lemma safe_list_reads [keep]:
  "safe c (llen_cmd ops name a)" "safe c (lindex_cmd ops name a)" "safe c (lrange_cmd ops name a)"
  "safe c (lpos_cmd ops name a)"
  unfolding llen_cmd_def lindex_cmd_def lrange_cmd_def lpos_cmd_def by (intro keep)+

lemma safe_list_writes [keep]:
  "safe c (lset_cmd ops name a)" "safe c (ltrim_cmd ops name a)" "safe c (lrem_cmd ops name a)"
  "safe c (linsert_cmd ops name a)" "safe c (lmove_cmd ops name a)"
  unfolding lset_cmd_def ltrim_cmd_def lrem_cmd_def linsert_cmd_def lmove_cmd_def side_of_def
  by (intro keep; simp add: element_keys)+

lemma safe_exec_list: "pred_option (safe c) (exec_list ops name a)"
  unfolding exec_list_def by (intro keep)

section \<open>Sets\<close>

lemma keeps_set_add [keep]:
  assumes "versioned m \<Longrightarrow> c"
  shows "keeps c (set_add ops k m v) (\<lambda>p. versioned (fst p)) (\<lambda>_. True)"
  unfolding set_add_def by (intro keep keeps_ret; use assms in \<open>auto simp: element_keys\<close>)

lemma safe_fill_hole [keep]: "safe c (fill_hole ops k i j)"
  unfolding fill_hole_def by (intro keep; simp add: element_keys)

lemma keeps_set_rem [keep]:
  assumes "versioned m \<Longrightarrow> c"
  shows "keeps c (set_rem ops k m v) (\<lambda>p. versioned (fst p)) (\<lambda>_. True)"
  unfolding set_rem_def
  by (intro keep keeps_ret safe_fill_hole [THEN keeps_bnd]; use assms in \<open>auto simp: element_keys\<close>)

lemma safe_set_reads [keep]:
  "safe c (set_at ops k i)" "safe c (set_members ops k)" "safe c (is_member ops k present v)"
  unfolding set_at_def set_members_def is_member_def by (intro keep)+

lemmas keep_set [keep] = keeps_set_add [THEN keeps_bnd] keeps_set_rem [THEN keeps_bnd] safe_set_reads [THEN keeps_bnd]

lemma safe_set_cmds [keep]:
  "safe c (sismember_cmd ops name a)" "safe c (smismember_cmd ops name a)" "safe c (scard_cmd ops name a)"
  "safe c (smembers_cmd ops name a)"
  unfolding sismember_cmd_def smismember_cmd_def scard_cmd_def smembers_cmd_def by (intro keep safe_loop)+

lemma safe_set_changes [keep]:
  "safe c (sadd_cmd ops name a)" "safe c (srem_cmd ops name a)" "safe c (setop_cmd ops name a)"
  "safe c (smove_cmd ops name a)"
  unfolding sadd_cmd_def srem_cmd_def setop_cmd_def smove_cmd_def count_changed_def
  by (intro keep header_loop safe_loop keeps_ret; auto)+

lemma safe_random [keep]: "safe c (rand_member ops k n)" "safe c (thin_step all)"
  unfolding rand_member_def thin_step_def by (intro keep)+

lemma keeps_repeat:
  assumes "\<And>acc. P acc \<Longrightarrow> keeps (c \<or> L acc) (f acc) L P" and "P acc" and "L acc \<Longrightarrow> c"
  shows "keeps c (repeat_cmd n f acc) L P"
  using assms
proof (induction n arbitrary: c acc)
  case (Suc n)
  have "c \<or> L acc \<longleftrightarrow> c" using Suc.prems(3) by auto
  then have "keeps c (f acc) L P" using Suc.prems(1) [of acc] Suc.prems(2) by simp
  moreover have "keeps (c \<or> L acc') (repeat_cmd n f acc') L P" if "P acc'" for acc'
  proof (rule Suc.IH)
    fix a assume "P a"
    then have "keeps (c \<or> L a) (f a) L P" using Suc.prems(1) by simp
    then show "keeps ((c \<or> L acc') \<or> L a) (f a) L P" by (rule keeps_know) blast
  qed (use that in auto)
  ultimately show ?case unfolding repeat_cmd.simps by (rule keeps_bnd)
qed (auto intro: keeps_ret)

lemma safe_repeat: "(\<And>acc. safe c (f acc)) \<Longrightarrow> safe c (repeat_cmd n f acc)"
  by (rule keeps_repeat) (simp_all only: simp_thms)

lemma safe_sample_loop [keep]: "safe c (sample_loop ops k n want turns st)"
proof (induction turns arbitrary: c st)
  case 0
  then show ?case by (cases st) (simp add: safe_ret)
next
  case (Suc turns)
  obtain seen picked where st: "st = (seen, picked)" by (cases st)
  show ?case unfolding st sample_loop.simps by (intro keep Suc.IH)
qed

lemma safe_srandmember_picks [keep]: "safe c (srandmember_picks ops k m want)"
  unfolding srandmember_picks_def
  by (intro keep safe_repeat safe_random [THEN keeps_bnd])

lemma keeps_spop_steps:
  assumes "versioned m \<Longrightarrow> c"
  shows "keeps c (repeat_cmd n (spop_step ops k) (m, [])) (\<lambda>p. versioned (fst p)) (\<lambda>_. True)"
proof (rule keeps_repeat)
  fix p :: "meta \<times> bytes list"
  show "keeps (c \<or> versioned (fst p)) (spop_step ops k p) (\<lambda>p. versioned (fst p)) (\<lambda>_. True)"
    unfolding spop_step_def by (intro keep keeps_ret safe_random [THEN keeps_bnd]; auto)
qed (use assms in auto)

lemma safe_spop_cmd [keep]: "safe c (spop_cmd ops name a)"
  unfolding spop_cmd_def
  by (intro keep safe_srandmember_picks [THEN keeps_bnd] keeps_spop_steps [THEN keeps_bnd]; simp)

lemma safe_exec_set: "pred_option (safe c) (exec_set ops name a)"
  unfolding exec_set_def by (intro keep)

section \<open>Sorted sets\<close>

lemma safe_zset_steps [keep]:
  "safe c (zscore ops k mbr)" "safe c (zremove ops k mbr)" "safe c (zadd_store ops k s mbr)"
  "safe c (zby_score ops k lo hi down offset limit)" "safe c (zby_rank ops k offset count down)"
  "safe c (zby_lex ops k lb hb down offset count)"
  unfolding zscore_def zremove_def zadd_store_def zby_score_def zby_rank_def zby_lex_def erange_def
  by (intro keep; simp add: element_keys)+

lemmas keep_zset [keep] = safe_zset_steps [THEN keeps_bnd]

lemma keeps_zadd_steps:
  assumes "versioned (za_meta z) \<Longrightarrow> c"
  shows "keeps c (each_of (zadd_step ops k zo) ps z) (\<lambda>z. versioned (za_meta z)) (\<lambda>_. True)"
proof (rule keeps_each_of)
  fix z x
  show "keeps (c \<or> versioned (za_meta z)) (zadd_step ops k zo z x) (\<lambda>z. versioned (za_meta z)) (\<lambda>_. True)"
    unfolding zadd_step_def by (intro keep keeps_ret; auto simp: element_keys split: if_splits)
qed (use assms in auto)

lemma safe_zadd_cmd [keep]: "safe c (zadd_cmd ops name a)"
  unfolding zadd_cmd_def by (intro keep keeps_zadd_steps [THEN keeps_bnd]; simp)

lemma keeps_zremove_all:
  assumes "versioned m \<Longrightarrow> c"
  shows "keeps c (zremove_all ops k m items) versioned (\<lambda>_. True)"
  unfolding zremove_all_def
  by (rule meta_loop; (intro keep keeps_ret)?; use assms in auto)

lemma safe_zset_reads [keep]:
  "safe c (zscore_cmd ops name a)" "safe c (zmscore_cmd ops name a)" "safe c (zcard_cmd ops name a)"
  "safe c (zcount_cmd ops name a)" "safe c (zlexcount_cmd ops name a)" "safe c (zrank_cmd ops name a)"
  "safe c (zincrby_cmd ops name a)"
  unfolding zscore_cmd_def zmscore_cmd_def zcard_cmd_def zcount_cmd_def zlexcount_cmd_def zrank_cmd_def
    zincrby_cmd_def erange_def prod.case
  by (intro keep safe_loop)+

lemma safe_zrange_parts [keep]:
  "safe c (zrange_rank ops a m down)" "safe c (zrange_items ops a zr bounds m)"
  "safe c (zremrange_victims ops name a bounds m)"
proof -
  show rank: "safe c (zrange_rank ops a m down)" for c a m down
    unfolding zrange_rank_def by (intro keep)
  show "safe c (zrange_items ops a zr bounds m)" "safe c (zremrange_victims ops name a bounds m)"
    unfolding zrange_items_def zremrange_victims_def by (intro keep rank)+
qed

lemma safe_zset_changes [keep]:
  "safe c (zrem_cmd ops name a)" "safe c (zrange_cmd ops name a)" "safe c (zremrange_cmd ops name a)"
  "safe c (zpop_cmd ops name a)"
  unfolding zrem_cmd_def zrange_cmd_def zremrange_cmd_def zpop_cmd_def count_changed_def zremove_step_def
  by (intro keep header_loop keeps_ret keeps_zremove_all [THEN keeps_bnd] safe_zrange_parts [THEN keeps_bnd];
      auto split: if_splits)+

lemma safe_exec_zset: "pred_option (safe c) (exec_zset ops name a)"
  unfolding exec_zset_def by (intro keep)

end

end
