(* ===== verification/Ks_Safe_Stream.thy ===== *)
theory Ks_Safe_Stream
  imports Ks_Safe
begin

text \<open>The stream commands meet the triple of \<open>Ks_Frame\<close>; then so does every dispatcher.\<close>

section \<open>Streams\<close>

lemmas stream_keys = ent_key_def group_key_def pel_key_def con_key_def

lemma stream_meta [simp]: "\<not> versioned (st_m new_stream)"
  by (simp add: new_stream_def)

lemma xsetid_apply_meta: "xsetid_apply i so s = Inr s' \<Longrightarrow> st_m s' = st_m s"
  by (auto simp: xsetid_apply_def split: if_splits)

context frame_store
begin

lemma safe_ids [keep]: "safe c (strict_id a)" "safe c (strict_ids xs)" "safe c (range_start a)" "safe c (range_end a)"
  "safe c (explicit_id a)"
proof -
  show id: "safe c (strict_id a)" for c a unfolding strict_id_def by (intro keep)
  show "safe c (strict_ids xs)" "safe c (range_start a)" "safe c (range_end a)" "safe c (explicit_id a)"
    unfolding strict_ids_def range_start_def range_end_def range_bound_def explicit_id_def
    by (intro keep safe_loop id id [THEN keeps_bnd])+
qed

lemma keeps_load_stream: "keeps c (load_stream ops k) (\<lambda>x. x \<noteq> None) (\<lambda>_. True)"
  unfolding load_stream_def by (intro keep keeps_ret; auto split: option.splits)

lemma keeps_save_stream:
  assumes "versioned (st_m s) \<Longrightarrow> c"
  shows "keeps c (save_stream ops k s) (\<lambda>_. True) (\<lambda>_. True)"
  unfolding save_stream_def by (intro keep keeps_ret; use assms in \<open>auto simp: versioned_def\<close>)

lemma safe_stream_reads [keep]:
  "safe c (stream_range ops k lo hi down count)" "safe c (first_id ops k)" "safe c (stream_entry ops k i)"
  unfolding stream_range_def first_id_def stream_entry_def by (intro keep)+

lemmas keep_stream [keep] = safe_ids [THEN keeps_bnd] safe_stream_reads [THEN keeps_bnd]
  keeps_load_stream [THEN keeps_bnd] keeps_load_stream [THEN keeps_weak] keeps_save_stream [THEN keeps_bnd]
  keeps_save_stream [THEN keeps_weak]

lemma safe_trim_excess [keep]: "safe c (trim_excess ops k s how)"
  unfolding trim_excess_def by (cases how; simp only: trim_how.case; intro keep)

lemma keeps_trim_stream [keep]:
  assumes "versioned (st_m s) \<Longrightarrow> c"
  shows "keeps c (trim_stream ops k s t) (\<lambda>p. versioned (st_m (fst p))) (\<lambda>_. True)"
  unfolding trim_stream_def
  by (intro keep keeps_ret safe_loop safe_trim_excess [THEN keeps_bnd]; use assms in \<open>auto simp: stream_keys\<close>)

lemma safe_add_entry [keep]:
  assumes "versioned (st_m s) \<Longrightarrow> c"
  shows "safe c (add_entry ops k s tspec fs i)"
  unfolding add_entry_def
  by (intro keep keeps_trim_stream [THEN keeps_bnd]; use assms in \<open>auto simp: stream_keys\<close>)

lemma keeps_xdel_steps:
  assumes "versioned (st_m s) \<Longrightarrow> c"
  shows "keeps c (each_of (xdel_step ops k) ids (s, n)) (\<lambda>p. versioned (st_m (fst p))) (\<lambda>_. True)"
proof (rule keeps_each_of)
  fix p :: "strm \<times> int" and i
  show "keeps (c \<or> versioned (st_m (fst p))) (xdel_step ops k p i) (\<lambda>p. versioned (st_m (fst p))) (\<lambda>_. True)"
    unfolding xdel_step_def by (intro keep keeps_ret; auto simp: stream_keys)
qed (use assms in auto)

lemma safe_stream_entries [keep]:
  "safe c (xadd_cmd ops name a)" "safe c (xlen_cmd ops name a)" "safe c (xrange_cmd ops name a)"
  "safe c (xdel_cmd ops name a)" "safe c (xtrim_cmd ops name a)" "safe c (xsetid_cmd ops name a)"
  unfolding xadd_cmd_def xlen_cmd_def xrange_cmd_def xrange_count_def xdel_cmd_def xtrim_cmd_def xsetid_cmd_def
  by (intro keep keeps_xdel_steps [THEN keeps_bnd] keeps_trim_stream [THEN keeps_bnd];
      auto dest: xsetid_apply_meta split: option.splits)+

section \<open>Consumer groups\<close>

lemma safe_group_records [keep]:
  "safe c (load_group ops k g)" "safe c (save_group ops k g gr)" "safe c (groups ops k)" "safe c (load_pel ops k g i)"
  "safe c (put_pel ops k g i pl)" "safe c (pel_range ops k g lo hi n sel)" "safe c (load_con ops k g x)"
  "safe c (save_con ops k g x seen act)" "safe c (consumers ops k g)"
  unfolding load_group_def save_group_def groups_def load_pel_def put_pel_def pel_range_def load_con_def
    save_con_def consumers_def
  by (intro keep; simp add: stream_keys)+

lemmas keep_groups [keep] = safe_group_records [THEN keeps_bnd]

text \<open>A prefix read inside a family meets neither deadlines nor values.\<close>

lemma prefix_plain:
  assumes "ebase k s @ r \<le> x" and "x < (ebase k s @ r) @ q"
  shows "x \<noteq> expk u \<and> x \<noteq> kv u"
  using family_plain [of k s r x k s "r @ q"] assms by simp

lemma safe_delete_prefix [keep]: "safe c (delete_prefix ops (ekey k s r))"
  using prefix_plain [of k s r _ "[255, 255]"]
  by (force simp: delete_prefix_def ekey_def intro!: keep safe_loop)

lemma safe_group_steps [keep]:
  "safe c (touch_con ops k g x act)" "safe c (has_group ops k g)" "safe c (has_tombstones ops k s start)"
  "safe c (estimate_read ops k s i)"
  unfolding touch_con_def has_group_def has_tombstones_def estimate_read_def by (intro keep)+

lemmas keep_group_steps [keep] = safe_delete_prefix [THEN keeps_bnd] safe_group_steps [THEN keeps_bnd]

lemma safe_group_moves [keep]:
  "safe c (lag ops k s gr)" "safe c (start_of ops grp k idv)" "safe c (read_after ops k n after)"
  "safe c (deliver ops k g x noack s gr e)" "safe c (redeliver ops k g out pl)"
  "safe c (xpending_ext args)" "safe c (xclaim_step ops k g x idle xc now out i)"
  "safe c (set_group ops k g s explicit rd)"
  unfolding lag_def start_of_def read_after_def deliver_def redeliver_def xpending_ext_def xclaim_step_def set_group_def
  by (intro keep; simp add: stream_keys)+

lemmas keep_group_moves [keep] = safe_group_moves [THEN keeps_bnd]

lemma keeps_start_cases [keep]:
  "(\<And>i. st = After i \<Longrightarrow> keeps c (m1 i) L P) \<Longrightarrow> (st = NewEntries \<Longrightarrow> keeps c m2 L P) \<Longrightarrow>
     keeps c (case st of After i \<Rightarrow> m1 i | NewEntries \<Rightarrow> m2) L P"
  by (cases st) simp_all

lemma safe_read_stream [keep]: "safe c (read_stream ops grp n noack ks)"
  unfolding read_stream_def read_new_def read_history_def by (intro keep safe_loop; simp)

lemma safe_xread [keep]: "safe c (xread ops grp a)"
  unfolding xread_def by (intro keep safe_loop safe_read_stream [THEN keeps_bnd])

lemma safe_autoclaim_loop: "safe c (autoclaim_loop ops k g x idle justid n now pend att cl dl)"
proof (induction pend arbitrary: c att cl dl)
  case (Cons e pend)
  obtain i pl where e: "e = (i, pl)" by (cases e)
  show ?case unfolding e autoclaim_loop.simps by (intro keep Cons.IH; simp add: stream_keys)
qed (simp add: safe_ret)

lemma safe_group_cmds [keep]:
  "safe c (xread_cmd ops name a)" "safe c (xreadgroup_cmd ops name a)" "safe c (xack_cmd ops name a)"
  "safe c (xpending_cmd ops name a)" "safe c (xclaim_cmd ops name a)" "safe c (xautoclaim_cmd ops name a)"
  unfolding xread_cmd_def xreadgroup_cmd_def xack_cmd_def xpending_cmd_def xclaim_cmd_def xautoclaim_cmd_def
  by (intro keep safe_loop safe_autoclaim_loop [THEN keeps_bnd]; simp add: stream_keys)+

lemma safe_xgroup_parts [keep]:
  "safe c (xgroup_create ops a)" "safe c (xgroup_setid ops a)" "safe c (xgroup_destroy ops a)"
  "safe c (xgroup_consumer ops create a)"
  unfolding xgroup_create_def xgroup_setid_def xgroup_destroy_def xgroup_consumer_def pel_base_def con_base_def
  by (intro keep safe_loop; simp add: stream_keys)+

lemma safe_xinfo_parts [keep]:
  "safe c (need_stream ops k)" "safe c (xinfo_stream ops k)" "safe c (xinfo_group ops k s ng)"
proof -
  show need: "safe c (need_stream ops k)" for c k unfolding need_stream_def by (intro keep)
  show "safe c (xinfo_stream ops k)" "safe c (xinfo_group ops k s ng)"
    unfolding xinfo_stream_def xinfo_group_def by (intro keep need [THEN keeps_bnd])+
qed

lemma safe_xgroup_xinfo [keep]: "safe c (xgroup_cmd ops name a)" "safe c (xinfo_cmd ops name a)"
  unfolding xgroup_cmd_def xinfo_cmd_def by (intro keep safe_loop safe_xinfo_parts [THEN keeps_bnd])+

lemma safe_exec_stream: "pred_option (safe c) (exec_stream ops name a)"
  unfolding exec_stream_def by (intro keep)

lemma safe_stream_last_id: "safe c (stream_last_id ops k)"
proof -
  have "snd (stream_last_id ops k cx) = snd (load_stream ops k cx)" for cx
    by (auto simp: stream_last_id_def split: prod.split sum.split option.split)
  then show ?thesis using keeps_load_stream [of c k] by (auto simp: keeps_def)
qed

end

end
