(* ===== verification/Ks_Agree.thy ===== *)
theory Ks_Agree
  imports Ks_Safe_Stream
begin

text \<open>
  What a command reads of its store.  Two stores are \<open>alike\<close> when point reads agree on them and
  stay in agreement under the same writes; every command whose keys are not empty gives the same
  reply on two such stores, notes the same deadlines and leaves alike stores.  Range reads are
  where this could fail: the keyspace only reads ranges whose keys all live on the shard it names.
\<close>

section \<open>Ranges on one shard\<close>

definition colocated :: "key \<Rightarrow> key \<Rightarrow> key \<Rightarrow> bool" where
  "colocated hint a b \<longleftrightarrow> (\<forall>x. a \<le> x \<and> x < b \<longrightarrow> shard_of x = shard_of hint)"

lemma between_prefixed:
  assumes "P @ r \<le> x" and "x < P @ r'"
  shows "\<exists>q. x = P @ (q :: bytes)"
  using assms
proof (induction P arbitrary: x)
  case (Cons p P)
  then obtain x' where "x = p # x'" by (cases x) (auto simp: not_less_iff_gr_or_eq)
  then show ?case using Cons by auto
qed simp

lemma colocated_family:
  assumes "k \<noteq> []"
  shows "colocated (ekey k s r0) (ekey k s r) (ekey k s r')"
  unfolding colocated_def
proof (intro allI impI)
  fix x assume "ekey k s r \<le> x \<and> x < ekey k s r'"
  then obtain q where "x = ekey k s q" using between_prefixed [of "ebase k s" r x r'] by (auto simp: ekey_def)
  then show "shard_of x = shard_of (ekey k s r0)" using ekey_shard [OF assms] by simp
qed

lemma colocated_rest:
  assumes "k \<noteq> []" and "s \<noteq> 255"
  shows "colocated (ekey k s r0) (ekey k s r) (ekey k (s + 1) [])"
  unfolding colocated_def
proof (intro allI impI)
  fix x assume x: "ekey k s r \<le> x \<and> x < ekey k (s + 1) []"
  have "ebase k s \<le> ekey k s r" using ekey_le [of k s "[]" r] by (simp only: ekey_empty) simp
  then have "ebase k s \<le> x \<and> x < ebase k (s + 1)" using x by (auto simp: ekey_empty)
  then obtain q where "x = ekey k s q" using in_erange [OF assms(2)] by blast
  then show "shard_of x = shard_of (ekey k s r0)" using ekey_shard [OF assms(1)] by simp
qed

lemma ekey_append: "ekey k s r @ q = ekey k s (r @ q)"
  by (simp add: ekey_def)

lemma colocated_sub: "colocated h a b \<Longrightarrow> a \<le> a' \<Longrightarrow> b' \<le> b \<Longrightarrow> colocated h a' b'"
  unfolding colocated_def by (meson order_trans less_le_trans)

lemmas ebase_ekey = ekey_empty [symmetric]

lemma type_subs_plain: "sub \<in> set (type_subs ty) \<Longrightarrow> sub \<noteq> 255"
  by (auto simp: type_subs_def SUB_HASH_def SUB_LIST_def SUB_SET_def SUB_SETPOS_def SUB_ZMEM_def SUB_ZSCORE_def
      SUB_XENT_def SUB_XGRP_def SUB_XPEL_def SUB_XCON_def split: if_splits)

lemma subs_plain [simp]:
  "SUB_HASH \<noteq> 255" "SUB_LIST \<noteq> 255" "SUB_SET \<noteq> 255" "SUB_SETPOS \<noteq> 255" "SUB_ZMEM \<noteq> 255" "SUB_ZSCORE \<noteq> 255"
  "SUB_XENT \<noteq> 255" "SUB_XGRP \<noteq> 255" "SUB_XPEL \<noteq> 255" "SUB_XCON \<noteq> 255"
  by (simp_all add: SUB_HASH_def SUB_LIST_def SUB_SET_def SUB_SETPOS_def SUB_ZMEM_def SUB_ZSCORE_def
      SUB_XENT_def SUB_XGRP_def SUB_XPEL_def SUB_XCON_def)

section \<open>Agreement\<close>

named_theorems agree \<open>agreement of the command building blocks\<close>

locale twin_store = command_store ops wf
  for ops :: "'s store_ops" and wf :: "'s \<Rightarrow> bool" +
  fixes twins :: "'s \<Rightarrow> 's \<Rightarrow> bool"
  assumes twins_wf: "twins s t \<Longrightarrow> wf s \<and> wf t"
    and twins_read: "twins s t \<Longrightarrow> fst (so_get ops k s) = fst (so_get ops k t)"
    and twins_get: "twins s t \<Longrightarrow> twins (snd (so_get ops k s)) (snd (so_get ops k t))"
    and twins_put: "twins s t \<Longrightarrow> twins (so_put ops k v s) (so_put ops k v t)"
    and twins_delete: "twins s t \<Longrightarrow> twins (so_delete ops k s) (so_delete ops k t)"
begin

definition twin_cx :: "'s cx \<Rightarrow> 's cx \<Rightarrow> bool" where
  "twin_cx c d \<longleftrightarrow> twins (cx_tx c) (cx_tx d) \<and> cx_now c = cx_now d \<and> cx_readonly c = cx_readonly d
     \<and> cx_exp c = cx_exp d \<and> cx_created c = cx_created d \<and> cx_rnd c = cx_rnd d \<and> cx_clock c = cx_clock d"

definition agrees_on :: "('s, 'a) cmd \<Rightarrow> ('a \<Rightarrow> bool) \<Rightarrow> bool" where
  "agrees_on m P \<longleftrightarrow>
     (\<forall>c d. twin_cx c d \<longrightarrow> fst (m c) = fst (m d) \<and> twin_cx (snd (m c)) (snd (m d)) \<and> (\<forall>x. fst (m c) = Inr x \<longrightarrow> P x))"

abbreviation agrees :: "('s, 'a) cmd \<Rightarrow> bool" where
  "agrees m \<equiv> agrees_on m (\<lambda>_. True)"

lemma agreesD: "agrees m \<Longrightarrow> twin_cx c d \<Longrightarrow> fst (m c) = fst (m d) \<and> twin_cx (snd (m c)) (snd (m d))"
  by (simp add: agrees_on_def)

lemma agrees_weak: "agrees_on m P \<Longrightarrow> agrees m"
  by (auto simp: agrees_on_def)

lemma agrees_ret: "agrees (ret x)"
  by (simp add: agrees_on_def ret_def)

lemma agrees_fail: "agrees (fail e)"
  by (simp add: agrees_on_def fail_def)

lemma agrees_on_bnd:
  assumes m: "agrees_on m P" and f: "\<And>x. P x \<Longrightarrow> agrees_on (f x) Q"
  shows "agrees_on (bnd m f) Q"
  unfolding agrees_on_def
proof (intro allI impI)
  fix c d assume t: "twin_cx c d"
  obtain r c' where 1: "m c = (r, c')" by (cases "m c")
  obtain q d' where 2: "m d = (q, d')" by (cases "m d")
  have "fst (m c) = fst (m d) \<and> twin_cx (snd (m c)) (snd (m d)) \<and> (\<forall>x. fst (m c) = Inr x \<longrightarrow> P x)"
    using m t by (simp add: agrees_on_def)
  then have q: "q = r" and t': "twin_cx c' d'" and P: "\<forall>x. r = Inr x \<longrightarrow> P x" by (simp_all add: 1 2)
  show "fst (bnd m f c) = fst (bnd m f d) \<and> twin_cx (snd (bnd m f c)) (snd (bnd m f d))
      \<and> (\<forall>x. fst (bnd m f c) = Inr x \<longrightarrow> Q x)"
  proof (cases r)
    case (Inr x)
    then show ?thesis using f [of x] t' P by (simp add: agrees_on_def bnd_def 1 2 q)
  qed (use t' in \<open>simp add: bnd_def 1 2 q\<close>)
qed

lemma agrees_bnd: "agrees_on m P \<Longrightarrow> (\<And>x. P x \<Longrightarrow> agrees (f x)) \<Longrightarrow> agrees (bnd m f)"
  by (rule agrees_on_bnd)

lemma agrees_on_ret: "P x \<Longrightarrow> agrees_on (ret x) P"
  by (simp add: agrees_on_def ret_def)

text \<open>Control structures.\<close>

lemma agrees_cases [agree]:
  "(b \<Longrightarrow> agrees m1) \<Longrightarrow> (\<not> b \<Longrightarrow> agrees m2) \<Longrightarrow> agrees (if b then m1 else m2)"
  "(w = None \<Longrightarrow> agrees m1) \<Longrightarrow> (\<And>y. w = Some y \<Longrightarrow> agrees (m3 y)) \<Longrightarrow> agrees (case w of None \<Rightarrow> m1 | Some y \<Rightarrow> m3 y)"
  "(\<And>y z. p = (y, z) \<Longrightarrow> agrees (m4 y z)) \<Longrightarrow> agrees (case p of (y, z) \<Rightarrow> m4 y z)"
  "(\<And>y z. p = (y, z) \<Longrightarrow> agrees (m0 y z u)) \<Longrightarrow> agrees ((case p of (y, z) \<Rightarrow> m0 y z) u)"
  "(\<And>y. t = Inl y \<Longrightarrow> agrees (m5 y)) \<Longrightarrow> (\<And>z. t = Inr z \<Longrightarrow> agrees (m6 z)) \<Longrightarrow>
     agrees (case t of Inl y \<Rightarrow> m5 y | Inr z \<Rightarrow> m6 z)"
  "(n = ENone \<Longrightarrow> agrees m1) \<Longrightarrow> (\<And>y. n = EStr y \<Longrightarrow> agrees (m7 y)) \<Longrightarrow> (\<And>z. n = EColl z \<Longrightarrow> agrees (m8 z)) \<Longrightarrow>
     agrees (case n of ENone \<Rightarrow> m1 | EStr y \<Rightarrow> m7 y | EColl z \<Rightarrow> m8 z)"
  "agrees (m9 x) \<Longrightarrow> agrees (Let x m9)"
  by (auto split: option.split prod.split sum.split ent.split)

lemma agrees_val_cases [agree]:
  assumes "\<And>x. agrees (n1 x)" and "\<And>x. agrees (n2 x)" and "\<And>x. agrees (n3 x)" and "\<And>x. agrees (n4 x)"
    and "\<And>x. agrees (n5 x)" and "agrees n6" and "\<And>x. agrees (n7 x)"
  shows "agrees (case v of VBytes x1 \<Rightarrow> n1 x1 | VInt x2 \<Rightarrow> n2 x2 | VFloat x3 \<Rightarrow> n3 x3 | VVector x4 \<Rightarrow> n4 x4
       | VRow x5 \<Rightarrow> n5 x5 | VTombstone \<Rightarrow> n6 | VMeta x7 \<Rightarrow> n7 x7)"
  using assms by (cases v) simp_all

lemma agrees_reply_cases [agree]:
  "(\<And>v. r = RBulk v \<Longrightarrow> agrees (m1 v)) \<Longrightarrow> agrees m2 \<Longrightarrow> agrees (case r of RBulk v \<Rightarrow> m1 v | _ \<Rightarrow> m2)"
  by (cases r) simp_all

lemma agrees_offered [agree]:
  "(b \<Longrightarrow> pred_option Q x) \<Longrightarrow> (\<not> b \<Longrightarrow> pred_option Q y) \<Longrightarrow> pred_option Q (if b then x else y)"
  "Q m \<Longrightarrow> pred_option Q (Some m)"
  "pred_option Q None"
  by simp_all

lemma agrees_norm [agree]:
  "agrees (f1 x) \<Longrightarrow> agrees (bnd (ret x) f1)"
  "agrees (bnd (fail e) f2)"
  "agrees (bnd m (\<lambda>x. bnd (g x) f3)) \<Longrightarrow> agrees (bnd (bnd m g) f3)"
  "(b \<Longrightarrow> agrees (f4 ())) \<Longrightarrow> agrees (bnd (need name b) f4)"
  "(\<And>x. a = Some x \<Longrightarrow> agrees (f5 x)) \<Longrightarrow> agrees (bnd (ok_or a e) f5)"
  "(\<And>x. r = Inr x \<Longrightarrow> agrees (f6 x)) \<Longrightarrow> agrees (bnd (from_sum r) f6)"
  by (auto simp: cmd_norm agrees_fail split: option.split sum.split)

lemmas agrees_moved [agree] = bnd_norm(4-) [THEN ssubst, where P = agrees]

lemma agrees_tails [agree]: "agrees (ok_or a e)" "agrees (from_sum r)" "agrees (need name b)"
  by (auto simp: ok_or_def from_sum_def need_def agrees_fail agrees_ret split: option.split sum.split)

section \<open>The primitives\<close>

lemma twin_view: "twins s t \<Longrightarrow> view s = view t"
  by (simp add: fun_eq_iff view_def twins_read)

lemma agrees_get: "agrees (get_key ops k)"
  by (simp add: agrees_on_def get_key_eq twin_cx_def twins_get) (metis twin_view)

lemma agrees_put: "agrees (put_key ops k v)"
  by (simp add: agrees_on_def put_key_def twin_cx_def twins_put)

lemma agrees_delete: "agrees (delete_key ops k)"
  by (simp add: agrees_on_def delete_key_def twin_cx_def twins_delete)

lemma twin_scan:
  assumes t: "twins s u" and c: "colocated h a b"
  shows "so_scan_range ops h a b n r s = so_scan_range ops h a b n r u"
proof (cases "a < b")
  case True
  have sh: "\<And>k. a \<le> k \<Longrightarrow> k < b \<Longrightarrow> shard_of k = shard_of h" using c by (simp add: colocated_def)
  note w = twins_wf [OF t]
  obtain full where f: "range_of (view s) a b full" using scan_range [of s a b h n] w True sh by (auto simp: view_def)
  then have "range_of (view u) a b full" by (simp add: twin_view [OF t])
  then show ?thesis
    using scan_range_full [of s a b h full n] scan_range_full [of u a b h full n] w True sh f by (cases r) simp_all
qed (simp add: scan_empty)

lemma agrees_scan: "colocated h a b \<Longrightarrow> agrees_on (scan_keys ops h a b n r) (\<lambda>kvs. \<forall>x\<in>set kvs. a \<le> fst x \<and> fst x < b)"
  using twin_scan by (auto simp: agrees_on_def scan_keys_def twin_cx_def dest: scan_within)

lemma agrees_notes: "agrees note_created" "agrees (note_exp k at)"
  by (simp_all add: agrees_on_def note_created_def note_exp_def twin_cx_def)

lemma agrees_reads: "agrees now_cmd" "agrees readonly_cmd" "agrees supply_cmd" "agrees rand_cmd" "agrees clock_cmd"
  by (simp_all add: agrees_on_def now_cmd_def readonly_cmd_def supply_cmd_def rand_cmd_def clock_cmd_def twin_cx_def split: list.split)

lemma agrees_set_ttl: "agrees (set_ttl ops k had at)"
  unfolding set_ttl_def
  by (cases at) (auto intro!: agrees_bnd [OF agrees_put] agrees_bnd [OF agrees_delete] agrees_notes agrees_ret)

lemmas agree_primitives [agree] = agrees_fail agrees_ret agrees_reads agrees_put agrees_delete agrees_set_ttl
  agrees_get agrees_notes agrees_scan [THEN agrees_weak]

lemmas agree_bnds [agree] = agrees_reads [THEN agrees_bnd] agrees_put [THEN agrees_bnd] agrees_delete [THEN agrees_bnd]
  agrees_set_ttl [THEN agrees_bnd] agrees_get [THEN agrees_bnd] agrees_scan [THEN agrees_bnd] agrees_notes [THEN agrees_bnd]

section \<open>Loops\<close>

lemma agrees_on_each_of:
  "(\<And>acc x. x \<in> set xs \<Longrightarrow> P acc \<Longrightarrow> agrees_on (f acc x) P) \<Longrightarrow> P acc \<Longrightarrow> agrees_on (each_of f xs acc) P"
proof (induction xs arbitrary: acc)
  case (Cons x xs)
  then show ?case by (auto intro!: agrees_on_bnd [of _ P])
qed (simp add: agrees_on_ret)

lemma agrees_each_of: "(\<And>acc x. x \<in> set xs \<Longrightarrow> agrees (f acc x)) \<Longrightarrow> agrees (each_of f xs acc)"
  by (rule agrees_on_each_of) simp_all

lemmas agree_loop = agrees_each_of agrees_each_of [THEN agrees_bnd]

lemma agrees_pages: "colocated h a b \<Longrightarrow> agrees (pages ops h a b rv f n acc)"
proof (induction n arbitrary: a b acc)
  case (Suc n)
  have sub: "colocated h (fst (last page) @ [0]) b" "colocated h a (fst (last page))"
    if "\<forall>x\<in>set page. a \<le> fst x \<and> fst x < b" "page \<noteq> []" for page :: "(key \<times> val) list"
  proof -
    have "a \<le> fst (last page)" "fst (last page) < b" using that by simp_all
    moreover have "fst (last page) \<le> fst (last page) @ [0]" using same_prefix_le [of "fst (last page)" "[]" "[0]"] by simp
    ultimately show "colocated h (fst (last page) @ [0]) b" "colocated h a (fst (last page))"
      using colocated_sub [OF Suc.prems] by (meson order_trans order_refl less_imp_le)+
  qed
  show ?case
    unfolding pages.simps Let_def by (intro agree Suc.IH Suc.prems sub; assumption)
qed (simp add: agrees_ret)

lemma agrees_each [agree]: "colocated h a b \<Longrightarrow> agrees (each ops h a b rv f acc)"
  unfolding each_def by (rule agrees_bnd [OF agrees_scan]) (simp_all only: agrees_pages)

lemma agrees_delete_family [agree]: "k \<noteq> [] \<Longrightarrow> s \<noteq> 255 \<Longrightarrow> agrees (delete_family ops k s)"
  using colocated_rest [of k s "[]" "[]"]
  by (auto simp: delete_family_def erange_def ebase_ekey intro!: agree agree_loop)

lemma agrees_delete_elements [agree]: "k \<noteq> [] \<Longrightarrow> agrees (delete_elements ops k ty)"
  by (auto simp: delete_elements_def dest: type_subs_plain intro!: agree agree_loop)

lemma agrees_elements [agree]: "k \<noteq> [] \<Longrightarrow> s \<noteq> 255 \<Longrightarrow> agrees (elements ops k s)"
  using colocated_rest [of k s "[]" "[]"] by (auto simp: elements_def erange_def ebase_ekey intro!: agree)

lemmas agree_loops [agree] = agrees_each [THEN agrees_bnd] agrees_delete_family [THEN agrees_bnd]
  agrees_delete_elements [THEN agrees_bnd] agrees_elements [THEN agrees_bnd]

section \<open>The helpers of the context\<close>

lemma agrees_delete_all [agree]: "k \<noteq> [] \<Longrightarrow> agrees (delete_all ops k e)"
  unfolding delete_all_def by (intro agree)

lemma agrees_load [agree]: "k \<noteq> [] \<Longrightarrow> agrees (load ops k)"
  unfolding load_def by (intro agree agrees_delete_all [THEN agrees_bnd])

lemma agrees_coll [agree]: "k \<noteq> [] \<Longrightarrow> agrees (coll ops k ty)"
  unfolding coll_def by (intro agree agrees_load [THEN agrees_bnd])

lemma agrees_coll_or_new [agree]: "k \<noteq> [] \<Longrightarrow> agrees (coll_or_new ops k ty)"
  unfolding coll_or_new_def by (intro agree agrees_coll [THEN agrees_bnd])

lemma agrees_put_meta [agree]: "agrees (put_meta ops k m ttl)"
  unfolding put_meta_def by (intro agree)

lemma agrees_put_str [agree]: "k \<noteq> [] \<Longrightarrow> agrees (put_str ops k v old at)"
  unfolding put_str_def by (intro agree)

lemmas agree_helpers [agree] = agrees_delete_all [THEN agrees_bnd] agrees_load [THEN agrees_bnd] agrees_coll [THEN agrees_bnd]
  agrees_coll_or_new [THEN agrees_bnd] agrees_put_meta [THEN agrees_bnd] agrees_put_str [THEN agrees_bnd]

end

end
