(* ===== verification/Ks_Agree_Cmds.thy ===== *)
theory Ks_Agree_Cmds
  imports Ks_Agree
begin

text \<open>
  Every command of the dispatchers gives the same answer on alike stores, provided the keys it
  names are not empty.
\<close>

section \<open>The keys of a command\<close>

definition first_key :: "bytes list \<Rightarrow> bool" where
  "first_key a \<longleftrightarrow> (a \<noteq> [] \<longrightarrow> a ! 0 \<noteq> [])"

text \<open>
  The commands with more than one key, or with one that is not the first argument; all others
  name their first argument.
\<close>

definition many_keys :: "string list" where
  "many_keys = [''MGET'', ''MSET'', ''MSETNX'', ''DEL'', ''UNLINK'', ''EXISTS'', ''RENAME'', ''RENAMENX'',
     ''RPOPLPUSH'', ''LMOVE'', ''SINTER'', ''SUNION'', ''SDIFF'', ''SINTERSTORE'', ''SUNIONSTORE'', ''SDIFFSTORE'',
     ''SMOVE'', ''XREAD'', ''XREADGROUP'', ''XGROUP'', ''XINFO'']"

definition names_keys :: "string \<Rightarrow> bytes list \<Rightarrow> bool" where
  "names_keys name a \<longleftrightarrow> (if name \<in> set many_keys then [] \<notin> set a else first_key a)"

lemma first_key_nth [simp]: "first_key a \<Longrightarrow> length a \<noteq> 0 \<Longrightarrow> a ! 0 \<noteq> []"
  by (auto simp: first_key_def)

lemma nonempty_nth [simp]: "[] \<notin> set a \<Longrightarrow> i < length a \<Longrightarrow> a ! i \<noteq> []"
  by (metis nth_mem)

lemmas pair_keys = list_key_def set_key_def setpos_key_def zmem_key_def zscore_key_def

lemma pairs_of_in: "(k, v) \<in> set (pairs_of a) \<Longrightarrow> k \<in> set a"
  by (induction a rule: pairs_of.induct) auto

lemma in_set_tlD: "x \<in> set (tl a) \<Longrightarrow> x \<in> set a"
  by (cases a) auto

lemma names_keysD: "names_keys name a \<Longrightarrow> name \<in> set many_keys \<Longrightarrow> [] \<notin> set a"
  "names_keys name a \<Longrightarrow> name \<notin> set many_keys \<Longrightarrow> first_key a"
  by (simp_all add: names_keys_def)

text \<open>The stream options leave a suffix of the arguments.\<close>

lemma xread_options_suffix: "xread_options g c n a = Inr (c', n', r) \<Longrightarrow> set r \<subseteq> set a"
  by (induction g c n a rule: xread_options.induct) (auto simp: Let_def split: if_splits list.splits option.splits)

context twin_store
begin

lemma agrees_str_or_wrongtype [agree]: "(\<And>x. agrees (f x)) \<Longrightarrow> agrees (bnd (str_or_wrongtype e) f)"
  unfolding str_or_wrongtype_def by (intro agree)

section \<open>Strings and keys of any type\<close>

lemma agrees_ping [agree]: "agrees (ping_cmd a)" "agrees (echo_cmd name a)"
  unfolding ping_cmd_def echo_cmd_def by (intro agree)+

lemma agrees_strings [agree]:
  assumes "first_key a"
  shows "agrees (get_cmd ops name a)" "agrees (strlen_cmd ops name a)" "agrees (getrange_cmd ops name a)"
    "agrees (setnx_cmd ops name a)" "agrees (setex_cmd ops name a)" "agrees (getset_cmd ops name a)"
    "agrees (getdel_cmd ops name a)" "agrees (append_cmd ops name a)" "agrees (setrange_cmd ops name a)"
    "agrees (set_cmd ops name a)" "agrees (getex_cmd ops name a)" "agrees (incrbyfloat_cmd ops name a)"
    "agrees (incr_cmd ops name a)"
  unfolding get_cmd_def strlen_cmd_def getrange_cmd_def setnx_cmd_def setex_cmd_def getset_cmd_def
    getdel_cmd_def append_cmd_def setrange_cmd_def set_cmd_def getex_cmd_def incrbyfloat_cmd_def incr_cmd_def
    incr_by_def
  by (intro agree agree_loop; ((rule first_key_nth [OF assms], auto) | simp add: assms))+

lemma agrees_many_strings [agree]:
  assumes "[] \<notin> set a"
  shows "agrees (mget_cmd ops name a)" "agrees (mset_cmd ops name a)"
  unfolding mget_cmd_def mset_cmd_def
  by (intro agree agree_loop; (use assms in \<open>auto dest!: set_zip_leftD pairs_of_in\<close>))+

lemma agrees_exec_string: "names_keys name a \<Longrightarrow> pred_option agrees (exec_string ops name a)"
  unfolding exec_string_def by (intro agree; rule names_keysD, assumption, force simp: many_keys_def)

lemma agrees_copy_family [agree]: "src \<noteq> [] \<Longrightarrow> sub \<noteq> 255 \<Longrightarrow> agrees (copy_family ops src dst sub)"
  unfolding copy_family_def by (intro agree agree_loop; simp)

lemma agrees_generic [agree]:
  assumes "first_key a"
  shows "agrees (type_cmd ops name a)" "agrees (expire_cmd ops name a)" "agrees (ttl_cmd ops name a)"
    "agrees (persist_cmd ops name a)"
  unfolding type_cmd_def expire_cmd_def ttl_cmd_def persist_cmd_def
  by (intro agree agree_loop; ((rule first_key_nth [OF assms], auto) | simp add: assms))+

lemma agrees_many_generic [agree]:
  assumes "[] \<notin> set a"
  shows "agrees (del_cmd ops name a)" "agrees (exists_cmd ops name a)" "agrees (rename_cmd ops name a)"
  unfolding del_cmd_def exists_cmd_def rename_cmd_def
  by (intro agree agree_loop; ((rule nonempty_nth [OF assms], simp) | erule type_subs_plain | (use assms in blast)))+

lemma agrees_exec_generic: "names_keys name a \<Longrightarrow> pred_option agrees (exec_generic ops name a)"
  unfolding exec_generic_def by (intro agree; rule names_keysD, assumption, force simp: many_keys_def)

section \<open>Hashes and lists\<close>

lemma agrees_coll_len [agree]:
  assumes "first_key a"
  shows "agrees (coll_len_cmd ops ty name a)" "agrees (hlen_cmd ops name a)"
  unfolding coll_len_cmd_def hlen_cmd_def
  by (intro agree agree_loop; ((rule first_key_nth [OF assms], auto) | simp add: assms))+

lemma agrees_hashes [agree]:
  assumes "first_key a"
  shows "agrees (hget_cmd ops name a)" "agrees (hmget_cmd ops name a)" "agrees (hexists_cmd ops name a)"
    "agrees (hstrlen_cmd ops name a)" "agrees (hgetall_cmd ops name a)" "agrees (hset_cmd ops name a)"
    "agrees (hsetnx_cmd ops name a)" "agrees (hdel_cmd ops name a)" "agrees (hincrby_cmd ops name a)"
  unfolding hget_cmd_def hmget_cmd_def hexists_cmd_def hstrlen_cmd_def hgetall_cmd_def hset_cmd_def
    hsetnx_cmd_def hdel_cmd_def hincrby_cmd_def hset_pair_def hdel_field_def
  by (intro agree agree_loop; ((rule first_key_nth [OF assms], auto) | simp add: assms))+

lemma agrees_exec_hash: "names_keys name a \<Longrightarrow> pred_option agrees (exec_hash ops name a)"
  unfolding exec_hash_def by (intro agree; rule names_keysD, assumption, force simp: many_keys_def)

lemma agrees_push_step [agree]: "agrees (push_step ops k l m v)"
  unfolding push_step_def by (intro agree)

lemma agrees_push_cmd [agree]: "first_key a \<Longrightarrow> agrees (push_cmd ops name a)"
  unfolding push_cmd_def by (intro agree agree_loop; (erule first_key_nth, auto))

lemma agrees_pop_loop [agree]: "agrees (pop_loop ops k l n p)"
proof (induction n arbitrary: p)
  case (Suc n)
  have "agrees (pop_step ops k l p)" unfolding pop_step_def by (intro agree)
  then show ?case unfolding pop_loop.simps by (rule agrees_bnd) (rule Suc.IH)
qed (simp add: agrees_ret)

lemma agrees_pop_cmd [agree]: "first_key a \<Longrightarrow> agrees (pop_cmd ops name a)"
  unfolding pop_cmd_def by (intro agree agrees_pop_loop [THEN agrees_bnd]; (erule first_key_nth, auto))

lemma agrees_list_steps [agree]: "agrees (delete_range ops k h lo hi)" "k \<noteq> [] \<Longrightarrow> agrees (list_items ops k)"
  unfolding delete_range_def list_items_def by (intro agree agree_loop; simp)+

lemma agrees_rewrite_list [agree]: "agrees (rewrite_list ops k m ttl xs)"
  unfolding rewrite_list_def by (intro agree agrees_list_steps(1) [THEN agrees_bnd] agree_loop)

lemmas agree_list [agree] = agrees_list_steps [THEN agrees_bnd] agrees_rewrite_list [THEN agrees_bnd]
  agrees_pop_cmd [THEN agrees_bnd] agrees_push_cmd [THEN agrees_bnd]

lemma agrees_lists [agree]:
  assumes "first_key a"
  shows "agrees (llen_cmd ops name a)" "agrees (lindex_cmd ops name a)" "agrees (lset_cmd ops name a)"
    "agrees (lrange_cmd ops name a)" "agrees (ltrim_cmd ops name a)" "agrees (lrem_cmd ops name a)"
    "agrees (linsert_cmd ops name a)" "agrees (lpos_cmd ops name a)"
  unfolding llen_cmd_def lindex_cmd_def lset_cmd_def lrange_cmd_def ltrim_cmd_def lrem_cmd_def linsert_cmd_def
    lpos_cmd_def
  by (intro agree agree_loop; ((rule first_key_nth [OF assms], auto) | (unfold list_key_def, rule colocated_family, rule first_key_nth [OF assms], auto) | simp add: assms))+

lemma agrees_lmove [agree]: "[] \<notin> set a \<Longrightarrow> agrees (lmove_cmd ops name a)"
  unfolding lmove_cmd_def side_of_def by (intro agree; auto simp: first_key_def)

lemma agrees_exec_list: "names_keys name a \<Longrightarrow> pred_option agrees (exec_list ops name a)"
  unfolding exec_list_def by (intro agree; rule names_keysD, assumption, force simp: many_keys_def)

section \<open>Sets\<close>

lemma agrees_set_steps [agree]:
  "agrees (set_add ops k m v)" "agrees (set_rem ops k m v)" "agrees (set_at ops k i)" "agrees (is_member ops k present v)"
  unfolding set_add_def set_rem_def fill_hole_def set_at_def is_member_def by (intro agree)+

lemma agrees_set_members [agree]: "k \<noteq> [] \<Longrightarrow> agrees (set_members ops k)"
  unfolding set_members_def by (intro agree; simp)

lemmas agree_set [agree] = agrees_set_steps [THEN agrees_bnd] agrees_set_members [THEN agrees_bnd]

lemma agrees_repeat: "(\<And>acc. agrees (f acc)) \<Longrightarrow> agrees (repeat_cmd n f acc)"
proof (induction n arbitrary: acc)
  case (Suc n)
  then show ?case by (auto intro!: agrees_bnd [of _ "\<lambda>_. True"])
qed (simp add: agrees_ret)

lemma agrees_random: "agrees (rand_member ops k n)" "agrees (thin_step all)"
  unfolding rand_member_def thin_step_def by (intro agree)+

lemma agrees_sample_loop [agree]: "agrees (sample_loop ops k n want turns st)"
proof (induction turns arbitrary: st)
  case 0
  then show ?case by (cases st) (simp add: agrees_ret)
next
  case (Suc turns)
  obtain seen picked where st: "st = (seen, picked)" by (cases st)
  show ?case unfolding st sample_loop.simps by (intro agree Suc.IH)
qed

lemmas agree_random [agree] = agrees_random agrees_random [THEN agrees_bnd] agrees_repeat agrees_repeat [THEN agrees_bnd]

lemma agrees_srandmember_picks [agree]: "k \<noteq> [] \<Longrightarrow> agrees (srandmember_picks ops k m want)"
  unfolding srandmember_picks_def by (intro agree)

lemma agrees_sets [agree]:
  assumes "first_key a"
  shows "agrees (sismember_cmd ops name a)" "agrees (smismember_cmd ops name a)" "agrees (scard_cmd ops name a)"
    "agrees (smembers_cmd ops name a)" "agrees (sadd_cmd ops name a)" "agrees (srem_cmd ops name a)"
    "agrees (spop_cmd ops name a)"
  unfolding sismember_cmd_def smismember_cmd_def scard_cmd_def smembers_cmd_def sadd_cmd_def srem_cmd_def
    spop_cmd_def count_changed_def spop_step_def
  by (intro agree agree_loop agrees_srandmember_picks [THEN agrees_bnd]; ((rule first_key_nth [OF assms], auto) | simp add: assms))+

lemma agrees_many_sets [agree]:
  assumes "[] \<notin> set a"
  shows "agrees (setop_cmd ops name a)" "agrees (smove_cmd ops name a)"
  unfolding setop_cmd_def smove_cmd_def
  by (intro agree agree_loop; ((rule nonempty_nth [OF assms], auto split: if_splits) | (use assms in \<open>auto split: if_splits dest: in_set_tlD\<close>)))+

lemma agrees_exec_set: "names_keys name a \<Longrightarrow> pred_option agrees (exec_set ops name a)"
  unfolding exec_set_def by (intro agree; rule names_keysD, assumption, force simp: many_keys_def)

section \<open>Sorted sets\<close>

lemma agrees_zset_steps [agree]: "agrees (zscore ops k mbr)" "agrees (zremove ops k mbr)" "agrees (zadd_store ops k sc mbr)"
  unfolding zscore_def zremove_def zadd_store_def by (intro agree)+

lemma agrees_zset_ranges [agree]:
  assumes "k \<noteq> []"
  shows "agrees (zby_score ops k lo hi down offset limit)" "agrees (zby_rank ops k offset count down)"
    "agrees (zby_lex ops k lb hb down offset count)"
  unfolding zby_score_def zby_rank_def zby_lex_def erange_def prod.case Let_def ebase_ekey ekey_append append_Nil
  by (intro agree; auto simp: assms colocated_family colocated_rest split: option.split)+

lemmas agree_zset [agree] = agrees_zset_steps [THEN agrees_bnd] agrees_zset_ranges [THEN agrees_bnd]

lemma agrees_zremove_all [agree]: "agrees (zremove_all ops k m items)"
  unfolding zremove_all_def by (intro agree agree_loop)

lemma agrees_zsets [agree]:
  assumes "first_key a"
  shows "agrees (zadd_cmd ops name a)" "agrees (zincrby_cmd ops name a)" "agrees (zrem_cmd ops name a)"
    "agrees (zscore_cmd ops name a)" "agrees (zmscore_cmd ops name a)" "agrees (zcard_cmd ops name a)"
    "agrees (zcount_cmd ops name a)" "agrees (zlexcount_cmd ops name a)"
  unfolding zadd_cmd_def zincrby_cmd_def zrem_cmd_def zscore_cmd_def zmscore_cmd_def zcard_cmd_def
    zcount_cmd_def zlexcount_cmd_def zadd_step_def zremove_step_def count_changed_def
  by (intro agree agree_loop; ((rule first_key_nth [OF assms], auto) | simp add: assms))+

lemma agrees_zrank [agree]:
  assumes "first_key a"
  shows "agrees (zrank_cmd ops name a)"
  unfolding zrank_cmd_def erange_def prod.case Let_def zscore_key_def ebase_ekey ekey_append append_Nil
  by (intro agree; ((rule colocated_family)?, rule first_key_nth [OF assms], auto))

lemma agrees_zrange_parts [agree]:
  assumes "a ! 0 \<noteq> []"
  shows "agrees (zrange_rank ops a m down)" "agrees (zrange_items ops a zr bounds m)" "agrees (zremrange_victims ops name a bounds m)"
proof -
  show rank: "agrees (zrange_rank ops a m down)" for m down
    unfolding zrange_rank_def by (intro agree assms)
  show "agrees (zrange_items ops a zr bounds m)" "agrees (zremrange_victims ops name a bounds m)"
    unfolding zrange_items_def zremrange_victims_def by (intro agree rank assms)+
qed

lemma agrees_zset_changes [agree]:
  assumes "first_key a"
  shows "agrees (zrange_cmd ops name a)" "agrees (zremrange_cmd ops name a)" "agrees (zpop_cmd ops name a)"
  unfolding zrange_cmd_def zremrange_cmd_def zpop_cmd_def
  by (intro agree agree_loop agrees_zrange_parts [THEN agrees_bnd] agrees_zremove_all [THEN agrees_bnd]; ((rule first_key_nth [OF assms], auto) | simp add: assms))+

lemma agrees_exec_zset: "names_keys name a \<Longrightarrow> pred_option agrees (exec_zset ops name a)"
  unfolding exec_zset_def by (intro agree; rule names_keysD, assumption, force simp: many_keys_def)

section \<open>Streams\<close>

lemma agrees_ids [agree]:
  "agrees (strict_id a)" "agrees (strict_ids xs)" "agrees (range_start a)" "agrees (range_end a)" "agrees (explicit_id a)"
proof -
  show id: "agrees (strict_id a)" for a unfolding strict_id_def by (intro agree)
  show "agrees (strict_ids xs)" "agrees (range_start a)" "agrees (range_end a)" "agrees (explicit_id a)"
    unfolding strict_ids_def range_start_def range_end_def range_bound_def explicit_id_def
    by (intro agree agree_loop id id [THEN agrees_bnd])+
qed

lemma agrees_stream_state [agree]: "k \<noteq> [] \<Longrightarrow> agrees (load_stream ops k)" "agrees (save_stream ops k s)"
  "agrees (stream_entry ops k i)"
  unfolding load_stream_def save_stream_def stream_entry_def by (intro agree; simp)+

lemma agrees_stream_range [agree]: "k \<noteq> [] \<Longrightarrow> agrees (stream_range ops k lo hi down count)"
  unfolding stream_range_def ent_key_def ebase_ekey ekey_append by (intro agree; simp add: colocated_family)

lemma agrees_first_id [agree]: "k \<noteq> [] \<Longrightarrow> agrees (first_id ops k)"
  unfolding first_id_def by (intro agree agrees_stream_range [THEN agrees_bnd])

lemmas agree_stream [agree] = agrees_ids [THEN agrees_bnd] agrees_stream_state [THEN agrees_bnd]
  agrees_stream_range [THEN agrees_bnd] agrees_first_id [THEN agrees_bnd]

lemma agrees_trim_stream [agree]:
  assumes "k \<noteq> []"
  shows "agrees (trim_stream ops k s t)"
proof -
  have "agrees (trim_excess ops k s how)" for how
    unfolding trim_excess_def by (cases how; simp only: trim_how.case; intro agree assms)
  then show ?thesis
    unfolding trim_stream_def by (intro agree agree_loop assms agrees_bnd [of "trim_excess ops k s (ts_how t)" "\<lambda>_. True"])
qed

lemma agrees_stream_steps [agree]: "k \<noteq> [] \<Longrightarrow> agrees (add_entry ops k s tspec fs i)" "agrees (xdel_step ops k p i)"
  unfolding add_entry_def xdel_step_def by (intro agree agrees_trim_stream [THEN agrees_bnd]; simp)+

lemma agrees_stream_entries [agree]:
  assumes "first_key a"
  shows "agrees (xadd_cmd ops name a)" "agrees (xlen_cmd ops name a)" "agrees (xrange_cmd ops name a)"
    "agrees (xdel_cmd ops name a)" "agrees (xtrim_cmd ops name a)" "agrees (xsetid_cmd ops name a)"
  unfolding xadd_cmd_def xlen_cmd_def xrange_cmd_def xdel_cmd_def xtrim_cmd_def xsetid_cmd_def xrange_count_def
  by (intro agree agree_loop agrees_stream_steps agrees_trim_stream [THEN agrees_bnd]; ((rule first_key_nth [OF assms], auto) | simp add: assms))+

section \<open>Consumer groups\<close>

lemma agrees_group_records [agree]:
  "agrees (load_group ops k g)" "agrees (save_group ops k g gr)" "agrees (load_pel ops k g i)" "agrees (put_pel ops k g i pl)"
  "agrees (load_con ops k g x)" "agrees (save_con ops k g x seen act)"
  unfolding load_group_def save_group_def load_pel_def put_pel_def load_con_def save_con_def by (intro agree)+

lemma agrees_group_ranges [agree]:
  assumes "k \<noteq> []"
  shows "agrees (groups ops k)" "agrees (pel_range ops k g lo hi n sel)" "agrees (consumers ops k g)"
    "agrees (delete_prefix ops (pel_base k g))" "agrees (delete_prefix ops (con_base k g))"
  unfolding groups_def pel_range_def consumers_def delete_prefix_def pel_base_def pel_key_def con_base_def ekey_append Let_def
  by (intro agree agree_loop; simp add: assms colocated_family)+

lemmas agree_groups [agree] = agrees_group_records [THEN agrees_bnd] agrees_group_ranges [THEN agrees_bnd]

lemma agrees_group_steps [agree]:
  assumes "k \<noteq> []"
  shows "agrees (touch_con ops k g x act)" "agrees (has_group ops k g)" "agrees (has_tombstones ops k s start)"
    "agrees (estimate_read ops k s i)"
  unfolding touch_con_def has_group_def has_tombstones_def estimate_read_def by (intro agree assms)+

lemmas agree_group_steps [agree] = agrees_group_steps [THEN agrees_bnd]

lemma agrees_group_moves [agree]:
  assumes "k \<noteq> []"
  shows "agrees (lag ops k s gr)" "agrees (start_of ops grp k idv)" "agrees (read_after ops k n after)"
    "agrees (deliver ops k g x noack s gr e)" "agrees (redeliver ops k g out pl)" "agrees (xpending_ext args)"
    "agrees (xclaim_step ops k g x idle xc now out i)" "agrees (set_group ops k g s explicit rd)"
  unfolding lag_def start_of_def read_after_def deliver_def redeliver_def xpending_ext_def xclaim_step_def set_group_def
  by (intro agree assms)+

lemmas agree_group_moves [agree] = agrees_group_moves [THEN agrees_bnd]

lemma agrees_start_cases [agree]:
  "(\<And>i. st = After i \<Longrightarrow> agrees (m1 i)) \<Longrightarrow> (st = NewEntries \<Longrightarrow> agrees m2) \<Longrightarrow>
     agrees (case st of After i \<Rightarrow> m1 i | NewEntries \<Rightarrow> m2)"
  by (cases st) simp_all

lemma agrees_read_stream [agree]: "fst ks \<noteq> [] \<Longrightarrow> agrees (read_stream ops grp n noack ks)"
  unfolding read_stream_def read_new_def read_history_def by (intro agree agree_loop; simp)

lemma agrees_xread [agree]:
  assumes "[] \<notin> set a"
  shows "agrees (xread ops grp a)"
proof -
  have starts: "agrees_on (each_of (\<lambda>out (k, i). bnd (start_of ops grp k i) (\<lambda>st. ret (out @ [(k, st)]))) (zip keys ids) [])
      (\<lambda>starts. \<forall>ks\<in>set starts. fst ks \<noteq> [])" if "[] \<notin> set keys" for keys ids
  proof (rule agrees_on_each_of)
    fix out :: "(key \<times> xstart) list" and x assume "x \<in> set (zip keys ids)" and out: "\<forall>ks\<in>set out. fst ks \<noteq> []"
    then have "fst x \<noteq> []" using that set_zip_leftD [of "fst x" "snd x" keys ids] by auto
    then show "agrees_on (case x of (k, i) \<Rightarrow> bnd (start_of ops grp k i) (\<lambda>st. ret (out @ [(k, st)])))
        (\<lambda>starts. \<forall>ks\<in>set starts. fst ks \<noteq> [])"
      using out by (cases x) (auto intro!: agrees_on_bnd [OF agrees_group_moves(2)] agrees_on_ret)
  qed simp
  have keys: "[] \<notin> set (take n r)" if "xread_options g c na a = Inr (c', na', r)" for g c na c' na' r n
    using xread_options_suffix [OF that] assms by (auto dest: in_set_takeD)
  have reads: "agrees (each_of (\<lambda>out ks. bnd (read_stream ops grp n na ks) (\<lambda>rs. ret (out @ rs))) starts [])"
    if "\<forall>ks\<in>set starts. fst ks \<noteq> []" for n na starts
    by (rule agrees_each_of, rule agrees_bnd [OF agrees_read_stream]) (use that in \<open>auto intro: agrees_ret\<close>)
  show ?thesis
    unfolding xread_def Let_def
    by (intro agrees_norm agrees_cases agrees_fail)
      (rule starts [THEN agrees_bnd], rule keys, force, rule reads [THEN agrees_bnd], simp, rule agrees_ret)
qed

lemma agrees_autoclaim_loop [agree]:
  assumes "k \<noteq> []"
  shows "agrees (autoclaim_loop ops k g x idle justid n now pend att cl dl)"
proof (induction pend arbitrary: att cl dl)
  case (Cons e pend)
  obtain i pl where e: "e = (i, pl)" by (cases e)
  show ?case unfolding e autoclaim_loop.simps by (intro agree Cons.IH assms)
qed (simp add: agrees_ret)

lemma agrees_group_cmds [agree]:
  assumes "first_key a"
  shows "agrees (xack_cmd ops name a)" "agrees (xclaim_cmd ops name a)" "agrees (xautoclaim_cmd ops name a)"
    "agrees (xpending_cmd ops name a)"
  unfolding xack_cmd_def xclaim_cmd_def xautoclaim_cmd_def xpending_cmd_def
  by (intro agree agree_loop agrees_autoclaim_loop [THEN agrees_bnd]; ((rule first_key_nth [OF assms], auto) | simp add: assms))+

lemma agrees_xreads [agree]:
  assumes "[] \<notin> set a"
  shows "agrees (xread_cmd ops name a)" "agrees (xreadgroup_cmd ops name a)"
proof -
  have "[] \<notin> set (drop n a)" for n using assms by (auto dest: in_set_dropD)
  then show "agrees (xread_cmd ops name a)" "agrees (xreadgroup_cmd ops name a)"
    unfolding xread_cmd_def xreadgroup_cmd_def by (intro agree assms; simp)+
qed

lemma agrees_xgroup_parts [agree]:
  assumes "a ! 1 \<noteq> []"
  shows "agrees (xgroup_create ops a)" "agrees (xgroup_setid ops a)" "agrees (xgroup_destroy ops a)"
    "agrees (xgroup_consumer ops create a)"
  unfolding xgroup_create_def xgroup_setid_def xgroup_destroy_def xgroup_consumer_def Let_def
  by (intro agree agree_loop assms)+

lemma agrees_xinfo_parts [agree]:
  assumes "k \<noteq> []"
  shows "agrees (need_stream ops k)" "agrees (xinfo_stream ops k)" "agrees (xinfo_group ops k s ng)"
proof -
  show need: "agrees (need_stream ops k)" unfolding need_stream_def by (intro agree assms)
  show "agrees (xinfo_stream ops k)" "agrees (xinfo_group ops k s ng)"
    unfolding xinfo_stream_def xinfo_group_def by (intro agree assms need [THEN agrees_bnd])+
qed

lemma agrees_xgroup_xinfo [agree]:
  assumes "[] \<notin> set a"
  shows "agrees (xgroup_cmd ops name a)" "agrees (xinfo_cmd ops name a)"
  unfolding xgroup_cmd_def xinfo_cmd_def Let_def
  by (intro agree agree_loop agrees_xinfo_parts [THEN agrees_bnd]; rule nonempty_nth [OF assms]; linarith)+

lemma agrees_exec_stream: "names_keys name a \<Longrightarrow> pred_option agrees (exec_stream ops name a)"
  unfolding exec_stream_def by (intro agree; rule names_keysD, assumption, force simp: many_keys_def)

end

end
