(* ===== verification/Expiry.thy ===== *)
theory Expiry
  imports Prelude "HOL-Library.Product_Lexorder"
begin

text \<open>
  The expiry index of \<open>crates/server/src/keyspace.rs\<close> (\<open>Expiry\<close>): deadlines by key, and the
  same deadlines in order for the reaper.  The invariant is that the two agree; the flag
  \<open>any\<close> only short-cuts lookups before the first deadline.
\<close>

record expiry =
  ex_any :: bool
  ex_at :: "(key, nat) btree"
  ex_order :: "(nat \<times> key, unit) btree"

definition expiry_default :: expiry where
  "expiry_default = \<lparr>ex_any = False, ex_at = [], ex_order = []\<rparr>"

definition expiry_get :: "expiry \<Rightarrow> key \<Rightarrow> nat option" where
  "expiry_get x key = (if \<not> ex_any x then None else bt_get (ex_at x) key)"

definition is_expired :: "expiry \<Rightarrow> key \<Rightarrow> nat \<Rightarrow> bool" where
  "is_expired x key now = (case expiry_get x key of None \<Rightarrow> False | Some at \<Rightarrow> at \<le> now)"

definition expiry_set :: "key \<Rightarrow> nat option \<Rightarrow> expiry \<Rightarrow> expiry" where
  "expiry_set key at x =
     (let x1 = (case bt_get (ex_at x) key of
                  None \<Rightarrow> x
                | Some old \<Rightarrow> x\<lparr>ex_at := bt_remove key (ex_at x), ex_order := bt_remove (old, key) (ex_order x)\<rparr>)
      in case at of
           None \<Rightarrow> x1
         | Some a \<Rightarrow> x1\<lparr>ex_at := bt_insert key a (ex_at x1), ex_order := bt_insert (a, key) () (ex_order x1), ex_any := True\<rparr>)"

definition expiry_apply :: "(key \<times> nat option) list \<Rightarrow> expiry \<Rightarrow> expiry" where
  "expiry_apply changes x = fold (\<lambda>(k, at). expiry_set k at) changes x"

definition due :: "expiry \<Rightarrow> nat \<Rightarrow> nat \<Rightarrow> key list" where
  "due x now limit = map snd (take limit (takeWhile (\<lambda>(at, _). at \<le> now) (map fst (ex_order x))))"

definition expiry_len :: "expiry \<Rightarrow> nat" where
  "expiry_len x = length (ex_at x)"

definition expiry_clear :: "expiry \<Rightarrow> expiry" where
  "expiry_clear x = x\<lparr>ex_at := [], ex_order := []\<rparr>"

section \<open>The invariant\<close>

definition expiry_ok :: "expiry \<Rightarrow> bool" where
  "expiry_ok x \<longleftrightarrow> bt_wf (ex_at x) \<and> bt_wf (ex_order x)
     \<and> (\<forall>at k. bt_get (ex_order x) (at, k) \<noteq> None \<longleftrightarrow> bt_get (ex_at x) k = Some at)
     \<and> (ex_at x \<noteq> [] \<longrightarrow> ex_any x)"

lemma expiry_default_ok: "expiry_ok expiry_default"
  by (simp add: expiry_ok_def expiry_default_def)

lemma expiry_get_ok: "expiry_ok x \<Longrightarrow> expiry_get x = bt_get (ex_at x)"
  by (auto simp: expiry_ok_def expiry_get_def fun_eq_iff)

lemma expiry_set_ok: "expiry_ok x \<Longrightarrow> expiry_ok (expiry_set k at x)"
  by (cases "bt_get (ex_at x) k"; cases at)
    (auto simp: expiry_ok_def expiry_set_def Let_def bt_wf_insert bt_wf_remove bt_get_insert bt_get_remove)

lemma expiry_set_get: "expiry_ok x \<Longrightarrow> expiry_get (expiry_set k at x) = (expiry_get x)(k := at)"
  using expiry_set_ok [of x k at]
  by (cases "bt_get (ex_at x) k"; cases at)
    (auto simp: expiry_get_ok, auto simp: expiry_ok_def expiry_set_def Let_def bt_get_insert bt_get_remove fun_eq_iff bt_wf_remove)

lemma expiry_apply_ok: "expiry_ok x \<Longrightarrow> expiry_ok (expiry_apply cs x)"
  unfolding expiry_apply_def by (induction cs arbitrary: x) (auto simp: expiry_set_ok)

lemma expiry_apply_get:
  "expiry_ok x \<Longrightarrow> expiry_get (expiry_apply cs x) k =
     (case map_of (rev cs) k of None \<Rightarrow> expiry_get x k | Some at \<Rightarrow> at)"
proof (induction cs arbitrary: x)
  case (Cons c cs)
  then show ?case
    by (cases c) (auto simp: expiry_apply_def expiry_set_ok expiry_set_get map_add_def split: option.splits)
qed (simp add: expiry_apply_def)

lemma expiry_clear_get: "expiry_get (expiry_clear x) k = None"
  by (simp add: expiry_get_def expiry_clear_def)

lemma expiry_clear_ok: "expiry_ok (expiry_clear x)"
  by (simp add: expiry_ok_def expiry_clear_def)

section \<open>What is due\<close>

lemma takeWhile_sorted_filter:
  "sorted_wrt (<) xs \<Longrightarrow> (\<And>x y. x < y \<Longrightarrow> P y \<Longrightarrow> P x) \<Longrightarrow> takeWhile P xs = filter P (xs :: 'a::order list)"
proof (induction xs)
  case (Cons x xs)
  have "filter P xs = []" if "\<not> P x"
    using that Cons.prems by (auto simp: filter_empty_conv)
  then show ?case using Cons by auto
qed simp

lemma due_filter:
  assumes "expiry_ok x"
  shows "due x now limit = map snd (take limit (filter (\<lambda>(at, _). at \<le> now) (map fst (ex_order x))))"
proof -
  have "sorted_wrt (<) (map fst (ex_order x))" using assms by (simp add: expiry_ok_def bt_wf_def)
  then have "takeWhile (\<lambda>(at, _). at \<le> now) (map fst (ex_order x)) = filter (\<lambda>(at, _). at \<le> now) (map fst (ex_order x))"
    by (rule takeWhile_sorted_filter) (auto simp: less_prod_def)
  then show ?thesis by (simp add: due_def)
qed

end
