(* ===== verification/Submit.thy ===== *)
theory Submit
  imports Engine_Safety
begin

text \<open>
  \<open>Engine::submit\<close> as one client sees it when no other write shares its round: what its write
  does to the history and to what the engine reads.  The keyspace and the compute runtime commit
  through it.
\<close>

section \<open>Submitting\<close>

text \<open>
  \<open>submit\<close> by a client that is alone: on a durable engine its write is the only one of the next
  round, otherwise it is applied at once.
\<close>

definition submit_now ::
    "flush_io \<Rightarrow> (key \<times> val) list \<Rightarrow> (key \<times> nat) list \<Rightarrow> (key \<times> i64) option \<Rightarrow> (op_store \<Rightarrow> op_store) option
     \<Rightarrow> engine \<Rightarrow> engine \<times> ack" where
  "submit_now io writes reads incr op e =
     (if sync_writes e then
        (case flush_round io (submit_durable writes reads incr op e) of (e', acks) \<Rightarrow> (e', last acks))
      else submit_direct writes reads incr op e)"

text \<open>The store the operation of such a client runs on.\<close>

definition op_input :: "engine \<Rightarrow> op_store" where
  "op_input e = os_new (co_shards (if sync_writes e then sweep_tombstones e else e)) []"

section \<open>What a submit does to the history\<close>

definition submitted ::
    "(key \<times> val) list \<Rightarrow> (key \<times> nat) list \<Rightarrow> (key \<times> i64) option \<Rightarrow> (op_store \<Rightarrow> op_store) option
     \<Rightarrow> engine \<Rightarrow> pending" where
  "submitted writes reads incr op e = mk_pending (clock e + 1) writes reads incr op None"

lemma op_input_new: "op_input e = os_new (os_shards (op_input e)) []"
  by (simp add: op_input_def os_new_def)

lemma sweep_clock [simp]:
  "co_shards (sweep_tombstones (e\<lparr>clock := c, write_queue := q\<rparr>)) = co_shards (sweep_tombstones e)"
proof -
  have "gc_bound (e\<lparr>clock := c, write_queue := q\<rparr>) = gc_bound e"
    by (cases "active_snaps e") (auto simp: gc_bound_def)
  then show ?thesis by (simp add: sweep_tombstones_def Let_def split: prod.split)
qed

definition submit_muts :: "pending \<Rightarrow> resolved \<Rightarrow> mutation list" where
  "submit_muts pw r = (case resolved_muts pw r of None \<Rightarrow> [] | Some ms \<Rightarrow> ms)"

lemma submit_durable_flush:
  assumes ok: "engine_ok e" and q: "write_queue e = []" and s: "sync_writes e" and c: "client_ok writes op"
    and f: "flush_round io (submit_durable writes reads incr op e) = (e', acks)"
    and pw: "pw = submitted writes reads incr op e" and r: "r = resolve (os_shards (op_input e)) pw []"
  shows "engine_ok e' \<and> write_queue e' = [] \<and> sync_writes e' \<and>
    (\<exists>a. acks = [a] \<and>
      ((\<exists>x. a = AckIo x) \<and> events e' = events e
       \<or> a = ack_of (Inr ()) None (Some r) \<and> events e' = events e @ map Committed (submit_muts pw r)
         \<and> (poisoned (co_wal e) \<longrightarrow> submit_muts pw r = [])))"
proof -
  let ?e = "submit_durable writes reads incr op e"
  have ok1: "engine_ok ?e"
    using engine_step_ok [OF engine_step.durable [OF s c] ok, of reads incr] by simp
  have eq: "?e = e\<lparr>clock := clock e + 1, write_queue := [pw]\<rparr>" by (simp add: submit_durable_eq q pw submitted_def)
  have nofl: "pw_flush_all pw = None" by (simp add: pw submitted_def mk_pending_def)
  define e1 where "e1 = sweep_tombstones (e\<lparr>clock := clock e + 1, write_queue := []\<rparr>)"
  have sh: "co_shards e1 = os_shards (op_input e)" by (simp add: e1_def op_input_def os_new_def s)
  define frames where "frames = map commit_frame (filter (\<lambda>m. m \<noteq> []) (batch_muts [pw] [Some r]))"
  obtain e2 fl where d: "durable_step io frames (max_ts [pw]) e1 = (e2, fl)" by fastforce
  note df = durable_step_fields [OF d]
  have mu: "concat (batch_muts [pw] [Some r]) = submit_muts pw r"
    by (simp add: batch_muts_def List.map_filter_def submit_muts_def split: option.split)
  have q1: "write_queue ?e = [pw]" "?e\<lparr>write_queue := []\<rparr> = e\<lparr>clock := clock e + 1, write_queue := []\<rparr>"
    by (simp_all add: eq)
  have outs: "resolve_all (co_shards e1) b [pw] [] = [Some r]" for b
    using nofl by (simp add: Let_def sh r)
  have w: "List.map_filter pw_flush_all [pw] = []" using nofl by (simp add: List.map_filter_def)
  have run: "e' = publish [pw] (if fl = Inr () then commit_step (submit_muts pw r) e2 else e2)"
    "acks = [ack_of fl None (Some r)]"
    using f unfolding flush_round_def flush_batch_def q1 e1_def [symmetric] Let_def outs w frames_def [symmetric] d mu wipe_step_def
    by simp_all
  note fr = flush_round_ok [OF ok1 f]
  have "submit_muts pw r = []" if "poisoned (co_wal e)" "fl = Inr ()"
  proof -
    have "frames = []"
      using d that by (auto simp: durable_step_def append_frames_def e1_def split: if_splits)
    then show ?thesis using mu [symmetric] by (simp add: frames_def filter_empty_conv)
  qed
  moreover have "sync_writes e'"
    using s sync_writes_flush [OF f [unfolded flush_round_def]] by (simp add: eq)
  moreover have "events e1 = events e" by (simp add: e1_def)
  ultimately show ?thesis
    using fr by (cases fl) (auto simp: run ack_of_def publish_def commit_step_def df)
qed

lemma co_shards_clock: "co_shards (e\<lparr>clock := c\<rparr>) = co_shards e"
  by simp

lemma submit_direct_events:
  assumes f: "submit_direct writes reads incr op e = (e', a)" and s: "\<not> sync_writes e"
    and pw: "pw = submitted writes reads incr op e" and r: "r = resolve (os_shards (op_input e)) pw []"
  shows "a = ack_of (Inr ()) None (Some r) \<and> events e' = events e @ map Committed (submit_muts pw r)"
proof -
  have sh: "os_shards (op_input e) = co_shards e" using s by (simp add: op_input_def os_new_def)
  show ?thesis
    using f unfolding submit_direct_def tick_simps prod.case Let_def co_shards_clock submitted_def [symmetric] pw [symmetric] sh [symmetric] r [symmetric]
    by (cases r) (auto simp: ack_of_def submit_muts_def resolved_muts_def split: option.splits)
qed

lemma submit_now_events:
  assumes ok: "engine_ok e" and q: "write_queue e = []" and c: "client_ok writes op"
    and f: "submit_now io writes reads incr op e = (e', a)"
    and pw: "pw = submitted writes reads incr op e" and r: "r = resolve (os_shards (op_input e)) pw []"
  shows "engine_ok e' \<and> write_queue e' = [] \<and> sync_writes e' = sync_writes e \<and>
    ((\<exists>x. a = AckIo x) \<and> events e' = events e
     \<or> a = ack_of (Inr ()) None (Some r) \<and> events e' = events e @ map Committed (submit_muts pw r)
       \<and> (sync_writes e \<and> poisoned (co_wal e) \<longrightarrow> submit_muts pw r = []))"
proof (cases "sync_writes e")
  case True
  obtain acks where "flush_round io (submit_durable writes reads incr op e) = (e', acks)" "a = last acks"
    using f True by (auto simp: submit_now_def split: prod.splits)
  then show ?thesis using submit_durable_flush [OF ok q True c _ pw r] True by fastforce
next
  case False
  then have d: "submit_direct writes reads incr op e = (e', a)" using f by (simp add: submit_now_def)
  have "engine_ok e'" using engine_step_ok [OF engine_step.direct [OF False c] ok, of reads incr] d by simp
  then show ?thesis
    using submit_direct_events [OF d False pw r] submit_direct_ok [OF _ _ c d] ok q False
    by (auto simp: engine_ok_def)
qed

section \<open>What a submit does to reads\<close>

lemma get_last:
  "core_ok e \<Longrightarrow> get e k = (if key_hist (hist e) k = [] then None else live (v_value (last (key_hist (hist e) k))))"
  unfolding get_truth by (rule truth_latest) (simp add: core_ok_def)

lemma get_committed:
  assumes "core_ok e" and "core_ok e'" and "events e' = events e @ map Committed ms"
  shows "get e' k = (if of_key k ms = [] then get e k else live (m_value (last (of_key k ms))))"
proof -
  have "hist e' = hist e @ ms" using assms(3) by (simp add: hist_def history_append history_committed)
  then show ?thesis
    using assms(1,2) by (auto simp: get_last key_hist_def last_map last_append)
qed

lemma os_get_input:
  assumes "engine_ok e"
  shows "os_get (op_input e) k = get e k"
proof -
  have "core_ok e" using assms by (simp add: engine_ok_def)
  then show ?thesis
    using sweep_core_ok(3) [of e k]
    by (simp add: os_get_def op_input_def os_new_def latest_of_truth [of e "visible_ts e"] get_truth)
qed

lemma op_input_ok: "engine_ok e \<Longrightarrow> os_ok (op_input e)" if "\<And>s. os_ok s = (os_wf s \<and> shards_wf (os_shards s))" for os_ok
  using sweep_core_ok(1) [of e] by (auto simp: that op_input_def os_new_def os_wf_def engine_ok_def core_ok_def)

definition op_grows :: "op_store \<Rightarrow> op_store \<Rightarrow> bool" where
  "op_grows st st' \<longleftrightarrow> os_wf st' \<and> os_shards st' = os_shards st \<and> os_overlay st' = os_overlay st"

lemma of_key_writes:
  "bt_wf w \<Longrightarrow> of_key k (map (\<lambda>(k, v). \<lparr>m_key = k, m_value = v, m_ts = t\<rparr>) w) =
     (case bt_get w k of None \<Rightarrow> [] | Some v \<Rightarrow> [\<lparr>m_key = k, m_value = v, m_ts = t\<rparr>])"
proof (induction w)
  case (Cons x w)
  then show ?case
    by (cases x) (auto simp: of_key_def bt_wf_Cons split: option.splits dest!: map_of_SomeD)
qed (simp add: of_key_def)

text \<open>
  An operation commits exactly what it left in its store; a submit that fails changes nothing.
\<close>

lemma submit_op_get:
  assumes ok: "engine_ok e" and q: "write_queue e = []"
    and wf: "\<And>st. os_wf st \<Longrightarrow> os_wf (f st)" and g: "op_grows (op_input e) (f (op_input e))"
    and run: "submit_now io [] [] None (Some f) e = (e', a)"
  shows "engine_ok e' \<and> write_queue e' = [] \<and> sync_writes e' = sync_writes e \<and>
    ((\<exists>x. a = AckIo x) \<and> get e' = get e \<and> events e' = events e
     \<or> a = AckOk None \<and> get e' = os_get (f (op_input e))
       \<and> (os_writes (f (op_input e)) = [] \<longrightarrow> events e' = events e)
       \<and> (sync_writes e \<and> poisoned (co_wal e) \<longrightarrow> events e' = events e))"
proof -
  have c: "client_ok [] (Some f)" using wf by (simp add: client_ok_def)
  define pw where "pw = submitted [] [] None (Some f) e"
  let ?w = "os_writes (f (op_input e))"
  let ?ms = "map (\<lambda>(k, v). \<lparr>m_key = k, m_value = v, m_ts = clock e + 1\<rparr>) ?w"
  have r: "resolve (os_shards (op_input e)) pw [] = RApply (Some ?ms) None"
    using op_input_new [of e] by (simp add: resolve_def pw_def submitted_def mk_pending_def Let_def)
  have wfw: "bt_wf ?w" using g by (simp add: op_grows_def os_wf_def)
  note s = submit_now_events [OF ok q c run pw_def refl, unfolded r]
  have ms: "submit_muts pw (RApply (Some ?ms) None) = ?ms" by (simp add: submit_muts_def resolved_muts_def)
  have core: "core_ok e" "core_ok e'" using ok s by (auto simp: engine_ok_def)
  have shards: "latest_of (os_shards (f (op_input e))) k = get e k" "bt_get (os_overlay (f (op_input e))) k = None" for k
    using os_get_input [OF ok, of k] g by (auto simp: os_get_def op_grows_def op_input_def os_new_def)
  have "get e' = os_get (f (op_input e))" if "events e' = events e @ map Committed ?ms"
  proof
    fix k
    show "get e' k = os_get (f (op_input e)) k"
      using get_committed [OF core that, of k]
      by (simp add: of_key_writes [OF wfw] os_get_def shards split: option.split)
  qed
  moreover have "get e' = get e" if "events e' = events e"
    using get_committed [OF core, of "[]"] that by (simp add: fun_eq_iff of_key_def)
  ultimately show ?thesis using s unfolding ms by (auto simp: ack_of_def)
qed

text \<open>Blind writes and increments.\<close>

lemma submit_checked_get:
  assumes ok: "engine_ok e" and q: "write_queue e = []" and wf: "bt_wf writes"
    and seen: "\<And>k s. (k, s) \<in> set reads \<Longrightarrow> visible_ts e \<le> s"
    and run: "submit_now io writes reads None None e = (e', a)"
  shows "engine_ok e' \<and> write_queue e' = [] \<and>
    ((\<exists>x. a = AckIo x) \<and> get e' = get e
     \<or> a = AckOk None \<and> get e' = (\<lambda>k. case bt_get writes k of None \<Rightarrow> get e k | Some v \<Rightarrow> live v))"
proof -
  have c: "client_ok writes None" using bt_wf_distinct [OF wf] by (simp add: client_ok_def)
  define pw where "pw = submitted writes reads None None e"
  have core: "core_ok e" using ok by (simp add: engine_ok_def)
  have "latest_ts c \<le> visible_ts e" if "chain_lookup (os_shards (op_input e)) k = Some c" for k c
    using that lookup_latest_ts [OF core, of k c] lookup_latest_ts [OF sweep_core_ok(1) [OF core], of k c]
    by (auto simp: op_input_def os_new_def split: if_splits)
  then have "\<not> (\<exists>(k, s)\<in>set reads. case chain_lookup (os_shards (op_input e)) k of None \<Rightarrow> False | Some c \<Rightarrow> s < latest_ts c)"
    using seen by (fastforce split: option.splits dest: leD order_trans)
  then have r: "resolve (os_shards (op_input e)) pw [] = RApply None None"
    by (auto simp: resolve_def pw_def submitted_def mk_pending_def list_ex_iff split: option.splits)
  have ms: "submit_muts pw (RApply None None) = map (\<lambda>(k, v). \<lparr>m_key = k, m_value = v, m_ts = clock e + 1\<rparr>) writes"
    by (simp add: submit_muts_def resolved_muts_def pw_def submitted_def mk_pending_def)
  note s = submit_now_events [OF ok q c run pw_def refl, unfolded r ms]
  have core': "core_ok e'" using s by (auto simp: engine_ok_def)
  have "get e' k = (case bt_get writes k of None \<Rightarrow> get e k | Some v \<Rightarrow> live v)"
    if "events e' = events e @ map Committed (map (\<lambda>(k, v). \<lparr>m_key = k, m_value = v, m_ts = clock e + 1\<rparr>) writes)" for k
    using get_committed [OF core core' that, of k] by (simp add: of_key_writes [OF wf] split: option.split)
  moreover have "get e' = get e" if "events e' = events e"
    using get_committed [OF core core', of "[]"] that by (simp add: fun_eq_iff of_key_def)
  ultimately show ?thesis using s by (auto simp: ack_of_def fun_eq_iff)
qed

lemma submit_writes_get:
  assumes ok: "engine_ok e" and q: "write_queue e = []" and wf: "bt_wf writes"
    and run: "submit_now io writes [] None None e = (e', a)"
  shows "engine_ok e' \<and> write_queue e' = [] \<and>
    ((\<exists>x. a = AckIo x) \<and> get e' = get e
     \<or> a = AckOk None \<and> get e' = (\<lambda>k. case bt_get writes k of None \<Rightarrow> get e k | Some v \<Rightarrow> live v))"
  by (rule submit_checked_get [OF ok q wf _ run]) simp

lemma submit_incr_get:
  assumes ok: "engine_ok e" and q: "write_queue e = []"
    and run: "submit_now io [] [] (Some (key, by)) None e = (e', a)"
  shows "engine_ok e' \<and> write_queue e' = [] \<and>
    (case a of
       AckIo x \<Rightarrow> get e' = get e
     | AckOpErr x \<Rightarrow> get e' = get e
         \<and> (as_counter (get e key) = Inl x
            \<or> x = IncrOverflow \<and> (\<exists>c. as_counter (get e key) = Inr c \<and> checked_add_i64 c by = None))
     | AckOk v \<Rightarrow> (\<exists>c n. as_counter (get e key) = Inr c \<and> checked_add_i64 c by = Some n \<and> v = Some n
                        \<and> get e' = (get e)(key := Some (VInt n)))
     | AckConflict \<Rightarrow> False)"
proof -
  have c: "client_ok [] None" by (simp add: client_ok_def)
  define pw where "pw = submitted [] [] (Some (key, by)) None e"
  have "latest_of (os_shards (op_input e)) key = get e key"
    using os_get_input [OF ok, of key] by (simp add: os_get_def op_input_def os_new_def)
  then have r: "resolve (os_shards (op_input e)) pw [] =
      (case as_counter (get e key) of
         Inl x \<Rightarrow> ROpErr x
       | Inr c \<Rightarrow> (case checked_add_i64 c by of
             None \<Rightarrow> ROpErr IncrOverflow
           | Some n \<Rightarrow> RApply (Some [\<lparr>m_key = key, m_value = VInt n, m_ts = clock e + 1\<rparr>]) (Some n)))"
    by (simp add: resolve_def pw_def submitted_def mk_pending_def split: sum.split option.split)
  note s = submit_now_events [OF ok q c run pw_def refl, unfolded r]
  have core: "core_ok e" "core_ok e'" using ok s by (auto simp: engine_ok_def)
  have "get e' = (get e)(key := Some (VInt n))"
    if "events e' = events e @ map Committed [\<lparr>m_key = key, m_value = VInt n, m_ts = clock e + 1\<rparr>]" for n
    using get_committed [OF core that] by (auto simp: of_key_def live_def fun_eq_iff)
  moreover have "get e' = get e" if "events e' = events e"
    using get_committed [OF core, of "[]"] that by (simp add: fun_eq_iff of_key_def)
  ultimately show ?thesis
    using s by (auto simp: ack_of_def submit_muts_def resolved_muts_def split: sum.splits option.splits)
qed

end
