(* ===== verification/Keyspace.thy ===== *)
theory Keyspace
  imports Ks_Safe_Stream Expiry Submit
begin

text \<open>
  The keyspace of \<open>crates/server/src/keyspace.rs\<close>: the dispatcher of the commands, the operations
  that run them on the commit path (\<open>run\<close>, \<open>run_writes\<close>, \<open>exec_multi\<close>, \<open>purge\<close>), what the client
  thread does with their outcome, the active expiry, and the fast paths of \<open>fast_keyspace\<close> in
  \<open>crates/server/src/main.rs\<close>.
\<close>

section \<open>Running one command\<close>

definition time_cmd :: "('s, resp) cmd" where
  "time_cmd =
     bnd clock_cmd (\<lambda>us. ret (RArray [RBulk (show_nat (us div 1000000)), RBulk (show_nat (us mod 1000000))]))"

definition unknown_command :: "string \<Rightarrow> resp" where
  "unknown_command name = err (''unknown command '' @ [CHR 0x27] @ name @ [CHR 0x27])"

fun first_offer :: "('s, resp) cmd option list \<Rightarrow> string \<Rightarrow> ('s, resp) cmd" where
  "first_offer [] name = fail (unknown_command name)"
| "first_offer (Some m # offers) name = m"
| "first_offer (None # offers) name = first_offer offers name"

text \<open>The patterns of the match are disjoint, so the order of the groups is immaterial.\<close>

definition exec_inner :: "'s store_ops \<Rightarrow> string \<Rightarrow> bytes list \<Rightarrow> ('s, resp) cmd" where
  "exec_inner ops name a =
     first_offer
       [if name = ''TIME'' then Some time_cmd else None, exec_string ops name a, exec_generic ops name a,
        exec_hash ops name a, exec_list ops name a, exec_set ops name a, exec_zset ops name a,
        if is_stream_cmd name then exec_stream ops name a else None] name"

definition exec :: "'s store_ops \<Rightarrow> string \<Rightarrow> bytes list \<Rightarrow> 's cx \<Rightarrow> resp \<times> 's cx" where
  "exec ops name a cx = (case exec_inner ops name a cx of (Inl r, cx) \<Rightarrow> (r, cx) | (Inr r, cx) \<Rightarrow> (r, cx))"

definition is_error :: "resp \<Rightarrow> bool" where
  "is_error r = (case r of RError _ \<Rightarrow> True | _ \<Rightarrow> False)"

section \<open>Operations of the commit path\<close>

text \<open>What a run reads from outside: the I/O of its round, the clocks, the random values.\<close>

record run_env =
  re_io :: flush_io
  re_now :: nat
  re_rnd :: "64 word list"
  re_clock :: "nat list"
  re_io_text :: "io_fail \<Rightarrow> string"

definition new_cx :: "bool \<Rightarrow> run_env \<Rightarrow> 's \<Rightarrow> 's cx" where
  "new_cx readonly env s =
     \<lparr>cx_tx = s, cx_now = re_now env, cx_readonly = readonly, cx_exp = [], cx_created = False,
      cx_rnd = re_rnd env, cx_clock = re_clock env\<rparr>"

record outcome =
  oc_reply :: resp
  oc_exp :: "(key \<times> nat option) list"
  oc_created :: bool

text \<open>The closure of \<open>run\<close>.\<close>

definition run_op :: "run_env \<Rightarrow> string \<Rightarrow> bytes list \<Rightarrow> op_store \<Rightarrow> outcome \<times> op_store" where
  "run_op env name a st =
     (case exec os_ops name a (new_cx False env st) of
        (reply, cx) \<Rightarrow>
          if is_error reply
          then (\<lparr>oc_reply = reply, oc_exp = [], oc_created = cx_created cx\<rparr>, os_discard (cx_tx cx))
          else (\<lparr>oc_reply = reply, oc_exp = cx_exp cx, oc_created = cx_created cx\<rparr>, cx_tx cx))"

text \<open>
  The closure of \<open>run_writes\<close>: a context per command; a command that fails is rolled back to the
  savepoint taken before it.
\<close>

fun writes_op :: "run_env \<Rightarrow> (string \<times> bytes list) list \<Rightarrow> op_store \<Rightarrow> outcome list \<times> op_store" where
  "writes_op env [] st = ([], st)"
| "writes_op env ((name, a) # cmds) st =
     (case os_savepoint st of
        (sp, st) \<Rightarrow>
          case exec os_ops name a (new_cx False env st) of
            (reply, cx) \<Rightarrow>
              let env = env\<lparr>re_rnd := cx_rnd cx, re_clock := cx_clock cx\<rparr>;
                  (oc, st) =
                    (if is_error reply
                     then (\<lparr>oc_reply = reply, oc_exp = [], oc_created = False\<rparr>, os_rollback_to sp (cx_tx cx))
                     else (\<lparr>oc_reply = reply, oc_exp = cx_exp cx, oc_created = cx_created cx\<rparr>, cx_tx cx))
              in (case writes_op env cmds st of (ocs, st) \<Rightarrow> (oc # ocs, st)))"

text \<open>The closure of \<open>exec_multi\<close>.  Queued commands are not empty: the first element is the name.\<close>

definition watch_broken :: "nat \<Rightarrow> op_store \<Rightarrow> key \<times> nat \<Rightarrow> bool" where
  "watch_broken now st = (\<lambda>(k, snap).
     os_version st (kv k) > snap \<or> os_version st (expk k) > snap
     \<or> (case os_get st (expk k) of Some (VInt at) \<Rightarrow> unat at \<le> now | _ \<Rightarrow> False))"

definition multi_step :: "op_store cx \<Rightarrow> bytes list \<Rightarrow> resp \<times> op_store cx" where
  "multi_step cx c =
     (case os_savepoint (cx_tx cx) of
        (sp, st) \<Rightarrow>
          case exec os_ops (upper_name (hd c)) (tl c) (cx\<lparr>cx_tx := st\<rparr>) of
            (r, cx') \<Rightarrow>
              if is_error r
              then (r, cx'\<lparr>cx_tx := os_rollback_to sp (cx_tx cx'), cx_exp := take (length (cx_exp cx)) (cx_exp cx')\<rparr>)
              else (r, cx'))"

fun multi_loop :: "bytes list list \<Rightarrow> op_store cx \<Rightarrow> resp list \<times> op_store cx" where
  "multi_loop [] cx = ([], cx)"
| "multi_loop (c # cmds) cx =
     (case multi_step cx c of (r, cx) \<Rightarrow> case multi_loop cmds cx of (rs, cx) \<Rightarrow> (r # rs, cx))"

definition multi_op :: "run_env \<Rightarrow> bytes list list \<Rightarrow> (key \<times> nat) list \<Rightarrow> op_store \<Rightarrow> outcome \<times> op_store" where
  "multi_op env cmds watches st =
     (if list_ex (watch_broken (re_now env) st) watches
      then (\<lparr>oc_reply = RNil, oc_exp = [], oc_created = False\<rparr>, st)
      else case multi_loop cmds (new_cx False env st) of
        (out, cx) \<Rightarrow> (\<lparr>oc_reply = RArray out, oc_exp = cx_exp cx, oc_created = cx_created cx\<rparr>, cx_tx cx))"

definition purge_op :: "run_env \<Rightarrow> key \<Rightarrow> op_store \<Rightarrow> outcome \<times> op_store" where
  "purge_op env key st =
     (case load os_ops key (new_cx False env st) of
        (_, cx) \<Rightarrow> (\<lparr>oc_reply = RNil, oc_exp = cx_exp cx, oc_created = False\<rparr>, cx_tx cx))"

section \<open>Submitting\<close>

definition commit_op :: "run_env \<Rightarrow> (op_store \<Rightarrow> 'o \<times> op_store) \<Rightarrow> engine \<Rightarrow> (resp + 'o) \<times> engine" where
  "commit_op env f e =
     (case submit_now (re_io env) [] [] None (Some (\<lambda>st. snd (f st))) e of
        (e', AckIo x) \<Rightarrow> (Inl (err (re_io_text env x)), e')
      | (e', _) \<Rightarrow> (Inr (fst (f (op_input e))), e'))"

section \<open>The keyspace\<close>

record keyspace =
  ks_engine :: engine
  ks_expiry :: expiry
  ks_colls :: bool

definition after_commit :: "(key \<times> nat option) list \<Rightarrow> bool \<Rightarrow> keyspace \<Rightarrow> keyspace" where
  "after_commit exp created ks =
     ks\<lparr>ks_colls := created \<or> ks_colls ks, ks_expiry := expiry_apply exp (ks_expiry ks)\<rparr>"

definition on_commit_path :: "run_env \<Rightarrow> (op_store \<Rightarrow> outcome \<times> op_store) \<Rightarrow> keyspace \<Rightarrow> resp \<times> keyspace" where
  "on_commit_path env f ks =
     (case commit_op env f (ks_engine ks) of
        (Inl e, en) \<Rightarrow> (e, ks\<lparr>ks_engine := en\<rparr>)
      | (Inr oc, en) \<Rightarrow> (oc_reply oc, after_commit (oc_exp oc) (oc_created oc) (ks\<lparr>ks_engine := en\<rparr>)))"

text \<open>\<open>run\<close>: commands that only read run on a snapshot; one that wrote there runs again as a write.\<close>

definition ks_run :: "run_env \<Rightarrow> string \<Rightarrow> bytes list \<Rightarrow> keyspace \<Rightarrow> resp \<times> keyspace" where
  "ks_run env name a ks =
     (if is_keyspace_write name then on_commit_path env (run_op env name a) ks
      else
        case txn_begin (ks_engine ks) of
          (t, en) \<Rightarrow>
            case exec (txn_ops (co_shards en)) name a (new_cx True env t) of
              (r, cx) \<Rightarrow>
                let ks = ks\<lparr>ks_engine := unpin (tx_snapshot t) en\<rparr>
                in if \<not> txn_has_writes (cx_tx cx) then (r, ks)
                   else
                     let env = env\<lparr>re_rnd := cx_rnd cx, re_clock := cx_clock cx\<rparr>
                     in on_commit_path env (run_op env name a) ks)"

definition run_writes :: "run_env \<Rightarrow> (string \<times> bytes list) list \<Rightarrow> keyspace \<Rightarrow> resp list \<times> keyspace" where
  "run_writes env cmds ks =
     (case commit_op env (writes_op env cmds) (ks_engine ks) of
        (Inl e, en) \<Rightarrow> (replicate (length cmds) e, ks\<lparr>ks_engine := en\<rparr>)
      | (Inr ocs, en) \<Rightarrow>
          (map oc_reply ocs,
           fold (\<lambda>oc. after_commit (oc_exp oc) (oc_created oc)) ocs (ks\<lparr>ks_engine := en\<rparr>)))"

datatype exec_result = Aborted | Done "resp list"

definition exec_multi :: "run_env \<Rightarrow> bytes list list \<Rightarrow> (key \<times> nat) list \<Rightarrow> keyspace \<Rightarrow> exec_result \<times> keyspace" where
  "exec_multi env cmds watches ks =
     (case on_commit_path env (multi_op env cmds watches) ks of
        (r, ks) \<Rightarrow>
          ((case r of RNil \<Rightarrow> Aborted | RArray v \<Rightarrow> Done v | e \<Rightarrow> Done (replicate (length cmds) e)), ks))"

fun last_ids_loop :: "shards \<Rightarrow> key list \<Rightarrow> txn cx \<Rightarrow> bytes list" where
  "last_ids_loop sh [] cx = []"
| "last_ids_loop sh (k # ks) cx =
     (case stream_last_id (txn_ops sh) k cx of
        (Inl _, cx) \<Rightarrow> [] # last_ids_loop sh ks cx
      | (Inr i, cx) \<Rightarrow> i # last_ids_loop sh ks cx)"

definition stream_last_ids :: "run_env \<Rightarrow> key list \<Rightarrow> engine \<Rightarrow> bytes list" where
  "stream_last_ids env ks e =
     (case txn_begin e of (t, en) \<Rightarrow> last_ids_loop (co_shards en) ks (new_cx True env t))"

section \<open>Expiry\<close>

definition purge :: "run_env \<Rightarrow> key \<Rightarrow> keyspace \<Rightarrow> keyspace" where
  "purge env key ks = snd (on_commit_path env (purge_op env key) ks)"

text \<open>A purge, and the index entry dropped if the durable state had no deadline that has passed.\<close>

definition reap_one :: "nat \<Rightarrow> run_env \<Rightarrow> key \<Rightarrow> keyspace \<Rightarrow> keyspace" where
  "reap_one now env key ks =
     (let ks = purge env key ks
      in if is_expired (ks_expiry ks) key now then ks\<lparr>ks_expiry := expiry_set key None (ks_expiry ks)\<rparr> else ks)"

definition reap :: "nat \<Rightarrow> (key \<Rightarrow> run_env) \<Rightarrow> nat \<Rightarrow> keyspace \<Rightarrow> nat \<times> keyspace" where
  "reap now envs limit ks =
     (let due_keys = due (ks_expiry ks) now limit
      in (length due_keys, fold (\<lambda>key. reap_one now (envs key) key) due_keys ks))"

definition reap_if_expired :: "nat \<Rightarrow> run_env \<Rightarrow> key \<Rightarrow> keyspace \<Rightarrow> keyspace" where
  "reap_if_expired now env key ks = (if is_expired (ks_expiry ks) key now then reap_one now env key ks else ks)"

section \<open>The mirrors\<close>

definition exp_prefix :: bytes where "exp_prefix = [101, 120, 112, 58]"

definition reload :: "keyspace \<Rightarrow> keyspace" where
  "reload ks =
     (let e = ks_engine ks; snap = snapshot e;
          x = (expiry_clear (ks_expiry ks))\<lparr>ex_any := False\<rparr>;
          entries = (case scan_prefix (co_shards e) exp_prefix snap of None \<Rightarrow> [] | Some es \<Rightarrow> es);
          x = fold (\<lambda>(k, v) x. case v of VInt at \<Rightarrow> expiry_set (drop 4 k) (Some (unat at)) x | _ \<Rightarrow> x) entries x
      in ks\<lparr>ks_expiry := x, ks_colls := (scan_from (co_shards e) [99, 58, 123] [99, 58, 124] 1 snap \<noteq> [])\<rparr>)"

definition ks_open :: "engine \<Rightarrow> keyspace" where
  "ks_open e = reload \<lparr>ks_engine = e, ks_expiry = expiry_default, ks_colls = False\<rparr>"

text \<open>A write that came from a primary.\<close>

definition observe :: "key \<Rightarrow> val \<Rightarrow> keyspace \<Rightarrow> keyspace" where
  "observe key v ks =
     (if starts_with key exp_prefix then
        ks\<lparr>ks_expiry := expiry_set (drop 4 key) (case v of VInt at \<Rightarrow> Some (unat at) | _ \<Rightarrow> None) (ks_expiry ks)\<rparr>
      else if starts_with key [99, 58, 123] then ks\<lparr>ks_colls := True\<rparr>
      else ks)"

section \<open>The fast paths\<close>

text \<open>\<open>None\<close> is a value only the executor can answer for.\<close>

definition fast_live :: "keyspace \<Rightarrow> key \<Rightarrow> nat \<Rightarrow> bytes option option" where
  "fast_live ks k now =
     (case get (ks_engine ks) (kv k) of
        None \<Rightarrow> Some None
      | Some (VMeta _) \<Rightarrow> None
      | Some v \<Rightarrow>
          if ex_any (ks_expiry ks) \<and> is_expired (ks_expiry ks) k now then Some None
          else (case v of VBytes b \<Rightarrow> Some (Some b) | VInt i \<Rightarrow> Some (Some (show_i64 i)) | _ \<Rightarrow> None))"

definition fast_get :: "keyspace \<Rightarrow> nat \<Rightarrow> key \<Rightarrow> resp" where
  "fast_get ks now k =
     (case fast_live ks k now of None \<Rightarrow> err WRONGTYPE | Some None \<Rightarrow> RNil | Some (Some b) \<Rightarrow> RBulk b)"

definition fast_mget :: "keyspace \<Rightarrow> (key \<times> nat) list \<Rightarrow> resp" where
  "fast_mget ks reads =
     RArray (map (\<lambda>(k, now). case fast_live ks k now of Some (Some b) \<Rightarrow> RBulk b | _ \<Rightarrow> RNil) reads)"

definition plain :: "keyspace \<Rightarrow> bool" where
  "plain ks \<longleftrightarrow> \<not> ks_colls ks \<and> \<not> ex_any (ks_expiry ks)"

text \<open>\<open>set_b\<close>, \<open>del_many\<close> and \<open>incr_by_lossy\<close> of \<open>crates/views/src/kv.rs\<close>.\<close>

definition kv_set :: "run_env \<Rightarrow> key \<Rightarrow> bytes \<Rightarrow> engine \<Rightarrow> (resp + unit) \<times> engine" where
  "kv_set env key v e =
     (case submit_now (re_io env) [(kv key, VBytes v)] [] None None e of
        (e', AckIo x) \<Rightarrow> (Inl (err (re_io_text env x)), e') | (e', _) \<Rightarrow> (Inr (), e'))"

definition del_keys :: "engine \<Rightarrow> key list \<Rightarrow> key list" where
  "del_keys e keys =
     fold (\<lambda>k dels. if get e (kv k) \<noteq> None \<and> kv k \<notin> set dels then dels @ [kv k] else dels) keys []"

definition kv_del_many :: "run_env \<Rightarrow> key list \<Rightarrow> engine \<Rightarrow> (resp + nat) \<times> engine" where
  "kv_del_many env keys e =
     (let dels = del_keys e keys
      in if dels = [] then (Inr 0, e)
         else case submit_now (re_io env) (fold (\<lambda>k. bt_insert k VTombstone) dels []) [] None None e of
                (e', AckIo x) \<Rightarrow> (Inl (err (re_io_text env x)), e')
              | (e', _) \<Rightarrow> (Inr (length dels), e'))"

definition op_error_text :: "op_error \<Rightarrow> string" where
  "op_error_text e =
     (case e of
        NotAnInteger \<Rightarrow> ''value is not an integer or out of range''
      | IncrOverflow \<Rightarrow> ''increment or decrement would overflow''
      | WrongType \<Rightarrow> ''WRONGTYPE Operation against a key holding the wrong kind of value'')"

definition kv_incr_by :: "run_env \<Rightarrow> key \<Rightarrow> i64 \<Rightarrow> engine \<Rightarrow> (resp + i64) \<times> engine" where
  "kv_incr_by env key by e =
     (case submit_now (re_io env) [] [] (Some (kv key, by)) None e of
        (e', AckIo x) \<Rightarrow> (Inl (err (re_io_text env x)), e')
      | (e', AckOpErr x) \<Rightarrow> (Inl (err (op_error_text x)), e')
      | (e', AckOk v) \<Rightarrow> (Inr (case v of None \<Rightarrow> 0 | Some n \<Rightarrow> n), e')
      | (e', AckConflict) \<Rightarrow> (Inr 0, e'))"

definition incr_amount :: "string \<Rightarrow> bytes list \<Rightarrow> resp + i64" where
  "incr_amount name a =
     (if name = ''INCR'' then Inr 1
      else if name = ''DECR'' then Inr (- 1)
      else
        case parse_strict_i64 (a ! 1) of
          None \<Rightarrow> Inl (err ''value is not an integer or out of range'')
        | Some v \<Rightarrow>
            if name = ''INCRBY'' then Inr v
            else (case checked_neg_i64 v of None \<Rightarrow> Inl (err ''decrement would overflow'') | Some v \<Rightarrow> Inr v))"

text \<open>\<open>fast_keyspace\<close>: \<open>None\<close> leaves the command to the executor.  \<open>nows\<close> are its clock readings.\<close>

definition fast_keyspace :: "run_env \<Rightarrow> nat list \<Rightarrow> string \<Rightarrow> bytes list \<Rightarrow> keyspace \<Rightarrow> resp option \<times> keyspace" where
  "fast_keyspace env nows name a ks =
     (if name = ''GET'' \<and> length a = 1 then (Some (fast_get ks (hd nows) (a ! 0)), ks)
      else if name = ''MGET'' \<and> length a \<ge> 1 then (Some (fast_mget ks (zip a nows)), ks)
      else if name = ''SET'' \<and> length a = 2 \<and> plain ks then
        (case kv_set env (a ! 0) (a ! 1) (ks_engine ks) of
           (Inl e, en) \<Rightarrow> (Some e, ks\<lparr>ks_engine := en\<rparr>)
         | (Inr _, en) \<Rightarrow> (Some ok_reply, ks\<lparr>ks_engine := en\<rparr>))
      else if (name = ''DEL'' \<or> name = ''UNLINK'') \<and> length a \<ge> 1 \<and> plain ks then
        (case kv_del_many env a (ks_engine ks) of
           (Inl e, en) \<Rightarrow> (Some e, ks\<lparr>ks_engine := en\<rparr>)
         | (Inr n, en) \<Rightarrow> (Some (int_reply (int n)), ks\<lparr>ks_engine := en\<rparr>))
      else if (name = ''INCR'' \<or> name = ''DECR'') \<and> length a = 1
           \<or> (name = ''INCRBY'' \<or> name = ''DECRBY'') \<and> length a = 2 then
        (case incr_amount name a of
           Inl e \<Rightarrow> (Some e, ks)
         | Inr by \<Rightarrow>
             let ks = reap_if_expired (hd nows) env (a ! 0) ks
             in (case kv_incr_by env (a ! 0) by (ks_engine ks) of
                   (Inl e, en) \<Rightarrow> (Some e, ks\<lparr>ks_engine := en\<rparr>)
                 | (Inr n, en) \<Rightarrow> (Some (RInt n), ks\<lparr>ks_engine := en\<rparr>)))
      else (None, ks))"

end
