(* ===== verification/Keyspace_Proofs.thy ===== *)
theory Keyspace_Proofs
  imports Keyspace
begin

text \<open>
  What the keyspace guarantees: every command of the dispatcher notes its effects, the mirrors in
  memory (the expiry index and the collection flag) follow the engine through every commit, a
  command that fails leaves nothing behind, and the fast read agrees with the executor.
\<close>

section \<open>Every command meets the triple\<close>

context frame_store
begin

lemma safe_first_offer: "\<forall>x\<in>set offers. pred_option (safe c) x \<Longrightarrow> safe c (first_offer offers name)"
proof (induction offers name rule: first_offer.induct)
  case (1 name)
  then show ?case by (simp add: keeps_fail)
qed auto

lemma safe_time_cmd: "safe c time_cmd"
  unfolding time_cmd_def by (intro keep)

lemma safe_exec_inner: "safe c (exec_inner ops name a)"
proof -
  have "pred_option (safe c) (if is_stream_cmd name then exec_stream ops name a else None)"
    using safe_exec_stream by simp
  moreover have "pred_option (safe c) (if name = ''TIME'' then Some time_cmd else None)"
    using safe_time_cmd by simp
  ultimately show ?thesis
    unfolding exec_inner_def
    by (intro safe_first_offer)
      (simp add: safe_exec_string safe_exec_generic safe_exec_hash safe_exec_list safe_exec_set safe_exec_zset)
qed

lemma exec_follows:
  assumes "tracked V0 cx" and "exec ops name a cx = (r, cx')"
  shows "follows V0 cx cx'"
proof -
  obtain x where "exec_inner ops name a cx = (x, cx')"
    using assms(2) by (auto simp: exec_def split: prod.splits sum.splits)
  then show ?thesis using keeps_run(1) [OF safe_exec_inner assms(1), of False] by blast
qed

lemma load_follows:
  assumes "tracked V0 cx" and "load ops k cx = (r, cx')"
  shows "follows V0 cx cx'"
  using keeps_run(1) [OF keeps_load assms(1) _ assms(2), of False] by simp

end

section \<open>What an operation of the commit path leaves\<close>

definition op_effect :: "op_store \<Rightarrow> op_store \<Rightarrow> (key \<times> nat option) list \<Rightarrow> bool \<Rightarrow> bool" where
  "op_effect st st' exp created \<longleftrightarrow>
     op_grows st st' \<and> mirrors (os_get st) exp (os_get st')
     \<and> (has_coll (os_get st') \<longrightarrow> has_coll (os_get st) \<or> created)"

lemma op_grows_refl: "os_wf st \<Longrightarrow> op_grows st st"
  by (simp add: op_grows_def)

lemma op_grows_trans: "op_grows st st1 \<Longrightarrow> op_grows st1 st2 \<Longrightarrow> op_grows st st2"
  by (simp add: op_grows_def)

lemma op_effect_refl: "os_wf st \<Longrightarrow> op_effect st st [] c"
  by (simp add: op_effect_def op_grows_refl mirrors_Nil)

lemma op_effect_trans:
  "op_effect st st1 E c \<Longrightarrow> op_effect st1 st2 E' c' \<Longrightarrow> op_effect st st2 (E @ E') (c \<or> c')"
  by (auto simp: op_effect_def intro: op_grows_trans mirrors_trans)

lemma op_effect_get:
  "op_effect st st1 E c \<Longrightarrow> op_grows st1 st2 \<Longrightarrow> os_get st2 = os_get st1 \<Longrightarrow> op_effect st st2 E c"
  by (auto simp: op_effect_def intro: op_grows_trans)

lemma command_run_grows:
  "command_run os_ops st st' \<Longrightarrow> os_wf st \<Longrightarrow> op_grows st st' \<and> (os_step sp)\<^sup>*\<^sup>* st st'"
proof (induction rule: command_run.induct)
  case (put s1 k v)
  then show ?case
    by (auto simp: op_grows_def os_ops_def os.wf_put intro: rtranclp.rtrancl_into_rtrancl os_step.put)
next
  case (delete s1 k)
  then show ?case
    by (auto simp: op_grows_def os_ops_def os.wf_delete intro: rtranclp.rtrancl_into_rtrancl os_step.delete)
next
  case (get s1 k)
  then show ?case by (simp add: os_ops_def)
qed (simp add: op_grows_refl)

lemma tracked_start: "os_wf (cx_tx cx) \<Longrightarrow> cx_exp cx = [] \<Longrightarrow> fs.tracked (os_get (cx_tx cx)) cx"
  unfolding fs.tracked_def fs.flag_def fs_view by (simp add: mirrors_Nil)

lemma follows_effect:
  assumes "fs.follows (os_get st) cx cx'" and "op_grows st (cx_tx cx)"
  shows "op_effect st (cx_tx cx') (cx_exp cx') (cx_created cx')"
proof -
  have "os_wf (cx_tx cx)" using assms(2) by (simp add: op_grows_def)
  then have "op_grows (cx_tx cx) (cx_tx cx')"
    using assms(1) command_run_grows unfolding fs.follows_def by blast
  then show ?thesis
    using assms op_grows_trans unfolding fs.follows_def fs.tracked_def fs_view fs.flag_def op_effect_def by blast
qed

lemma new_cx_simps [simp]:
  "cx_tx (new_cx ro env s) = s" "cx_exp (new_cx ro env s) = []" "cx_created (new_cx ro env s) = False"
  "cx_now (new_cx ro env s) = re_now env" "cx_readonly (new_cx ro env s) = ro"
  by (simp_all add: new_cx_def)

lemma exec_effect:
  assumes "os_wf st" and "exec os_ops name a (new_cx ro env st) = (r, cx)"
  shows "op_effect st (cx_tx cx) (cx_exp cx) (cx_created cx)" and "command_run os_ops st (cx_tx cx)"
proof -
  have t: "fs.tracked (os_get st) (new_cx ro env st)"
    using tracked_start [of "new_cx ro env st"] assms(1) by simp
  note f = fs.exec_follows [OF t assms(2)]
  show "op_effect st (cx_tx cx) (cx_exp cx) (cx_created cx)"
    by (rule follows_effect [OF f]) (simp add: op_grows_refl assms(1))
  show "command_run os_ops st (cx_tx cx)" using f by (simp add: fs.follows_def)
qed

text \<open>Savepoints and what rolling back to them leaves.\<close>

lemma os_get_cong:
  "os_writes st = os_writes st' \<Longrightarrow> os_overlay st = os_overlay st' \<Longrightarrow> os_shards st = os_shards st' \<Longrightarrow> os_get st = os_get st'"
  by (rule ext) (simp add: os_get_def split: option.split)

lemma savepoint_grows: "os_wf st \<Longrightarrow> os_savepoint st = (sp, st0) \<Longrightarrow> op_grows st st0 \<and> os_get st0 = os_get st"
  by (auto simp: os_savepoint_def op_grows_def os_wf_def intro!: os_get_cong)

lemma rolled_back:
  assumes "os_wf st" and sp: "os_savepoint st = (sp, st0)" and run: "command_run os_ops st0 st'"
  shows "op_grows st (os_rollback_to sp st') \<and> os_get (os_rollback_to sp st') = os_get st"
proof -
  note s = savepoint_grows [OF assms(1) sp]
  have g: "op_grows st0 st'" "(os_step sp)\<^sup>*\<^sup>* st0 st'"
    using command_run_grows [OF run] s by (auto simp: op_grows_def)
  have "undo_reaches sp (os_writes st) (os_undo st) st0"
    using assms(1) sp by (auto simp: os_savepoint_def undo_reaches_def os_wf_def)
  with g(2) have "undo_reaches sp (os_writes st) (os_undo st) st'"
    by (induction rule: rtranclp_induct) (auto intro: undo_reaches_step)
  then have "os_writes (os_rollback_to sp st') = os_writes st" by (simp add: os_rollback_eq undo_reaches_def)
  then show ?thesis
    using g(1) s assms(1) by (auto simp: op_grows_def os_rollback_eq os_wf_def intro!: os_get_cong)
qed

section \<open>The operations\<close>

lemma discard_effect:
  assumes "os_writes st = []" and "op_grows st st1" and "os_wf st"
  shows "op_effect st (os_discard st1) [] c"
proof -
  have "op_grows st (os_discard st1)" using assms by (auto simp: op_grows_def os_discard_def os_wf_def)
  moreover have "os_get (os_discard st1) = os_get st"
    by (rule os_get_cong) (use assms in \<open>auto simp: op_grows_def os_discard_def\<close>)
  ultimately show ?thesis using op_effect_get [OF op_effect_refl] assms(3) by blast
qed

lemma run_op_wf: "os_wf st \<Longrightarrow> os_wf (snd (run_op env name a st))"
  using exec_effect(1) [of st name a False env]
  by (fastforce simp: run_op_def op_effect_def op_grows_def os_discard_def os_wf_def split: prod.split)

lemma run_op_effect:
  assumes "os_wf st" and "os_writes st = []" and "run_op env name a st = (oc, st')"
  shows "op_effect st st' (oc_exp oc) (oc_created oc) \<and> (is_error (oc_reply oc) \<longrightarrow> os_writes st' = [] \<and> oc_exp oc = [])"
proof -
  obtain r cx where x: "exec os_ops name a (new_cx False env st) = (r, cx)" by fastforce
  note e = exec_effect(1) [OF assms(1) x]
  have "op_effect st (os_discard (cx_tx cx)) [] (cx_created cx)"
    by (rule discard_effect) (use e assms in \<open>auto simp: op_effect_def\<close>)
  then show ?thesis using assms(3) e by (auto simp: run_op_def x os_discard_def split: if_splits)
qed

lemma writes_op_effect:
  "os_wf st \<Longrightarrow> writes_op env cmds st = (ocs, st') \<Longrightarrow>
     op_effect st st' (concat (map oc_exp ocs)) (\<exists>oc\<in>set ocs. oc_created oc) \<and> length ocs = length cmds"
proof (induction cmds arbitrary: env st ocs st')
  case Nil
  then show ?case by (simp add: op_effect_refl)
next
  case (Cons c cmds)
  obtain name a where c: "c = (name, a)" by (cases c)
  obtain sp st0 where sp: "os_savepoint st = (sp, st0)" by fastforce
  obtain r cx where x: "exec os_ops name a (new_cx False env st0) = (r, cx)" by fastforce
  have s0: "op_grows st st0" "os_get st0 = os_get st" "os_wf st0"
    using savepoint_grows [OF Cons.prems(1) sp] by (auto simp: op_grows_def)
  define oc where "oc = (if is_error r then \<lparr>oc_reply = r, oc_exp = [], oc_created = False\<rparr>
    else \<lparr>oc_reply = r, oc_exp = cx_exp cx, oc_created = cx_created cx\<rparr>)"
  define st1 where "st1 = (if is_error r then os_rollback_to sp (cx_tx cx) else cx_tx cx)"
  have first: "op_effect st st1 (oc_exp oc) (oc_created oc)"
  proof (cases "is_error r")
    case True
    then show ?thesis
      using op_effect_get [OF op_effect_refl] rolled_back [OF Cons.prems(1) sp exec_effect(2) [OF s0(3) x]] Cons.prems(1)
      by (auto simp: oc_def st1_def)
  next
    case False
    have "op_effect st st0 [] False" using op_effect_get [OF op_effect_refl s0(1,2)] Cons.prems(1) by simp
    from op_effect_trans [OF this exec_effect(1) [OF s0(3) x]] show ?thesis using False by (simp add: oc_def st1_def)
  qed
  let ?env = "env\<lparr>re_rnd := cx_rnd cx, re_clock := cx_clock cx\<rparr>"
  obtain ocs' where r: "writes_op ?env cmds st1 = (ocs', st')" "ocs = oc # ocs'"
    using Cons.prems(2) by (auto simp: c sp x oc_def st1_def Let_def split: prod.splits if_splits)
  have "os_wf st1" using first by (simp add: op_effect_def op_grows_def)
  then have "op_effect st1 st' (concat (map oc_exp ocs')) (\<exists>oc\<in>set ocs'. oc_created oc) \<and> length ocs' = length cmds"
    using Cons.IH r(1) by blast
  then show ?case using op_effect_trans [OF first] by (auto simp: r(2))
qed

lemma multi_loop_effect:
  assumes "fs.tracked V0 cx" and "multi_loop cmds cx = (out, cx')"
  shows "fs.tracked V0 cx' \<and> op_grows (cx_tx cx) (cx_tx cx') \<and> length out = length cmds"
  using assms
proof (induction cmds arbitrary: cx out)
  case Nil
  then show ?case by (auto simp: fs.tracked_def op_grows_refl)
next
  case (Cons c cmds)
  obtain r cx1 where m: "multi_step cx c = (r, cx1)" by fastforce
  obtain sp st0 where sp: "os_savepoint (cx_tx cx) = (sp, st0)" by fastforce
  obtain r' cx2 where x: "exec os_ops (upper_name (hd c)) (tl c) (cx\<lparr>cx_tx := st0\<rparr>) = (r', cx2)" by fastforce
  have wf: "os_wf (cx_tx cx)" using Cons.prems(1) by (simp add: fs.tracked_def)
  note s0 = savepoint_grows [OF wf sp]
  then have wf0: "os_wf st0" by (simp add: op_grows_def)
  have t0: "fs.tracked V0 (cx\<lparr>cx_tx := st0\<rparr>)"
    by (rule fs.tracked_same_view [OF Cons.prems(1) wf0]) (use s0 in \<open>simp add: fs_view\<close>)
  note f = fs.exec_follows [OF t0 x]
  have run: "command_run os_ops st0 (cx_tx cx2)" and t2: "fs.tracked V0 cx2"
    and E: "\<exists>E. cx_exp cx2 = cx_exp cx @ E" and fl: "fs.flag V0 cx \<longrightarrow> fs.flag V0 cx2"
    using f by (auto simp: fs.follows_def fs.flag_def)
  have step: "fs.tracked V0 cx1 \<and> op_grows (cx_tx cx) (cx_tx cx1)"
  proof (cases "is_error r'")
    case True
    then have cx1: "cx1 = cx2\<lparr>cx_tx := os_rollback_to sp (cx_tx cx2), cx_exp := cx_exp cx\<rparr>"
      using m E by (auto simp: multi_step_def sp x)
    show ?thesis
      using rolled_back [OF wf sp run] Cons.prems(1) fl
      by (auto simp: cx1 fs.tracked_def fs_view fs.flag_def op_grows_def)
  next
    case False
    then have "cx1 = cx2" using m by (simp add: multi_step_def sp x)
    then show ?thesis using t2 command_run_grows [OF run wf0] s0 op_grows_trans by blast
  qed
  obtain rs where l: "multi_loop cmds cx1 = (rs, cx')" "out = r # rs"
    using Cons.prems(2) by (auto simp: m split: prod.splits)
  show ?case using Cons.IH [OF conjunct1 [OF step] l(1)] step op_grows_trans l(2) by auto
qed

lemma multi_op_effect:
  assumes "os_wf st" and "multi_op env cmds watches st = (oc, st')"
  shows "op_effect st st' (oc_exp oc) (oc_created oc)"
proof (cases "list_ex (watch_broken (re_now env) st) watches")
  case True
  then show ?thesis using assms op_effect_refl by (auto simp: multi_op_def)
next
  case False
  obtain out cx where l: "multi_loop cmds (new_cx False env st) = (out, cx)" by fastforce
  have t: "fs.tracked (os_get st) (new_cx False env st)"
    using tracked_start [of "new_cx False env st"] assms(1) by simp
  show ?thesis
    using multi_loop_effect [OF t l] assms(2) False
    by (auto simp: multi_op_def l op_effect_def fs.tracked_def fs_view fs.flag_def)
qed

text \<open>Loading a key creates nothing.\<close>

definition creates_none :: "('s, 'a) cmd \<Rightarrow> bool" where
  "creates_none m \<longleftrightarrow> (\<forall>cx. cx_created (snd (m cx)) = cx_created cx)"

lemma creates_none_basic:
  "creates_none (ret x)" "creates_none (fail e)" "creates_none now_cmd" "creates_none readonly_cmd"
  "creates_none (get_key ops k)" "creates_none (delete_key ops k)" "creates_none (note_exp k d)"
  "creates_none (scan_keys ops h s t n rv)" "creates_none (put_key ops k v)"
  by (auto simp: creates_none_def ret_def fail_def now_cmd_def readonly_cmd_def get_key_def delete_key_def
      note_exp_def scan_keys_def put_key_def split: prod.split)

lemma creates_none_bnd: "creates_none m \<Longrightarrow> (\<And>x. creates_none (f x)) \<Longrightarrow> creates_none (bnd m f)"
  by (simp add: creates_none_def bnd_def split: prod.split sum.split) (metis snd_conv)

lemma creates_none_each: "(\<And>acc x. creates_none (f acc x)) \<Longrightarrow> creates_none (each_of f xs acc)"
  by (induction xs arbitrary: acc) (simp_all add: creates_none_basic creates_none_bnd)

lemma creates_none_load: "creates_none (load ops k)"
  unfolding load_def delete_all_def delete_elements_def delete_family_def set_ttl_def Let_def
  by (auto intro!: creates_none_bnd creates_none_basic creates_none_each split: option.split sum.split prod.split ent.split)

lemma purge_op_effect:
  assumes "os_wf st" and "purge_op env k st = (oc, st')"
  shows "op_effect st st' (oc_exp oc) (oc_created oc)"
proof -
  obtain r cx where l: "load os_ops k (new_cx False env st) = (r, cx)" by fastforce
  have t: "fs.tracked (os_get st) (new_cx False env st)"
    using tracked_start [of "new_cx False env st"] assms(1) by simp
  have "\<not> cx_created cx" using creates_none_load [of os_ops k] l by (auto simp: creates_none_def dest: spec [of _ "new_cx False env st"])
  then show ?thesis
    using assms(2) follows_effect [OF fs.load_follows [OF t l]] by (auto simp: purge_op_def l op_grows_refl assms(1))
qed

section \<open>The mirrors follow the engine\<close>

text \<open>
  \<open>ks_tracks F b\<close>: the index holds the stored deadlines, except that a key of \<open>F\<close> may be missing from
  it, and the collection flag is up while a header exists, unless \<open>b\<close>.  \<open>ks_ok\<close> is the case without
  exceptions.
\<close>

definition ks_tracks :: "key set \<Rightarrow> bool \<Rightarrow> keyspace \<Rightarrow> bool" where
  "ks_tracks F b ks \<longleftrightarrow>
     engine_ok (ks_engine ks) \<and> write_queue (ks_engine ks) = [] \<and> expiry_ok (ks_expiry ks)
     \<and> (\<forall>k. expiry_get (ks_expiry ks) k = deadline (get (ks_engine ks)) k
          \<or> k \<in> F \<and> expiry_get (ks_expiry ks) k = None)
     \<and> (has_coll (get (ks_engine ks)) \<longrightarrow> ks_colls ks \<or> b)"

abbreviation ks_ok :: "keyspace \<Rightarrow> bool" where
  "ks_ok \<equiv> ks_tracks {} False"

lemma ks_ok_def:
  "ks_ok ks \<longleftrightarrow>
     engine_ok (ks_engine ks) \<and> write_queue (ks_engine ks) = [] \<and> expiry_ok (ks_expiry ks)
     \<and> (\<forall>k. expiry_get (ks_expiry ks) k = deadline (get (ks_engine ks)) k)
     \<and> (has_coll (get (ks_engine ks)) \<longrightarrow> ks_colls ks)"
  by (simp add: ks_tracks_def)

lemma ks_tracks_engine: "ks_tracks F b ks \<Longrightarrow> engine_ok (ks_engine ks)" "ks_tracks F b ks \<Longrightarrow> write_queue (ks_engine ks) = []"
  by (simp_all add: ks_tracks_def)

lemma commit_op_ok:
  assumes ok: "engine_ok e" "write_queue e = []" and wf: "\<And>st. os_wf st \<Longrightarrow> os_wf (snd (f st))"
    and g: "op_grows (op_input e) (snd (f (op_input e)))" and run: "commit_op env f e = (r, e')"
  shows "engine_ok e' \<and> write_queue e' = [] \<and> sync_writes e' = sync_writes e \<and>
    ((\<exists>x. r = Inl (err (re_io_text env x))) \<and> get e' = get e \<and> events e' = events e
     \<or> r = Inr (fst (f (op_input e))) \<and> get e' = os_get (snd (f (op_input e)))
       \<and> (os_writes (snd (f (op_input e))) = [] \<longrightarrow> events e' = events e)
       \<and> (sync_writes e \<and> poisoned (co_wal e) \<longrightarrow> events e' = events e))"
proof -
  obtain a where a: "submit_now (re_io env) [] [] None (Some (\<lambda>st. snd (f st))) e = (e', a)"
    using run by (auto simp: commit_op_def split: prod.splits ack.splits)
  note s = submit_op_get [OF ok wf g a]
  show ?thesis using s run by (auto simp: commit_op_def a)
qed

lemma after_commit_fields [simp]:
  "ks_engine (after_commit E c ks) = ks_engine ks" "ks_colls (after_commit E c ks) = (c \<or> ks_colls ks)"
  "ks_expiry (after_commit E c ks) = expiry_apply E (ks_expiry ks)"
  by (simp_all add: after_commit_def)

lemma expiry_apply_append: "expiry_apply (E @ E') x = expiry_apply E' (expiry_apply E x)"
  by (simp add: expiry_apply_def)

lemma op_input_wf: "os_wf (op_input e)" "os_writes (op_input e) = []"
  by (simp_all add: op_input_def os_new_def os_wf_def)

text \<open>Applying the notes of an operation to the mirrors makes them follow it.\<close>

lemma mirrors_applied:
  assumes ok: "ks_tracks F b ks" and e: "op_effect (op_input (ks_engine ks)) st' E c"
    and en: "engine_ok en" "write_queue en = []" "get en = os_get st'"
  shows "ks_tracks F b \<lparr>ks_engine = en, ks_expiry = expiry_apply E (ks_expiry ks), ks_colls = (c \<or> ks_colls ks)\<rparr>"
proof -
  have eng: "engine_ok (ks_engine ks)" and x: "expiry_ok (ks_expiry ks)" using ok by (auto simp: ks_tracks_def)
  have "os_get (op_input (ks_engine ks)) = get (ks_engine ks)" using os_get_input [OF eng] by (simp add: fun_eq_iff)
  then have m: "mirrors (get (ks_engine ks)) E (get en)" "has_coll (get en) \<longrightarrow> has_coll (get (ks_engine ks)) \<or> c"
    using e en(3) by (auto simp: op_effect_def)
  have "expiry_get (expiry_apply E (ks_expiry ks)) k = deadline (get en) k
      \<or> k \<in> F \<and> expiry_get (expiry_apply E (ks_expiry ks)) k = None" for k
    using expiry_apply_get [OF x, of E k] m(1) ok by (auto simp: mirrors_def ks_tracks_def split: option.split)
  then show ?thesis using m(2) ok en x by (auto simp: ks_tracks_def expiry_apply_ok)
qed

lemma ks_ok_same_reads:
  assumes "ks_tracks F b ks" and "engine_ok en" and "write_queue en = []" and "get en = get (ks_engine ks)"
  shows "ks_tracks F b (ks\<lparr>ks_engine := en\<rparr>)"
  using assms by (simp add: ks_tracks_def)

text \<open>A run on the commit path either failed and changed nothing, or left what the operation left.\<close>

definition path_result ::
    "key set \<Rightarrow> bool \<Rightarrow> run_env \<Rightarrow> (op_store \<Rightarrow> outcome \<times> op_store) \<Rightarrow> keyspace \<Rightarrow> resp \<Rightarrow> keyspace \<Rightarrow> bool" where
  "path_result F b env f ks r ks' \<longleftrightarrow> ks_tracks F b ks' \<and>
    ((\<exists>x. r = err (re_io_text env x) \<and> get (ks_engine ks') = get (ks_engine ks) \<and> ks_expiry ks' = ks_expiry ks)
    \<or> (\<exists>oc st'. f (op_input (ks_engine ks)) = (oc, st') \<and> r = oc_reply oc \<and> get (ks_engine ks') = os_get st'
        \<and> ks_expiry ks' = expiry_apply (oc_exp oc) (ks_expiry ks)
        \<and> (sync_writes (ks_engine ks) \<and> poisoned (co_wal (ks_engine ks)) \<longrightarrow> get (ks_engine ks') = get (ks_engine ks))))"

lemma on_commit_path_ok:
  assumes ok: "ks_tracks F b ks" and wf: "\<And>st. os_wf st \<Longrightarrow> os_wf (snd (f st))"
    and eff: "\<And>st oc st'. os_wf st \<Longrightarrow> os_writes st = [] \<Longrightarrow> f st = (oc, st') \<Longrightarrow> op_effect st st' (oc_exp oc) (oc_created oc)"
    and run: "on_commit_path env f ks = (r, ks')"
  shows "path_result F b env f ks r ks'"
proof -
  let ?e = "ks_engine ks"
  have e: "engine_ok ?e" "write_queue ?e = []" using ok by (auto simp: ks_tracks_def)
  obtain oc st' where f: "f (op_input ?e) = (oc, st')" by fastforce
  note eff0 = eff [OF op_input_wf f]
  then have g: "op_grows (op_input ?e) (snd (f (op_input ?e)))" by (simp add: f op_effect_def)
  obtain x en where c: "commit_op env f ?e = (x, en)" by fastforce
  note s = commit_op_ok [OF e wf g c]
  have same: "get en = get ?e" if "events en = events ?e"
    using get_committed [of ?e en "[]"] that s e by (auto simp: engine_ok_def of_key_def fun_eq_iff)
  show ?thesis
  proof (cases x)
    case (Inl y)
    then have "r = y" "ks' = ks\<lparr>ks_engine := en\<rparr>" using run by (auto simp: on_commit_path_def c)
    then show ?thesis using s Inl ks_ok_same_reads [OF ok] by (auto simp: path_result_def)
  next
    case (Inr y)
    then have "y = oc" "get en = os_get st'" using s by (auto simp: f)
    then have r: "r = oc_reply oc" and ks': "ks' = after_commit (oc_exp oc) (oc_created oc) (ks\<lparr>ks_engine := en\<rparr>)"
      using run Inr by (auto simp: on_commit_path_def c)
    have "ks' = \<lparr>ks_engine = en, ks_expiry = expiry_apply (oc_exp oc) (ks_expiry ks), ks_colls = (oc_created oc \<or> ks_colls ks)\<rparr>"
      by (simp add: ks' after_commit_def)
    then show ?thesis
      using mirrors_applied [OF ok eff0] s r \<open>get en = os_get st'\<close> Inr f same by (auto simp: path_result_def)
  qed
qed

lemma on_commit_path_always:
  assumes "ks_tracks F b ks" and "on_commit_path env f ks = (r, ks')"
    and eff: "\<And>st oc st'. os_wf st \<Longrightarrow> f st = (oc, st') \<Longrightarrow> op_effect st st' (oc_exp oc) (oc_created oc)"
  shows "path_result F b env f ks r ks'"
proof (rule on_commit_path_ok [OF assms(1) _ _ assms(2)])
  fix st assume "os_wf st"
  then show "os_wf (snd (f st))" using eff [of st] by (cases "f st") (auto simp: op_effect_def op_grows_def)
qed (use eff in blast)

lemma run_ok:
  assumes "ks_tracks F b ks" and "on_commit_path env (run_op env' name a) ks = (r, ks')"
  shows "path_result F b env (run_op env' name a) ks r ks'"
  by (rule on_commit_path_ok [OF assms(1) run_op_wf _ assms(2)]) (use run_op_effect in blast)+

lemma multi_ok:
  assumes "ks_tracks F b ks" and "on_commit_path env (multi_op env cmds watches) ks = (r, ks')"
  shows "path_result F b env (multi_op env cmds watches) ks r ks'"
  using assms by (rule on_commit_path_always) (rule multi_op_effect)

lemma purge_ok:
  assumes "ks_tracks F b ks" and "on_commit_path env (purge_op env k) ks = (r, ks')"
  shows "path_result F b env (purge_op env k) ks r ks'"
  using assms by (rule on_commit_path_always) (rule purge_op_effect)

section \<open>The steps of the keyspace\<close>

lemma read_only_engine:
  assumes "engine_ok e" and "write_queue e = []"
  shows "engine_ok (unpin s (pin (snapshot e) e)) \<and> write_queue (unpin s (pin (snapshot e) e)) = []
    \<and> get (unpin s (pin (snapshot e) e)) = get e"
proof -
  have "engine_ok (pin (snapshot e) e)" using engine_step_ok [OF engine_step.pin assms(1)] by simp
  then have "engine_ok (unpin s (pin (snapshot e) e))" using engine_step_ok [OF engine_step.unpin] by blast
  then show ?thesis using assms(2) by (simp add: get_def snapshot_def fun_eq_iff)
qed

lemma ks_run_ok:
  assumes ok: "ks_tracks F b ks" and run: "ks_run env name a ks = (r, ks')"
  shows "ks_tracks F b ks' \<and> (is_error r \<longrightarrow> get (ks_engine ks') = get (ks_engine ks) \<and> ks_expiry ks' = ks_expiry ks)"
proof -
  have path: "ks_tracks F b ks' \<and> (is_error r \<longrightarrow> get (ks_engine ks') = get (ks_engine ks1) \<and> ks_expiry ks' = ks_expiry ks1)"
    if ok1: "ks_tracks F b ks1" and p: "on_commit_path env' (run_op env' name a) ks1 = (r, ks')" for env' ks1
  proof -
    note s = run_ok [OF ok1 p]
    obtain oc st' where f: "run_op env' name a (op_input (ks_engine ks1)) = (oc, st')" by fastforce
    note e = run_op_effect [OF op_input_wf f]
    have "os_get st' = get (ks_engine ks1) \<and> oc_exp oc = []" if "is_error (oc_reply oc)"
    proof -
      have "os_writes st' = []" "oc_exp oc = []" using e that by auto
      moreover have "op_grows (op_input (ks_engine ks1)) st'" using e by (simp add: op_effect_def)
      ultimately have "os_get st' = os_get (op_input (ks_engine ks1))"
        by (intro os_get_cong) (auto simp: op_grows_def op_input_wf)
      then show ?thesis using os_get_input [of "ks_engine ks1"] ok1 \<open>oc_exp oc = []\<close> by (simp add: ks_tracks_def fun_eq_iff)
    qed
    then show ?thesis using s f by (auto simp: path_result_def expiry_apply_def)
  qed
  have e: "engine_ok (ks_engine ks)" "write_queue (ks_engine ks) = []" using ok by (auto simp: ks_tracks_def)
  have ro: "ks_tracks F b (ks\<lparr>ks_engine := unpin s (pin (snapshot (ks_engine ks)) (ks_engine ks))\<rparr>)" for s
    using ks_ok_same_reads [OF ok] read_only_engine [OF e, of s] by blast
  show ?thesis
  proof (cases "is_keyspace_write name")
    case True
    then show ?thesis using path [OF ok] run by (simp add: ks_run_def)
  next
    case False
    then show ?thesis
      using run path [OF ro] ro read_only_engine [OF e]
      by (auto simp: ks_run_def txn_begin_def Let_def split: prod.splits if_splits)
  qed
qed

lemma fold_after_commit:
  "fold (\<lambda>oc. after_commit (oc_exp oc) (oc_created oc)) ocs ks =
     ks\<lparr>ks_expiry := expiry_apply (concat (map oc_exp ocs)) (ks_expiry ks),
        ks_colls := ((\<exists>oc\<in>set ocs. oc_created oc) \<or> ks_colls ks)\<rparr>"
  by (induction ocs arbitrary: ks) (auto simp: after_commit_def expiry_apply_def disj_ac)

lemma run_writes_ok:
  assumes ok: "ks_tracks F b ks" and run: "run_writes env cmds ks = (rs, ks')"
  shows "ks_tracks F b ks'"
proof -
  let ?e = "ks_engine ks"
  have e: "engine_ok ?e" "write_queue ?e = []" using ok by (auto simp: ks_tracks_def)
  have wf: "os_wf (snd (writes_op env cmds st))" if "os_wf st" for st
    using writes_op_effect [OF that] by (cases "writes_op env cmds st") (auto simp: op_effect_def op_grows_def)
  obtain ocs st' where f: "writes_op env cmds (op_input ?e) = (ocs, st')" by fastforce
  note eff = conjunct1 [OF writes_op_effect [OF op_input_wf(1) f]]
  then have g: "op_grows (op_input ?e) (snd (writes_op env cmds (op_input ?e)))" by (simp add: f op_effect_def)
  obtain x en where c: "commit_op env (writes_op env cmds) ?e = (x, en)" by fastforce
  note s = commit_op_ok [OF e wf g c]
  show ?thesis
  proof (cases x)
    case (Inl y)
    then show ?thesis using run s ks_ok_same_reads [OF ok] by (auto simp: run_writes_def c)
  next
    case (Inr y)
    then have y: "y = ocs" "get en = os_get st'" using s by (auto simp: f)
    have "ks' = \<lparr>ks_engine = en, ks_expiry = expiry_apply (concat (map oc_exp ocs)) (ks_expiry ks),
        ks_colls = ((\<exists>oc\<in>set ocs. oc_created oc) \<or> ks_colls ks)\<rparr>"
      using run Inr y by (auto simp: run_writes_def c fold_after_commit)
    then show ?thesis using mirrors_applied [OF ok eff _ _ y(2)] s by simp
  qed
qed

lemma exec_multi_ok:
  assumes ok: "ks_tracks F b ks" and run: "exec_multi env cmds watches ks = (r, ks')"
  shows "ks_tracks F b ks'"
proof -
  obtain x where "on_commit_path env (multi_op env cmds watches) ks = (x, ks')"
    using run by (auto simp: exec_multi_def split: prod.splits)
  from multi_ok [OF ok this] show ?thesis by (simp add: path_result_def)
qed

lemma purge_ks_ok: "ks_tracks F b ks \<Longrightarrow> ks_tracks F b (purge env k ks)"
  using purge_ok [of F b ks] by (cases "on_commit_path env (purge_op env k) ks") (auto simp: purge_def path_result_def)

text \<open>The fast writes touch values of strings only.\<close>

lemma ks_ok_strings:
  assumes ok: "ks_tracks F b ks" and "engine_ok en" and "write_queue en = []"
    and "\<And>k. get en (expk k) = get (ks_engine ks) (expk k)"
    and "\<And>k m. get en (kv k) = Some (VMeta m) \<Longrightarrow> get (ks_engine ks) (kv k) = Some (VMeta m)"
  shows "ks_tracks F b (ks\<lparr>ks_engine := en\<rparr>)"
proof -
  have "has_coll (get en) \<Longrightarrow> has_coll (get (ks_engine ks))" using assms(5) unfolding has_coll_def by blast
  then show ?thesis using assms(1-4) by (auto simp: ks_tracks_def deadline_def)
qed

lemma del_keys_kv: "\<forall>d\<in>set (del_keys e keys). \<exists>u. d = kv u"
  unfolding del_keys_def
  by (rule fold_invariant [where Q = "\<lambda>_. True" and P = "\<lambda>ds. \<forall>d\<in>set ds. \<exists>u. d = kv u"]) auto

lemma tombstones_get:
  "bt_wf m \<Longrightarrow> bt_wf (fold (\<lambda>k. bt_insert k VTombstone) ds m)
    \<and> (bt_get (fold (\<lambda>k. bt_insert k VTombstone) ds m) k = (if k \<in> set ds then Some VTombstone else bt_get m k))"
  by (induction ds arbitrary: m) (auto simp: bt_wf_insert bt_get_insert)

end
