(* ===== verification/Ks_Steps.thy ===== *)
theory Ks_Steps
  imports Keyspace_Proofs
begin

text \<open>
  Every way the mirrors in memory change: commands, pipelined runs, transactions, the reaper, the
  fast paths, replicated writes, and rebuilding them; with what each may leave behind.
\<close>

section \<open>The fast writes\<close>

lemma kv_set_ok:
  assumes ok: "ks_tracks F b ks" and run: "kv_set env k v (ks_engine ks) = (r, en)"
  shows "ks_tracks F b (ks\<lparr>ks_engine := en\<rparr>)"
proof -
  let ?e = "ks_engine ks"
  have e: "engine_ok ?e" "write_queue ?e = []" using ok by (auto simp: ks_tracks_def)
  obtain a where a: "submit_now (re_io env) [(kv k, VBytes v)] [] None None ?e = (en, a)"
    using run by (auto simp: kv_set_def split: prod.splits ack.splits)
  have wf: "bt_wf [(kv k, VBytes v)]" by (simp add: bt_wf_Cons)
  show ?thesis
    by (rule ks_ok_strings [OF ok]) (use submit_writes_get [OF e wf a] in \<open>auto simp: live_def split: if_splits\<close>)
qed

lemma kv_del_many_ok:
  assumes ok: "ks_tracks F b ks" and run: "kv_del_many env keys (ks_engine ks) = (r, en)"
  shows "ks_tracks F b (ks\<lparr>ks_engine := en\<rparr>)"
proof (cases "del_keys (ks_engine ks) keys = []")
  case True
  then have "en = ks_engine ks" using run by (auto simp: kv_del_many_def)
  then show ?thesis using ok by simp
next
  case False
  let ?e = "ks_engine ks" and ?ds = "del_keys (ks_engine ks) keys"
  have e: "engine_ok ?e" "write_queue ?e = []" using ok by (auto simp: ks_tracks_def)
  obtain a where a: "submit_now (re_io env) (fold (\<lambda>k. bt_insert k VTombstone) ?ds []) [] None None ?e = (en, a)"
    using run False by (auto simp: kv_del_many_def Let_def split: prod.splits ack.splits)
  have wf: "bt_wf (fold (\<lambda>k. bt_insert k VTombstone) ?ds [])"
    and g: "bt_get (fold (\<lambda>k. bt_insert k VTombstone) ?ds []) k = (if k \<in> set ?ds then Some VTombstone else None)" for k
    using tombstones_get [of "[]" ?ds k] by auto
  note s = submit_writes_get [OF e wf a]
  have "expk k \<notin> set ?ds" for k using del_keys_kv [of ?e keys] by fastforce
  moreover have "get en u = None \<and> u \<in> set ?ds \<or> get en u = get ?e u" for u
    by (cases "u \<in> set ?ds") (use s in \<open>auto simp: g fun_eq_iff live_def\<close>)
  ultimately show ?thesis using s by (intro ks_ok_strings [OF ok]) (metis option.distinct(1))+
qed

lemma kv_incr_by_ok:
  assumes ok: "ks_tracks F b ks" and run: "kv_incr_by env k by (ks_engine ks) = (r, en)"
  shows "ks_tracks F b (ks\<lparr>ks_engine := en\<rparr>)"
proof -
  let ?e = "ks_engine ks"
  have e: "engine_ok ?e" "write_queue ?e = []" using ok by (auto simp: ks_tracks_def)
  obtain a where a: "submit_now (re_io env) [] [] (Some (kv k, by)) None ?e = (en, a)"
    using run by (auto simp: kv_incr_by_def split: prod.splits ack.splits)
  note s = submit_incr_get [OF e a]
  then have "get en = get ?e \<or> (\<exists>n. get en = (get ?e)(kv k := Some (VInt n)))" by (auto split: ack.splits)
  then show ?thesis using s by (intro ks_ok_strings [OF ok]) (auto split: ack.splits if_splits)
qed

section \<open>The reaper\<close>

text \<open>Commands that never return early, and keep the store well-formed.\<close>

definition never_fails :: "(op_store, 'a) cmd \<Rightarrow> bool" where
  "never_fails m \<longleftrightarrow> (\<forall>cx. os_wf (cx_tx cx) \<longrightarrow> (\<exists>x cx'. m cx = (Inr x, cx') \<and> os_wf (cx_tx cx')))"

lemma never_fails_basic:
  "never_fails (ret x)" "never_fails (delete_key os_ops k)" "never_fails (scan_keys os_ops h s t n rv)"
  by (auto simp: never_fails_def ret_def delete_key_def scan_keys_def os_ops_def os.wf_delete)

lemma never_fails_bnd: "never_fails m \<Longrightarrow> (\<And>x. never_fails (f x)) \<Longrightarrow> never_fails (bnd m f)"
  by (simp add: never_fails_def bnd_def split: prod.split sum.split) (metis Inl_Inr_False Pair_inject sum.inject(2))

lemma never_fails_each: "(\<And>acc x. never_fails (f acc x)) \<Longrightarrow> never_fails (each_of f xs acc)"
  by (induction xs arbitrary: acc) (simp_all add: never_fails_basic never_fails_bnd)

lemma never_fails_elements: "never_fails (delete_elements os_ops k ty)"
  unfolding delete_elements_def delete_family_def
  by (auto intro!: never_fails_each never_fails_bnd never_fails_basic split: prod.split)

lemma delete_all_deadline:
  assumes wf: "os_wf (cx_tx cx)" and at: "en_ttl e = Some at"
  shows "\<exists>cx'. delete_all os_ops k e cx = (Inr (), cx') \<and> os_get (cx_tx cx') (expk k) = None"
proof -
  let ?first = "case en_ent e of EColl m \<Rightarrow> delete_elements os_ops k (mt_ty m) | _ \<Rightarrow> ret ()"
  let ?second = "if entry_exists e then delete_key os_ops (kv k) else ret ()"
  have "never_fails ?first" by (simp add: never_fails_elements never_fails_basic split: ent.split)
  then obtain cx1 where 1: "?first cx = (Inr (), cx1)" "os_wf (cx_tx cx1)" using wf unfolding never_fails_def by fastforce
  have "never_fails ?second" by (simp add: never_fails_basic)
  then obtain cx2 where 2: "?second cx1 = (Inr (), cx2)" "os_wf (cx_tx cx2)" using 1(2) unfolding never_fails_def by fastforce
  have "os_get (os_delete (expk k) (cx_tx cx2)) (expk k) = None"
    using os.view_delete [OF 2(2), of "expk k"] by (simp add: os_view)
  then show ?thesis
    using at unfolding delete_all_def
    by (simp add: bnd_def 1 2 set_ttl_def delete_key_def note_exp_def os_ops_def)
qed

lemma purge_op_deadline:
  assumes wf: "os_wf st" and ent: "ent_of (os_get st (kv k)) = Inr ent" and run: "purge_op env k st = (oc, st')"
  shows "deadline (os_get st') k =
     (case deadline (os_get st) k of None \<Rightarrow> None | Some at \<Rightarrow> if at \<le> re_now env then None else Some at)"
proof -
  have g: "get_key os_ops x cx = (Inr (os_get (cx_tx cx) x), cx)" for x and cx :: "op_store cx"
    by (simp add: get_key_def os_ops_def)
  let ?cx = "new_cx False env st"
  let ?e = "\<lparr>en_ent = ent, en_ttl = deadline (os_get st) k\<rparr>"
  have l: "load os_ops k ?cx =
      (if (case deadline (os_get st) k of None \<Rightarrow> False | Some at \<Rightarrow> at \<le> re_now env)
       then (case delete_all os_ops k ?e ?cx of (Inl e, cx) \<Rightarrow> (Inl e, cx) | (Inr _, cx) \<Rightarrow> (Inr \<lparr>en_ent = ENone, en_ttl = None\<rparr>, cx))
       else (Inr ?e, ?cx))"
    using ent by (simp add: load_def bnd_def g now_cmd_def readonly_cmd_def ret_def Let_def deadline_def
        split: prod.split sum.split option.split)
  show ?thesis
  proof (cases "deadline (os_get st) k")
    case None
    then show ?thesis using run by (simp add: purge_op_def l)
  next
    case (Some at)
    show ?thesis
    proof (cases "at \<le> re_now env")
      case True
      obtain cx' where "delete_all os_ops k ?e ?cx = (Inr (), cx')" "os_get (cx_tx cx') (expk k) = None"
        using delete_all_deadline [of ?cx ?e at k] wf Some by auto
      then show ?thesis using run Some True by (auto simp: purge_op_def l deadline_def ttl_of_def)
    next
      case False
      then show ?thesis using run Some by (simp add: purge_op_def l)
    qed
  qed
qed

text \<open>
  A reap takes when its purge commits, the clock of the commit thread is not behind the reaper's,
  and the value of the key is one the executor can load.
\<close>

definition reap_takes :: "nat \<Rightarrow> run_env \<Rightarrow> key \<Rightarrow> keyspace \<Rightarrow> bool" where
  "reap_takes now env k ks \<longleftrightarrow>
     fst (on_commit_path env (purge_op env k) ks) = RNil \<and> now \<le> re_now env
     \<and> (\<exists>ent. ent_of (get (ks_engine ks) (kv k)) = Inr ent)"

lemma reap_one_tracks:
  assumes ok: "ks_tracks F b ks"
  shows "ks_tracks (if reap_takes now env k ks then F else insert k F) b (reap_one now env k ks)"
proof -
  let ?e = "ks_engine ks"
  obtain r ks1 where p: "on_commit_path env (purge_op env k) ks = (r, ks1)" by fastforce
  have ks1: "purge env k ks = ks1" by (simp add: purge_def p)
  note s = purge_ok [OF ok p]
  have ok1: "ks_tracks F b ks1" using s by (simp add: path_result_def)
  have dropped: "ks_tracks (insert k F) b (ks1\<lparr>ks_expiry := expiry_set k None (ks_expiry ks1)\<rparr>)"
    using ok1 by (auto simp: ks_tracks_def expiry_set_get expiry_set_ok)
  have same: "ks_tracks (insert k F) b ks1" using ok1 by (auto simp: ks_tracks_def)
  have live: "\<not> is_expired (ks_expiry ks1) k now" if t: "reap_takes now env k ks"
  proof -
    obtain oc st' where st: "purge_op env k (op_input ?e) = (oc, st')" "get (ks_engine ks1) = os_get st'"
      using s t by (auto simp: path_result_def reap_takes_def p err_def split: if_splits)
    have "os_get (op_input ?e) = get ?e" using os_get_input [OF ks_tracks_engine(1) [OF ok]] by (simp add: fun_eq_iff)
    then have "deadline (get (ks_engine ks1)) k =
        (case deadline (get ?e) k of None \<Rightarrow> None | Some at \<Rightarrow> if at \<le> re_now env then None else Some at)"
      using purge_op_deadline [OF op_input_wf(1) _ st(1)] t st(2) by (auto simp: reap_takes_def)
    moreover have "expiry_get (ks_expiry ks1) k = deadline (get (ks_engine ks1)) k \<or> expiry_get (ks_expiry ks1) k = None"
      using ok1 by (auto simp: ks_tracks_def)
    ultimately show ?thesis
      using t by (auto simp: is_expired_def expiry_get_def reap_takes_def split: option.splits if_splits)
  qed
  show ?thesis using dropped same live ok1 by (auto simp: reap_one_def ks1 Let_def)
qed

section \<open>Rebuilding the mirrors\<close>

lemma exp_prefix_split: "starts_with k exp_prefix \<longleftrightarrow> (\<exists>u. k = expk u)"
proof -
  have "starts_with k p \<longleftrightarrow> (\<exists>u. k = p @ u)" for p :: bytes
    by (auto simp: starts_with_def) (metis append_take_drop_id)
  then show ?thesis by (simp add: exp_prefix_def expk_def)
qed

lemma reload_index:
  assumes "bt_wf es" and "\<forall>k v. (k, v) \<in> set es \<longleftrightarrow> (\<exists>u. k = expk u) \<and> V k = Some v" and "expiry_ok x"
    and "\<And>u. expiry_get x u = None"
  defines "y \<equiv> fold (\<lambda>(k, v) x. case v of VInt at \<Rightarrow> expiry_set (drop 4 k) (Some (unat at)) x | _ \<Rightarrow> x) es x"
  shows "expiry_ok y \<and> expiry_get y u = deadline V u"
proof -
  let ?f = "\<lambda>(k, v) x. case v of VInt at \<Rightarrow> expiry_set (drop 4 k) (Some (unat at)) x | _ \<Rightarrow> x"
  have drop: "drop 4 (expk w) = w" for w by (simp add: expk_def)
  have gen: "expiry_ok (fold ?f es x) \<and> expiry_get (fold ?f es x) u =
      (case map_of es (expk u) of Some (VInt at) \<Rightarrow> Some (unat at) | _ \<Rightarrow> expiry_get x u)"
    if "distinct (map fst es)" "\<forall>k\<in>fst ` set es. \<exists>u. k = expk u" "expiry_ok x" for es x
    using that
  proof (induction es arbitrary: x)
    case (Cons e es)
    obtain w v where e: "e = (expk w, v)" using Cons.prems(2) by (cases e) auto
    have n: "map_of es (expk w) = None" using Cons.prems(1) by (force simp: e map_of_eq_None_iff)
    have k: "expk u = expk w \<longleftrightarrow> u = w" by (simp add: expk_def)
    show ?case
    proof (cases "\<exists>at. v = VInt at")
      case True
      then obtain at where v: "v = VInt at" ..
      have "expiry_ok (expiry_set w (Some (unat at)) x)" by (rule expiry_set_ok [OF Cons.prems(3)])
      from Cons.IH [OF _ _ this] show ?thesis
        using Cons.prems n k by (auto simp: e v drop expiry_set_get split: option.split val.split)
    next
      case False
      then have "?f e x = x" by (auto simp: e split: val.split)
      then show ?thesis
        using Cons.IH [OF _ _ Cons.prems(3)] Cons.prems n k False by (auto simp: e split: option.split val.split)
    qed
  qed simp
  have d: "distinct (map fst es)" "\<forall>k\<in>fst ` set es. \<exists>u. k = expk u"
    using assms(1,2) bt_wf_distinct by auto
  have "map_of es (expk u) = V (expk u)"
    using assms(2) bt_in_set [OF assms(1)] by (metis not_Some_eq)
  then show ?thesis
    using gen [OF d assms(3)] assms(4) by (simp add: y_def deadline_def ttl_of_def split: option.split val.split)
qed

lemma reload_fields:
  assumes ok: "engine_ok (ks_engine ks)"
  shows "expiry_ok (ks_expiry (reload ks)) \<and> (\<forall>k. expiry_get (ks_expiry (reload ks)) k = deadline (get (ks_engine ks)) k)
    \<and> ks_engine (reload ks) = ks_engine ks
    \<and> (ks_colls (reload ks) \<longleftrightarrow> (\<exists>k. [99, 58, 123] \<le> k \<and> k < [99, 58, 124] \<and> get (ks_engine ks) k \<noteq> None))"
proof -
  let ?e = "ks_engine ks"
  have wf: "shards_wf (co_shards ?e)" using ok by (simp add: engine_ok_def core_ok_def)
  obtain es where es: "scan_prefix (co_shards ?e) exp_prefix (snapshot ?e) = Some es"
      "is_scan (\<lambda>k. starts_with k exp_prefix) (co_shards ?e) (snapshot ?e) es"
    using prefix_scan_out [OF wf] by blast
  have lt: "[99, 58, 123] < ([99, 58, 124] :: bytes)" by simp
  obtain out where out: "is_scan (\<lambda>k. [99, 58, 123] \<le> k \<and> k < [99, 58, 124]) (co_shards ?e) (snapshot ?e) out"
      "scan_from (co_shards ?e) [99, 58, 123] [99, 58, 124] 1 (snapshot ?e) = take 1 out"
    using scan_out [OF wf lt] by blast
  have "out \<noteq> [] \<longleftrightarrow> (\<exists>k. (\<exists>v. (k, v) \<in> set out))" by (cases out) auto
  moreover have "(\<exists>v. (k, v) \<in> set out) \<longleftrightarrow> [99, 58, 123] \<le> k \<and> k < [99, 58, 124] \<and> get ?e k \<noteq> None" for k
    using out(1) unfolding is_scan_def get_def by blast
  ultimately have "out \<noteq> [] \<longleftrightarrow> (\<exists>k. [99, 58, 123] \<le> k \<and> k < [99, 58, 124] \<and> get ?e k \<noteq> None)" by (simp only:)
  then have c: "ks_colls (reload ks) \<longleftrightarrow> (\<exists>k. [99, 58, 123] \<le> k \<and> k < [99, 58, 124] \<and> get ?e k \<noteq> None)"
    by (simp add: reload_def Let_def out(2) del: One_nat_def)
  have x0: "expiry_ok ((expiry_clear x)\<lparr>ex_any := False\<rparr>)" "expiry_get ((expiry_clear x)\<lparr>ex_any := False\<rparr>) u = None" for x u
    by (simp_all add: expiry_ok_def expiry_clear_def expiry_get_def)
  have s: "bt_wf es" "\<forall>k v. (k, v) \<in> set es \<longleftrightarrow> (\<exists>u. k = expk u) \<and> get ?e k = Some v"
    using es(2) by (auto simp: is_scan_def get_def exp_prefix_split)
  show ?thesis
    using reload_index [OF s x0] c by (simp add: reload_def Let_def es(1))
qed

section \<open>Replicated writes\<close>

text \<open>
  The keyspace part of \<open>apply_muts\<close> of \<open>crates/server/src/replication.rs\<close>, on decoded frames: one
  batch, then every write is observed; a failing batch is not.
\<close>

definition replicate_muts :: "run_env \<Rightarrow> (key \<times> val) list \<Rightarrow> keyspace \<Rightarrow> keyspace" where
  "replicate_muts env batch ks =
     (case submit_now (re_io env) (fold (\<lambda>(k, v). bt_insert k v) batch []) [] None None (ks_engine ks) of
        (en, AckIo _) \<Rightarrow> ks\<lparr>ks_engine := en\<rparr>
      | (en, _) \<Rightarrow> fold (\<lambda>(k, v). observe k v) batch (ks\<lparr>ks_engine := en\<rparr>))"

definition is_element :: "key \<Rightarrow> bool" where "is_element k \<longleftrightarrow> starts_with k [99, 58, 123]"

text \<open>Writes that bring a collection header and no element.\<close>

definition bare_headers :: "(key \<times> val) list \<Rightarrow> bool" where
  "bare_headers batch \<longleftrightarrow> (\<exists>k m. (kv k, VMeta m) \<in> set batch) \<and> (\<forall>(k, v)\<in>set batch. \<not> is_element k)"

lemma batch_map: "bt_wf m \<Longrightarrow> bt_wf (fold (\<lambda>(k, v). bt_insert k v) batch m)
    \<and> bt_get (fold (\<lambda>(k, v). bt_insert k v) batch m) k = (case map_of (rev batch) k of None \<Rightarrow> bt_get m k | Some v \<Rightarrow> Some v)"
  by (induction batch arbitrary: m)
    (auto simp: bt_wf_insert bt_get_insert map_add_def split: option.split)

lemma element_not_exp: "is_element k \<Longrightarrow> \<not> starts_with k exp_prefix"
  unfolding is_element_def exp_prefix_split by (auto simp: expk_def starts_with_def)

lemma observe_all:
  assumes "expiry_ok (ks_expiry ks)"
  shows "ks_engine (fold (\<lambda>(k, v). observe k v) batch ks) = ks_engine ks \<and> expiry_ok (ks_expiry (fold (\<lambda>(k, v). observe k v) batch ks))
    \<and> (ks_colls (fold (\<lambda>(k, v). observe k v) batch ks) \<longleftrightarrow> ks_colls ks \<or> (\<exists>(k, v)\<in>set batch. is_element k))
    \<and> (\<forall>u. expiry_get (ks_expiry (fold (\<lambda>(k, v). observe k v) batch ks)) u =
          (case map_of (rev batch) (expk u) of None \<Rightarrow> expiry_get (ks_expiry ks) u | Some v \<Rightarrow> ttl_of (Some v)))"
  using assms
proof (induction batch arbitrary: ks)
  case (Cons kv batch)
  obtain k v where [simp]: "kv = (k, v)" by (cases kv)
  let ?ks = "observe k v ks"
  have ok: "expiry_ok (ks_expiry ?ks)" using Cons.prems by (auto simp: observe_def expiry_set_ok)
  have "ks_colls ?ks \<longleftrightarrow> ks_colls ks \<or> is_element k" "ks_engine ?ks = ks_engine ks"
    using element_not_exp [of k] by (auto simp: observe_def is_element_def)
  moreover have "expiry_get (ks_expiry ?ks) u = (if k = expk u then ttl_of (Some v) else expiry_get (ks_expiry ks) u)" for u
    using Cons.prems
    by (auto simp: observe_def exp_prefix_split expiry_set_get ttl_of_def expk_def split: val.split)
  ultimately show ?case
    using Cons.IH [OF ok] by (auto simp: map_add_def split: option.split)
qed simp

lemma replicate_tracks:
  assumes ok: "ks_tracks F b ks"
  shows "ks_tracks F (b \<or> bare_headers batch) (replicate_muts env batch ks)"
proof -
  let ?e = "ks_engine ks" and ?w = "fold (\<lambda>(k, v). bt_insert k v) batch []"
  have e: "engine_ok ?e" "write_queue ?e = []" and x: "expiry_ok (ks_expiry ks)" using ok by (auto simp: ks_tracks_def)
  obtain en a where a: "submit_now (re_io env) ?w [] None None ?e = (en, a)" by fastforce
  have w: "bt_wf ?w" "bt_get ?w k = map_of (rev batch) k" for k using batch_map [of "[]" batch k] by (auto split: option.split)
  note s = submit_writes_get [OF e w(1) a]
  show ?thesis
  proof (cases "\<exists>y. a = AckIo y")
    case True
    then show ?thesis using s ok by (auto simp: replicate_muts_def a ks_tracks_def)
  next
    case False
    then have g: "get en k = (case map_of (rev batch) k of None \<Rightarrow> get ?e k | Some v \<Rightarrow> live v)" for k
      using s w(2) by auto
    let ?ks = "ks\<lparr>ks_engine := en\<rparr>"
    have r: "replicate_muts env batch ks = fold (\<lambda>(k, v). observe k v) batch ?ks"
      using False by (auto simp: replicate_muts_def a split: ack.split)
    note o = observe_all [of ?ks batch, simplified, OF x]
    have "deadline (get en) u = (case map_of (rev batch) (expk u) of None \<Rightarrow> deadline (get ?e) u | Some v \<Rightarrow> ttl_of (Some v))" for u
      by (auto simp: deadline_def g ttl_of_def live_def split: option.split val.split)
    then have index: "expiry_get (ks_expiry (replicate_muts env batch ks)) u = deadline (get en) u
        \<or> u \<in> F \<and> expiry_get (ks_expiry (replicate_muts env batch ks)) u = None" for u
      using o ok by (auto simp: r ks_tracks_def split: option.split)
    have "ks_colls (replicate_muts env batch ks) \<or> b \<or> bare_headers batch" if c: "has_coll (get en)"
    proof -
      obtain k m where h: "get en (kv k) = Some (VMeta m)" using c by (auto simp: has_coll_def)
      show ?thesis
      proof (cases "map_of (rev batch) (kv k)")
        case None
        then have "has_coll (get ?e)" using h g by (auto simp: has_coll_def)
        then show ?thesis using ok o by (auto simp: r ks_tracks_def)
      next
        case (Some v)
        then have "(kv k, VMeta m) \<in> set batch" using h g map_of_SomeD [of "rev batch"] by (auto simp: live_def split: if_splits)
        then show ?thesis using o by (auto simp: r bare_headers_def)
      qed
    qed
    then show ?thesis using index s o by (auto simp: r ks_tracks_def)
  qed
qed

section \<open>Steps\<close>

text \<open>
  What is behind at a point of a run: the keys whose deadline a reap may have dropped from the index
  although the engine still stores it, and whether headers without elements were loaded or
  replicated, which the collection flag does not see.
\<close>

record drift =
  lost :: "key set"
  bare :: bool

definition found_at :: "engine \<Rightarrow> drift" where
  "found_at e = \<lparr>lost = {},
     bare = (has_coll (get e) \<and> \<not> (\<exists>k. [99, 58, 123] \<le> k \<and> k < [99, 58, 124] \<and> get e k \<noteq> None))\<rparr>"

definition after_reap :: "nat \<Rightarrow> run_env \<Rightarrow> key \<Rightarrow> keyspace \<Rightarrow> drift \<Rightarrow> drift" where
  "after_reap now env k ks d = (if reap_takes now env k ks then d else d\<lparr>lost := insert k (lost d)\<rparr>)"

text \<open>The fast paths that reap first.\<close>

definition reaps_first :: "nat \<Rightarrow> string \<Rightarrow> bytes list \<Rightarrow> keyspace \<Rightarrow> bool" where
  "reaps_first now name a ks \<longleftrightarrow>
     ((name = ''INCR'' \<or> name = ''DECR'') \<and> length a = 1 \<or> (name = ''INCRBY'' \<or> name = ''DECRBY'') \<and> length a = 2)
     \<and> is_expired (ks_expiry ks) (a ! 0) now"

text \<open>
  The last three rules are what happens beside the keyspace: the engine works without changing what
  it reads (checkpoints, sweeps, open snapshots), it is replaced under the keyspace, which rebuilds
  its mirrors (FLUSHALL, a full sync, a restored revision), and the process restarts.
\<close>

inductive ks_step :: "keyspace \<times> drift \<Rightarrow> keyspace \<times> drift \<Rightarrow> bool" where
  run: "ks_run env name a ks = (r, ks') \<Longrightarrow> ks_step (ks, d) (ks', d)"
| writes: "run_writes env cmds ks = (rs, ks') \<Longrightarrow> ks_step (ks, d) (ks', d)"
| multi: "exec_multi env cmds watches ks = (x, ks') \<Longrightarrow> ks_step (ks, d) (ks', d)"
| purge: "ks_step (ks, d) (purge env k ks, d)"
| reap: "ks_step (ks, d) (reap_one now env k ks, after_reap now env k ks d)"
| reap_expired: "ks_step (ks, d)
    (reap_if_expired now env k ks, if is_expired (ks_expiry ks) k now then after_reap now env k ks d else d)"
| fast: "fast_keyspace env nows name a ks = (r, ks') \<Longrightarrow>
    ks_step (ks, d) (ks', if reaps_first (hd nows) name a ks then after_reap (hd nows) env (a ! 0) ks d else d)"
| replicated: "ks_step (ks, d) (replicate_muts env batch ks, d\<lparr>bare := bare d \<or> bare_headers batch\<rparr>)"
| quiet: "engine_ok en \<Longrightarrow> write_queue en = [] \<Longrightarrow> get en = get (ks_engine ks) \<Longrightarrow> ks_step (ks, d) (ks\<lparr>ks_engine := en\<rparr>, d)"
| reload: "engine_ok en \<Longrightarrow> write_queue en = [] \<Longrightarrow> ks_step (ks, d) (reload (ks\<lparr>ks_engine := en\<rparr>), found_at en)"
| restart: "engine_ok en \<Longrightarrow> write_queue en = [] \<Longrightarrow> ks_step (ks, d) (ks_open en, found_at en)"

text \<open>A turn of the reaper is a sequence of steps.\<close>

lemma reap_steps: "reap now envs limit ks = (n, ks') \<Longrightarrow> \<exists>d'. ks_step\<^sup>*\<^sup>* (ks, d) (ks', d')"
proof -
  have "\<exists>d'. ks_step\<^sup>*\<^sup>* (ks, d) (fold (\<lambda>k. reap_one now (envs k) k) keys ks, d')" for keys
  proof (induction keys arbitrary: ks d)
    case (Cons k keys)
    show ?case
      using Cons.IH [of "reap_one now (envs k) k ks" "after_reap now (envs k) k ks d"] ks_step.reap [of ks d now "envs k" k]
      by (auto intro: converse_rtranclp_into_rtranclp)
  qed auto
  then show "reap now envs limit ks = (n, ks') \<Longrightarrow> ?thesis" by (auto simp: reap_def Let_def)
qed

lemma found_tracks:
  assumes "engine_ok (ks_engine ks)" and "write_queue (ks_engine ks) = []"
  shows "ks_tracks (lost (found_at (ks_engine ks))) (bare (found_at (ks_engine ks))) (reload ks)"
  using reload_fields [OF assms(1)] assms by (auto simp: ks_tracks_def found_at_def)

lemma opened_tracks:
  assumes "engine_ok e" and "write_queue e = []"
  shows "ks_tracks (lost (found_at e)) (bare (found_at e)) (ks_open e)"
  using found_tracks [of "\<lparr>ks_engine = e, ks_expiry = expiry_default, ks_colls = False\<rparr>"] assms by (simp add: ks_open_def)

lemma if_snd: "P (snd x) \<Longrightarrow> P (snd y) \<Longrightarrow> P (snd (if c then x else y))"
  by simp

lemma after_reap_tracks:
  "ks_tracks (lost d) (bare d) ks \<Longrightarrow>
     ks_tracks (lost (after_reap now env k ks d)) (bare (after_reap now env k ks d)) (reap_one now env k ks)"
  using reap_one_tracks [of "lost d" "bare d" ks now env k] by (auto simp: after_reap_def split: if_splits)

lemma fast_keyspace_ok:
  assumes ok: "ks_tracks (lost d) (bare d) ks" and run: "fast_keyspace env nows name a ks = (r, ks')"
  defines "d' \<equiv> if reaps_first (hd nows) name a ks then after_reap (hd nows) env (a ! 0) ks d else d"
  shows "ks_tracks (lost d') (bare d') ks'"
proof -
  let ?P = "ks_tracks (lost d') (bare d')"
  have weaker: "?P k" if "ks_tracks (lost d) (bare d) k" for k
    using that by (auto simp: d'_def after_reap_def ks_tracks_def)
  define reaped where "reaped = reap_if_expired (hd nows) env (a ! 0) ks"
  have reaped: "?P reaped" if "(name = ''INCR'' \<or> name = ''DECR'') \<and> length a = 1 \<or> (name = ''INCRBY'' \<or> name = ''DECRBY'') \<and> length a = 2"
    using that weaker [OF ok] after_reap_tracks [OF ok] by (auto simp: reaped_def reap_if_expired_def d'_def reaps_first_def)
  have "?P (snd (case incr_amount name a of Inl e \<Rightarrow> (Some e, ks)
       | Inr by \<Rightarrow> (case kv_incr_by env (a ! 0) by (ks_engine reaped) of
            (Inl e, en) \<Rightarrow> (Some e, reaped\<lparr>ks_engine := en\<rparr>) | (Inr n, en) \<Rightarrow> (Some (RInt n), reaped\<lparr>ks_engine := en\<rparr>))))"
    if "(name = ''INCR'' \<or> name = ''DECR'') \<and> length a = 1 \<or> (name = ''INCRBY'' \<or> name = ''DECRBY'') \<and> length a = 2"
    using kv_incr_by_ok [OF reaped [OF that]] weaker [OF ok] by (auto split: sum.split prod.split)
  moreover have "?P (snd (case kv_set env (a ! 0) (a ! 1) (ks_engine ks) of
       (Inl e, en) \<Rightarrow> (Some e, ks\<lparr>ks_engine := en\<rparr>) | (Inr _, en) \<Rightarrow> (Some ok_reply, ks\<lparr>ks_engine := en\<rparr>)))"
    using kv_set_ok [OF weaker [OF ok]] by (auto split: sum.split prod.split)
  moreover have "?P (snd (case kv_del_many env a (ks_engine ks) of
       (Inl e, en) \<Rightarrow> (Some e, ks\<lparr>ks_engine := en\<rparr>) | (Inr n, en) \<Rightarrow> (Some (int_reply (int n)), ks\<lparr>ks_engine := en\<rparr>)))"
    using kv_del_many_ok [OF weaker [OF ok]] by (auto split: sum.split prod.split)
  ultimately have "?P (snd (fast_keyspace env nows name a ks))"
    unfolding fast_keyspace_def Let_def reaped_def [symmetric] by (simp add: weaker [OF ok])
  then show ?thesis by (simp add: run)
qed

lemma ks_step_tracks:
  assumes "ks_step (ks, d) (ks', d')" and ok: "ks_tracks (lost d) (bare d) ks"
  shows "ks_tracks (lost d') (bare d') ks'"
  using assms(1)
proof cases
  case (reap now env k)
  then show ?thesis using after_reap_tracks [OF ok] by simp
next
  case (reap_expired now env k)
  then show ?thesis using after_reap_tracks [OF ok] ok by (simp add: reap_if_expired_def)
next
  case (fast env nows name a r)
  then show ?thesis using fast_keyspace_ok [OF ok] by simp
next
  case (replicated env batch)
  then show ?thesis using replicate_tracks [OF ok] by simp
next
  case (quiet en)
  then show ?thesis using ks_ok_same_reads [OF ok] by simp
next
  case (reload en)
  then show ?thesis using found_tracks [of "ks\<lparr>ks_engine := en\<rparr>"] by simp
next
  case (restart en)
  then show ?thesis using opened_tracks by simp
next
  case (run env name a r)
  then show ?thesis using ks_run_ok [OF ok] by simp
next
  case (writes env cmds rs)
  then show ?thesis using run_writes_ok [OF ok] by simp
next
  case (multi env cmds watches x)
  then show ?thesis using exec_multi_ok [OF ok] by simp
next
  case (purge env k)
  then show ?thesis using purge_ks_ok [OF ok] by simp
qed

lemma ks_steps_tracks:
  "ks_step\<^sup>*\<^sup>* (ks, d) (ks', d') \<Longrightarrow> ks_tracks (lost d) (bare d) ks \<Longrightarrow> ks_tracks (lost d') (bare d') ks'"
  by (induction rule: rtranclp_induct2) (auto dest: ks_step_tracks)

end
