(* ===== verification/Mirrors.thy ===== *)
theory Mirrors
  imports Ks_Steps
begin

text \<open>
  The claims on the keyspace: the effects every command notes, the mirrors in memory through every
  step, failed reaps, replicated writes and restarts, failing commands, the reaper when the log is
  disabled, and the fast paths against the executor.
\<close>

section \<open>The fast read and the executor\<close>

lemma load_readonly:
  assumes "cx_readonly cx"
  shows "fst (load (txn_ops sh) k cx) =
      (case ent_of (txn_view sh (cx_tx cx) (kv k)) of
         Inl e \<Rightarrow> Inl e
       | Inr ent \<Rightarrow>
           Inr (if (case ttl_of (txn_view sh (cx_tx cx) (expk k)) of None \<Rightarrow> False | Some at \<Rightarrow> at \<le> cx_now cx)
                then \<lparr>en_ent = ENone, en_ttl = None\<rparr>
                else \<lparr>en_ent = ent, en_ttl = ttl_of (txn_view sh (cx_tx cx) (expk k))\<rparr>))
    \<and> tx_writes (cx_tx (snd (load (txn_ops sh) k cx))) = tx_writes (cx_tx cx)"
proof -
  have g: "fst (txn_get sh x t) = txn_view sh t x" "txn_view sh (snd (txn_get sh x t)) = txn_view sh t"
    "tx_writes (snd (txn_get sh x t)) = tx_writes t" for x t
    by (auto simp: txn_get_view) (auto simp: txn_get_def txn_view_def fun_eq_iff split: option.split)
  have gk: "get_key (txn_ops sh) x c = (Inr (txn_view sh (cx_tx c) x), c\<lparr>cx_tx := snd (txn_get sh x (cx_tx c))\<rparr>)" for x c
    using g(1) [of x "cx_tx c"] by (auto simp: get_key_def txn_ops_def split: prod.split)
  show ?thesis
    using assms
    by (auto simp: load_def bnd_def gk g ret_def fail_def now_cmd_def readonly_cmd_def Let_def split: sum.split option.split)
qed

lemma exec_get:
  "exec ops ''GET'' [k] cx = (case get_cmd ops ''GET'' [k] cx of (Inl r, cx) \<Rightarrow> (r, cx) | (Inr r, cx) \<Rightarrow> (r, cx))"
  by (simp add: exec_def exec_inner_def exec_string_def)

lemma ks_run_get:
  assumes ok: "engine_ok (ks_engine ks)"
  shows "fst (ks_run env ''GET'' [k] ks) =
     (case ent_of (get (ks_engine ks) (kv k)) of
        Inl e \<Rightarrow> e
      | Inr ent \<Rightarrow>
          if (case deadline (get (ks_engine ks)) k of None \<Rightarrow> False | Some at \<Rightarrow> at \<le> re_now env) then RNil
          else (case ent of ENone \<Rightarrow> RNil | EStr v \<Rightarrow> RBulk v | EColl _ \<Rightarrow> err WRONGTYPE))"
proof -
  let ?e = "ks_engine ks" and ?sh = "co_shards (ks_engine ks)"
  define t where "t = fst (txn_begin ?e)"
  have t: "txn_begin ?e = (t, pin (snapshot ?e) ?e)" "txn_view ?sh t = get ?e" "tx_writes t = []"
    by (simp_all add: t_def txn_begin_def txn_view_def get_def fun_eq_iff)
  define cx where "cx = new_cx True env t"
  have cx: "cx_tx cx = t" "cx_now cx = re_now env" "cx_readonly cx" by (simp_all add: cx_def)
  note l = load_readonly [OF cx(3), of ?sh k, unfolded cx t]
  obtain x cx' where x: "load (txn_ops ?sh) k cx = (x, cx')" by fastforce
  have w: "tx_writes (cx_tx cx') = []" using l by (simp add: x)
  have nw: "\<not> is_keyspace_write ''GET''" by code_simp
  show ?thesis
    using l w
    by (auto simp: ks_run_def nw t exec_get get_cmd_def need_def bnd_def ret_def fail_def x cx_def [symmetric]
        str_or_wrongtype_def bulk_or_nil_def txn_has_writes_def deadline_def Let_def
        split: sum.splits option.splits ent.splits if_splits)
qed


section \<open>The fast SET and the executor\<close>






section \<open>Claims\<close>

definition plain_env :: run_env where
  "plain_env = \<lparr>re_io = io_fine, re_now = 1000, re_rnd = [], re_clock = [], re_io_text = (\<lambda>_. ''failed'')\<rparr>"

lemma fresh_ks: "get (fresh_engine d) k = None" "write_queue (fresh_engine d) = []"
  by (simp_all add: get_def get_at_def fresh_engine_def)

lemma fresh_ks_ok: "ks_ok (ks_open (fresh_engine d))"
  using reload_fields [of "\<lparr>ks_engine = fresh_engine d, ks_expiry = expiry_default, ks_colls = False\<rparr>"] fresh_ok [of d]
  by (simp add: ks_ok_def ks_open_def fresh_ks has_coll_def)

text \<open>An engine whose log is disabled, holding a string with a deadline.\<close>

definition disabled_engine :: engine where
  "disabled_engine =
     (fst (submit_now io_fine [(expk [107], VInt 5), (kv [107], VBytes [118])] [] None None (fresh_engine False)))
       \<lparr>sync_writes := True, co_wal := (wal_open None)\<lparr>poisoned := True\<rparr>\<rparr>"

lemma disabled_facts:
  "engine_ok disabled_engine \<and> write_queue disabled_engine = [] \<and> sync_writes disabled_engine
   \<and> poisoned (co_wal disabled_engine)
   \<and> get disabled_engine = [expk [107] \<mapsto> VInt 5, kv [107] \<mapsto> VBytes [118]]"
proof -
  let ?w = "[(expk [107], VInt 5), (kv [107], VBytes [118])]"
  obtain e a where s: "submit_now io_fine ?w [] None None (fresh_engine False) = (e, a)" by fastforce
  have wf: "bt_wf ?w" by (simp add: bt_wf_Cons expk_def kv_def)
  have ne: "expk [107] \<noteq> kv [107]" by (simp add: expk_def kv_def)
  note g = submit_writes_get [OF fresh_ok fresh_ks(2) wf s]
  have "a = AckOk None" using s by (auto simp: submit_now_def submit_direct_def tick_simps resolve_def mk_pending_def fresh_engine_def)
  then have get: "get e = [expk [107] \<mapsto> VInt 5, kv [107] \<mapsto> VBytes [118]]"
    using g ne by (auto simp: fresh_ks live_def fun_eq_iff)
  have "core_ok (e\<lparr>sync_writes := True, co_wal := w\<rparr>)" for w
    by (rule core_ok_cong [of e]) (use g in \<open>simp_all add: engine_ok_def\<close>)
  moreover have "get (e\<lparr>sync_writes := True, co_wal := w\<rparr>) = get e" for w
    by (simp add: get_def snapshot_def fun_eq_iff)
  ultimately show ?thesis using g get by (simp add: disabled_engine_def s engine_ok_def queue_ok_def)
qed

lemma disabled_ks_engine: "ks_engine (ks_open disabled_engine) = disabled_engine"
  by (simp add: ks_open_def reload_def Let_def)

lemma disabled_ks_ok: "ks_ok (ks_open disabled_engine)"
proof -
  have "\<not> has_coll (get disabled_engine)" using disabled_facts by (simp add: has_coll_def)
  then show ?thesis
    using reload_fields [of "\<lparr>ks_engine = disabled_engine, ks_expiry = expiry_default, ks_colls = False\<rparr>"] disabled_facts
    by (simp add: ks_ok_def ks_open_def)
qed

lemma disabled_reads:
  "get disabled_engine (kv [107]) = Some (VBytes [118])" "expiry_get (ks_expiry (ks_open disabled_engine)) [107] = Some 5"
proof -
  have "deadline (get disabled_engine) [107] = Some 5" using disabled_facts by (simp add: deadline_def ttl_of_def kv_def expk_def)
  then show "expiry_get (ks_expiry (ks_open disabled_engine)) [107] = Some 5"
    using disabled_ks_ok by (simp add: ks_ok_def disabled_ks_engine)
qed (use disabled_facts in simp)

text \<open>
  Claim C33. Every command notes its effects. Whatever the name, the arguments and the stored data,
  a command changes its store only through the trait and leaves it well-formed; the deadlines it
  notes, the last note of a key counting, are exactly the deadlines it changed; a collection header
  is in the store afterwards only if one was there before or the command raised the flag; clock and
  mode are untouched.
\<close>

theorem command_frame:
  assumes wf: "os_wf st" and run: "exec os_ops name a (new_cx ro env st) = (r, cx)"
  shows "command_run os_ops st (cx_tx cx) \<and> os_wf (cx_tx cx) \<and> os_shards (cx_tx cx) = os_shards st
    \<and> (\<forall>k. deadline (os_get (cx_tx cx)) k =
          (case map_of (rev (cx_exp cx)) k of None \<Rightarrow> deadline (os_get st) k | Some d \<Rightarrow> d))
    \<and> (has_coll (os_get (cx_tx cx)) \<longrightarrow> has_coll (os_get st) \<or> cx_created cx)
    \<and> cx_now cx = re_now env \<and> cx_readonly cx = ro"
proof -
  have t: "fs.tracked (os_get st) (new_cx ro env st)" using tracked_start [of "new_cx ro env st"] wf by simp
  have "cx_now cx = re_now env \<and> cx_readonly cx = ro"
    using fs.exec_follows [OF t run] by (simp add: fs.follows_def)
  then show ?thesis
    using exec_effect [OF wf run] by (auto simp: op_effect_def op_grows_def mirrors_def)
qed

theorem command_frame_witness:
  defines "cx \<equiv> snd (exec os_ops ''SET'' [[107], [118], [69, 88], [49, 48]] (new_cx False plain_env (os_new empty_shards [])))"
  shows "command_run os_ops (os_new empty_shards []) (cx_tx cx) \<and> os_wf (cx_tx cx)
    \<and> cx_exp cx = [([107], Some 11000)] \<and> deadline (os_get (cx_tx cx)) [107] = Some 11000"
proof -
  have "cx_exp cx = [([107], Some 11000)]" unfolding cx_def by code_simp
  moreover have "exec os_ops ''SET'' [[107], [118], [69, 88], [49, 48]] (new_cx False plain_env (os_new empty_shards [])) =
      (fst (exec os_ops ''SET'' [[107], [118], [69, 88], [49, 48]] (new_cx False plain_env (os_new empty_shards []))), cx)"
    by (simp add: cx_def)
  ultimately show ?thesis
    using command_frame [of "os_new empty_shards []"] by (fastforce simp: os_wf_def os_new_def)
qed

text \<open>
  Claim C34. The mirrors in memory follow the engine. From a restart over any sound engine, through
  any sequence of commands, pipelined runs, transactions, reaps, fast paths, replicated batches,
  rebuilds over another engine (FLUSHALL, a full sync) and restarts, with any outcome of the I/O, the
  two orders of the expiry index agree and it holds for every key exactly the deadline the engine
  stores; only a key that a reap gave up on since the last rebuild, because its purge did not commit,
  the clock ran backwards or its value does not load, may be missing from it. The collection flag is
  up while a header exists; only headers that were found at a rebuild, or replicated, without any
  element may escape it.
\<close>

theorem mirrors_follow_engine:
  assumes e: "engine_ok e" "write_queue e = []"
    and steps: "ks_step\<^sup>*\<^sup>* (ks_open e, found_at e) (ks, d)"
  shows "engine_ok (ks_engine ks) \<and> expiry_ok (ks_expiry ks)
    \<and> (\<forall>k. expiry_get (ks_expiry ks) k = deadline (get (ks_engine ks)) k
         \<or> k \<in> lost d \<and> expiry_get (ks_expiry ks) k = None)
    \<and> (has_coll (get (ks_engine ks)) \<longrightarrow> ks_colls ks \<or> bare d)"
  using ks_steps_tracks [OF steps opened_tracks [OF e]] by (simp add: ks_tracks_def)

theorem mirrors_follow_engine_witness:
  defines "ks \<equiv> reap_one 1000 plain_env [107] (ks_open disabled_engine)"
  shows "engine_ok (ks_engine ks) \<and> expiry_ok (ks_expiry ks)
    \<and> (\<forall>k. expiry_get (ks_expiry ks) k = deadline (get (ks_engine ks)) k
         \<or> k = [107] \<and> expiry_get (ks_expiry ks) k = None)"
proof -
  let ?d = "after_reap 1000 plain_env [107] (ks_open disabled_engine) (found_at disabled_engine)"
  have "ks_step\<^sup>*\<^sup>* (ks_open disabled_engine, found_at disabled_engine) (ks, ?d)"
    unfolding ks_def by (rule r_into_rtranclp, rule ks_step.reap)
  moreover have "lost ?d \<subseteq> {[107]}" by (simp add: after_reap_def found_at_def)
  ultimately show ?thesis
    using mirrors_follow_engine [of disabled_engine ks ?d] disabled_facts by blast
qed

text \<open>
  Claim C35. A command that fails writes nothing: after an error reply of \<open>run\<close>, whether the
  command or the commit failed, every key reads as before and the expiry index is the same; in a
  pipelined run a failing command is rolled back alone, to what the commands before it left.
\<close>

theorem failed_command_writes_nothing:
  assumes ok: "ks_ok ks" and run: "ks_run env name a ks = (r, ks')" and err: "is_error r"
    and st: "os_wf st" "writes_op env [(name', a')] st = ([oc], st')" "is_error (oc_reply oc)"
  shows "get (ks_engine ks') = get (ks_engine ks) \<and> ks_expiry ks' = ks_expiry ks
    \<and> os_get st' = os_get st \<and> oc_exp oc = []"
proof -
  obtain sp st0 where sp: "os_savepoint st = (sp, st0)" by fastforce
  obtain r' cx where x: "exec os_ops name' a' (new_cx False env st0) = (r', cx)" by fastforce
  have "os_wf st0" using savepoint_grows [OF st(1) sp] by (simp add: op_grows_def)
  note b = rolled_back [OF st(1) sp exec_effect(2) [OF this x]]
  have "os_get st' = os_get st \<and> oc_exp oc = []"
    using st(2,3) b by (auto simp: sp x Let_def split: if_splits)
  then show ?thesis using ks_run_ok [OF ok run] err by blast
qed

theorem failed_command_writes_nothing_witness:
  defines "ks' \<equiv> snd (ks_run plain_env ''SET'' [[107]] (ks_open (fresh_engine False)))"
    and "st' \<equiv> snd (writes_op plain_env [(''INCR'', [[107]])] (os_put (kv [107]) (VBytes [97]) (os_new empty_shards [])))"
  shows "get (ks_engine ks') = get (fresh_engine False) \<and> os_get st' = os_get (os_put (kv [107]) (VBytes [97]) (os_new empty_shards []))"
proof -
  let ?run = "ks_run plain_env ''SET'' [[107]] (ks_open (fresh_engine False))"
  let ?st = "os_put (kv [107]) (VBytes [97]) (os_new empty_shards [])"
  let ?oc = "hd (fst (writes_op plain_env [(''INCR'', [[107]])] ?st))"
  have r: "is_error (fst ?run)" by code_simp
  have w: "is_error (oc_reply ?oc)" by code_simp
  have l: "writes_op plain_env [(''INCR'', [[107]])] ?st = ([?oc], st')"
    by (simp add: st'_def split: prod.split)
  have wf: "os_wf ?st" by (simp add: os_wf_def os_new_def bt_wf_Cons)
  have e: "ks_engine (ks_open (fresh_engine False)) = fresh_engine False"
    by (simp add: ks_open_def reload_def Let_def)
  show ?thesis
    using failed_command_writes_nothing [OF fresh_ks_ok prod.collapse [symmetric] r wf l w] by (simp add: ks'_def e)
qed



text \<open>
  Claim C37. When the log is disabled the reaper loses deadlines: the purge of an expired key fails,
  the key and its deadline stay in the engine, but the reaper drops the index entry. The key comes
  back for the fast path, which answers its old value where the executor answers nil.
\<close>

theorem reap_forgets_deadline:
  assumes ok: "ks_ok ks" and dead: "sync_writes (ks_engine ks)" "poisoned (co_wal (ks_engine ks))"
    and due: "expiry_get (ks_expiry ks) k = Some at" "at \<le> now" "re_now env' = now"
    and v: "get (ks_engine ks) (kv k) = Some (VBytes b)"
  shows "deadline (get (ks_engine (reap_one now env k ks))) k = Some at
    \<and> expiry_get (ks_expiry (reap_one now env k ks)) k = None
    \<and> fast_get (reap_one now env k ks) now k = RBulk b
    \<and> fst (ks_run env' ''GET'' [k] (reap_one now env k ks)) = RNil"
proof -
  obtain r ks1 where p: "on_commit_path env (purge_op env k) ks = (r, ks1)" by fastforce
  have ks1: "purge env k ks = ks1" by (simp add: purge_def p)
  note s = purge_ok [OF ok p]
  have g: "get (ks_engine ks1) = get (ks_engine ks)" using s dead by (auto simp: path_result_def)
  have ok1: "ks_ok ks1" using s by (simp add: path_result_def)
  have d: "deadline (get (ks_engine ks)) k = Some at" using ok due(1) by (simp add: ks_ok_def)
  then have x: "expiry_get (ks_expiry ks1) k = Some at" using ok1 g by (simp add: ks_ok_def)
  then have r1: "reap_one now env k ks = ks1\<lparr>ks_expiry := expiry_set k None (ks_expiry ks1)\<rparr>"
    using due(2) by (simp add: reap_one_def ks1 is_expired_def)
  have xo: "expiry_ok (ks_expiry ks1)" and eo: "engine_ok (ks_engine ks1)" using ok1 by (auto simp: ks_ok_def)
  have n: "expiry_get (expiry_set k None (ks_expiry ks1)) k = None" by (simp add: expiry_set_get [OF xo])
  have "fst (ks_run env' ''GET'' [k] (reap_one now env k ks)) = RNil"
    using ks_run_get [of "reap_one now env k ks" env' k] eo g d v due by (simp add: r1 ent_of_def)
  then show ?thesis
    using g d v n by (simp add: r1 fast_get_def fast_live_def is_expired_def)
qed

theorem reap_forgets_deadline_witness:
  "deadline (get (ks_engine (reap_one 1000 plain_env [107] (ks_open disabled_engine)))) [107] = Some 5
    \<and> expiry_get (ks_expiry (reap_one 1000 plain_env [107] (ks_open disabled_engine))) [107] = None
    \<and> fast_get (reap_one 1000 plain_env [107] (ks_open disabled_engine)) 1000 [107] = RBulk [118]
    \<and> fst (ks_run plain_env ''GET'' [[107]] (reap_one 1000 plain_env [107] (ks_open disabled_engine))) = RNil"
  by (rule reap_forgets_deadline [OF disabled_ks_ok])
    (simp_all add: disabled_ks_engine disabled_reads disabled_facts plain_env_def)

end
