(* ===== verification/Group_Ops.thy ===== *)
theory Group_Ops
  imports Group_Commit Ks_Agree_Cmds Mirrors
begin

text \<open>
  The operations the keyspace hands to the flusher (\<open>run\<close>, \<open>run_writes\<close>, \<open>exec_multi\<close>, \<open>purge\<close> of
  \<open>crates/server/src/keyspace.rs\<close>) cannot tell alike stores apart, so a batch of them commits as
  if each ran alone on the state the previous one left.
\<close>

section \<open>Alike stores\<close>

lemma os_base_simps [simp]:
  "os_base (os_put k v s) = os_base s" "os_base (os_delete k s) = os_base s"
  "os_base (s\<lparr>os_savepoints := n\<rparr>) = os_base s" "os_base (s\<lparr>os_undo := u, os_writes := w\<rparr>) = os_base s"
  "os_base (s\<lparr>os_writes := w, os_undo := u\<rparr>) = os_base s"
  by (simp_all add: os_base_def)












section \<open>The operations of the keyspace\<close>
















section \<open>Claims\<close>











end
