(* ===== verification/Recovery.thy ===== *)
theory Recovery
  imports Engine_Safety
begin

text \<open>
  Opening an engine and checkpointing it (\<open>Engine::open\<close>, \<open>checkpoint\<close>, \<open>write_snapshot_at\<close>,
  \<open>dump\<close> of \<open>crates/storage/src/engine.rs\<close>).  The directory is three files: the checkpoint
  snapshot, the rotated segment an interrupted checkpoint left, and the live log.  The chunked
  walks of a checkpoint read a pinned snapshot, so the model walks every shard once; the wait
  for \<open>visible_ts\<close> is a precondition.
\<close>

section \<open>Opening\<close>

record disk =
  d_snap :: "bytes option"
  d_ckpt :: "bytes option"
  d_live :: "bytes option"

definition load_mut :: "mutation \<Rightarrow> shards \<Rightarrow> shards" where
  "load_mut m sh =
     (let s = shard_of (m_key m)
      in sh[s := bt_insert (m_key m) (chain_push (m_ts m) (m_value m) [] (chain_of (sh ! s) (m_key m))) (sh ! s)])"

definition load_snap_mut :: "mutation \<Rightarrow> shards \<Rightarrow> shards" where
  "load_snap_mut m sh =
     (let s = shard_of (m_key m);
          c = chain_of (sh ! s) (m_key m);
          c = c\<lparr>pruned_ts := max (pruned_ts c) (max (m_ts m - 1) 1)\<rparr>
      in sh[s := bt_insert (m_key m) (chain_push (m_ts m) (m_value m) [] c) (sh ! s)])"

definition muts_max :: "mutation list \<Rightarrow> nat \<Rightarrow> nat" where
  "muts_max ms b = fold (\<lambda>m a. max a (m_ts m)) ms b"

text \<open>Replaying a log file into the shards: the file is opened, streamed and cut at the first bad frame.\<close>

definition replay_into :: "bool \<Rightarrow> bool \<Rightarrow> bytes option \<Rightarrow> shards \<times> nat \<Rightarrow> wal_err + wal \<times> shards \<times> nat" where
  "replay_into save_ok truncate_ok f st =
     (case st of (sh, mx) \<Rightarrow>
      case replay_with save_ok truncate_ok (wal_open f) of (w, ps, _, r) \<Rightarrow>
        (case r of
           Inl e \<Rightarrow> Inl e
         | Inr _ \<Rightarrow>
             let ms = concat (map decode_records ps)
             in Inr (w, fold load_mut ms sh, muts_max ms mx)))"

definition drop_dead :: "shards \<Rightarrow> shards" where
  "drop_dead sh = map (filter (\<lambda>(_, c). chain_latest c \<noteq> None)) sh"

definition dead_horizon :: "shards \<Rightarrow> nat" where
  "dead_horizon sh = fold (\<lambda>(_, c) h. if chain_latest c = None then max h (latest_ts c) else h) (concat sh) 0"

definition count_kv :: "shards \<Rightarrow> int" where
  "count_kv sh = sum_list (map (\<lambda>data. int (length
     (filter (\<lambda>(_, c). chain_latest c \<noteq> None) (bt_range data kv_prefix (prefix_end kv_prefix))))) sh)"

definition open_engine :: "bool \<Rightarrow> bool \<Rightarrow> bool \<Rightarrow> disk \<Rightarrow> wal_err + engine" where
  "open_engine durable save_ok truncate_ok d =
     (let st0 = (case d_snap d of
                   None \<Rightarrow> (empty_shards, 0)
                 | Some b \<Rightarrow> (case load_snapshot b of
                               Inl _ \<Rightarrow> (empty_shards, 0)
                             | Inr ms \<Rightarrow> (fold load_snap_mut ms empty_shards, muts_max ms 0)));
          st1 = (case d_ckpt d of
                   None \<Rightarrow> Inr (d_ckpt d, st0)
                 | Some b \<Rightarrow> (case replay_into save_ok truncate_ok (Some b) st0 of
                               Inl e \<Rightarrow> Inl e
                             | Inr (w, st) \<Rightarrow> Inr (Some (log_file w), st)))
      in case st1 of
           Inl e \<Rightarrow> Inl e
         | Inr (ckpt, st) \<Rightarrow>
             (case replay_into save_ok truncate_ok (d_live d) st of
                Inl e \<Rightarrow> Inl e
              | Inr (w, sh, mx) \<Rightarrow>
                  Inr \<lparr>co_shards = drop_dead sh, co_wal = w, write_queue = [], visible_ts = mx,
                       kv_live = count_kv (drop_dead sh), active_snaps = [], graveyard = [],
                       gc_horizon = dead_horizon sh, last_appended = mx, events = [],
                       clock = mx, sync_writes = durable, snap_file = d_snap d, ckpt_file = ckpt,
                       backups = []\<rparr>))"

section \<open>Checkpointing\<close>

definition version_ts_at :: "nat \<Rightarrow> chain \<Rightarrow> nat" where
  "version_ts_at snap c = (case as_of snap (versions c) of None \<Rightarrow> 0 | Some v \<Rightarrow> v_ts v)"

definition snap_records :: "shards \<Rightarrow> nat \<Rightarrow> mutation list" where
  "snap_records sh snap =
     concat (map (List.map_filter (\<lambda>(k, c).
        map_option (\<lambda>v. \<lparr>m_key = k, m_value = v, m_ts = version_ts_at snap c\<rparr>) (visible snap c))) sh)"

definition dump :: "engine \<Rightarrow> nat \<times> mutation list" where
  "dump e = (snapshot e, snap_records (co_shards e) (snapshot e))"

text \<open>The counting pass, the writing pass and the comparison of the two.\<close>

definition write_snapshot_at :: "shards \<Rightarrow> nat \<Rightarrow> bytes option" where
  "write_snapshot_at sh snap =
     (let count = sum_list (map (\<lambda>data. length (filter (\<lambda>(_, c). visible snap c \<noteq> None) data)) sh);
          recs = snap_records sh snap
      in if length recs \<noteq> count then None else Some (snapshot_file recs))"

text \<open>
  The fold of the live log into a segment an earlier checkpoint left: \<open>io::copy\<close> and
  \<open>sync_all\<close> both succeed, or one of them fails after some number of bytes reached the segment
  (none when a file cannot be opened, all of them when only the sync fails).
\<close>

datatype fold_outcome = FoldOk | FoldErr nat

text \<open>
  Which file the handle of the open log writes to.  A rotation whose \<open>Wal::open\<close> fails after the
  rename leaves the handle on the renamed file: from then on commits go to the segment, there is
  no file at the path of the log (\<open>Wal::open\<close> fails without creating it), and \<open>ckpt_file\<close> is not
  used, the segment being the log itself.
\<close>

datatype log_place = AtLog | AtSegment

record ckpt_io =
  ck_sync :: bool
  ck_fold :: fold_outcome
  ck_set_len :: bool
  ck_trunc_sync :: bool
  ck_rename :: bool
  ck_open :: bool
  ck_write :: bool
  ck_remove :: bool

definition ckpt_rotate :: "ckpt_io \<Rightarrow> log_place \<Rightarrow> engine \<Rightarrow> engine \<times> log_place \<times> (io_fail + nat)" where
  "ckpt_rotate io pl e =
     (case sync (ck_sync io) (co_wal e) of
        (w, Inl err) \<Rightarrow> (e\<lparr>co_wal := w\<rparr>, pl, Inl (WalFail err))
      | (w, Inr _) \<Rightarrow>
          if pl = AtSegment then (e, pl, Inl OpenFail)
          else
            (case ckpt_file e of
               Some seg \<Rightarrow>
                 (case ck_fold io of
                    FoldErr n \<Rightarrow> (e\<lparr>ckpt_file := Some (seg @ take n (log_file w))\<rparr>, pl, Inl OpenFail)
                  | FoldOk \<Rightarrow>
                      let e1 = e\<lparr>ckpt_file := Some (seg @ log_file w)\<rparr>
                      in (case wal_truncate (ck_set_len io) (ck_trunc_sync io) w of
                            (w', Inl err) \<Rightarrow> (e1\<lparr>co_wal := w'\<rparr>, pl, Inl (WalFail err))
                          | (w', Inr _) \<Rightarrow> (e1\<lparr>co_wal := w'\<rparr>, pl, Inr (last_appended e))))
             | None \<Rightarrow>
                 if \<not> ck_rename io then (e, pl, Inl RenameFail)
                 else if \<not> ck_open io then (e, AtSegment, Inl OpenFail)
                 else (e\<lparr>ckpt_file := Some (log_file w), co_wal := wal_open None\<rparr>, pl, Inr (last_appended e))))"

definition ckpt_snapshot :: "ckpt_io \<Rightarrow> nat \<Rightarrow> engine \<Rightarrow> engine \<times> (io_fail + unit)" where
  "ckpt_snapshot io snap_ts e =
     (case write_snapshot_at (co_shards e) snap_ts of
        None \<Rightarrow> (e, Inl OpenFail)
      | Some b \<Rightarrow> if ck_write io then (e\<lparr>snap_file := Some b\<rparr>, Inr ()) else (e, Inl RenameFail))"

definition ckpt_remove :: "ckpt_io \<Rightarrow> engine \<Rightarrow> engine \<times> (io_fail + unit)" where
  "ckpt_remove io e = (if ck_remove io then (e\<lparr>ckpt_file := None\<rparr>, Inr ()) else (e, Inl RenameFail))"

definition checkpoint :: "ckpt_io \<Rightarrow> log_place \<Rightarrow> engine \<Rightarrow> engine \<times> log_place \<times> (io_fail + unit)" where
  "checkpoint io pl e =
     (case ckpt_rotate io pl e of
        (e1, pl1, Inl err) \<Rightarrow> (e1, pl1, Inl err)
      | (e1, pl1, Inr snap_ts) \<Rightarrow>
          let e2 = pin snap_ts e1
          in (case ckpt_snapshot io snap_ts e2 of
                (e3, Inl err) \<Rightarrow> (unpin snap_ts e3, pl1, Inl err)
              | (e3, Inr _) \<Rightarrow> (case ckpt_remove io e3 of (e4, r) \<Rightarrow> (unpin snap_ts e4, pl1, r))))"

text \<open>What is on disk.\<close>

definition disk_of :: "log_place \<Rightarrow> engine \<Rightarrow> disk" where
  "disk_of pl e =
     (case pl of
        AtLog \<Rightarrow> \<lparr>d_snap = snap_file e, d_ckpt = ckpt_file e, d_live = Some (log_file (co_wal e))\<rparr>
      | AtSegment \<Rightarrow> \<lparr>d_snap = snap_file e, d_ckpt = Some (log_file (co_wal e)), d_live = None\<rparr>)"

text \<open>The intact prefix of a log file, and the disk an opened engine leaves: a torn tail is cut off.\<close>

definition intact :: "bytes \<Rightarrow> bytes" where
  "intact f = take (fst (snd (replay_loop f 0))) f"

definition segment_clean :: "engine \<Rightarrow> bool" where
  "segment_clean e \<longleftrightarrow> (case ckpt_file e of None \<Rightarrow> True | Some f \<Rightarrow> snd (snd (replay_loop f 0)) = CleanEnd)"

definition cut_disk :: "disk \<Rightarrow> disk" where
  "cut_disk d = \<lparr>d_snap = d_snap d, d_ckpt = map_option intact (d_ckpt d),
     d_live = Some (intact (case d_live d of None \<Rightarrow> [] | Some f \<Rightarrow> f))\<rparr>"

section \<open>Loading in any order\<close>

text \<open>The specification: per key the newest record, the later one among equal timestamps.\<close>

definition newer :: "mutation \<Rightarrow> mutation option \<Rightarrow> mutation option" where
  "newer m best = (case best of None \<Rightarrow> Some m | Some b \<Rightarrow> if m_ts b \<le> m_ts m then Some m else Some b)"

definition newest :: "mutation list \<Rightarrow> key \<Rightarrow> mutation option" where
  "newest ms k = fold newer (of_key k ms) None"

definition newest_value :: "mutation list \<Rightarrow> key \<Rightarrow> val option" where
  "newest_value ms k = (case newest ms k of None \<Rightarrow> None | Some m \<Rightarrow> live (m_value m))"

text \<open>A loaded chain agrees with the newest record so far.\<close>

definition chain_agrees :: "chain option \<Rightarrow> mutation option \<Rightarrow> bool" where
  "chain_agrees oc om \<longleftrightarrow>
     (case oc of
        None \<Rightarrow> om = None
      | Some c \<Rightarrow> chain_wf c \<and> versions c \<noteq> [] \<and>
          (\<exists>m. om = Some m \<and> chain_latest c = live (m_value m) \<and> latest_ts c = m_ts m))"

definition load_agrees :: "shards \<Rightarrow> mutation list \<Rightarrow> bool" where
  "load_agrees sh ms \<longleftrightarrow> shards_wf sh \<and> (\<forall>k. chain_agrees (chain_lookup sh k) (newest ms k))"

lemma newest_snoc: "newest (ms @ [m]) k = (if m_key m = k then newer m (newest ms k) else newest ms k)"
  by (simp add: newest_def)

lemma load_step:
  assumes ok: "load_agrees sh ms" and c: "c = chain_of (sh ! shard_of (m_key m)) (m_key m) \<or>
      c = (chain_of (sh ! shard_of (m_key m)) (m_key m))\<lparr>pruned_ts := p\<rparr>"
    and sh': "sh' = sh[shard_of (m_key m) := bt_insert (m_key m) (chain_push (m_ts m) (m_value m) [] c) (sh ! shard_of (m_key m))]"
  shows "load_agrees sh' (ms @ [m])"
proof -
  let ?k = "m_key m" and ?s = "shard_of (m_key m)" and ?c = "chain_push (m_ts m) (m_value m) [] c"
  have wf: "shards_wf sh" and ag: "\<And>k. chain_agrees (chain_lookup sh k) (newest ms k)"
    using ok by (auto simp: load_agrees_def)
  have l: "?s < length sh" and d: "bt_wf (sh ! ?s)" using wf by (simp_all add: shards_wf_def)
  have co: "chain_of (sh ! ?s) ?k = (case chain_lookup sh ?k of None \<Rightarrow> chain_default | Some c \<Rightarrow> c)"
    by (simp add: chain_of_def chain_lookup_def)
  have cwf: "chain_wf c" "latest_ts c = (case newest ms ?k of None \<Rightarrow> 0 | Some b \<Rightarrow> m_ts b)"
    "chain_latest c = (case newest ms ?k of None \<Rightarrow> None | Some b \<Rightarrow> live (m_value b))"
    using c ag [of ?k] chain_default_wf
    by (auto simp: co chain_agrees_def chain_wf_def chain_latest_def chain_default_def split: option.splits)
  have get: "bt_get (bt_insert ?k ?c (sh ! ?s)) = (bt_get (sh ! ?s))(?k \<mapsto> ?c)" using d by (simp add: bt_get_insert)
  have ins: "shard_of x = ?s \<and> chain_wf y \<and> versions y \<noteq> []" if "bt_get (sh ! ?s) x = Some y" for x y
    using map_of_SomeD [OF that] in_shard [OF wf shard_of_less] lookup_wf [OF wf, of x y] by simp
  have wf': "shards_wf sh'"
    unfolding sh'
  proof (rule shards_wf_update [OF wf shard_of_less])
    show "bt_wf (bt_insert ?k ?c (sh ! ?s))" using d by (rule bt_wf_insert)
    fix x y assume y: "bt_get (bt_insert ?k ?c (sh ! ?s)) x = Some y"
    show "shard_of x = ?s \<and> chain_wf y \<and> versions y \<noteq> []"
    proof (cases "x = ?k")
      case True
      then have "y = ?c" using y unfolding get by simp
      then show ?thesis using True push_wf [OF cwf(1), of "m_ts m" "m_value m" "[]"] by simp
    next
      case False
      then have "bt_get (sh ! ?s) x = Some y" using y unfolding get by simp
      then show ?thesis by (rule ins)
    qed
  qed
  have look: "chain_lookup sh' x = (if x = ?k then Some ?c else chain_lookup sh x)" for x
    using l get by (cases "shard_of x = ?s"; cases "x = ?k") (simp_all add: sh' chain_lookup_def)
  have "chain_agrees (Some ?c) (newer m (newest ms ?k))"
  proof (cases "newest ms ?k")
    case None
    then show ?thesis
      using cwf push_wf [OF cwf(1)] by (simp add: chain_agrees_def newer_def chain_push_versions(3) push_latest)
  next
    case (Some b)
    then show ?thesis
      using cwf push_wf [OF cwf(1)]
      by (cases "m_ts b \<le> m_ts m") (simp_all add: chain_agrees_def newer_def chain_push_versions(3) push_latest)
  qed
  then show ?thesis using wf' ag by (simp add: load_agrees_def look newest_snoc)
qed

lemma load_mut_agrees: "load_agrees sh ms \<Longrightarrow> load_agrees (load_mut m sh) (ms @ [m])"
  by (rule load_step [of sh ms _ m]) (auto simp: load_mut_def Let_def)

lemma load_snap_agrees: "load_agrees sh ms \<Longrightarrow> load_agrees (load_snap_mut m sh) (ms @ [m])"
  by (rule load_step [of sh ms "(chain_of (sh ! shard_of (m_key m)) (m_key m))
        \<lparr>pruned_ts := max (pruned_ts (chain_of (sh ! shard_of (m_key m)) (m_key m))) (max (m_ts m - 1) 1)\<rparr>" m])
    (auto simp: load_snap_mut_def Let_def)

lemma load_all_agrees: "load_agrees sh ms \<Longrightarrow> load_agrees (fold load_mut ns sh) (ms @ ns)"
proof (induction ns arbitrary: sh ms)
  case (Cons n ns)
  then show ?case using Cons.IH [OF load_mut_agrees [OF Cons.prems, of n]] by simp
qed simp

lemma load_all_snap_agrees: "load_agrees sh ms \<Longrightarrow> load_agrees (fold load_snap_mut ns sh) (ms @ ns)"
proof (induction ns arbitrary: sh ms)
  case (Cons n ns)
  then show ?case using Cons.IH [OF load_snap_agrees [OF Cons.prems, of n]] by simp
qed simp

lemma empty_agrees: "load_agrees empty_shards []"
  by (simp add: load_agrees_def empty_shards_wf chain_agrees_def newest_def)

text \<open>The newest record is one of the key with the greatest timestamp.\<close>

lemma fold_newer:
  "fold newer ms b = None \<longleftrightarrow> ms = [] \<and> b = None"
  "fold newer ms b = Some m \<Longrightarrow>
     (m \<in> set ms \<or> b = Some m) \<and> (\<forall>x\<in>set ms. m_ts x \<le> m_ts m) \<and> (\<forall>x. b = Some x \<longrightarrow> m_ts x \<le> m_ts m)"
proof (induction ms arbitrary: b)
  case (Cons a ms)
  {
    case 1
    have "newer a b \<noteq> None" by (cases b) (simp_all add: newer_def)
    then show ?case using Cons.IH(1) [of "newer a b"] by simp
  next
    case 2
    then have "fold newer ms (newer a b) = Some m" by simp
    note IH = Cons.IH(2) [OF this]
    have "\<exists>x. newer a b = Some x \<and> (x = a \<or> b = Some x) \<and> m_ts a \<le> m_ts x \<and> (\<forall>y. b = Some y \<longrightarrow> m_ts y \<le> m_ts x)"
      by (cases b) (auto simp: newer_def)
    then obtain x where x: "newer a b = Some x" "x = a \<or> b = Some x" "m_ts a \<le> m_ts x" "\<forall>y. b = Some y \<longrightarrow> m_ts y \<le> m_ts x"
      by blast
    have "m_ts x \<le> m_ts m" using IH x(1) by blast
    then show ?case using IH x by (force intro: order_trans)
  }
qed auto

lemma newest_None: "newest ms k = None \<longleftrightarrow> (\<forall>m\<in>set ms. m_key m \<noteq> k)"
  by (auto simp: newest_def fold_newer(1) of_key_def filter_empty_conv)

lemma newest_Some: "newest ms k = Some m \<Longrightarrow> m \<in> set ms \<and> m_key m = k \<and> (\<forall>x\<in>set ms. m_key x = k \<longrightarrow> m_ts x \<le> m_ts m)"
  using fold_newer(2) [of "of_key k ms" None m] by (auto simp: newest_def of_key_def)

section \<open>What an opened engine reads\<close>

lemma drop_dead_lookup:
  assumes "shards_wf sh"
  shows "shards_wf (drop_dead sh) \<and> chain_lookup (drop_dead sh) k =
     (case chain_lookup sh k of None \<Rightarrow> None | Some c \<Rightarrow> if chain_latest c = None then None else Some c)"
proof -
  have l: "shard_of k < length sh" "bt_wf (sh ! shard_of k)" using assms by (simp_all add: shards_wf_def)
  have get: "map_of (filter (\<lambda>(_, c). P c) d) k = (case map_of d k of None \<Rightarrow> None | Some c \<Rightarrow> if P c then Some c else None)"
    if "bt_wf d" for d :: "(key, chain) btree" and P
    using that
  proof (induction d)
    case (Cons a d)
    obtain k0 c0 where a: "a = (k0, c0)" by (cases a)
    have "bt_wf d" "bt_get d k0 = None" using Cons.prems a bt_wf_not_in by (auto simp: bt_wf_Cons)
    then show ?case using Cons.IH a by (auto split: option.splits)
  qed simp
  have "shards_wf (drop_dead sh)"
    using assms by (auto simp: shards_wf_def drop_dead_def filter_bt_wf)
  then show ?thesis using l get [OF l(2)] by (simp add: drop_dead_def chain_lookup_def split: option.split)
qed

lemma muts_max_fold: "b \<le> muts_max ms b \<and> (\<forall>m\<in>set ms. m_ts m \<le> muts_max ms b)"
  unfolding muts_max_def
proof (induction ms arbitrary: b)
  case (Cons m ms)
  show ?case using Cons.IH [of "max b (m_ts m)"] by (simp add: max.bounded_iff)
qed simp

lemma muts_max_le: "\<forall>m\<in>set ms. m_ts m \<le> v \<Longrightarrow> b \<le> v \<Longrightarrow> muts_max ms b \<le> v"
  unfolding muts_max_def by (induction ms arbitrary: b) auto

lemma muts_max_append: "muts_max (ms @ ns) b = muts_max ns (muts_max ms b)"
  by (simp add: muts_max_def)

text \<open>Logs of commits, as the flusher writes them, and the records on a disk.\<close>

definition commits_ok :: "mutation list list \<Rightarrow> bool" where
  "commits_ok css \<longleftrightarrow>
     payloads_ok (map commit_frame css) \<and> (\<forall>ms\<in>set css. list_all record_ok ms \<and> length ms \<le> u64_max)"

definition commit_log :: "mutation list list \<Rightarrow> bytes" where
  "commit_log css = log_of (map commit_frame css)"

definition snap_ok :: "mutation list option \<Rightarrow> bool" where
  "snap_ok S \<longleftrightarrow> (\<forall>ms. S = Some ms \<longrightarrow> list_all record_ok ms \<and> length ms \<le> u64_max)"

definition recs :: "mutation list option \<Rightarrow> mutation list list option \<Rightarrow> mutation list list \<Rightarrow> mutation list" where
  "recs S C L = (case S of None \<Rightarrow> [] | Some ms \<Rightarrow> ms) @ (case C of None \<Rightarrow> [] | Some css \<Rightarrow> concat css) @ concat L"

lemma decode_commits: "commits_ok css \<Longrightarrow> concat (map decode_records (map commit_frame css)) = concat css"
proof (induction css)
  case (Cons ms css)
  then have "decode_records (commit_frame ms) = ms" by (simp add: commits_ok_def decode_commit_frame)
  then show ?case using Cons by (simp add: commits_ok_def)
qed simp

text \<open>A file that holds commits, the last one possibly followed by a torn frame.\<close>

definition holds_commits :: "bytes \<Rightarrow> mutation list list \<Rightarrow> bool" where
  "holds_commits f css \<longleftrightarrow>
     (\<exists>q n. length q \<le> MAX_FRAME \<and> n < length (frame q) \<and> f = commit_log css @ take n (frame q))"

lemma holds_commits_log: "holds_commits (commit_log css) css"
  unfolding holds_commits_def by (intro exI [of _ "[]"] exI [of _ 0]) simp

lemma holds_commits_replay:
  assumes "holds_commits f css" and "payloads_ok (map commit_frame css)"
  shows "\<exists>r. replay_loop f 0 = (map commit_frame css, length (commit_log css), r) \<and> intact f = commit_log css
    \<and> (r = CleanEnd \<longrightarrow> f = commit_log css)"
proof -
  obtain q n where q: "length q \<le> MAX_FRAME" "n < length (frame q)" "f = commit_log css @ take n (frame q)"
    using assms(1) unfolding holds_commits_def by blast
  obtain r where r: "replay_loop f 0 = (map commit_frame css, length (commit_log css), r)"
    using replay_log_torn [OF assms(2) q(1,2)] unfolding q(3) commit_log_def by blast
  have "f = commit_log css" if "r = CleanEnd"
  proof (cases "n = 0")
    case False
    then obtain r' where "r' \<noteq> CleanEnd" "replay_loop f (length (commit_log css)) = ([], length (commit_log css), r')"
      using replay_torn [OF refl q(1,2), of "commit_log css"] q(3) by auto
    then have "r \<noteq> CleanEnd"
      using replay_log [of 0 "[]" "map commit_frame css" "take n (frame q)"] assms(2) r q(3) by (simp add: commit_log_def)
    then show ?thesis using that by simp
  qed (simp add: q)
  then show ?thesis using r q(3) by (simp add: intact_def)
qed

lemma replay_into_log:
  assumes ok: "commits_ok css" and f: "holds_commits f css"
  shows "\<exists>w. replay_into True True (Some f) (sh, mx)
      = Inr (w, fold load_mut (concat css) sh, muts_max (concat css) mx)
    \<and> log_file w = intact f"
proof -
  have p: "payloads_ok (map commit_frame css)" using ok by (simp add: commits_ok_def)
  obtain r where r: "replay_loop f 0 = (map commit_frame css, length (commit_log css), r)" and i: "intact f = commit_log css"
    using holds_commits_replay [OF f p] by blast
  obtain w q where w: "replay_with True True (wal_open (Some f)) = (w, map commit_frame css, q, Inr ())"
      "wal_holds w (map commit_frame css)"
    using replay_with_clean [OF r] by blast
  have "\<not> poisoned w" using w(1) r by (auto simp: replay_with_def wal_open_def Let_def split: if_splits)
  then have "log_file w = intact f" using wal_holds_clean [OF w(2)] by (simp add: commit_log_def i)
  then show ?thesis using w(1) decode_commits [OF ok] by (auto simp: replay_into_def Let_def)
qed

lemma count_kv_live: "shards_wf sh \<Longrightarrow> count_kv sh = live_kv_keys sh"
proof -
  have "prefix_end kv_prefix \<noteq> []" by code_simp
  then have p: "kv_prefix \<le> k \<and> k < prefix_end kv_prefix \<longleftrightarrow> starts_with k kv_prefix" for k
    by (rule prefix_end_range)
  have "filter (\<lambda>(_, c). chain_latest c \<noteq> None) (bt_range data kv_prefix (prefix_end kv_prefix)) = filter kv_alive data" for data
    unfolding bt_range_def filter_filter by (rule filter_cong) (use p in \<open>auto simp: kv_alive_def\<close>)
  then show "count_kv sh = live_kv_keys sh" by (simp add: count_kv_def live_kv_keys_def)
qed

lemma load_agrees_reads:
  assumes ok: "load_agrees sh ms" and v: "\<forall>m\<in>set ms. m_ts m \<le> v"
  shows "get_at (drop_dead sh) k v = newest_value ms k \<and> latest_of (drop_dead sh) k = newest_value ms k"
proof -
  have wf: "shards_wf sh" and a: "chain_agrees (chain_lookup sh k) (newest ms k)" using ok by (auto simp: load_agrees_def)
  note d = drop_dead_lookup [OF wf, of k]
  show ?thesis
  proof (cases "chain_lookup sh k")
    case None
    then show ?thesis using a d by (simp add: chain_agrees_def get_at_def latest_of_def newest_value_def)
  next
    case (Some c)
    then obtain m where m: "newest ms k = Some m" "chain_latest c = live (m_value m)" "latest_ts c = m_ts m" "chain_wf c"
      using a by (auto simp: chain_agrees_def)
    have "latest_ts c \<le> v" using newest_Some [OF m(1)] v m(3) by simp
    then have "visible v c = chain_latest c" by (rule visible_latest [OF m(4)])
    then show ?thesis using d Some m by (simp add: get_at_def latest_of_def newest_value_def)
  qed
qed

lemma open_engine_reads:
  assumes s: "snap_ok S" and c: "\<And>css. C = Some css \<Longrightarrow> commits_ok css" and l: "commits_ok L"
    and ds: "d_snap d = map_option snapshot_file S" and dc: "rel_option holds_commits (d_ckpt d) C"
    and dl: "holds_commits (case d_live d of None \<Rightarrow> [] | Some f \<Rightarrow> f) L"
  shows "\<exists>e. open_engine durable True True d = Inr e
    \<and> (\<forall>k. get e k = newest_value (recs S C L) k)
    \<and> kv_count e = card {k. starts_with k kv_prefix \<and> newest_value (recs S C L) k \<noteq> None}
    \<and> visible_ts e = muts_max (recs S C L) 0 \<and> clock e = visible_ts e \<and> disk_of AtLog e = cut_disk d"
proof -
  define S' where "S' = (case S of None \<Rightarrow> [] | Some ms \<Rightarrow> ms)"
  define C' where "C' = (case C of None \<Rightarrow> [] | Some css \<Rightarrow> concat css)"
  define sh0 where "sh0 = fold load_snap_mut S' empty_shards"
  define mx0 where "mx0 = muts_max S' 0"
  define sh1 where "sh1 = fold load_mut C' sh0"
  define mx1 where "mx1 = muts_max C' mx0"
  define sh2 where "sh2 = fold load_mut (concat L) sh1"
  define mx2 where "mx2 = muts_max (concat L) mx1"
  have st0: "(case d_snap d of None \<Rightarrow> (empty_shards, 0) | Some b \<Rightarrow> (case load_snapshot b of Inl _ \<Rightarrow> (empty_shards, 0)
      | Inr ms \<Rightarrow> (fold load_snap_mut ms empty_shards, muts_max ms 0))) = (sh0, mx0)"
    using s by (cases S) (simp_all add: ds S'_def sh0_def mx0_def snap_ok_def load_snapshot_file muts_max_def)
  have st1: "(case d_ckpt d of None \<Rightarrow> Inr (d_ckpt d, (sh0, mx0))
      | Some b \<Rightarrow> (case replay_into True True (Some b) (sh0, mx0) of Inl e \<Rightarrow> Inl e
          | Inr (w, st) \<Rightarrow> Inr (Some (log_file w), st))) = Inr (map_option intact (d_ckpt d), (sh1, mx1))"
  proof (cases C)
    case None
    then show ?thesis using dc by (simp add: C'_def sh1_def mx1_def muts_max_def)
  next
    case (Some css)
    then obtain f where f: "d_ckpt d = Some f" "holds_commits f css" using dc by (auto simp: option_rel_Some2)
    show ?thesis
      using replay_into_log [OF c [OF Some] f(2), of sh0 mx0] Some by (auto simp: f(1) C'_def sh1_def mx1_def)
  qed
  have none: "replay_into True True None st = replay_into True True (Some []) st" for st
    by (simp add: replay_into_def wal_open_def)
  obtain w where w: "replay_into True True (d_live d) (sh1, mx1) = Inr (w, sh2, mx2)"
      "log_file w = intact (case d_live d of None \<Rightarrow> [] | Some f \<Rightarrow> f)"
    using replay_into_log [OF l dl, of sh1 mx1] by (cases "d_live d") (auto simp: none sh2_def mx2_def)
  have R: "recs S C L = S' @ C' @ concat L" by (simp add: recs_def S'_def C'_def)
  have ag: "load_agrees sh2 (recs S C L)"
    unfolding R sh2_def sh1_def sh0_def
    using load_all_agrees [OF load_all_agrees [OF load_all_snap_agrees [OF empty_agrees, of S'], of C'], of "concat L"]
    by simp
  have mx: "mx2 = muts_max (recs S C L) 0" by (simp add: R mx2_def mx1_def mx0_def muts_max_append)
  have le: "\<forall>m\<in>set (recs S C L). m_ts m \<le> mx2" using muts_max_fold mx by blast
  have wf: "shards_wf (drop_dead sh2)" using ag drop_dead_lookup by (simp add: load_agrees_def)
  have "\<exists>e. open_engine durable True True d = Inr e \<and> co_shards e = drop_dead sh2 \<and> visible_ts e = mx2
      \<and> kv_live e = count_kv (drop_dead sh2) \<and> clock e = mx2 \<and> disk_of AtLog e = cut_disk d"
    unfolding open_engine_def Let_def st0 st1 using w by (simp add: disk_of_def cut_disk_def)
  then obtain e where e: "open_engine durable True True d = Inr e" and f: "co_shards e = drop_dead sh2" "visible_ts e = mx2"
      "kv_live e = count_kv (drop_dead sh2)" "clock e = mx2" "disk_of AtLog e = cut_disk d"
    by blast
  note r = load_agrees_reads [OF ag le]
  have "get e k = newest_value (recs S C L) k" for k using r by (simp add: get_def snapshot_def f)
  moreover have "kv_count e = card {k. starts_with k kv_prefix \<and> newest_value (recs S C L) k \<noteq> None}"
    using live_kv_card [OF wf] by (simp add: kv_count_def f count_kv_live [OF wf] r)
  ultimately show ?thesis using e f mx by auto
qed

end
