(* ===== verification/Checkpoint.thy ===== *)
theory Checkpoint
  imports Recovery Engine_Reads
begin

text \<open>
  Checkpoints while the engine runs.  A checkpoint is three steps (rotate the log and pin, write
  the snapshot, remove the rotated segment), between which clients submit, the flusher commits
  and snapshots come and go; every file operation may fail.  The invariant says which records
  the three files hold, and the claims that a crash at any moment loses nothing committed.

  A fold into a leftover segment that fails half way leaves a torn frame at its end.  That loses
  nothing, the live log being untouched, until the next checkpoint of the same process: it
  appends the live log behind the torn frame and truncates it, and replay never reads past a torn
  frame.  The steps exclude that one case (\<open>segment_clean\<close>); a restart cuts the segment.
\<close>

section \<open>Steps\<close>

datatype ckpt_phase = Idle | Rotated nat | Written nat

type_synonym store_state = "engine \<times> log_place \<times> ckpt_phase"

inductive store_step :: "store_state \<Rightarrow> store_state \<Rightarrow> bool" where
  submit: "client_ok writes op \<Longrightarrow> store_step (e, pl, ph) (submit_durable writes reads incr op e, pl, ph)"
| round: "\<forall>pw\<in>set (write_queue e). pw_flush_all pw = None \<Longrightarrow> store_step (e, pl, ph) (fst (flush_round io e), pl, ph)"
| pin: "store_step (e, pl, ph) (pin (snapshot e) e, pl, ph)"
| unpin: "store_step (e, pl, ph) (unpin s e, pl, ph)"
| rotate: "segment_clean e \<Longrightarrow> ckpt_rotate io pl e = (e', pl', Inr s) \<Longrightarrow>
    store_step (e, pl, Idle) (pin s e', pl', Rotated s)"
| rotate_fails: "segment_clean e \<Longrightarrow> ckpt_rotate io pl e = (e', pl', Inl err) \<Longrightarrow>
    store_step (e, pl, Idle) (e', pl', Idle)"
| snap: "ckpt_snapshot io s e = (e', Inr u) \<Longrightarrow> store_step (e, pl, Rotated s) (e', pl, Written s)"
| snap_fails: "ckpt_snapshot io s e = (e', Inl err) \<Longrightarrow> store_step (e, pl, Rotated s) (unpin s e', pl, Idle)"
| remove: "ckpt_remove io e = (e', r) \<Longrightarrow> store_step (e, pl, Written s) (unpin s e', pl, Idle)"

inductive_cases store_stepE: "store_step ep ep'"

text \<open>The operation of the code is a sequence of these steps.\<close>

lemma checkpoint_steps:
  assumes c: "segment_clean e"
  shows "store_step\<^sup>*\<^sup>* (e, pl, Idle) (fst (checkpoint io pl e), fst (snd (checkpoint io pl e)), Idle)"
proof -
  obtain e1 pl1 r1 where r: "ckpt_rotate io pl e = (e1, pl1, r1)" by (metis prod_cases3)
  show ?thesis
  proof (cases r1)
    case (Inl err)
    then show ?thesis
      using r store_step.rotate_fails [OF c, of io pl e1 pl1 err] by (simp add: checkpoint_def r_into_rtranclp)
  next
    case (Inr s)
    have s1: "store_step (e, pl, Idle) (pin s e1, pl1, Rotated s)" by (rule store_step.rotate [OF c]) (use r Inr in simp)
    obtain e3 r3 where w: "ckpt_snapshot io s (pin s e1) = (e3, r3)" by fastforce
    show ?thesis
    proof (cases r3)
      case (Inl err)
      then have "store_step (pin s e1, pl1, Rotated s) (unpin s e3, pl1, Idle)" using w by (auto intro: store_step.snap_fails)
      then show ?thesis using s1 r Inr w Inl by (simp add: checkpoint_def converse_rtranclp_into_rtranclp)
    next
      case w3: (Inr u)
      obtain e4 r4 where rm: "ckpt_remove io e3 = (e4, r4)" by fastforce
      have "store_step (pin s e1, pl1, Rotated s) (e3, pl1, Written s)" using w w3 by (auto intro: store_step.snap)
      moreover have "store_step (e3, pl1, Written s) (unpin s e4, pl1, Idle)" using rm by (rule store_step.remove)
      ultimately have "store_step\<^sup>*\<^sup>* (e, pl, Idle) (unpin s e4, pl1, Idle)"
        using s1 by (meson converse_rtranclp_into_rtranclp rtranclp.rtrancl_refl)
      then show ?thesis using r Inr w w3 rm by (simp add: checkpoint_def)
    qed
  qed
qed

section \<open>Records that cover a history\<close>

definition last_of :: "mutation list \<Rightarrow> key \<Rightarrow> mutation option" where
  "last_of h k = (if of_key k h = [] then None else Some (last (of_key k h)))"

definition covers :: "mutation list \<Rightarrow> mutation set \<Rightarrow> bool" where
  "covers h D \<longleftrightarrow>
     D \<subseteq> set h \<and> (\<forall>k m. last_of h k = Some m \<longrightarrow> m \<in> D \<or> live (m_value m) = None \<and> (\<forall>x\<in>D. m_key x \<noteq> k))"

definition ordered :: "mutation list \<Rightarrow> bool" where
  "ordered h \<longleftrightarrow> (\<forall>k. sorted_wrt (<) (map m_ts (of_key k h)))"

lemma coversD:
  assumes "covers h D" and "last_of h k = Some m"
  shows "m \<in> D \<or> live (m_value m) = None \<and> (\<forall>x\<in>D. m_key x \<noteq> k)"
proof -
  have "\<forall>k m. last_of h k = Some m \<longrightarrow> m \<in> D \<or> live (m_value m) = None \<and> (\<forall>x\<in>D. m_key x \<noteq> k)"
    using assms(1) unfolding covers_def by (rule conjunct2)
  from this [rule_format, OF assms(2)] show ?thesis .
qed

lemma last_of_Some: "last_of h k = Some m \<Longrightarrow> m \<in> set h \<and> m_key m = k"
  by (auto simp: last_of_def of_key_def split: if_splits dest!: last_in_set)

lemma last_of_newest: "ordered h \<Longrightarrow> last_of h k = Some m \<Longrightarrow> x \<in> set h \<Longrightarrow> m_key x = k \<Longrightarrow> m_ts x \<le> m_ts m \<and> (m_ts x = m_ts m \<longrightarrow> x = m)"
proof -
  assume o: "ordered h" and l: "last_of h k = Some m" and x: "x \<in> set h" "m_key x = k"
  have h: "of_key k h = butlast (of_key k h) @ [m]" using l by (auto simp: last_of_def split: if_splits)
  have "sorted_wrt (<) (map m_ts (butlast (of_key k h) @ [m]))" using o h by (metis ordered_def)
  then have "\<forall>y\<in>set (butlast (of_key k h)). m_ts y < m_ts m" by (auto simp: sorted_wrt_append)
  moreover have "x \<in> set (butlast (of_key k h) @ [m])" using x h by (auto simp: of_key_def)
  ultimately show ?thesis by auto
qed

lemma covers_value:
  assumes c: "covers h (set R)" and o: "ordered h"
  shows "newest_value R k = (case last_of h k of None \<Rightarrow> None | Some m \<Rightarrow> live (m_value m))"
proof (cases "last_of h k")
  case None
  then have "\<forall>m\<in>set h. m_key m \<noteq> k" by (auto simp: last_of_def of_key_def filter_empty_conv split: if_splits)
  then have "newest R k = None" using c by (auto simp: newest_None covers_def)
  then show ?thesis using None by (simp add: newest_value_def)
next
  case (Some m)
  note mk = last_of_Some [OF Some]
  from coversD [OF c Some] consider "m \<in> set R" | "live (m_value m) = None" "\<forall>x\<in>set R. m_key x \<noteq> k"
    by fast
  then show ?thesis
  proof cases
    case 1
    then obtain x where x: "newest R k = Some x" using mk newest_None [of R k] by auto
    note xs = newest_Some [OF x]
    have "x \<in> set h" using xs c by (auto simp: covers_def)
    then have "x = m" using last_of_newest [OF o Some] xs 1 mk by (metis order_antisym)
    then show ?thesis using x Some by (simp add: newest_value_def)
  next
    case 2
    then have "newest R k = None" by (simp add: newest_None)
    then show ?thesis using Some 2 by (simp add: newest_value_def)
  qed
qed

lemma last_of_append: "last_of (h @ ms) k = (case last_of ms k of None \<Rightarrow> last_of h k | Some m \<Rightarrow> Some m)"
  by (simp add: last_of_def of_key_def)

lemma last_of_None: "last_of h k = None \<longleftrightarrow> (\<forall>m\<in>set h. m_key m \<noteq> k)"
  by (auto simp: last_of_def of_key_def filter_empty_conv)

lemma covers_append:
  assumes "covers h D"
  shows "covers (h @ ms) (D \<union> set ms)"
  unfolding covers_def
proof (intro conjI allI impI)
  show "D \<union> set ms \<subseteq> set (h @ ms)" using assms by (auto simp: covers_def)
  fix k m assume l: "last_of (h @ ms) k = Some m"
  show "m \<in> D \<union> set ms \<or> live (m_value m) = None \<and> (\<forall>x\<in>D \<union> set ms. m_key x \<noteq> k)"
  proof (cases "last_of ms k")
    case None
    then have "last_of h k = Some m" using l by (simp add: last_of_append)
    moreover have "\<forall>x\<in>set ms. m_key x \<noteq> k" using None by (simp only: last_of_None)
    ultimately show ?thesis using coversD [OF assms, of k m] by blast
  next
    case (Some m')
    then show ?thesis using l last_of_Some by (auto simp: last_of_append)
  qed
qed

lemma truth_last_of:
  assumes "\<forall>m\<in>set h. m_ts m \<le> s"
  shows "truth h k s = (case last_of h k of None \<Rightarrow> None | Some m \<Rightarrow> live (m_value m))"
  using truth_latest [OF assms, of k] by (simp add: last_of_def key_hist_def last_map)

section \<open>What a round does to the log\<close>

lemma batch_commits_bounds:
  assumes ok: "engine_ok e" and nofl: "\<forall>pw\<in>set (write_queue e). pw_flush_all pw = None"
    and m: "m \<in> set (concat (batch_muts (write_queue e) (resolve_all sh n (write_queue e) [])))"
  shows "visible_ts e < m_ts m \<and> m_ts m \<le> max_ts (write_queue e)"
proof -
  have q: "sorted_wrt (<) (map pw_ts (write_queue e))" "\<forall>pw\<in>set (write_queue e). pending_ok pw"
    "\<forall>pw\<in>set (write_queue e). pw_flush_all pw = None \<longrightarrow> visible_ts e < pw_ts pw"
    using ok by (auto simp: engine_ok_def queue_ok_def)
  obtain pw where "pw \<in> set (write_queue e)" "pw_flush_all pw = None" "m_ts m = pw_ts pw"
    using batch_muts_ok [OF q(1,2) bt_wf_Nil, of sh n] m by blast
  then show ?thesis using q(3) max_ts_ge by auto
qed

lemma concat_nonempty: "concat (filter (\<lambda>m. m \<noteq> []) ms) = concat ms"
  by (induction ms) auto

lemma flush_round_log:
  assumes ok: "engine_ok e" and nofl: "\<forall>pw\<in>set (write_queue e). pw_flush_all pw = None"
    and f: "flush_round io e = (e', acks)" and w: "wal_holds (co_wal e) (map commit_frame L)"
    and live: "\<not> poisoned (co_wal e')"
  shows "\<not> poisoned (co_wal e) \<and> snap_file e' = snap_file e \<and> ckpt_file e' = ckpt_file e
    \<and> (\<exists>ms. hist e' = hist e @ concat ms \<and> wal_holds (co_wal e') (map commit_frame (L @ ms))
         \<and> (\<forall>m\<in>set (concat ms). visible_ts e < m_ts m \<and> m_ts m \<le> last_appended e'))
    \<and> last_appended e \<le> last_appended e'
    \<and> (last_appended e \<le> visible_ts e \<longrightarrow> last_appended e' \<le> visible_ts e')"
proof -
  let ?b = "write_queue e"
  define e1 where "e1 = sweep_tombstones (e\<lparr>write_queue := []\<rparr>)"
  define outs where "outs = resolve_all (co_shards e1) (list_ex wants_overlay ?b) ?b []"
  define muts where "muts = batch_muts ?b outs"
  define ms where "ms = filter (\<lambda>m. m \<noteq> []) muts"
  have wp: "List.map_filter pw_flush_all ?b = []" using nofl by (simp add: wipes_empty)
  obtain e2 fl where d: "durable_step io (map commit_frame ms) (max_ts ?b) e1 = (e2, fl)" by fastforce
  have e': "e' = publish ?b (if fl = Inr () then commit_step (concat muts) e2 else e2)"
    using f unfolding flush_round_def flush_batch_def Let_def e1_def [symmetric] outs_def [symmetric] muts_def [symmetric]
      ms_def [symmetric] wp by (auto simp: d wipe_step_def)
  have cm: "concat muts = concat ms" by (simp add: ms_def concat_nonempty)
  have b: "\<forall>m\<in>set (concat ms). visible_ts e < m_ts m \<and> m_ts m \<le> max_ts ?b"
    using batch_commits_bounds [OF ok nofl, of _ "co_shards e1" "list_ex wants_overlay ?b"]
    by (simp only: cm [symmetric] muts_def outs_def) blast
  have e1: "co_wal e1 = co_wal e" "snap_file e1 = snap_file e" "ckpt_file e1 = ckpt_file e" "events e1 = events e"
    "last_appended e1 = last_appended e" "visible_ts e1 = visible_ts e" by (simp_all add: e1_def)
  have cs: "co_wal (commit_step m x) = co_wal x" "snap_file (commit_step m x) = snap_file x"
    "ckpt_file (commit_step m x) = ckpt_file x" "events (commit_step m x) = events x @ map Committed m"
    "last_appended (commit_step m x) = last_appended x" "visible_ts (commit_step m x) = visible_ts x" for m x
    by (simp_all add: commit_step_def apply_to_engine_def split: prod.split)
  have pb: "co_wal (publish ?b x) = co_wal x" "snap_file (publish ?b x) = snap_file x"
    "ckpt_file (publish ?b x) = ckpt_file x" "events (publish ?b x) = events x" "last_appended (publish ?b x) = last_appended x"
    "visible_ts (publish ?b x) = (if ?b = [] then visible_ts x else max (visible_ts x) (max_ts ?b))" for x
    by (simp_all add: publish_def)
  have ev: "events e' = events e2 @ (if fl = Inr () then map Committed (concat ms) else [])"
    "co_wal e' = co_wal e2" "snap_file e' = snap_file e2" "ckpt_file e' = ckpt_file e2" "last_appended e' = last_appended e2"
    "visible_ts e' = (if ?b = [] then visible_ts e2 else max (visible_ts e2) (max_ts ?b))"
    by (simp_all add: e' cm cs pb)
  note df = durable_step_fields [OF d]
  have ck: "ckpt_file e2 = ckpt_file e1" using d by (auto simp: durable_step_def split: if_splits prod.splits sum.splits)
  show ?thesis
  proof (cases "ms = []")
    case True
    then have "e2 = e1" "fl = Inr ()" using d by (auto simp: durable_step_def)
    then show ?thesis using True ev e1 live w by (auto simp: hist_def intro!: exI [of _ "[]"])
  next
    case False
    then have ne: "map commit_frame ms \<noteq> []" "?b \<noteq> []" by (auto simp: ms_def muts_def outs_def)
    obtain w1 r1 where a: "append_frames (io_write io) (io_set_len io) (map commit_frame ms) (co_wal e) = (w1, r1)" by fastforce
    have np: "\<not> poisoned (co_wal e)"
    proof
      assume p: "poisoned (co_wal e)"
      then have "w1 = co_wal e" "r1 = Inl WalDisabled" using a by (simp_all add: append_frames_def)
      then have "co_wal e2 = co_wal e" using d ne a by (auto simp: durable_step_def e1)
      then show False using p live ev by simp
    qed
    note h = append_frames_holds [OF w a]
    show ?thesis
    proof (cases "r1 = Inr ()")
      case True
      then obtain w2 where s: "sync (io_sync io) w1 = (w2, fl)" and e2: "e2 = e1\<lparr>co_wal := w2, last_appended := max (last_appended e) (max_ts ?b)\<rparr>"
        using d ne a by (auto simp: durable_step_def e1 split: prod.splits)
      have "poisoned w2 \<or> fl = Inr () \<and> w2 = w1" using s by (auto simp: sync_def split: if_splits)
      moreover have "co_wal e' = w2" using ev(2) e2 by simp
      ultimately have "fl = Inr () \<and> w2 = w1" using live by simp
      then show ?thesis
        using np ev e1 e2 h True b ne by (auto simp: hist_def history_append history_committed le_max_iff_disj intro!: exI [of _ ms])
    next
      case False
      then have "e2 = e1\<lparr>co_wal := w1\<rparr>" "fl \<noteq> Inr ()" using d ne a by (auto simp: durable_step_def e1 split: sum.splits)
      then show ?thesis using np ev e1 h False w by (auto simp: hist_def le_max_iff_disj intro!: exI [of _ "[]"])
    qed
  qed
qed

section \<open>What a snapshot holds\<close>

lemma concat_lookup: "shards_wf sh \<Longrightarrow> (k, c) \<in> set (concat sh) \<longleftrightarrow> chain_lookup sh k = Some c"
proof -
  assume wf: "shards_wf sh"
  have "(k, c) \<in> set (concat sh) \<longleftrightarrow> (\<exists>i<SHARD_COUNT. (k, c) \<in> set (sh ! i))"
    using wf by (auto simp: shards_wf_def set_conv_nth [of sh])
  then show ?thesis using in_shard [OF wf] shard_of_less [of k] by blast
qed

definition snap_record :: "nat \<Rightarrow> key \<times> chain \<Rightarrow> mutation option" where
  "snap_record s kc = (case kc of (k, c) \<Rightarrow>
     map_option (\<lambda>v. \<lparr>m_key = k, m_value = v, m_ts = version_ts_at s c\<rparr>) (visible s c))"

lemma snap_records_eq: "snap_records sh s = List.map_filter (snap_record s) (concat sh)"
proof -
  have "(\<lambda>(k, c). map_option (\<lambda>v. \<lparr>m_key = k, m_value = v, m_ts = version_ts_at s c\<rparr>) (visible s c)) = snap_record s"
    by (simp add: fun_eq_iff snap_record_def)
  moreover have "concat (map (List.map_filter f) xss) = List.map_filter f (concat xss)" for f :: "key \<times> chain \<Rightarrow> mutation option" and xss
    by (induction xss) (simp_all add: List.map_filter_def)
  ultimately show ?thesis by (simp add: snap_records_def)
qed

lemma snap_record_Some:
  "snap_record s (k, c) = Some m \<longleftrightarrow> m_key m = k \<and> alive (as_of s (versions c)) = Some (version_of m)"
proof (cases "alive (as_of s (versions c))")
  case None
  then show ?thesis by (simp add: snap_record_def visible_alive)
next
  case (Some v)
  then have "as_of s (versions c) = Some v" by (auto simp: alive_def split: option.splits if_splits)
  then show ?thesis
    using Some by (cases m; cases v) (auto simp: snap_record_def visible_alive version_ts_at_def version_of_def)
qed

lemma set_snap_records:
  "shards_wf sh \<Longrightarrow> m \<in> set (snap_records sh s) \<longleftrightarrow> version_at sh (m_key m) s = Some (version_of m)"
proof -
  assume wf: "shards_wf sh"
  have "m \<in> set (snap_records sh s) \<longleftrightarrow> (\<exists>kc\<in>set (concat sh). snap_record s kc = Some m)"
    by (auto simp: snap_records_eq List.map_filter_def image_iff simp del: set_concat) force
  also have "\<dots> \<longleftrightarrow> (\<exists>k c. (k, c) \<in> set (concat sh) \<and> snap_record s (k, c) = Some m)"
    by (simp add: Bex_def del: set_concat)
  also have "\<dots> \<longleftrightarrow> version_at sh (m_key m) s = Some (version_of m)"
    unfolding concat_lookup [OF wf] snap_record_Some by (auto simp: version_at_def split: option.split)
  finally show ?thesis .
qed

lemma distinct_map_filter_option:
  "distinct xs \<Longrightarrow> (\<And>x y z. f x = Some z \<Longrightarrow> f y = Some z \<Longrightarrow> x \<in> set xs \<Longrightarrow> y \<in> set xs \<Longrightarrow> x = y) \<Longrightarrow> distinct (List.map_filter f xs)"
proof (induction xs)
  case (Cons x xs)
  have "distinct (List.map_filter f xs)" using Cons.prems by (intro Cons.IH) auto
  moreover have "z \<notin> set (List.map_filter f xs)" if "f x = Some z" for z
  proof
    assume "z \<in> set (List.map_filter f xs)"
    then obtain y where "y \<in> set xs" "f y = Some z" by (auto simp: List.map_filter_def)
    then have "x = y" using that Cons.prems(2) [of x z y] by simp
    then show False using Cons.prems(1) \<open>y \<in> set xs\<close> by simp
  qed
  ultimately show ?case by (simp add: List.map_filter_simps split: option.split)
qed (simp add: List.map_filter_simps)

lemma distinct_snap_records:
  assumes wf: "shards_wf sh"
  shows "distinct (snap_records sh s)"
  unfolding snap_records_eq
proof (rule distinct_map_filter_option)
  have d: "distinct (map fst (concat sh))" using sharded_distinct [OF shards_sharded [OF wf]] by blast
  then show "distinct (concat sh)" by (simp only: distinct_map)
  fix x y z assume "snap_record s x = Some z" "snap_record s y = Some z" "x \<in> set (concat sh)" "y \<in> set (concat sh)"
  then show "x = y"
    using concat_lookup [OF wf] by (cases x; cases y) (simp add: snap_record_Some del: set_concat)
qed

lemma snap_records_count:
  "length (snap_records sh s) = sum_list (map (\<lambda>data. length (filter (\<lambda>(_, c). visible s c \<noteq> None) data)) sh)"
proof -
  have one: "length (List.map_filter (snap_record s) xs) = length (filter (\<lambda>(_, c). visible s c \<noteq> None) xs)" for xs
    by (induction xs) (auto simp: List.map_filter_simps snap_record_def split: option.splits)
  have "length (List.map_filter (snap_record s) (concat xss)) = sum_list (map (\<lambda>data. length (List.map_filter (snap_record s) data)) xss)" for xss
    by (induction xss) (simp_all add: List.map_filter_def)
  then show ?thesis unfolding snap_records_eq by (simp add: one)
qed

lemma write_snapshot_total: "write_snapshot_at sh s = Some (snapshot_file (snap_records sh s))"
  by (simp add: write_snapshot_at_def Let_def snap_records_count)

text \<open>A snapshot at \<open>s\<close> is exact on the keys nothing newer was committed to.\<close>

definition snapshot_of :: "mutation list \<Rightarrow> nat \<Rightarrow> mutation set \<Rightarrow> bool" where
  "snapshot_of h s D \<longleftrightarrow>
     (\<forall>k. (\<forall>m\<in>set h. m_key m = k \<longrightarrow> m_ts m \<le> s) \<longrightarrow>
        (\<forall>x. x \<in> D \<and> m_key x = k \<longleftrightarrow> last_of h k = Some x \<and> live (m_value x) \<noteq> None))"

lemma version_of_eq: "m_key x = m_key m \<Longrightarrow> version_of x = version_of m \<Longrightarrow> x = m"
  by (cases x; cases m) (simp add: version_of_def)

lemma snap_records_hist:
  assumes ok: "core_ok e"
  shows "set (snap_records (co_shards e) s) \<subseteq> set (hist e) \<and> snapshot_of (hist e) s (set (snap_records (co_shards e) s))
    \<and> (\<forall>m\<in>set (snap_records (co_shards e) s). live (m_value m) \<noteq> None)"
proof (intro conjI)
  have wf: "shards_wf (co_shards e)" using ok by (simp add: core_ok_def)
  note mem = set_snap_records [OF wf]
  show "set (snap_records (co_shards e) s) \<subseteq> set (hist e)"
  proof
    fix x assume "x \<in> set (snap_records (co_shards e) s)"
    then obtain c where c: "chain_lookup (co_shards e) (m_key x) = Some c" "alive (as_of s (versions c)) = Some (version_of x)"
      by (auto simp: mem version_at_def split: option.splits)
    then have "as_of s (versions c) = Some (version_of x)" by (auto simp: alive_def split: option.splits if_splits)
    then have v: "version_of x \<in> set (versions c)" using as_of_in by blast
    obtain h1 h2 where h: "key_hist (hist e) (m_key x) = h1 @ h2" "chain_tracks c h2" "h2 \<noteq> []"
      using core_ok_tracks [OF ok, of "m_key x"] c(1) by (auto elim: key_tracksE)
    then have "set (versions c) \<subseteq> set h2" using subseq_set by (auto simp: chain_tracks_def)
    then have "version_of x \<in> set (key_hist (hist e) (m_key x))" using v h(1) by auto
    then obtain m where m: "m \<in> set (hist e)" "m_key m = m_key x" "version_of x = version_of m"
      by (auto simp: set_key_hist)
    then show "x \<in> set (hist e)" using version_of_eq [of x m] by simp
  qed
  show "\<forall>m\<in>set (snap_records (co_shards e) s). live (m_value m) \<noteq> None"
    by (auto simp: mem version_at_def alive_def split: option.splits if_splits)
  show "snapshot_of (hist e) s (set (snap_records (co_shards e) s))"
    unfolding snapshot_of_def
  proof (intro allI impI)
    fix k x assume le: "\<forall>m\<in>set (hist e). m_key m = k \<longrightarrow> m_ts m \<le> s"
    then have le': "\<forall>v\<in>set (key_hist (hist e) k). v_ts v \<le> s" by (auto simp: set_key_hist)
    have t: "version_at (co_shards e) k s = alive (map_option version_of (last_of (hist e) k))"
      using version_at_latest [OF ok le'] as_of_all [OF le'] by (simp add: true_version_def last_of_def key_hist_def last_map)
    have "x \<in> set (snap_records (co_shards e) s) \<and> m_key x = k \<longleftrightarrow>
        m_key x = k \<and> alive (map_option version_of (last_of (hist e) k)) = Some (version_of x)"
      using t by (auto simp: mem)
    also have "\<dots> \<longleftrightarrow> last_of (hist e) k = Some x \<and> live (m_value x) \<noteq> None"
    proof (cases "last_of (hist e) k")
      case (Some m)
      then have "m_key m = k" by (simp add: last_of_Some)
      then show ?thesis using Some version_of_eq [of x m] by (auto simp: alive_def)
    qed (simp add: alive_def)
    finally show "x \<in> set (snap_records (co_shards e) s) \<and> m_key x = k \<longleftrightarrow> last_of (hist e) k = Some x \<and> live (m_value x) \<noteq> None" .
  qed
qed

section \<open>The invariant\<close>

definition phase_ok :: "mutation list \<Rightarrow> ckpt_phase \<Rightarrow> mutation list option \<Rightarrow> mutation set \<Rightarrow> bool" where
  "phase_ok h ph S L \<longleftrightarrow>
     (case ph of
        Idle \<Rightarrow> True
      | Rotated s \<Rightarrow> L = {m \<in> set h. s < m_ts m}
      | Written s \<Rightarrow> L = {m \<in> set h. s < m_ts m} \<and> (\<exists>ms. S = Some ms \<and> snapshot_of h s (set ms)))"

definition phase_le :: "ckpt_phase \<Rightarrow> nat \<Rightarrow> bool" where
  "phase_le ph v \<longleftrightarrow> (case ph of Idle \<Rightarrow> True | Rotated s \<Rightarrow> s \<le> v | Written s \<Rightarrow> s \<le> v)"

definition commits_in :: "mutation list \<Rightarrow> mutation list list \<Rightarrow> bool" where
  "commits_in h css \<longleftrightarrow> payloads_ok (map commit_frame css) \<and> (\<forall>ms\<in>set css. length ms \<le> length h)"

lemma commits_in_append: "commits_in h (C @ L) \<longleftrightarrow> commits_in h C \<and> commits_in h L"
  by (auto simp: commits_in_def payloads_ok_def)

definition disk_inv ::
    "engine \<Rightarrow> ckpt_phase \<Rightarrow> mutation list option \<Rightarrow> mutation list list option \<Rightarrow> mutation list list \<Rightarrow> bool" where
  "disk_inv e ph S C L \<longleftrightarrow>
     snap_file e = map_option snapshot_file S \<and> rel_option holds_commits (ckpt_file e) C
     \<and> (\<forall>css. C = Some css \<longrightarrow> commits_in (hist e) css) \<and> commits_in (hist e) L \<and> wal_holds (co_wal e) (map commit_frame L)
     \<and> (\<forall>ms. S = Some ms \<longrightarrow> distinct ms \<and> (\<forall>m\<in>set ms. live (m_value m) \<noteq> None))
     \<and> covers (hist e) (set (recs S C L))
     \<and> (\<forall>m\<in>set (hist e). m_ts m \<le> last_appended e) \<and> last_appended e \<le> visible_ts e
     \<and> phase_ok (hist e) ph S (set (concat L)) \<and> phase_le ph (visible_ts e)"

definition store_inv :: "store_state \<Rightarrow> bool" where
  "store_inv ep \<longleftrightarrow>
     (case ep of (e, pl, ph) \<Rightarrow> engine_ok e \<and> sync_writes e \<and> (pl = AtSegment \<longrightarrow> ckpt_file e = None \<and> ph = Idle)
        \<and> (\<not> poisoned (co_wal e) \<longrightarrow> (\<exists>S C L. disk_inv e ph S C L)))"

lemma set_recs: "set (recs S C L) =
   (case S of None \<Rightarrow> {} | Some ms \<Rightarrow> set ms) \<union> (case C of None \<Rightarrow> {} | Some css \<Rightarrow> set (concat css)) \<union> set (concat L)"
  by (auto simp: recs_def split: option.splits)

lemma disk_inv_cong:
  assumes "disk_inv e ph S C L" and "snap_file e' = snap_file e" and "ckpt_file e' = ckpt_file e"
    and "co_wal e' = co_wal e" and "hist e' = hist e" and "last_appended e' = last_appended e"
    and "visible_ts e' = visible_ts e"
  shows "disk_inv e' ph S C L"
  using assms by (simp add: disk_inv_def)

lemma core_ok_ordered: "core_ok e \<Longrightarrow> ordered (hist e)"
  by (simp add: core_ok_def ordered_def key_hist_def comp_def)

lemma pin_files [simp]:
  "snap_file (pin s e) = snap_file e" "ckpt_file (pin s e) = ckpt_file e" "co_wal (pin s e) = co_wal e"
  "last_appended (pin s e) = last_appended e" "hist (pin s e) = hist e"
  "snap_file (unpin s e) = snap_file e" "ckpt_file (unpin s e) = ckpt_file e" "co_wal (unpin s e) = co_wal e"
  "last_appended (unpin s e) = last_appended e" "hist (unpin s e) = hist e"
  by (simp_all add: pin_def unpin_def hist_def split: option.split)

lemma engine_ok_files:
  assumes "engine_ok e" and "co_shards e' = co_shards e" and "active_snaps e' = active_snaps e"
    and "kv_live e' = kv_live e" and "graveyard e' = graveyard e" and "events e' = events e"
    and "gc_horizon e' = gc_horizon e" and "visible_ts e' = visible_ts e" and "clock e' = clock e"
    and "write_queue e' = write_queue e" and "sync_writes e' = sync_writes e"
  shows "engine_ok e'"
  using assms core_ok_cong [of e e'] by (simp add: engine_ok_def)

lemma engine_ok_pin:
  "engine_ok e \<Longrightarrow> \<forall>m\<in>set (hist e). m_ts m \<le> s \<Longrightarrow> s \<le> visible_ts e \<Longrightarrow> engine_ok (pin s e)"
  using pin_ok_at [of e s] by (simp add: engine_ok_def)

lemma engine_ok_unpin: "engine_ok e \<Longrightarrow> engine_ok (unpin s e)"
  using unpin_ok [of e s] by (simp add: engine_ok_def)

text \<open>A commit.\<close>

lemma flush_round_ckpt:
  assumes nofl: "\<forall>pw\<in>set (write_queue e). pw_flush_all pw = None" and f: "flush_round io e = (e', acks)"
  shows "ckpt_file e' = ckpt_file e"
proof -
  have d: "durable_step io' fs ts x = (x', r) \<Longrightarrow> ckpt_file x' = ckpt_file x" for io' fs ts x x' r
    by (auto simp: durable_step_def split: if_splits prod.splits sum.splits)
  have "ckpt_file (fst (flush_round io e)) = ckpt_file e"
    by (simp add: flush_round_def flush_batch_def Let_def wipes_empty [THEN iffD2, OF nofl] wipe_step_def publish_def
        commit_step_def apply_to_engine_def split: prod.split) (auto dest!: d)
  then show ?thesis using f by simp
qed

lemma phase_ok_commit:
  assumes p: "phase_ok h ph S D" and le: "phase_le ph v" and new: "\<forall>m\<in>set ms. v < m_ts m"
  shows "phase_ok (h @ ms) ph S (D \<union> set ms)"
proof -
  have L: "{m \<in> set h. s < m_ts m} \<union> set ms = {m \<in> set (h @ ms). s < m_ts m}" if "s \<le> v" for s
    using new that by auto
  have snap: "snapshot_of (h @ ms) s X" if "snapshot_of h s X" "s \<le> v" for s X
    unfolding snapshot_of_def
  proof (intro allI impI)
    fix k x assume le: "\<forall>m\<in>set (h @ ms). m_key m = k \<longrightarrow> m_ts m \<le> s"
    have "m_key m \<noteq> k" if m: "m \<in> set ms" for m
    proof
      assume "m_key m = k"
      then have "m_ts m \<le> s" using le m by simp
      moreover have "v < m_ts m" using new m by blast
      ultimately show False using \<open>s \<le> v\<close> by simp
    qed
    then have "last_of ms k = None" by (simp add: last_of_None)
    then have "last_of (h @ ms) k = last_of h k" by (simp add: last_of_append)
    then show "x \<in> X \<and> m_key x = k \<longleftrightarrow> last_of (h @ ms) k = Some x \<and> live (m_value x) \<noteq> None"
      using that(1) le by (simp add: snapshot_of_def)
  qed
  show ?thesis using p le L snap by (cases ph) (auto simp: phase_ok_def phase_le_def)
qed

lemma round_inv:
  assumes inv: "store_inv (e, pl, ph)" and nofl: "\<forall>pw\<in>set (write_queue e). pw_flush_all pw = None"
    and f: "flush_round io e = (e', acks)"
  shows "store_inv (e', pl, ph)"
proof -
  have ok: "engine_ok e" and sy: "sync_writes e" using inv by (auto simp: store_inv_def)
  have ok': "engine_ok e'" and vis: "visible_ts e \<le> visible_ts e'" using flush_round_ok [OF ok f] by auto
  have sy': "sync_writes e'" using sync_writes_flush [OF f [unfolded flush_round_def]] sy by simp
  have "\<exists>S C L. disk_inv e' ph S C L" if np: "\<not> poisoned (co_wal e')"
  proof -
    have np0: "\<not> poisoned (co_wal e)"
    proof
      assume p: "poisoned (co_wal e)"
      show False
        using np p f by (auto simp: flush_round_def flush_batch_def Let_def wipes_empty [THEN iffD2, OF nofl] wipe_step_def
            durable_step_def poisoned_stays publish_def commit_step_def apply_to_engine_def split: prod.splits if_splits)
    qed
    then obtain S C L where d: "disk_inv e ph S C L" using inv by (auto simp: store_inv_def)
    then have w: "wal_holds (co_wal e) (map commit_frame L)" and la: "last_appended e \<le> visible_ts e"
      and ple: "phase_le ph (visible_ts e)" by (auto simp: disk_inv_def)
    note r = flush_round_log [OF ok nofl f w np]
    then obtain ms where ms: "hist e' = hist e @ concat ms" "wal_holds (co_wal e') (map commit_frame (L @ ms))"
      "\<forall>m\<in>set (concat ms). visible_ts e < m_ts m \<and> m_ts m \<le> last_appended e'" by blast
    have rs: "set (recs S C (L @ ms)) = set (recs S C L) \<union> set (concat ms)" by (auto simp: set_recs)
    have "covers (hist e') (set (recs S C (L @ ms)))"
      unfolding ms(1) rs by (rule covers_append) (use d in \<open>simp add: disk_inv_def\<close>)
    moreover have "phase_ok (hist e') ph S (set (concat (L @ ms)))"
      using phase_ok_commit [of "hist e" ph S "set (concat L)" "visible_ts e" "concat ms"] d ms(3) ple
      by (simp add: disk_inv_def ms(1))
    moreover have "\<forall>m\<in>set (hist e'). m_ts m \<le> last_appended e'"
      using d ms(1,3) r by (fastforce simp: disk_inv_def)
    moreover have "phase_le ph (visible_ts e')" using ple vis by (cases ph) (auto simp: phase_le_def)
    moreover have "commits_in (hist e') css" if "commits_in (hist e) css" for css
      using that ms(1) by (fastforce simp: commits_in_def)
    moreover have "commits_in (hist e') ms"
    proof -
      have "length x \<le> length (concat ms)" if "x \<in> set ms" for x
        using that by (induction ms) auto
      moreover have "payloads_ok (map commit_frame ms)" using ms(2) by (simp add: wal_holds_def payloads_ok_def)
      ultimately show ?thesis using ms(1) by (fastforce simp: commits_in_def)
    qed
    ultimately have "disk_inv e' ph S C (L @ ms)"
      using d r la ms(2) by (simp add: disk_inv_def commits_in_append)
    then show ?thesis by blast
  qed
  moreover have "ckpt_file e' = ckpt_file e" by (rule flush_round_ckpt [OF nofl f])
  ultimately show ?thesis using ok' sy' inv by (simp add: store_inv_def)
qed

text \<open>Rotating.\<close>

lemma sync_unpoisoned: "sync b w = (w', Inr u) \<Longrightarrow> w' = w \<and> \<not> poisoned w"
  by (auto simp: sync_def split: if_splits)

lemma sync_fails: "sync b w = (w', Inl err) \<Longrightarrow> poisoned w'"
  by (auto simp: sync_def split: if_splits)

lemma commit_log_append: "commit_log (C @ L) = commit_log C @ commit_log L"
  by (simp add: commit_log_def log_of_def)

lemma holds_commits_prefix:
  assumes "payloads_ok (map commit_frame L)"
  shows "\<exists>L1. set L1 \<subseteq> set L \<and> holds_commits (commit_log css @ take n (commit_log L)) (css @ L1)"
proof -
  let ?ps = "map commit_frame L"
  obtain k m where k: "take n (log_of ?ps) = log_of (take k ?ps) @ (if k < length ?ps then take m (frame (?ps ! k)) else [])"
    and m: "k < length ?ps \<longrightarrow> m < length (frame (?ps ! k))"
    using log_prefix by blast
  have t: "take k ?ps = map commit_frame (take k L)" by (simp add: take_map)
  have "holds_commits (commit_log css @ take n (commit_log L)) (css @ take k L)"
  proof (cases "k < length ?ps")
    case True
    moreover have "length (?ps ! k) \<le> MAX_FRAME" by (rule payloads_ok_nth [OF assms True])
    ultimately show ?thesis
      using m unfolding holds_commits_def commit_log_append commit_log_def k t
      by (intro exI [of _ "?ps ! k"] exI [of _ m]) (simp del: length_frame)
  next
    case False
    then show ?thesis
      using k t holds_commits_log [of "css @ take k L"] by (simp add: commit_log_append) (simp add: commit_log_def)
  qed
  then show ?thesis using set_take_subset [of k L] by blast
qed

lemma ckpt_rotate_fields:
  "ckpt_rotate io pl e = (e', pl', r) \<Longrightarrow>
     co_shards e' = co_shards e \<and> active_snaps e' = active_snaps e \<and> kv_live e' = kv_live e \<and> graveyard e' = graveyard e
     \<and> events e' = events e \<and> gc_horizon e' = gc_horizon e \<and> visible_ts e' = visible_ts e \<and> clock e' = clock e
     \<and> write_queue e' = write_queue e \<and> sync_writes e' = sync_writes e \<and> snap_file e' = snap_file e
     \<and> last_appended e' = last_appended e \<and> (\<forall>s. r = Inr s \<longrightarrow> s = last_appended e \<and> \<not> poisoned (co_wal e))"
  by (auto simp: ckpt_rotate_def Let_def split: prod.splits sum.splits option.splits if_splits fold_outcome.splits
      dest!: sync_unpoisoned)

lemma rotate_inv:
  assumes inv: "store_inv (e, pl, Idle)" and cl: "segment_clean e" and r: "ckpt_rotate io pl e = (e', pl', res)"
  shows "engine_ok e' \<and> sync_writes e' \<and> (pl' = AtSegment \<longrightarrow> ckpt_file e' = None \<and> (\<exists>x. res = Inl x)) \<and> (\<not> poisoned (co_wal e') \<longrightarrow>
     (\<exists>S C L. disk_inv e' (case res of Inl _ \<Rightarrow> Idle | Inr s \<Rightarrow> Rotated s) S C L))"
proof -
  note f = ckpt_rotate_fields [OF r]
  have h: "hist e' = hist e" using f by (simp add: hist_def)
  have ok: "engine_ok e'" by (rule engine_ok_files [of e]) (use inv f in \<open>simp_all add: store_inv_def\<close>)
  have "\<exists>S C L. disk_inv e' (case res of Inl _ \<Rightarrow> Idle | Inr s \<Rightarrow> Rotated s) S C L" if np: "\<not> poisoned (co_wal e')"
  proof -
    obtain w y where sy: "sync (ck_sync io) (co_wal e) = (w, y)" by fastforce
    have y: "y = Inr () \<and> w = co_wal e \<and> \<not> poisoned (co_wal e)"
    proof (cases y)
      case (Inl err)
      then have "co_wal e' = w" using r sy by (auto simp: ckpt_rotate_def)
      then show ?thesis using sync_fails sy Inl np by simp
    next
      case (Inr u)
      then show ?thesis using sync_unpoisoned sy by simp
    qed
    then obtain S C L where d: "disk_inv e Idle S C L" using inv by (auto simp: store_inv_def)
    then have w: "wal_holds (co_wal e) (map commit_frame L)" by (simp add: disk_inv_def)
    then have lf: "log_file (co_wal e) = commit_log L" and lp: "commits_in (hist e) L"
      using y d by (auto simp: wal_holds_def commit_log_def disk_inv_def)
    have base: "disk_inv e' (case res of Inl _ \<Rightarrow> Idle | Inr s \<Rightarrow> Rotated s) S C' L'"
      if "rel_option holds_commits (ckpt_file e') C'" "\<forall>css. C' = Some css \<longrightarrow> commits_in (hist e) css" "commits_in (hist e) L'"
        "wal_holds (co_wal e') (map commit_frame L')" "set (recs S C' L') = set (recs S C L)"
        "\<forall>s. res = Inr s \<longrightarrow> L' = []" for C' L'
    proof -
      have "covers (hist e') (set (recs S C' L'))" using d that(5) h by (simp add: disk_inv_def)
      moreover have "phase_ok (hist e') (case res of Inl _ \<Rightarrow> Idle | Inr s \<Rightarrow> Rotated s) S (set (concat L'))"
        using that(6) f d h by (cases res) (auto simp: phase_ok_def disk_inv_def)
      moreover have "phase_le (case res of Inl _ \<Rightarrow> Idle | Inr s \<Rightarrow> Rotated s) (visible_ts e')"
        using f d by (cases res) (auto simp: phase_le_def disk_inv_def)
      ultimately show ?thesis using that(1-4) d f h by (simp add: disk_inv_def)
    qed
    have same: "disk_inv e' (case res of Inl _ \<Rightarrow> Idle | Inr s \<Rightarrow> Rotated s) S C L"
      if "ckpt_file e' = ckpt_file e" "co_wal e' = co_wal e" "\<exists>x. res = Inl x"
      using w d that by (intro base) (auto simp: disk_inv_def)
    show ?thesis
    proof (cases "pl = AtSegment")
      case True
      then show ?thesis using r sy y same by (auto simp: ckpt_rotate_def)
    next
      case at: False
      show ?thesis
      proof (cases "ckpt_file e")
        case None
        then have C: "C = None" using d by (auto simp: disk_inv_def)
        show ?thesis
        proof (cases "ck_rename io \<and> ck_open io")
          case True
          then have "ckpt_file e' = Some (commit_log L)" "co_wal e' = wal_open None"
            using r sy y None lf at by (auto simp: ckpt_rotate_def)
          then have "disk_inv e' (case res of Inl _ \<Rightarrow> Idle | Inr s \<Rightarrow> Rotated s) S (Some L) []"
            using wal_open_new lp C by (intro base) (auto simp: set_recs commits_in_def payloads_ok_def holds_commits_log)
          then show ?thesis by blast
        next
          case False
          then show ?thesis using r sy y None same at by (auto simp: ckpt_rotate_def split: if_splits)
        qed
      next
        case (Some seg)
        then obtain css where C: "C = Some css" "holds_commits seg css" "commits_in (hist e) css"
          using d by (auto simp: disk_inv_def option_rel_Some1)
        have pc: "payloads_ok (map commit_frame css)" using C(3) by (simp add: commits_in_def)
        then have seg: "seg = commit_log css" using holds_commits_replay [OF C(2)] cl Some by (auto simp: segment_clean_def)
        have cL: "commits_in (hist e) (css @ L)" using C(3) lp by (simp add: commits_in_append)
        show ?thesis
        proof (cases "ck_fold io")
          case (FoldErr n)
          then have e': "ckpt_file e' = Some (seg @ take n (commit_log L))" "co_wal e' = co_wal e" "\<exists>x. res = Inl x"
            using r sy y Some at lf by (auto simp: ckpt_rotate_def)
          obtain L1 where L1: "set L1 \<subseteq> set L" "holds_commits (seg @ take n (commit_log L)) (css @ L1)"
            using holds_commits_prefix [of L css n] lp seg by (auto simp: commits_in_def)
          have "commits_in (hist e) (css @ L1)" using C(3) lp L1(1) by (auto simp: commits_in_def payloads_ok_def list_all_iff)
          then have "disk_inv e' (case res of Inl _ \<Rightarrow> Idle | Inr s \<Rightarrow> Rotated s) S (Some (css @ L1)) L"
            using e' L1 w lp C(1) by (intro base) (auto simp: set_recs)
          then show ?thesis by blast
        next
          case FoldOk
          obtain w2 t where t: "wal_truncate (ck_set_len io) (ck_trunc_sync io) (co_wal e) = (w2, t)" by fastforce
          have e': "ckpt_file e' = Some (commit_log (css @ L))" "co_wal e' = w2"
            "res = (case t of Inl err \<Rightarrow> Inl (WalFail err) | Inr _ \<Rightarrow> Inr (last_appended e))"
            using r sy y Some FoldOk t seg lf at by (auto simp: ckpt_rotate_def commit_log_append Let_def split: sum.splits)
          show ?thesis
          proof (cases t)
            case (Inr u)
            then have "wal_holds w2 []" using truncate_holds [OF w] t by simp
            then have "disk_inv e' (case res of Inl _ \<Rightarrow> Idle | Inr s \<Rightarrow> Rotated s) S (Some (css @ L)) []"
              using e' cL C by (intro base) (auto simp: set_recs commits_in_def payloads_ok_def holds_commits_log)
            then show ?thesis by blast
          next
            case (Inl err)
            have "w2 = co_wal e"
              using t Inl y np e'(2) by (auto simp: wal_truncate_def split: if_splits dest!: sync_fails)
            then have "disk_inv e' (case res of Inl _ \<Rightarrow> Idle | Inr s \<Rightarrow> Rotated s) S (Some (css @ L)) L"
              using e' cL C w Inl lp by (intro base) (auto simp: set_recs holds_commits_log)
            then show ?thesis by blast
          qed
        qed
      qed
    qed
  qed
  moreover have "pl' = AtSegment \<longrightarrow> ckpt_file e' = None \<and> (\<exists>x. res = Inl x)"
    using r inv by (auto simp: ckpt_rotate_def store_inv_def Let_def split: prod.splits sum.splits option.splits if_splits fold_outcome.splits)
  ultimately show ?thesis using ok f inv by (simp add: store_inv_def)
qed

text \<open>Writing the snapshot and removing the segment.\<close>

lemma snap_inv:
  assumes inv: "store_inv (e, pl, Rotated s)" and w: "ckpt_snapshot io s e = (e', res)"
  shows "store_inv (e', pl, case res of Inl _ \<Rightarrow> Idle | Inr _ \<Rightarrow> Written s)"
proof -
  let ?S = "snap_records (co_shards e) s"
  have e': "e' = (if ck_write io then e\<lparr>snap_file := Some (snapshot_file ?S)\<rparr> else e)" "(\<exists>u. res = Inr u) \<longleftrightarrow> ck_write io"
    using w by (auto simp: ckpt_snapshot_def write_snapshot_total split: if_splits)
  have ok: "engine_ok e" using inv by (simp add: store_inv_def)
  have ok': "engine_ok e'" by (rule engine_ok_files [OF ok]) (simp_all add: e')
  have co: "core_ok e" using ok by (simp add: engine_ok_def)
  note o = core_ok_ordered [OF co]
  have "\<exists>S C L. disk_inv e' (case res of Inl _ \<Rightarrow> Idle | Inr _ \<Rightarrow> Written s) S C L" if np: "\<not> poisoned (co_wal e')"
  proof -
    obtain S C L where d: "disk_inv e (Rotated s) S C L" using inv np by (auto simp: store_inv_def e' split: if_splits)
    show ?thesis
    proof (cases "ck_write io")
      case False
      then obtain err where "res = Inl err" "e' = e" using e' by (cases res) auto
      then have "disk_inv e' (case res of Inl _ \<Rightarrow> Idle | Inr _ \<Rightarrow> Written s) S C L"
        using d by (simp add: disk_inv_def phase_ok_def phase_le_def)
      then show ?thesis by blast
    next
      case True
      then obtain u where u: "res = Inr u" using e' by auto
      have h: "hist e' = hist e" by (simp add: e' hist_def)
      have L: "set (concat L) = {m \<in> set (hist e). s < m_ts m}" using d by (simp add: disk_inv_def phase_ok_def)
      note sr = snap_records_hist [OF co, of s]
      have c: "covers (hist e) (set (recs S C L))" using d by (simp add: disk_inv_def)
      have "covers (hist e) (set (recs (Some ?S) C L))"
        unfolding covers_def
      proof (intro conjI allI impI)
        show "set (recs (Some ?S) C L) \<subseteq> set (hist e)" using sr c by (auto simp: covers_def set_recs)
        fix k m assume l: "last_of (hist e) k = Some m"
        show "m \<in> set (recs (Some ?S) C L) \<or> live (m_value m) = None \<and> (\<forall>x\<in>set (recs (Some ?S) C L). m_key x \<noteq> k)"
        proof (cases "s < m_ts m")
          case True
          then have "m \<in> set (concat L)" using L last_of_Some [OF l] by simp
          then show ?thesis by (simp add: recs_def)
        next
          case False
          then have "\<forall>x\<in>set (hist e). m_key x = k \<longrightarrow> m_ts x \<le> s" using last_of_newest [OF o l] by force
          then have S: "x \<in> set ?S \<and> m_key x = k \<longleftrightarrow> x = m \<and> live (m_value m) \<noteq> None" for x
            using sr l by (auto simp: snapshot_of_def)
          show ?thesis
          proof (cases "live (m_value m) = None")
            case dead: True
            have "m \<notin> (case S of None \<Rightarrow> {} | Some ms \<Rightarrow> set ms)"
            proof (cases S)
              case (Some ms)
              then have "\<forall>x\<in>set ms. live (m_value x) \<noteq> None" using d by (simp add: disk_inv_def)
              then have "m \<in> set ms \<Longrightarrow> live (m_value m) \<noteq> None" by (rule bspec)
              then show ?thesis using Some dead by auto
            qed simp
            then show ?thesis using coversD [OF c l] S dead by (auto simp: set_recs)
          next
            case False
            then show ?thesis using S [of m] by (simp add: set_recs)
          qed
        qed
      qed
      then have "disk_inv e' (Written s) (Some ?S) C L"
        using d True h L sr distinct_snap_records [of "co_shards e" s] co
        by (auto simp: disk_inv_def phase_ok_def phase_le_def e' core_ok_def)
      then show ?thesis using u by auto
    qed
  qed
  then show ?thesis using ok' inv by (auto simp: store_inv_def e' split: sum.split)
qed

lemma remove_inv:
  assumes inv: "store_inv (e, pl, Written s)" and r: "ckpt_remove io e = (e', res)"
  shows "store_inv (e', pl, Idle)"
proof -
  have e': "e' = e \<or> e' = e\<lparr>ckpt_file := None\<rparr>" using r by (auto simp: ckpt_remove_def split: if_splits)
  have ok: "engine_ok e" using inv by (simp add: store_inv_def)
  have ok': "engine_ok e'" by (rule engine_ok_files [OF ok]) (use e' in auto)
  have co: "core_ok e" using ok by (simp add: engine_ok_def)
  note o = core_ok_ordered [OF co]
  have h: "hist e' = hist e" using e' by (auto simp: hist_def)
  have "\<exists>S C L. disk_inv e' Idle S C L" if np: "\<not> poisoned (co_wal e')"
  proof -
    have "\<not> poisoned (co_wal e)" using np e' by auto
    then obtain S C L where d: "disk_inv e (Written s) S C L" using inv by (auto simp: store_inv_def)
    then obtain ms where S: "S = Some ms" "snapshot_of (hist e) s (set ms)" and L: "set (concat L) = {m \<in> set (hist e). s < m_ts m}"
      by (auto simp: disk_inv_def phase_ok_def)
    have c: "covers (hist e) (set (recs S C L))" using d by (simp add: disk_inv_def)
    have "covers (hist e) (set (recs S None L))"
      unfolding covers_def
    proof (intro conjI allI impI)
      show "set (recs S None L) \<subseteq> set (hist e)" using c by (auto simp: covers_def set_recs)
      fix k m assume l: "last_of (hist e) k = Some m"
      show "m \<in> set (recs S None L) \<or> live (m_value m) = None \<and> (\<forall>x\<in>set (recs S None L). m_key x \<noteq> k)"
      proof (cases "s < m_ts m")
        case True
        then have "m \<in> set (concat L)" using L last_of_Some [OF l] by simp
        then show ?thesis by (simp add: recs_def)
      next
        case False
        then have le: "\<forall>x\<in>set (hist e). m_key x = k \<longrightarrow> m_ts x \<le> s" using last_of_newest [OF o l] by force
        then have Sx: "x \<in> set ms \<and> m_key x = k \<longleftrightarrow> x = m \<and> live (m_value m) \<noteq> None" for x
          using S l by (auto simp: snapshot_of_def)
        have Lx: "m_key x \<noteq> k" if "x \<in> set (concat L)" for x
        proof
          assume "m_key x = k"
          moreover have "x \<in> set (hist e)" "s < m_ts x" using that unfolding L by auto
          ultimately show False using le by fastforce
        qed
        show ?thesis
        proof (cases "live (m_value m) = None")
          case True
          then show ?thesis using Sx Lx S by (auto simp: set_recs)
        next
          case False
          then show ?thesis using Sx [of m] S by (simp add: set_recs)
        qed
      qed
    qed
    then have "disk_inv e' Idle S (if e' = e then C else None) L"
      using d e' h c by (auto simp: disk_inv_def phase_ok_def phase_le_def)
    then show ?thesis by blast
  qed
  then show ?thesis using ok' inv e' by (auto simp: store_inv_def)
qed

text \<open>Every step keeps it.\<close>

lemma store_inv_pin:
  assumes "store_inv (e, pl, ph)" and "\<forall>m\<in>set (hist e). m_ts m \<le> s" and "s \<le> visible_ts e"
  shows "store_inv (pin s e, pl, ph)"
  using assms engine_ok_pin [of e s] disk_inv_cong [of e ph _ _ _ "pin s e"] by (auto simp: store_inv_def) blast+

lemma store_inv_unpin: "store_inv (e, pl, ph) \<Longrightarrow> store_inv (unpin s e, pl, ph)"
  using engine_ok_unpin [of e s] disk_inv_cong [of e ph _ _ _ "unpin s e"] by (auto simp: store_inv_def) blast+

lemma store_inv_fresh: "store_inv (fresh_engine True, AtLog, Idle)"
proof -
  have "disk_inv (fresh_engine True) Idle None None []"
    using wal_open_new
    by (simp add: disk_inv_def fresh_engine_def hist_def covers_def last_of_def of_key_def recs_def phase_ok_def phase_le_def
        commits_in_def payloads_ok_def)
  then show ?thesis using fresh_ok [of True] by (auto simp: store_inv_def fresh_engine_def)
qed

lemma store_step_inv: "store_step ep ep' \<Longrightarrow> store_inv ep \<Longrightarrow> store_inv ep'"
proof (induction rule: store_step.induct)
  case (submit writes op e pl ph reads incr)
  then have ok: "engine_ok e" "sync_writes e" by (auto simp: store_inv_def)
  then have "engine_ok (submit_durable writes reads incr op e)"
    using engine_step_ok [OF engine_step.durable [OF ok(2) submit(1)] ok(1)] by blast
  then show ?case
    using submit(2) disk_inv_cong [of e ph _ _ _ "submit_durable writes reads incr op e"]
    by (auto simp: store_inv_def submit_durable_eq hist_def) blast+
next
  case (round e pl ph io)
  then show ?case using round_inv [of e pl ph io] by (metis prod.collapse)
next
  case (pin e pl ph)
  then show ?case
    by (intro store_inv_pin) (auto simp: snapshot_def store_inv_def engine_ok_def core_ok_def)
next
  case (unpin e pl ph s)
  then show ?case by (rule store_inv_unpin)
next
  case (rotate e io pl e' pl' s)
  note r = rotate_inv [OF rotate(3,1,2)] and f = ckpt_rotate_fields [OF rotate(2)]
  have np: "\<not> poisoned (co_wal e)" and s: "s = last_appended e" using f by auto
  then obtain S C L where "disk_inv e Idle S C L" using rotate(3) by (auto simp: store_inv_def)
  then have "\<forall>m\<in>set (hist e). m_ts m \<le> s" "s \<le> visible_ts e" using s by (auto simp: disk_inv_def)
  moreover have "hist e' = hist e" using f by (simp add: hist_def)
  ultimately show ?case using r f by (intro store_inv_pin) (auto simp: store_inv_def)
next
  case (rotate_fails e io pl e' pl' err)
  then show ?case using rotate_inv [of e pl io e' pl' "Inl err"] by (auto simp: store_inv_def)
next
  case (snap io s e e' u pl)
  then show ?case using snap_inv [of e pl s io e' "Inr u"] by simp
next
  case (snap_fails io s e e' err pl)
  then show ?case using snap_inv [of e pl s io e' "Inl err"] store_inv_unpin by simp
next
  case (remove io e e' r pl s)
  then show ?case using remove_inv [of e pl s io e' r] store_inv_unpin by simp
qed

lemma store_reachable: "store_step\<^sup>*\<^sup>* (fresh_engine True, AtLog, Idle) ep \<Longrightarrow> store_inv ep"
proof (induction rule: rtranclp_induct)
  case base
  show ?case by (rule store_inv_fresh)
next
  case (step y z)
  then show ?case by (blast intro: store_step_inv)
qed

lemma disk_inv_opens:
  assumes d: "disk_inv e ph S C L" and ok: "engine_ok e" and np: "\<not> poisoned (co_wal e)"
    and pl: "pl = AtSegment \<longrightarrow> ckpt_file e = None"
    and enc: "\<forall>m\<in>set (hist e). record_ok m" and n: "length (hist e) \<le> u64_max"
  shows "\<exists>e'. open_engine durable True True (disk_of pl e) = Inr e' \<and> (\<forall>k. get e' k = get e k)
    \<and> kv_count e' = card {k. starts_with k kv_prefix \<and> get e k \<noteq> None}
    \<and> visible_ts e' \<le> visible_ts e \<and> disk_of AtLog e' = cut_disk (disk_of pl e)"
proof -
  have co: "core_ok e" using ok by (simp add: engine_ok_def)
  have c: "covers (hist e) (set (recs S C L))" and w: "wal_holds (co_wal e) (map commit_frame L)"
    using d by (auto simp: disk_inv_def)
  have sub: "set (recs S C L) \<subseteq> set (hist e)" using c by (simp add: covers_def)
  have le: "\<forall>m\<in>set (hist e). m_ts m \<le> visible_ts e" using co by (simp add: core_ok_def)
  have okc: "commits_ok css" if "commits_in (hist e) css" "set (concat css) \<subseteq> set (hist e)" for css
  proof -
    have "list_all record_ok ms \<and> length ms \<le> u64_max" if "ms \<in> set css" for ms
    proof -
      have "set ms \<subseteq> set (hist e)" using that \<open>set (concat css) \<subseteq> set (hist e)\<close> by auto
      moreover have "length ms \<le> length (hist e)" using that \<open>commits_in (hist e) css\<close> by (simp add: commits_in_def)
      ultimately show ?thesis using enc n by (auto simp: list_all_iff)
    qed
    then show ?thesis using that(1) by (simp add: commits_ok_def commits_in_def)
  qed
  have sk: "snap_ok S"
  proof (cases S)
    case (Some ms)
    then have s: "set ms \<subseteq> set (hist e)" "distinct ms" using sub d by (auto simp: set_recs disk_inv_def)
    have "length ms \<le> length (hist e)"
      using card_mono [OF _ s(1)] card_length [of "hist e"] distinct_card [OF s(2)] by simp
    then show ?thesis using Some s enc n by (auto simp: snap_ok_def list_all_iff)
  qed (simp add: snap_ok_def)
  have ck: "commits_ok css" if "C = Some css" for css
    using okc [of css] that sub d by (auto simp: set_recs disk_inv_def)
  have lk: "commits_ok L"
    using okc [of L] sub d by (auto simp: set_recs disk_inv_def)
  have lf: "log_file (co_wal e) = commit_log L" using wal_holds_clean [OF w np] by (simp add: commit_log_def)
  define C' where "C' = (if pl = AtLog then C else Some L)"
  define L' where "L' = (if pl = AtLog then L else [])"
  have at: "pl = AtSegment \<and> C = None \<or> pl = AtLog" using pl d by (cases pl) (auto simp: disk_inv_def)
  have rec: "recs S C' L' = recs S C L" using at by (auto simp: recs_def C'_def L'_def)
  have ck': "commits_ok css" if "C' = Some css" for css using that at ck lk by (auto simp: C'_def split: if_splits)
  have lk': "commits_ok L'" using lk by (simp add: L'_def commits_ok_def)
  have ds: "d_snap (disk_of pl e) = map_option snapshot_file S"
    using d by (cases pl) (simp_all add: disk_of_def disk_inv_def)
  have dc: "rel_option holds_commits (d_ckpt (disk_of pl e)) C'"
    using d at by (auto simp: disk_of_def disk_inv_def C'_def lf holds_commits_log)
  have dl: "holds_commits (case d_live (disk_of pl e) of None \<Rightarrow> [] | Some f \<Rightarrow> f) L'"
    using at holds_commits_log [of L'] by (auto simp: disk_of_def L'_def lf commit_log_def)
  obtain e' where e': "open_engine durable True True (disk_of pl e) = Inr e'"
      "\<And>k. get e' k = newest_value (recs S C L) k"
      "kv_count e' = card {k. starts_with k kv_prefix \<and> newest_value (recs S C L) k \<noteq> None}"
      "visible_ts e' = muts_max (recs S C L) 0" "disk_of AtLog e' = cut_disk (disk_of pl e)"
    using open_engine_reads [OF sk ck' lk' ds dc dl, of durable] unfolding rec by blast
  have "newest_value (recs S C L) k = get e k" for k
    using covers_value [OF c core_ok_ordered [OF co]] get_truth [OF co] truth_last_of [OF le] by simp
  moreover have "muts_max (recs S C L) 0 \<le> visible_ts e" by (rule muts_max_le) (use sub le in auto)
  ultimately show ?thesis using e' by auto
qed

section \<open>Claims\<close>

text \<open>
  Claim C17. Nothing committed is lost by a crash. Start with an empty durable store and let
  clients submit, the flusher commit, snapshots open and close and checkpoints run in any
  interleaving, every file operation succeeding or failing (a fold into a leftover segment
  after any number of bytes, the reopening of the log after the rename included), without a
  wipe and without a checkpoint that would fold into a segment a failed fold left torn. Whenever
  the log is not disabled, opening the files of that moment (also between the rotation, the
  snapshot and the removal of the segment) gives an engine with the same value for every key and
  the right key count, and leaves on disk the intact part of every file.
\<close>

theorem checkpoint_crash_safe:
  assumes r: "store_step\<^sup>*\<^sup>* (fresh_engine True, AtLog, Idle) (e, pl, ph)" and np: "\<not> poisoned (co_wal e)"
    and enc: "\<forall>m\<in>set (hist e). record_ok m" and n: "length (hist e) \<le> u64_max"
  shows "\<exists>e'. open_engine durable True True (disk_of pl e) = Inr e' \<and> (\<forall>k. get e' k = get e k)
    \<and> kv_count e' = card {k. starts_with k kv_prefix \<and> get e k \<noteq> None}
    \<and> visible_ts e' \<le> visible_ts e \<and> disk_of AtLog e' = cut_disk (disk_of pl e)"
proof -
  have inv: "store_inv (e, pl, ph)" by (rule store_reachable [OF r])
  then obtain S C L where d: "disk_inv e ph S C L" using np by (auto simp: store_inv_def)
  have "engine_ok e" "pl = AtSegment \<longrightarrow> ckpt_file e = None" using inv by (simp_all add: store_inv_def)
  then show ?thesis by (intro disk_inv_opens [OF d _ np _ enc n])
qed

text \<open>One committed write and a checkpoint of it.\<close>

definition ckpt_fine :: ckpt_io where
  "ckpt_fine = \<lparr>ck_sync = True, ck_fold = FoldOk, ck_set_len = True, ck_trunc_sync = True, ck_rename = True,
     ck_open = True, ck_write = True, ck_remove = True\<rparr>"

abbreviation the_put :: mutation where
  "the_put \<equiv> \<lparr>m_key = [107], m_value = VInt 1, m_ts = Suc 0\<rparr>"

lemma after_put_steps: "store_step\<^sup>*\<^sup>* (fresh_engine True, AtLog, Idle) (after_put, AtLog, Idle)"
proof -
  let ?e = "submit_durable [([107], VInt 1)] [] None None (fresh_engine True)"
  have "store_step (fresh_engine True, AtLog, Idle) (?e, AtLog, Idle)"
    by (rule store_step.submit) (simp add: client_ok_def)
  moreover have "store_step (?e, AtLog, Idle) (after_put, AtLog, Idle)"
    unfolding after_put_def put_round_def
    by (rule store_step.round) (simp add: submit_durable_eq mk_pending_def fresh_engine_def)
  ultimately show ?thesis by (meson converse_rtranclp_into_rtranclp r_into_rtranclp)
qed

lemma after_put_facts:
  "hist after_put = [the_put]" "\<not> poisoned (co_wal after_put)" "record_ok the_put"
  "get after_put [107] = Some (VInt 1)" "write_queue after_put = []" "snap_file after_put = None" "ckpt_file after_put = None"
  "\<exists>ms. concat ms = [the_put] \<and> log_file (co_wal after_put) = commit_log ms \<and> commits_ok ms"
proof -
  show h: "hist after_put = [the_put]" and np: "\<not> poisoned (co_wal after_put)" and "write_queue after_put = []"
    using after_put_idle by (simp_all add: idle_def hist_def)
  show rok: "record_ok the_put" by (simp add: record_ok_def mutation_ok_def mutation_encode_def u32_max_def u64_max_def)
  have "core_ok after_put" using after_put_idle by (simp add: idle_def engine_ok_def)
  from get_truth [OF this, of "[107]"] show "get after_put [107] = Some (VInt 1)"
    using after_put_idle by (simp add: h idle_def truth_def key_hist_def of_key_def version_of_def as_of_def live_def)
  let ?e = "submit_durable [([107], VInt 1)] [] None None (fresh_engine True)"
  obtain acks where f: "flush_round io_fine ?e = (after_put, acks)"
    by (cases "flush_round io_fine ?e") (simp add: after_put_def put_round_def)
  have "engine_step (fresh_engine True) ?e"
    by (rule engine_step.durable) (simp_all add: fresh_engine_def client_ok_def)
  then have ok: "engine_ok ?e" using engine_step_ok fresh_ok by blast
  have nofl: "\<forall>pw\<in>set (write_queue ?e). pw_flush_all pw = None"
    by (simp add: submit_durable_eq mk_pending_def fresh_engine_def)
  have w: "wal_holds (co_wal ?e) (map commit_frame [])" and hn: "hist ?e = []"
    using wal_open_new by (simp_all add: submit_durable_eq fresh_engine_def hist_def)
  note r = flush_round_log [OF ok nofl f w np]
  then show "snap_file after_put = None" "ckpt_file after_put = None"
    by (simp_all add: submit_durable_eq fresh_engine_def)
  obtain ms where ms: "hist after_put = concat ms" "wal_holds (co_wal after_put) (map commit_frame ms)"
    using r hn by auto
  have cm: "concat ms = [the_put]" using ms(1) h by simp
  have "length x \<le> 1 \<and> list_all record_ok x" if "x \<in> set ms" for x
  proof -
    have "length x \<le> length (concat ms)" using that by (induction ms) auto
    moreover have "set x \<subseteq> set (concat ms)" using that by auto
    ultimately show ?thesis using rok unfolding cm by (auto simp: list_all_iff)
  qed
  moreover have "payloads_ok (map commit_frame ms)" using ms(2) by (simp add: wal_holds_def)
  ultimately have "commits_ok ms" by (force simp: commits_ok_def u64_max_def)
  then show "\<exists>ms. concat ms = [the_put] \<and> log_file (co_wal after_put) = commit_log ms \<and> commits_ok ms"
    using ms h wal_holds_clean [OF ms(2) np] by (auto simp: commit_log_def)
qed

lemma after_put_checkpoint:
  "store_step\<^sup>*\<^sup>* (fresh_engine True, AtLog, Idle) (fst (checkpoint io AtLog after_put), fst (snd (checkpoint io AtLog after_put)), Idle)"
proof -
  have "segment_clean after_put" using after_put_facts(7) by (simp add: segment_clean_def)
  from rtranclp_trans [OF after_put_steps checkpoint_steps [OF this]] show ?thesis .
qed

theorem checkpoint_crash_safe_witness:
  "\<exists>e'. open_engine True True True (disk_of AtLog (fst (checkpoint ckpt_fine AtLog after_put))) = Inr e' \<and> get e' [107] = Some (VInt 1)"
proof -
  let ?e = "fst (checkpoint ckpt_fine AtLog after_put)"
  note after_put_checkpoint [of ckpt_fine]
  moreover have "fst (snd (checkpoint ckpt_fine AtLog after_put)) = AtLog"
    using after_put_facts(2,7)
    by (simp add: checkpoint_def ckpt_rotate_def ckpt_snapshot_def ckpt_remove_def write_snapshot_total ckpt_fine_def
        sync_def Let_def)
  ultimately have "store_step\<^sup>*\<^sup>* (fresh_engine True, AtLog, Idle) (?e, AtLog, Idle)" by simp
  moreover have c: "\<not> poisoned (co_wal ?e)" "hist ?e = hist after_put"
    using after_put_facts(2,7)
    by (simp_all add: checkpoint_def ckpt_rotate_def ckpt_snapshot_def ckpt_remove_def write_snapshot_total ckpt_fine_def
        sync_def Let_def wal_open_def hist_def pin_def unpin_def split: option.split)
  moreover have "\<forall>m\<in>set (hist ?e). record_ok m" "length (hist ?e) \<le> u64_max"
    using after_put_facts(1,3) by (simp_all add: c u64_max_def)
  ultimately obtain e' where "open_engine True True True (disk_of AtLog ?e) = Inr e'" "get e' [107] = get ?e [107]"
    using checkpoint_crash_safe by blast
  moreover have "get ?e [107] = get after_put [107]"
    using after_put_facts(2,7)
    by (simp add: checkpoint_def ckpt_rotate_def ckpt_snapshot_def ckpt_remove_def write_snapshot_total ckpt_fine_def
        sync_def Let_def get_def snapshot_def pin_def unpin_def split: option.split)
  ultimately show ?thesis using after_put_facts(4) by simp
qed

end
