(* ===== verification/Wipes.thy ===== *)
theory Wipes
  imports Checkpoint
begin

text \<open>
  FLUSHALL and the files of a checkpoint: what a wipe leaves on disk, and two runs in which the
  disk and the memory of the engine disagree afterwards.
\<close>

section \<open>A round that only wipes\<close>

lemma wipe_round:
  assumes q: "write_queue e = []"
  shows "flush_round io (enqueue_flush_all bak e) =
     (case perform_flush_all io bak (sweep_tombstones (e\<lparr>clock := clock e + 1\<rparr>)) of
        (e', Inr _) \<Rightarrow> (e'\<lparr>events := events e' @ [Flushed], visible_ts := max (visible_ts e') (clock e + 1)\<rparr>, [AckOk None])
      | (e', Inl err) \<Rightarrow> (e'\<lparr>visible_ts := max (visible_ts e') (clock e + 1)\<rparr>, [AckIo err]))"
proof -
  let ?pw = "mk_pending (clock e + 1) [] [] None None (Some bak)"
  have "(enqueue_flush_all bak e)\<lparr>write_queue := []\<rparr> = e\<lparr>clock := clock e + 1\<rparr>"
    using q by (simp add: enqueue_flush_all_eq)
  moreover have "write_queue (enqueue_flush_all bak e) = [?pw]" using q by (simp add: enqueue_flush_all_eq)
  moreover have "pw_flush_all ?pw = Some bak" "pw_ts ?pw = clock e + 1" by (simp_all add: mk_pending_def)
  ultimately show ?thesis
    by (auto simp: flush_round_def flush_batch_def Let_def List.map_filter_simps batch_muts_def durable_step_def
        wipe_step_def publish_def max_ts_def ack_of_def split: prod.split sum.split)
qed

lemma wiped_empty:
  assumes ok: "engine_ok e" and q: "write_queue e = []"
    and f: "flush_round io (enqueue_flush_all bak e) = (e', [AckOk None])"
  shows "get e' k = None \<and> snap_file e' = None \<and> log_file (co_wal e') = [] \<and> ckpt_file e' = ckpt_file e"
proof -
  let ?e1 = "sweep_tombstones (e\<lparr>clock := clock e + 1\<rparr>)"
  obtain e2 r where p: "perform_flush_all io bak ?e1 = (e2, r)" by fastforce
  have r: "r = Inr ()" and e': "e' = e2\<lparr>events := events e2 @ [Flushed], visible_ts := max (visible_ts e2) (clock e + 1)\<rparr>"
    using f wipe_round [OF q] p by (auto split: sum.splits)
  have fld: "snap_file e2 = None" "log_file (co_wal e2) = []" "ckpt_file e2 = ckpt_file e"
    using p r by (auto simp: perform_flush_all_def wal_open_def Let_def split: prod.splits sum.splits if_splits)
  have "engine_step e (enqueue_flush_all bak e)" by (rule engine_step.flush_all)
  then have ok1: "engine_ok (enqueue_flush_all bak e)" using engine_step_ok ok by blast
  then have "core_ok e'" using flush_round_ok [OF ok1 f] by (simp add: engine_ok_def)
  moreover have "hist e' = []" by (simp add: e' hist_def history_append)
  ultimately have "get e' k = None" using get_truth [of e' k] by (simp add: truth_def)
  then show ?thesis using fld by (simp add: e')
qed

section \<open>Claims\<close>

text \<open>
  Claim C21. FLUSHALL can be undone by a restart. A checkpoint that failed while writing its
  snapshot has left the rotated log segment behind; a later FLUSHALL is acknowledged and the
  key is gone, but it only moves the live log and the snapshot away, so opening the directory
  again replays the segment and the wiped key is back.
\<close>

theorem flushall_resurrects:
  "\<exists>e1 e2 e3.
     e1 = fst (checkpoint (ckpt_fine\<lparr>ck_write := False\<rparr>) AtLog after_put)
     \<and> flush_round io_fine (enqueue_flush_all [98] e1) = (e2, [AckOk None]) \<and> get e2 [107] = None
     \<and> open_engine True True True (disk_of AtLog e2) = Inr e3 \<and> get e3 [107] = Some (VInt 1)"
proof -
  define e1 where "e1 = fst (checkpoint (ckpt_fine\<lparr>ck_write := False\<rparr>) AtLog after_put)"
  note ap = after_put_facts
  obtain ms where ms: "concat ms = [the_put]" "log_file (co_wal after_put) = commit_log ms" "commits_ok ms"
    using ap(8) by blast
  have e1: "ckpt_file e1 = Some (commit_log ms)" "co_wal e1 = wal_open None" "write_queue e1 = []" "snap_file e1 = None"
    using ap(2,5-7) ms(2)
    by (simp_all add: e1_def checkpoint_def ckpt_rotate_def ckpt_snapshot_def write_snapshot_total ckpt_fine_def
        sync_def Let_def pin_def unpin_def split: option.split)
  have ok: "engine_ok e1" using store_reachable [OF after_put_checkpoint] by (auto simp: e1_def store_inv_def)
  obtain e2 where f: "flush_round io_fine (enqueue_flush_all [98] e1) = (e2, [AckOk None])"
    unfolding wipe_round [OF e1(3)] using e1(2)
    by (simp add: perform_flush_all_def sync_def wal_open_def Let_def io_fine_def)
  note w = wiped_empty [OF ok e1(3) f]
  have d: "disk_of AtLog e2 = \<lparr>d_snap = None, d_ckpt = Some (commit_log ms), d_live = Some (commit_log [])\<rparr>"
    using w e1 by (simp add: disk_of_def commit_log_def)
  have nil: "commits_ok []" by (simp add: commits_ok_def payloads_ok_def)
  have rc: "recs None (Some ms) [] = [the_put]" by (simp add: recs_def ms(1))
  obtain e3 where "open_engine True True True (disk_of AtLog e2) = Inr e3" "get e3 [107] = newest_value [the_put] [107]"
    using open_engine_reads [of None "Some ms" "[]" "disk_of AtLog e2" True] ms(3) nil rc holds_commits_log by (auto simp: d snap_ok_def)
  moreover have "newest_value [the_put] [107] = Some (VInt 1)"
    by (simp add: newest_value_def newest_def of_key_def newer_def live_def)
  ultimately show ?thesis using f w e1_def by auto
qed

text \<open>
  A FLUSHALL that fails can lose the checkpointed data. After a checkpoint the data is
  in the snapshot file only; when the fresh log cannot be opened the wipe reports an error and
  the engine still serves the key, but the snapshot has been renamed away and is not renamed
  back, so the next start finds nothing.
\<close>

lemma failed_wipe_drops_snapshot:
  "\<exists>e1 e2 e3.
     e1 = fst (checkpoint ckpt_fine AtLog after_put)
     \<and> flush_round (io_fine\<lparr>io_open := False\<rparr>) (enqueue_flush_all [98] e1) = (e2, [AckIo OpenFail])
     \<and> get e2 [107] = Some (VInt 1)
     \<and> open_engine True True True (disk_of AtLog e2) = Inr e3 \<and> get e3 [107] = None"
proof -
  define e1 where "e1 = fst (checkpoint ckpt_fine AtLog after_put)"
  note ap = after_put_facts
  have e1: "ckpt_file e1 = None" "co_wal e1 = wal_open None" "write_queue e1 = []" "snap_file e1 \<noteq> None" "hist e1 = hist after_put"
    using ap(2,5-7)
    by (simp_all add: e1_def checkpoint_def ckpt_rotate_def ckpt_snapshot_def ckpt_remove_def write_snapshot_total ckpt_fine_def
        sync_def Let_def pin_def unpin_def hist_def split: option.split)
  have ok: "engine_ok e1" using store_reachable [OF after_put_checkpoint] by (auto simp: e1_def store_inv_def)
  define e2 where "e2 = fst (flush_round (io_fine\<lparr>io_open := False\<rparr>) (enqueue_flush_all [98] e1))"
  have f: "flush_round (io_fine\<lparr>io_open := False\<rparr>) (enqueue_flush_all [98] e1) = (e2, [AckIo OpenFail])"
    unfolding e2_def wipe_round [OF e1(3)] using e1(2)
    by (simp add: perform_flush_all_def sync_def wal_open_def Let_def io_fine_def)
  have e2: "snap_file e2 = None" "co_wal e2 = wal_open None" "ckpt_file e2 = None" "hist e2 = hist after_put"
    unfolding e2_def wipe_round [OF e1(3)] using e1
    by (simp_all add: perform_flush_all_def sync_def wal_open_def Let_def io_fine_def hist_def)
  have "engine_step e1 (enqueue_flush_all [98] e1)" by (rule engine_step.flush_all)
  then have "engine_ok (enqueue_flush_all [98] e1)" using engine_step_ok ok by blast
  then have co: "core_ok e2" using flush_round_ok [OF _ f] by (simp add: engine_ok_def)
  have "\<forall>m\<in>set (hist e2). m_ts m \<le> visible_ts e2" using co by (simp add: core_ok_def)
  then have g: "get e2 [107] = Some (VInt 1)"
    using get_truth [OF co, of "[107]"] ap(1)
    by (simp add: truth_last_of e2(4)) (simp add: last_of_def of_key_def live_def)
  have d: "disk_of AtLog e2 = \<lparr>d_snap = None, d_ckpt = None, d_live = Some (commit_log [])\<rparr>"
    using e2 by (simp add: disk_of_def commit_log_def wal_open_def Let_def)
  have nil: "commits_ok []" by (simp add: commits_ok_def payloads_ok_def)
  have rc: "recs None None [] = []" by (simp add: recs_def)
  obtain e3 where "open_engine True True True (disk_of AtLog e2) = Inr e3" "get e3 [107] = newest_value [] [107]"
    using open_engine_reads [of None None "[]" "disk_of AtLog e2" True] nil rc holds_commits_log by (auto simp: d snap_ok_def)
  moreover have "newest_value [] [107] = None"
    by (simp add: newest_value_def newest_def of_key_def)
  ultimately show ?thesis using f g e1_def by auto
qed

end
