(* ===== verification/Glob.thy ===== *)
theory Glob
  imports Prelude
begin

text \<open>
  Glob patterns (\<open>glob_match\<close> and \<open>class_match\<close> of \<open>crates/server/src/acl.rs\<close>), which the ACL
  key rules, \<open>KEYS\<close>, \<open>SCAN\<close> and the pattern subscriptions share.  The matcher is the loop of
  the code with its two indices and its one backtrack point; it is proved to return on every
  input and to compute the meaning of the pattern read as a list of tokens.
\<close>

section \<open>The matcher\<close>

function class_loop :: "bytes \<Rightarrow> byte \<Rightarrow> nat \<Rightarrow> bool \<Rightarrow> bool \<Rightarrow> bool \<times> nat" where
  "class_loop pat c j matched first =
     (if j < length pat \<and> (pat ! j \<noteq> 93 \<or> first) then
        if pat ! j = 92 \<and> j + 1 < length pat then
          class_loop pat c (j + 2) (matched \<or> pat ! (j + 1) = c) False
        else if j + 2 < length pat \<and> pat ! (j + 1) = 45 \<and> pat ! (j + 2) \<noteq> 93 then
          let (lo, hi) = (if pat ! j \<le> pat ! (j + 2) then (pat ! j, pat ! (j + 2)) else (pat ! (j + 2), pat ! j))
          in class_loop pat c (j + 3) (matched \<or> (c \<ge> lo \<and> c \<le> hi)) False
        else class_loop pat c (j + 1) (matched \<or> pat ! j = c) False
      else (matched, j))"
  by pat_completeness auto
termination by (relation "measure (\<lambda>(pat, c, j, m, f). length pat - j)") auto

declare class_loop.simps [simp del]

definition class_match :: "bytes \<Rightarrow> nat \<Rightarrow> byte \<Rightarrow> (bool \<times> nat) option" where
  "class_match pat start c =
     (let j = start + 1;
          negate = (j < length pat \<and> pat ! j = 94);
          j = (if negate then j + 1 else j);
          (matched, j) = class_loop pat c j False True
      in if j \<ge> length pat then None else Some (matched \<noteq> negate, j + 1))"

text \<open>What one pass of the loop does at pattern index \<open>p\<close> with subject byte \<open>c\<close>.\<close>

datatype glob_move = Accept | Star nat | Consume nat | Mismatch

function skip_stars :: "bytes \<Rightarrow> nat \<Rightarrow> nat" where
  "skip_stars pat p = (if p < length pat \<and> pat ! p = 42 then skip_stars pat (p + 1) else p)"
  by pat_completeness auto
termination by (relation "measure (\<lambda>(pat, p). length pat - p)") auto

declare skip_stars.simps [simp del]

definition glob_step :: "bytes \<Rightarrow> byte \<Rightarrow> nat \<Rightarrow> glob_move" where
  "glob_step pat c p =
     (if p < length pat then
        if pat ! p = 42 then
          (let q = skip_stars pat p in if q = length pat then Accept else Star q)
        else if pat ! p = 63 then Consume (p + 1)
        else if pat ! p = 91 then
          (case class_match pat p c of
             Some (matched, next) \<Rightarrow> if matched then Consume next else Mismatch
           | None \<Rightarrow> if c = 91 then Consume (p + 1) else Mismatch)
        else if pat ! p = 92 \<and> p + 1 < length pat then
          (if pat ! (p + 1) = c then Consume (p + 2) else Mismatch)
        else if pat ! p = c then Consume (p + 1)
        else Mismatch
      else Mismatch)"

partial_function (option) glob_loop :: "bytes \<Rightarrow> bytes \<Rightarrow> nat \<Rightarrow> nat \<Rightarrow> (nat \<times> nat) option \<Rightarrow> bool option" where
  "glob_loop pat s p i star =
     (if i < length s then
        (case glob_step pat (s ! i) p of
           Accept \<Rightarrow> Some True
         | Star q \<Rightarrow> glob_loop pat s q i (Some (q, i))
         | Consume q \<Rightarrow> glob_loop pat s q (i + 1) star
         | Mismatch \<Rightarrow>
             (case star of
                None \<Rightarrow> Some False
              | Some (sp, si) \<Rightarrow> glob_loop pat s sp (si + 1) (Some (sp, si + 1))))
      else Some (skip_stars pat p = length pat))"

definition glob_match :: "bytes \<Rightarrow> bytes \<Rightarrow> bool option" where
  "glob_match pat s = glob_loop pat s 0 0 None"

section \<open>The meaning of a pattern\<close>

datatype glob_token = AnyString | AnyByte | Lit byte | Class bool "(byte \<times> byte) list"

text \<open>The members of a class up to its closing bracket, and what follows it.\<close>

function class_items :: "bool \<Rightarrow> bytes \<Rightarrow> ((byte \<times> byte) list \<times> bytes) option" where
  "class_items first [] = None"
| "class_items first (a # r) =
     (if a = 93 \<and> \<not> first then Some ([], r)
      else if a = 92 \<and> r \<noteq> [] then map_option (apfst ((#) (hd r, hd r))) (class_items False (tl r))
      else if 2 \<le> length r \<and> r ! 0 = 45 \<and> r ! 1 \<noteq> 93
        then map_option (apfst ((#) (min a (r ! 1), max a (r ! 1)))) (class_items False (drop 2 r))
      else map_option (apfst ((#) (a, a))) (class_items False r))"
  by pat_completeness auto
termination by (relation "measure (\<lambda>(f, xs). length xs)") auto

lemma class_items_shorter: "class_items first xs = Some (items, r) \<Longrightarrow> length r < length xs"
proof (induction first xs arbitrary: items r rule: class_items.induct)
  case (2 first a xs)
  show ?case
    using "2.prems" "2.IH" by (cases xs) (auto split: if_splits simp: less_Suc_eq_le Suc_le_eq; fastforce)+
qed simp

function glob_tokens :: "bytes \<Rightarrow> glob_token list" where
  "glob_tokens [] = []"
| "glob_tokens (a # r) =
     (if a = 42 then AnyString # glob_tokens r
      else if a = 63 then AnyByte # glob_tokens r
      else if a = 91 then
        (let negate = (r \<noteq> [] \<and> hd r = 94)
         in case class_items True (if negate then tl r else r) of
              None \<Rightarrow> Lit 91 # glob_tokens r
            | Some (items, r') \<Rightarrow> Class negate items # glob_tokens r')
      else if a = 92 \<and> r \<noteq> [] then Lit (hd r) # glob_tokens (tl r)
      else Lit a # glob_tokens r)"
  by pat_completeness auto
termination
proof (relation "measure length")
  fix a :: byte and r n p items r'
  assume "n = (r \<noteq> [] \<and> hd r = 94)" and "class_items True (if n then tl r else r) = Some p" and "(items, r') = p"
  then show "(r', a # r) \<in> measure length"
    using class_items_shorter [of True "if n then tl r else r" items r'] by (auto split: if_splits)
qed auto

fun token_ok :: "glob_token \<Rightarrow> byte \<Rightarrow> bool" where
  "token_ok AnyString c = False"
| "token_ok AnyByte c = True"
| "token_ok (Lit b) c = (b = c)"
| "token_ok (Class negate items) c = (list_ex (\<lambda>(lo, hi). lo \<le> c \<and> c \<le> hi) items \<noteq> negate)"

fun tokens_match :: "glob_token list \<Rightarrow> bytes \<Rightarrow> bool" where
  "tokens_match [] s = (s = [])"
| "tokens_match (AnyString # ts) [] = tokens_match ts []"
| "tokens_match (AnyString # ts) (c # s) = (tokens_match ts (c # s) \<or> tokens_match (AnyString # ts) s)"
| "tokens_match (t # ts) [] = False"
| "tokens_match (t # ts) (c # s) = (token_ok t c \<and> tokens_match ts s)"

definition glob_spec :: "bytes \<Rightarrow> bytes \<Rightarrow> bool" where
  "glob_spec pat s = tokens_match (glob_tokens pat) s"

section \<open>The matcher computes the meaning\<close>

lemma drop_nth: "j < length xs \<Longrightarrow> drop j xs = xs ! j # drop (Suc j) xs"
  by (rule Cons_nth_drop_Suc [symmetric])

text \<open>The class scanner visits the members \<open>class_items\<close> lists.\<close>

definition in_items :: "byte \<Rightarrow> (byte \<times> byte) list \<Rightarrow> bool" where
  "in_items c items = list_ex (\<lambda>(lo, hi). lo \<le> c \<and> c \<le> hi) items"

lemma in_items_simps [simp]:
  "in_items c [] = False" "in_items c ((lo, hi) # items) = ((lo \<le> c \<and> c \<le> hi) \<or> in_items c items)"
  by (simp_all add: in_items_def)

lemma class_loop_items:
  "j \<le> length pat \<Longrightarrow>
     (case class_items first (drop j pat) of
        None \<Rightarrow> length pat \<le> snd (class_loop pat c j m first)
      | Some (items, r) \<Rightarrow> \<exists>k. j \<le> k \<and> k < length pat \<and> class_loop pat c j m first = (m \<or> in_items c items, k) \<and> r = drop (Suc k) pat)"
proof (induction pat c j m first rule: class_loop.induct)
  case (1 pat c j m first)
  show ?case
  proof (cases "j < length pat")
    case False
    then show ?thesis by (simp add: class_loop.simps [of pat c j])
  next
    case j: True
    let ?a = "pat ! j" and ?r = "drop (Suc j) pat"
    have d: "drop j pat = ?a # ?r" by (rule drop_nth [OF j])
    consider (close) "?a = 93 \<and> \<not> first"
      | (esc) "\<not> (?a = 93 \<and> \<not> first)" "?a = 92" "Suc j < length pat"
      | (range) "\<not> (?a = 93 \<and> \<not> first)" "\<not> (?a = 92 \<and> Suc j < length pat)" "j + 2 < length pat" "pat ! (j + 1) = 45" "pat ! (j + 2) \<noteq> 93"
      | (one) "\<not> (?a = 93 \<and> \<not> first)" "\<not> (?a = 92 \<and> Suc j < length pat)" "\<not> (j + 2 < length pat \<and> pat ! (j + 1) = 45 \<and> pat ! (j + 2) \<noteq> 93)"
      by blast
    then show ?thesis
    proof cases
      case close
      then show ?thesis using j by (auto simp: d class_loop.simps [of pat c j])
    next
      case esc
      have l: "class_loop pat c j m first = class_loop pat c (j + 2) (m \<or> pat ! (j + 1) = c) False"
        using esc j by (simp add: class_loop.simps [of pat c j])
      have r: "?r = pat ! (j + 1) # drop (j + 2) pat" using drop_nth [OF esc(3)] by simp
      have "class_items first (drop j pat) = map_option (apfst ((#) (pat ! (j + 1), pat ! (j + 1)))) (class_items False (drop (j + 2) pat))"
        using esc unfolding d by (simp add: r)
      then show ?thesis using "1.IH"(1) esc j l by (fastforce split: option.splits)
    next
      case range
      let ?lo = "min ?a (pat ! (j + 2))" and ?hi = "max ?a (pat ! (j + 2))"
      have l: "class_loop pat c j m first = class_loop pat c (j + 3) (m \<or> (?lo \<le> c \<and> c \<le> ?hi)) False"
        using range j by (simp add: class_loop.simps [of pat c j] min_def max_def)
      have i: "class_items first (drop j pat) = map_option (apfst ((#) (?lo, ?hi))) (class_items False (drop (j + 3) pat))"
        using range unfolding d by (auto simp: numeral_3_eq_3)
      have ih: "case class_items False (drop (j + 3) pat) of
          None \<Rightarrow> length pat \<le> snd (class_loop pat c (j + 3) (m \<or> (?lo \<le> c \<and> c \<le> ?hi)) False)
        | Some (items, r) \<Rightarrow> \<exists>k. j + 3 \<le> k \<and> k < length pat
            \<and> class_loop pat c (j + 3) (m \<or> (?lo \<le> c \<and> c \<le> ?hi)) False = ((m \<or> (?lo \<le> c \<and> c \<le> ?hi)) \<or> in_items c items, k) \<and> r = drop (Suc k) pat"
        using "1.IH"(2) [OF _ _ _ refl, of ?lo ?hi] range j by (simp add: min_def max_def)
      then show ?thesis unfolding i l by (fastforce split: option.splits)
    next
      case one
      have l: "class_loop pat c j m first = class_loop pat c (j + 1) (m \<or> ?a = c) False"
        using one j by (auto simp: class_loop.simps [of pat c j])
      have i: "class_items first (drop j pat) = map_option (apfst ((#) (?a, ?a))) (class_items False (drop (j + 1) pat))"
        using one unfolding d by auto
      have "(?a \<le> c \<and> c \<le> ?a) = (?a = c)" by auto
      then show ?thesis unfolding i l using "1.IH"(3) one j by (fastforce split: option.splits)
    qed
  qed
qed

text \<open>A pattern element that is not a star consumes one byte, the same number of pattern bytes whichever.\<close>

lemma class_match_tokens:
  assumes "p < length pat" and "pat ! p = 91"
  shows "(\<exists>negate items next. glob_tokens (drop p pat) = Class negate items # glob_tokens (drop next pat) \<and> p < next \<and> next \<le> length pat
            \<and> (\<forall>c. class_match pat p c = Some (in_items c items \<noteq> negate, next)))
       \<or> (glob_tokens (drop p pat) = Lit 91 # glob_tokens (drop (Suc p) pat) \<and> (\<forall>c. class_match pat p c = None))"
proof -
  let ?r = "drop (Suc p) pat"
  let ?n = "Suc p < length pat \<and> pat ! Suc p = 94"
  let ?j = "if ?n then Suc (Suc p) else Suc p"
  have d: "drop p pat = 91 # ?r" using drop_nth [OF assms(1)] assms(2) by simp
  have n: "(?r \<noteq> [] \<and> hd ?r = 94) = ?n" by (auto simp: hd_drop_conv_nth)
  have j: "?j \<le> length pat" using assms(1) by auto
  have items: "(if ?n then tl ?r else ?r) = drop ?j pat" by (simp add: drop_Suc tl_drop)
  have m: "class_match pat p c = (let (matched, j) = class_loop pat c ?j False True in if j \<ge> length pat then None else Some (matched \<noteq> ?n, j + 1))" for c
    by (simp add: class_match_def Let_def)
  have loop: "case class_items True (drop ?j pat) of
        None \<Rightarrow> length pat \<le> snd (class_loop pat c ?j False True)
      | Some (items, r) \<Rightarrow> \<exists>k. ?j \<le> k \<and> k < length pat \<and> class_loop pat c ?j False True = (False \<or> in_items c items, k) \<and> r = drop (Suc k) pat" for c
    by (rule class_loop_items [OF j])
  show ?thesis
  proof (cases "class_items True (drop ?j pat)")
    case None
    then have "class_match pat p c = None" for c using loop [of c] m [of c] by (simp add: split_beta Let_def)
    moreover have "glob_tokens (drop p pat) = Lit 91 # glob_tokens ?r"
      unfolding d glob_tokens.simps Let_def n items None by simp
    ultimately show ?thesis by blast
  next
    case (Some ir)
    obtain its r where ir: "ir = (its, r)" by (cases ir)
    obtain k where k: "?j \<le> k" "k < length pat" "r = drop (Suc k) pat" using loop [of 0] Some ir by auto
    have "class_match pat p c = Some (in_items c its \<noteq> ?n, Suc k)" for c
    proof -
      obtain k' where k': "k' < length pat" "class_loop pat c ?j False True = (in_items c its, k')" "r = drop (Suc k') pat"
        using loop [of c] Some ir by auto
      have "length (drop (Suc k) pat) = length (drop (Suc k') pat)" using k(3) k'(3) by simp
      then have "k' = k" using k(2) k'(1) by simp
      then show ?thesis using m [of c] k'(2) k(2) by simp
    qed
    moreover have "glob_tokens (drop p pat) = Class ?n its # glob_tokens (drop (Suc k) pat)"
      unfolding d glob_tokens.simps Let_def n items Some ir k(3) by simp
    moreover have "p < Suc k" "Suc k \<le> length pat" using k by (auto split: if_splits)
    ultimately show ?thesis by blast
  qed
qed

lemma single_step:
  assumes "p < length pat" and "pat ! p \<noteq> 42"
  shows "\<exists>tok next. glob_tokens (drop p pat) = tok # glob_tokens (drop next pat) \<and> tok \<noteq> AnyString \<and> p < next \<and> next \<le> length pat
     \<and> (\<forall>c. glob_step pat c p = (if token_ok tok c then Consume next else Mismatch))"
proof -
  let ?a = "pat ! p" and ?r = "drop (Suc p) pat"
  have d: "drop p pat = ?a # ?r" by (rule drop_nth [OF assms(1)])
  consider "?a = 63" | "?a = 91" | "?a = 92" "Suc p < length pat" | "?a \<noteq> 63" "?a \<noteq> 91" "\<not> (?a = 92 \<and> Suc p < length pat)" by blast
  then show ?thesis
  proof cases
    case 1
    then show ?thesis using assms by (intro exI [of _ AnyByte] exI [of _ "Suc p"]) (simp add: d glob_step_def)
  next
    case 2
    from class_match_tokens [OF assms(1) 2] show ?thesis
    proof (elim disjE exE conjE)
      fix negate items nxt
      assume "glob_tokens (drop p pat) = Class negate items # glob_tokens (drop nxt pat)" "p < nxt" "nxt \<le> length pat"
        "\<forall>c. class_match pat p c = Some (in_items c items \<noteq> negate, nxt)"
      then show ?thesis using 2 assms
        by (intro exI [of _ "Class negate items"] exI [of _ nxt]) (simp add: glob_step_def in_items_def)
    next
      assume "glob_tokens (drop p pat) = Lit 91 # glob_tokens ?r" "\<forall>c. class_match pat p c = None"
      then show ?thesis using 2 assms by (intro exI [of _ "Lit 91"] exI [of _ "Suc p"]) (simp add: glob_step_def)
    qed
  next
    case 3
    have "?r = pat ! Suc p # drop (Suc (Suc p)) pat" by (rule drop_nth [OF 3(2)])
    then show ?thesis using 3 assms
      by (intro exI [of _ "Lit (pat ! Suc p)"] exI [of _ "Suc (Suc p)"]) (simp add: d glob_step_def)
  next
    case 4
    then have "glob_tokens (drop p pat) = Lit ?a # glob_tokens ?r" using assms(2) by (auto simp: d)
    then show ?thesis using 4 assms by (intro exI [of _ "Lit ?a"] exI [of _ "Suc p"]) (auto simp: glob_step_def)
  qed
qed

lemma tokens_match_AnyString:
  "tokens_match (AnyString # ts) s \<longleftrightarrow> (\<exists>k\<le>length s. tokens_match ts (drop k s))"
proof (induction s)
  case (Cons c s)
  have "(\<exists>k\<le>length (c # s). tokens_match ts (drop k (c # s))) \<longleftrightarrow>
      tokens_match ts (c # s) \<or> (\<exists>k\<le>length s. tokens_match ts (drop k s))" (is "?l = ?r")
  proof
    assume ?l
    then obtain k where "k \<le> length (c # s)" "tokens_match ts (drop k (c # s))" by blast
    then show ?r by (cases k) auto
  next
    assume ?r
    then show ?l by (metis drop0 drop_Suc_Cons length_Cons not_less_eq_eq zero_le)
  qed
  then show ?case using Cons by simp
qed simp

lemma drop_drop_ex:
  assumes "i \<le> length s"
  shows "(\<exists>k\<le>length (drop i s). P (drop k (drop i s))) \<longleftrightarrow> (\<exists>k\<ge>i. k \<le> length s \<and> P (drop k s))"
proof
  assume "\<exists>k\<le>length (drop i s). P (drop k (drop i s))"
  then obtain k where "k \<le> length s - i" "P (drop (k + i) s)" by auto
  then show "\<exists>k\<ge>i. k \<le> length s \<and> P (drop k s)" using assms by (intro exI [of _ "k + i"]) auto
next
  assume "\<exists>k\<ge>i. k \<le> length s \<and> P (drop k s)"
  then obtain k where "k \<ge> i" "k \<le> length s" "P (drop k s)" by blast
  then show "\<exists>k\<le>length (drop i s). P (drop k (drop i s))" by (intro exI [of _ "k - i"]) auto
qed

lemma tokens_match_single:
  "t \<noteq> AnyString \<Longrightarrow> tokens_match (t # ts) s \<longleftrightarrow> s \<noteq> [] \<and> token_ok t (hd s) \<and> tokens_match ts (tl s)"
  by (cases t; cases s) auto

lemma skip_stars_bound: "p \<le> length pat \<Longrightarrow> p \<le> skip_stars pat p \<and> skip_stars pat p \<le> length pat"
proof (induction pat p rule: skip_stars.induct)
  case (1 pat p)
  then show ?case by (cases "p < length pat \<and> pat ! p = 42") (auto simp: skip_stars.simps [of pat p])
qed

text \<open>A run of stars means what one star means; a pattern of stars only matches the empty string.\<close>

lemma skip_stars_match:
  "p < length pat \<Longrightarrow> pat ! p = 42 \<Longrightarrow>
     tokens_match (glob_tokens (drop p pat)) s = tokens_match (AnyString # glob_tokens (drop (skip_stars pat p) pat)) s"
proof (induction pat p arbitrary: s rule: skip_stars.induct)
  case (1 pat p)
  have d: "glob_tokens (drop p pat) = AnyString # glob_tokens (drop (Suc p) pat)"
    using drop_nth [OF 1(2)] 1(3) by simp
  have k: "skip_stars pat p = skip_stars pat (Suc p)" using 1(2,3) by (simp add: skip_stars.simps [of pat p])
  show ?case
  proof (cases "Suc p < length pat \<and> pat ! Suc p = 42")
    case True
    have ih: "tokens_match (glob_tokens (drop (Suc p) pat)) t = tokens_match (AnyString # glob_tokens (drop (skip_stars pat p) pat)) t" for t
      using "1.IH" 1(2,3) True k by simp
    have "(\<exists>k\<le>length s. \<exists>l\<le>length (drop k s). tokens_match ts (drop l (drop k s))) \<longleftrightarrow> (\<exists>k\<le>length s. tokens_match ts (drop k s))" for ts
    proof
      assume "\<exists>k\<le>length s. \<exists>l\<le>length (drop k s). tokens_match ts (drop l (drop k s))"
      then obtain k l where "k \<le> length s" "l \<le> length s - k" "tokens_match ts (drop (l + k) s)" by auto
      then show "\<exists>k\<le>length s. tokens_match ts (drop k s)" by (intro exI [of _ "l + k"]) auto
    next
      assume "\<exists>k\<le>length s. tokens_match ts (drop k s)"
      then show "\<exists>k\<le>length s. \<exists>l\<le>length (drop k s). tokens_match ts (drop l (drop k s))"
        by (metis diff_self_eq_0 drop0 drop_all le_refl length_drop zero_le drop_drop add_0)
    qed
    then show ?thesis unfolding d by (simp only: tokens_match_AnyString ih)
  next
    case False
    then have "skip_stars pat (Suc p) = Suc p" by (auto simp: skip_stars.simps [of pat "Suc p"])
    then show ?thesis by (simp add: d k)
  qed
qed

lemma skip_stars_end: "p \<le> length pat \<Longrightarrow> (skip_stars pat p = length pat) = tokens_match (glob_tokens (drop p pat)) []"
proof (cases "p < length pat")
  case True
  assume "p \<le> length pat"
  show ?thesis
  proof (cases "pat ! p = 42")
    case star: True
    let ?q = "skip_stars pat p"
    have "tokens_match (glob_tokens (drop p pat)) [] = tokens_match (glob_tokens (drop ?q pat)) []"
      using skip_stars_match [OF True star] by simp
    moreover have "?q < length pat \<Longrightarrow> pat ! ?q \<noteq> 42"
      by (induction pat p rule: skip_stars.induct) (metis skip_stars.simps)
    moreover have "?q \<le> length pat" using skip_stars_bound [of p pat] True by simp
    ultimately show ?thesis
      using single_step [of ?q pat] by (cases "?q = length pat") (auto simp: tokens_match_single)
  next
    case False
    then have "skip_stars pat p = p" by (simp add: skip_stars.simps [of pat p])
    then show ?thesis using single_step [OF True False] True by (auto simp: tokens_match_single)
  qed
qed (simp add: skip_stars.simps [of pat "length pat"])

text \<open>
  The state of the loop.  After a star, the pattern from the star's index and the pattern from
  the current index differ by exactly the bytes consumed since: every byte string that matches
  from the star has that many bytes more.  So the only backtrack point the loop keeps is enough.
\<close>

definition star_ok :: "bytes \<Rightarrow> nat \<Rightarrow> nat \<Rightarrow> (nat \<times> nat) option \<Rightarrow> bool" where
  "star_ok pat p i star =
     (case star of None \<Rightarrow> True
      | Some (sp, si) \<Rightarrow> si \<le> i \<and> sp \<le> length pat
          \<and> (\<forall>t. tokens_match (glob_tokens (drop sp pat)) t \<longrightarrow>
                i - si \<le> length t \<and> tokens_match (glob_tokens (drop p pat)) (drop (i - si) t)))"

definition star_later :: "bytes \<Rightarrow> bytes \<Rightarrow> (nat \<times> nat) option \<Rightarrow> bool" where
  "star_later pat s star =
     (case star of None \<Rightarrow> False
      | Some (sp, si) \<Rightarrow> \<exists>k>si. k \<le> length s \<and> tokens_match (glob_tokens (drop sp pat)) (drop k s))"

text \<open>A match that an older star could still find is one the newer star finds too.\<close>

lemma star_later_subsumed:
  assumes ok: "star_ok pat p i star" and p: "p < length pat" "pat ! p = 42" and i: "i < length s"
    and later: "star_later pat s star"
  shows "\<exists>k\<ge>i. k \<le> length s \<and> tokens_match (glob_tokens (drop (skip_stars pat p) pat)) (drop k s)"
proof -
  obtain sp si where st: "star = Some (sp, si)" using later by (cases star) (auto simp: star_later_def)
  obtain k where k: "k > si" "k \<le> length s" "tokens_match (glob_tokens (drop sp pat)) (drop k s)"
    using later st by (auto simp: star_later_def)
  have "si \<le> i" and m: "i - si \<le> length s - k" "tokens_match (glob_tokens (drop p pat)) (drop (i - si) (drop k s))"
    using ok st k(3) by (auto simp: star_ok_def)
  then obtain l where l: "l \<le> length (drop (i - si) (drop k s))"
      "tokens_match (glob_tokens (drop (skip_stars pat p) pat)) (drop l (drop (i - si) (drop k s)))"
    unfolding skip_stars_match [OF p] tokens_match_AnyString by blast
  let ?k = "l + ((i - si) + k)"
  have "?k \<le> length s" "i \<le> ?k" using l(1) m(1) k \<open>si \<le> i\<close> by auto
  moreover have "tokens_match (glob_tokens (drop (skip_stars pat p) pat)) (drop ?k s)" using l(2) by simp
  ultimately show ?thesis by blast
qed

lemma star_ok_consume:
  assumes "star_ok pat p i star" and "glob_tokens (drop p pat) = tok # glob_tokens (drop q pat)" and "tok \<noteq> AnyString"
  shows "star_ok pat q (Suc i) star"
proof (cases star)
  case (Some st)
  obtain sp si where st: "st = (sp, si)" by (cases st)
  have ok: "si \<le> i" "sp \<le> length pat" "\<And>t. tokens_match (glob_tokens (drop sp pat)) t \<Longrightarrow>
      i - si \<le> length t \<and> tokens_match (glob_tokens (drop p pat)) (drop (i - si) t)"
    using assms(1) Some st by (auto simp: star_ok_def)
  have "Suc i - si \<le> length t \<and> tokens_match (glob_tokens (drop q pat)) (drop (Suc i - si) t)"
    if "tokens_match (glob_tokens (drop sp pat)) t" for t
  proof -
    have "drop (i - si) t \<noteq> []" "tokens_match (glob_tokens (drop q pat)) (tl (drop (i - si) t))"
      using ok(3) [OF that] assms(2,3) by (simp_all add: tokens_match_single del: drop_eq_Nil)
    then show ?thesis using ok(1) by (simp add: Suc_diff_le drop_Suc tl_drop)
  qed
  then show ?thesis using ok Some st by (simp add: star_ok_def)
qed (simp add: star_ok_def)

lemma glob_loop_correct:
  "p \<le> length pat \<Longrightarrow> i \<le> length s \<Longrightarrow> star_ok pat p i star \<Longrightarrow>
     glob_loop pat s p i star = Some (tokens_match (glob_tokens (drop p pat)) (drop i s) \<or> star_later pat s star)"
proof (induction "(p, i, star)" arbitrary: p i star rule: wf_induct_rule [OF wf_measures, of
      "[\<lambda>(p, i, star). case star of None \<Rightarrow> Suc (length s) | Some (_, si) \<Rightarrow> length s - si,
        \<lambda>(p, i, star). length s - i, \<lambda>(p, i, star). length pat - p]"])
  case (1 p i star)
  note IH = "1.hyps" and pl = "1.prems"(1) and il = "1.prems"(2) and ok = "1.prems"(3)
  show ?case
  proof (cases "i < length s")
    case False
    then have i: "i = length s" using il by simp
    have "\<not> star_later pat s star"
    proof
      assume "star_later pat s star"
      then obtain sp si k where "star = Some (sp, si)" "k > si" "k \<le> length s" "tokens_match (glob_tokens (drop sp pat)) (drop k s)"
        by (cases star) (auto simp: star_later_def)
      moreover from this have "si \<le> i" "i - si \<le> length (drop k s)" using ok by (auto simp: star_ok_def)
      ultimately show False using i by simp
    qed
    then show ?thesis using i skip_stars_end [OF pl] by (simp add: glob_loop.simps)
  next
    case i: True
    have di: "drop i s \<noteq> []" "hd (drop i s) = s ! i" "tl (drop i s) = drop (Suc i) s"
      using i by (auto simp: hd_drop_conv_nth drop_Suc tl_drop)
    have backtrack: "(case star of None \<Rightarrow> Some False | Some (sp, si) \<Rightarrow> glob_loop pat s sp (si + 1) (Some (sp, si + 1)))
        = Some (star_later pat s star)"
    proof (cases star)
      case (Some st)
      obtain sp si where st: "st = (sp, si)" by (cases st)
      have si: "si < length s" "sp \<le> length pat" using ok Some st i by (auto simp: star_ok_def)
      have "glob_loop pat s sp (Suc si) (Some (sp, Suc si))
          = Some (tokens_match (glob_tokens (drop sp pat)) (drop (Suc si) s) \<or> star_later pat s (Some (sp, Suc si)))"
        by (rule IH) (use Some st si in \<open>auto simp: star_ok_def\<close>)
      moreover have "(\<exists>k>si. k \<le> length s \<and> M k) = (M (Suc si) \<or> (\<exists>k>Suc si. k \<le> length s \<and> M k))" for M
        using si(1) by (metis Suc_leI Suc_lessI lessI less_trans)
      ultimately show ?thesis using Some st by (simp add: star_later_def)
    qed (simp add: star_later_def)
    show ?thesis
    proof (cases "p < length pat")
      case False
      then show ?thesis using backtrack i di by (simp add: glob_loop.simps [of pat s p] glob_step_def)
    next
      case p: True
      show ?thesis
      proof (cases "pat ! p = 42")
        case star: True
        let ?q = "skip_stars pat p"
        have q: "p < ?q" "?q \<le> length pat"
          using skip_stars_bound [of "Suc p" pat] p star skip_stars.simps [of pat p] by auto
        have sem: "tokens_match (glob_tokens (drop p pat)) (drop i s) \<longleftrightarrow>
            (\<exists>k\<ge>i. k \<le> length s \<and> tokens_match (glob_tokens (drop ?q pat)) (drop k s))"
          unfolding skip_stars_match [OF p star] tokens_match_AnyString by (rule drop_drop_ex [OF il])
        have sub: "star_later pat s star \<Longrightarrow> tokens_match (glob_tokens (drop p pat)) (drop i s)"
          using star_later_subsumed [OF ok p star i] sem by blast
        show ?thesis
        proof (cases "?q = length pat")
          case True
          have "tokens_match (glob_tokens (drop p pat)) (drop i s)"
            unfolding sem using il True by (intro exI [of _ "length s"]) simp
          then show ?thesis using p star True i by (simp add: glob_loop.simps [of pat s p] glob_step_def Let_def)
        next
          case False
          have "glob_loop pat s ?q i (Some (?q, i)) = Some (tokens_match (glob_tokens (drop ?q pat)) (drop i s) \<or> star_later pat s (Some (?q, i)))"
            by (rule IH) (use q p i ok in \<open>auto simp: star_ok_def split: option.splits\<close>)
          moreover have "(tokens_match (glob_tokens (drop ?q pat)) (drop i s) \<or> star_later pat s (Some (?q, i)))
              \<longleftrightarrow> tokens_match (glob_tokens (drop p pat)) (drop i s)"
            unfolding sem star_later_def using il by (auto simp: le_less)
          moreover have "glob_loop pat s p i star = glob_loop pat s ?q i (Some (?q, i))"
            using p star False i by (simp add: glob_loop.simps [of pat s p] glob_step_def Let_def)
          ultimately show ?thesis using sub by auto
        qed
      next
        case False
        from single_step [OF p False] obtain tok q where
          t: "glob_tokens (drop p pat) = tok # glob_tokens (drop q pat)" "tok \<noteq> AnyString" and q: "p < q" "q \<le> length pat"
          and step: "glob_step pat (s ! i) p = (if token_ok tok (s ! i) then Consume q else Mismatch)" by blast
        have sem: "tokens_match (glob_tokens (drop p pat)) (drop i s) = (token_ok tok (s ! i) \<and> tokens_match (glob_tokens (drop q pat)) (drop (Suc i) s))"
          unfolding t(1) tokens_match_single [OF t(2)] di using i by auto
        show ?thesis
        proof (cases "token_ok tok (s ! i)")
          case True
          have "glob_loop pat s q (Suc i) star = Some (tokens_match (glob_tokens (drop q pat)) (drop (Suc i) s) \<or> star_later pat s star)"
            by (rule IH) (use q i star_ok_consume [OF ok t] in \<open>auto split: option.splits\<close>)
          then show ?thesis using True step i sem by (simp add: glob_loop.simps [of pat s p])
        next
          case False
          then show ?thesis using backtrack step i sem by (simp add: glob_loop.simps [of pat s p])
        qed
      qed
    qed
  qed
qed

section \<open>Claims\<close>

text \<open>
  Claim C22. The matcher returns on every pattern and every subject, and answers exactly whether
  the subject has the form the pattern describes: its tokens in order, a star standing for any
  bytes.  Keeping only the last star as backtrack point loses no match.
\<close>

theorem glob_match_exact: "glob_match pat s = Some (glob_spec pat s)"
  unfolding glob_match_def glob_spec_def
  using glob_loop_correct [of 0 pat 0 s None] by (simp add: star_ok_def star_later_def)

end
