(* ===== verification/Sha256.thy ===== *)
theory Sha256
  imports Prelude
begin

text \<open>
  Password hashing (\<open>crates/server/src/acl.rs\<close>): SHA-256 written out over 32-bit words, the
  salted and stretched password hash, and its constant-time comparison.
\<close>

section \<open>SHA-256\<close>

type_synonym u32 = "32 word"

definition K256 :: "u32 list" where
  "K256 = concat
    [[0x428a2f98, 0x71374491, 0xb5c0fbcf, 0xe9b5dba5, 0x3956c25b, 0x59f111f1, 0x923f82a4, 0xab1c5ed5],
     [0xd807aa98, 0x12835b01, 0x243185be, 0x550c7dc3, 0x72be5d74, 0x80deb1fe, 0x9bdc06a7, 0xc19bf174],
     [0xe49b69c1, 0xefbe4786, 0x0fc19dc6, 0x240ca1cc, 0x2de92c6f, 0x4a7484aa, 0x5cb0a9dc, 0x76f988da],
     [0x983e5152, 0xa831c66d, 0xb00327c8, 0xbf597fc7, 0xc6e00bf3, 0xd5a79147, 0x06ca6351, 0x14292967],
     [0x27b70a85, 0x2e1b2138, 0x4d2c6dfc, 0x53380d13, 0x650a7354, 0x766a0abb, 0x81c2c92e, 0x92722c85],
     [0xa2bfe8a1, 0xa81a664b, 0xc24b8b70, 0xc76c51a3, 0xd192e819, 0xd6990624, 0xf40e3585, 0x106aa070],
     [0x19a4c116, 0x1e376c08, 0x2748774c, 0x34b0bcb5, 0x391c0cb3, 0x4ed8aa4a, 0x5b9cca4f, 0x682e6ff3],
     [0x748f82ee, 0x78a5636f, 0x84c87814, 0x8cc70208, 0x90befffa, 0xa4506ceb, 0xbef9a3f7, 0xc67178f2]]"

definition H0 :: "u32 list" where
  "H0 = [0x6a09e667, 0xbb67ae85, 0x3c6ef372, 0xa54ff53a, 0x510e527f, 0x9b05688c, 0x1f83d9ab, 0x5be0cd19]"

definition rotate_right :: "nat \<Rightarrow> u32 \<Rightarrow> u32" where
  "rotate_right n x = drop_bit n x OR push_bit (32 - n) x"

text \<open>The message schedule: sixteen words read from the block, then one at a time.\<close>

fun block_words :: "nat \<Rightarrow> bytes \<Rightarrow> u32 list" where
  "block_words 0 block = []"
| "block_words (Suc n) block = of_nat (be_nat (take 4 block)) # block_words n (drop 4 block)"

definition next_word :: "u32 list \<Rightarrow> u32" where
  "next_word w =
     (let i = length w;
          s0 = rotate_right 7 (w ! (i - 15)) XOR rotate_right 18 (w ! (i - 15)) XOR drop_bit 3 (w ! (i - 15));
          s1 = rotate_right 17 (w ! (i - 2)) XOR rotate_right 19 (w ! (i - 2)) XOR drop_bit 10 (w ! (i - 2))
      in w ! (i - 16) + s0 + w ! (i - 7) + s1)"

fun extend_words :: "nat \<Rightarrow> u32 list \<Rightarrow> u32 list" where
  "extend_words 0 w = w"
| "extend_words (Suc n) w = extend_words n (w @ [next_word w])"

type_synonym sha_state = "u32 \<times> u32 \<times> u32 \<times> u32 \<times> u32 \<times> u32 \<times> u32 \<times> u32"

definition sha_round :: "u32 \<times> u32 \<Rightarrow> sha_state \<Rightarrow> sha_state" where
  "sha_round kw s =
     (case kw of (k, w) \<Rightarrow> case s of (a, b, c, d, e, f, g, h) \<Rightarrow>
      let s1 = rotate_right 6 e XOR rotate_right 11 e XOR rotate_right 25 e;
          ch = (e AND f) XOR (NOT e AND g);
          temp1 = h + s1 + ch + k + w;
          s0 = rotate_right 2 a XOR rotate_right 13 a XOR rotate_right 22 a;
          maj = (a AND b) XOR (a AND c) XOR (b AND c);
          temp2 = s0 + maj
      in (temp1 + temp2, a, b, c, d + temp1, e, f, g))"

definition sha256_compress :: "u32 list \<Rightarrow> bytes \<Rightarrow> u32 list" where
  "sha256_compress state block =
     (let w = extend_words 48 (block_words 16 block)
      in case fold sha_round (zip K256 w)
                (state ! 0, state ! 1, state ! 2, state ! 3, state ! 4, state ! 5, state ! 6, state ! 7) of
           (a, b, c, d, e, f, g, h) \<Rightarrow>
             [state ! 0 + a, state ! 1 + b, state ! 2 + c, state ! 3 + d,
              state ! 4 + e, state ! 5 + f, state ! 6 + g, state ! 7 + h])"

text \<open>
  Padding: the bit 1, zeros up to 56 modulo 64, the bit length.  The multiplication of the code
  wraps in a release build; the encoder truncates in the same way.
\<close>

definition zero_pad :: "nat \<Rightarrow> nat" where
  "zero_pad n = (56 + 64 - (n + 1) mod 64) mod 64"

definition sha_pad :: "bytes \<Rightarrow> bytes" where
  "sha_pad data = data @ [0x80] @ replicate (zero_pad (length data)) 0 @ be_bytes 8 (length data * 8)"

function chunks :: "nat \<Rightarrow> 'a list \<Rightarrow> 'a list list" where
  "chunks n [] = []"
| "chunks n (x # xs) = (if n = 0 then [] else take n (x # xs) # chunks n (drop n (x # xs)))"
  by pat_completeness auto
termination by (relation "measure (\<lambda>(n, xs). length xs)") auto

definition sha256 :: "bytes \<Rightarrow> bytes" where
  "sha256 data = concat (map (\<lambda>s. be_bytes 4 (unat s)) (fold (\<lambda>block s. sha256_compress s block) (chunks 64 (sha_pad data)) H0))"

section \<open>Passwords\<close>

definition HASH_ROUNDS :: nat where "HASH_ROUNDS = 4096"

fun stretch :: "nat \<Rightarrow> bytes \<Rightarrow> bytes \<Rightarrow> bytes" where
  "stretch 0 salt h = h"
| "stretch (Suc n) salt h = stretch n salt (sha256 (h @ salt))"

definition hash_password :: "bytes \<Rightarrow> bytes \<Rightarrow> bytes" where
  "hash_password password salt = stretch (HASH_ROUNDS - 1) salt (sha256 (salt @ password))"

definition ct_eq :: "bytes \<Rightarrow> bytes \<Rightarrow> bool" where
  "ct_eq a b = (fold (\<lambda>i diff. diff OR (a ! i XOR b ! i)) [0..<32] 0 = 0)"

definition verify_password :: "bytes \<Rightarrow> bytes \<Rightarrow> bytes \<Rightarrow> bool" where
  "verify_password password salt hash = ct_eq (hash_password password salt) hash"

section \<open>Lengths\<close>

lemma length_be_bytes4: "length (be_bytes 4 n) = 4"
  by (simp add: be_bytes_def)

lemma length_sha256_compress [simp]: "length (sha256_compress s b) = 8"
  by (simp add: sha256_compress_def Let_def split: prod.splits)

lemma length_fold_compress: "length s = 8 \<Longrightarrow> length (fold (\<lambda>b s. sha256_compress s b) bs s) = 8"
  by (induction bs arbitrary: s) auto

lemma length_sha256 [simp]: "length (sha256 d) = 32"
proof -
  let ?s = "fold (\<lambda>block s. sha256_compress s block) (chunks 64 (sha_pad d)) H0"
  have "length ?s = 8" by (rule length_fold_compress) (simp add: H0_def)
  moreover have "sum_list (map (\<lambda>s. length (be_bytes 4 (unat s))) xs) = 4 * length xs" for xs :: "u32 list"
    by (induction xs) (auto simp: length_be_bytes4)
  ultimately show ?thesis by (simp add: sha256_def length_concat comp_def)
qed

lemma length_hash_password [simp]: "length (hash_password pw salt) = 32"
proof -
  have "length h = 32 \<Longrightarrow> length (stretch n salt h) = 32" for n h
    by (induction n arbitrary: h) auto
  then show ?thesis by (simp add: hash_password_def)
qed

lemma or_eq_zero: "(a :: byte) OR b = 0 \<longleftrightarrow> a = 0 \<and> b = 0"
  by (rule or_eq_0_iff)

lemma xor_eq_zero: "(a :: byte) XOR b = 0 \<longleftrightarrow> a = b"
  by (metis word_xor_cancel xor_self_eq)

lemma fold_diff: "(fold (\<lambda>i diff. diff OR (a ! i XOR b ! i)) is d = (0 :: byte)) \<longleftrightarrow> d = 0 \<and> (\<forall>i\<in>set is. a ! i = b ! i)"
  by (induction "is" arbitrary: d) (auto simp: or_eq_zero xor_eq_zero)

lemma ct_eq_iff: "length a = 32 \<Longrightarrow> length b = 32 \<Longrightarrow> ct_eq a b \<longleftrightarrow> a = b"
  by (auto simp: ct_eq_def fold_diff list_eq_iff_nth_eq)

text \<open>The padded message is a whole number of blocks, so no chunk is short.\<close>

lemma zero_pad_fills: "(n + 9 + zero_pad n) mod 64 = 0"
proof -
  obtain q m where n: "n + 1 = 64 * q + m" and m: "m < 64"
    using mod_less_divisor [of 64 "n + 1"] mult_div_mod_eq [of 64 "n + 1"] by (metis zero_less_numeral)
  have r: "(n + 1) mod 64 = m" using n m by simp
  show ?thesis
  proof (cases "m \<le> 56")
    case True
    then have "120 - m = 64 + (56 - m)" by linarith
    moreover have "56 - m < (64 :: nat)" by linarith
    ultimately have "(120 - m) mod 64 = 56 - m" by (metis mod_add_self1 mod_less)
    then have "n + 9 + zero_pad n = 64 * (q + 1)" using n r True by (simp add: zero_pad_def)
    then show ?thesis by (simp only: mod_mult_self1_is_0)
  next
    case False
    then have "(120 - m) mod 64 = 120 - m" using m by simp
    then have "n + 9 + zero_pad n = 64 * (q + 2)" using n m r False by (simp add: zero_pad_def)
    then show ?thesis by (simp only: mod_mult_self1_is_0)
  qed
qed

lemma length_sha_pad: "length (sha_pad d) mod 64 = 0"
  using zero_pad_fills [of "length d"] by (simp add: sha_pad_def be_bytes_def algebra_simps)

section \<open>The reference vector\<close>

text \<open>
  The SHA-256 of \<open>abc\<close> from FIPS 180-4, computed by the definitions above: the padded block, the
  message schedule, the sixty-four rounds and the digest.
\<close>

lemma le_bytes_numeral: "le_bytes (numeral w) n = of_nat n # le_bytes (pred_numeral w) (n div 256)"
  by (simp only: numeral_eq_Suc [of w] le_bytes.simps)

lemma block_words_numeral:
  "block_words (numeral w) b = of_nat (be_nat (take 4 b)) # block_words (pred_numeral w) (drop 4 b)"
  by (simp only: numeral_eq_Suc [of w] block_words.simps)

lemma replicate_num: "replicate (numeral w) x = x # replicate (pred_numeral w) x"
  by (simp only: numeral_eq_Suc [of w] replicate.simps)

lemma numeral_48: "48 = 16 + (16 + 16 :: nat)"
  by simp

definition abc_block :: bytes where
  "abc_block =
     [97, 98, 99, 128, 0, 0, 0, 0, 0, 0, 0, 0, 0, 0, 0, 0,
      0, 0, 0, 0, 0, 0, 0, 0, 0, 0, 0, 0, 0, 0, 0, 0,
      0, 0, 0, 0, 0, 0, 0, 0, 0, 0, 0, 0, 0, 0, 0, 0,
      0, 0, 0, 0, 0, 0, 0, 0, 0, 0, 0, 0, 0, 0, 0, 24]"

definition abc_words :: "u32 list" where
  "abc_words =
     [0x61626380, 0x00000000, 0x00000000, 0x00000000, 0x00000000, 0x00000000, 0x00000000, 0x00000000,
      0x00000000, 0x00000000, 0x00000000, 0x00000000, 0x00000000, 0x00000000, 0x00000000, 0x00000018,
      0x61626380, 0x000f0000, 0x7da86405, 0x600003c6, 0x3e9d7b78, 0x0183fc00, 0x12dcbfdb, 0xe2e2c38e,
      0xc8215c1a, 0xb73679a2, 0xe5bc3909, 0x32663c5b, 0x9d209d67, 0xec8726cb, 0x702138a4, 0xd3b7973b,
      0x93f5997f, 0x3b68ba73, 0xaff4ffc1, 0xf10a5c62, 0x0a8b3996, 0x72af830a, 0x9409e33e, 0x24641522,
      0x9f47bf94, 0xf0a64f5a, 0x3e246a79, 0x27333ba3, 0x0c4763f2, 0x840abf27, 0x7a290d5d, 0x065c43da,
      0xfb3e89cb, 0xcc7617db, 0xb9e66c34, 0xa9993667, 0x84badedd, 0xc21462bc, 0x1487472c, 0xb20f7a99,
      0xef57b9cd, 0xebe6b238, 0x9fe3095e, 0x78bc8d4b, 0xa43fcf15, 0x668b2ff8, 0xeeaba2cc, 0x12b1edeb]"

lemma abc_padded: "sha_pad [97, 98, 99] = abc_block"
  by (simp add: abc_block_def sha_pad_def zero_pad_def be_bytes_def le_bytes_numeral replicate_num)

lemma abc_read:
  "block_words 16 abc_block =
     [0x61626380, 0x00000000, 0x00000000, 0x00000000, 0x00000000, 0x00000000, 0x00000000, 0x00000000,
      0x00000000, 0x00000000, 0x00000000, 0x00000000, 0x00000000, 0x00000000, 0x00000000, 0x00000018]"
  by (simp add: abc_block_def block_words_numeral be_nat_def)

lemma extend_words_add: "extend_words (m + n) w = extend_words n (extend_words m w)"
  by (induction m arbitrary: w) simp_all

lemma abc_schedule1:
  "extend_words 16
     [0x61626380, 0x00000000, 0x00000000, 0x00000000, 0x00000000, 0x00000000, 0x00000000, 0x00000000,
      0x00000000, 0x00000000, 0x00000000, 0x00000000, 0x00000000, 0x00000000, 0x00000000, 0x00000018]
   = [0x61626380, 0x00000000, 0x00000000, 0x00000000, 0x00000000, 0x00000000, 0x00000000, 0x00000000,
      0x00000000, 0x00000000, 0x00000000, 0x00000000, 0x00000000, 0x00000000, 0x00000000, 0x00000018,
      0x61626380, 0x000f0000, 0x7da86405, 0x600003c6, 0x3e9d7b78, 0x0183fc00, 0x12dcbfdb, 0xe2e2c38e,
      0xc8215c1a, 0xb73679a2, 0xe5bc3909, 0x32663c5b, 0x9d209d67, 0xec8726cb, 0x702138a4, 0xd3b7973b]"
  by code_simp

lemma abc_schedule2:
  "extend_words 16
     [0x61626380, 0x00000000, 0x00000000, 0x00000000, 0x00000000, 0x00000000, 0x00000000, 0x00000000,
      0x00000000, 0x00000000, 0x00000000, 0x00000000, 0x00000000, 0x00000000, 0x00000000, 0x00000018,
      0x61626380, 0x000f0000, 0x7da86405, 0x600003c6, 0x3e9d7b78, 0x0183fc00, 0x12dcbfdb, 0xe2e2c38e,
      0xc8215c1a, 0xb73679a2, 0xe5bc3909, 0x32663c5b, 0x9d209d67, 0xec8726cb, 0x702138a4, 0xd3b7973b]
   = [0x61626380, 0x00000000, 0x00000000, 0x00000000, 0x00000000, 0x00000000, 0x00000000, 0x00000000,
      0x00000000, 0x00000000, 0x00000000, 0x00000000, 0x00000000, 0x00000000, 0x00000000, 0x00000018,
      0x61626380, 0x000f0000, 0x7da86405, 0x600003c6, 0x3e9d7b78, 0x0183fc00, 0x12dcbfdb, 0xe2e2c38e,
      0xc8215c1a, 0xb73679a2, 0xe5bc3909, 0x32663c5b, 0x9d209d67, 0xec8726cb, 0x702138a4, 0xd3b7973b,
      0x93f5997f, 0x3b68ba73, 0xaff4ffc1, 0xf10a5c62, 0x0a8b3996, 0x72af830a, 0x9409e33e, 0x24641522,
      0x9f47bf94, 0xf0a64f5a, 0x3e246a79, 0x27333ba3, 0x0c4763f2, 0x840abf27, 0x7a290d5d, 0x065c43da]"
  by code_simp

lemma abc_schedule3:
  "extend_words 16
     [0x61626380, 0x00000000, 0x00000000, 0x00000000, 0x00000000, 0x00000000, 0x00000000, 0x00000000,
      0x00000000, 0x00000000, 0x00000000, 0x00000000, 0x00000000, 0x00000000, 0x00000000, 0x00000018,
      0x61626380, 0x000f0000, 0x7da86405, 0x600003c6, 0x3e9d7b78, 0x0183fc00, 0x12dcbfdb, 0xe2e2c38e,
      0xc8215c1a, 0xb73679a2, 0xe5bc3909, 0x32663c5b, 0x9d209d67, 0xec8726cb, 0x702138a4, 0xd3b7973b,
      0x93f5997f, 0x3b68ba73, 0xaff4ffc1, 0xf10a5c62, 0x0a8b3996, 0x72af830a, 0x9409e33e, 0x24641522,
      0x9f47bf94, 0xf0a64f5a, 0x3e246a79, 0x27333ba3, 0x0c4763f2, 0x840abf27, 0x7a290d5d, 0x065c43da]
   = [0x61626380, 0x00000000, 0x00000000, 0x00000000, 0x00000000, 0x00000000, 0x00000000, 0x00000000,
      0x00000000, 0x00000000, 0x00000000, 0x00000000, 0x00000000, 0x00000000, 0x00000000, 0x00000018,
      0x61626380, 0x000f0000, 0x7da86405, 0x600003c6, 0x3e9d7b78, 0x0183fc00, 0x12dcbfdb, 0xe2e2c38e,
      0xc8215c1a, 0xb73679a2, 0xe5bc3909, 0x32663c5b, 0x9d209d67, 0xec8726cb, 0x702138a4, 0xd3b7973b,
      0x93f5997f, 0x3b68ba73, 0xaff4ffc1, 0xf10a5c62, 0x0a8b3996, 0x72af830a, 0x9409e33e, 0x24641522,
      0x9f47bf94, 0xf0a64f5a, 0x3e246a79, 0x27333ba3, 0x0c4763f2, 0x840abf27, 0x7a290d5d, 0x065c43da,
      0xfb3e89cb, 0xcc7617db, 0xb9e66c34, 0xa9993667, 0x84badedd, 0xc21462bc, 0x1487472c, 0xb20f7a99,
      0xef57b9cd, 0xebe6b238, 0x9fe3095e, 0x78bc8d4b, 0xa43fcf15, 0x668b2ff8, 0xeeaba2cc, 0x12b1edeb]"
  by code_simp

lemma abc_schedule:
  "extend_words 48
     [0x61626380, 0x00000000, 0x00000000, 0x00000000, 0x00000000, 0x00000000, 0x00000000, 0x00000000,
      0x00000000, 0x00000000, 0x00000000, 0x00000000, 0x00000000, 0x00000000, 0x00000000, 0x00000018] = abc_words"
  using extend_words_add [of 16 "16 + 16"] extend_words_add [of 16 16]
  by (simp only: abc_words_def numeral_48 abc_schedule1 abc_schedule2 abc_schedule3)

lemma abc_rounds1:
  "fold sha_round (zip [1116352408, 1899447441, 3049323471, 3921009573, 961987163, 1508970993, 2453635748, 2870763221,
      3624381080, 310598401, 607225278, 1426881987, 1925078388, 2162078206, 2614888103, 3248222580]
     [0x61626380, 0x00000000, 0x00000000, 0x00000000, 0x00000000, 0x00000000, 0x00000000, 0x00000000,
      0x00000000, 0x00000000, 0x00000000, 0x00000000, 0x00000000, 0x00000000, 0x00000000, 0x00000018])
     (0x6a09e667, 0xbb67ae85, 0x3c6ef372, 0xa54ff53a, 0x510e527f, 0x9b05688c, 0x1f83d9ab, 0x5be0cd19)
   = (0xb0fa238e, 0xc0645fde, 0xd932eb16, 0x87912990, 0x07590dcd, 0x0b92f20c, 0x745a48de, 0x1e578218)"
  by code_simp

lemma abc_rounds2:
  "fold sha_round (zip [3835390401, 4022224774, 264347078, 604807628, 770255983, 1249150122, 1555081692, 1996064986,
      2554220882, 2821834349, 2952996808, 3210313671, 3336571891, 3584528711, 113926993, 338241895]
     [0x61626380, 0x000f0000, 0x7da86405, 0x600003c6, 0x3e9d7b78, 0x0183fc00, 0x12dcbfdb, 0xe2e2c38e,
      0xc8215c1a, 0xb73679a2, 0xe5bc3909, 0x32663c5b, 0x9d209d67, 0xec8726cb, 0x702138a4, 0xd3b7973b])
     (0xb0fa238e, 0xc0645fde, 0xd932eb16, 0x87912990, 0x07590dcd, 0x0b92f20c, 0x745a48de, 0x1e578218)
   = (0x73b33bf5, 0xea992a22, 0xa0060b30, 0x363482c9, 0xba591112, 0x0109ab3a, 0xade79437, 0x6112a3b7)"
  by code_simp

lemma abc_rounds3:
  "fold sha_round (zip [666307205, 773529912, 1294757372, 1396182291, 1695183700, 1986661051, 2177026350, 2456956037,
      2730485921, 2820302411, 3259730800, 3345764771, 3516065817, 3600352804, 4094571909, 275423344]
     [0x93f5997f, 0x3b68ba73, 0xaff4ffc1, 0xf10a5c62, 0x0a8b3996, 0x72af830a, 0x9409e33e, 0x24641522,
      0x9f47bf94, 0xf0a64f5a, 0x3e246a79, 0x27333ba3, 0x0c4763f2, 0x840abf27, 0x7a290d5d, 0x065c43da])
     (0x73b33bf5, 0xea992a22, 0xa0060b30, 0x363482c9, 0xba591112, 0x0109ab3a, 0xade79437, 0x6112a3b7)
   = (0x4172328d, 0xa14c14b0, 0x72ab4b91, 0x26628815, 0xfecf0bc6, 0xd57b94a9, 0xb7755da1, 0xa80f11f0)"
  by code_simp

lemma abc_rounds4:
  "fold sha_round (zip [430227734, 506948616, 659060556, 883997877, 958139571, 1322822218, 1537002063, 1747873779,
      1955562222, 2024104815, 2227730452, 2361852424, 2428436474, 2756734187, 3204031479, 3329325298]
     [0xfb3e89cb, 0xcc7617db, 0xb9e66c34, 0xa9993667, 0x84badedd, 0xc21462bc, 0x1487472c, 0xb20f7a99,
      0xef57b9cd, 0xebe6b238, 0x9fe3095e, 0x78bc8d4b, 0xa43fcf15, 0x668b2ff8, 0xeeaba2cc, 0x12b1edeb])
     (0x4172328d, 0xa14c14b0, 0x72ab4b91, 0x26628815, 0xfecf0bc6, 0xd57b94a9, 0xb7755da1, 0xa80f11f0)
   = (0x506e3058, 0xd39a2165, 0x04d24d6c, 0xb85e2ce9, 0x5ef50f24, 0xfb121210, 0x948d25b6, 0x961f4894)"
  by code_simp

lemma abc_rounds:
  "fold sha_round (zip K256 abc_words)
     (0x6a09e667, 0xbb67ae85, 0x3c6ef372, 0xa54ff53a, 0x510e527f, 0x9b05688c, 0x1f83d9ab, 0x5be0cd19)
   = (0x506e3058, 0xd39a2165, 0x04d24d6c, 0xb85e2ce9, 0x5ef50f24, 0xfb121210, 0x948d25b6, 0x961f4894)"
proof -
  have "zip K256 abc_words =
     zip [1116352408, 1899447441, 3049323471, 3921009573, 961987163, 1508970993, 2453635748, 2870763221,
      3624381080, 310598401, 607225278, 1426881987, 1925078388, 2162078206, 2614888103, 3248222580]
      [0x61626380, 0x00000000, 0x00000000, 0x00000000, 0x00000000, 0x00000000, 0x00000000, 0x00000000,
      0x00000000, 0x00000000, 0x00000000, 0x00000000, 0x00000000, 0x00000000, 0x00000000, 0x00000018] @
     zip [3835390401, 4022224774, 264347078, 604807628, 770255983, 1249150122, 1555081692, 1996064986,
      2554220882, 2821834349, 2952996808, 3210313671, 3336571891, 3584528711, 113926993, 338241895]
      [0x61626380, 0x000f0000, 0x7da86405, 0x600003c6, 0x3e9d7b78, 0x0183fc00, 0x12dcbfdb, 0xe2e2c38e,
      0xc8215c1a, 0xb73679a2, 0xe5bc3909, 0x32663c5b, 0x9d209d67, 0xec8726cb, 0x702138a4, 0xd3b7973b] @
     zip [666307205, 773529912, 1294757372, 1396182291, 1695183700, 1986661051, 2177026350, 2456956037,
      2730485921, 2820302411, 3259730800, 3345764771, 3516065817, 3600352804, 4094571909, 275423344]
      [0x93f5997f, 0x3b68ba73, 0xaff4ffc1, 0xf10a5c62, 0x0a8b3996, 0x72af830a, 0x9409e33e, 0x24641522,
      0x9f47bf94, 0xf0a64f5a, 0x3e246a79, 0x27333ba3, 0x0c4763f2, 0x840abf27, 0x7a290d5d, 0x065c43da] @
     zip [430227734, 506948616, 659060556, 883997877, 958139571, 1322822218, 1537002063, 1747873779,
      1955562222, 2024104815, 2227730452, 2361852424, 2428436474, 2756734187, 3204031479, 3329325298]
      [0xfb3e89cb, 0xcc7617db, 0xb9e66c34, 0xa9993667, 0x84badedd, 0xc21462bc, 0x1487472c, 0xb20f7a99,
      0xef57b9cd, 0xebe6b238, 0x9fe3095e, 0x78bc8d4b, 0xa43fcf15, 0x668b2ff8, 0xeeaba2cc, 0x12b1edeb]"
    by (simp add: K256_def abc_words_def)
  then show ?thesis by (simp only: fold_append comp_def abc_rounds1 abc_rounds2 abc_rounds3 abc_rounds4)
qed

lemma abc_digest:
  "concat (map (\<lambda>s. be_bytes 4 (unat s))
      ([0xba7816bf, 0x8f01cfea, 0x414140de, 0x5dae2223, 0xb00361a3, 0x96177a9c, 0xb410ff61, 0xf20015ad] :: u32 list)) =
    [186, 120, 22, 191, 143, 1, 207, 234, 65, 65, 64, 222, 93, 174, 34, 35,
      176, 3, 97, 163, 150, 23, 122, 156, 180, 16, 255, 97, 242, 0, 21, 173]"
  by (simp add: be_bytes_def le_bytes_numeral)

lemma sha256_abc:
  "sha256 [97, 98, 99] =
    [186, 120, 22, 191, 143, 1, 207, 234, 65, 65, 64, 222, 93, 174, 34, 35,
      176, 3, 97, 163, 150, 23, 122, 156, 180, 16, 255, 97, 242, 0, 21, 173]"
proof -
  have "chunks 64 abc_block = [abc_block]" by (simp add: abc_block_def)
  then show ?thesis
    unfolding sha256_def abc_padded abc_digest [symmetric]
    by (simp add: sha256_compress_def abc_read abc_schedule H0_def abc_rounds)
qed

end
