(* ===== verification/Acl.thy ===== *)
theory Acl
  imports Commands Glob Sha256 Resp
begin

text \<open>
  Authentication and authorization (\<open>crates/server/src/acl.rs\<close>): the users with their ordered
  rules and key patterns, the store with its \<open>strict\<close> latch, the rule tokens of \<open>ACL SETUSER\<close>,
  the text form of \<open>ACL SAVE\<close> and \<open>ACL LOAD\<close>, and the permission gate of the dispatch loop
  (\<open>acl_denial\<close> in \<open>main.rs\<close>).

  The salt a \<open>>password\<close> token draws is an
  argument, one per token position.  \<open>to_lowercase\<close> is the ASCII one: a command name that a rule
  can match is ASCII.
\<close>

section \<open>Strings\<close>

definition ascii_lower_char :: "char \<Rightarrow> char" where
  "ascii_lower_char c = (if 65 \<le> (of_char c :: nat) \<and> (of_char c :: nat) \<le> 90 then char_of ((of_char c :: nat) + 32) else c)"

definition ascii_upper_char :: "char \<Rightarrow> char" where
  "ascii_upper_char c = (if 97 \<le> (of_char c :: nat) \<and> (of_char c :: nat) \<le> 122 then char_of ((of_char c :: nat) - 32) else c)"

definition to_lower :: "string \<Rightarrow> string" where
  "to_lower s = map ascii_lower_char s"

definition to_upper :: "string \<Rightarrow> string" where
  "to_upper s = map ascii_upper_char s"

fun split_on :: "'a \<Rightarrow> 'a list \<Rightarrow> 'a list list" where
  "split_on c [] = [[]]"
| "split_on c (x # xs) =
     (if x = c then [] # split_on c xs
      else case split_on c xs of [] \<Rightarrow> [[x]] | p # ps \<Rightarrow> (x # p) # ps)"

fun join_with :: "'a list \<Rightarrow> 'a list list \<Rightarrow> 'a list" where
  "join_with sep [] = []"
| "join_with sep [x] = x"
| "join_with sep (x # y # zs) = x @ sep @ join_with sep (y # zs)"

text \<open>\<open>str::lines\<close>: a line end is a newline with an optional carriage return before it.\<close>

definition strip_cr :: "string \<Rightarrow> string" where
  "strip_cr l = (if l \<noteq> [] \<and> last l = CHR 0x0D then butlast l else l)"

definition text_lines :: "string \<Rightarrow> string list" where
  "text_lines s =
     (let ps = split_on (CHR 0x0A) s
      in map strip_cr (butlast ps) @ (if last ps = [] then [] else [last ps]))"

definition is_blank :: "string \<Rightarrow> bool" where
  "is_blank l \<longleftrightarrow> trim (as_bytes l) = []"

section \<open>Categories, rules and users\<close>

definition cat_from_str :: "string \<Rightarrow> perm_category option" where
  "cat_from_str s =
     (let l = to_lower s in
      if l = ''all'' \<or> l = ''*'' then Some CAll
      else if l = ''read'' then Some CRead
      else if l = ''write'' then Some CWrite
      else if l = ''admin'' then Some CAdmin
      else if l = ''dangerous'' then Some CDangerous
      else if l = ''pubsub'' then Some CPubSub
      else if l = ''vector'' then Some CVector
      else if l = ''timeseries'' then Some CTimeSeries
      else if l = ''memory'' \<or> l = ''rag'' then Some CMemory
      else if l = ''table'' then Some CTable
      else if l = ''reduce'' then Some CReduce
      else if l = ''connection'' then Some CConnection
      else None)"

fun cat_name :: "perm_category \<Rightarrow> string" where
  "cat_name CAll = ''all''"
| "cat_name CRead = ''read''"
| "cat_name CWrite = ''write''"
| "cat_name CAdmin = ''admin''"
| "cat_name CDangerous = ''dangerous''"
| "cat_name CPubSub = ''pubsub''"
| "cat_name CVector = ''vector''"
| "cat_name CTimeSeries = ''timeseries''"
| "cat_name CMemory = ''memory''"
| "cat_name CTable = ''table''"
| "cat_name CReduce = ''reduce''"
| "cat_name CConnection = ''connection''"

datatype rule = AllowCmd string | DenyCmd string | AllowCat perm_category | DenyCat perm_category

record user =
  name :: string
  password :: "(bytes \<times> bytes) option"
  enabled :: bool
  rules :: "rule list"
  key_patterns :: "bytes list"

definition no_password :: "bytes \<times> bytes" where
  "no_password = (replicate 16 0, replicate 32 0xff)"

definition new_restricted :: "string \<Rightarrow> user" where
  "new_restricted nm = \<lparr>name = nm, password = Some no_password, enabled = False, rules = [], key_patterns = []\<rparr>"

definition superuser :: "string \<Rightarrow> user" where
  "superuser nm = \<lparr>name = nm, password = None, enabled = True, rules = [AllowCat CAll], key_patterns = [[42]]\<rparr>"

definition always_allowed :: "string list" where
  "always_allowed = [''AUTH'', ''HELLO'', ''QUIT'', ''PING'', ''RESET'']"

fun apply_rule :: "string \<Rightarrow> perm_category list \<Rightarrow> rule \<Rightarrow> bool \<Rightarrow> bool" where
  "apply_rule cmd cats (AllowCmd c) allowed = (if c = cmd then True else allowed)"
| "apply_rule cmd cats (DenyCmd c) allowed = (if c = cmd then False else allowed)"
| "apply_rule cmd cats (AllowCat c) allowed = (if c = CAll \<or> c \<in> set cats then True else allowed)"
| "apply_rule cmd cats (DenyCat c) allowed = (if c = CAll \<or> c \<in> set cats then False else allowed)"

definition user_can_command :: "user \<Rightarrow> string \<Rightarrow> perm_category list \<Rightarrow> bool" where
  "user_can_command u cmd cats =
     (if \<not> enabled u then False
      else if cmd \<in> set always_allowed then True
      else fold (apply_rule cmd cats) (rules u) False)"

definition can_key :: "user \<Rightarrow> bytes \<Rightarrow> bool" where
  "can_key u k = list_ex (\<lambda>p. glob_match p k = Some True) (key_patterns u)"

definition rule_token :: "rule \<Rightarrow> string" where
  "rule_token r =
     (case r of
        AllowCmd c \<Rightarrow> CHR ''+'' # to_lower c
      | DenyCmd c \<Rightarrow> CHR ''-'' # to_lower c
      | AllowCat c \<Rightarrow> CHR ''+'' # CHR ''@'' # cat_name c
      | DenyCat c \<Rightarrow> CHR ''-'' # CHR ''@'' # cat_name c)"

definition describe_tokens :: "user \<Rightarrow> string list" where
  "describe_tokens u =
     (if enabled u then ''on'' else ''off'')
     # (if password u = None then [''nopass''] else [])
     @ map (\<lambda>p. CHR ''~'' # from_bytes p) (key_patterns u)
     @ map rule_token (rules u)"

definition describe :: "user \<Rightarrow> string" where
  "describe u = join_with '' '' (describe_tokens u)"

section \<open>Rule tokens\<close>

datatype acl_err = BadHash string | UnknownCategory string | EmptyCommand | TokenSyntax string | NoDefaultUser

definition parse_rule :: "string \<Rightarrow> bool \<Rightarrow> acl_err + rule" where
  "parse_rule rest allow =
     (if rest \<noteq> [] \<and> hd rest = CHR ''@'' then
        (case cat_from_str (tl rest) of
           None \<Rightarrow> Inl (UnknownCategory (tl rest))
         | Some c \<Rightarrow> Inr (if allow then AllowCat c else DenyCat c))
      else if rest = [] then Inl EmptyCommand
      else Inr (if allow then AllowCmd (to_upper rest) else DenyCmd (to_upper rest)))"

definition hex_digit :: "nat \<Rightarrow> char" where
  "hex_digit n = (if n < 10 then char_of (48 + n) else char_of (87 + n))"

definition hex_encode :: "bytes \<Rightarrow> string" where
  "hex_encode b = concat (map (\<lambda>x. [hex_digit (unat x div 16), hex_digit (unat x mod 16)]) b)"

definition hex_value :: "char \<Rightarrow> nat option" where
  "hex_value c =
     (let n = of_char c :: nat in
      if 48 \<le> n \<and> n \<le> 57 then Some (n - 48)
      else if 97 \<le> n \<and> n \<le> 102 then Some (n - 87)
      else if 65 \<le> n \<and> n \<le> 70 then Some (n - 55)
      else None)"

text \<open>\<open>u8::from_str_radix\<close> on two bytes: it accepts a plus sign.\<close>

definition radix16 :: "char \<Rightarrow> char \<Rightarrow> byte option" where
  "radix16 a b =
     (if a = CHR ''+'' then map_option of_nat (hex_value b)
      else case (hex_value a, hex_value b) of
        (Some x, Some y) \<Rightarrow> Some (of_nat (16 * x + y))
      | _ \<Rightarrow> None)"

fun hex_decode :: "string \<Rightarrow> bytes option" where
  "hex_decode [] = Some []"
| "hex_decode [a] = None"
| "hex_decode (a # b # r) =
     (case radix16 a b of None \<Rightarrow> None | Some x \<Rightarrow> map_option ((#) x) (hex_decode r))"

definition parse_hashed :: "string \<Rightarrow> (bytes \<times> bytes) option" where
  "parse_hashed raw =
     (case position (\<lambda>c. c = CHR '':'') raw of
        None \<Rightarrow> None
      | Some i \<Rightarrow>
          (case (hex_decode (take i raw), hex_decode (drop (i + 1) raw)) of
             (Some s, Some h) \<Rightarrow> if length s = 16 \<and> length h = 32 then Some (s, h) else None
           | _ \<Rightarrow> None))"

definition apply_token :: "string \<Rightarrow> bytes \<Rightarrow> string \<Rightarrow> user \<Rightarrow> acl_err + user" where
  "apply_token username salt t u =
     (let lower = to_lower t in
      if lower = ''on'' then Inr (u\<lparr>enabled := True\<rparr>)
      else if lower = ''off'' then Inr (u\<lparr>enabled := False\<rparr>)
      else if lower = ''nopass'' then Inr (u\<lparr>password := None\<rparr>)
      else if lower = ''resetpass'' then Inr (u\<lparr>password := Some no_password\<rparr>)
      else if lower = ''allkeys'' then Inr (u\<lparr>key_patterns := [[42]]\<rparr>)
      else if lower = ''resetkeys'' then Inr (u\<lparr>key_patterns := []\<rparr>)
      else if lower = ''allcommands'' then Inr (u\<lparr>rules := [AllowCat CAll]\<rparr>)
      else if lower = ''nocommands'' then Inr (u\<lparr>rules := []\<rparr>)
      else if lower = ''reset'' then Inr (new_restricted username)
      else if t = [] then Inl (TokenSyntax t)
      else if hd t = CHR ''#'' then
        (case parse_hashed (tl t) of None \<Rightarrow> Inl (BadHash t) | Some p \<Rightarrow> Inr (u\<lparr>password := Some p\<rparr>))
      else if hd t = CHR ''>'' then Inr (u\<lparr>password := Some (salt, hash_password (as_bytes (tl t)) salt)\<rparr>)
      else if hd t = CHR ''~'' then Inr (u\<lparr>key_patterns := key_patterns u @ [as_bytes (tl t)]\<rparr>)
      else if hd t = CHR ''+'' then map_sum id (\<lambda>r. u\<lparr>rules := rules u @ [r]\<rparr>) (parse_rule (tl t) True)
      else if hd t = CHR ''-'' then map_sum id (\<lambda>r. u\<lparr>rules := rules u @ [r]\<rparr>) (parse_rule (tl t) False)
      else Inl (TokenSyntax t))"

fun apply_tokens :: "string \<Rightarrow> (nat \<Rightarrow> bytes) \<Rightarrow> nat \<Rightarrow> string list \<Rightarrow> user \<Rightarrow> acl_err + user" where
  "apply_tokens username salt n [] u = Inr u"
| "apply_tokens username salt n (t # ts) u =
     (case apply_token username (salt n) t u of
        Inl e \<Rightarrow> Inl e
      | Inr u' \<Rightarrow> apply_tokens username salt (n + 1) ts u')"

section \<open>The store\<close>

record acl_store =
  users :: "(string, user) btree"
  requirepass :: bool
  strict :: bool

definition acl_new :: "bytes \<Rightarrow> string option \<Rightarrow> acl_store" where
  "acl_new salt pass =
     (let default = (case pass of
            None \<Rightarrow> superuser ''default''
          | Some pw \<Rightarrow> (superuser ''default'')\<lparr>password := Some (salt, hash_password (as_bytes pw) salt)\<rparr>)
      in \<lparr>users = bt_insert ''default'' default [], requirepass = (pass \<noteq> None), strict = (pass \<noteq> None)\<rparr>)"

definition needs_permission_check :: "acl_store \<Rightarrow> bool" where
  "needs_permission_check st = strict st"

definition latch_strict :: "acl_store \<Rightarrow> acl_store" where
  "latch_strict st = st\<lparr>strict := True\<rparr>"

definition requires_auth :: "acl_store \<Rightarrow> bool" where
  "requires_auth st = requirepass st"

definition auth_user :: "acl_store \<Rightarrow> string \<Rightarrow> string \<Rightarrow> bool" where
  "auth_user st username pw =
     (case bt_get (users st) username of
        None \<Rightarrow> False
      | Some u \<Rightarrow>
          if enabled u then
            (case password u of None \<Rightarrow> True | Some (salt, hash) \<Rightarrow> verify_password (as_bytes pw) salt hash)
          else False)"

definition auth_default :: "acl_store \<Rightarrow> string \<Rightarrow> bool" where
  "auth_default st pw = auth_user st ''default'' pw"

definition can_command :: "acl_store \<Rightarrow> string \<Rightarrow> string \<Rightarrow> perm_category list \<Rightarrow> bool" where
  "can_command st username cmd cats =
     (case bt_get (users st) username of None \<Rightarrow> False | Some u \<Rightarrow> user_can_command u cmd cats)"

definition can_keys :: "acl_store \<Rightarrow> string \<Rightarrow> bytes list \<Rightarrow> bool" where
  "can_keys st username ks =
     (case bt_get (users st) username of None \<Rightarrow> False | Some u \<Rightarrow> list_all (can_key u) ks)"

definition set_user :: "(nat \<Rightarrow> bytes) \<Rightarrow> string \<Rightarrow> string list \<Rightarrow> acl_store \<Rightarrow> acl_err + acl_store" where
  "set_user salt username tokens st =
     (let u = (case bt_get (users st) username of None \<Rightarrow> new_restricted username | Some u \<Rightarrow> u)
      in case apply_tokens username salt 0 tokens u of
           Inl e \<Rightarrow> Inl e
         | Inr u' \<Rightarrow> Inr (latch_strict (st\<lparr>users := bt_insert username u' (users st)\<rparr>)))"

definition del_user :: "string \<Rightarrow> acl_store \<Rightarrow> bool \<times> acl_store" where
  "del_user username st =
     (if username = ''default'' then (False, st)
      else if bt_get (users st) username = None then (False, st)
      else (True, latch_strict (st\<lparr>users := bt_remove username (users st)\<rparr>)))"

definition get_user_info :: "acl_store \<Rightarrow> string \<Rightarrow> (string \<times> string) list option" where
  "get_user_info st username =
     map_option (\<lambda>u.
       let flags = (if enabled u then ''on'' else ''off'');
           cmds = filter (\<lambda>t. t \<noteq> [] \<and> (hd t = CHR ''+'' \<or> hd t = CHR ''-'')) (split_on CHR '' '' (describe u))
       in [(''flags'', if password u = None then flags @ '' nopass'' else flags),
           (''commands'', if cmds = [] then ''-@all'' else join_with '' '' cmds),
           (''keys'', join_with '' '' (map (\<lambda>p. CHR ''~'' # from_bytes p) (key_patterns u)))])
       (bt_get (users st) username)"

definition dump_line :: "user \<Rightarrow> string" where
  "dump_line u =
     join_with '' '' ([name u, ''reset'']
       @ [case password u of None \<Rightarrow> ''nopass'' | Some (salt, hash) \<Rightarrow> CHR ''#'' # hex_encode salt @ '':'' @ hex_encode hash]
       @ filter (\<lambda>t. t \<noteq> ''nopass'') (split_on CHR '' '' (describe u)))"

definition acl_dump :: "acl_store \<Rightarrow> string" where
  "acl_dump st = join_with [CHR 0x0A] (sort (map (\<lambda>(_, u). dump_line u) (users st)))"

fun load_lines :: "(nat \<Rightarrow> nat \<Rightarrow> bytes) \<Rightarrow> nat \<Rightarrow> string list \<Rightarrow> acl_store \<Rightarrow> acl_err + acl_store" where
  "load_lines salt n [] st = Inr st"
| "load_lines salt n (l # ls) st =
     (let parts = split_on CHR '' '' l
      in case set_user (salt n) (hd parts) (tl parts) st of
           Inl e \<Rightarrow> Inl e
         | Inr st' \<Rightarrow> load_lines salt (n + 1) ls st')"

definition acl_load :: "(nat \<Rightarrow> nat \<Rightarrow> bytes) \<Rightarrow> string \<Rightarrow> acl_store \<Rightarrow> acl_err + nat \<times> acl_store" where
  "acl_load salt txt st =
     (let ls = filter (\<lambda>l. \<not> is_blank l) (text_lines txt)
      in case load_lines salt 0 ls \<lparr>users = [], requirepass = requirepass st, strict = True\<rparr> of
           Inl e \<Rightarrow> Inl e
         | Inr staged \<Rightarrow>
             if bt_get (users staged) ''default'' = None then Inl NoDefaultUser
             else Inr (length ls, latch_strict (st\<lparr>users := users staged\<rparr>)))"

definition list_users :: "acl_store \<Rightarrow> string list" where
  "list_users st = sort (map (\<lambda>(_, u). ''user '' @ name u @ '' '' @ describe u) (users st))"

section \<open>Connections\<close>

datatype auth_reply = AuthNotConfigured | AuthOk | WrongPass | AuthArity

definition strip_gt :: "string \<Rightarrow> string" where
  "strip_gt s = (if s \<noteq> [] \<and> hd s = CHR ''>'' then tl s else s)"

definition dispatch_auth :: "acl_store \<Rightarrow> bytes list \<Rightarrow> string \<Rightarrow> auth_reply \<times> acl_store \<times> string" where
  "dispatch_auth st args current =
     (if length args = 1 \<and> \<not> requires_auth st then (AuthNotConfigured, st, current)
      else if length args = 1 then
        (if auth_default st (strip_gt (from_utf8_lossy (args ! 0))) then (AuthOk, st, ''default'') else (WrongPass, st, current))
      else if length args = 2 then
        (let username = from_utf8_lossy (args ! 0)
         in if auth_user st username (strip_gt (from_utf8_lossy (args ! 1)))
            then (AuthOk, latch_strict st, username) else (WrongPass, st, current))
      else (AuthArity, st, current))"

text \<open>The \<open>AUTH\<close> clause of \<open>HELLO\<close>: everything after it is handed to \<open>dispatch_auth\<close>.\<close>

definition hello_auth :: "acl_store \<Rightarrow> bytes list \<Rightarrow> string \<Rightarrow> auth_reply option \<times> acl_store \<times> string" where
  "hello_auth st args current =
     (case position (\<lambda>a. eq_ignore_ascii_case a (as_bytes ''AUTH'')) args of
        None \<Rightarrow> (None, st, current)
      | Some ix \<Rightarrow> (case dispatch_auth st (drop (ix + 1) args) current of (r, s) \<Rightarrow> (Some r, s)))"

definition new_connection :: "acl_store \<Rightarrow> string" where
  "new_connection st = (if requires_auth st then [] else ''default'')"

section \<open>The gate\<close>

datatype denial = NoAuth | NoCommand | NoKey

definition acl_denial :: "acl_store \<Rightarrow> string \<Rightarrow> string \<Rightarrow> bytes list \<Rightarrow> denial option" where
  "acl_denial st username cmd args =
     (if \<not> can_command st username cmd (command_categories cmd) then Some NoCommand
      else let ks = command_keys cmd args
           in if ks \<noteq> [] \<and> \<not> can_keys st username ks then Some NoKey else None)"

definition gate :: "acl_store \<Rightarrow> string \<Rightarrow> string \<Rightarrow> bytes list \<Rightarrow> denial option" where
  "gate st current cmd args =
     (if requires_auth st \<and> current = [] then Some NoAuth
      else if needs_permission_check st then acl_denial st current cmd args
      else None)"

end
