(* ===== verification/Acl_Proofs.thy ===== *)
theory Acl_Proofs
  imports Acl "HOL-Library.Multiset"
begin

text \<open>
  What the access control guarantees: the last matching rule decides, the fast path of the gate
  is invisible, a saved table loads unchanged, and passwords set are the ones accepted.  The last
  section shows where blanks in a pattern, \<open>GETAT\<close> and the \<open>AUTH\<close> arguments fall short of that.
\<close>

section \<open>Splitting and joining\<close>

lemma split_on_nonempty [simp]: "split_on c xs \<noteq> []"
  by (cases xs) (auto split: list.splits)

lemma split_on_plain: "c \<notin> set xs \<Longrightarrow> split_on c xs = [xs]"
  by (induction xs) auto

lemma split_on_append: "c \<notin> set xs \<Longrightarrow> split_on c (xs @ c # ys) = xs # split_on c ys"
  by (induction xs) auto

lemma split_join: "ts \<noteq> [] \<Longrightarrow> \<forall>t\<in>set ts. c \<notin> set t \<Longrightarrow> split_on c (join_with [c] ts) = ts"
  by (induction "[c]" ts rule: join_with.induct) (simp_all add: split_on_plain split_on_append)

lemma set_join_with: "set (join_with sep ts) \<subseteq> set sep \<union> \<Union> (set ` set ts)"
  by (induction sep ts rule: join_with.induct) auto

lemma set_join_part: "t \<in> set ts \<Longrightarrow> set t \<subseteq> set (join_with sep ts)"
  by (induction sep ts rule: join_with.induct) auto

definition plain_text :: "string \<Rightarrow> bool" where
  "plain_text s \<longleftrightarrow> CHR '' '' \<notin> set s \<and> CHR 0x0A \<notin> set s \<and> CHR 0x0D \<notin> set s"

lemma text_lines_join:
  assumes "ls \<noteq> []" and "\<forall>l\<in>set ls. CHR 0x0A \<notin> set l \<and> CHR 0x0D \<notin> set l" and "last ls \<noteq> []"
  shows "text_lines (join_with [CHR 0x0A] ls) = ls"
proof -
  have "strip_cr l = l" if "l \<in> set ls" for l
    using assms(2) that last_in_set [of l] by (metis strip_cr_def)
  then have "map strip_cr (butlast ls) = butlast ls" by (intro map_idI) (meson in_set_butlastD)
  then show ?thesis using assms by (simp add: text_lines_def split_join Let_def)
qed

text \<open>A line with an ASCII letter is not blank.\<close>

lemma strip_seqs_keeps: "x \<in> set s \<Longrightarrow> \<forall>w\<in>set ws. x \<notin> set w \<Longrightarrow> x \<in> set (strip_seqs ws s)"
proof (induction ws s rule: strip_seqs.induct)
  case (1 ws s)
  show ?case
  proof (cases "List.find (\<lambda>w. w \<noteq> [] \<and> starts_with s w) ws")
    case None
    then show ?thesis using 1 by (simp add: strip_seqs.simps [of ws s])
  next
    case (Some w)
    then have w: "w \<in> set ws" "starts_with s w" by (auto simp: find_Some_iff)
    then have "s = w @ drop (length w) s" unfolding starts_with_def by (metis append_take_drop_id)
    then have "x \<in> set (drop (length w) s)" using 1 w(1) by (metis UnE set_append)
    then show ?thesis using 1 Some by (simp add: strip_seqs.simps [of ws s])
  qed
qed

lemma trim_keeps: "x \<in> set s \<Longrightarrow> \<forall>w\<in>set white_space. x \<notin> set w \<Longrightarrow> trim s \<noteq> []"
  using strip_seqs_keeps [of x s white_space] strip_seqs_keeps [of x "rev (strip_seqs white_space s)" "map rev white_space"]
  by (auto simp: trim_def)

lemma not_blank_letter: "CHR ''r'' \<in> set l \<Longrightarrow> \<not> is_blank l"
proof -
  assume "CHR ''r'' \<in> set l"
  then have "of_nat (of_char (CHR ''r'')) \<in> set (as_bytes l)" unfolding as_bytes_def by (auto simp del: of_char_Char)
  then have "114 \<in> set (as_bytes l)" by simp
  moreover have "\<forall>w\<in>set white_space. (114 :: byte) \<notin> set w" by (simp add: white_space_def)
  ultimately show ?thesis unfolding is_blank_def by (rule trim_keeps)
qed

section \<open>Hexadecimal\<close>

lemma hex_value_digit: "n < 16 \<Longrightarrow> hex_value (hex_digit n) = Some n"
  by (auto simp: hex_value_def hex_digit_def Let_def)

lemma hex_digit_plain:
  assumes "n < 16"
  shows "hex_digit n \<noteq> CHR ''+'' \<and> hex_digit n \<noteq> CHR '':'' \<and> hex_digit n \<noteq> CHR '' '' \<and> hex_digit n \<noteq> CHR 0x0A \<and> hex_digit n \<noteq> CHR 0x0D"
proof -
  have none: "hex_value CHR ''+'' = None" "hex_value CHR '':'' = None" "hex_value CHR '' '' = None"
    "hex_value CHR 0x0A = None" "hex_value CHR 0x0D = None"
    by code_simp+
  have d: "hex_digit n \<noteq> c" if "hex_value c = None" for c
    using that hex_value_digit [OF assms] by (metis option.distinct(1))
  show ?thesis by (intro conjI d none)
qed

lemma hex_roundtrip: "hex_decode (hex_encode b) = Some b"
proof (induction b)
  case (Cons x b)
  have u: "unat x < 256" by (rule unat_byte_less)
  then have "unat x div 16 < 16" "unat x mod 16 < 16" by auto
  then have "radix16 (hex_digit (unat x div 16)) (hex_digit (unat x mod 16)) = Some (of_nat (16 * (unat x div 16) + unat x mod 16))"
    using hex_digit_plain by (simp add: radix16_def hex_value_digit)
  then have "radix16 (hex_digit (unat x div 16)) (hex_digit (unat x mod 16)) = Some x" by simp
  then show ?case using Cons by (simp add: hex_encode_def)
qed (simp add: hex_encode_def)

lemma hex_encode_plain: "c \<in> set (hex_encode b) \<Longrightarrow> c \<noteq> CHR '':'' \<and> c \<noteq> CHR '' '' \<and> c \<noteq> CHR 0x0A \<and> c \<noteq> CHR 0x0D"
proof -
  assume "c \<in> set (hex_encode b)"
  then obtain x :: byte where "c = hex_digit (unat x div 16) \<or> c = hex_digit (unat x mod 16)" by (auto simp: hex_encode_def)
  moreover have "unat x div 16 < 16" "unat x mod 16 < 16" using unat_byte_less [of x] by auto
  ultimately obtain n where "c = hex_digit n" "n < 16" by metis
  then show ?thesis by (simp only: hex_digit_plain simp_thms)
qed

lemma position_found: "\<forall>x\<in>set xs. \<not> P x \<Longrightarrow> P y \<Longrightarrow> position P (xs @ y # ys) = Some (length xs)"
  by (induction xs) auto

lemma parse_hashed_dump:
  assumes "length salt = 16" and "length hash = 32"
  shows "parse_hashed (hex_encode salt @ CHR '':'' # hex_encode hash) = Some (salt, hash)"
proof -
  have "position (\<lambda>c. c = CHR '':'') (hex_encode salt @ CHR '':'' # hex_encode hash) = Some (length (hex_encode salt))"
    by (rule position_found) (use hex_encode_plain in auto)
  then show ?thesis using assms by (simp add: parse_hashed_def hex_roundtrip)
qed

section \<open>What the saved text says\<close>

text \<open>
  A user whose text form is faithful: no blanks or line ends in the name and the patterns, rule
  commands as \<open>parse_rule\<close> makes them, salt and hash of the fixed sizes.
\<close>

fun rule_ok :: "rule \<Rightarrow> bool" where
  "rule_ok (AllowCmd c) \<longleftrightarrow> c \<noteq> [] \<and> hd (to_lower c) \<noteq> CHR ''@'' \<and> to_upper (to_lower c) = c \<and> plain_text (to_lower c)"
| "rule_ok (DenyCmd c) \<longleftrightarrow> c \<noteq> [] \<and> hd (to_lower c) \<noteq> CHR ''@'' \<and> to_upper (to_lower c) = c \<and> plain_text (to_lower c)"
| "rule_ok (AllowCat c) \<longleftrightarrow> True"
| "rule_ok (DenyCat c) \<longleftrightarrow> True"

definition user_ok :: "user \<Rightarrow> bool" where
  "user_ok u \<longleftrightarrow> plain_text (name u) \<and> list_all (\<lambda>p. plain_text (from_bytes p)) (key_patterns u)
     \<and> list_all rule_ok (rules u)
     \<and> (case password u of None \<Rightarrow> True | Some (salt, hash) \<Rightarrow> length salt = 16 \<and> length hash = 32)"

definition store_ok :: "acl_store \<Rightarrow> bool" where
  "store_ok st \<longleftrightarrow> bt_wf (users st) \<and> list_all (\<lambda>(k, u). name u = k \<and> user_ok u) (users st)
     \<and> bt_get (users st) ''default'' \<noteq> None"

definition dump_tokens :: "user \<Rightarrow> string list" where
  "dump_tokens u =
     ''reset''
     # (case password u of None \<Rightarrow> ''nopass'' | Some (salt, hash) \<Rightarrow> CHR ''#'' # hex_encode salt @ '':'' @ hex_encode hash)
     # (if enabled u then ''on'' else ''off'')
     # map (\<lambda>p. CHR ''~'' # from_bytes p) (key_patterns u) @ map rule_token (rules u)"

lemma cat_name_plain: "plain_text (cat_name c)"
  by (cases c) (simp_all add: plain_text_def)

lemma cat_from_name: "cat_from_str (cat_name c) = Some c"
proof -
  have "list_all (\<lambda>c. cat_from_str (cat_name c) = Some c)
      [CAll, CRead, CWrite, CAdmin, CDangerous, CPubSub, CVector, CTimeSeries, CMemory, CTable, CReduce, CConnection]"
    by code_simp
  then show ?thesis by (cases c) simp_all
qed

lemma rule_token_plain: "rule_ok r \<Longrightarrow> plain_text (rule_token r)"
  using cat_name_plain by (cases r) (auto simp: rule_token_def plain_text_def)

lemma describe_tokens_plain:
  assumes "user_ok u" and "t \<in> set (describe_tokens u)"
  shows "plain_text t"
proof -
  have "\<forall>p\<in>set (key_patterns u). plain_text (from_bytes p)" "\<forall>r\<in>set (rules u). rule_ok r"
    using assms(1) by (simp_all add: user_ok_def list_all_iff)
  then show ?thesis
    using assms(2) rule_token_plain by (auto simp: describe_tokens_def plain_text_def split: if_splits)
qed

lemma split_describe: "user_ok u \<Longrightarrow> split_on CHR '' '' (describe u) = describe_tokens u"
  unfolding describe_def
  by (rule split_join) (use describe_tokens_plain in \<open>auto simp: describe_tokens_def plain_text_def\<close>)

lemma filter_describe:
  "filter (\<lambda>t. t \<noteq> ''nopass'') (describe_tokens u) =
     (if enabled u then ''on'' else ''off'') # map (\<lambda>p. CHR ''~'' # from_bytes p) (key_patterns u) @ map rule_token (rules u)"
proof -
  have "filter (\<lambda>t. t \<noteq> ''nopass'') (map (\<lambda>p. CHR ''~'' # from_bytes p) ps) = map (\<lambda>p. CHR ''~'' # from_bytes p) ps" for ps
    by (induction ps) auto
  moreover have "filter (\<lambda>t. t \<noteq> ''nopass'') (map rule_token rs) = map rule_token rs" for rs
    by (induction rs) (auto simp: rule_token_def split: rule.splits)
  ultimately show ?thesis by (simp add: describe_tokens_def)
qed

lemma dump_line_tokens: "user_ok u \<Longrightarrow> dump_line u = join_with '' '' (name u # dump_tokens u)"
  by (simp add: dump_line_def split_describe filter_describe dump_tokens_def)

lemma dump_tokens_plain:
  assumes "user_ok u" and "t \<in> set (name u # dump_tokens u)"
  shows "plain_text t"
proof -
  have h: "plain_text (CHR ''#'' # hex_encode s @ '':'' @ hex_encode h)" for s h
    using hex_encode_plain by (auto simp: plain_text_def)
  have "plain_text (name u)" using assms(1) by (simp add: user_ok_def)
  moreover have "plain_text ''reset''" "plain_text ''nopass''" by (simp_all add: plain_text_def)
  moreover have "t \<in> set (describe_tokens u) \<Longrightarrow> plain_text t" by (rule describe_tokens_plain [OF assms(1)])
  ultimately show ?thesis using assms(2) h
    by (auto simp: dump_tokens_def describe_tokens_def split: option.splits)
qed

lemma split_dump_line: "user_ok u \<Longrightarrow> split_on CHR '' '' (dump_line u) = name u # dump_tokens u"
  unfolding dump_line_tokens by (rule split_join) (use dump_tokens_plain in \<open>auto simp: plain_text_def\<close>)

lemma dump_line_plain:
  assumes "user_ok u"
  shows "CHR 0x0A \<notin> set (dump_line u)" "CHR 0x0D \<notin> set (dump_line u)" "\<not> is_blank (dump_line u)" "dump_line u \<noteq> []"
proof -
  have s: "set (dump_line u) \<subseteq> {CHR '' ''} \<union> \<Union> (set ` set (name u # dump_tokens u))"
    using set_join_with [of "'' ''" "name u # dump_tokens u"] unfolding dump_line_tokens [OF assms] by simp
  have "\<forall>t\<in>set (name u # dump_tokens u). CHR 0x0A \<notin> set t \<and> CHR 0x0D \<notin> set t"
    using dump_tokens_plain [OF assms] by (simp add: plain_text_def)
  then show "CHR 0x0A \<notin> set (dump_line u)" "CHR 0x0D \<notin> set (dump_line u)" using s by force+
  have "set ''reset'' \<subseteq> set (dump_line u)"
    unfolding dump_line_tokens [OF assms] by (rule set_join_part) (simp add: dump_tokens_def)
  then have r: "CHR ''r'' \<in> set (dump_line u)" by simp
  then show "\<not> is_blank (dump_line u)" by (rule not_blank_letter)
  show "dump_line u \<noteq> []" using r by auto
qed

section \<open>What loading it does\<close>

text \<open>A token that begins with a sign is not one of the words.\<close>

lemma to_lower_sign: "hd t \<in> {CHR ''#'', CHR ''~'', CHR ''+'', CHR ''-''} \<Longrightarrow> t \<noteq> [] \<Longrightarrow>
    to_lower t \<notin> {''on'', ''off'', ''nopass'', ''resetpass'', ''allkeys'', ''resetkeys'', ''allcommands'', ''nocommands'', ''reset''}"
  by (cases t) (auto simp: to_lower_def ascii_lower_char_def)

lemma apply_sign:
  assumes "t \<noteq> []" and "hd t \<in> {CHR ''#'', CHR ''~'', CHR ''+'', CHR ''-''}"
  shows "apply_token username salt t u =
     (if hd t = CHR ''#'' then
        (case parse_hashed (tl t) of None \<Rightarrow> Inl (BadHash t) | Some p \<Rightarrow> Inr (u\<lparr>password := Some p\<rparr>))
      else if hd t = CHR ''~'' then Inr (u\<lparr>key_patterns := key_patterns u @ [as_bytes (tl t)]\<rparr>)
      else if hd t = CHR ''+'' then map_sum id (\<lambda>r. u\<lparr>rules := rules u @ [r]\<rparr>) (parse_rule (tl t) True)
      else map_sum id (\<lambda>r. u\<lparr>rules := rules u @ [r]\<rparr>) (parse_rule (tl t) False))"
proof -
  have "to_lower t \<noteq> ''on''" "to_lower t \<noteq> ''off''" "to_lower t \<noteq> ''nopass''" "to_lower t \<noteq> ''resetpass''"
    "to_lower t \<noteq> ''allkeys''" "to_lower t \<noteq> ''resetkeys''" "to_lower t \<noteq> ''allcommands''"
    "to_lower t \<noteq> ''nocommands''" "to_lower t \<noteq> ''reset''"
    using to_lower_sign [OF assms(2,1)] by simp_all
  then show ?thesis using assms by (auto simp: apply_token_def Let_def)
qed

lemma apply_word:
  "apply_token username salt ''on'' u = Inr (u\<lparr>enabled := True\<rparr>)"
  "apply_token username salt ''off'' u = Inr (u\<lparr>enabled := False\<rparr>)"
  "apply_token username salt ''nopass'' u = Inr (u\<lparr>password := None\<rparr>)"
  "apply_token username salt ''reset'' u = Inr (new_restricted username)"
proof -
  have "to_lower ''on'' = ''on''" "to_lower ''off'' = ''off''" "to_lower ''nopass'' = ''nopass''" "to_lower ''reset'' = ''reset''"
    by code_simp+
  then show "apply_token username salt ''on'' u = Inr (u\<lparr>enabled := True\<rparr>)"
    "apply_token username salt ''off'' u = Inr (u\<lparr>enabled := False\<rparr>)"
    "apply_token username salt ''nopass'' u = Inr (u\<lparr>password := None\<rparr>)"
    "apply_token username salt ''reset'' u = Inr (new_restricted username)"
    by (simp_all add: apply_token_def)
qed

lemma apply_hash:
  "length s = 16 \<Longrightarrow> length h = 32 \<Longrightarrow>
   apply_token username salt (CHR ''#'' # hex_encode s @ '':'' @ hex_encode h) u = Inr (u\<lparr>password := Some (s, h)\<rparr>)"
  using parse_hashed_dump [of s h] by (simp add: apply_sign)

lemma apply_pattern:
  "apply_token username salt (CHR ''~'' # from_bytes p) u = Inr (u\<lparr>key_patterns := key_patterns u @ [p]\<rparr>)"
  by (simp add: apply_sign)

lemma apply_rule_token:
  "rule_ok r \<Longrightarrow> apply_token username salt (rule_token r) u = Inr (u\<lparr>rules := rules u @ [r]\<rparr>)"
  by (cases r) (auto simp: rule_token_def apply_sign parse_rule_def cat_from_name to_lower_def)

lemma apply_patterns:
  "apply_tokens username salt n (map (\<lambda>p. CHR ''~'' # from_bytes p) ps @ ts) u
     = apply_tokens username salt (n + length ps) ts (u\<lparr>key_patterns := key_patterns u @ ps\<rparr>)"
  by (induction ps arbitrary: n u) (simp_all add: apply_pattern)

lemma apply_rules:
  "list_all rule_ok rs \<Longrightarrow> apply_tokens username salt n (map rule_token rs) u = Inr (u\<lparr>rules := rules u @ rs\<rparr>)"
  by (induction rs arbitrary: n u) (simp_all add: apply_rule_token)

lemma apply_dump:
  assumes "user_ok u"
  shows "apply_tokens (name u) salt 0 (dump_tokens u) v = Inr u"
proof -
  have r: "list_all rule_ok (rules u)" using assms by (simp add: user_ok_def)
  have "apply_tokens (name u) salt 0 (dump_tokens u) v
      = apply_tokens (name u) salt 3 (map (\<lambda>p. CHR ''~'' # from_bytes p) (key_patterns u) @ map rule_token (rules u))
          (new_restricted (name u)\<lparr>password := password u, enabled := enabled u\<rparr>)"
    using assms by (auto simp: dump_tokens_def apply_word apply_hash [simplified] user_ok_def numeral_3_eq_3 split: option.splits)
  then show ?thesis by (simp add: apply_patterns apply_rules [OF r] new_restricted_def)
qed

lemma set_user_dump:
  "user_ok u \<Longrightarrow> set_user salt (name u) (dump_tokens u) st = Inr (latch_strict (st\<lparr>users := bt_insert (name u) u (users st)\<rparr>))"
  by (simp add: set_user_def apply_dump Let_def)

lemma load_dump_lines:
  "\<forall>u\<in>set us. user_ok u \<Longrightarrow> strict st \<Longrightarrow>
     load_lines salt n (map dump_line us) st = Inr (st\<lparr>users := fold (\<lambda>(k, u). bt_insert k u) (map (\<lambda>u. (name u, u)) us) (users st)\<rparr>)"
proof (induction us arbitrary: n st)
  case (Cons u us)
  then show ?case by (simp add: split_dump_line set_user_dump latch_strict_def Let_def)
qed simp

lemma mset_map_split: "mset ys = mset (map f xs) \<Longrightarrow> \<exists>zs. mset zs = mset xs \<and> ys = map f zs"
proof (induction ys arbitrary: xs)
  case (Cons y ys)
  then have "y \<in> set (map f xs)" by (metis list.set_intros(1) set_mset_mset)
  then obtain x where x: "x \<in> set xs" "y = f x" by auto
  have "mset ys = mset (map f (remove1 x xs))" using Cons.prems x by (simp add: image_mset_Diff) (metis add_mset_remove_trivial)
  from Cons.IH [OF this] obtain zs where "mset zs = mset (remove1 x xs)" "ys = map f zs" by blast
  then show ?case using x by (intro exI [of _ "x # zs"]) simp
qed simp

theorem load_dump:
  assumes ok: "store_ok st"
  shows "acl_load salt (acl_dump st) st' = Inr (length (users st), latch_strict (st'\<lparr>users := users st\<rparr>))"
proof -
  let ?us = "map snd (users st)"
  have wf: "bt_wf (users st)" and ks: "\<forall>(k, u)\<in>set (users st). name u = k \<and> user_ok u"
    and d: "bt_get (users st) ''default'' \<noteq> None"
    using ok by (auto simp: store_ok_def list_all_iff)
  have pairs: "map (\<lambda>u. (name u, u)) ?us = users st"
    using ks by (auto simp: comp_def intro!: map_idI)
  have "mset (sort (map dump_line ?us)) = mset (map dump_line ?us)" by simp
  from mset_map_split [OF this] obtain us where us: "mset us = mset ?us" "sort (map dump_line ?us) = map dump_line us" by blast
  have set_us: "set us = set ?us" using us(1) by (metis set_mset_mset)
  have good: "\<forall>u\<in>set us. user_ok u" unfolding set_us using ks by auto
  have ne: "us \<noteq> []" using d us(1) by (cases "users st") auto
  have dump: "acl_dump st = join_with [CHR 0x0A] (map dump_line us)"
    unfolding acl_dump_def us(2) [symmetric] by (simp add: case_prod_unfold comp_def)
  have lines: "text_lines (acl_dump st) = map dump_line us"
    unfolding dump by (rule text_lines_join) (use ne good dump_line_plain last_in_set [OF ne] in \<open>auto simp: last_map\<close>)
  have blank: "filter (\<lambda>l. \<not> is_blank l) (map dump_line us) = map dump_line us"
    using good dump_line_plain(3) by (intro filter_True) auto
  let ?kvs = "map (\<lambda>u. (name u, u)) us"
  have kvs: "mset ?kvs = mset (users st)"
    using us(1) arg_cong [OF pairs, of mset] by (metis mset_map)
  have "distinct (map fst ?kvs)"
    using kvs bt_wf_distinct [OF wf] by (metis mset_map mset_eq_imp_distinct_iff)
  then have dist: "distinct (map fst (rev ?kvs))" by (simp add: rev_map [symmetric])
  have "map_of (rev ?kvs) = map_of (users st)"
    using map_of_inject_set [OF dist bt_wf_distinct [OF wf]] kvs by (metis set_mset_mset set_rev)
  then have g: "bt_get (fold (\<lambda>(k, u). bt_insert k u) ?kvs []) = bt_get (users st)"
    using bt.get_insrt_fold [of "[]" ?kvs] by (simp add: map_add_def)
  have same: "fold (\<lambda>(k, u). bt_insert k u) ?kvs [] = users st"
    by (rule bt.entries_ext [OF bt.wf_insrt_fold [OF bt_wf_Nil] wf g])
  have len: "length us = length (users st)" using us(1) by (metis length_map size_mset)
  show ?thesis
    using load_dump_lines [OF good, of "\<lparr>users = [], requirepass = requirepass st', strict = True\<rparr>" salt 0] same d len
    by (simp add: acl_load_def lines blank)
qed

section \<open>Rules and the fast path\<close>

text \<open>What a rule says about a command, and the decision as the last rule that says anything.\<close>

definition rule_matches :: "string \<Rightarrow> perm_category list \<Rightarrow> rule \<Rightarrow> bool" where
  "rule_matches cmd cats r =
     (case r of AllowCmd c \<Rightarrow> c = cmd | DenyCmd c \<Rightarrow> c = cmd
      | AllowCat c \<Rightarrow> c = CAll \<or> c \<in> set cats | DenyCat c \<Rightarrow> c = CAll \<or> c \<in> set cats)"

definition rule_allows :: "rule \<Rightarrow> bool" where
  "rule_allows r = (case r of AllowCmd _ \<Rightarrow> True | AllowCat _ \<Rightarrow> True | _ \<Rightarrow> False)"

lemma apply_rule_verdict:
  "apply_rule cmd cats r allowed = (if rule_matches cmd cats r then rule_allows r else allowed)"
  by (cases r) (auto simp: rule_matches_def rule_allows_def)

lemma fold_apply_rule:
  "fold (apply_rule cmd cats) rs allowed =
     (case List.find (rule_matches cmd cats) (rev rs) of None \<Rightarrow> allowed | Some r \<Rightarrow> rule_allows r)"
proof (induction rs arbitrary: allowed rule: rev_induct)
  case (snoc r rs)
  then show ?case by (simp add: apply_rule_verdict)
qed simp

text \<open>A pattern of one star admits every key.\<close>

lemma star_matches: "glob_match [42] s = Some True"
proof -
  have "tokens_match [AnyString] s" for s by (induction s) auto
  then show ?thesis by (simp add: glob_match_exact glob_spec_def)
qed

lemma superuser_may: "bt_get (users st) nm = Some u \<Longrightarrow> enabled u \<Longrightarrow> rules u = [AllowCat CAll] \<Longrightarrow> key_patterns u = [[42]] \<Longrightarrow>
    acl_denial st nm cmd args = None"
  by (simp add: acl_denial_def can_command_def can_keys_def user_can_command_def can_key_def star_matches list_all_iff Let_def)

text \<open>
  The states a server passes through with one connection's user: the administration commands of
  any connection, and the authentication attempts of this one.
\<close>

inductive acl_reach :: "acl_store \<Rightarrow> string \<Rightarrow> bool" where
  start: "acl_reach (acl_new salt pass) (new_connection (acl_new salt pass))"
| connect: "acl_reach st u \<Longrightarrow> acl_reach st (new_connection st)"
| setuser: "acl_reach st u \<Longrightarrow> set_user salts nm toks st = Inr st' \<Longrightarrow> acl_reach st' u"
| deluser: "acl_reach st u \<Longrightarrow> del_user nm st = (r, st') \<Longrightarrow> acl_reach st' u"
| load: "acl_reach st u \<Longrightarrow> acl_load saltss saved st = Inr (n, st') \<Longrightarrow> acl_reach st' u"
| auth: "acl_reach st u \<Longrightarrow> dispatch_auth st args u = (reply, st', u') \<Longrightarrow> acl_reach st' u'"
| hello: "acl_reach st u \<Longrightarrow> hello_auth st args u = (hreply, st', u') \<Longrightarrow> acl_reach st' u'"

definition lenient_ok :: "acl_store \<Rightarrow> string \<Rightarrow> bool" where
  "lenient_ok st u \<longleftrightarrow> strict st
     \<or> (u = ''default'' \<and> \<not> requirepass st \<and> bt_get (users st) ''default'' = Some (superuser ''default''))"

lemma dispatch_auth_ok: "lenient_ok st u \<Longrightarrow> dispatch_auth st args u = (r, st', u') \<Longrightarrow> lenient_ok st' u'"
  by (auto simp: lenient_ok_def dispatch_auth_def latch_strict_def Let_def requires_auth_def split: if_splits)

lemma acl_reach_lenient: "acl_reach st u \<Longrightarrow> lenient_ok st u"
proof (induction rule: acl_reach.induct)
  case (start salt pass)
  then show ?case by (simp add: lenient_ok_def acl_new_def new_connection_def requires_auth_def split: option.splits)
next
  case (connect st u)
  then show ?case by (auto simp: lenient_ok_def new_connection_def requires_auth_def)
next
  case (setuser st u salts nm toks st')
  then show ?case by (auto simp: lenient_ok_def set_user_def latch_strict_def Let_def split: sum.splits)
next
  case (deluser st u nm r st')
  then show ?case by (auto simp: lenient_ok_def del_user_def latch_strict_def split: if_splits)
next
  case (load st u saltss saved n st')
  then show ?case by (auto simp: lenient_ok_def acl_load_def latch_strict_def Let_def split: sum.splits if_splits)
next
  case (auth st u args reply st' u')
  then show ?case by (blast intro: dispatch_auth_ok)
next
  case (hello st u args hreply st' u')
  then show ?case
    by (auto simp: hello_auth_def split: option.splits prod.splits intro: dispatch_auth_ok)
qed

section \<open>Claims\<close>

text \<open>
  Claim C23. Skipping the permission gate is invisible. In every state a server can reach, with any
  administration and authentication in between, the gate of the dispatch loop decides exactly
  what the full check would: while the \<open>strict\<close> flag has not been latched, nobody can be denied.
\<close>

theorem acl_fast_path_invisible:
  assumes "acl_reach st u"
  shows "gate st u cmd args = (if requires_auth st \<and> u = [] then Some NoAuth else acl_denial st u cmd args)"
proof (cases "strict st")
  case False
  then have "u = ''default''" "bt_get (users st) ''default'' = Some (superuser ''default'')"
    using acl_reach_lenient [OF assms] by (auto simp: lenient_ok_def)
  then have "acl_denial st u cmd args = None" by (simp add: superuser_may superuser_def)
  then show ?thesis using False by (simp add: gate_def needs_permission_check_def)
qed (simp add: gate_def needs_permission_check_def)

theorem acl_fast_path_invisible_witness:
  "gate (acl_new [] None) ''default'' ''FLUSHALL'' [] = acl_denial (acl_new [] None) ''default'' ''FLUSHALL'' []"
proof -
  have n: "new_connection (acl_new [] None) = ''default''" "\<not> requires_auth (acl_new [] None)"
    by (simp_all add: new_connection_def requires_auth_def acl_new_def)
  show ?thesis
    using acl_fast_path_invisible [OF acl_reach.start [of "[]" None], of "''FLUSHALL''" "[]"] n by simp
qed

text \<open>
  Claim C25. The last matching rule decides. An enabled user may run a command when it is one of
  the connection commands, or when the last of the user's rules that names the command or one of
  its categories is an allowing one; with no such rule, or disabled, the user may not.
\<close>

theorem last_rule_decides:
  "user_can_command u cmd cats \<longleftrightarrow>
     enabled u \<and> (cmd \<in> set always_allowed \<or>
       (case List.find (rule_matches cmd cats) (rev (rules u)) of None \<Rightarrow> False | Some r \<Rightarrow> rule_allows r))"
  by (simp add: user_can_command_def fold_apply_rule split: option.splits)

text \<open>
  Claim C24. \<open>ACL SAVE\<close> and \<open>ACL LOAD\<close> are inverse. The text a store is saved as loads into the
  same table of users, rules in order and password hashes included, whatever the loading server
  had before, as long as no name, pattern or command contains a blank or a line end.
\<close>

theorem acl_save_load:
  assumes "store_ok st"
  shows "acl_load salt (acl_dump st) st' = Inr (length (users st), latch_strict (st'\<lparr>users := users st\<rparr>))"
  by (rule load_dump [OF assms])

theorem acl_save_load_witness:
  "\<exists>st. acl_load (\<lambda>_ _. []) (acl_dump st) st = Inr (1, latch_strict st) \<and> bt_get (users st) ''default'' = Some (superuser ''default'')"
proof -
  let ?st = "acl_new [] None"
  have "plain_text (from_bytes [42])" by code_simp
  then have "store_ok ?st"
    by (simp add: store_ok_def acl_new_def superuser_def user_ok_def plain_text_def bt_wf_def)
  from acl_save_load [OF this, of "\<lambda>_ _. []" ?st] show ?thesis
    by (intro exI [of _ ?st]) (simp add: acl_new_def)
qed

text \<open>
  Passwords. After \<open>ACL SETUSER name >password on\<close>, with a salt of the fixed size, that
  user authenticates with exactly the passwords that hash like the one given, every other
  user's authentication is what it was, and the permission gate is latched on.
\<close>

theorem setuser_password:
  assumes "set_user salt nm [CHR ''>'' # pw, ''on''] st = Inr st'"
  shows "(auth_user st' nm pw' \<longleftrightarrow> hash_password (as_bytes pw') (salt 0) = hash_password (as_bytes pw) (salt 0))
    \<and> auth_user st' nm pw
    \<and> (other \<noteq> nm \<longrightarrow> auth_user st' other pw' = auth_user st other pw')
    \<and> needs_permission_check st'"
proof -
  have lo: "to_lower (CHR ''>'' # pw) \<notin> {''on'', ''off'', ''nopass'', ''resetpass'', ''allkeys'', ''resetkeys'', ''allcommands'', ''nocommands'', ''reset''}"
    by (simp add: to_lower_def ascii_lower_char_def)
  let ?u = "case bt_get (users st) nm of None \<Rightarrow> new_restricted nm | Some u \<Rightarrow> u"
  let ?v = "?u\<lparr>password := Some (salt 0, hash_password (as_bytes pw) (salt 0)), enabled := True\<rparr>"
  have t1: "apply_token nm (salt 0) (CHR ''>'' # pw) u = Inr (u\<lparr>password := Some (salt 0, hash_password (as_bytes pw) (salt 0))\<rparr>)" for u
    using lo by (simp add: apply_token_def Let_def)
  have "st' = latch_strict (st\<lparr>users := bt_insert nm ?v (users st)\<rparr>)"
    using assms by (simp add: set_user_def t1 apply_word Let_def)
  then show ?thesis
    by (simp add: auth_user_def latch_strict_def bt_get_insert verify_password_def ct_eq_iff needs_permission_check_def)
qed

theorem setuser_password_witness:
  "\<exists>st'. auth_user st' ''bob'' ''pw'' \<and> needs_permission_check st'"
proof -
  have "\<exists>st'. set_user (\<lambda>_. replicate 16 1) ''bob'' [CHR ''>'' # ''pw'', ''on''] (acl_new [] None) = Inr st'"
    by (simp add: set_user_def apply_token_def to_lower_def ascii_lower_char_def acl_new_def Let_def)
  then obtain st' where "set_user (\<lambda>_. replicate 16 1) ''bob'' [CHR ''>'' # ''pw'', ''on''] (acl_new [] None) = Inr st'" by blast
  from setuser_password [OF this, of "''pw''" "''al''"] show ?thesis by blast
qed

section \<open>Where the code falls short\<close>

text \<open>
  A pattern with a blank is saved as two tokens.  A user with the single pattern \<open>x +@all\<close> and no
  rule may run nothing; after \<open>ACL SAVE\<close> and \<open>ACL LOAD\<close> the user may run every command.
\<close>

definition blank_user :: user where
  "blank_user = \<lparr>name = ''bob'', password = None, enabled = True, rules = [], key_patterns = [as_bytes ''x +@all'']\<rparr>"

definition blank_store :: acl_store where
  "blank_store = \<lparr>users = [(''bob'', blank_user), (''default'', superuser ''default'')], requirepass = False, strict = True\<rparr>"

lemma save_load_escalates:
  "can_command blank_store ''bob'' cmd cats \<longleftrightarrow> cmd \<in> set always_allowed"
  "\<exists>st. acl_load salt (acl_dump blank_store) st0 = Inr (2, st) \<and> can_command st ''bob'' cmd cats"
proof -
  show "can_command blank_store ''bob'' cmd cats \<longleftrightarrow> cmd \<in> set always_allowed"
    by (simp add: can_command_def blank_store_def blank_user_def user_can_command_def)
  have star: "from_bytes [42] = ''*''" "as_bytes ''*'' = [42]" by code_simp+
  have cat: "cat_from_str ''all'' = Some CAll" using cat_from_name [of CAll] by simp
  have lines: "dump_line blank_user = ''bob reset nopass on ~x +@all''"
    "dump_line (superuser ''default'') = ''default reset nopass on ~* +@all''"
    by (simp_all add: dump_line_def describe_def describe_tokens_def blank_user_def superuser_def rule_token_def star)
  have "sort [''bob reset nopass on ~x +@all'', ''default reset nopass on ~* +@all''] =
      [''bob reset nopass on ~x +@all'', ''default reset nopass on ~* +@all'']"
    by (simp add: less_eq_char_def)
  then have dump: "acl_dump blank_store = join_with [CHR 0x0A] [''bob reset nopass on ~x +@all'', ''default reset nopass on ~* +@all'']"
    by (simp add: acl_dump_def blank_store_def lines)
  have ls: "filter (\<lambda>l. \<not> is_blank l) (text_lines (acl_dump blank_store)) = [''bob reset nopass on ~x +@all'', ''default reset nopass on ~* +@all'']"
    unfolding dump by (subst text_lines_join) (simp_all add: not_blank_letter)
  show "\<exists>st. acl_load salt (acl_dump blank_store) st0 = Inr (2, st) \<and> can_command st ''bob'' cmd cats"
    unfolding acl_load_def ls
    by (simp add: set_user_def apply_word apply_sign parse_rule_def cat star new_restricted_def latch_strict_def
        can_command_def user_can_command_def Let_def)
qed

text \<open>\<open>GETAT\<close> names a key and is not in the table of keys: a user with no key pattern reads any key.\<close>

lemma getat_ignores_patterns:
  assumes "bt_get (users st) nm = Some u" and "enabled u" and "rules u = [AllowCat CRead]" and "key_patterns u = []"
  shows "acl_denial st nm ''GETAT'' [k, ts] = None \<and> acl_denial st nm ''GET'' [k] = Some NoKey"
proof -
  have "command_categories ''GETAT'' = [CRead]" "command_categories ''GET'' = [CRead]"
    "command_keys ''GETAT'' [k, ts] = []" "command_keys ''GET'' [k] = [k]"
    by (simp_all add: command_categories_def command_keys_def is_keyspace_cmd_def keyspace_cmds_def is_stream_cmd_def stream_cmds_def)
  then show ?thesis
    using assms by (simp add: acl_denial_def can_command_def can_keys_def user_can_command_def can_key_def always_allowed_def)
qed

text \<open>
  \<open>AUTH\<close> removes one leading \<open>>\<close> from the password, \<open>SETUSER\<close> one too: a password that begins with
  \<open>>\<close> is checked without it.  And \<open>HELLO 3 AUTH user password SETNAME name\<close> hands four arguments
  to \<open>AUTH\<close>, which refuses them.
\<close>

lemma auth_strips_gt:
  "utf8_valid nm \<Longrightarrow> utf8_valid (as_bytes pw) \<Longrightarrow> utf8_valid (as_bytes (CHR ''>'' # pw)) \<Longrightarrow> hd pw \<noteq> CHR ''>'' \<Longrightarrow>
     dispatch_auth st [nm, as_bytes (CHR ''>'' # pw)] cur = dispatch_auth st [nm, as_bytes pw] cur"
  by (simp add: dispatch_auth_def from_utf8_lossy_def utf8_lossy_valid strip_gt_def del: utf8_valid.simps)

lemma hello_auth_setname:
  "hello_auth st [[51], as_bytes ''AUTH'', nm, pw, as_bytes ''SETNAME'', cn] cur = (Some AuthArity, st, cur)"
proof -
  have "eq_ignore_ascii_case [51] (as_bytes ''AUTH'') = False" "eq_ignore_ascii_case (as_bytes ''AUTH'') (as_bytes ''AUTH'')"
    by (simp_all add: eq_ignore_ascii_case_def as_bytes_def)
  then show ?thesis by (simp add: hello_auth_def dispatch_auth_def)
qed

end
