(* ===== verification/Hlc.thy ===== *)
theory Hlc
  imports Prelude
begin

text \<open>
  The hybrid logical clock (\<open>crates/consensus/src/hlc.rs\<close>): timestamps ordered as the derived
  \<open>Ord\<close> orders them, the local tick and the merge of a remote timestamp.  The wall clock a call
  reads is an argument; the counter is a \<open>u32\<close> that wraps, as in the release build.
\<close>

datatype timestamp = Timestamp (physical: "64 word") (logical: "32 word")

text \<open>The derived order: the wall clock, then the counter.\<close>

definition ts_le :: "timestamp \<Rightarrow> timestamp \<Rightarrow> bool" where
  "ts_le a b \<longleftrightarrow> physical a < physical b \<or> physical a = physical b \<and> logical a \<le> logical b"

definition ts_less :: "timestamp \<Rightarrow> timestamp \<Rightarrow> bool" where
  "ts_less a b \<longleftrightarrow> physical a < physical b \<or> physical a = physical b \<and> logical a < logical b"

instantiation timestamp :: linorder
begin

definition less_eq_timestamp :: "timestamp \<Rightarrow> timestamp \<Rightarrow> bool" where
  "less_eq_timestamp = ts_le"

definition less_timestamp :: "timestamp \<Rightarrow> timestamp \<Rightarrow> bool" where
  "less_timestamp = ts_less"

instance
  by standard (auto simp: less_eq_timestamp_def less_timestamp_def ts_le_def ts_less_def timestamp.expand)

end

lemmas ts_order = less_eq_timestamp_def less_timestamp_def ts_le_def ts_less_def

definition hlc_new :: timestamp where
  "hlc_new = Timestamp 0 0"

definition hlc_now :: "64 word \<Rightarrow> timestamp \<Rightarrow> timestamp" where
  "hlc_now pt s = (if physical s < pt then Timestamp pt 0 else Timestamp (physical s) (logical s + 1))"

definition hlc_update :: "64 word \<Rightarrow> timestamp \<Rightarrow> timestamp \<Rightarrow> timestamp" where
  "hlc_update pt remote s =
     (let max_p = max (max pt (physical s)) (physical remote)
      in Timestamp max_p
          (if max_p = physical s \<and> max_p = physical remote then max (logical s) (logical remote) + 1
           else if max_p = physical s then logical s + 1
           else if max_p = physical remote then logical remote + 1
           else 0))"

section \<open>One call\<close>

lemma word_less_Suc: "(w :: 32 word) \<noteq> - 1 \<Longrightarrow> w < w + 1"
proof -
  assume "w \<noteq> - 1"
  then have "1 + w \<noteq> 0" using max_word_wrap [of w] by (metis add.commute)
  then have "unat (w + 1) = Suc (unat w)" using unatSuc [of w] by (simp add: add.commute)
  then show ?thesis by (simp add: word_less_nat_alt)
qed

lemma hlc_now_advances:
  "logical s \<noteq> - 1 \<Longrightarrow> s < hlc_now pt s \<and> pt \<le> physical (hlc_now pt s)"
  by (auto simp: hlc_now_def ts_order word_less_Suc not_less)

lemma max_Suc_less: "a \<noteq> - 1 \<Longrightarrow> b \<noteq> - 1 \<Longrightarrow> a < max a b + 1 \<and> b < max a b + (1 :: 32 word)"
proof -
  assume "a \<noteq> - 1" "b \<noteq> - 1"
  then have "max a b < max a b + 1" by (intro word_less_Suc) (simp add: max_def)
  moreover have "a \<le> max a b" "b \<le> max a b" by (rule max.cobounded1, rule max.cobounded2)
  ultimately show ?thesis by (meson le_less_trans)
qed

lemma hlc_update_advances:
  assumes "logical s \<noteq> - 1" and "logical r \<noteq> - 1"
  shows "s < hlc_update pt r s \<and> r < hlc_update pt r s \<and> pt \<le> physical (hlc_update pt r s)"
proof -
  let ?m = "max (max pt (physical s)) (physical r)"
  have m: "pt \<le> ?m" "physical s \<le> ?m" "physical r \<le> ?m" by (auto simp: le_max_iff_disj)
  note c = max_Suc_less [OF assms]
  show ?thesis
  proof (cases "?m = physical s"; cases "?m = physical r")
    assume "?m = physical s" "?m = physical r"
    then show ?thesis using m c by (simp add: hlc_update_def ts_order Let_def)
  next
    assume a: "?m = physical s" "?m \<noteq> physical r"
    then have "physical r < ?m" using m(3) by order
    then show ?thesis using a m word_less_Suc [OF assms(1)] by (simp add: hlc_update_def ts_order Let_def)
  next
    assume a: "?m \<noteq> physical s" "?m = physical r"
    then have "physical s < ?m" using m(2) by order
    then show ?thesis using a m word_less_Suc [OF assms(2)] by (simp add: hlc_update_def ts_order Let_def)
  next
    assume a: "?m \<noteq> physical s" "?m \<noteq> physical r"
    then have "physical s < ?m" "physical r < ?m" using m by order+
    then show ?thesis using a m by (simp add: hlc_update_def ts_order Let_def)
  qed
qed

section \<open>A run of a node\<close>

datatype hlc_event = LocalEvent "64 word" | Receive "64 word" timestamp

fun hlc_step :: "hlc_event \<Rightarrow> timestamp \<Rightarrow> timestamp" where
  "hlc_step (LocalEvent pt) s = hlc_now pt s"
| "hlc_step (Receive pt r) s = hlc_update pt r s"

fun hlc_run :: "hlc_event list \<Rightarrow> timestamp \<Rightarrow> timestamp list" where
  "hlc_run [] s = []"
| "hlc_run (e # es) s = (let t = hlc_step e s in t # hlc_run es t)"

fun follows_event :: "hlc_event \<Rightarrow> timestamp \<Rightarrow> bool" where
  "follows_event (LocalEvent pt) t \<longleftrightarrow> pt \<le> physical t"
| "follows_event (Receive pt r) t \<longleftrightarrow> pt \<le> physical t \<and> r < t"

fun event_logical :: "hlc_event \<Rightarrow> nat" where
  "event_logical (LocalEvent pt) = 0"
| "event_logical (Receive pt r) = unat (logical r)"

lemma unat_Suc_bound: "unat ((w :: 32 word) + 1) \<le> Suc (unat w)"
proof (cases "1 + w = 0")
  case True
  then show ?thesis by (simp add: add.commute)
next
  case False
  then show ?thesis using unatSuc [of w] by (simp add: add.commute)
qed

lemma hlc_step_logical:
  assumes "unat (logical s) \<le> b" and "event_logical e \<le> b"
  shows "unat (logical (hlc_step e s)) \<le> Suc b"
proof (cases e)
  case (LocalEvent pt)
  then show ?thesis using assms unat_Suc_bound [of "logical s"] by (auto simp: hlc_now_def)
next
  case (Receive pt r)
  then have r: "unat (logical r) \<le> b" using assms(2) by simp
  have m: "unat (max (logical s) (logical r)) \<le> b" using assms(1) r by (simp add: max_def)
  show ?thesis
    using assms(1) r m unat_Suc_bound [of "logical s"] unat_Suc_bound [of "logical r"]
      unat_Suc_bound [of "max (logical s) (logical r)"]
    unfolding Receive hlc_step.simps hlc_update_def Let_def by auto
qed

lemma unat_max32: "unat (- 1 :: 32 word) = 2 ^ 32 - 1"
  by (simp add: unsigned_minus_1_eq_mask mask_eq_exp_minus_1)

lemma unat_not_max: "unat (w :: 32 word) < 2 ^ 32 - 1 \<Longrightarrow> w \<noteq> - 1"
  by (auto simp: unat_max32)

lemma hlc_step_advances:
  assumes "unat (logical s) \<le> b" and "event_logical e \<le> b" and "b < 2 ^ 32 - 1"
  shows "s < hlc_step e s \<and> follows_event e (hlc_step e s)"
proof (cases e)
  case (LocalEvent pt)
  then show ?thesis using hlc_now_advances [OF unat_not_max, of s] assms by simp
next
  case (Receive pt r)
  then show ?thesis using hlc_update_advances [OF unat_not_max unat_not_max, of s r] assms by simp
qed

lemma hlc_run_bounded:
  "unat (logical s) \<le> b \<Longrightarrow> \<forall>e\<in>set es. event_logical e \<le> b \<Longrightarrow> b + length es < 2 ^ 32 \<Longrightarrow>
     sorted_wrt (<) (s # hlc_run es s) \<and> list_all2 follows_event es (hlc_run es s)"
proof (induction es arbitrary: s b)
  case (Cons e es)
  let ?t = "hlc_step e s"
  have e: "s < ?t" "follows_event e ?t" using hlc_step_advances [of s b e] Cons.prems by auto
  have "unat (logical ?t) \<le> Suc b" using hlc_step_logical [of s b e] Cons.prems by simp
  moreover have "\<forall>e\<in>set es. event_logical e \<le> Suc b" using Cons.prems(2) by (auto intro: le_SucI)
  ultimately have ih: "sorted_wrt (<) (?t # hlc_run es ?t) \<and> list_all2 follows_event es (hlc_run es ?t)"
    using Cons.IH [of ?t "Suc b"] Cons.prems(3) by simp
  then have "\<forall>x\<in>set (hlc_run es ?t). s < x" using e(1) by (auto intro: less_trans)
  then show ?case using ih e by (simp add: Let_def)
qed simp

section \<open>Claims\<close>

text \<open>
  Claim C28. Timestamps respect causality. On any run of a node, with a wall clock that may stand
  still or go back and with timestamps received from other nodes in between, every timestamp
  issued is greater than all earlier ones of the node and than the one received with it, and not
  behind the wall clock, as long as the counters stay below \<open>2^32\<close>: the largest counter at the
  start or received, plus the number of events.
\<close>

theorem hlc_causal:
  assumes "list_all (\<lambda>e. event_logical e \<le> b) es" and "unat (logical s) \<le> b" and "b + length es < 2 ^ 32"
  shows "sorted_wrt (<) (s # hlc_run es s) \<and> list_all2 follows_event es (hlc_run es s)"
  using hlc_run_bounded [of s b es] assms by (simp add: list_all_iff)

theorem hlc_causal_witness:
  "sorted_wrt (<) (hlc_new # hlc_run [LocalEvent 10, LocalEvent 9, Receive 9 (Timestamp 12 7)] hlc_new)
   \<and> hlc_run [LocalEvent 10, LocalEvent 9, Receive 9 (Timestamp 12 7)] hlc_new = [Timestamp 10 0, Timestamp 10 1, Timestamp 12 8]"
proof
  show "sorted_wrt (<) (hlc_new # hlc_run [LocalEvent 10, LocalEvent 9, Receive 9 (Timestamp 12 7)] hlc_new)"
    using hlc_causal [of 7 "[LocalEvent 10, LocalEvent 9, Receive 9 (Timestamp 12 7)]" hlc_new]
    by (simp add: hlc_new_def)
qed (simp add: hlc_new_def hlc_now_def hlc_update_def)

text \<open>
  The bound is needed: \<open>HLC.UPDATE\<close> accepts any counter from a client, and the successor of the
  largest one wraps to 0, so that the timestamp issued is older than the one received.
\<close>

lemma hlc_update_wraps: "hlc_update 0 (Timestamp 5 (- 1)) hlc_new = Timestamp 5 0 \<and> Timestamp 5 0 < Timestamp 5 (- 1)"
  by (simp add: hlc_update_def hlc_new_def ts_order Let_def word_less_nat_alt unat_max32)

end
