(* ===== verification/Crdt.thy ===== *)
theory Crdt
  imports Value_Codec
begin

text \<open>
  The replicated data types (\<open>crates/consensus/src/crdt.rs\<close>): the grow-only counter, the counter
  with decrements, the last-writer-wins register, their merges and their binary encodings.
  \<open>replicated\<close> is the contract of a merge, from which convergence follows once for all types.
  A \<open>HashMap<String, u64>\<close> is the ordered list of its entries; the code sorts it where the order
  shows.
\<close>

section \<open>The contract of a merge\<close>

text \<open>
  A merge on a set of states closed under it that is commutative, associative and idempotent.
  Then the outcome of any exchange depends only on which states were merged.
\<close>

locale replicated =
  fixes mrg :: "'s \<Rightarrow> 's \<Rightarrow> 's"
    and ok :: "'s \<Rightarrow> bool"
  assumes closed: "ok a \<Longrightarrow> ok b \<Longrightarrow> ok (mrg a b)"
    and comm: "ok a \<Longrightarrow> ok b \<Longrightarrow> mrg a b = mrg b a"
    and assoc: "ok a \<Longrightarrow> ok b \<Longrightarrow> ok c \<Longrightarrow> mrg (mrg a b) c = mrg a (mrg b c)"
    and idem: "ok a \<Longrightarrow> mrg a a = a"
begin

definition merge_all :: "'s \<Rightarrow> 's list \<Rightarrow> 's" where
  "merge_all a xs = fold (\<lambda>x s. mrg s x) xs a"

lemma merge_all_simps [simp]:
  "merge_all a [] = a" "merge_all a (x # xs) = merge_all (mrg a x) xs"
  by (simp_all add: merge_all_def)

lemma merge_all_ok: "ok a \<Longrightarrow> \<forall>x\<in>set xs. ok x \<Longrightarrow> ok (merge_all a xs)"
  by (induction xs arbitrary: a) (auto simp: closed)

lemma merge_all_out: "ok a \<Longrightarrow> ok b \<Longrightarrow> \<forall>x\<in>set xs. ok x \<Longrightarrow> merge_all (mrg a b) xs = mrg a (merge_all b xs)"
  by (induction xs arbitrary: b) (auto simp: assoc closed)

text \<open>The outcome is above every state merged, and below everything else above them.\<close>

lemma merge_all_absorbs:
  "ok a \<Longrightarrow> \<forall>x\<in>set xs. ok x \<Longrightarrow> x \<in> insert a (set xs) \<Longrightarrow> mrg x (merge_all a xs) = merge_all a xs"
proof (induction xs arbitrary: a)
  case (Cons y ys)
  have ok: "ok a" "ok y" "\<forall>x\<in>set ys. ok x" "ok (merge_all a ys)" "ok (merge_all y ys)"
    using Cons.prems merge_all_ok by auto
  have e: "merge_all a (y # ys) = mrg a (merge_all y ys)" "merge_all a (y # ys) = mrg y (merge_all a ys)"
    using ok merge_all_out [of a y ys] merge_all_out [of y a ys] comm [of a y] by simp_all
  consider "x = a" | "x = y" | "x \<in> set ys" using Cons.prems(3) by auto
  then show ?case
  proof cases
    case 1
    then show ?thesis using e(1) ok assoc [of a a "merge_all y ys"] idem [of a] by simp
  next
    case 2
    then show ?thesis using e(2) ok assoc [of y y "merge_all a ys"] idem [of y] by simp
  next
    case 3
    then have "mrg x (merge_all (mrg a y) ys) = merge_all (mrg a y) ys"
      using Cons.IH [of "mrg a y"] ok closed by simp
    then show ?thesis by simp
  qed
qed (auto simp: idem)

lemma merge_all_least:
  "ok a \<Longrightarrow> \<forall>x\<in>set xs. ok x \<Longrightarrow> ok u \<Longrightarrow> \<forall>x\<in>insert a (set xs). mrg x u = u \<Longrightarrow> mrg (merge_all a xs) u = u"
proof (induction xs arbitrary: a)
  case (Cons y ys)
  have "mrg (mrg a y) u = u" using Cons.prems assoc [of a y u] by simp
  then show ?case using Cons.IH [of "mrg a y"] Cons.prems closed by simp
qed simp

theorem merge_all_set:
  assumes "ok a" "\<forall>x\<in>set xs. ok x" "ok b" "\<forall>x\<in>set ys. ok x" and "insert a (set xs) = insert b (set ys)"
  shows "merge_all a xs = merge_all b ys"
proof -
  let ?l = "merge_all a xs" and ?r = "merge_all b ys"
  have ok: "ok ?l" "ok ?r" using assms merge_all_ok by auto
  have "mrg ?l ?r = ?r"
    using merge_all_least [OF assms(1,2) ok(2)] merge_all_absorbs [OF assms(3,4)] assms(5) by blast
  moreover have "mrg ?r ?l = ?l"
    using merge_all_least [OF assms(3,4) ok(1)] merge_all_absorbs [OF assms(1,2)] assms(5) by blast
  ultimately show ?thesis using comm [OF ok] by simp
qed

end

section \<open>The grow-only counter\<close>

type_synonym node = bytes
type_synonym gcounter = "(node, nat) btree"

definition gc_get :: "gcounter \<Rightarrow> node \<Rightarrow> nat" where
  "gc_get g n = (case bt_get g n of None \<Rightarrow> 0 | Some c \<Rightarrow> c)"

definition gc_new :: gcounter where "gc_new = []"

definition gc_incr :: "node \<Rightarrow> nat \<Rightarrow> gcounter \<Rightarrow> gcounter" where
  "gc_incr n by' g = bt_insert n (sat_add_u64 (gc_get g n) by') g"

definition gc_value :: "gcounter \<Rightarrow> nat" where
  "gc_value g = fold (\<lambda>(_, c) a. sat_add_u64 a c) g 0"

definition gc_merge :: "gcounter \<Rightarrow> gcounter \<Rightarrow> gcounter" where
  "gc_merge g h = fold (\<lambda>(n, v) g. bt_insert n (max (gc_get g n) v) g) h g"

definition gc_ok :: "gcounter \<Rightarrow> bool" where
  "gc_ok g \<longleftrightarrow> bt_wf g \<and> length g \<le> u32_max
     \<and> list_all (\<lambda>(n, c). utf8_valid n \<and> length n \<le> u32_max \<and> c \<le> u64_max) g"

definition gc_wf :: "gcounter \<Rightarrow> bool" where
  "gc_wf g \<longleftrightarrow> bt_wf g"

section \<open>The cursor and the encodings\<close>

definition rd_u32 :: "bytes \<Rightarrow> (nat \<times> bytes) option" where
  "rd_u32 b = (if length b < 4 then None else Some (le_nat (take 4 b), drop 4 b))"

definition rd_u64 :: "bytes \<Rightarrow> (nat \<times> bytes) option" where
  "rd_u64 b = (if length b < 8 then None else Some (le_nat (take 8 b), drop 8 b))"

definition rd_bytes :: "bytes \<Rightarrow> (bytes \<times> bytes) option" where
  "rd_bytes b =
     (case rd_u32 b of None \<Rightarrow> None
      | Some (n, r) \<Rightarrow> if length r < n then None else Some (take n r, drop n r))"

definition gc_to_bytes :: "gcounter \<Rightarrow> bytes" where
  "gc_to_bytes g =
     le_bytes 4 (length g) @ concat (map (\<lambda>(n, c). le_bytes 4 (length n) @ n @ le_bytes 8 c) g)"

fun gc_read_nodes :: "nat \<Rightarrow> bytes \<Rightarrow> gcounter \<Rightarrow> (gcounter \<times> bytes) option" where
  "gc_read_nodes 0 b g = Some (g, b)"
| "gc_read_nodes (Suc k) b g =
     (case rd_bytes b of None \<Rightarrow> None
      | Some (n, b) \<Rightarrow>
          if \<not> utf8_valid n then None
          else case rd_u64 b of None \<Rightarrow> None
             | Some (c, b) \<Rightarrow> gc_read_nodes k b (bt_insert n c g))"

definition gc_read :: "bytes \<Rightarrow> (gcounter \<times> bytes) option" where
  "gc_read b = (case rd_u32 b of None \<Rightarrow> None | Some (n, r) \<Rightarrow> gc_read_nodes n r [])"

definition gc_from_bytes :: "bytes \<Rightarrow> gcounter option" where
  "gc_from_bytes b = (case gc_read b of Some (g, []) \<Rightarrow> Some g | _ \<Rightarrow> None)"

section \<open>The counter with decrements\<close>

record pncounter =
  pn_p :: gcounter
  pn_n :: gcounter

definition pn_new :: pncounter where "pn_new = \<lparr>pn_p = [], pn_n = []\<rparr>"

definition pn_incr :: "node \<Rightarrow> nat \<Rightarrow> pncounter \<Rightarrow> pncounter" where
  "pn_incr n k c = c\<lparr>pn_p := gc_incr n k (pn_p c)\<rparr>"

definition pn_decr :: "node \<Rightarrow> nat \<Rightarrow> pncounter \<Rightarrow> pncounter" where
  "pn_decr n k c = c\<lparr>pn_n := gc_incr n k (pn_n c)\<rparr>"

definition pn_value :: "pncounter \<Rightarrow> i64" where
  "pn_value c = word_of_int (max (- (2 ^ 63)) (min (2 ^ 63 - 1) (int (gc_value (pn_p c)) - int (gc_value (pn_n c)))))"

definition pn_merge :: "pncounter \<Rightarrow> pncounter \<Rightarrow> pncounter" where
  "pn_merge c d = \<lparr>pn_p = gc_merge (pn_p c) (pn_p d), pn_n = gc_merge (pn_n c) (pn_n d)\<rparr>"

definition pn_to_bytes :: "pncounter \<Rightarrow> bytes" where
  "pn_to_bytes c = gc_to_bytes (pn_p c) @ gc_to_bytes (pn_n c)"

definition pn_from_bytes :: "bytes \<Rightarrow> pncounter option" where
  "pn_from_bytes b =
     (case gc_read b of None \<Rightarrow> None
      | Some (p, r) \<Rightarrow> (case gc_read r of Some (n, []) \<Rightarrow> Some \<lparr>pn_p = p, pn_n = n\<rparr> | _ \<Rightarrow> None))"

definition pn_wf :: "pncounter \<Rightarrow> bool" where
  "pn_wf c \<longleftrightarrow> gc_wf (pn_p c) \<and> gc_wf (pn_n c)"

section \<open>The last-writer-wins register\<close>

record lww =
  lw_value :: bytes
  lw_ts :: nat
  lw_node :: node

definition lww_later :: "nat \<Rightarrow> node \<Rightarrow> lww \<Rightarrow> bool" where
  "lww_later ts n r \<longleftrightarrow> lw_ts r < ts \<or> lw_ts r = ts \<and> lw_node r < n"

definition lww_set :: "bytes \<Rightarrow> nat \<Rightarrow> node \<Rightarrow> lww \<Rightarrow> lww" where
  "lww_set v ts n r = (if lww_later ts n r then \<lparr>lw_value = v, lw_ts = ts, lw_node = n\<rparr> else r)"

definition lww_merge :: "lww \<Rightarrow> lww \<Rightarrow> lww" where
  "lww_merge r s = (if lww_later (lw_ts s) (lw_node s) r then s else r)"

definition lww_to_bytes :: "lww \<Rightarrow> bytes" where
  "lww_to_bytes r = le_bytes 8 (lw_ts r) @ le_bytes 4 (length (lw_node r)) @ lw_node r @ lw_value r"

definition lww_from_bytes :: "bytes \<Rightarrow> lww option" where
  "lww_from_bytes b =
     (case rd_u64 b of None \<Rightarrow> None
      | Some (ts, b) \<Rightarrow>
          (case rd_bytes b of None \<Rightarrow> None
           | Some (n, b) \<Rightarrow> if utf8_valid n then Some \<lparr>lw_value = b, lw_ts = ts, lw_node = n\<rparr> else None))"

section \<open>The counters keep the contract\<close>

definition count_max :: "nat option \<Rightarrow> nat option \<Rightarrow> nat option" where
  "count_max a b =
     (case a of None \<Rightarrow> b | Some x \<Rightarrow> (case b of None \<Rightarrow> Some x | Some y \<Rightarrow> Some (max x y)))"

lemma count_max_laws:
  "count_max a b = count_max b a" "count_max (count_max a b) c = count_max a (count_max b c)" "count_max a a = a"
  "count_max a None = a" "count_max None b = b"
  by (auto simp: count_max_def max.commute max.assoc split: option.splits)

lemma gc_get_max: "bt_get m n = count_max (bt_get g n) (bt_get h n) \<Longrightarrow> gc_get m n = max (gc_get g n) (gc_get h n)"
  by (auto simp: gc_get_def count_max_def split: option.splits)

lemma gc_merge_fold:
  "bt_wf g \<Longrightarrow> distinct (map fst h) \<Longrightarrow>
     bt_wf (fold (\<lambda>(n, v) g. bt_insert n (max (gc_get g n) v) g) h g)
     \<and> bt_get (fold (\<lambda>(n, v) g. bt_insert n (max (gc_get g n) v) g) h g) n = count_max (bt_get g n) (bt_get h n)"
proof (induction h arbitrary: g)
  case (Cons e h)
  obtain m v where e: "e = (m, v)" by (cases e)
  let ?g = "bt_insert m (max (gc_get g m) v) g"
  have ih: "bt_wf (fold (\<lambda>(n, v) g. bt_insert n (max (gc_get g n) v) g) h ?g)
     \<and> bt_get (fold (\<lambda>(n, v) g. bt_insert n (max (gc_get g n) v) g) h ?g) n = count_max (bt_get ?g n) (bt_get h n)"
    using Cons by (simp add: e bt_wf_insert)
  have "bt_get h m = None" using Cons.prems(2) by (auto simp: e map_of_eq_None_iff)
  then have "count_max (bt_get ?g n) (bt_get h n) = count_max (bt_get g n) (bt_get (e # h) n)"
    by (auto simp: e bt_get_insert gc_get_def count_max_def split: option.splits)
  then show ?case using ih by (simp add: e)
qed (simp add: count_max_laws)

lemma gc_merge_get: "bt_wf g \<Longrightarrow> bt_wf h \<Longrightarrow> bt_get (gc_merge g h) n = count_max (bt_get g n) (bt_get h n)"
  using gc_merge_fold [of g h n] bt_wf_distinct [of h] by (simp add: gc_merge_def)

lemma gc_merge_wf: "bt_wf g \<Longrightarrow> bt_wf h \<Longrightarrow> bt_wf (gc_merge g h)"
  using gc_merge_fold [of g h] bt_wf_distinct [of h] by (simp add: gc_merge_def)

lemma gc_ext: "bt_wf g \<Longrightarrow> bt_wf h \<Longrightarrow> (\<And>n. bt_get g n = bt_get h n) \<Longrightarrow> g = (h :: gcounter)"
  by (rule bt.entries_ext) auto

interpretation gc: replicated gc_merge gc_wf
proof unfold_locales
  fix a b c :: gcounter
  show "gc_wf a \<Longrightarrow> gc_wf b \<Longrightarrow> gc_wf (gc_merge a b)" by (simp add: gc_wf_def gc_merge_wf)
  show "gc_wf a \<Longrightarrow> gc_wf b \<Longrightarrow> gc_merge a b = gc_merge b a"
    by (rule gc_ext) (simp_all add: gc_wf_def gc_merge_wf gc_merge_get count_max_laws(1))
  show "gc_wf a \<Longrightarrow> gc_wf b \<Longrightarrow> gc_wf c \<Longrightarrow> gc_merge (gc_merge a b) c = gc_merge a (gc_merge b c)"
    by (rule gc_ext) (simp_all only: gc_wf_def gc_merge_wf gc_merge_get count_max_laws(2))
  show "gc_wf a \<Longrightarrow> gc_merge a a = a"
    by (rule gc_ext) (simp_all add: gc_wf_def gc_merge_wf gc_merge_get count_max_laws(3))
qed

interpretation pn: replicated pn_merge pn_wf
  by unfold_locales (auto simp: pn_merge_def pn_wf_def gc.closed gc.assoc gc.idem intro: gc.comm)

lemma lww_later_cases:
  "lww_later (lw_ts s) (lw_node s) r \<or> lww_later (lw_ts r) (lw_node r) s \<or> (lw_ts r = lw_ts s \<and> lw_node r = lw_node s)"
  by (auto simp: lww_later_def neq_iff)

lemma lww_later_asym: "lww_later (lw_ts s) (lw_node s) r \<Longrightarrow> \<not> lww_later (lw_ts r) (lw_node r) s"
  by (auto simp: lww_later_def)

lemma lww_later_trans:
  "lww_later (lw_ts s) (lw_node s) r \<Longrightarrow> lww_later (lw_ts t) (lw_node t) s \<Longrightarrow> lww_later (lw_ts t) (lw_node t) r"
  by (auto simp: lww_later_def)

lemma lww_later_neg_trans:
  "\<not> lww_later (lw_ts s) (lw_node s) r \<Longrightarrow> \<not> lww_later (lw_ts t) (lw_node t) s \<Longrightarrow> \<not> lww_later (lw_ts t) (lw_node t) r"
  by (auto simp: lww_later_def not_less)

text \<open>
  The register keeps the contract as long as a timestamp and node determine the value, which is
  what its writers promise.
\<close>

definition lww_by :: "(nat \<Rightarrow> node \<Rightarrow> bytes) \<Rightarrow> lww \<Rightarrow> bool" where
  "lww_by f r \<longleftrightarrow> lw_value r = f (lw_ts r) (lw_node r)"

lemma lww_by_eq: "lww_by f r \<Longrightarrow> lww_by f s \<Longrightarrow> lw_ts r = lw_ts s \<Longrightarrow> lw_node r = lw_node s \<Longrightarrow> r = s"
  by (cases r; cases s) (simp add: lww_by_def)

interpretation lww: replicated lww_merge "lww_by f" for f
proof unfold_locales
  fix a b c :: lww
  show "lww_by f a \<Longrightarrow> lww_by f b \<Longrightarrow> lww_by f (lww_merge a b)" by (simp add: lww_merge_def)
  show "lww_by f a \<Longrightarrow> lww_by f b \<Longrightarrow> lww_merge a b = lww_merge b a"
    unfolding lww_merge_def using lww_later_cases [of b a] lww_later_asym [of a b] lww_later_asym [of b a] lww_by_eq [of f a b]
    by (metis (full_types))
  show "lww_merge (lww_merge a b) c = lww_merge a (lww_merge b c)" if "lww_by f a" "lww_by f b" "lww_by f c"
    unfolding lww_merge_def using lww_later_trans [of b a c] lww_later_neg_trans [of b a c] by (simp split: if_splits)
  show "lww_by f a \<Longrightarrow> lww_merge a a = a" by (simp add: lww_merge_def)
qed

text \<open>What the merged counters count.\<close>

lemma gc_merge_all_get:
  "gc_wf g \<Longrightarrow> \<forall>x\<in>set xs. gc_wf x \<Longrightarrow> gc_get (fold (\<lambda>x s. gc_merge s x) xs g) n = fold max (map (\<lambda>x. gc_get x n) xs) (gc_get g n)"
proof (induction xs arbitrary: g)
  case (Cons x xs)
  have "gc_get (gc_merge g x) n = max (gc_get g n) (gc_get x n)"
    using Cons.prems by (intro gc_get_max gc_merge_get) (auto simp: gc_wf_def)
  then show ?case using Cons gc.closed [of g x] by (simp add: max.commute)
qed simp

lemma pn_merge_all_parts:
  "pn_p (fold (\<lambda>x s. pn_merge s x) xs c) = fold (\<lambda>x s. gc_merge s x) (map pn_p xs) (pn_p c)"
  "pn_n (fold (\<lambda>x s. pn_merge s x) xs c) = fold (\<lambda>x s. gc_merge s x) (map pn_n xs) (pn_n c)"
  by (induction xs arbitrary: c) (simp_all add: pn_merge_def)

section \<open>The encodings are read back\<close>

lemma rd_u32_put [codec]: "n \<le> u32_max \<Longrightarrow> rd_u32 (le_bytes 4 n @ r) = Some (n, r)"
  by (simp add: rd_u32_def codec)

lemma rd_u64_put [codec]: "n \<le> u64_max \<Longrightarrow> rd_u64 (le_bytes 8 n @ r) = Some (n, r)"
  by (simp add: rd_u64_def codec)

lemma rd_bytes_put [codec]: "length n \<le> u32_max \<Longrightarrow> rd_bytes (le_bytes 4 (length n) @ n @ r) = Some (n, r)"
  by (simp add: rd_bytes_def codec)

lemma gc_read_nodes_put:
  "list_all (\<lambda>(n, c). utf8_valid n \<and> length n \<le> u32_max \<and> c \<le> u64_max) g \<Longrightarrow>
     gc_read_nodes (length g) (concat (map (\<lambda>(n, c). le_bytes 4 (length n) @ n @ le_bytes 8 c) g) @ r) h
       = Some (fold (\<lambda>(n, c). bt_insert n c) g h, r)"
  by (induction g arbitrary: h) (auto simp: codec)

lemma fold_insert_self: "bt_wf g \<Longrightarrow> fold (\<lambda>(n, c). bt_insert n c) g [] = (g :: gcounter)"
proof (rule gc_ext)
  assume wf: "bt_wf g"
  show "bt_wf (fold (\<lambda>(n, c). bt_insert n c) g [])" by (rule bt.wf_insrt_fold [OF bt_wf_Nil])
  show "bt_get (fold (\<lambda>(n, c). bt_insert n c) g []) n = bt_get g n" for n
    using bt.get_insrt_fold [of "[]" g] map_of_inject_set [of "rev g" g] bt_wf_distinct [OF wf]
    by (simp add: map_add_def rev_map [symmetric])
qed

lemma gc_read_put: "gc_ok g \<Longrightarrow> gc_read (gc_to_bytes g @ r) = Some (g, r)"
  by (simp add: gc_read_def gc_to_bytes_def gc_ok_def codec gc_read_nodes_put fold_insert_self)

interpretation gc_codec: byte_codec gc_to_bytes "\<lambda>b. map_option fst (gc_read b)" gc_ok
  by unfold_locales (simp add: gc_read_put)

section \<open>Claims\<close>

text \<open>
  Claim C27. Counters converge. Replicas that have merged the same states of a counter, in any
  order and with any duplication, hold the same state, whose increments and decrements for every
  node are the largest any of the states had.
\<close>

theorem counters_converge:
  assumes "list_all pn_wf xs" and "list_all pn_wf ys" and "set xs = set ys"
  shows "fold (\<lambda>x s. pn_merge s x) xs pn_new = fold (\<lambda>x s. pn_merge s x) ys pn_new
    \<and> gc_get (pn_p (fold (\<lambda>x s. pn_merge s x) xs pn_new)) n = fold max (map (\<lambda>x. gc_get (pn_p x) n) xs) 0
    \<and> gc_get (pn_n (fold (\<lambda>x s. pn_merge s x) xs pn_new)) n = fold max (map (\<lambda>x. gc_get (pn_n x) n) xs) 0"
proof (intro conjI)
  have new: "pn_wf pn_new" by (simp add: pn_wf_def pn_new_def gc_wf_def)
  show "fold (\<lambda>x s. pn_merge s x) xs pn_new = fold (\<lambda>x s. pn_merge s x) ys pn_new"
    using pn.merge_all_set [OF new _ new, of xs ys] assms by (simp add: pn.merge_all_def list_all_iff)
  have "\<forall>x\<in>set (map pn_p xs). gc_wf x" "\<forall>x\<in>set (map pn_n xs). gc_wf x"
    using assms(1) by (auto simp: list_all_iff pn_wf_def)
  then show "gc_get (pn_p (fold (\<lambda>x s. pn_merge s x) xs pn_new)) n = fold max (map (\<lambda>x. gc_get (pn_p x) n) xs) 0"
    "gc_get (pn_n (fold (\<lambda>x s. pn_merge s x) xs pn_new)) n = fold max (map (\<lambda>x. gc_get (pn_n x) n) xs) 0"
    unfolding pn_merge_all_parts using gc_merge_all_get [of "[]"]
    by (simp_all add: pn_new_def gc_wf_def comp_def gc_get_def [of "[]"])
qed

theorem counters_converge_witness:
  "fold (\<lambda>x s. pn_merge s x) [pn_incr [1] 5 pn_new, pn_decr [2] 3 pn_new] pn_new
     = fold (\<lambda>x s. pn_merge s x) [pn_decr [2] 3 pn_new, pn_incr [1] 5 pn_new, pn_decr [2] 3 pn_new] pn_new"
  using counters_converge [of "[pn_incr [1] 5 pn_new, pn_decr [2] 3 pn_new]" "[pn_decr [2] 3 pn_new, pn_incr [1] 5 pn_new, pn_decr [2] 3 pn_new]"]
  by (auto simp: pn_wf_def pn_incr_def pn_decr_def pn_new_def gc_wf_def gc_incr_def bt_wf_def)

text \<open>
  Claim C29. Replicated values survive storage. A counter, a counter with decrements and a register
  are read back exactly from their encodings, when the names are valid UTF-8 and the numbers fit
  their fields.
\<close>

theorem crdt_codec_roundtrip:
  assumes "gc_ok p" and "gc_ok m" and "utf8_valid (lw_node r)" and "length (lw_node r) \<le> u32_max" and "lw_ts r \<le> u64_max"
  shows "gc_from_bytes (gc_to_bytes p) = Some p
    \<and> pn_from_bytes (pn_to_bytes \<lparr>pn_p = p, pn_n = m\<rparr>) = Some \<lparr>pn_p = p, pn_n = m\<rparr>
    \<and> lww_from_bytes (lww_to_bytes r) = Some r"
  using assms gc_read_put [of p "[]"] gc_read_put [of m "[]"] gc_read_put [of p "gc_to_bytes m"]
  by (simp add: gc_from_bytes_def pn_from_bytes_def pn_to_bytes_def lww_from_bytes_def lww_to_bytes_def codec)

theorem crdt_codec_roundtrip_witness:
  "pn_from_bytes (pn_to_bytes \<lparr>pn_p = [([97], 3)], pn_n = []\<rparr>) = Some \<lparr>pn_p = [([97], 3)], pn_n = []\<rparr>"
  using crdt_codec_roundtrip [of "[([97], 3)]" "[]" "\<lparr>lw_value = [], lw_ts = 0, lw_node = []\<rparr>"]
  by (simp add: gc_ok_def bt_wf_def in_bytes_def u32_max_def u64_max_def)

text \<open>
  The register's merge is not commutative when one node writes two values with one timestamp,
  which \<open>CRDT.LWW\<close> accepts: two replicas then keep different values for ever.
\<close>

lemma lww_diverges:
  "lww_merge \<lparr>lw_value = [1], lw_ts = 7, lw_node = n\<rparr> \<lparr>lw_value = [2], lw_ts = 7, lw_node = n\<rparr>
   \<noteq> lww_merge \<lparr>lw_value = [2], lw_ts = 7, lw_node = n\<rparr> \<lparr>lw_value = [1], lw_ts = 7, lw_node = n\<rparr>"
  by (simp add: lww_merge_def lww_later_def)

text \<open>The value of a counter is the saturated sum of its counts, in whatever order they are visited.\<close>

lemma gc_value_sum: "gc_value g = min u64_max (sum_list (map snd g))"
proof -
  have "a \<le> u64_max \<Longrightarrow> fold (\<lambda>(_, c) a. sat_add_u64 a c) g a = min u64_max (a + sum_list (map snd g))" for a
    by (induction g arbitrary: a) (auto simp: sat_add_u64_def min_def)
  from this [of 0] show ?thesis by (simp add: gc_value_def)
qed

end
