(* ===== verification/Hash_Spec.thy ===== *)
theory Hash_Spec
  imports Ks_Hash Ks_Spec
begin

text \<open>
  The hash commands implement a map from fields to values: the object of a hash is a header whose
  length is the number of fields and a family with one entry per field; a hash without fields is
  an absent key.
\<close>

section \<open>The representation\<close>

type_synonym fields = "bytes \<Rightarrow> bytes option"

definition hash_values :: "fields \<Rightarrow> bytes \<Rightarrow> val option" where
  "hash_values h = (\<lambda>f. map_option VBytes (h f))"

definition hash_family :: "fields \<Rightarrow> family" where
  "hash_family h = (\<lambda>s. if s = SUB_HASH then hash_values h else Map.empty)"

definition is_hash :: "obj \<Rightarrow> fields \<Rightarrow> bool" where
  "is_hash ob h \<longleftrightarrow> finite (dom h) \<and>
     (case ob of
        OAbsent \<Rightarrow> h = Map.empty
      | OStr b \<Rightarrow> False
      | OColl m F \<Rightarrow> mt_ty m = T_HASH \<and> unat (mt_len m) = card (dom h) \<and> F = hash_family h)"

definition hash_put :: "fields \<Rightarrow> (bytes \<times> bytes) list \<Rightarrow> fields" where
  "hash_put h ps = foldl (\<lambda>h (f, v). h(f \<mapsto> v)) h ps"

lemma dom_hash_values [simp]: "dom (hash_values h) = dom h"
  by (auto simp: hash_values_def)

lemma hash_values_upd: "(hash_values h)(f \<mapsto> VBytes v) = hash_values (h(f \<mapsto> v))"
  by (auto simp: hash_values_def fun_eq_iff)

lemma hash_values_del: "(hash_values h)(f := None) = hash_values (h(f := None))"
  by (auto simp: hash_values_def fun_eq_iff)

lemma type_subs_hash [simp]: "type_subs T_HASH = [SUB_HASH]"
  by (simp add: type_subs_def)

lemma hash_family_ok: "finite (dom h) \<Longrightarrow> card (dom h) \<le> u64_max \<Longrightarrow> family_ok T_HASH (hash_family h)"
  by (auto simp: family_ok_def hash_family_def)

lemma word_of_card: "unat (w :: 64 word) = n \<Longrightarrow> w = of_nat n"
  by auto

lemma of_nat_u64_zero: "n \<le> u64_max \<Longrightarrow> (of_nat n :: 64 word) = 0 \<longleftrightarrow> n = 0"
  using unat_of_nat_u64 [of n] by auto

text \<open>The view once the header and the elements are in place.\<close>

lemma holds_hash:
  assumes "V (kv k) = Some (VMeta (meta_encode m))" and "meta_ok m" and "mt_ty m = T_HASH"
    and "finite (dom h)" and "mt_len m = of_nat (card (dom h))" and "h \<noteq> Map.empty" and "card (dom h) \<le> u64_max"
    and "family_at V k = hash_family h" and "holds_ttl V k ttl"
  shows "holds V k (OColl m (hash_family h)) ttl \<and> is_hash (OColl m (hash_family h)) h"
proof -
  have "card (dom h) \<noteq> 0" using assms(4,6) by simp
  then have "mt_len m \<noteq> 0" using assms(5,7) by (simp add: of_nat_u64_zero)
  then show ?thesis
    using assms hash_family_ok [OF assms(4,7)] by (simp add: holds_def holds_obj_def is_hash_def unat_of_nat_u64)
qed

section \<open>The loops\<close>

lemma new_fields:
  "finite (dom h) \<Longrightarrow> card (dom (h(f \<mapsto> v))) = card (dom h) + (if h f = None then 1 else 0)"
  by (auto simp: card_insert_if domIff)

lemma hash_put_simps [simp]:
  "hash_put h [] = h" "hash_put h ((f, v) # ps) = hash_put (h(f \<mapsto> v)) ps"
  by (simp_all add: hash_put_def)

lemma hash_put_eq: "hash_put h ps = h ++ map_of (rev ps)"
  by (induction ps arbitrary: h) (auto simp: hash_put_def map_add_upd_left [symmetric] map_add_upd)

lemma hash_put_nonempty: "ps \<noteq> [] \<Longrightarrow> hash_put h ps \<noteq> Map.empty"
  by (cases ps rule: rev_cases) (auto simp: hash_put_def)

lemma pairs_of_nonempty: "even (length fs) \<Longrightarrow> fs \<noteq> [] \<Longrightarrow> pairs_of fs \<noteq> []"
  by (cases fs rule: pairs_of.cases) auto

lemma finite_hash_put: "finite (dom h) \<Longrightarrow> finite (dom (hash_put h ps))"
  by (induction ps arbitrary: h) auto

lemma card_hash_put: "finite (dom h) \<Longrightarrow> card (dom h) \<le> card (dom (hash_put h ps))"
proof (induction ps arbitrary: h)
  case (Cons p ps)
  obtain f v where p: "p = (f, v)" by (cases p)
  have fin: "finite (dom (h(f \<mapsto> v)))" using Cons.prems by simp
  have "card (dom h) \<le> card (dom (h(f \<mapsto> v)))" unfolding new_fields [OF Cons.prems] by simp
  also have "\<dots> \<le> card (dom (hash_put (h(f \<mapsto> v)) ps))" by (rule Cons.IH [OF fin])
  finally show ?case by (simp add: p)
qed simp

definition put_fields :: "key \<Rightarrow> (bytes \<times> bytes) list \<Rightarrow> kview \<Rightarrow> kview" where
  "put_fields k ps V = foldl (\<lambda>V (f, v). V(ekey k SUB_HASH f \<mapsto> VBytes v)) V ps"

lemma put_fields_simps [simp]:
  "put_fields k [] V = V" "put_fields k ((f, v) # ps) V = put_fields k ps (V(ekey k SUB_HASH f \<mapsto> VBytes v))"
  by (simp_all add: put_fields_def)

lemma put_fields_other: "(\<And>f. x \<noteq> ekey k SUB_HASH f) \<Longrightarrow> put_fields k ps V x = V x"
  by (induction ps arbitrary: V) auto

lemma family_at_upd: "family_at (V(ekey k s r := v)) k = (family_at V k)(s := (family_at V k s)(r := v))"
  by (auto simp: family_at_def fun_eq_iff)

lemma family_at_other [simp]:
  "family_at (V(kv u := v)) k = family_at V k" "family_at (V(expk u := v)) k = family_at V k"
  by (auto simp: family_at_def)

lemma hash_family_upd: "(hash_family h)(SUB_HASH := (hash_family h SUB_HASH)(f \<mapsto> VBytes v)) = hash_family (h(f \<mapsto> v))"
  by (auto simp: hash_family_def hash_values_def fun_eq_iff)

lemma hash_family_del: "(hash_family h)(SUB_HASH := (hash_family h SUB_HASH)(f := None)) = hash_family (h(f := None))"
  by (auto simp: hash_family_def hash_values_def fun_eq_iff)

lemma put_fields_family: "family_at V k = hash_family h \<Longrightarrow> family_at (put_fields k ps V) k = hash_family (hash_put h ps)"
  by (induction ps arbitrary: V h) (auto simp: family_at_upd hash_family_upd)

lemma hash_field: "family_at V k = hash_family h \<Longrightarrow> V (ekey k SUB_HASH f) = map_option VBytes (h f)"
  by (metis (mono_tags) family_at_def hash_family_def hash_values_def)

definition del_fields :: "key \<Rightarrow> bytes list \<Rightarrow> kview \<Rightarrow> kview" where
  "del_fields k fs V = foldl (\<lambda>V f. V(ekey k SUB_HASH f := None)) V fs"

lemma del_fields_simps [simp]:
  "del_fields k [] V = V" "del_fields k (f # fs) V = del_fields k fs (V(ekey k SUB_HASH f := None))"
  by (simp_all add: del_fields_def)

lemma del_fields_other: "(\<And>f. x \<noteq> ekey k SUB_HASH f) \<Longrightarrow> del_fields k fs V x = V x"
  by (induction fs arbitrary: V) auto

definition hash_del :: "fields \<Rightarrow> bytes list \<Rightarrow> fields" where
  "hash_del h fs = foldl (\<lambda>h f. h(f := None)) h fs"

lemma hash_del_simps [simp]: "hash_del h [] = h" "hash_del h (f # fs) = hash_del (h(f := None)) fs"
  by (simp_all add: hash_del_def)

lemma hash_del_eq: "hash_del h fs = h |` (- set fs)"
  by (induction fs arbitrary: h) (auto simp: restrict_map_def fun_eq_iff)

lemma del_fields_family: "family_at V k = hash_family h \<Longrightarrow> family_at (del_fields k fs V) k = hash_family (hash_del h fs)"
  by (induction fs arbitrary: V h) (auto simp: family_at_upd hash_family_del)

lemma finite_hash_del: "finite (dom h) \<Longrightarrow> finite (dom (hash_del h fs))"
  by (simp add: hash_del_eq)

lemma card_hash_del: "finite (dom h) \<Longrightarrow> card (dom (hash_del h fs)) \<le> card (dom h)"
  by (simp add: hash_del_eq card_mono)

lemma lost_field:
  "finite (dom h) \<Longrightarrow> card (dom h) = card (dom (h(f := None))) + (if h f = None then 0 else 1)"
proof (cases "h f = None")
  case False
  assume fin: "finite (dom h)"
  have "f \<in> dom h" using False by blast
  then have "card (dom h) = Suc (card (dom h - {f}))" using fin by (simp only: card_Suc_Diff1)
  then show ?thesis using False by simp
qed (simp add: domIff)

section \<open>Headers\<close>

definition hash_header :: "obj \<Rightarrow> meta" where
  "hash_header ob = (case ob of OColl m F \<Rightarrow> m | _ \<Rightarrow> meta_new T_HASH)"

lemma hash_headerD:
  assumes "is_hash ob h" and "holds V k ob t"
  shows "meta_ok (hash_header ob)" "mt_ty (hash_header ob) = T_HASH" "mt_len (hash_header ob) = of_nat (card (dom h))"
    "family_at V k = hash_family h" "mt_ver (hash_header ob) \<noteq> 0 \<longrightarrow> has_coll V" "finite (dom h)" "holds_ttl V k t"
    "(case ob of OColl m F \<Rightarrow> (m, t) | _ \<Rightarrow> (meta_new T_HASH, None)) = (hash_header ob, t)"
    "\<not> other_type ob T_HASH"
proof -
  have "hash_family Map.empty = no_family" by (auto simp: hash_family_def no_family_def hash_values_def fun_eq_iff)
  then show "meta_ok (hash_header ob)" "mt_ty (hash_header ob) = T_HASH" "mt_len (hash_header ob) = of_nat (card (dom h))"
    "family_at V k = hash_family h" "mt_ver (hash_header ob) \<noteq> 0 \<longrightarrow> has_coll V" "finite (dom h)" "holds_ttl V k t"
    "(case ob of OColl m F \<Rightarrow> (m, t) | _ \<Rightarrow> (meta_new T_HASH, None)) = (hash_header ob, t)"
    "\<not> other_type ob T_HASH"
    using assms
    by (auto simp: is_hash_def hash_header_def holds_def holds_obj_def other_type_def has_coll_def
        intro: word_of_card split: obj.splits)
qed

lemma hash_empty_iff: "finite (dom h) \<Longrightarrow> card (dom h) = 0 \<longleftrightarrow> h = Map.empty"
  by simp

context command_store
begin

lemma spec_hset_pairs:
  assumes "family_at V k = hash_family h" and "finite (dom h)"
  shows "spec (each_of (hset_pair ops k) ps (m, n)) now ro V
     (Inr (m\<lparr>mt_len := mt_len m + of_nat (card (dom (hash_put h ps)) - card (dom h))\<rparr>,
       n + int (card (dom (hash_put h ps)) - card (dom h)))) (put_fields k ps V)"
  using assms
proof (induction ps arbitrary: V h m n)
  case Nil
  then show ?case using spec_ret [of "(m, n)"] by simp
next
  case (Cons p ps)
  obtain f v where p: "p = (f, v)" by (cases p)
  let ?V1 = "V(ekey k SUB_HASH f \<mapsto> VBytes v)" and ?h1 = "h(f \<mapsto> v)"
  let ?m1 = "if h f = None then (m\<lparr>mt_len := mt_len m + 1\<rparr>, n + 1) else (m, n)"
  have V: "V (ekey k SUB_HASH f) = None \<longleftrightarrow> h f = None" using hash_field [OF Cons.prems(1), of f] by simp
  have step: "spec (hset_pair ops k (m, n) p) now ro V (Inr ?m1) ?V1"
    unfolding p hset_pair_def prod.case
    by (rule spec_bnd [OF spec_get], rule spec_bnd [OF spec_put]) (auto simp: V spec_ret)
  have fam: "family_at ?V1 k = hash_family ?h1" "finite (dom ?h1)"
    using Cons.prems by (simp_all add: family_at_upd hash_family_upd)
  define e where "e = card (dom (hash_put ?h1 ps)) - card (dom ?h1)"
  have "card (dom ?h1) \<le> card (dom (hash_put ?h1 ps))" by (rule card_hash_put [OF fam(2)])
  then have d: "card (dom (hash_put ?h1 ps)) - card (dom h) = e + (if h f = None then 1 else 0)"
    unfolding e_def new_fields [OF Cons.prems(2)] by (simp split: if_splits)
  have "spec (each_of (hset_pair ops k) ps (fst ?m1, snd ?m1)) now ro ?V1
     (Inr ((fst ?m1)\<lparr>mt_len := mt_len (fst ?m1) + of_nat e\<rparr>, snd ?m1 + int e)) (put_fields k ps ?V1)"
    unfolding e_def by (rule Cons.IH [OF fam])
  moreover have "((fst ?m1)\<lparr>mt_len := mt_len (fst ?m1) + of_nat e\<rparr>, snd ?m1 + int e) =
      (m\<lparr>mt_len := mt_len m + of_nat (card (dom (hash_put h (p # ps))) - card (dom h))\<rparr>,
       n + int (card (dom (hash_put h (p # ps))) - card (dom h)))"
    by (simp add: p d del: dom_fun_upd)
  ultimately have "spec (each_of (hset_pair ops k) ps ?m1) now ro ?V1
     (Inr (m\<lparr>mt_len := mt_len m + of_nat (card (dom (hash_put h (p # ps))) - card (dom h))\<rparr>,
       n + int (card (dom (hash_put h (p # ps))) - card (dom h)))) (put_fields k ps ?V1)"
    by simp
  then show ?case unfolding each_of.simps by (intro spec_bnd [OF step]) (simp add: p)
qed

lemma spec_put_hash:
  assumes m: "meta_ok m" "mt_ty m = T_HASH" "mt_len m = of_nat (card (dom h))" "mt_ver m \<noteq> 0 \<longrightarrow> has_coll V"
    and h: "finite (dom h)" "card (dom h) \<le> u64_max" "family_at V k = hash_family h" and t: "holds_ttl V k t"
  shows "\<exists>V' ob'. spec (put_meta ops k m t) now ro V (Inr ()) V' \<and> is_hash ob' h
     \<and> holds V' k ob' (if h = Map.empty then None else t) \<and> elsewhere k V V'"
proof (cases "h = Map.empty")
  case True
  let ?V = "V(kv k := None, expk k := None)"
  have "mt_len m = 0" using m(3) True by simp
  then have "spec (put_meta ops k m t) now ro V (Inr ()) ?V"
    using t by (intro spec_put_meta_empty) (auto simp: holds_ttl_def)
  moreover have "family_at ?V k = no_family"
    using h(3) True by (simp add: hash_family_def no_family_def hash_values_def fun_eq_iff)
  then have "holds ?V k OAbsent None" by (simp add: holds_def holds_obj_def holds_ttl_def)
  moreover have "elsewhere k V ?V" by (intro elsewhere_upd) simp_all
  moreover have "is_hash OAbsent h" by (simp add: is_hash_def True)
  ultimately show ?thesis unfolding if_P [OF True] by blast
next
  case False
  let ?m = "m\<lparr>mt_ver := mt_ver m + 1\<rparr>"
  let ?V = "V(kv k \<mapsto> VMeta (meta_encode ?m))"
  have "mt_len m \<noteq> 0" using m(3) h(1,2) False by (simp add: of_nat_u64_zero)
  then have "spec (put_meta ops k m t) now ro V (Inr ()) ?V" using m(4) by (rule spec_put_meta)
  moreover have "holds ?V k (OColl ?m (hash_family h)) t \<and> is_hash (OColl ?m (hash_family h)) h"
    using m h t False by (intro holds_hash) (simp_all add: meta_ok_def holds_ttl_def)
  moreover have "elsewhere k V ?V" by (intro elsewhere_upd) simp_all
  ultimately show ?thesis unfolding if_not_P [OF False] by blast
qed

lemma spec_hset:
  assumes k: "k \<noteq> []" and h: "holds V k ob ttl" and hh: "is_hash (live_obj now ob ttl) h"
    and a: "a = k # fs" "even (length fs)" "fs \<noteq> []"
    and bound: "card (dom (hash_put h (pairs_of fs))) \<le> u64_max"
  shows "\<exists>V' ob'. spec (hset_cmd ops name a) now False V
       (Inr (if name = ''HSET'' then int_reply (int (card (dom (hash_put h (pairs_of fs))) - card (dom h))) else ok_reply)) V'
     \<and> is_hash ob' (hash_put h (pairs_of fs)) \<and> holds V' k ob' (live_ttl now ttl) \<and> elsewhere k V V'"
proof -
  let ?ps = "pairs_of fs" and ?h = "hash_put h (pairs_of fs)" and ?ob = "live_obj now ob ttl" and ?t = "live_ttl now ttl"
  let ?V1 = "touched now False k ttl V" and ?d = "card (dom (hash_put h (pairs_of fs))) - card (dom h)"
  let ?V2 = "put_fields k ?ps ?V1"
  note hd = hash_headerD [OF hh holds_touched [OF h]]
  let ?m = "hash_header ?ob" and ?m2 = "(hash_header ?ob)\<lparr>mt_len := mt_len (hash_header ?ob) + of_nat ?d\<rparr>"
  have 1: "spec (coll_or_new ops k T_HASH) now False V (Inr (?m, ?t)) ?V1"
    using spec_coll_or_new [OF k h, of now T_HASH False] hd(8,9) by simp
  have 2: "spec (each_of (hset_pair ops k) ?ps (?m, 0)) now False ?V1 (Inr (?m2, int ?d)) ?V2"
    using spec_hset_pairs [OF hd(4,6), of ?ps ?m 0] by simp
  have le: "card (dom h) \<le> card (dom ?h)" by (rule card_hash_put [OF hd(6)])
  then have len: "mt_len ?m2 = of_nat (card (dom ?h))"
    using hd(3) by (simp add: of_nat_add [symmetric] del: of_nat_add)
  have keep: "?V2 (kv u) = ?V1 (kv u)" "?V2 (expk u) = ?V1 (expk u)" for u
    by (simp_all add: put_fields_other)
  obtain V' ob' where 3: "spec (put_meta ops k ?m2 ?t) now False ?V2 (Inr ()) V'" "is_hash ob' ?h"
      "holds V' k ob' (if ?h = Map.empty then None else ?t)" "elsewhere k ?V2 V'"
    using spec_put_hash [of ?m2 ?h ?V2 k ?t now False] hd len bound finite_hash_put [OF hd(6)]
      put_fields_family [OF hd(4)] keep by (auto simp: meta_ok_def holds_ttl_def has_coll_def)
  have "spec (hset_cmd ops name a) now False V (Inr (if name = ''HSET'' then int_reply (int ?d) else ok_reply)) V'"
    unfolding hset_cmd_def a(1) need_def
    using a 1 2 3(1) by (auto simp: spec_ret Suc_le_eq intro!: spec_bnd)
  moreover have "?h \<noteq> Map.empty" using a(2,3) by (intro hash_put_nonempty pairs_of_nonempty)
  moreover have "elsewhere k ?V1 ?V2" by (auto simp: elsewhere_def owned_def put_fields_other)
  then have "elsewhere k V V'" using 3(4) elsewhere_touched [of k V now False ttl] elsewhere_trans by blast
  ultimately show ?thesis using 3 by auto
qed

lemma spec_hdel_fields:
  assumes "family_at V k = hash_family h" and "finite (dom h)"
  shows "spec (each_of (hdel_field ops k) fs (m, n)) now ro V
     (Inr (m\<lparr>mt_len := mt_len m - of_nat (card (dom h) - card (dom (hash_del h fs)))\<rparr>,
       n + int (card (dom h) - card (dom (hash_del h fs))))) (del_fields k fs V)"
  using assms
proof (induction fs arbitrary: V h m n)
  case Nil
  then show ?case using spec_ret [of "(m, n)"] by simp
next
  case (Cons f fs)
  let ?V1 = "V(ekey k SUB_HASH f := None)" and ?h1 = "h(f := None)"
  let ?m1 = "if h f = None then (m, n) else (m\<lparr>mt_len := mt_len m - 1\<rparr>, n + 1)"
  have V: "V (ekey k SUB_HASH f) = None \<longleftrightarrow> h f = None" using hash_field [OF Cons.prems(1), of f] by simp
  have step: "spec (hdel_field ops k (m, n) f) now ro V (Inr ?m1) ?V1"
  proof (cases "h f = None")
    case True
    then have "?V1 = V" using V by auto
    then show ?thesis unfolding hdel_field_def prod.case
      by (intro spec_bnd [OF spec_get]) (simp add: True V spec_ret)
  next
    case False
    then show ?thesis unfolding hdel_field_def prod.case
      by (intro spec_bnd [OF spec_get]) (auto simp: V intro!: spec_bnd [OF spec_delete] spec_ret)
  qed
  have fam: "family_at ?V1 k = hash_family ?h1" "finite (dom ?h1)"
    using Cons.prems by (simp_all add: family_at_upd hash_family_del)
  define e where "e = card (dom ?h1) - card (dom (hash_del ?h1 fs))"
  have "card (dom (hash_del ?h1 fs)) \<le> card (dom ?h1)" by (rule card_hash_del [OF fam(2)])
  then have d: "card (dom h) - card (dom (hash_del ?h1 fs)) = e + (if h f = None then 0 else 1)"
    unfolding e_def using lost_field [OF Cons.prems(2), of f] by (simp split: if_splits)
  have "spec (each_of (hdel_field ops k) fs (fst ?m1, snd ?m1)) now ro ?V1
     (Inr ((fst ?m1)\<lparr>mt_len := mt_len (fst ?m1) - of_nat e\<rparr>, snd ?m1 + int e)) (del_fields k fs ?V1)"
    unfolding e_def by (rule Cons.IH [OF fam])
  moreover have "((fst ?m1)\<lparr>mt_len := mt_len (fst ?m1) - of_nat e\<rparr>, snd ?m1 + int e) =
      (m\<lparr>mt_len := mt_len m - of_nat (card (dom h) - card (dom (hash_del h (f # fs))))\<rparr>,
       n + int (card (dom h) - card (dom (hash_del h (f # fs)))))"
    by (simp add: d algebra_simps del: dom_fun_upd)
  ultimately have "spec (each_of (hdel_field ops k) fs ?m1) now ro ?V1
     (Inr (m\<lparr>mt_len := mt_len m - of_nat (card (dom h) - card (dom (hash_del h (f # fs))))\<rparr>,
       n + int (card (dom h) - card (dom (hash_del h (f # fs)))))) (del_fields k fs ?V1)"
    by simp
  then show ?case unfolding each_of.simps by (intro spec_bnd [OF step]) simp
qed

lemma spec_hdel:
  assumes k: "k \<noteq> []" and h: "holds V k ob ttl" and hh: "is_hash (live_obj now ob ttl) h" and fs: "fs \<noteq> []"
    and bound: "card (dom h) \<le> u64_max"
  shows "\<exists>V' ob'. spec (hdel_cmd ops name (k # fs)) now False V
       (Inr (int_reply (int (card (dom h) - card (dom (hash_del h fs)))))) V'
     \<and> is_hash ob' (hash_del h fs)
     \<and> holds V' k ob' (if hash_del h fs = Map.empty then None else live_ttl now ttl) \<and> elsewhere k V V'"
proof -
  let ?h = "hash_del h fs" and ?ob = "live_obj now ob ttl" and ?t = "live_ttl now ttl"
  let ?V1 = "touched now False k ttl V" and ?d = "card (dom h) - card (dom (hash_del h fs))"
  let ?V2 = "del_fields k fs ?V1"
  note hd = hash_headerD [OF hh holds_touched [OF h]]
  have el1: "elsewhere k V ?V1" by (rule elsewhere_touched)
  have nd: "spec (need name (length (k # fs) \<ge> 2)) now False V (Inr ()) V"
    using fs by (simp add: need_def spec_ret Suc_le_eq)
  show ?thesis
  proof (cases ?ob)
    case OAbsent
    then have "h = Map.empty" "?t = None" using hh holds_touched [OF h] by (auto simp: is_hash_def holds_def)
    moreover have "?h = Map.empty" using \<open>h = Map.empty\<close> by (simp add: hash_del_eq)
    moreover have "spec (hdel_cmd ops name (k # fs)) now False V (Inr (int_reply 0)) ?V1"
      unfolding hdel_cmd_def
      by (rule spec_bnd [OF nd]) (auto intro!: spec_bnd [OF spec_coll_absent [OF k h OAbsent]] spec_ret)
    moreover have "is_hash OAbsent Map.empty" by (simp add: is_hash_def)
    moreover have "holds ?V1 k OAbsent None" using holds_touched [OF h, of now] OAbsent \<open>?t = None\<close> by simp
    ultimately show ?thesis using el1 by (intro exI [of _ ?V1] exI [of _ OAbsent]) simp
  next
    case (OColl m F)
    let ?m2 = "m\<lparr>mt_len := mt_len m - of_nat ?d\<rparr>"
    have m: "hash_header ?ob = m" by (simp add: hash_header_def OColl)
    have coll: "spec (coll ops k T_HASH) now False V (Inr (Some (m, ?t))) ?V1"
      using spec_coll_some [OF k h OColl] hd(2) by (simp add: m)
    have loop: "spec (each_of (hdel_field ops k) fs (m, 0)) now False ?V1 (Inr (?m2, int ?d)) ?V2"
      using spec_hdel_fields [OF hd(4,6), of fs m 0] by simp
    have le: "card (dom ?h) \<le> card (dom h)" by (rule card_hash_del [OF hd(6)])
    then have len: "mt_len ?m2 = of_nat (card (dom ?h))"
      using hd(3) by (simp add: m of_nat_diff)
    have keep: "?V2 (kv u) = ?V1 (kv u)" "?V2 (expk u) = ?V1 (expk u)" for u
      by (simp_all add: del_fields_other)
    have el2: "elsewhere k ?V1 ?V2" by (auto simp: elsewhere_def owned_def del_fields_other)
    obtain V' ob' where 3: "spec (put_meta ops k ?m2 ?t) now False ?V2 (Inr ()) V'" "is_hash ob' ?h"
        "holds V' k ob' (if ?h = Map.empty then None else ?t)" "elsewhere k ?V2 V'"
      using spec_put_hash [of ?m2 ?h ?V2 k ?t now False] hd len le bound finite_hash_del [OF hd(6)]
        del_fields_family [OF hd(4)] keep by (auto simp: meta_ok_def holds_ttl_def has_coll_def m)
    show ?thesis
    proof (cases "?d = 0")
      case False
      then have "spec (hdel_cmd ops name (k # fs)) now False V (Inr (int_reply (int ?d))) V'"
        unfolding hdel_cmd_def
        using coll loop 3(1) by (intro spec_bnd [OF nd]) (auto intro!: spec_bnd spec_ret)
      then show ?thesis using 3 el1 el2 elsewhere_trans by blast
    next
      case True
      have "dom ?h \<subseteq> dom h" by (simp add: hash_del_eq)
      then have "dom ?h = dom h" using hd(6) le True by (intro card_subset_eq) simp_all
      then have same: "?h = h" by (auto simp: hash_del_eq restrict_map_def fun_eq_iff dom_def split: if_splits)
      have "spec (hdel_cmd ops name (k # fs)) now False V (Inr (int_reply (int ?d))) ?V2"
        unfolding hdel_cmd_def True
        using coll loop unfolding True by (intro spec_bnd [OF nd]) (auto intro!: spec_bnd spec_ret)
      moreover have "holds ?V2 k ?ob ?t"
        by (rule holds_cong [OF holds_touched [OF h, of now] keep])
          (simp only: hd(4) del_fields_family [OF hd(4)] same)
      moreover have "mt_len m \<noteq> 0" using holds_touched [OF h, of now] OColl by (simp add: holds_def holds_obj_def)
      then have "h \<noteq> Map.empty" using hd(3) by (auto simp: m)
      ultimately show ?thesis using hh el1 el2 elsewhere_trans [OF el1 el2] by (intro exI [of _ ?V2] exI [of _ ?ob]) (simp add: same)
    qed
  qed (use hd(9) in \<open>simp add: other_type_def\<close>)
qed

text \<open>Reads: nothing for an absent key, the family otherwise.\<close>

lemma spec_need: "b \<Longrightarrow> spec (need name b) now ro V (Inr ()) V"
  by (simp add: need_def spec_ret)

lemma spec_hash_read:
  assumes k: "k \<noteq> []" and h: "holds V k ob ttl" and hh: "is_hash (live_obj now ob ttl) h"
    and none: "h = Map.empty \<Longrightarrow> live_obj now ob ttl = OAbsent \<Longrightarrow> spec (f None) now ro (touched now ro k ttl V) r (touched now ro k ttl V)"
    and some: "\<And>m. mt_ty m = T_HASH \<Longrightarrow> unat (mt_len m) = card (dom h) \<Longrightarrow> family_at V k = hash_family h \<Longrightarrow> finite (dom h) \<Longrightarrow>
        spec (f (Some (m, ttl))) now ro V r V"
  shows "spec (bnd (coll ops k T_HASH) f) now ro V r (touched now ro k ttl V)"
proof (cases "live_obj now ob ttl")
  case OAbsent
  then have "h = Map.empty" using hh by (simp add: is_hash_def)
  then show ?thesis using spec_coll_absent [OF k h OAbsent] none OAbsent by (auto intro: spec_bnd)
next
  case (OColl m F)
  note l = live_coll [OF OColl]
  have F: "mt_ty m = T_HASH" "unat (mt_len m) = card (dom h)" "family_at V k = hash_family h" "finite (dom h)"
    using hh [unfolded OColl] h l [THEN conjunct1] by (simp_all add: is_hash_def holds_def holds_obj_def)
  have "spec (coll ops k T_HASH) now ro V (Inr (Some (m, ttl))) V"
    using spec_coll_some [OF k h OColl F(1), of ro] l by simp
  then show ?thesis using some [OF F] l by (auto intro: spec_bnd)
qed (use hh in \<open>simp add: is_hash_def\<close>)

lemma spec_hget:
  assumes "k \<noteq> []" "holds V k ob ttl" "is_hash (live_obj now ob ttl) h"
  shows "spec (hget_cmd ops name [k, f]) now ro V (Inr (bulk_or_nil (h f))) (touched now ro k ttl V)"
proof -
  have "spec (get_key ops (ekey k SUB_HASH f)) now ro V (Inr (map_option VBytes (h f))) V"
    if "family_at V k = hash_family h" using spec_get [of "ekey k SUB_HASH f" now ro V] hash_field [OF that, of f] by simp
  moreover have "val_or_nil (map_option VBytes (h f)) = bulk_or_nil (h f)"
    by (simp add: val_or_nil_def bulk_or_nil_def val_bytes_def split: option.split)
  ultimately show ?thesis
    unfolding hget_cmd_def
    by (auto intro!: spec_bnd [OF spec_need] spec_hash_read [OF assms] spec_ret simp: bulk_or_nil_def intro: spec_bnd)
      (metis spec_bnd spec_ret)
qed

lemma spec_hlen:
  assumes "k \<noteq> []" "holds V k ob ttl" "is_hash (live_obj now ob ttl) h"
  shows "spec (hlen_cmd ops name [k]) now ro V (Inr (int_reply (int (card (dom h))))) (touched now ro k ttl V)"
  unfolding hlen_cmd_def coll_len_cmd_def
  by (auto intro!: spec_bnd [OF spec_need] spec_hash_read [OF assms] simp: spec_ret int_reply_def dest!: word_of_card)

lemma spec_hgetall:
  assumes "k \<noteq> []" "holds V k ob ttl" "is_hash (live_obj now ob ttl) h" and "card (dom h) \<le> u64_max"
  shows "spec (hgetall_cmd ops ''HGETALL'' [k]) now ro V
     (Inr (RArray (concat (map (\<lambda>f. [RBulk f, RBulk (the (h f))]) (sorted_list_of_set (dom h)))))) (touched now ro k ttl V)"
proof -
  have "spec (elements ops k SUB_HASH) now ro V (Inr (entries_of (hash_values h))) V"
    if "family_at V k = hash_family h" "finite (dom h)"
    using spec_elements [of k SUB_HASH V] assms(1,4) that by (simp add: hash_family_def SUB_HASH_def)
  moreover have "concat (map (\<lambda>(f, v). [RBulk f, RBulk (val_bytes v)]) (entries_of (hash_values h))) =
      concat (map (\<lambda>f. [RBulk f, RBulk (the (h f))]) (sorted_list_of_set (dom h)))" if "finite (dom h)"
    using that unfolding entries_of_def dom_hash_values
    by (auto simp: hash_values_def comp_def val_bytes_def intro!: arg_cong [where f = concat] map_cong)
  ultimately show ?thesis
    unfolding hgetall_cmd_def
    by (auto intro!: spec_bnd [OF spec_need] spec_hash_read [OF assms(1-3)] spec_ret intro: spec_bnd)
      (metis (no_types, lifting) spec_bnd spec_ret)
qed

lemma spec_hash_wrongtype:
  assumes "k \<noteq> []" "holds V k ob ttl" "other_type (live_obj now ob ttl) T_HASH"
  shows "spec (bnd (coll ops k T_HASH) f) now ro V (Inl (err WRONGTYPE)) (touched now ro k ttl V)"
  by (rule spec_bnd_fail [OF spec_coll_wrongtype [OF assms]])

end

section \<open>Claims\<close>

lemma card_hash_put_le: "finite (dom h) \<Longrightarrow> card (dom (hash_put h ps)) \<le> card (dom h) + length ps"
proof (induction ps arbitrary: h)
  case (Cons p ps)
  obtain f v where p: "p = (f, v)" by (cases p)
  have fin: "finite (dom (h(f \<mapsto> v)))" using Cons.prems by simp
  have "card (dom (hash_put h (p # ps))) \<le> card (dom (h(f \<mapsto> v))) + length ps"
    unfolding p hash_put_simps by (rule Cons.IH [OF fin])
  then show ?case unfolding new_fields [OF Cons.prems] by (simp split: if_splits)
qed simp

lemma length_pairs_of: "length (pairs_of fs) \<le> length fs"
  by (induction fs rule: pairs_of.induct) auto

text \<open>
  Claim C31. The hash commands refine a map from fields to values: whatever the store, HSET adds
  the pairs in order and replies how many fields are new, HDEL removes the fields and replies how
  many there were, and the key disappears with its deadline when the last field goes; HGET, HLEN
  and HGETALL (in field order) read the map.  A key whose deadline has passed is an empty map,
  the deadline of a live key survives, other keys are untouched and the expiry index is told.
\<close>

theorem hash_refines_map:
  assumes ok: "os_ok (cx_tx cx)" "\<not> cx_readonly cx" and k: "k \<noteq> []"
    and h: "holds (os_get (cx_tx cx)) k ob ttl" and hh: "is_hash (live_obj (cx_now cx) ob ttl) h"
    and fs: "fs \<noteq> []" "even (length fs)" "card (dom h) + length fs \<le> u64_max"
  shows "(\<exists>ob'. is_hash ob' (hash_put h (pairs_of fs))
       \<and> key_transition (hset_cmd os_ops ''HSET'' (k # fs)) cx k
           (Inr (int_reply (int (card (dom (hash_put h (pairs_of fs))) - card (dom h))))) ob' (live_ttl (cx_now cx) ttl))
   \<and> (\<exists>ob'. is_hash ob' (h |` (- set fs))
       \<and> key_transition (hdel_cmd os_ops ''HDEL'' (k # fs)) cx k
           (Inr (int_reply (int (card (dom h) - card (dom (h |` (- set fs))))))) ob'
           (if h |` (- set fs) = Map.empty then None else live_ttl (cx_now cx) ttl))
   \<and> key_transition (hget_cmd os_ops ''HGET'' [k, f]) cx k (Inr (bulk_or_nil (h f)))
       (live_obj (cx_now cx) ob ttl) (live_ttl (cx_now cx) ttl)
   \<and> key_transition (hlen_cmd os_ops ''HLEN'' [k]) cx k (Inr (int_reply (int (card (dom h)))))
       (live_obj (cx_now cx) ob ttl) (live_ttl (cx_now cx) ttl)
   \<and> key_transition (hgetall_cmd os_ops ''HGETALL'' [k]) cx k
       (Inr (RArray (concat (map (\<lambda>f. [RBulk f, RBulk (the (h f))]) (sorted_list_of_set (dom h))))))
       (live_obj (cx_now cx) ob ttl) (live_ttl (cx_now cx) ttl)"
proof -
  have fin: "finite (dom h)" using hh by (simp add: is_hash_def)
  have b: "card (dom (hash_put h (pairs_of fs))) \<le> u64_max" "card (dom h) \<le> u64_max"
    using card_hash_put_le [OF fin, of "pairs_of fs"] length_pairs_of [of fs] fs(3) by simp_all
  note ti = key_transition_specI [OF ok(2,1)]
  note rd = key_transition_readI [OF ok(2,1) h]
  show ?thesis
    using cs.spec_hset [OF k h hh refl fs(2,1) b(1), of "''HSET''"] cs.spec_hdel [OF k h hh fs(1) b(2), of "''HDEL''"]
      cs.spec_hget [OF k h hh, of "''HGET''" f False] cs.spec_hlen [OF k h hh, of "''HLEN''" False]
      cs.spec_hgetall [OF k h hh b(2), of False]
    by (intro conjI) (auto simp: hash_del_eq intro!: ti rd)
qed

theorem hash_refines_map_witness:
  "\<exists>ob'. is_hash ob' [[102] \<mapsto> [49]]
     \<and> key_transition (hset_cmd os_ops ''HSET'' [[97], [102], [49]]) (fresh_cx 5) [97] (Inr (int_reply 1)) ob' None"
  using hash_refines_map [of "fresh_cx 5" "[97]" OAbsent None Map.empty "[[102], [49]]" "[102]"]
  by (simp add: is_hash_def u64_max_def)

end
