(* ===== verification/Paging.thy ===== *)
theory Paging
  imports Ks_Spec
begin

text \<open>
  The page loop of \<open>each\<close>: pages of 256 entries, each starting just above the last key of the one
  before (or ending at it, downwards), visit a range exactly once and in order, and the fuel is
  never used up.
\<close>

lemma above_snoc_zero: "a < k \<longleftrightarrow> a @ [0] \<le> (k :: bytes)"
proof (induction a arbitrary: k)
  case Nil
  then show ?case by (cases k) (auto simp: word_neq_0_conv)
next
  case (Cons x a)
  then show ?case by (cases k) auto
qed

lemma visit_append:
  "visit f (xs @ ys) acc = (case visit f xs acc of (acc, go) \<Rightarrow> if go then visit f ys acc else (acc, False))"
  by (induction f xs acc rule: visit.induct) (auto split: prod.splits)

lemma visit_collect: "visit (\<lambda>out k v. (out @ [g k v], True)) kvs out = (out @ map (\<lambda>(k, v). g k v) kvs, True)"
  by (induction kvs arbitrary: out) auto

lemma sorted_split_after:
  assumes "bt_wf (xs @ ys)" and "xs \<noteq> []"
  shows "(k, v) \<in> set ys \<longleftrightarrow> (k, v) \<in> set (xs @ ys) \<and> fst (last xs) < k"
proof -
  have s: "sorted_wrt (<) (map fst xs)" "\<And>x y. x \<in> set xs \<Longrightarrow> y \<in> set ys \<Longrightarrow> fst x < fst y"
    using assms(1) by (auto simp: bt_wf_def sorted_wrt_append)
  have le: "fst x \<le> fst (last xs)" if "x \<in> set xs" for x
  proof -
    obtain zs z where z: "xs = zs @ [z]" using assms(2) by (metis append_butlast_last_id)
    then show ?thesis using that s(1) by (auto simp: sorted_wrt_append less_imp_le)
  qed
  have l: "last xs \<in> set xs" using assms(2) by simp
  show ?thesis
  proof
    assume "(k, v) \<in> set ys"
    then show "(k, v) \<in> set (xs @ ys) \<and> fst (last xs) < k" using s(2) [OF l, of "(k, v)"] by simp
  next
    assume "(k, v) \<in> set (xs @ ys) \<and> fst (last xs) < k"
    then show "(k, v) \<in> set ys" using le [of "(k, v)"] by (auto dest: leD)
  qed
qed

lemma range_of_rest:
  assumes "range_of V s e full" and "0 < n" and "n \<le> length full"
  shows "range_of V (fst (last (take n full)) @ [0]) e (drop n full)"
proof -
  let ?l = "fst (last (take n full))"
  have wf: "bt_wf (take n full @ drop n full)" and ne: "take n full \<noteq> []" using assms by (auto simp: range_of_def)
  have "last (take n full) \<in> set full" using ne by (metis in_set_takeD last_in_set)
  then have s: "s \<le> ?l" using assms(1) by (metis prod.collapse range_of_def)
  have "(k, v) \<in> set (drop n full) \<longleftrightarrow> ?l @ [0] \<le> k \<and> k < e \<and> V k = Some v" for k v
  proof -
    have "(k, v) \<in> set (drop n full) \<longleftrightarrow> (k, v) \<in> set full \<and> ?l < k"
      using sorted_split_after [OF wf ne, of k v] by simp
    also have "\<dots> \<longleftrightarrow> ?l < k \<and> k < e \<and> V k = Some v"
      using assms(1) s by (auto simp: range_of_def)
    finally show ?thesis by (simp only: above_snoc_zero)
  qed
  moreover have "bt_wf (drop n full)" 
    using wf unfolding bt_wf_def map_append sorted_wrt_append by (elim conjE)
  ultimately show ?thesis by (simp add: range_of_def)
qed

lemma sorted_split_before:
  assumes "bt_wf (xs @ ys)" and "ys \<noteq> []"
  shows "(k, v) \<in> set xs \<longleftrightarrow> (k, v) \<in> set (xs @ ys) \<and> k < fst (hd ys)"
proof -
  have s: "sorted_wrt (<) (map fst ys)" "\<And>x y. x \<in> set xs \<Longrightarrow> y \<in> set ys \<Longrightarrow> fst x < fst y"
    using assms(1) by (auto simp: bt_wf_def sorted_wrt_append)
  have ge: "fst (hd ys) \<le> fst y" if "y \<in> set ys" for y
    using that s(1) assms(2) by (cases ys) (auto simp: less_imp_le)
  have h: "hd ys \<in> set ys" using assms(2) by simp
  show ?thesis
  proof
    assume "(k, v) \<in> set xs"
    then show "(k, v) \<in> set (xs @ ys) \<and> k < fst (hd ys)" using s(2) [OF _ h, of "(k, v)"] by simp
  next
    assume "(k, v) \<in> set (xs @ ys) \<and> k < fst (hd ys)"
    then show "(k, v) \<in> set xs" using ge [of "(k, v)"] by (auto dest: leD)
  qed
qed

lemma range_of_front:
  assumes "range_of V s e (xs @ ys)" and "ys \<noteq> []"
  shows "range_of V s (fst (hd ys)) xs"
proof -
  have wf: "bt_wf (xs @ ys)" using assms(1) by (simp add: range_of_def)
  have "hd ys \<in> set (xs @ ys)" using assms(2) by simp
  then have e: "fst (hd ys) < e" using assms(1) by (metis prod.collapse range_of_def)
  have "(k, v) \<in> set xs \<longleftrightarrow> s \<le> k \<and> k < fst (hd ys) \<and> V k = Some v" for k v
    unfolding sorted_split_before [OF wf assms(2)] using assms(1) e by (auto simp: range_of_def)
  moreover have "bt_wf xs"
    using wf unfolding bt_wf_def map_append sorted_wrt_append by (elim conjE)
  ultimately show ?thesis by (simp add: range_of_def)
qed

context command_store
begin

lemma spec_scan_any:
  assumes "\<And>k. start \<le> k \<Longrightarrow> k < stop \<Longrightarrow> shard_of k = shard_of hint" and "range_of V start stop full"
  shows "spec (scan_keys ops hint start stop limit reverse) now ro V
     (Inr (take limit (if reverse then rev full else full))) V"
proof (cases "start < stop")
  case True
  show ?thesis by (rule spec_scan [OF True assms])
next
  case False
  have "full = []"
  proof (rule ccontr)
    assume "full \<noteq> []"
    then obtain k v where "(k, v) \<in> set full" by (metis list.set_sel(1) prod.collapse)
    then have "start \<le> k" "k < stop" using assms(2) by (auto simp: range_of_def)
    then show False using False le_less_trans by blast
  qed
  then show ?thesis using scan_empty [OF False] by (auto simp: spec_def scan_keys_def mirrors_Nil)
qed

text \<open>One page of \<open>each\<close>, and what is left of the range after it.\<close>

lemma each_page:
  fixes reverse :: bool
  assumes "range_of V s e full" and "PAGE \<le> length full"
  defines "order \<equiv> (if reverse then rev full else full)"
  defines "s' \<equiv> (if reverse then s else fst (last (take PAGE order)) @ [0])"
    and "e' \<equiv> (if reverse then fst (last (take PAGE order)) else e)"
    and "full' \<equiv> (if reverse then take (length full - PAGE) full else drop PAGE full)"
  shows "range_of V s' e' full' \<and> s \<le> s' \<and> e' \<le> e
    \<and> (if reverse then rev full' else full') = drop PAGE order"
proof (cases reverse)
  case True
  let ?n = "length full - PAGE"
  have split: "take ?n full @ drop ?n full = full" and ne: "drop ?n full \<noteq> []" using assms(2) by (simp_all add: PAGE_def)
  have "take PAGE (rev full) = rev (drop ?n full)" by (simp add: take_rev)
  then have l: "last (take PAGE (rev full)) = hd (drop ?n full)" using ne by (simp add: last_rev)
  have "hd (drop ?n full) \<in> set full" using ne by (metis in_set_dropD list.set_sel(1))
  then have "fst (hd (drop ?n full)) < e" using assms(1) by (metis prod.collapse range_of_def)
  moreover have "range_of V s (fst (hd (drop ?n full))) (take ?n full)"
    using assms(1) split by (intro range_of_front [OF _ ne, of V s e]) simp
  ultimately show ?thesis
    using True by (simp add: order_def s'_def e'_def full'_def l drop_rev less_imp_le)
next
  case False
  have page: "take PAGE full \<noteq> []" using assms(2) by (auto simp: PAGE_def)
  then have "last (take PAGE full) \<in> set full" by (metis in_set_takeD last_in_set)
  then have "s \<le> fst (last (take PAGE full))" using assms(1) by (metis prod.collapse range_of_def)
  then have "s \<le> fst (last (take PAGE full)) @ [0]"
    using above_snoc_zero [of "fst (last (take PAGE full))" "fst (last (take PAGE full)) @ [0]"] by simp
  then show ?thesis
    using False range_of_rest [OF assms(1) _ assms(2)] by (simp add: order_def s'_def e'_def full'_def PAGE_def)
qed

lemma spec_pages:
  assumes "\<And>k. s \<le> k \<Longrightarrow> k < e \<Longrightarrow> shard_of k = shard_of hint" and "range_of V s e full" and "length full < fuel"
  shows "spec (pages ops hint s e reverse f fuel acc) now ro V
     (Inr (fst (visit f (if reverse then rev full else full) acc))) V"
  using assms
proof (induction fuel arbitrary: s e full acc)
  case (Suc fuel)
  let ?order = "if reverse then rev full else full"
  let ?page = "take PAGE ?order"
  have scan: "spec (scan_keys ops hint s e PAGE reverse) now ro V (Inr ?page) V"
    by (rule spec_scan_any [OF Suc.prems(1,2)])
  have lo: "length ?order = length full" by simp
  show ?case
  proof (cases "PAGE \<le> length full")
    case False
    then have "?page = ?order" by simp
    then show ?thesis
      unfolding pages.simps using scan False
      by (intro spec_bnd [OF scan]) (auto simp: Let_def spec_ret split: prod.splits)
  next
    case True
    let ?l = "fst (last ?page)"
    let ?s = "if reverse then s else ?l @ [0]" and ?e = "if reverse then ?l else e"
    let ?full = "if reverse then take (length full - PAGE) full else drop PAGE full"
    note pg = each_page [OF Suc.prems(2) True, of reverse]
    have page: "?page \<noteq> []" "length ?page = PAGE" using True lo by (auto simp: PAGE_def)
    obtain acc1 go where v: "visit f ?page acc = (acc1, go)" by (cases "visit f ?page acc")
    have vo: "fst (visit f ?order acc) = (if go then fst (visit f (drop PAGE ?order) acc1) else acc1)"
      using visit_append [of f ?page "drop PAGE ?order" acc] v by simp
    have "spec (pages ops hint ?s ?e reverse f fuel acc1) now ro V
        (Inr (fst (visit f (if reverse then rev ?full else ?full) acc1))) V"
    proof (rule Suc.IH)
      fix k assume "?s \<le> k" "k < ?e"
      then have "s \<le> k" "k < e" using pg by (meson order_trans, meson order.strict_trans2)
      then show "shard_of k = shard_of hint" by (rule Suc.prems(1))
    qed (use pg Suc.prems(3) True in \<open>auto simp: PAGE_def\<close>)
    then have rest: "spec (pages ops hint ?s ?e reverse f fuel acc1) now ro V
        (Inr (fst (visit f (drop PAGE ?order) acc1))) V" using pg by simp
    show ?thesis
      unfolding pages.simps
    proof (rule spec_bnd [OF scan], goal_cases)
      case 1
      show ?case
        using rest by (simp only: if_not_P [OF page(1)] page(2) Let_def v vo prod.case) (cases go; cases reverse; simp add: spec_ret)
    qed
  qed
qed simp

lemma spec_each:
  assumes "\<And>k. s \<le> k \<Longrightarrow> k < e \<Longrightarrow> shard_of k = shard_of hint" and "range_of V s e full" and "length full \<le> u64_max"
  shows "spec (each ops hint s e reverse f acc) now ro V
     (Inr (fst (visit f (if reverse then rev full else full) acc))) V"
proof -
  have "spec (scan_keys ops hint s e u64_max reverse) now ro V (Inr (if reverse then rev full else full)) V"
    using spec_scan_any [OF assms(1,2), of u64_max reverse] assms(3) by (cases reverse) simp_all
  then show ?thesis
    unfolding each_def by (rule spec_bnd) (rule spec_pages [OF assms(1,2)], simp_all)
qed

end

end
