(* ===== verification/List_Spec.thy ===== *)
theory List_Spec
  imports Ks_List Hash_Spec Paging
begin

text \<open>
  The list commands implement sequences: the object of a list is a header whose length is that of
  the sequence and whose head and tail bound the positions of the elements; an empty list is an
  absent key.  Positions are signed machine words; \<open>list_room\<close> says how far they are from their
  limits, which an empty list reaches only after \<open>2 ^ 63\<close> pushes on one side.
\<close>

section \<open>Elements by position\<close>

definition list_values :: "int \<Rightarrow> bytes list \<Rightarrow> bytes \<Rightarrow> val option" where
  "list_values h xs = (\<lambda>r. let j = sint (seq_from r)
     in if r = seq_bytes (seq_from r) \<and> h \<le> j \<and> j < h + int (length xs)
        then Some (VBytes (xs ! nat (j - h))) else None)"

lemma list_values_at:
  "list_values h xs (seq_bytes i) =
     (if h \<le> sint i \<and> sint i < h + int (length xs) then Some (VBytes (xs ! nat (sint i - h))) else None)"
  by (simp add: list_values_def seq_from_bytes Let_def)

lemma list_values_not: "(\<And>i. r \<noteq> seq_bytes i) \<Longrightarrow> list_values h xs r = None"
  by (simp add: list_values_def)

lemma list_values_ext:
  assumes "\<And>i. f (seq_bytes i) = list_values h xs (seq_bytes i)" and "\<And>r. (\<And>i. r \<noteq> seq_bytes i) \<Longrightarrow> f r = None"
  shows "f = list_values h xs"
proof
  fix r
  show "f r = list_values h xs r"
  proof (cases "\<exists>i. r = seq_bytes i")
    case False
    then show ?thesis using assms(2) list_values_not by metis
  qed (use assms(1) in auto)
qed

lemma sint_eq_iff: "sint (i :: i64) = sint j \<longleftrightarrow> i = j"
  by (auto intro: signed_word_eqI)

lemma list_push_right:
  assumes "sint i = h + int (length xs)"
  shows "(list_values h xs)(seq_bytes i \<mapsto> VBytes v) = list_values h (xs @ [v])"
proof (rule list_values_ext)
  fix j :: i64
  show "((list_values h xs)(seq_bytes i \<mapsto> VBytes v)) (seq_bytes j) = list_values h (xs @ [v]) (seq_bytes j)"
    using assms sint_eq_iff [of i j] by (auto simp: list_values_at nth_append)
qed (auto simp: list_values_not)

lemma nat_back: "h \<le> s \<Longrightarrow> nat (s - (h - 1)) = Suc (nat (s - h))"
  by simp

lemma list_push_left:
  assumes "sint i = h - 1"
  shows "(list_values h xs)(seq_bytes i \<mapsto> VBytes v) = list_values (h - 1) (v # xs)"
proof (rule list_values_ext)
  fix j :: i64
  show "((list_values h xs)(seq_bytes i \<mapsto> VBytes v)) (seq_bytes j) = list_values (h - 1) (v # xs) (seq_bytes j)"
    using assms sint_eq_iff [of i j] nat_back [of h "sint j"] by (auto simp: list_values_at)
qed (auto simp: list_values_not)

lemma list_pop_left:
  assumes "sint i = h"
  shows "(list_values h (x # xs))(seq_bytes i := None) = list_values (h + 1) xs"
proof (rule list_values_ext)
  fix j :: i64
  show "((list_values h (x # xs))(seq_bytes i := None)) (seq_bytes j) = list_values (h + 1) xs (seq_bytes j)"
    using assms sint_eq_iff [of i j] nat_back [of "h + 1" "sint j"] by (auto simp: list_values_at)
qed (auto simp: list_values_not)

lemma list_pop_right:
  assumes "sint i = h + int (length xs)"
  shows "(list_values h (xs @ [x]))(seq_bytes i := None) = list_values h xs"
proof (rule list_values_ext)
  fix j :: i64
  show "((list_values h (xs @ [x]))(seq_bytes i := None)) (seq_bytes j) = list_values h xs (seq_bytes j)"
    using assms sint_eq_iff [of i j] by (auto simp: list_values_at nth_append)
qed (auto simp: list_values_not)

lemma list_set_at:
  assumes "sint i = h + int n" and "n < length xs"
  shows "(list_values h xs)(seq_bytes i \<mapsto> VBytes v) = list_values h (xs[n := v])"
proof (rule list_values_ext)
  fix j :: i64
  show "((list_values h xs)(seq_bytes i \<mapsto> VBytes v)) (seq_bytes j) = list_values h (xs[n := v]) (seq_bytes j)"
    using assms sint_eq_iff [of i j] by (auto simp: list_values_at nth_list_update)
qed (auto simp: list_values_not)

lemma list_values_Nil [simp]: "list_values h [] = Map.empty"
  by (simp add: list_values_def fun_eq_iff Let_def)

section \<open>The elements in order\<close>

definition pos_key :: "int \<Rightarrow> bytes" where
  "pos_key j = seq_bytes (word_of_int j)"

definition list_entries :: "int \<Rightarrow> bytes list \<Rightarrow> (bytes \<times> val) list" where
  "list_entries h xs = map (\<lambda>n. (pos_key (h + int n), VBytes (xs ! n))) [0..<length xs]"

definition in_i64 :: "int \<Rightarrow> nat \<Rightarrow> bool" where
  "in_i64 h n \<longleftrightarrow> - (2 ^ 63) \<le> h \<and> h + int n < 2 ^ 63"

lemma sint_pos: "in_i64 h n \<Longrightarrow> k \<le> n \<Longrightarrow> sint (word_of_int (h + int k) :: i64) = h + int k"
  by (rule sint_of_int_i64) (auto simp: in_i64_def)

lemma list_entries_wf:
  assumes "in_i64 h (length xs)"
  shows "bt_wf (list_entries h xs)"
proof -
  have "pos_key (h + int x) < pos_key (h + int y)" if "x < y" "y \<in> set [0..<length xs]" for x y
    using that sint_pos [OF assms, of x] sint_pos [OF assms, of y] by (simp only: pos_key_def seq_bytes_less) simp
  then show ?thesis
    unfolding bt_wf_def list_entries_def map_map comp_def fst_conv sorted_wrt_map
    by (intro sorted_wrt_mono_rel [OF _ sorted_wrt_upt]) simp
qed

lemma set_list_entries:
  assumes "in_i64 h (length xs)"
  shows "(r, v) \<in> set (list_entries h xs) \<longleftrightarrow> list_values h xs r = Some v"
proof
  assume "(r, v) \<in> set (list_entries h xs)"
  then obtain n where "n < length xs" "r = pos_key (h + int n)" "v = VBytes (xs ! n)"
    by (auto simp: list_entries_def)
  then show "list_values h xs r = Some v"
    using sint_pos [OF assms, of n] by (simp add: pos_key_def list_values_at)
next
  assume a: "list_values h xs r = Some v"
  then obtain i where r: "r = seq_bytes i" using list_values_not by (metis option.distinct(1))
  then have i: "h \<le> sint i" "sint i < h + int (length xs)" "v = VBytes (xs ! nat (sint i - h))"
    using a by (auto simp: list_values_at split: if_splits)
  have "r = pos_key (h + int (nat (sint i - h)))" using i(1) by (simp add: pos_key_def r)
  then show "(r, v) \<in> set (list_entries h xs)" 
    using i by (auto simp: list_entries_def intro!: rev_image_eqI [of "nat (sint i - h)"])
qed

lemma list_values_entries:
  assumes "in_i64 h (length xs)"
  shows "entries_of (list_values h xs) = list_entries h xs"
proof (rule entries_of_unique [OF list_entries_wf [OF assms]])
  show "map_of (list_entries h xs) = list_values h xs"
    using set_list_entries [OF assms] bt_in_set [OF list_entries_wf [OF assms]]
    by (metis (no_types, opaque_lifting) ext not_None_eq option.exhaust)
qed

lemma list_values_finite:
  assumes "in_i64 h (length xs)"
  shows "finite (dom (list_values h xs))" "card (dom (list_values h xs)) = length xs"
proof -
  have "map_of (list_entries h xs) = list_values h xs"
    using set_list_entries [OF assms] bt_in_set [OF list_entries_wf [OF assms]]
    by (metis (no_types, opaque_lifting) ext not_None_eq option.exhaust)
  then show fin: "finite (dom (list_values h xs))" by (metis finite_dom_map_of)
  show "card (dom (list_values h xs)) = length xs"
    using list_values_entries [OF assms] length_entries_of [of "list_values h xs"] by (simp add: list_entries_def)
qed

section \<open>The representation\<close>

definition list_family :: "int \<Rightarrow> bytes list \<Rightarrow> family" where
  "list_family h xs = (\<lambda>s. if s = SUB_LIST then list_values h xs else Map.empty)"

definition is_list :: "obj \<Rightarrow> bytes list \<Rightarrow> bool" where
  "is_list ob xs \<longleftrightarrow>
     (case ob of
        OAbsent \<Rightarrow> xs = []
      | OStr b \<Rightarrow> False
      | OColl m F \<Rightarrow> mt_ty m = T_LIST \<and> unat (mt_len m) = length xs
          \<and> sint (mt_tail m) = sint (mt_head m) + int (length xs) \<and> F = list_family (sint (mt_head m)) xs)"

definition list_room :: "obj \<Rightarrow> nat \<Rightarrow> bool" where
  "list_room ob n \<longleftrightarrow>
     (case ob of
        OColl m F \<Rightarrow> - (2 ^ 63) + int n \<le> sint (mt_head m) \<and> sint (mt_tail m) + int n < 2 ^ 63
      | _ \<Rightarrow> int n < 2 ^ 63)"

lemma type_subs_list [simp]: "type_subs T_LIST = [SUB_LIST]"
  by (simp add: type_subs_def T_LIST_def T_HASH_def)

lemma i64_length: "in_i64 h n \<Longrightarrow> n \<le> u64_max"
  by (simp add: in_i64_def u64_max_def)

lemma list_family_ok: "in_i64 h (length xs) \<Longrightarrow> family_ok T_LIST (list_family h xs)"
  using list_values_finite [of h xs] i64_length [of h "length xs"] by (auto simp: family_ok_def list_family_def)

lemma list_family_upd: "(list_family h xs)(SUB_LIST := f) = (\<lambda>s. if s = SUB_LIST then f else Map.empty)"
  by (auto simp: list_family_def)

lemma list_family_value: "family_at V k = list_family h xs \<Longrightarrow> V (list_key k i) = list_values h xs (seq_bytes i)"
  by (metis (mono_tags) family_at_def list_family_def list_key_def)

lemma family_at_list: "family_at (V(list_key k i := v)) k = (family_at V k)(SUB_LIST := (family_at V k SUB_LIST)(seq_bytes i := v))"
  by (simp add: list_key_def family_at_upd)

lemma owned_list_key [simp]: "owned k (list_key k i)"
  by (simp add: list_key_def)

lemma list_key_kinds [simp]:
  "list_key k i \<noteq> kv u" "list_key k i \<noteq> expk u" "kv u \<noteq> list_key k i" "expk u \<noteq> list_key k i"
  by (simp_all add: list_key_def)

lemma len_zero: "unat (w :: 64 word) = 0 \<longleftrightarrow> w = 0"
  by (metis unat_0 unsigned_word_eqI)

text \<open>What the commands know of a list header while they move its ends.\<close>

definition list_state :: "kview \<Rightarrow> key \<Rightarrow> meta \<Rightarrow> bytes list \<Rightarrow> bool" where
  "list_state V k m xs \<longleftrightarrow>
     meta_ok m \<and> mt_ty m = T_LIST \<and> mt_len m = of_nat (length xs)
     \<and> sint (mt_tail m) = sint (mt_head m) + int (length xs)
     \<and> family_at V k = list_family (sint (mt_head m)) xs \<and> (mt_ver m \<noteq> 0 \<longrightarrow> has_coll V)"

definition meta_room :: "meta \<Rightarrow> nat \<Rightarrow> bool" where
  "meta_room m n \<longleftrightarrow> - (2 ^ 63) + int n \<le> sint (mt_head m) \<and> sint (mt_tail m) + int n < 2 ^ 63"

lemma list_state_range: "list_state V k m xs \<Longrightarrow> in_i64 (sint (mt_head m)) (length xs)"
  using sint_range_i64 [of "mt_head m"] sint_range_i64 [of "mt_tail m"] by (auto simp: list_state_def in_i64_def)

definition list_header :: "obj \<Rightarrow> meta" where
  "list_header ob = (case ob of OColl m F \<Rightarrow> m | _ \<Rightarrow> meta_new T_LIST)"

lemma list_family_Nil: "list_family h [] = no_family"
  by (auto simp: list_family_def no_family_def fun_eq_iff)

lemma list_header_state:
  assumes "is_list ob xs" and "holds V k ob t"
  shows "list_state V k (list_header ob) xs" "holds_ttl V k t" "list_room ob n \<Longrightarrow> meta_room (list_header ob) n"
    "(case ob of OColl m F \<Rightarrow> (m, t) | _ \<Rightarrow> (meta_new T_LIST, None)) = (list_header ob, t)" "\<not> other_type ob T_LIST"
  using assms
  by (auto simp: is_list_def list_header_def list_state_def holds_def holds_obj_def other_type_def has_coll_def
      list_room_def meta_room_def list_family_Nil intro: word_of_card split: obj.splits)

lemma sint_minus_one: "- (2 ^ 63) + 1 \<le> sint (w :: i64) \<Longrightarrow> sint (w - 1) = sint w - 1"
proof -
  assume "- (2 ^ 63) + 1 \<le> sint w"
  then have "sint (word_of_int (sint w - 1) :: i64) = sint w - 1"
    using sint_range_i64 [of w] by (intro sint_of_int_i64) simp_all
  then show ?thesis by simp
qed

lemma sint_plus_one: "sint (w :: i64) + 1 < 2 ^ 63 \<Longrightarrow> sint (w + 1) = sint w + 1"
proof -
  assume "sint w + 1 < 2 ^ 63"
  then have "sint (word_of_int (sint w + 1) :: i64) = sint w + 1"
    using sint_range_i64 [of w] by (intro sint_of_int_i64) simp_all
  then show ?thesis by simp
qed

definition push_all_of :: "bool \<Rightarrow> bytes list \<Rightarrow> bytes list \<Rightarrow> bytes list" where
  "push_all_of left vs xs = (if left then rev vs @ xs else xs @ vs)"

section \<open>Storing the header\<close>

lemma holds_list:
  assumes "list_state V k m xs" and "V (kv k) = Some (VMeta (meta_encode m'))" and "xs \<noteq> []" and "holds_ttl V k ttl"
    and "m' = m\<lparr>mt_ver := v\<rparr>"
  shows "holds V k (OColl m' (list_family (sint (mt_head m)) xs)) ttl \<and> is_list (OColl m' (list_family (sint (mt_head m)) xs)) xs"
proof -
  have r: "in_i64 (sint (mt_head m)) (length xs)" by (rule list_state_range [OF assms(1)])
  have "unat (mt_len m) = length xs" "mt_len m \<noteq> 0"
    using assms(1,3) i64_length [OF r] by (simp_all add: list_state_def unat_of_nat_u64 of_nat_u64_zero)
  then show ?thesis
    using assms list_family_ok [OF r] by (auto simp: holds_def holds_obj_def is_list_def list_state_def meta_ok_def)
qed

definition pop_reply :: "bool \<Rightarrow> nat option \<Rightarrow> bytes list \<Rightarrow> resp" where
  "pop_reply left count xs =
     (if xs = [] then RNil
      else case count of
             None \<Rightarrow> RBulk (if left then hd xs else last xs)
           | Some n \<Rightarrow> RArray (map RBulk (take n (if left then xs else rev xs))))"

definition pop_rest :: "bool \<Rightarrow> nat option \<Rightarrow> bytes list \<Rightarrow> bytes list" where
  "pop_rest left count xs =
     (let n = (case count of None \<Rightarrow> 1 | Some n \<Rightarrow> n)
      in if left then drop n xs else take (length xs - n) xs)"

section \<open>Indices\<close>

text \<open>What an index, and a pair of indices, mean for a sequence of \<open>n\<close> elements.\<close>

definition index_of :: "int \<Rightarrow> nat \<Rightarrow> nat option" where
  "index_of i n = (let j = (if i < 0 then int n + i else i) in if 0 \<le> j \<and> j < int n then Some (nat j) else None)"

definition range_bounds :: "int \<Rightarrow> int \<Rightarrow> nat \<Rightarrow> (nat \<times> nat) option" where
  "range_bounds s e n =
     (let s' = (if s < 0 then max 0 (int n + s) else s); e' = (if e < 0 then int n + e else min e (int n - 1))
      in if s' \<le> e' \<and> s' < int n then Some (nat s', nat e') else None)"

lemma sint_len: "n < 2 ^ 63 \<Longrightarrow> sint (of_nat n :: i64) = int n"
  using sint_of_int_i64 [of "int n"] by simp

lemma sint_add_i64: "- (2 ^ 63) \<le> sint (a :: i64) + sint b \<Longrightarrow> sint a + sint b < 2 ^ 63 \<Longrightarrow> sint (a + b) = sint a + sint b"
  using sint_of_int_i64 [of "sint a + sint b"] by simp

lemma list_index_of:
  assumes "mt_len m = of_nat n" and "n < 2 ^ 63"
  shows "list_index i m = map_option of_nat (index_of (sint i) n)"
proof -
  have len: "sint (mt_len m) = int n" using assms sint_len by simp
  have add: "sint (mt_len m + i) = int n + sint i" if "sint i < 0"
    using that len assms(2) sint_range_i64 [of i] sint_add_i64 [of "mt_len m" i] by simp
  have wd: "(word_of_int (int n + sint i) :: i64) = mt_len m + i" by (simp add: assms(1))
  show ?thesis
  proof (cases "sint i < 0")
    case True
    then show ?thesis using add len wd by (auto simp: list_index_def index_of_def Let_def)
  next
    case False
    then show ?thesis using len by (auto simp: list_index_def index_of_def Let_def)
  qed
qed

lemma norm_range_bounds:
  assumes "len = of_nat n" and "n < 2 ^ 63"
  shows "norm_range s e len = map_option (\<lambda>(a, b). (of_nat a, of_nat b)) (range_bounds (sint s) (sint e) n)"
proof -
  have len: "sint len = int n" using assms sint_len by simp
  have add: "sint (len + x) = int n + sint x" if "sint x < 0" for x :: i64
    using that len assms(2) sint_range_i64 [of x] sint_add_i64 [of len x] by simp
  have wd: "(word_of_int (int n + sint x) :: i64) = len + x" for x by (simp add: assms(1))
  have pred: "sint (len - 1) = int n - 1" using sint_minus_one [of len] len by simp
  have pred': "(word_of_int (int n - 1) :: i64) = len - 1" by (simp add: assms(1))
  show ?thesis
    using add [of s] add [of e] len pred wd [of s] wd [of e] pred'
    by (auto simp: norm_range_def range_bounds_def Let_def min_def max_def)
qed

lemma list_position:
  assumes "list_state V k m xs" and "n < length xs"
  shows "sint (mt_head m + of_nat n) = sint (mt_head m) + int n"
    and "V (list_key k (mt_head m + of_nat n)) = Some (VBytes (xs ! n))"
proof -
  have h: "sint (mt_head m + of_nat n) = sint (mt_head m) + int n"
    using sint_pos [OF list_state_range [OF assms(1)], of n] assms(2) by simp
  then show "sint (mt_head m + of_nat n) = sint (mt_head m) + int n" .
  have "V (list_key k (mt_head m + of_nat n)) = list_values (sint (mt_head m)) xs (seq_bytes (mt_head m + of_nat n))"
    using assms(1) by (intro list_family_value) (simp add: list_state_def)
  then show "V (list_key k (mt_head m + of_nat n)) = Some (VBytes (xs ! n))"
    using assms(2) h by (simp add: list_values_at)
qed

context command_store
begin

lemma spec_put_list:
  assumes st: "list_state V k m xs" and t: "holds_ttl V k t"
  shows "\<exists>V' ob'. spec (put_meta ops k m t) now ro V (Inr ()) V' \<and> is_list ob' xs
     \<and> holds V' k ob' (if xs = [] then None else t) \<and> elsewhere k V V'"
proof (cases "xs = []")
  case True
  let ?V = "V(kv k := None, expk k := None)"
  have "mt_len m = 0" using st True by (simp add: list_state_def)
  then have "spec (put_meta ops k m t) now ro V (Inr ()) ?V"
    using t by (intro spec_put_meta_empty) (auto simp: holds_ttl_def)
  moreover have "family_at ?V k = no_family" using st True by (simp add: list_state_def list_family_Nil)
  then have "holds ?V k OAbsent None" by (simp add: holds_def holds_obj_def holds_ttl_def)
  moreover have "elsewhere k V ?V" by (intro elsewhere_upd) simp_all
  moreover have "is_list OAbsent xs" by (simp add: is_list_def True)
  ultimately show ?thesis unfolding if_P [OF True] by blast
next
  case False
  let ?m = "m\<lparr>mt_ver := mt_ver m + 1\<rparr>"
  let ?V = "V(kv k \<mapsto> VMeta (meta_encode ?m))"
  have "mt_len m \<noteq> 0"
    using st False i64_length [OF list_state_range [OF st]] by (simp add: list_state_def of_nat_u64_zero)
  then have "spec (put_meta ops k m t) now ro V (Inr ()) ?V"
    using st by (intro spec_put_meta) (simp_all add: list_state_def)
  moreover have "list_state ?V k m xs" using st by (auto simp: list_state_def has_coll_def)
  then have "holds ?V k (OColl ?m (list_family (sint (mt_head m)) xs)) t \<and> is_list (OColl ?m (list_family (sint (mt_head m)) xs)) xs"
    using False t by (intro holds_list) (simp_all add: holds_ttl_def)
  moreover have "elsewhere k V ?V" by (intro elsewhere_upd) simp_all
  ultimately show ?thesis unfolding if_not_P [OF False] by blast
qed

lemma spec_push_step:
  assumes st: "list_state V k m xs" and room: "meta_room m (Suc n)"
  shows "\<exists>V' m'. spec (push_step ops k left m v) now ro V (Inr m') V'
     \<and> list_state V' k m' (if left then v # xs else xs @ [v]) \<and> meta_room m' n
     \<and> V' (kv k) = V (kv k) \<and> V' (expk k) = V (expk k) \<and> elsewhere k V V'"
proof -
  let ?m1 = "if left then m\<lparr>mt_head := mt_head m - 1\<rparr> else m\<lparr>mt_tail := mt_tail m + 1\<rparr>"
  let ?pos = "if left then mt_head ?m1 else mt_tail ?m1 - 1"
  let ?V = "V(list_key k ?pos \<mapsto> VBytes v)" and ?m' = "?m1\<lparr>mt_len := mt_len ?m1 + 1\<rparr>"
  have r: "sint (mt_head m - 1) = sint (mt_head m) - 1" if left
    using room that by (intro sint_minus_one) (simp add: meta_room_def)
  have r': "sint (mt_tail m + 1) = sint (mt_tail m) + 1" if "\<not> left"
    using room that by (intro sint_plus_one) (simp add: meta_room_def)
  have "spec (push_step ops k left m v) now ro V (Inr ?m') ?V"
    unfolding push_step_def Let_def by (rule spec_bnd [OF spec_put spec_ret]) simp_all
  moreover have "list_state ?V k ?m' (if left then v # xs else xs @ [v])"
  proof -
    have "has_coll ?V = has_coll V" by (auto simp: has_coll_def)
    moreover have "(list_values (sint (mt_head m)) xs)(seq_bytes ?pos \<mapsto> VBytes v) =
        list_values (sint (mt_head ?m1)) (if left then v # xs else xs @ [v])"
      using st r list_push_left [of "mt_head m - 1" "sint (mt_head m)" xs v] list_push_right [of "mt_tail m" "sint (mt_head m)" xs v]
      by (simp add: list_state_def)
    ultimately show ?thesis
      using st r r' by (auto simp: list_state_def family_at_list meta_ok_def list_family_def)
  qed
  moreover have "meta_room ?m' n" using room r r' by (auto simp: meta_room_def)
  moreover have "elsewhere k V ?V" by (intro elsewhere_upd) simp_all
  ultimately show ?thesis by (intro exI [of _ ?V] exI [of _ ?m']) (auto simp: list_key_def)
qed

lemma spec_push_loop:
  assumes "list_state V k m xs" and "meta_room m (length vs)"
  shows "\<exists>V' m'. spec (each_of (push_step ops k left) vs m) now ro V (Inr m') V'
     \<and> list_state V' k m' (push_all_of left vs xs)
     \<and> V' (kv k) = V (kv k) \<and> V' (expk k) = V (expk k) \<and> elsewhere k V V'"
  using assms
proof (induction vs arbitrary: V m xs)
  case Nil
  then show ?case using spec_ret [of m now ro V]
    by (intro exI [of _ V] exI [of _ m]) (simp add: push_all_of_def)
next
  case (Cons v vs)
  obtain V1 m1 where 1: "spec (push_step ops k left m v) now ro V (Inr m1) V1"
      "list_state V1 k m1 (if left then v # xs else xs @ [v])" "meta_room m1 (length vs)"
      "V1 (kv k) = V (kv k)" "V1 (expk k) = V (expk k)" "elsewhere k V V1"
    using spec_push_step [OF Cons.prems(1), of "length vs" left v now ro] Cons.prems(2) by auto
  obtain V2 m2 where 2: "spec (each_of (push_step ops k left) vs m1) now ro V1 (Inr m2) V2"
      "list_state V2 k m2 (push_all_of left vs (if left then v # xs else xs @ [v]))"
      "V2 (kv k) = V1 (kv k)" "V2 (expk k) = V1 (expk k)" "elsewhere k V1 V2"
    using Cons.IH [OF 1(2,3)] by auto
  have "push_all_of left vs (if left then v # xs else xs @ [v]) = push_all_of left (v # vs) xs"
    by (simp add: push_all_of_def)
  then show ?case
    using 1 2 elsewhere_trans [OF 1(6) 2(5)] unfolding each_of.simps
    by (intro exI [of _ V2] exI [of _ m2]) (auto intro: spec_bnd)
qed

lemma spec_coll_list:
  assumes "k \<noteq> []" "holds V k ob ttl" "is_list (live_obj now ob ttl) xs"
  shows "spec (coll ops k T_LIST) now False V
     (Inr (if xs = [] then None else Some (list_header (live_obj now ob ttl), live_ttl now ttl))) (touched now False k ttl V)"
proof (cases "live_obj now ob ttl")
  case OAbsent
  then have "xs = []" using assms(3) by (simp add: is_list_def)
  then show ?thesis using spec_coll_absent [OF assms(1,2) OAbsent] by simp
next
  case (OColl m F)
  have "mt_len m \<noteq> 0" using holds_touched [OF assms(2), of now] by (simp add: OColl holds_def holds_obj_def)
  then have "xs \<noteq> []" "mt_ty m = T_LIST" using assms(3) by (auto simp: OColl is_list_def len_zero)
  then show ?thesis using spec_coll_some [OF assms(1,2) OColl] by (simp add: list_header_def OColl)
qed (use assms(3) in \<open>simp add: is_list_def\<close>)

lemma absent_header:
  assumes "is_list ob []" and "holds V k ob t"
  shows "(meta_new T_LIST, None) = (list_header ob, t)"
proof (cases ob)
  case OAbsent
  then show ?thesis using assms(2) by (simp add: list_header_def holds_def)
next
  case (OColl m F)
  then show ?thesis using assms by (simp add: is_list_def holds_def holds_obj_def len_zero)
qed (use assms in \<open>simp add: is_list_def\<close>)

lemma spec_push:
  assumes k: "k \<noteq> []" and h: "holds V k ob ttl" and xs: "is_list (live_obj now ob ttl) xs"
    and vs: "vs \<noteq> []" and room: "list_room (live_obj now ob ttl) (length vs)"
    and x: "xs \<noteq> [] \<or> last name \<noteq> CHR ''X''"
  shows "\<exists>V' ob'. spec (push_cmd ops name (k # vs)) now False V
       (Inr (int_reply (int (length (push_all_of (hd name = CHR ''L'') vs xs))))) V'
     \<and> is_list ob' (push_all_of (hd name = CHR ''L'') vs xs) \<and> holds V' k ob' (live_ttl now ttl) \<and> elsewhere k V V'"
proof -
  let ?ob = "live_obj now ob ttl" and ?t = "live_ttl now ttl" and ?V1 = "touched now False k ttl V"
  let ?left = "hd name = CHR ''L''"
  let ?ys = "push_all_of ?left vs xs" and ?m = "list_header ?ob"
  note lh = list_header_state [OF xs holds_touched [OF h]]
  obtain V2 m2 where 2: "spec (each_of (push_step ops k ?left) vs ?m) now False ?V1 (Inr m2) V2" "list_state V2 k m2 ?ys"
      "V2 (kv k) = ?V1 (kv k)" "V2 (expk k) = ?V1 (expk k)" "elsewhere k ?V1 V2"
    using spec_push_loop [OF lh(1) lh(3) [OF room], of ?left now False] by auto
  have ne: "?ys \<noteq> []" using vs by (simp add: push_all_of_def)
  obtain V' ob' where 3: "spec (put_meta ops k m2 ?t) now False V2 (Inr ()) V'" "is_list ob' ?ys"
      "holds V' k ob' (if ?ys = [] then None else ?t)" "elsewhere k V2 V'"
    using spec_put_list [OF 2(2), of ?t now False] lh(2) 2(4) by (auto simp: holds_ttl_def)
  have len: "RInt (mt_len m2) = int_reply (int (length ?ys))" using 2(2) by (simp add: list_state_def int_reply_def)
  have hdr: "(meta_new T_LIST, None) = (?m, ?t)" if "xs = []"
    using absent_header [of ?ob, OF _ holds_touched [OF h]] xs that by simp
  have tail: "spec (bnd (each_of (push_step ops k ?left) vs ?m) (\<lambda>m. bnd (put_meta ops k m ?t) (\<lambda>_. ret (RInt (mt_len m)))))
      now False ?V1 (Inr (int_reply (int (length ?ys)))) V'"
    unfolding len [symmetric] by (rule spec_bnd [OF 2(1)], rule spec_bnd [OF 3(1)], rule spec_ret)
  have "spec (push_cmd ops name (k # vs)) now False V (Inr (int_reply (int (length ?ys)))) V'"
    unfolding push_cmd_def nth_Cons_0 list.sel
  proof (rule spec_bnd [OF spec_need], goal_cases)
    case 2
    show ?case using x hdr tail by (intro spec_bnd [OF spec_coll_list [OF k h xs]]) (cases "xs = []"; simp)
  qed (use vs in \<open>simp add: Suc_le_eq\<close>)
  then show ?thesis
    using 3 ne elsewhere_trans [OF elsewhere_trans [OF elsewhere_touched 2(5)] 3(4)] by auto
qed

lemma spec_pop_step:
  assumes st: "list_state V k m ys" and ys: "ys = (if left then x # xs else xs @ [x])"
  shows "\<exists>V' m'. spec (pop_step ops k left (m, out)) now ro V (Inr (m', out @ [x])) V'
     \<and> list_state V' k m' xs \<and> V' (kv k) = V (kv k) \<and> V' (expk k) = V (expk k) \<and> elsewhere k V V'"
proof -
  let ?m1 = "if left then m\<lparr>mt_head := mt_head m + 1\<rparr> else m\<lparr>mt_tail := mt_tail m - 1\<rparr>"
  let ?pos = "if left then mt_head ?m1 - 1 else mt_tail ?m1"
  let ?V = "V(list_key k ?pos := None)" and ?m' = "?m1\<lparr>mt_len := mt_len ?m1 - 1\<rparr>"
  have len: "length ys = Suc (length xs)" by (simp add: ys)
  have r: "sint (mt_head m + 1) = sint (mt_head m) + 1"
    using st len sint_range_i64 [of "mt_tail m"] by (intro sint_plus_one) (simp add: list_state_def)
  have r': "sint (mt_tail m - 1) = sint (mt_tail m) - 1"
    using st len sint_range_i64 [of "mt_head m"] by (intro sint_minus_one) (simp add: list_state_def)
  have "V (list_key k ?pos) = list_values (sint (mt_head m)) ys (seq_bytes ?pos)"
    using st by (intro list_family_value) (simp add: list_state_def)
  then have v: "V (list_key k ?pos) = Some (VBytes x)"
    using st r' by (simp add: list_values_at ys list_state_def nth_append)
  have "spec (pop_step ops k left (m, out)) now ro V (Inr (?m', out @ [x])) ?V"
    unfolding pop_step_def Let_def prod.case
    by (rule spec_bnd [OF spec_get], rule spec_bnd [OF spec_delete]) (simp_all add: v val_bytes_def spec_ret)
  moreover have "list_state ?V k ?m' xs"
  proof -
    have "has_coll ?V = has_coll V" by (auto simp: has_coll_def)
    moreover have "(list_values (sint (mt_head m)) ys)(seq_bytes ?pos := None) = list_values (sint (mt_head ?m1)) xs"
      using st r r' list_pop_left [of "mt_head m" "sint (mt_head m)" x xs] list_pop_right [of "mt_tail m - 1" "sint (mt_head m)" xs x]
      by (simp add: list_state_def ys)
    ultimately show ?thesis
      using st r r' len by (auto simp: list_state_def family_at_list meta_ok_def list_family_def)
  qed
  moreover have "elsewhere k V ?V" by (intro elsewhere_upd) simp_all
  ultimately show ?thesis by (intro exI [of _ ?V] exI [of _ ?m']) simp
qed

lemma spec_pop_loop:
  assumes "list_state V k m ys" and "n \<le> length ys"
  shows "\<exists>V' m'. spec (pop_loop ops k left n (m, out)) now ro V (Inr (m', out @ take n (if left then ys else rev ys))) V'
     \<and> list_state V' k m' (if left then drop n ys else take (length ys - n) ys)
     \<and> V' (kv k) = V (kv k) \<and> V' (expk k) = V (expk k) \<and> elsewhere k V V'"
  using assms
proof (induction n arbitrary: V m ys out)
  case 0
  then show ?case using spec_ret [of "(m, out)" now ro V] by (intro exI [of _ V] exI [of _ m]) simp
next
  case (Suc n)
  define x xs where "x = (if left then hd ys else last ys)" and "xs = (if left then tl ys else butlast ys)"
  have ys: "ys = (if left then x # xs else xs @ [x])" using Suc.prems(2) by (cases "ys = []") (simp_all add: x_def xs_def)
  obtain V1 m1 where 1: "spec (pop_step ops k left (m, out)) now ro V (Inr (m1, out @ [x])) V1" "list_state V1 k m1 xs"
      "V1 (kv k) = V (kv k)" "V1 (expk k) = V (expk k)" "elsewhere k V V1"
    using spec_pop_step [OF Suc.prems(1) ys, of out now ro] by blast
  have "n \<le> length xs" using Suc.prems(2) by (simp add: xs_def)
  then obtain V2 m2 where 2: "spec (pop_loop ops k left n (m1, out @ [x])) now ro V1
        (Inr (m2, (out @ [x]) @ take n (if left then xs else rev xs))) V2"
      "list_state V2 k m2 (if left then drop n xs else take (length xs - n) xs)"
      "V2 (kv k) = V1 (kv k)" "V2 (expk k) = V1 (expk k)" "elsewhere k V1 V2"
    using Suc.IH [OF 1(2), of "out @ [x]"] by blast
  have "(out @ [x]) @ take n (if left then xs else rev xs) = out @ take (Suc n) (if left then ys else rev ys)"
    "(if left then drop n xs else take (length xs - n) xs) = (if left then drop (Suc n) ys else take (length ys - Suc n) ys)"
    by (simp_all add: ys)
  then show ?case
    using 1 2 elsewhere_trans [OF 1(5) 2(5)] unfolding pop_loop.simps
    by (intro exI [of _ V2] exI [of _ m2]) (auto intro: spec_bnd)
qed

lemma spec_pop:
  assumes k: "k \<noteq> []" and h: "holds V k ob ttl" and xs: "is_list (live_obj now ob ttl) xs"
    and a: "(a = [k] \<and> count = None) \<or> (\<exists>c i. a = [k, c] \<and> parse_strict_i64 c = Some i \<and> 0 \<le> sint i \<and> count = Some (nat (sint i)))"
  shows "\<exists>V' ob'. spec (pop_cmd ops name a) now False V (Inr (pop_reply (name = ''LPOP'') count xs)) V'
     \<and> is_list ob' (pop_rest (name = ''LPOP'') count xs)
     \<and> holds V' k ob' (if pop_rest (name = ''LPOP'') count xs = [] then None else live_ttl now ttl) \<and> elsewhere k V V'"
proof -
  let ?ob = "live_obj now ob ttl" and ?t = "live_ttl now ttl" and ?V1 = "touched now False k ttl V"
  let ?left = "name = ''LPOP''" and ?m = "list_header (live_obj now ob ttl)"
  let ?n = "min (case count of Some n \<Rightarrow> n | None \<Rightarrow> 1) (length xs)"
  note lh = list_header_state [OF xs holds_touched [OF h]]
  have rest: "(if ?left then drop ?n xs else take (length xs - ?n) xs) = pop_rest ?left count xs"
    by (cases count) (auto simp: pop_rest_def min_def)
  have args: "spec (if length a > 1
          then ok_or (case parse_strict_i64 (a ! 1) of Some c \<Rightarrow> if sint c \<ge> 0 then Some (Some (nat (sint c))) else None
                      | None \<Rightarrow> None) (err ''value is out of range, must be positive'')
          else ret None) now False V (Inr count) V"
    using a by (auto simp: ok_or_def spec_ret)
  have nd: "length a = 1 \<or> length a = 2" "a ! 0 = k" using a by auto
  show ?thesis
  proof (cases "xs = []")
    case True
    have "spec (pop_cmd ops name a) now False V (Inr RNil) ?V1"
      unfolding pop_cmd_def nd(2)
      using nd(1) by (intro spec_bnd [OF spec_need] spec_bnd [OF args] spec_bnd [OF spec_coll_list [OF k h xs]]) (simp_all add: True spec_ret)
    moreover have "?ob = OAbsent" using xs holds_touched [OF h, of now] True
      by (auto simp: is_list_def holds_def holds_obj_def len_zero split: obj.splits)
    then have "holds ?V1 k OAbsent None" using holds_touched [OF h, of now] by (auto simp: holds_def)
    moreover have "is_list OAbsent []" by (simp add: is_list_def)
    ultimately show ?thesis using elsewhere_touched [of k V now False ttl]
      by (intro exI [of _ ?V1] exI [of _ OAbsent]) (simp add: True pop_reply_def pop_rest_def Let_def)
  next
    case False
    obtain V2 m2 where lp: "spec (pop_loop ops k ?left ?n (?m, [])) now False ?V1
          (Inr (m2, take ?n (if ?left then xs else rev xs))) V2" "list_state V2 k m2 (pop_rest ?left count xs)"
        "V2 (kv k) = ?V1 (kv k)" "V2 (expk k) = ?V1 (expk k)" "elsewhere k ?V1 V2"
      using spec_pop_loop [OF lh(1), of ?n ?left "[]" now False] unfolding rest by auto
    obtain V' ob' where pm: "spec (put_meta ops k m2 ?t) now False V2 (Inr ()) V'" "is_list ob' (pop_rest ?left count xs)"
        "holds V' k ob' (if pop_rest ?left count xs = [] then None else ?t)" "elsewhere k V2 V'"
      using spec_put_list [OF lp(2), of ?t now False] lh(2) lp(4) by (auto simp: holds_ttl_def)
    have len: "unat (mt_len ?m) = length xs"
      using lh(1) i64_length [OF list_state_range [OF lh(1)]] by (simp add: list_state_def unat_of_nat_u64)
    let ?out = "take ?n (if ?left then xs else rev xs)"
    have reply: "(case count of None \<Rightarrow> if ?out = [] then RNil else RBulk (last ?out) | Some _ \<Rightarrow> RArray (map RBulk ?out))
        = pop_reply ?left count xs"
      using False by (cases count; cases xs rule: rev_cases; cases xs) (auto simp: pop_reply_def min_def take_Suc)
    have "spec (pop_cmd ops name a) now False V (Inr (pop_reply ?left count xs)) V'"
      unfolding pop_cmd_def nd(2)
    proof (rule spec_bnd [OF spec_need], goal_cases)
      case 2
      show ?case
      proof (rule spec_bnd [OF args], rule spec_bnd [OF spec_coll_list [OF k h xs]], goal_cases)
        case 1
        show ?case
          unfolding if_not_P [OF False] option.case prod.case Let_def len reply [symmetric]
          by (rule spec_bnd [OF lp(1)], unfold prod.case, rule spec_bnd [OF pm(1)], rule spec_ret)
      qed
    qed (use nd(1) in simp)
    then show ?thesis using pm elsewhere_trans [OF elsewhere_trans [OF elsewhere_touched lp(5)] pm(4)]
      by (intro exI [of _ V'] exI [of _ ob']) simp
  qed
qed

text \<open>Reads of a list.\<close>

lemma spec_list_read:
  assumes k: "k \<noteq> []" and h: "holds V k ob ttl" and xs: "is_list (live_obj now ob ttl) xs"
    and none: "xs = [] \<Longrightarrow> spec (f None) now ro (touched now ro k ttl V) r (touched now ro k ttl V)"
    and some: "\<And>m. xs \<noteq> [] \<Longrightarrow> list_state V k m xs \<Longrightarrow> spec (f (Some (m, ttl))) now ro V r V"
  shows "spec (bnd (coll ops k T_LIST) f) now ro V r (touched now ro k ttl V)"
proof (cases "live_obj now ob ttl")
  case OAbsent
  then have "xs = []" using xs by (simp add: is_list_def)
  then show ?thesis using spec_coll_absent [OF k h OAbsent] none by (auto intro: spec_bnd)
next
  case (OColl m F)
  note l = live_coll [OF OColl]
  have ob: "holds V k (OColl m F) ttl" using h l by blast
  have st: "list_state V k m xs" using list_header_state(1) [OF xs [unfolded OColl] ob] by (simp add: list_header_def)
  have "mt_len m \<noteq> 0" using ob by (simp add: holds_def holds_obj_def)
  then have ne: "xs \<noteq> []" "mt_ty m = T_LIST" using xs by (auto simp: OColl is_list_def len_zero)
  have "spec (coll ops k T_LIST) now ro V (Inr (Some (m, ttl))) V"
    using spec_coll_some [OF k h OColl ne(2), of ro] l by simp
  then show ?thesis using some [OF ne(1) st] l by (auto intro: spec_bnd)
qed (use xs in \<open>simp add: is_list_def\<close>)

lemma spec_llen:
  assumes "k \<noteq> []" "holds V k ob ttl" "is_list (live_obj now ob ttl) xs"
  shows "spec (llen_cmd ops name [k]) now ro V (Inr (int_reply (int (length xs)))) (touched now ro k ttl V)"
  unfolding llen_cmd_def coll_len_cmd_def nth_Cons_0
  by (intro spec_bnd [OF spec_need] spec_list_read [OF assms]) (auto simp: spec_ret int_reply_def list_state_def)

lemma spec_lindex:
  assumes "k \<noteq> []" "holds V k ob ttl" "is_list (live_obj now ob ttl) xs" and i: "parse_strict_i64 b = Some i"
    and len: "length xs < 2 ^ 63"
  shows "spec (lindex_cmd ops name [k, b]) now ro V
     (Inr (case index_of (sint i) (length xs) of None \<Rightarrow> RNil | Some n \<Rightarrow> RBulk (xs ! n))) (touched now ro k ttl V)"
proof -
  have step: "spec (case list_index i m of None \<Rightarrow> ret RNil
        | Some i \<Rightarrow> bnd (get_key ops (list_key k (mt_head m + i))) (\<lambda>v. ret (val_or_nil v))) now ro V
      (Inr (case index_of (sint i) (length xs) of None \<Rightarrow> RNil | Some n \<Rightarrow> RBulk (xs ! n))) V"
    if st: "list_state V k m xs" for m
  proof (cases "index_of (sint i) (length xs)")
    case None
    then show ?thesis using list_index_of [of m "length xs" i] st len by (simp add: list_state_def spec_ret)
  next
    case (Some n)
    then have n: "n < length xs" by (auto simp: index_of_def Let_def split: if_splits)
    have "list_index i m = Some (of_nat n)" using list_index_of [of m "length xs" i] st len Some by (simp add: list_state_def)
    moreover have "spec (bnd (get_key ops (list_key k (mt_head m + of_nat n))) (\<lambda>v. ret (val_or_nil v))) now ro V (Inr (RBulk (xs ! n))) V"
      by (rule spec_bnd [OF spec_get]) (simp add: list_position(2) [OF st n] val_or_nil_def val_bytes_def spec_ret)
    ultimately show ?thesis using Some by simp
  qed
  show ?thesis
    unfolding lindex_cmd_def nth_Cons_0
  proof (rule spec_bnd [OF spec_need], simp, rule spec_bnd [of _ _ _ _ i V], simp add: ok_or_def i spec_ret,
      rule spec_list_read [OF assms(1-3)])
    assume "xs = []"
    then show "spec (case None of None \<Rightarrow> ret RNil
        | Some (m, _) \<Rightarrow> case list_index i m of None \<Rightarrow> ret RNil
            | Some i \<Rightarrow> bnd (get_key ops (list_key k (mt_head m + i))) (\<lambda>v. ret (val_or_nil v))) now ro
        (touched now ro k ttl V) (Inr (case index_of (sint i) (length xs) of None \<Rightarrow> RNil | Some n \<Rightarrow> RBulk (xs ! n)))
        (touched now ro k ttl V)"
      by (simp add: index_of_def Let_def spec_ret)
  qed (simp add: step)
qed

end

text \<open>The elements at positions \<open>a .. b\<close> are one range of keys.\<close>

lemma between_list_keys:
  assumes "list_key k i \<le> x" and "x < list_key k j"
  shows "\<exists>r. x = ekey k SUB_LIST r"
proof -
  have s: "SUB_LIST \<noteq> 255" by (simp add: SUB_LIST_def)
  have "ebase k SUB_LIST \<le> list_key k i" using ekey_le [of k SUB_LIST "[]" "seq_bytes i"] by (simp add: list_key_def ekey_empty)
  moreover have "list_key k j < ebase k (SUB_LIST + 1)" using in_erange [OF s, of k "list_key k j"] by (auto simp: list_key_def)
  ultimately show ?thesis using assms in_erange [OF s, of k x] by (meson order.strict_trans order_trans)
qed

lemma list_span:
  assumes st: "list_state V k m xs" and b: "b < length xs" and a: "a \<le> b"
  shows "range_of V (list_key k (mt_head m + of_nat a)) (list_key k (mt_head m + of_nat b + 1))
     (map (\<lambda>n. (list_key k (mt_head m + of_nat n), VBytes (xs ! n))) [a..<Suc b])"
proof -
  note r = list_state_range [OF st]
  let ?h = "sint (mt_head m)" and ?key = "\<lambda>n. list_key k (mt_head m + of_nat n)"
  have pos: "sint (mt_head m + of_nat n) = ?h + int n" if "n \<le> length xs" for n
    using sint_pos [OF r that] by simp
  have less: "?key x < ?key y \<longleftrightarrow> x < y" if "x \<le> length xs" "y \<le> length xs" for x y
    using pos [OF that(1)] pos [OF that(2)] by (simp add: list_key_def seq_bytes_less)
  have stop: "mt_head m + of_nat b + 1 = mt_head m + of_nat (Suc b)" by simp
  have "bt_wf (map (\<lambda>n. (?key n, VBytes (xs ! n))) [a..<Suc b])"
    unfolding bt_wf_def map_map comp_def fst_conv sorted_wrt_map
    by (rule sorted_wrt_mono_rel [OF _ sorted_wrt_upt]) (use b less in \<open>simp del: upt_Suc\<close>)
  moreover have "(x, v) \<in> set (map (\<lambda>n. (?key n, VBytes (xs ! n))) [a..<Suc b]) \<longleftrightarrow>
      ?key a \<le> x \<and> x < ?key (Suc b) \<and> V x = Some v" for x v
  proof
    assume "(x, v) \<in> set (map (\<lambda>n. (?key n, VBytes (xs ! n))) [a..<Suc b])"
    then obtain n where n: "a \<le> n" "n \<le> b" "x = ?key n" "v = VBytes (xs ! n)" by auto
    then show "?key a \<le> x \<and> x < ?key (Suc b) \<and> V x = Some v"
      using less [of n a] less [of n "Suc b"] b a list_position(2) [OF st, of n] by (simp add: not_less [symmetric])
  next
    assume x: "?key a \<le> x \<and> x < ?key (Suc b) \<and> V x = Some v"
    then obtain q where q: "x = ekey k SUB_LIST q" using between_list_keys by blast
    have "family_at V k SUB_LIST q = list_family ?h xs SUB_LIST q" using st by (simp only: list_state_def)
    then have "list_values ?h xs q = Some v" using x by (simp add: q family_at_def list_family_def)
    then have "(q, v) \<in> set (list_entries ?h xs)" by (simp add: set_list_entries [OF r])
    then obtain n where n: "n < length xs" "q = seq_bytes (mt_head m + of_nat n)" "v = VBytes (xs ! n)"
      by (auto simp: list_entries_def pos_key_def)
    then have "x = ?key n" by (simp add: q list_key_def)
    then have "a \<le> n" "n < Suc b" using x less [of n a] less [of n "Suc b"] n(1) a b by (auto simp: not_less [symmetric])
    then show "(x, v) \<in> set (map (\<lambda>n. (?key n, VBytes (xs ! n))) [a..<Suc b])"
      unfolding set_map using n(3) \<open>x = ?key n\<close> by (intro rev_image_eqI [of n]) auto
  qed
  ultimately show ?thesis unfolding stop by (simp add: range_of_def)
qed

text \<open>The elements a pair of indices selects.\<close>

definition segment :: "int \<Rightarrow> int \<Rightarrow> bytes list \<Rightarrow> bytes list" where
  "segment s e xs =
     (case range_bounds s e (length xs) of None \<Rightarrow> [] | Some (a, b) \<Rightarrow> take (Suc b - a) (drop a xs))"

lemma segment_map: "b < length xs \<Longrightarrow> map (\<lambda>n. xs ! n) [a..<Suc b] = take (Suc b - a) (drop a xs)"
  by (rule nth_equalityI) (simp_all del: upt_Suc)

lemma range_bounds_within: "range_bounds s e n = Some (a, b) \<Longrightarrow> a \<le> b \<and> b < n"
  unfolding range_bounds_def Let_def
  by (simp split: if_splits) linarith+

context command_store
begin

lemma spec_lrange:
  assumes "k \<noteq> []" "holds V k ob ttl" "is_list (live_obj now ob ttl) xs"
    and se: "parse_strict_i64 bs = Some s" "parse_strict_i64 be = Some e" and len: "length xs < 2 ^ 63"
  shows "spec (lrange_cmd ops name [k, bs, be]) now ro V
     (Inr (RArray (map RBulk (segment (sint s) (sint e) xs)))) (touched now ro k ttl V)"
proof -
  have step: "spec (case norm_range s e (mt_len m) of
            None \<Rightarrow> ret (RArray [])
          | Some (s, e) \<Rightarrow>
              let start = list_key k (mt_head m + s); stop = list_key k (mt_head m + e + 1)
              in bnd (each ops start start stop False (\<lambda>out _ v. (out @ [RBulk (val_bytes v)], True)) []) (\<lambda>out.
                 ret (RArray out))) now ro V
      (Inr (RArray (map RBulk (segment (sint s) (sint e) xs)))) V"
    if st: "list_state V k m xs" for m
  proof (cases "range_bounds (sint s) (sint e) (length xs)")
    case None
    then show ?thesis using norm_range_bounds [of "mt_len m" "length xs" s e] st len
      by (simp add: list_state_def segment_def spec_ret)
  next
    case (Some ab)
    obtain a b where ab: "ab = (a, b)" by (cases ab)
    have b: "b < length xs" "a \<le> b" using Some range_bounds_within by (auto simp: ab)
    let ?kvs = "map (\<lambda>n. (list_key k (mt_head m + of_nat n), VBytes (xs ! n))) [a..<Suc b]"
    let ?start = "list_key k (mt_head m + of_nat a)" and ?stop = "list_key k (mt_head m + of_nat b + 1)"
    have shard: "shard_of x = shard_of ?start" if x: "?start \<le> x" "x < ?stop" for x
    proof -
      obtain r where "x = ekey k SUB_LIST r" using between_list_keys [OF x] by blast
      then show ?thesis using ekey_shard [OF assms(1)] by (simp add: list_key_def)
    qed
    have nr: "norm_range s e (mt_len m) = Some (of_nat a, of_nat b)"
      using norm_range_bounds [of "mt_len m" "length xs" s e] st len Some by (simp add: list_state_def ab)
    have kl: "length ?kvs \<le> u64_max"
      using b i64_length [OF list_state_range [OF st]] unfolding length_map length_upt by linarith
    let ?f = "\<lambda>out (_ :: key) v. (out @ [RBulk (val_bytes v)], True)"
    let ?each = "each ops ?start ?start ?stop False ?f []"
    have "spec ?each now ro V (Inr (fst (visit ?f (if False then rev ?kvs else ?kvs) []))) V"
      by (rule spec_each [OF shard list_span [OF st b] kl])
    then have "spec ?each now ro V (Inr (map (\<lambda>(_, v). RBulk (val_bytes v)) ?kvs)) V"
      by (simp only: if_False visit_collect fst_conv append_Nil)
    moreover have "map (\<lambda>(_, v). RBulk (val_bytes v)) ?kvs = map RBulk (map (\<lambda>n. xs ! n) [a..<Suc b])"
      by (simp add: val_bytes_def comp_def del: upt_Suc)
    then have "map (\<lambda>(_, v). RBulk (val_bytes v)) ?kvs = map RBulk (segment (sint s) (sint e) xs)"
      by (simp only: segment_map [OF b(1)] segment_def Some ab option.case prod.case)
    ultimately show ?thesis unfolding nr option.case prod.case Let_def
      by (intro spec_bnd [of ?each]) (assumption, simp only: spec_ret)
  qed
  show ?thesis
    unfolding lrange_cmd_def nth_Cons_0
  proof (rule spec_bnd [OF spec_need], simp, rule spec_bnd [of _ _ _ _ s V], simp add: ok_or_def se spec_ret,
      rule spec_bnd [of _ _ _ _ e V], simp add: ok_or_def se spec_ret, rule spec_list_read [OF assms(1-3)])
    assume "xs = []"
    then have "segment (sint s) (sint e) xs = []" by (simp add: segment_def range_bounds_def Let_def)
    then show "spec (case None of None \<Rightarrow> ret (RArray [])
        | Some (m, _) \<Rightarrow> case norm_range s e (mt_len m) of None \<Rightarrow> ret (RArray [])
            | Some (s, e) \<Rightarrow>
              let start = list_key k (mt_head m + s); stop = list_key k (mt_head m + e + 1)
              in bnd (each ops start start stop False (\<lambda>out _ v. (out @ [RBulk (val_bytes v)], True)) []) (\<lambda>out.
                 ret (RArray out))) now ro
        (touched now ro k ttl V) (Inr (RArray (map RBulk (segment (sint s) (sint e) xs)))) (touched now ro k ttl V)"
      by (simp add: spec_ret)
  qed (use step in simp)
qed

end

section \<open>Claims\<close>

text \<open>
  Claim C32. The list commands refine a sequence: whatever the store, LPUSH and RPUSH add their
  values at the ends and reply the length; LPOP and RPOP, with or without a count, take as many
  elements as asked from theirs, the key disappearing with its deadline when none is left; and LLEN,
  LINDEX and LRANGE read the sequence, negative indices counting from its end and a start before the
  beginning standing for the beginning.  A key whose deadline has passed is an empty list, other keys
  are untouched and the expiry index is told.
\<close>

theorem list_refines_sequence:
  assumes ok: "os_ok (cx_tx cx)" "\<not> cx_readonly cx" and k: "k \<noteq> []"
    and h: "holds (os_get (cx_tx cx)) k ob ttl" and xs: "is_list (live_obj (cx_now cx) ob ttl) xs"
    and vs: "vs \<noteq> []" "list_room (live_obj (cx_now cx) ob ttl) (length vs)" and len: "length xs < 2 ^ 63"
    and c: "parse_strict_i64 bc = Some c" "0 \<le> sint c"
    and i: "parse_strict_i64 bi = Some i" "parse_strict_i64 bj = Some j"
  shows "(\<exists>ob'. is_list ob' (rev vs @ xs)
       \<and> key_transition (push_cmd os_ops ''LPUSH'' (k # vs)) cx k (Inr (int_reply (int (length vs + length xs)))) ob' (live_ttl (cx_now cx) ttl))
   \<and> (\<exists>ob'. is_list ob' (xs @ vs)
       \<and> key_transition (push_cmd os_ops ''RPUSH'' (k # vs)) cx k (Inr (int_reply (int (length vs + length xs)))) ob' (live_ttl (cx_now cx) ttl))
   \<and> (\<exists>ob'. is_list ob' (tl xs)
       \<and> key_transition (pop_cmd os_ops ''LPOP'' [k]) cx k (Inr (if xs = [] then RNil else RBulk (hd xs))) ob'
           (if tl xs = [] then None else live_ttl (cx_now cx) ttl))
   \<and> (\<exists>ob'. is_list ob' (butlast xs)
       \<and> key_transition (pop_cmd os_ops ''RPOP'' [k]) cx k (Inr (if xs = [] then RNil else RBulk (last xs))) ob'
           (if butlast xs = [] then None else live_ttl (cx_now cx) ttl))
   \<and> (\<exists>ob'. is_list ob' (drop (nat (sint c)) xs)
       \<and> key_transition (pop_cmd os_ops ''LPOP'' [k, bc]) cx k (Inr (if xs = [] then RNil else RArray (map RBulk (take (nat (sint c)) xs)))) ob'
           (if drop (nat (sint c)) xs = [] then None else live_ttl (cx_now cx) ttl))
   \<and> (\<exists>ob'. is_list ob' (take (length xs - nat (sint c)) xs)
       \<and> key_transition (pop_cmd os_ops ''RPOP'' [k, bc]) cx k
           (Inr (if xs = [] then RNil else RArray (map RBulk (take (nat (sint c)) (rev xs))))) ob'
           (if take (length xs - nat (sint c)) xs = [] then None else live_ttl (cx_now cx) ttl))
   \<and> key_transition (llen_cmd os_ops ''LLEN'' [k]) cx k (Inr (int_reply (int (length xs))))
       (live_obj (cx_now cx) ob ttl) (live_ttl (cx_now cx) ttl)
   \<and> key_transition (lindex_cmd os_ops ''LINDEX'' [k, bj]) cx k
       (Inr (case index_of (sint j) (length xs) of None \<Rightarrow> RNil | Some n \<Rightarrow> RBulk (xs ! n)))
       (live_obj (cx_now cx) ob ttl) (live_ttl (cx_now cx) ttl)
   \<and> key_transition (lrange_cmd os_ops ''LRANGE'' [k, bi, bj]) cx k (Inr (RArray (map RBulk (segment (sint i) (sint j) xs))))
       (live_obj (cx_now cx) ob ttl) (live_ttl (cx_now cx) ttl)"
proof -
  note ti = key_transition_specI [OF ok(2,1)]
  note rd = key_transition_readI [OF ok(2,1) h]
  have lpush: "\<exists>ob'. is_list ob' (rev vs @ xs)
       \<and> key_transition (push_cmd os_ops ''LPUSH'' (k # vs)) cx k (Inr (int_reply (int (length vs + length xs)))) ob' (live_ttl (cx_now cx) ttl)"
    using cs.spec_push [OF k h xs vs, of "''LPUSH''"] by (auto simp: push_all_of_def intro!: ti)
  have rpush: "\<exists>ob'. is_list ob' (xs @ vs)
       \<and> key_transition (push_cmd os_ops ''RPUSH'' (k # vs)) cx k (Inr (int_reply (int (length vs + length xs)))) ob' (live_ttl (cx_now cx) ttl)"
    using cs.spec_push [OF k h xs vs, of "''RPUSH''"] by (auto simp: push_all_of_def add.commute intro!: ti)
  have pop: "\<exists>ob'. is_list ob' (pop_rest left n xs)
       \<and> key_transition (pop_cmd os_ops name a) cx k (Inr (pop_reply left n xs)) ob'
           (if pop_rest left n xs = [] then None else live_ttl (cx_now cx) ttl)"
    if "left = (name = ''LPOP'')" "a = [k] \<and> n = None \<or> (\<exists>b i. a = [k, b] \<and> parse_strict_i64 b = Some i \<and> 0 \<le> sint i \<and> n = Some (nat (sint i)))"
    for left name a n
    using cs.spec_pop [OF k h xs that(2), of name] that(1) by (blast intro!: ti)
  have 1: "[k] = [k] \<and> (None :: nat option) = None \<or> (\<exists>b i. [k] = [k, b] \<and> parse_strict_i64 b = Some i \<and> 0 \<le> sint i \<and> None = Some (nat (sint i)))"
    and 2: "[k, bc] = [k] \<and> Some (nat (sint c)) = None
      \<or> (\<exists>b i. [k, bc] = [k, b] \<and> parse_strict_i64 b = Some i \<and> 0 \<le> sint i \<and> Some (nat (sint c)) = Some (nat (sint i)))"
    using c by auto
  have t: "drop 1 xs = tl xs" "take (length xs - 1) xs = butlast xs" by (simp_all add: butlast_conv_take drop_Suc)
  note shape = pop_reply_def pop_rest_def Let_def option.case if_True if_False t
  have l: "True = (''LPOP'' = ''LPOP'')" "False = (''RPOP'' = ''LPOP'')" by simp_all
  note pops = pop [OF l(1) 1, unfolded shape] pop [OF l(2) 1, unfolded shape] pop [OF l(1) 2, unfolded shape] pop [OF l(2) 2, unfolded shape]
  note reads = rd [OF cs.spec_llen [OF k h xs]] rd [OF cs.spec_lindex [OF k h xs i(2) len]] rd [OF cs.spec_lrange [OF k h xs i len]]
  show ?thesis
    by (intro conjI lpush rpush pops reads)
qed

theorem list_refines_sequence_witness:
  "\<exists>ob'. is_list ob' ([[120], [121]] :: bytes list)
     \<and> key_transition (push_cmd os_ops ''RPUSH'' [[97], [120], [121]]) (fresh_cx 5) [97] (Inr (int_reply 2)) ob' None"
proof -
  have "parse_strict_i64 [49] = Some 1" "parse_strict_i64 [45, 50] = Some (- 2)" "parse_strict_i64 [45, 49] = Some (- 1)" by code_simp+
  then show ?thesis
    using list_refines_sequence [of "fresh_cx 5" "[97]" OAbsent None "[]" "[[120], [121]]" "[49]" 1 "[45, 50]" "- 2" "[45, 49]" "- 1"]
    by (auto simp: is_list_def [of OAbsent] list_room_def)
qed

end
