(* ===== verification/Reducer.thy ===== *)
theory Reducer
  imports Submit Txn "HOL-Library.Char_ord" "HOL-Library.List_Lexorder"
begin

text \<open>
  The compute layer (\<open>crates/compute\<close>): reducers are programs of a stack machine that is metered by
  fuel and reads and writes through a transaction, and the runtime that invokes them guards each
  name with a circuit breaker.  The stack is a list with its top first.
\<close>

section \<open>The machine\<close>

datatype instr =
    PushInt i64
  | Pop
  | Dup
  | Add
  | Sub
  | Mul
  | LoadInt key
  | StoreInt key
  | Jump nat
  | JumpIfZero nat
  | Return
  | Trap string

datatype vm_error = OutOfFuel | StackUnderflow | BadJump nat | Trapped string

record vm =
  vm_stack :: "i64 list"
  vm_fuel :: nat
  vm_budget :: nat

definition vm_new :: "nat \<Rightarrow> vm" where
  "vm_new budget = \<lparr>vm_stack = [], vm_fuel = budget, vm_budget = budget\<rparr>"

definition fuel_used :: "vm \<Rightarrow> nat" where "fuel_used m = vm_budget m - vm_fuel m"

definition burn :: "nat \<Rightarrow> vm \<Rightarrow> vm_error + vm" where
  "burn cost m = (if vm_fuel m < cost then Inl OutOfFuel else Inr (m\<lparr>vm_fuel := vm_fuel m - cost\<rparr>))"

definition vm_pop :: "vm \<Rightarrow> vm_error + (i64 \<times> vm)" where
  "vm_pop m = (case vm_stack m of [] \<Rightarrow> Inl StackUnderflow | v # st \<Rightarrow> Inr (v, m\<lparr>vm_stack := st\<rparr>))"

definition vm_push :: "i64 \<Rightarrow> vm \<Rightarrow> vm" where "vm_push v m = m\<lparr>vm_stack := v # vm_stack m\<rparr>"

text \<open>What an instruction does: go on at an index, or end the run.\<close>

datatype flow = Goto nat | Halt "vm_error + i64 option"

definition binary :: "(i64 \<Rightarrow> i64 \<Rightarrow> i64) \<Rightarrow> nat \<Rightarrow> vm \<Rightarrow> flow \<times> vm" where
  "binary f pc m =
     (case vm_pop m of
        Inl e \<Rightarrow> (Halt (Inl e), m)
      | Inr (b, m) \<Rightarrow>
          (case vm_pop m of
             Inl e \<Rightarrow> (Halt (Inl e), m)
           | Inr (a, m) \<Rightarrow> (Goto (pc + 1), vm_push (f a b) m)))"

definition vm_instr :: "shards \<Rightarrow> instr \<Rightarrow> nat \<Rightarrow> vm \<Rightarrow> txn \<Rightarrow> flow \<times> vm \<times> txn" where
  "vm_instr sh i pc m t =
     (case i of
        PushInt v \<Rightarrow> (Goto (pc + 1), vm_push v m, t)
      | Pop \<Rightarrow> (case vm_pop m of Inl e \<Rightarrow> (Halt (Inl e), m, t) | Inr (_, m) \<Rightarrow> (Goto (pc + 1), m, t))
      | Dup \<Rightarrow> (case vm_stack m of [] \<Rightarrow> (Halt (Inl StackUnderflow), m, t) | v # _ \<Rightarrow> (Goto (pc + 1), vm_push v m, t))
      | Add \<Rightarrow> (case binary (+) pc m of (fl, m) \<Rightarrow> (fl, m, t))
      | Sub \<Rightarrow> (case binary (-) pc m of (fl, m) \<Rightarrow> (fl, m, t))
      | Mul \<Rightarrow> (case binary (*) pc m of (fl, m) \<Rightarrow> (fl, m, t))
      | LoadInt k \<Rightarrow>
          (case burn 10 m of
             Inl e \<Rightarrow> (Halt (Inl e), m, t)
           | Inr m \<Rightarrow>
               (case txn_get sh k t of
                  (v, t) \<Rightarrow> (Goto (pc + 1), vm_push (case v of Some (VInt i) \<Rightarrow> i | _ \<Rightarrow> 0) m, t)))
      | StoreInt k \<Rightarrow>
          (case burn 10 m of
             Inl e \<Rightarrow> (Halt (Inl e), m, t)
           | Inr m \<Rightarrow>
               (case vm_pop m of
                  Inl e \<Rightarrow> (Halt (Inl e), m, t)
                | Inr (v, m) \<Rightarrow> (Goto (pc + 1), m, txn_put k (VInt v) t)))
      | Jump j \<Rightarrow> (Goto j, m, t)
      | JumpIfZero j \<Rightarrow>
          (case vm_pop m of
             Inl e \<Rightarrow> (Halt (Inl e), m, t)
           | Inr (v, m) \<Rightarrow> (Goto (if v = 0 then j else pc + 1), m, t))
      | Return \<Rightarrow>
          (case vm_stack m of
             [] \<Rightarrow> (Halt (Inr None), m, t)
           | v # st \<Rightarrow> (Halt (Inr (Some v)), m\<lparr>vm_stack := st\<rparr>, t))
      | Trap s \<Rightarrow> (Halt (Inl (Trapped s)), m, t))"

lemma pop_push_fuel [simp]:
  "vm_pop m = Inr (v, m') \<Longrightarrow> vm_fuel m' = vm_fuel m" "vm_fuel (vm_push v m) = vm_fuel m"
  by (auto simp: vm_pop_def vm_push_def split: list.splits)

lemma burn_fuel: "burn c m = Inr m' \<Longrightarrow> vm_fuel m' + c = vm_fuel m \<and> vm_stack m' = vm_stack m \<and> vm_budget m' = vm_budget m"
  by (auto simp: burn_def split: if_splits)

lemma vm_instr_fuel: "vm_instr sh i pc m t = (fl, m', t') \<Longrightarrow> vm_fuel m' \<le> vm_fuel m"
  by (cases i) (auto simp: vm_instr_def binary_def split: sum.splits prod.splits list.splits dest!: burn_fuel)

text \<open>The loop: every turn burns one unit before it fetches, so it ends.\<close>

function vm_loop :: "shards \<Rightarrow> instr list \<Rightarrow> nat \<Rightarrow> vm \<Rightarrow> txn \<Rightarrow> (vm_error + i64 option) \<times> vm \<times> txn" where
  "vm_loop sh prog pc m t =
     (case burn 1 m of
        Inl e \<Rightarrow> (Inl e, m, t)
      | Inr m \<Rightarrow>
          if length prog \<le> pc then (Inl (BadJump pc), m, t)
          else
            (case vm_instr sh (prog ! pc) pc m t of
               (Halt r, m, t) \<Rightarrow> (r, m, t)
             | (Goto pc, m, t) \<Rightarrow> vm_loop sh prog pc m t))"
  by pat_completeness auto
termination
  by (relation "measure (\<lambda>(sh, prog, pc, m, t). vm_fuel m)") (auto dest!: burn_fuel vm_instr_fuel [OF sym])

declare vm_loop.simps [simp del]

definition vm_run :: "shards \<Rightarrow> instr list \<Rightarrow> nat \<Rightarrow> txn \<Rightarrow> (vm_error + i64 option) \<times> vm \<times> txn" where
  "vm_run sh prog budget t = vm_loop sh prog 0 (vm_new budget) t"

section \<open>The runtime\<close>

record breaker =
  br_errors :: "32 word"
  br_quarantined :: "64 word"

record runtime =
  rt_shards :: nat
  rt_breakers :: "(string, breaker) btree"
  rt_fuel :: nat
  rt_threshold :: "32 word"

definition rt_new :: "nat \<Rightarrow> runtime" where
  "rt_new shard_count = \<lparr>rt_shards = max shard_count 1, rt_breakers = [], rt_fuel = 100000, rt_threshold = 3\<rparr>"

text \<open>The bulkhead a shard key is routed to: reducers of one bulkhead run one after the other.\<close>

definition bulkhead :: "runtime \<Rightarrow> key \<Rightarrow> nat" where
  "bulkhead rt k = unat (fnv1a k) mod rt_shards rt"

datatype reducer_result = ReducerOk nat "i64 option" | ReducerAborted vm_error | ReducerQuarantined

definition breaker_entry :: "string \<Rightarrow> runtime \<Rightarrow> breaker \<times> runtime" where
  "breaker_entry name rt =
     (case bt_get (rt_breakers rt) name of
        Some b \<Rightarrow> (b, rt)
      | None \<Rightarrow>
          let b = \<lparr>br_errors = 0, br_quarantined = 0\<rparr>
          in (b, rt\<lparr>rt_breakers := bt_insert name b (rt_breakers rt)\<rparr>))"

definition record_success :: "string \<Rightarrow> runtime \<Rightarrow> runtime" where
  "record_success name rt =
     (case bt_get (rt_breakers rt) name of
        None \<Rightarrow> rt
      | Some b \<Rightarrow> rt\<lparr>rt_breakers := bt_insert name (b\<lparr>br_errors := 0\<rparr>) (rt_breakers rt)\<rparr>)"

definition record_error :: "string \<Rightarrow> runtime \<Rightarrow> runtime" where
  "record_error name rt =
     (case bt_get (rt_breakers rt) name of
        None \<Rightarrow> rt
      | Some b \<Rightarrow>
          let n = br_errors b + 1;
              b = b\<lparr>br_errors := n\<rparr>;
              b = (if n \<ge> rt_threshold rt then b\<lparr>br_quarantined := 1\<rparr> else b)
          in rt\<lparr>rt_breakers := bt_insert name b (rt_breakers rt)\<rparr>)"

definition reenable :: "string \<Rightarrow> runtime \<Rightarrow> runtime" where
  "reenable name rt =
     (case bt_get (rt_breakers rt) name of
        None \<Rightarrow> rt
      | Some b \<Rightarrow> rt\<lparr>rt_breakers := bt_insert name \<lparr>br_errors = 0, br_quarantined = 0\<rparr> (rt_breakers rt)\<rparr>)"

definition is_quarantined :: "string \<Rightarrow> runtime \<Rightarrow> bool" where
  "is_quarantined name rt =
     (case bt_get (rt_breakers rt) name of None \<Rightarrow> False | Some b \<Rightarrow> br_quarantined b = 1)"

text \<open>\<open>Txn::commit\<close> of a client whose write is alone in its round; dropping the transaction releases its snapshot.\<close>

definition txn_commit_now :: "flush_io \<Rightarrow> txn \<Rightarrow> engine \<Rightarrow> engine \<times> ack" where
  "txn_commit_now io t e =
     (case submit_now io (tx_writes t) (txn_commit_reads t) None None e of
        (e, a) \<Rightarrow> (unpin (tx_snapshot t) e, a))"

text \<open>
  \<open>Runtime::invoke\<close> in the parts other clients can run between: the breaker's check and \<open>begin\<close>, the
  metered run, and the commit with what the breaker records.
\<close>

definition reducer_enter :: "string \<Rightarrow> runtime \<times> engine \<Rightarrow> txn option \<times> (runtime \<times> engine)" where
  "reducer_enter name = (\<lambda>(rt, e).
     case breaker_entry name rt of
       (b, rt) \<Rightarrow>
         if br_quarantined b = 1 then (None, (rt, e))
         else case txn_begin e of (t, e) \<Rightarrow> (Some t, (rt, e)))"

definition reducer_leave ::
    "flush_io \<Rightarrow> string \<Rightarrow> (vm_error + i64 option) \<times> vm \<times> txn \<Rightarrow> runtime \<times> engine
     \<Rightarrow> reducer_result \<times> (runtime \<times> engine)" where
  "reducer_leave io name = (\<lambda>(result, m, t) (rt, e).
     case result of
       Inr output \<Rightarrow>
         (case txn_commit_now io t e of
            (e, AckOk _) \<Rightarrow> (ReducerOk (fuel_used m) output, (record_success name rt, e))
          | (e, _) \<Rightarrow> (ReducerAborted (Trapped ''commit conflict''), (record_error name rt, e)))
     | Inl err \<Rightarrow> (ReducerAborted err, (record_error name rt, unpin (tx_snapshot t) e)))"

definition invoke ::
    "flush_io \<Rightarrow> string \<Rightarrow> instr list \<Rightarrow> runtime \<times> engine \<Rightarrow> reducer_result \<times> (runtime \<times> engine)" where
  "invoke io name prog s =
     (case reducer_enter name s of
        (None, s) \<Rightarrow> (ReducerQuarantined, s)
      | (Some t, (rt, e)) \<Rightarrow> reducer_leave io name (vm_run (co_shards e) prog (rt_fuel rt) t) (rt, e))"

lemmas invoke_defs = invoke_def reducer_enter_def reducer_leave_def

definition counter_reducer :: "key \<Rightarrow> i64 \<Rightarrow> instr list" where
  "counter_reducer k by = [LoadInt k, PushInt by, Add, Dup, StoreInt k, Return]"

section \<open>What a program does without a meter\<close>

definition cost :: "instr \<Rightarrow> nat" where
  "cost i = (case i of LoadInt _ \<Rightarrow> 11 | StoreInt _ \<Rightarrow> 11 | _ \<Rightarrow> 1)"

text \<open>The effect of an instruction on the stack and the transaction.\<close>

fun effect :: "shards \<Rightarrow> instr \<Rightarrow> nat \<Rightarrow> i64 list \<Rightarrow> txn \<Rightarrow> flow \<times> i64 list \<times> txn" where
  "effect sh (PushInt v) pc st t = (Goto (pc + 1), v # st, t)"
| "effect sh Pop pc (v # st) t = (Goto (pc + 1), st, t)"
| "effect sh Dup pc (v # st) t = (Goto (pc + 1), v # v # st, t)"
| "effect sh Add pc (b # a # st) t = (Goto (pc + 1), (a + b) # st, t)"
| "effect sh Sub pc (b # a # st) t = (Goto (pc + 1), (a - b) # st, t)"
| "effect sh Mul pc (b # a # st) t = (Goto (pc + 1), (a * b) # st, t)"
| "effect sh (LoadInt k) pc st t =
     (Goto (pc + 1), (case txn_view sh t k of Some (VInt i) \<Rightarrow> i | _ \<Rightarrow> 0) # st, snd (txn_get sh k t))"
| "effect sh (StoreInt k) pc (v # st) t = (Goto (pc + 1), st, txn_put k (VInt v) t)"
| "effect sh (Jump j) pc st t = (Goto j, st, t)"
| "effect sh (JumpIfZero j) pc (v # st) t = (Goto (if v = 0 then j else pc + 1), st, t)"
| "effect sh Return pc st t = (Halt (Inr (case st of [] \<Rightarrow> None | v # _ \<Rightarrow> Some v)), drop 1 st, t)"
| "effect sh (Trap s) pc st t = (Halt (Inl (Trapped s)), st, t)"
| "effect sh i pc st t = (Halt (Inl StackUnderflow), st, t)"

text \<open>\<open>halts \<dots> c r t'\<close>: the run ends with result \<open>r\<close> and transaction \<open>t'\<close>, and has cost \<open>c\<close>.\<close>

inductive halts ::
    "shards \<Rightarrow> instr list \<Rightarrow> nat \<Rightarrow> i64 list \<Rightarrow> txn \<Rightarrow> nat \<Rightarrow> vm_error + i64 option \<Rightarrow> txn \<Rightarrow> bool" for sh prog where
  outside: "length prog \<le> pc \<Longrightarrow> halts sh prog pc st t 1 (Inl (BadJump pc)) t"
| stop: "pc < length prog \<Longrightarrow> effect sh (prog ! pc) pc st t = (Halt r, st', t') \<Longrightarrow>
    halts sh prog pc st t (cost (prog ! pc)) r t'"
| go: "pc < length prog \<Longrightarrow> effect sh (prog ! pc) pc st t = (Goto pc', st', t') \<Longrightarrow>
    halts sh prog pc' st' t' c r t'' \<Longrightarrow> halts sh prog pc st t (cost (prog ! pc) + c) r t''"

inductive_cases halts_outsideE: "halts sh prog pc st t c r t'"

section \<open>Metered runs\<close>

lemma binary_stack:
  "vm_stack m = [] \<Longrightarrow> binary f pc m = (Halt (Inl StackUnderflow), m)"
  "vm_stack m = [b] \<Longrightarrow> binary f pc m = (Halt (Inl StackUnderflow), m\<lparr>vm_stack := []\<rparr>)"
  "vm_stack m = b # a # st \<Longrightarrow> binary f pc m = (Goto (pc + 1), m\<lparr>vm_stack := f a b # st\<rparr>)"
  by (simp_all add: binary_def vm_pop_def vm_push_def)

lemma vm_instr_effect:
  assumes "vm_stack m = st" and "effect sh i pc st t = (fl, st', t')"
  shows "if cost i \<le> vm_fuel m + 1
     then \<exists>m'. vm_instr sh i pc m t = (fl, m', t') \<and> vm_fuel m' + cost i = vm_fuel m + 1 \<and> vm_budget m' = vm_budget m
            \<and> (\<forall>j. fl = Goto j \<longrightarrow> vm_stack m' = st')
     else \<exists>m'. vm_instr sh i pc m t = (Halt (Inl OutOfFuel), m', t)"
proof (cases i)
  case (LoadInt k)
  then show ?thesis
    using assms txn_get_view [of sh k t]
    by (cases "txn_get sh k t") (auto simp: vm_instr_def burn_def vm_push_def cost_def)
next
  case (StoreInt k)
  then show ?thesis
    using assms by (cases st) (auto simp: vm_instr_def burn_def vm_pop_def cost_def)
next
  case Add
  then show ?thesis
    using assms by (cases st rule: remdups_adj.cases) (auto simp: vm_instr_def binary_stack binary_stack [OF sym] cost_def)
next
  case Sub
  then show ?thesis
    using assms by (cases st rule: remdups_adj.cases) (auto simp: vm_instr_def binary_stack binary_stack [OF sym] cost_def)
next
  case Mul
  then show ?thesis
    using assms by (cases st rule: remdups_adj.cases) (auto simp: vm_instr_def binary_stack binary_stack [OF sym] cost_def)
qed (use assms in \<open>cases st; auto simp: vm_instr_def vm_pop_def vm_push_def cost_def\<close>)+

lemma cost_pos: "1 \<le> cost i"
  by (simp add: cost_def split: instr.split)

text \<open>One turn of the loop on an instruction of the program.\<close>

lemma vm_loop_turn:
  assumes "pc < length prog" and e: "effect sh (prog ! pc) pc (vm_stack m) t = (fl, st', t')"
  shows "if cost (prog ! pc) \<le> vm_fuel m
     then \<exists>m'. vm_fuel m' + cost (prog ! pc) = vm_fuel m \<and> vm_budget m' = vm_budget m
        \<and> (case fl of
             Halt r \<Rightarrow> vm_loop sh prog pc m t = (r, m', t')
           | Goto j \<Rightarrow> vm_stack m' = st' \<and> vm_loop sh prog pc m t = vm_loop sh prog j m' t')
     else fst (vm_loop sh prog pc m t) = Inl OutOfFuel"
proof (cases "vm_fuel m = 0")
  case True
  then have "vm_loop sh prog pc m t = (Inl OutOfFuel, m, t)" by (simp add: vm_loop.simps [of sh prog pc] burn_def)
  then show ?thesis using True cost_pos [of "prog ! pc"] by simp
next
  case False
  define m1 where "m1 = m\<lparr>vm_fuel := vm_fuel m - 1\<rparr>"
  have m1: "vm_stack m1 = vm_stack m" "vm_fuel m1 + 1 = vm_fuel m" "vm_budget m1 = vm_budget m"
    using False by (simp_all add: m1_def)
  have loop: "vm_loop sh prog pc m t =
      (case vm_instr sh (prog ! pc) pc m1 t of (Halt r, m, t) \<Rightarrow> (r, m, t) | (Goto j, m, t) \<Rightarrow> vm_loop sh prog j m t)"
    using assms(1) False by (simp add: vm_loop.simps [of sh prog pc] burn_def m1_def)
  note i = vm_instr_effect [OF m1(1) e, unfolded m1(2)]
  show ?thesis
  proof (cases "cost (prog ! pc) \<le> vm_fuel m")
    case True
    then obtain m' where "vm_instr sh (prog ! pc) pc m1 t = (fl, m', t')" "vm_fuel m' + cost (prog ! pc) = vm_fuel m"
      "vm_budget m' = vm_budget m1" "\<forall>j. fl = Goto j \<longrightarrow> vm_stack m' = st'"
      using i by auto
    then show ?thesis using True m1 by (auto simp: loop split: flow.split)
  next
    case False
    then show ?thesis using i by (auto simp: loop)
  qed
qed

lemma halts_metered:
  "halts sh prog pc st t c r t' \<Longrightarrow> vm_stack m = st \<Longrightarrow>
     if c \<le> vm_fuel m
     then \<exists>m'. vm_loop sh prog pc m t = (r, m', t') \<and> vm_fuel m' + c = vm_fuel m \<and> vm_budget m' = vm_budget m
     else fst (vm_loop sh prog pc m t) = Inl OutOfFuel"
proof (induction arbitrary: m rule: halts.induct)
  case (outside pc st t)
  then show ?case by (auto simp: vm_loop.simps [of sh prog pc] burn_def)
next
  case (stop pc st t r st' t')
  then show ?case using vm_loop_turn [of pc prog sh m t "Halt r" st' t'] by auto
next
  case (go pc st t pc' st' t' c r t'')
  note turn = vm_loop_turn [OF go.hyps(1), of sh m t "Goto pc'" st' t']
  show ?case
  proof (cases "cost (prog ! pc) \<le> vm_fuel m")
    case True
    then obtain m' where m': "vm_fuel m' + cost (prog ! pc) = vm_fuel m" "vm_budget m' = vm_budget m" "vm_stack m' = st'"
      "vm_loop sh prog pc m t = vm_loop sh prog pc' m' t'"
      using turn go by auto
    then have "c \<le> vm_fuel m' \<longleftrightarrow> cost (prog ! pc) + c \<le> vm_fuel m" by linarith
    then show ?thesis using go.IH [OF m'(3)] m' by (auto split: if_splits)
  qed (use turn go in auto)
qed

lemma metered_halts:
  "vm_loop sh prog pc m t = (r, m', t') \<Longrightarrow> r \<noteq> Inl OutOfFuel \<Longrightarrow> \<exists>c. halts sh prog pc (vm_stack m) t c r t'"
proof (induction "vm_fuel m" arbitrary: pc m t rule: less_induct)
  case less
  show ?case
  proof (cases "pc < length prog")
    case False
    then show ?thesis
      using less.prems halts.outside [of prog pc sh "vm_stack m" t]
      by (auto simp: vm_loop.simps [of sh prog pc] burn_def split: if_splits)
  next
    case True
    obtain fl st' t1 where e: "effect sh (prog ! pc) pc (vm_stack m) t = (fl, st', t1)"
      by (cases "effect sh (prog ! pc) pc (vm_stack m) t")
    note turn = vm_loop_turn [OF True e]
    have c: "cost (prog ! pc) \<le> vm_fuel m" using turn less.prems by (auto split: if_splits)
    show ?thesis
    proof (cases fl)
      case (Halt r')
      then show ?thesis using turn c less.prems(1) halts.stop [OF True e [unfolded Halt]] by auto
    next
      case (Goto j)
      then obtain m1 where m1: "vm_fuel m1 + cost (prog ! pc) = vm_fuel m" "vm_stack m1 = st'"
        "vm_loop sh prog pc m t = vm_loop sh prog j m1 t1"
        using turn c by auto
      have "vm_fuel m1 < vm_fuel m" using m1(1) cost_pos [of "prog ! pc"] by linarith
      from less.hyps [OF this, of j t1] obtain c where "halts sh prog j st' t1 c r t'"
        using less.prems m1 by auto
      then show ?thesis using halts.go [OF True] e Goto by blast
    qed
  qed
qed

lemma counter_halts:
  "\<exists>t'. halts sh (counter_reducer k by) 0 [] t 26
      (Inr (Some ((case txn_view sh t k of Some (VInt i) \<Rightarrow> i | _ \<Rightarrow> 0) + by))) t'
    \<and> txn_view sh t' = (txn_view sh t)(k := Some (VInt ((case txn_view sh t k of Some (VInt i) \<Rightarrow> i | _ \<Rightarrow> 0) + by)))"
proof -
  let ?p = "counter_reducer k by" and ?i = "case txn_view sh t k of Some (VInt i) \<Rightarrow> i | _ \<Rightarrow> 0"
  let ?t = "txn_put k (VInt (?i + by)) (snd (txn_get sh k t))"
  have p: "length ?p = 6" "?p ! 0 = LoadInt k" "?p ! 1 = PushInt by" "?p ! 2 = Add" "?p ! 3 = Dup" "?p ! 4 = StoreInt k" "?p ! 5 = Return"
    by (simp_all add: counter_reducer_def nth_Cons' del: One_nat_def)
  have "halts sh ?p 5 [?i + by] ?t 1 (Inr (Some (?i + by))) ?t"
    using halts.stop [of 5 ?p sh "[?i + by]" ?t] by (simp add: p cost_def)
  from halts.go [OF _ _ this, of 4 "[?i + by, ?i + by]" "snd (txn_get sh k t)"]
  have "halts sh ?p 4 [?i + by, ?i + by] (snd (txn_get sh k t)) 12 (Inr (Some (?i + by))) ?t" by (simp add: p cost_def)
  from halts.go [OF _ _ this, of 3 "[?i + by]" "snd (txn_get sh k t)"]
  have "halts sh ?p 3 [?i + by] (snd (txn_get sh k t)) 13 (Inr (Some (?i + by))) ?t" by (simp add: p cost_def)
  from halts.go [OF _ _ this, of 2 "[by, ?i]" "snd (txn_get sh k t)"]
  have "halts sh ?p 2 [by, ?i] (snd (txn_get sh k t)) 14 (Inr (Some (?i + by))) ?t" by (simp add: p cost_def)
  from halts.go [OF _ _ this, of 1 "[?i]" "snd (txn_get sh k t)"]
  have "halts sh ?p 1 [?i] (snd (txn_get sh k t)) 15 (Inr (Some (?i + by))) ?t" by (simp add: p(1,3) cost_def del: One_nat_def)
  from halts.go [OF _ _ this, of 0 "[]" t]
  have "halts sh ?p 0 [] t 26 (Inr (Some (?i + by))) ?t" by (simp add: p(1,2) cost_def)
  moreover have "txn_view sh (snd (txn_get sh k t)) = txn_view sh t"
    by (auto simp: txn_get_def txn_view_def fun_eq_iff split: option.split)
  ultimately show ?thesis by (auto simp: live_def intro!: exI [of _ ?t])
qed

section \<open>Invocations\<close>

lemma vm_instr_txn:
  "vm_instr sh i pc m t = (fl, m', t') \<Longrightarrow>
     tx_snapshot t' = tx_snapshot t \<and> tx_watches t' = tx_watches t \<and> (txn_wf t \<longrightarrow> txn_wf t')"
  by (cases i)
    (auto simp: vm_instr_def binary_def txn_get_def txn_put_def txn_wf_def bt_wf_insert
      split: sum.splits prod.splits list.splits option.splits)

lemma vm_loop_txn:
  "vm_loop sh prog pc m t = (r, m', t') \<Longrightarrow>
     tx_snapshot t' = tx_snapshot t \<and> tx_watches t' = tx_watches t \<and> (txn_wf t \<longrightarrow> txn_wf t')"
proof (induction "vm_fuel m" arbitrary: pc m t rule: less_induct)
  case less
  show ?case
  proof (cases "vm_fuel m = 0 \<or> length prog \<le> pc")
    case True
    then show ?thesis using less.prems by (auto simp: vm_loop.simps [of sh prog pc] burn_def split: if_splits)
  next
    case False
    define m1 where "m1 = m\<lparr>vm_fuel := vm_fuel m - 1\<rparr>"
    obtain fl m2 t2 where i: "vm_instr sh (prog ! pc) pc m1 t = (fl, m2, t2)"
      by (cases "vm_instr sh (prog ! pc) pc m1 t")
    have f: "vm_fuel m2 < vm_fuel m" using vm_instr_fuel [OF i] False by (auto simp: m1_def)
    have loop: "vm_loop sh prog pc m t = (case fl of Halt r \<Rightarrow> (r, m2, t2) | Goto j \<Rightarrow> vm_loop sh prog j m2 t2)"
      using False i by (simp add: vm_loop.simps [of sh prog pc] burn_def m1_def split: flow.split)
    show ?thesis
      using less.hyps [OF f] less.prems vm_instr_txn [OF i] by (cases fl) (auto simp: loop)
  qed
qed

lemma begin_view: "txn_view (co_shards e) (fst (txn_begin e)) = get e"
  by (simp add: txn_view_def txn_begin_def get_def fun_eq_iff)

lemma txn_view_shards: "txn_view sh t k = (case bt_get (tx_writes t) k of Some v \<Rightarrow> live v | None \<Rightarrow> get_at sh k (tx_snapshot t))"
  by (simp add: txn_view_def)

lemma unpin_ok_facts: "engine_ok e \<Longrightarrow> engine_ok (unpin s e) \<and> write_queue (unpin s e) = write_queue e \<and> get (unpin s e) = get e"
  using engine_step_ok [OF engine_step.unpin] by (simp add: get_def snapshot_def fun_eq_iff)

text \<open>A commit of a transaction whose snapshot is still registered.\<close>

definition newer_commit :: "engine \<Rightarrow> nat \<Rightarrow> key \<Rightarrow> bool" where
  "newer_commit e s k \<longleftrightarrow> (\<exists>m\<in>set (hist e). m_key m = k \<and> s < m_ts m)"

lemma input_core:
  assumes "engine_ok e"
  shows "\<exists>e0. core_ok e0 \<and> os_shards (op_input e) = co_shards e0 \<and> hist e0 = hist e \<and> active_snaps e0 = active_snaps e
    \<and> op_input e = os_new (co_shards e0) []"
  using assms sweep_core_ok(1) [of e]
  by (intro exI [of _ "if sync_writes e then sweep_tombstones e else e"]) (auto simp: engine_ok_def op_input_def os_new_def)

lemma not_newer_get:
  assumes ok: "engine_ok e" and s: "s \<in> set (bt_keys (active_snaps e))" and n: "\<not> newer_commit e s k"
  shows "get e k = truth (hist e) k s"
proof -
  obtain e0 where e0: "core_ok e0" "hist e0 = hist e" "active_snaps e0 = active_snaps e" "op_input e = os_new (co_shards e0) []"
    using input_core [OF ok] by blast
  then have "os_get (op_input e) k = truth (hist e) k s"
    using unchanged_value [of e0 s k "[]"] s n by (simp add: newer_commit_def)
  then show ?thesis by (simp add: os_get_input [OF ok])
qed

lemma commit_now_get:
  assumes ok: "engine_ok e" "write_queue e = []" and s: "tx_snapshot t \<in> set (bt_keys (active_snaps e))"
    and t: "txn_wf t" "tx_watches t = []" and run: "txn_commit_now io t e = (e', a)"
  defines "newer \<equiv> \<exists>k\<in>set (tx_reads t). newer_commit e (tx_snapshot t) k"
  shows "engine_ok e' \<and> write_queue e' = [] \<and>
    ((\<exists>x. a = AckIo x) \<and> get e' = get e
     \<or> newer \<and> a = AckConflict \<and> get e' = get e
     \<or> \<not> newer \<and> a = AckOk None \<and> get e' = (\<lambda>k. case bt_get (tx_writes t) k of None \<Rightarrow> get e k | Some v \<Rightarrow> live v))"
proof -
  let ?w = "tx_writes t" and ?reads = "txn_commit_reads t"
  obtain e1 where c: "submit_now io ?w ?reads None None e = (e1, a)" "e' = unpin (tx_snapshot t) e1"
    using run by (auto simp: txn_commit_now_def split: prod.splits)
  have wf: "bt_wf ?w" using t(1) by (simp add: txn_wf_def)
  have cl: "client_ok ?w None" using bt_wf_distinct [OF wf] by (simp add: client_ok_def)
  define pw where "pw = submitted ?w ?reads None None e"
  define r where "r = resolve (os_shards (op_input e)) pw []"
  note ev = submit_now_events [OF ok cl c(1) pw_def r_def]
  have core: "core_ok e" "core_ok e1" using ok ev by (auto simp: engine_ok_def)
  obtain e0 where e0: "core_ok e0" "os_shards (op_input e) = co_shards e0" "hist e0 = hist e" "active_snaps e0 = active_snaps e"
    using input_core [OF ok(1)] by blast
  have pw: "pw_op pw = None" "pw_reads pw = ?reads" "pw_incr pw = None"
    "pw_muts pw = map (\<lambda>(k, v). \<lparr>m_key = k, m_value = v, m_ts = clock e + 1\<rparr>) ?w"
    by (simp_all add: pw_def submitted_def mk_pending_def)
  have conf: "r = RConflict \<longleftrightarrow> newer"
    unfolding r_def resolve_conflict [OF pw(1)] pw(2) e0(2) newer_def
    using newer_exact [OF e0(1), of "tx_snapshot t"] s t(2) by (auto simp: e0 txn_commit_reads_def newer_commit_def)
  have app: "r = RApply None None" if "\<not> newer"
    using that unfolding conf [symmetric] by (auto simp: r_def resolve_def pw Let_def split: if_splits)
  have same: "get e1 = get e" if "events e1 = events e"
    using get_committed [OF core, of "[]"] that by (simp add: fun_eq_iff of_key_def)
  have muts: "submit_muts pw (RApply None None) = map (\<lambda>(k, v). \<lparr>m_key = k, m_value = v, m_ts = clock e + 1\<rparr>) ?w"
    by (simp add: submit_muts_def resolved_muts_def pw)
  have wrote: "get e1 = (\<lambda>k. case bt_get ?w k of None \<Rightarrow> get e k | Some v \<Rightarrow> live v)"
    if "events e1 = events e @ map Committed (submit_muts pw (RApply None None))"
    using get_committed [OF core that [unfolded muts]] by (simp add: of_key_writes [OF wf] fun_eq_iff split: option.split)
  have "engine_ok e1 \<and> write_queue e1 = [] \<and>
    ((\<exists>x. a = AckIo x) \<and> get e1 = get e
     \<or> newer \<and> a = AckConflict \<and> get e1 = get e
     \<or> \<not> newer \<and> a = AckOk None \<and> get e1 = (\<lambda>k. case bt_get ?w k of None \<Rightarrow> get e k | Some v \<Rightarrow> live v))"
  proof (cases newer)
    case True
    then have "r = RConflict" using conf by simp
    then show ?thesis using ev same True by (auto simp: ack_of_def submit_muts_def resolved_muts_def)
  next
    case False
    then show ?thesis using ev same app wrote by (auto simp: ack_of_def)
  qed
  then show ?thesis using unpin_ok_facts [of e1 "tx_snapshot t"] by (auto simp: c(2))
qed

text \<open>A run reads only what it records, so it goes the same way wherever these keys read the same.\<close>

lemma effect_moved:
  assumes "effect sh i pc st t = (fl, st', t')"
  shows "tx_snapshot t' = tx_snapshot t \<and> set (tx_reads t) \<subseteq> set (tx_reads t')
    \<and> ((\<forall>k\<in>set (tx_reads t'). get_at sh k (tx_snapshot t) = get_at sh' k s') \<longrightarrow>
        effect sh' i pc st (t\<lparr>tx_snapshot := s'\<rparr>) = (fl, st', t'\<lparr>tx_snapshot := s'\<rparr>))"
  using assms
  by (cases "(sh, i, pc, st, t)" rule: effect.cases)
    (auto simp: txn_view_def txn_get_def txn_put_def live_def split: option.splits)

lemma halts_moved:
  assumes "halts sh prog pc st t c r t'"
  shows "tx_snapshot t' = tx_snapshot t \<and> set (tx_reads t) \<subseteq> set (tx_reads t')
    \<and> ((\<forall>k\<in>set (tx_reads t'). get_at sh k (tx_snapshot t) = get_at sh' k s') \<longrightarrow>
        halts sh' prog pc st (t\<lparr>tx_snapshot := s'\<rparr>) c r (t'\<lparr>tx_snapshot := s'\<rparr>))"
  using assms
proof (induction rule: halts.induct)
  case (outside pc st t)
  then show ?case using halts.outside [of prog pc sh' st] by simp
next
  case (stop pc st t r st' t')
  then show ?case using effect_moved [OF stop(2), of sh' s'] by (auto intro: halts.stop)
next
  case (go pc st t pc' st' t' c r t'')
  then show ?case using effect_moved [OF go(2), of sh' s'] by (auto intro: halts.go)
qed

lemma record_quarantined:
  "bt_wf (rt_breakers rt) \<Longrightarrow> bt_get (rt_breakers (record_success name rt)) other =
     (if other = name then map_option (\<lambda>b. b\<lparr>br_errors := 0\<rparr>) (bt_get (rt_breakers rt) name) else bt_get (rt_breakers rt) other)"
  "bt_wf (rt_breakers rt) \<Longrightarrow> bt_get (rt_breakers (record_error name rt)) other =
     (if other = name
      then map_option (\<lambda>b. \<lparr>br_errors = br_errors b + 1,
              br_quarantined = if br_errors b + 1 \<ge> rt_threshold rt then 1 else br_quarantined b\<rparr>) (bt_get (rt_breakers rt) name)
      else bt_get (rt_breakers rt) other)"
  "bt_wf (rt_breakers rt) \<Longrightarrow> bt_wf (rt_breakers (record_success name rt)) \<and> bt_wf (rt_breakers (record_error name rt))"
  "rt_threshold (record_success name rt) = rt_threshold rt" "rt_threshold (record_error name rt) = rt_threshold rt"
  by (auto simp: record_success_def record_error_def Let_def bt_get_insert bt_wf_insert split: option.splits)

section \<open>The circuit breaker\<close>

text \<open>A sequence of invocations, each with its name, I/O and program.\<close>

fun invoke_all ::
    "(string \<times> flush_io \<times> instr list) list \<Rightarrow> runtime \<times> engine \<Rightarrow> reducer_result list \<times> (runtime \<times> engine)" where
  "invoke_all [] re = ([], re)"
| "invoke_all ((name, io, prog) # calls) re =
     (case invoke io name prog re of
        (r, re) \<Rightarrow> case invoke_all calls re of (rs, re) \<Rightarrow> (r # rs, re))"

lemma invoke_all_snoc:
  "invoke_all (calls @ [(name, io, prog)]) re =
     (case invoke_all calls re of (rs, re) \<Rightarrow> case invoke io name prog re of (r, re) \<Rightarrow> (rs @ [r], re))"
proof (induction calls arbitrary: re)
  case (Cons c calls)
  then show ?case by (cases c) (simp split: prod.split)
qed (simp split: prod.split)

definition aborted :: "reducer_result \<Rightarrow> bool" where
  "aborted r \<longleftrightarrow> (case r of ReducerAborted _ \<Rightarrow> True | _ \<Rightarrow> False)"

definition tripped :: "reducer_result list \<Rightarrow> bool" where
  "tripped rs \<longleftrightarrow> (\<exists>pre a b c post. rs = pre @ [a, b, c] @ post \<and> aborted a \<and> aborted b \<and> aborted c)"

definition results_of :: "string \<Rightarrow> (string \<times> 'a) list \<Rightarrow> reducer_result list \<Rightarrow> reducer_result list" where
  "results_of name calls rs = map snd (filter (\<lambda>(c, _). fst c = name) (zip calls rs))"

definition trail :: "reducer_result list \<Rightarrow> nat" where
  "trail rs = length (takeWhile aborted (rev rs))"

lemma trippedI: "aborted a \<Longrightarrow> aborted b \<Longrightarrow> aborted c \<Longrightarrow> tripped (pre @ a # b # c # post)"
  unfolding tripped_def by (intro exI [of _ pre] exI [of _ a] exI [of _ b] exI [of _ c] exI [of _ post]) simp

lemma tripped_Nil [simp]: "\<not> tripped []" "trail [] = 0"
  by (simp_all add: tripped_def trail_def)

lemma trail_snoc: "trail (rs @ [r]) = (if aborted r then trail rs + 1 else 0)"
  by (simp add: trail_def)

lemma tripped_snoc: "tripped (rs @ [r]) \<longleftrightarrow> tripped rs \<or> aborted r \<and> 2 \<le> trail rs"
proof
  assume "tripped (rs @ [r])"
  then obtain pre a b c post where e: "rs @ [r] = pre @ [a, b, c] @ post" "aborted a" "aborted b" "aborted c"
    by (auto simp: tripped_def)
  show "tripped rs \<or> aborted r \<and> 2 \<le> trail rs"
  proof (cases post rule: rev_cases)
    case Nil
    then have "rs = pre @ [a, b]" "r = c" using e(1) by simp_all
    then show ?thesis using e by (simp add: trail_def)
  next
    case (snoc post' x)
    then have "rs = pre @ a # b # c # post'" using e(1) by simp
    then show ?thesis using trippedI [OF e(2-4)] by simp
  qed
next
  assume "tripped rs \<or> aborted r \<and> 2 \<le> trail rs"
  then show "tripped (rs @ [r])"
  proof
    assume "tripped rs"
    then obtain pre a b c post where "rs = pre @ [a, b, c] @ post" "aborted a" "aborted b" "aborted c" by (auto simp: tripped_def)
    then show ?thesis using trippedI [of a b c pre "post @ [r]"] by simp
  next
    assume r: "aborted r \<and> 2 \<le> trail rs"
    obtain xs where xs: "rev rs = takeWhile aborted (rev rs) @ xs" using takeWhile_dropWhile_id [of aborted "rev rs"] by metis
    obtain b a ys where ys: "takeWhile aborted (rev rs) = b # a # ys"
      using r by (cases "takeWhile aborted (rev rs)" rule: remdups_adj.cases) (auto simp: trail_def)
    then have "aborted a" "aborted b" using set_takeWhileD [of _ aborted "rev rs"] by (metis list.set_intros)+
    moreover have "rs = rev xs @ rev ys @ [a, b]"
    proof -
      have "rev rs = b # a # ys @ xs" using xs ys by simp
      then show ?thesis by (metis append.assoc append_Cons append_Nil rev.simps(2) rev_append rev_rev_ident)
    qed
    ultimately show ?thesis
      using r unfolding tripped_def
      by (intro exI [of _ "rev xs @ rev ys"] exI [of _ a] exI [of _ b] exI [of _ r] exI [of _ "[]"]) simp
  qed
qed

definition breaker_ok :: "string \<Rightarrow> reducer_result list \<Rightarrow> runtime \<Rightarrow> bool" where
  "breaker_ok name rs rt \<longleftrightarrow>
     bt_wf (rt_breakers rt) \<and> rt_threshold rt = 3 \<and>
     (case bt_get (rt_breakers rt) name of
        None \<Rightarrow> rs = []
      | Some b \<Rightarrow>
          if tripped rs then br_quarantined b = 1
          else br_quarantined b = 0 \<and> trail rs < 3 \<and> br_errors b = of_nat (trail rs))"

lemma trail_small: "\<not> tripped rs \<Longrightarrow> trail rs < 3"
proof (induction rs rule: rev_induct)
  case Nil
  then show ?case by (simp add: trail_def)
next
  case (snoc r rs)
  then show ?case by (auto simp: tripped_snoc trail_snoc)
qed

lemma breaker_entry_ok:
  assumes "breaker_ok name rs rt" and "breaker_entry other rt = (b, rt1)"
  shows "breaker_ok name rs rt1 \<and> bt_get (rt_breakers rt1) other = Some b"
  using assms by (auto simp: breaker_ok_def breaker_entry_def Let_def bt_wf_insert bt_get_insert split: option.splits if_splits)

lemma invoke_cases:
  assumes "invoke io name prog (rt, e) = (r, (rt', e'))" and "breaker_entry name rt = (b, rt1)"
  shows "br_quarantined b = 1 \<and> r = ReducerQuarantined \<and> rt' = rt1
    \<or> br_quarantined b \<noteq> 1 \<and> (aborted r \<and> rt' = record_error name rt1 \<or> \<not> aborted r \<and> rt' = record_success name rt1)"
  using assms by (auto simp: invoke_defs aborted_def split: if_splits prod.splits sum.splits ack.splits)

lemma breaker_step:
  assumes ok: "breaker_ok name rs rt" and i: "invoke io other prog (rt, e) = (r, (rt', e'))"
  shows "breaker_ok name (if other = name then rs @ [r] else rs) rt'"
proof -
  obtain b rt1 where en: "breaker_entry other rt = (b, rt1)" by fastforce
  note e1 = breaker_entry_ok [OF ok en]
  then have wf: "bt_wf (rt_breakers rt1)" and th: "rt_threshold rt1 = 3" by (auto simp: breaker_ok_def)
  note rq = record_quarantined(1-3) [OF wf]
  show ?thesis
  proof (cases "other = name")
    case False
    then have "bt_get (rt_breakers rt') name = bt_get (rt_breakers rt1) name \<and> bt_wf (rt_breakers rt') \<and> rt_threshold rt' = 3"
      using invoke_cases [OF i en] wf th by (auto simp: rq record_quarantined(4,5))
    then show ?thesis using e1 False by (simp add: breaker_ok_def)
  next
    case True
    show ?thesis
    proof (cases "tripped rs")
      case t: True
      then have "br_quarantined b = 1" using e1 True by (auto simp: breaker_ok_def)
      then show ?thesis
        using invoke_cases [OF i en] e1 t True by (auto simp: breaker_ok_def tripped_snoc split: option.splits)
    next
      case t: False
      then have b: "br_quarantined b = 0" "trail rs < 3" "br_errors b = of_nat (trail rs)"
        using e1 True by (auto simp: breaker_ok_def)
      have "trail rs \<in> {0, 1, 2}" using b(2) by auto
      moreover have "\<not> (3 :: 32 word) \<le> 1" "\<not> (3 :: 32 word) \<le> 2" by (simp_all add: word_le_nat_alt)
      ultimately have n: "(br_errors b + 1 \<ge> 3) = (2 \<le> trail rs)" using b(3) by auto
      show ?thesis
        using invoke_cases [OF i en] e1 True t b n rq(1-3) th
        by (auto simp: breaker_ok_def record_quarantined(4,5) tripped_snoc trail_snoc add.commute)
    qed
  qed
qed

lemma results_snoc:
  "length calls = length rs \<Longrightarrow> results_of name (calls @ [(other, x)]) (rs @ [r]) =
     (if other = name then results_of name calls rs @ [r] else results_of name calls rs)"
  by (simp add: results_of_def)

lemma invoke_all_breaker:
  "invoke_all calls (rt_new n, e) = (rs, (rt', e')) \<Longrightarrow>
     length rs = length calls \<and> breaker_ok name (results_of name calls rs) rt'"
proof (induction calls arbitrary: rs rt' e' rule: rev_induct)
  case Nil
  then show ?case by (auto simp: breaker_ok_def rt_new_def results_of_def)
next
  case (snoc c calls)
  obtain other io prog where c: "c = (other, io, prog)" by (cases c)
  obtain rs1 rt1 e1 r where s: "invoke_all calls (rt_new n, e) = (rs1, (rt1, e1))" "invoke io other prog (rt1, e1) = (r, (rt', e'))"
    "rs = rs1 @ [r]"
    using snoc.prems by (auto simp: c invoke_all_snoc split: prod.splits)
  show ?case
    using snoc.IH [OF s(1)] breaker_step [OF _ s(2), of name "results_of name calls rs1"]
    by (auto simp: s(3) c results_snoc split: if_splits)
qed

section \<open>Claims\<close>

text \<open>
  Claim C38. Metering is exact and every run ends. A program whose unmetered run halts after cost
  \<open>c\<close> gives, under any budget of at least \<open>c\<close>, that very result and transaction and uses exactly
  \<open>c\<close>; under a smaller budget, and when it never halts, it is stopped with \<open>OutOfFuel\<close>.
\<close>

theorem metering_exact:
  "(\<forall>c r t'. halts sh prog 0 [] t c r t' \<longrightarrow>
      (if c \<le> budget
       then \<exists>m. vm_run sh prog budget t = (r, m, t') \<and> fuel_used m = c
       else fst (vm_run sh prog budget t) = Inl OutOfFuel))
   \<and> (\<not> (\<exists>c r t'. halts sh prog 0 [] t c r t') \<longrightarrow> fst (vm_run sh prog budget t) = Inl OutOfFuel)"
proof -
  have m: "vm_stack (vm_new budget) = []" "vm_fuel (vm_new budget) = budget" "vm_budget (vm_new budget) = budget"
    by (simp_all add: vm_new_def)
  have "if c \<le> budget then \<exists>m. vm_run sh prog budget t = (r, m, t') \<and> fuel_used m = c
      else fst (vm_run sh prog budget t) = Inl OutOfFuel" if "halts sh prog 0 [] t c r t'" for c r t'
    using halts_metered [OF that m(1), unfolded m] by (auto simp: vm_run_def fuel_used_def split: if_splits)
  moreover have "\<exists>c r t'. halts sh prog 0 [] t c r t'" if "fst (vm_run sh prog budget t) \<noteq> Inl OutOfFuel"
    using metered_halts [of sh prog 0 "vm_new budget" t, unfolded m] that
    by (cases "vm_run sh prog budget t") (auto simp: vm_run_def)
  ultimately show ?thesis by blast
qed

theorem metering_exact_witness:
  "\<exists>m t'. vm_run empty_shards (counter_reducer [107] 5) 26 \<lparr>tx_snapshot = 0, tx_writes = [], tx_reads = [], tx_watches = []\<rparr>
      = (Inr (Some 5), m, t') \<and> fuel_used m = 26"
proof -
  let ?t = "\<lparr>tx_snapshot = 0, tx_writes = [], tx_reads = [], tx_watches = []\<rparr>"
  have "txn_view empty_shards ?t [107] = None" by (simp add: txn_view_def get_at_def)
  then show ?thesis
    using metering_exact [of empty_shards "counter_reducer [107] 5" ?t 26] counter_halts [of empty_shards "[107]" 5 ?t] by fastforce
qed

text \<open>
  Claim C39. A reducer is atomic among concurrent commits. It begins in a state \<open>e\<close>, the machine
  runs in a state \<open>e1\<close> and it commits in a state \<open>e2\<close>; in between any other clients commit, and only
  \<open>FLUSHALL\<close> does not run. One that succeeds leaves exactly what the whole program would have done,
  for the same fuel and with the same output, had it run alone on the state it commits in; one that
  fails, in the machine or in the commit, changes nothing. A program that ended well is refused if and
  only if a key it read was committed after its snapshot, or the I/O of its commit failed.
\<close>

theorem reducer_atomic:
  assumes reach: "engine_step\<^sup>*\<^sup>* (fresh_engine durable) e"
    and enter: "reducer_enter name (rt, e) = (Some t0, (rt0, e0))"
    and first: "(holding_step (tx_snapshot t0))\<^sup>*\<^sup>* e0 e1" and run: "vm_run (co_shards e1) prog (rt_fuel rt) t0 = (r, m, t)"
    and second: "(holding_step (tx_snapshot t0))\<^sup>*\<^sup>* e1 e2" and q: "write_queue e2 = []"
    and leave: "reducer_leave io name (r, m, t) (rt2, e2) = (res, (rt3, e3))"
  shows "engine_ok e3 \<and> write_queue e3 = [] \<and> \<not> is_quarantined name rt \<and>
    (case res of
       ReducerOk used out \<Rightarrow>
         used \<le> rt_fuel rt
         \<and> (\<exists>t'. halts (co_shards e2) prog 0 [] (fst (txn_begin e2)) used (Inr out) t' \<and> get e3 = txn_view (co_shards e2) t')
     | ReducerAborted x \<Rightarrow> get e3 = get e2
     | ReducerQuarantined \<Rightarrow> False)
    \<and> (\<forall>out. r = Inr out \<longrightarrow>
        (res = ReducerAborted (Trapped ''commit conflict'') \<longleftrightarrow>
           (\<exists>k\<in>set (tx_reads t). \<exists>m\<in>set (hist e2). m_key m = k \<and> snapshot e < m_ts m)
           \<or> (\<exists>x. snd (txn_commit_now io t e2) = AckIo x)))"
proof -
  let ?s = "snapshot e"
  have e0: "t0 = fst (txn_begin e)" "e0 = pin ?s e" "\<not> is_quarantined name rt"
    using enter by (auto simp: reducer_enter_def txn_begin_def breaker_entry_def is_quarantined_def Let_def
        split: if_splits option.splits)
  then have t0: "tx_snapshot t0 = ?s" "tx_writes t0 = []" "tx_reads t0 = []" "tx_watches t0 = []"
    by (simp_all add: txn_begin_def)
  have ok0: "engine_ok e0" using engine_step_ok [OF engine_step.pin] reachable_ok [OF reach fresh_ok] by (simp add: e0(2))
  have held0: "?s \<in> set (bt_keys (active_snaps e0))"
    using ok0 by (simp add: e0(2) pin_def keys_bt_insert)
  note h1 = holding_run_truth [OF first [unfolded t0(1)] ok0 held0]
  then have ok1: "engine_ok e1" and held1: "?s \<in> set (bt_keys (active_snaps e1))" by auto
  note h2 = holding_run_truth [OF second [unfolded t0(1)] ok1 held1]
  then have ok2: "engine_ok e2" and held2: "?s \<in> set (bt_keys (active_snaps e2))" by auto
  have tx: "txn_wf t" "tx_snapshot t = ?s" "tx_watches t = []"
    using vm_loop_txn [OF run [unfolded vm_run_def]] t0 by (auto simp: txn_wf_def)
  show ?thesis
  proof (cases r)
    case (Inl x)
    then show ?thesis using leave e0(3) unpin_ok_facts [OF ok2, of "tx_snapshot t"] q by (auto simp: reducer_leave_def)
  next
    case (Inr out)
    obtain e' a where c: "txn_commit_now io t e2 = (e', a)" by fastforce
    note cg = commit_now_get [OF ok2 q _ tx(1,3) c, unfolded tx(2), OF held2]
    obtain k where k: "halts (co_shards e1) prog 0 [] t0 k r t"
      using metered_halts [OF run [unfolded vm_run_def]] Inr by (auto simp: vm_new_def)
    then have fuel: "k \<le> rt_fuel rt \<and> fuel_used m = k"
      using halts_metered [OF k, of "vm_new (rt_fuel rt)"] run Inr
      by (auto simp: vm_run_def vm_new_def fuel_used_def split: if_splits)
    have res: "res = (case a of AckOk _ \<Rightarrow> ReducerOk (fuel_used m) out | _ \<Rightarrow> ReducerAborted (Trapped ''commit conflict''))" "e3 = e'"
      using leave by (auto simp: reducer_leave_def Inr c split: ack.splits)
    have serial: "\<exists>t'. halts (co_shards e2) prog 0 [] (fst (txn_begin e2)) k r t'
        \<and> txn_view (co_shards e2) t' = (\<lambda>k. case bt_get (tx_writes t) k of None \<Rightarrow> get e2 k | Some v \<Rightarrow> live v)"
      if n: "\<forall>k\<in>set (tx_reads t). \<not> newer_commit e2 ?s k"
    proof (intro exI conjI)
      have "get_at (co_shards e1) k ?s = get_at (co_shards e2) k (snapshot e2)" if "k \<in> set (tx_reads t)" for k
        using that not_newer_get [OF ok2 held2, of k] n h2 [of k] core_ok_pinned [of e1 ?s k] ok1 held1
        by (simp add: engine_ok_def get_def)
      then have "halts (co_shards e2) prog 0 [] (t0\<lparr>tx_snapshot := snapshot e2\<rparr>) k r (t\<lparr>tx_snapshot := snapshot e2\<rparr>)"
        using halts_moved [OF k, of "co_shards e2" "snapshot e2"] t0(1) by simp
      moreover have "fst (txn_begin e2) = t0\<lparr>tx_snapshot := snapshot e2\<rparr>" by (simp add: e0(1) txn_begin_def)
      ultimately show "halts (co_shards e2) prog 0 [] (fst (txn_begin e2)) k r (t\<lparr>tx_snapshot := snapshot e2\<rparr>)" by simp
    qed (simp add: txn_view_def get_def fun_eq_iff split: option.split)
    show ?thesis
      using cg serial fuel e0(3) unfolding res Inr c newer_commit_def by (fastforce split: ack.splits)
  qed
qed

text \<open>Another client commits the key a reducer has read: the reducer is refused.\<close>

theorem reducer_atomic_witness:
  defines "e0 \<equiv> pin 0 (fresh_engine False)"
  defines "e2 \<equiv> fst (submit_direct [([107], VInt 2)] [] None None e0)"
  shows "fst (reducer_leave io_fine ''r''
      (vm_run (co_shards e0) [LoadInt [107], Return] 100000 (fst (txn_begin (fresh_engine False)))) (rt_new 4, e2)) =
    ReducerAborted (Trapped ''commit conflict'')"
proof -
  let ?t0 = "fst (txn_begin (fresh_engine False))" and ?prog = "[LoadInt [107], Return]" and ?w = "[([107], VInt 2)]"
  have t0: "?t0 = \<lparr>tx_snapshot = 0, tx_writes = [], tx_reads = [], tx_watches = []\<rparr>" "tx_snapshot ?t0 = 0"
    by (simp_all add: txn_begin_def snapshot_def fresh_engine_def)
  obtain rt0 where enter: "reducer_enter ''r'' (rt_new 4, fresh_engine False) = (Some ?t0, (rt0, e0))"
    by (simp add: reducer_enter_def breaker_entry_def rt_new_def Let_def txn_begin_def e0_def snapshot_def fresh_engine_def)
  have sh: "co_shards e0 = empty_shards" by (simp add: e0_def pin_def fresh_engine_def)
  have v: "txn_get (co_shards e0) [107] ?t0 = (None, ?t0\<lparr>tx_reads := [[107]]\<rparr>)"
    unfolding t0(1) by (simp add: txn_get_def sh get_at_def)
  obtain m where run: "vm_run (co_shards e0) ?prog (rt_fuel (rt_new 4)) ?t0 = (Inr (Some 0), m, ?t0\<lparr>tx_reads := [[107]]\<rparr>)"
    by (simp add: vm_run_def vm_new_def rt_new_def vm_loop.simps burn_def vm_instr_def v vm_push_def)
  obtain a where d: "submit_direct ?w [] None None e0 = (e2, a)" by (metis e2_def prod.collapse)
  have s: "\<not> sync_writes e0" "client_ok ?w None" by (simp_all add: e0_def pin_def fresh_engine_def client_ok_def)
  have f: "events e2 = [Committed \<lparr>m_key = [107], m_value = VInt 2, m_ts = 1\<rparr>]" "0 \<in> set (bt_keys (active_snaps e2))"
    "write_queue e2 = []"
    by (simp_all add: e2_def e0_def submit_direct_def tick_simps resolve_def mk_pending_def pin_def fresh_engine_def
        apply_to_engine_def bt_keys_def Let_def split: prod.split)
  have hold: "(holding_step 0)\<^sup>*\<^sup>* e0 e2"
    using engine_step.direct [OF s, of "[]" None] d f
    by (intro r_into_rtranclp) (simp add: holding_step_def wipes_def e0_def pin_def fresh_engine_def)
  have "hist e2 = [\<lparr>m_key = [107], m_value = VInt 2, m_ts = 1\<rparr>]" using history_committed [of "[\<lparr>m_key = [107], m_value = VInt 2, m_ts = 1\<rparr>]"] by (simp add: hist_def f(1))
  moreover obtain res rt3 e3 where leave: "reducer_leave io_fine ''r'' (Inr (Some 0), m, ?t0\<lparr>tx_reads := [[107]]\<rparr>) (rt_new 4, e2)
      = (res, (rt3, e3))" by (metis surj_pair)
  ultimately have "res = ReducerAborted (Trapped ''commit conflict'')"
    using reducer_atomic [OF rtranclp.rtrancl_refl enter _ run _ f(3) leave, unfolded t0(2)] hold
    by (simp add: snapshot_def fresh_engine_def)
  moreover have "rt_fuel (rt_new 4) = 100000" by (simp add: rt_new_def)
  ultimately show ?thesis using run leave by simp
qed

text \<open>
  Claim C40. The circuit breaker trips exactly on three failures in a row. After any sequence of
  invocations of any reducers from a new runtime, a reducer is quarantined if and only if three
  consecutive invocations of it have aborted; from then on it is not run, until it is re-enabled.
\<close>

theorem breaker_exact:
  assumes "invoke_all calls (rt_new n, e) = (rs, (rt', e'))"
  shows "(is_quarantined name rt' \<longleftrightarrow>
      (\<exists>pre a b c post. results_of name calls rs = pre @ [ReducerAborted a, ReducerAborted b, ReducerAborted c] @ post))
    \<and> (is_quarantined name rt' \<longrightarrow> invoke io name prog (rt', e') = (ReducerQuarantined, (rt', e')))
    \<and> \<not> is_quarantined name (reenable name rt')"
proof -
  note b = invoke_all_breaker [OF assms, of name]
  have "is_quarantined name rt' \<longleftrightarrow> tripped (results_of name calls rs)"
    using b by (auto simp: breaker_ok_def is_quarantined_def split: option.splits if_splits)
  moreover have "aborted r \<longleftrightarrow> (\<exists>x. r = ReducerAborted x)" for r by (cases r) (simp_all add: aborted_def)
  ultimately have "is_quarantined name rt' \<longleftrightarrow>
      (\<exists>pre a b c post. results_of name calls rs = pre @ [ReducerAborted a, ReducerAborted b, ReducerAborted c] @ post)"
    by (auto simp: tripped_def) blast+
  moreover have "\<not> is_quarantined name (reenable name rt')"
    using b by (auto simp: is_quarantined_def reenable_def breaker_ok_def bt_get_insert split: option.splits)
  ultimately show ?thesis
    by (auto simp: is_quarantined_def invoke_defs breaker_entry_def split: option.splits)
qed

theorem breaker_exact_witness:
  defines "run \<equiv> invoke_all [(''r'', io_fine, [Pop])] (rt_new 4, fresh_engine True)"
  shows "\<not> is_quarantined ''r'' (fst (snd run)) \<and> \<not> is_quarantined ''r'' (reenable ''r'' (fst (snd run)))"
proof -
  have "length (results_of ''r'' [(''r'', io_fine, [Pop])] (fst run)) = 1"
    by (simp add: run_def results_of_def split: prod.split)
  then have "\<nexists>pre a b c post. results_of ''r'' [(''r'', io_fine, [Pop])] (fst run)
      = pre @ [ReducerAborted a, ReducerAborted b, ReducerAborted c] @ post" by auto
  then show ?thesis
    using breaker_exact [of "[(''r'', io_fine, [Pop])]" 4 "fresh_engine True" "fst run" "fst (snd run)" "snd (snd run)" "''r''"]
    by (simp add: run_def)
qed

end
