(* ===== verification/Spec2Isabelle.thy ===== *)
theory Spec2Isabelle
  imports Decimal Engine_Reads Group_Ops Checkpoint Wipes Txn Acl_Proofs Hlc Crdt Expiry Hash_Spec List_Spec Ks_Generic Ks_List Ks_Groups Mirrors Reducer
begin

text \<open>
  StrikeDB: one storage engine under a Redis-compatible server.  Paths below are under \<open>src/crates\<close>.

  \<^bold>\<open>The program and how its parts interact.\<close>  A connection parses commands (\<open>protocol\<close>), checks them
  against the access control (\<open>server/src/acl.rs\<close>) and runs them on the keyspace
  (\<open>server/src/keyspace.rs\<close> and \<open>keyspace/stream.rs\<close>).  A command is executed against the \<open>Store\<close>
  trait: reads on a snapshot transaction, writes as an operation of the commit path.  The engine
  (\<open>storage/src/engine.rs\<close>) keeps version chains in 32 shards; a flusher takes the queued writes of a
  round, resolves them in order, appends them as frames to the write-ahead log
  (\<open>storage/src/wal.rs\<close>), syncs once and applies them.  Checkpoints write a snapshot file and drop the
  log before it.  Beside the engine the keyspace holds two mirrors in memory, the expiry index and
  the collection flag.  Reducers (\<open>compute\<close>) run metered programs in transactions; \<open>consensus\<close> has
  the clocks and replicated types.

  \<^bold>\<open>Theories and what they model.\<close>
  \<^item> \<open>Prelude\<close>: bytes, ordered maps (\<open>BTreeMap\<close> and \<open>HashMap\<close> as sorted association lists, \<open>bt_*\<close>),
    and the integer and slice operations of Rust's library that the sources use.
  \<^item> Storage: \<open>Value_Codec\<close> (\<open>value.rs\<close>), \<open>Decimal\<close> (integer text, \<open>parse_strict_i64\<close>), \<open>Crc32\<close> (\<open>crc.rs\<close>),
    \<open>Wal\<close> (\<open>wal.rs\<close>: the file with the outcome of every call as an argument), \<open>Records\<close> (mutations, log
    records, the snapshot file), \<open>Chain\<close> (\<open>Chain\<close>, pruning), \<open>Shards\<close> (\<open>shard_of\<close>, \<open>apply_muts\<close>, point reads
    and scans), \<open>Op_Store\<close> (\<open>OpStore\<close>), \<open>Engine\<close> (\<open>FlushCore\<close>, \<open>resolve\<close>, the flusher, \<open>submit\<close>, \<open>flush_all\<close>),
    \<open>Recovery\<close> (\<open>Engine::open\<close>, \<open>checkpoint\<close>, \<open>dump\<close>), \<open>Txn\<close> (\<open>Txn\<close>), \<open>Submit\<close> (\<open>submit\<close> by a client alone in
    its round).
  \<^item> Server: \<open>Resp\<close> (\<open>protocol/src/lib.rs\<close>), \<open>Utf8\<close> (\<open>from_utf8_lossy\<close>), \<open>Sha256\<close>, \<open>Glob\<close>, \<open>Commands\<close> (the tables of
    categories, key positions and writes), \<open>Acl\<close> (\<open>acl.rs\<close>).
  \<^item> Keyspace: \<open>Keys\<close> and \<open>Header\<close> (key layout, \<open>Meta\<close>, error replies), \<open>Float_Text\<close>, \<open>Expiry\<close>, \<open>Store_Ops\<close> (the
    trait as a table of methods), \<open>Context\<close> (\<open>Ctx\<close>; a command is a function from the context to a reply or
    a value and the new context), then one theory per family of commands: \<open>Ks_Strings\<close>, \<open>Ks_Generic\<close>,
    \<open>Ks_Hash\<close>, \<open>Ks_List\<close>, \<open>Ks_Set\<close>, \<open>Ks_Zset\<close>, and for streams \<open>Stream_Ids\<close>, \<open>Ks_Stream\<close>, \<open>Ks_Groups\<close>.  \<open>Keyspace\<close> is
    the dispatcher \<open>exec\<close>, \<open>run\<close>, \<open>run_writes\<close>, \<open>exec_multi\<close>, \<open>reap\<close>, \<open>reload\<close> and \<open>fast_keyspace\<close>; \<open>Ks_Steps\<close> adds
    the replicated writes of \<open>replication.rs\<close>.
  \<^item> \<open>Hlc\<close> and \<open>Crdt\<close> (\<open>consensus\<close>), \<open>Reducer\<close> (\<open>compute\<close>).

  \<^bold>\<open>What the lemmas show.\<close>
  \<^item> Codecs and files: round trips of values, records, frames and the snapshot file, with what a torn or
    damaged file still gives (\<open>Records\<close>, \<open>Wal\<close>); the checksum
    sees every burst of at most four bytes (\<open>Crc32\<close>).  Codecs that are prefix-free are the locale
    \<open>byte_codec\<close> (\<open>Value_Codec\<close>).
  \<^item> The engine refines its committed history: \<open>engine_ok\<close> (\<open>Engine\<close>) is kept by every step
    (\<open>Engine_Safety\<close>), which gives snapshot isolation and exact conflict detection.  \<open>Group_Commit\<close> shows a
    round equal to committing one by one for operations that do not look outside their keys; the locale
    \<open>twin_store\<close> (\<open>Ks_Agree\<close>, \<open>Ks_Agree_Cmds\<close>) proves this of every keyspace command, whose range reads stay in the
    shard of its key, and \<open>Group_Ops\<close> interprets it on \<open>OpStore\<close>.  \<open>Checkpoint\<close> is the invariant of memory, log,
    segment and snapshot file through rotations, failures and crashes: a fold that stops half-way leaves a
    torn copy (\<open>fold_outcome\<close>), a log that cannot be reopened leaves the handle on the segment
    (\<open>log_place\<close>), and only a checkpoint that folds onto a torn segment is excluded; \<open>Wipes\<close> and \<open>Engine_Reads\<close> hold runs where the code falls
    short of it.
  \<^item> The locales: \<open>ordered_map\<close> (\<open>Prelude\<close>) is the contract of the maps; \<open>kv_store\<close> (\<open>Op_Store\<close>) has the laws of point access; \<open>frame_store\<close> adds that range reads stay
    in range; \<open>command_store\<close> that they return exactly the live entries (\<open>Store_Ops\<close>).  \<open>OpStore\<close> and \<open>Txn\<close>
    interpret them.  Inside \<open>command_store\<close>, \<open>Ks_Spec\<close> gives commands a specification on the view of the store,
    from which \<open>Hash_Spec\<close> and \<open>List_Spec\<close> prove that hashes implement maps and lists implement
    sequences.  Inside \<open>frame_store\<close>, \<open>Ks_Frame\<close> is a Hoare triple with rules (\<open>keep\<close>), and \<open>Ks_Safe\<close> and
    \<open>Ks_Safe_Stream\<close> derive it for every command.
  \<^item> \<open>Keyspace_Proofs\<close>, \<open>Ks_Steps\<close> and \<open>Mirrors\<close> lift that triple to the server: the mirrors follow the engine
    through every step that changes them, with what a failed reap, or headers without elements, may leave
    behind (\<open>drift\<close>); failing commands leave nothing, fast paths agree with the executor.
  \<^item> \<open>Acl_Proofs\<close>: the last matching rule decides, the fast path of the gate is invisible, saving and
    loading.  \<open>Glob\<close>: the matcher with its single backtrack point against the recursive definition.
  \<^item> \<open>Crdt\<close>: the locale \<open>replicated\<close> proves convergence from the laws of a merge; the counters interpret it.
  \<^item> \<open>Reducer\<close>: metered runs against unmetered ones, the circuit breaker, and atomicity: other commits run
    between the begin, the run and the commit of a reducer, and one that commits has done what the whole
    program does on the state it commits in.

  \<^bold>\<open>Representation.\<close>  Counters that wrap or are compared as machine integers are words (\<open>i64\<close> values, header
  positions, stream identifiers, error counts); lengths, timestamps and deadlines are naturals and the
  places where the code saturates or checks are written out.  A double is its bit pattern; decimal text of
  doubles is exact rational arithmetic.  Byte strings are lists of 8-bit words, names and messages are
  character lists.  What the program reads from outside is an argument: the outcome of each file
  operation, clock readings, the values of \<open>rand()\<close>; a supply that is too short ends the command with an
  error reply that stands for no run.  Locks are that the steps of a theory happen one at a time: a
  round of the flusher is one step, and so is a command with what it notes in the mirrors after its commit.

  \<^bold>\<open>Bounds and fuel.\<close>  Loops recurse structurally or on a measure.  Fuel occurs in \<open>pages\<close> (one turn for each
  entry of the range and one more, as every turn passes an entry; \<open>Paging\<close> proves it enough).  The
  machine of \<open>Reducer\<close> is metered by the program itself.  List positions start at the middle of the 64-bit range;
  \<open>list_room\<close> bounds how far a list may have moved for the sequence refinement.

  \<^bold>\<open>Not modelled.\<close>  The threads and condition variables around the steps; time-outs and blocking reads; sockets and
  the event loop; \<open>views/src/vector.rs\<close> and the GPU, memory, retrieval, routing and tiering layers, whose
  behaviour rests on floating-point kernels, device calls and measured latencies; benchmarks, demos and
  bindings.  Lower-casing of names handles ASCII letters only.  Creating a backup name and renaming back after a failed
  wipe are taken to succeed.
\<close>

end
